(* ===== verification/Rust_Prelude.thy ===== *)
theory Rust_Prelude
  imports Main "HOL-Library.Word"
begin

text \<open>
  The part of Rust and of its standard library that the modelled code uses.

  Machine integers come in two shapes. Code that works on the bits of an integer (bit tricks,
  on-disk encodings, checksums, bitmap words) uses \<open>'n word\<close>. Code that counts and compares
  block numbers uses \<open>nat\<close> with the bound \<open>2 ^ 64\<close> of an \<open>u64\<close> written out at each
  operation that can leave it; \<open>usize\<close> is the 64 bit one.

  Every modelled operation returns an \<open>outcome\<close>: a value, one of the errors of
  \<open>NvFsError\<close> in \<open>src/storage/src/fs/mod.rs\<close>, or \<open>Panic\<close>. \<open>Panic\<close> is what a build
  with checks does on an overflow, an index out of range, an \<open>unwrap\<close> of \<open>None\<close> or a
  failed \<open>debug_assert\<close>, and what the macro \<open>nvfs_err_internal\<close> does there; a release
  build goes on with the error \<open>Internal\<close> instead. A run that does not panic is also a run of the
  release build, so a theorem that some operation returns \<open>Ok\<close> speaks of both.

  A memory reservation (\<open>try_reserve\<close>, \<open>try_reserve_exact\<close>) can fail for reasons outside
  of the program; the operations that make one take its answer as a parameter.
\<close>

unbundle bit_operations_syntax

section \<open>Names\<close>

type_synonym u8 = "8 word"
type_synonym u16 = "16 word"
type_synonym u32 = "32 word"
type_synonym u64 = "64 word"

abbreviation u64_bound :: nat where
  "u64_bound \<equiv> 2 ^ 64"

named_theorems outcome_simps \<open>rewrite rules of the outcome monad and of the checked operations\<close>
named_theorems bits_simps \<open>bits of the words the modelled functions compute\<close>

section \<open>Errors and outcomes\<close>

datatype format_error =
    InvalidDeviceParameter
  | InvalidImageHeader
  | UnsupportedFormatVersion
  | InvalidImageLayoutConfig
  | UnsupportedImageLayoutConfig
  | UnsupportedCryptoAlgorithm
  | InconsistentBackupMkFsInfoHeader
  | InvalidAuxFsMetadataChecksum
  | InvalidAuxFsMetadataSize
  | InvalidAuxFsMetadataExtent
  | UnalignedAuxFsMetadataExtent
  | IncoherentAuxFsMetadataExtents
  | InconsistentAuxFsMetadataExtentsChain
  | InvalidAuxFsMetadataExtentFormat
  | InvalidAuxFsMetadataFormat
  | InvalidSaltLength
  | IoBlockSizeNotSupportedByDevice
  | InvalidImageSize
  | InvalidAuthTreeConfig
  | UnsupportedAuthTreeConfig
  | UnalignedAuthTreeExtents
  | InvalidAuthTreeDimensions
  | InvalidAllocationBitmapFileConfig
  | UnalignedAllocationBitmapFileExtents
  | InvalidAllocationBitmapFileSize
  | InconsistentAllocBitmapFileExtents
  | InvalidDigestLength
  | InvalidFileSize
  | BlockOutOfRange
  | InvalidExtents
  | InvalidPadding
  | InvalidIndexConfig
  | InvalidIndexNode
  | InvalidIndexRootExtents
  | SpecialInodeMissing
  | UnalignedJournalExtents
  | InvalidJournalLogFieldTagEncoding
  | InvalidJournalLogFieldLengthEncoding
  | InvalidJournalLogFieldTag
  | JournalLogFieldLengthOverflow
  | IncompleteJournalLog
  | UnexpectedJournalLogField
  | JournalLogFieldLengthOutOfBounds
  | ExcessJournalLogFieldLength
  | InvalidJournalExtentsCoveringAuthDigestsFormat
  | InvalidJournalExtentsCoveringAuthDigestsEntry
  | UnexpectedJournalExtentsCoveringAuthDigestsEntry
  | InvalidJournalApplyWritesScriptFormat
  | InvalidJournalApplyWritesScriptEntry
  | InvalidJournalUpdateAuthDigestsScriptFormat
  | InvalidJournalUpdateAuthDigestsScriptEntry
  | InvalidJournalTrimsScriptFormat
  | InvalidJournalTrimsScriptEntry

datatype nvfs_io_error = RegionOutOfRange | RegionNotMapped | IoFailure

datatype crypto_error =
    CryptoMemoryAllocationFailure
  | CryptoInternal
  | CryptoBufferStateIndeterminate
  | CryptoRngFailure
  | CryptoInsufficientSeedLength
  | CryptoRandomSamplingRetriesExceeded
  | CryptoRequestTooBig
  | CryptoNoKey
  | CryptoKeySize
  | CryptoKeyBinding
  | CryptoSignatureVerificationFailure
  | CryptoUnsupportedSecurityStrength
  | CryptoUnsupportedParams
  | CryptoUnspecifiedFailure
  | CryptoInvalidParams
  | CryptoInvalidIV
  | CryptoInvalidMessageLength
  | CryptoInvalidPadding
  | CryptoInvalidPoint
  | CryptoInvalidResult

datatype nvfs_error =
    Internal
  | PermanentInternalFailure
  | MemoryAllocationFailure
  | Retry
  | OperationNotSupported
  | IoError nvfs_io_error
  | CryptoError crypto_error
  | FsFormatError format_error
  | DimensionsNotSupported
  | AuthenticationFailure
  | NoSpace
  | FailedDataUpdateRead
  | InodeReserved

datatype 'a outcome = Ok 'a | Err nvfs_error | Panic

text \<open>The macro \<open>nvfs_err_internal!()\<close> of \<open>fs/mod.rs\<close> panics in a build with debug assertions.\<close>

abbreviation nvfs_err_internal :: "'a outcome" where
  "nvfs_err_internal \<equiv> Panic"

definition and_then :: "'a outcome \<Rightarrow> ('a \<Rightarrow> 'b outcome) \<Rightarrow> 'b outcome" where
  "and_then m f = (case m of Ok x \<Rightarrow> f x | Err e \<Rightarrow> Err e | Panic \<Rightarrow> Panic)"

definition debug_assert :: "bool \<Rightarrow> 'a outcome \<Rightarrow> 'a outcome" where
  "debug_assert P k = (if P then k else Panic)"

lemma and_then_simps [simp]:
  "and_then (Ok x) f = f x"
  "and_then (Err e) f = Err e"
  "and_then Panic f = Panic"
  by (simp_all add: and_then_def)

lemma and_then_eq_Ok [outcome_simps]:
  "and_then m f = Ok y \<longleftrightarrow> (\<exists>x. m = Ok x \<and> f x = Ok y)"
  by (cases m) auto

lemma and_then_eq_Err [outcome_simps]:
  "and_then m f = Err e \<longleftrightarrow> m = Err e \<or> (\<exists>x. m = Ok x \<and> f x = Err e)"
  by (cases m) auto

lemma and_then_cong [fundef_cong]:
  "m = m' \<Longrightarrow> (\<And>x. m' = Ok x \<Longrightarrow> f x = g x) \<Longrightarrow> and_then m f = and_then m' g"
  by (cases m') auto

lemma debug_assert_cong [fundef_cong]:
  "P = Q \<Longrightarrow> (Q \<Longrightarrow> k = k') \<Longrightarrow> debug_assert P k = debug_assert Q k'"
  by (simp add: debug_assert_def)

lemma debug_assert_True [simp]: "debug_assert True k = k"
  by (simp add: debug_assert_def)

lemma debug_assert_False [simp]: "debug_assert False k = Panic"
  by (simp add: debug_assert_def)

lemma debug_assert_eq_Ok [outcome_simps]: "debug_assert P k = Ok x \<longleftrightarrow> P \<and> k = Ok x"
  by (simp add: debug_assert_def)

lemma debug_assert_eq_Err [outcome_simps]: "debug_assert P k = Err e \<longleftrightarrow> P \<and> k = Err e"
  by (simp add: debug_assert_def)

section \<open>Checked arithmetic on unsigned 64 bit values\<close>

definition add_u64 :: "nat \<Rightarrow> nat \<Rightarrow> nat outcome" where
  "add_u64 a b = (if a + b < u64_bound then Ok (a + b) else Panic)"

definition sub_u64 :: "nat \<Rightarrow> nat \<Rightarrow> nat outcome" where
  "sub_u64 a b = (if b \<le> a then Ok (a - b) else Panic)"

lemma add_u64_Ok [simp]: "a + b < u64_bound \<Longrightarrow> add_u64 a b = Ok (a + b)"
  by (simp add: add_u64_def)

lemma sub_u64_Ok [simp]: "b \<le> a \<Longrightarrow> sub_u64 a b = Ok (a - b)"
  by (simp add: sub_u64_def)

lemma add_u64_eq_Ok [outcome_simps]:
  "add_u64 a b = Ok c \<longleftrightarrow> a + b < u64_bound \<and> c = a + b"
  by (auto simp: add_u64_def)

lemma sub_u64_eq_Ok [outcome_simps]: "sub_u64 a b = Ok c \<longleftrightarrow> b \<le> a \<and> c = a - b"
  by (auto simp: sub_u64_def)

lemma add_u64_not_Err [simp]: "add_u64 a b \<noteq> Err e"
  by (simp add: add_u64_def)

lemma sub_u64_not_Err [simp]: "sub_u64 a b \<noteq> Err e"
  by (simp add: sub_u64_def)

section \<open>Vectors\<close>

text \<open>The operations of \<open>Vec\<close> the code uses, with their panics on an index out of range.\<close>

definition vec_get :: "'a list \<Rightarrow> nat \<Rightarrow> 'a outcome" where
  "vec_get xs i = (if i < length xs then Ok (xs ! i) else Panic)"

definition vec_set :: "'a list \<Rightarrow> nat \<Rightarrow> 'a \<Rightarrow> 'a list outcome" where
  "vec_set xs i x = (if i < length xs then Ok (xs[i := x]) else Panic)"

definition vec_insert :: "'a list \<Rightarrow> nat \<Rightarrow> 'a \<Rightarrow> 'a list outcome" where
  "vec_insert xs i x = (if i \<le> length xs then Ok (take i xs @ x # drop i xs) else Panic)"

definition vec_remove :: "'a list \<Rightarrow> nat \<Rightarrow> 'a list outcome" where
  "vec_remove xs i = (if i < length xs then Ok (take i xs @ drop (Suc i) xs) else Panic)"

definition vec_drain :: "'a list \<Rightarrow> nat \<Rightarrow> nat \<Rightarrow> 'a list outcome" where
  "vec_drain xs i j = (if i \<le> j \<and> j \<le> length xs then Ok (take i xs @ drop j xs) else Panic)"

lemma vec_Ok [simp]:
  "i < length xs \<Longrightarrow> vec_get xs i = Ok (xs ! i)"
  "i < length xs \<Longrightarrow> vec_set xs i x = Ok (xs[i := x])"
  "i \<le> length xs \<Longrightarrow> vec_insert xs i x = Ok (take i xs @ x # drop i xs)"
  "i < length xs \<Longrightarrow> vec_remove xs i = Ok (take i xs @ drop (Suc i) xs)"
  "i \<le> j \<Longrightarrow> j \<le> length xs \<Longrightarrow> vec_drain xs i j = Ok (take i xs @ drop j xs)"
  by (simp_all add: vec_get_def vec_set_def vec_insert_def vec_remove_def vec_drain_def)

lemma vec_eq_Ok [outcome_simps]:
  "vec_get xs i = Ok y \<longleftrightarrow> i < length xs \<and> y = xs ! i"
  "vec_set xs i x = Ok ys \<longleftrightarrow> i < length xs \<and> ys = xs[i := x]"
  "vec_insert xs i x = Ok ys \<longleftrightarrow> i \<le> length xs \<and> ys = take i xs @ x # drop i xs"
  "vec_remove xs i = Ok ys \<longleftrightarrow> i < length xs \<and> ys = take i xs @ drop (Suc i) xs"
  "vec_drain xs i j = Ok ys \<longleftrightarrow> i \<le> j \<and> j \<le> length xs \<and> ys = take i xs @ drop j xs"
  by (auto simp: vec_get_def vec_set_def vec_insert_def vec_remove_def vec_drain_def)

section \<open>Searching sorted slices\<close>

text \<open>
  \<open>partition_point\<close> returns the number of leading elements that satisfy a predicate, on a
  slice that is partitioned by it, which is the only case whose result the library documents.
\<close>

definition partition_point :: "('a \<Rightarrow> bool) \<Rightarrow> 'a list \<Rightarrow> nat" where
  "partition_point P xs = length (takeWhile P xs)"

lemma partition_point_le [simp]: "partition_point P xs \<le> length xs"
  by (simp add: partition_point_def length_takeWhile_le)

lemma partition_point_before: "k < partition_point P xs \<Longrightarrow> P (xs ! k)"
  by (metis nth_mem partition_point_def set_takeWhileD takeWhile_nth)

lemma partition_point_at:
  "partition_point P xs < length xs \<Longrightarrow> \<not> P (xs ! partition_point P xs)"
  by (simp add: partition_point_def nth_length_takeWhile)

lemma partition_pointI:
  assumes "n \<le> length xs" "\<And>k. k < n \<Longrightarrow> P (xs ! k)" "n < length xs \<Longrightarrow> \<not> P (xs ! n)"
  shows "partition_point P xs = n"
proof (rule linorder_cases [of "partition_point P xs" n])
  assume "partition_point P xs < n"
  with assms show ?thesis
    using partition_point_at [of P xs] by auto
next
  assume "n < partition_point P xs"
  with assms show ?thesis
    using partition_point_before [of n P xs] partition_point_le [of P xs] by auto
qed

lemma partition_point_mono:
  assumes "\<And>x. x \<in> set xs \<Longrightarrow> P x \<Longrightarrow> Q x"
  shows "partition_point P xs \<le> partition_point Q xs"
proof (rule ccontr)
  assume *: "\<not> partition_point P xs \<le> partition_point Q xs"
  then have "P (xs ! partition_point Q xs)" by (intro partition_point_before [of _ P]) simp
  moreover have "partition_point Q xs < length xs"
    using * partition_point_le [of P xs] by linarith
  ultimately show False
    using partition_point_at [of Q xs] assms by auto
qed

section \<open>Segments of lists\<close>

lemma bex_set_nth: "(\<exists>y \<in> set xs. P y) \<longleftrightarrow> (\<exists>k<length xs. P (xs ! k))"
  by (metis in_set_conv_nth)

lemma take_set_D: "x \<in> set (take p es) \<Longrightarrow> \<exists>k<p. k < length es \<and> x = es ! k"
  by (auto simp: in_set_conv_nth)

lemma drop_set_D:
  assumes "x \<in> set (drop r es)"
  shows "\<exists>k\<ge>r. k < length es \<and> x = es ! k"
proof -
  from assms obtain k where "k < length es - r" "x = es ! (r + k)" by (auto simp: in_set_conv_nth)
  then show ?thesis by (intro exI [of _ "r + k"]) auto
qed

lemma drop_update_same: "s < length xs \<Longrightarrow> drop s (xs[s := x]) = x # drop (Suc s) xs"
  by (metis Cons_nth_drop_Suc drop_update_cancel length_list_update lessI nth_list_update_eq)

lemma take_mid_drop:
  assumes "p \<le> r"
  shows "xs = take p xs @ drop p (take r xs) @ drop r xs"
proof -
  have "take p xs @ drop p (take r xs) = take r xs"
    using append_take_drop_id [of p "take r xs"] assms by (simp add: min_def)
  then show ?thesis by (metis append_assoc append_take_drop_id)
qed

section \<open>The midpoint of two indices\<close>

text \<open>
  The hand written binary searches compute the midpoint of two indices without a sum that could
  overflow.
\<close>

definition midpoint :: "nat \<Rightarrow> nat \<Rightarrow> nat" where
  "midpoint l u = (l AND u) + drop_bit 1 (l XOR u)"

lemma nat_sum_and_xor: "l + u = 2 * (l AND u) + (l XOR u)" for l u :: nat
proof (induction l arbitrary: u rule: less_induct)
  case (less l)
  show ?case
  proof (cases "l = 0")
    case True
    then show ?thesis by simp
  next
    case False
    then have IH: "l div 2 + u div 2 = 2 * (l div 2 AND u div 2) + (l div 2 XOR u div 2)"
      by (intro less.IH) simp
    have "l AND u = of_bool (odd l \<and> odd u) + 2 * (l div 2 AND u div 2)"
      "l XOR u = of_bool (odd l \<noteq> odd u) + 2 * (l div 2 XOR u div 2)"
      by (simp_all add: and_rec [of l u] xor_rec [of l u])
    with IH show ?thesis
      by (cases "even l"; cases "even u") (auto elim!: evenE oddE)
  qed
qed

lemma midpoint_eq [simp]: "midpoint l u = (l + u) div 2"
  using nat_sum_and_xor [of l u] by (simp add: midpoint_def drop_bit_eq_div)

end
