(* ===== verification/Bit_Manip.thy ===== *)
theory Bit_Manip
  imports Rust_Prelude
begin

text \<open>
  Bit manipulation on native integers, \<open>src/utils-common/src/bitmanip.rs\<close>, whose macros give
  the same code for every width: the model is generic in the width. The debug assertions of these
  primitives on their shift counts are hypotheses of the lemmas. An \<open>as\<close> cast between the
  signed and the unsigned type of one width keeps the bits and has no counterpart here; a signed
  right shift is \<open>signed_drop_bit\<close>.
\<close>

section \<open>Library functions of the integer types\<close>

definition leading_zeros :: "'a::len word \<Rightarrow> nat" where
  "leading_zeros x = length (takeWhile Not (rev (map (bit x) [0..<LENGTH('a)])))"

definition trailing_zeros :: "'a::len word \<Rightarrow> nat" where
  "trailing_zeros x = length (takeWhile Not (map (bit x) [0..<LENGTH('a)]))"

definition checked_add :: "'a::len word \<Rightarrow> 'a word \<Rightarrow> 'a word option" where
  "checked_add x y = (if unat x + unat y < 2 ^ LENGTH('a) then Some (x + y) else None)"

section \<open>BitManip\<close>

definition trailing_bits_mask :: "nat \<Rightarrow> 'a::len word" where
  "trailing_bits_mask count =
     (let all = count div LENGTH('a); count = count mod LENGTH('a)
      in (push_bit count 1 - 1) - of_nat all)"

definition is_nonzero :: "'a::len word \<Rightarrow> 'a word" where
  "is_nonzero value = drop_bit (LENGTH('a) - 1) (value OR - value)"

definition abs_s :: "'a::len word \<Rightarrow> 'a word" where
  "abs_s self = (let neg_mask = signed_drop_bit (LENGTH('a) - 1) self
                 in (self XOR neg_mask) - neg_mask)"

definition is_pow2 :: "'a::len word \<Rightarrow> bool" where
  "is_pow2 value \<longleftrightarrow> value AND (value - 1) = 0"

definition is_aligned_pow2 :: "'a::len word \<Rightarrow> nat \<Rightarrow> bool" where
  "is_aligned_pow2 self pow2_log2 \<longleftrightarrow> self AND trailing_bits_mask pow2_log2 = 0"

definition exp2 :: "nat \<Rightarrow> 'a::len word" where
  "exp2 pow2_log2 = push_bit pow2_log2 1"

definition significant_bits :: "'a::len word \<Rightarrow> nat" where
  "significant_bits self = LENGTH('a) - leading_zeros (self OR 1)"

definition significant_bits_s :: "'a::len word \<Rightarrow> nat" where
  "significant_bits_s self =
     (let value = self XOR (0 - drop_bit (LENGTH('a) - 1) self);
          lz = leading_zeros value
      in LENGTH('a) - (lz - 1))"

definition sign_extend :: "'a::len word \<Rightarrow> nat \<Rightarrow> 'a word" where
  "sign_extend self sign_bit_pos =
     (let leading_bits = LENGTH('a) - sign_bit_pos - 1
      in signed_drop_bit leading_bits (push_bit leading_bits self))"

section \<open>UBitManip\<close>

definition round_down_pow2 :: "'a::len word \<Rightarrow> nat \<Rightarrow> 'a word" where
  "round_down_pow2 self pow2_log2 = push_bit pow2_log2 (drop_bit pow2_log2 self)"

definition round_up_pow2 :: "'a::len word \<Rightarrow> nat \<Rightarrow> 'a word option" where
  "round_up_pow2 self pow2_log2 =
     (let t = push_bit pow2_log2 1 - 1
      in case checked_add self t of None \<Rightarrow> None | Some s \<Rightarrow> Some (s AND NOT t))"

definition round_up_pow2_unchecked :: "'a::len word \<Rightarrow> nat \<Rightarrow> 'a word" where
  "round_up_pow2_unchecked self pow2_log2 =
     (let t = push_bit pow2_log2 1 - 1 in self + ((- self) AND t))"

definition round_up_next_pow2 :: "'a::len word \<Rightarrow> 'a word option" where
  "round_up_next_pow2 self =
     (let t = self - 1; lz = leading_zeros t
      in if lz \<noteq> 0 then Some (push_bit (LENGTH('a) - lz) 1)
         else if self AND t = 0 then Some t
         else None)"

definition round_down_next_pow2 :: "'a::len word \<Rightarrow> 'a word" where
  "round_down_next_pow2 self =
     (let is_zero = 1 - drop_bit (LENGTH('a) - 1) (self OR - self)
      in push_bit (LENGTH('a) - 1 - leading_zeros (self OR is_zero)) 1 - is_zero)"

section \<open>What the primitives compute\<close>

lemma trailing_bits_mask_eq_mask:
  assumes "n \<le> LENGTH('a::len)"
  shows "(trailing_bits_mask n :: 'a word) = mask n"
proof (cases "n = LENGTH('a)")
  case True
  then show ?thesis by (simp add: trailing_bits_mask_def)
next
  case False
  with assms have "n < LENGTH('a)" by simp
  then show ?thesis by (simp add: trailing_bits_mask_def mask_eq_decr_exp)
qed

lemma bit_trailing_bits_mask [bits_simps]:
  assumes "n \<le> LENGTH('a::len)"
  shows "bit (trailing_bits_mask n :: 'a word) i \<longleftrightarrow> i < n"
  using assms by (auto simp: trailing_bits_mask_eq_mask bit_mask_iff)

lemma length_takeWhile_Not_rev:
  assumes "length (takeWhile Not (rev xs)) = k"
  shows "(\<forall>i<length xs. length xs - k \<le> i \<longrightarrow> \<not> xs ! i)
       \<and> (k < length xs \<longrightarrow> xs ! (length xs - Suc k))" (is "?A \<and> ?B")
proof (rule conjI; safe)
  fix i assume i: "i < length xs" "length xs - k \<le> i" "xs ! i"
  then have "length xs - Suc i < k" by auto
  then have "\<not> rev xs ! (length xs - Suc i)"
    using assms by (metis nth_mem set_takeWhileD takeWhile_nth)
  with i show False by (simp add: rev_nth)
next
  assume "k < length xs"
  then have "rev xs ! k"
    using assms nth_length_takeWhile [of Not "rev xs"] by simp
  with \<open>k < length xs\<close> show "xs ! (length xs - Suc k)" by (simp add: rev_nth)
qed

lemma leading_zeros_le: "leading_zeros (x :: 'a::len word) \<le> LENGTH('a)"
  by (metis leading_zeros_def length_map length_rev length_takeWhile_le length_upt minus_nat.diff_0)

lemma leading_zeros_bits:
  fixes x :: "'a::len word"
  shows "LENGTH('a) - leading_zeros x \<le> i \<Longrightarrow> \<not> bit x i"
    and "leading_zeros x < LENGTH('a) \<Longrightarrow> bit x (LENGTH('a) - Suc (leading_zeros x))"
proof -
  have *: "(\<forall>i<LENGTH('a). LENGTH('a) - leading_zeros x \<le> i \<longrightarrow> \<not> bit x i)
       \<and> (leading_zeros x < LENGTH('a) \<longrightarrow> bit x (LENGTH('a) - Suc (leading_zeros x)))"
    using length_takeWhile_Not_rev [of "map (bit x) [0..<LENGTH('a)]" "leading_zeros x"]
    by (simp add: leading_zeros_def del: set_takeWhileD)
  show "LENGTH('a) - leading_zeros x \<le> i \<Longrightarrow> \<not> bit x i"
    using * by (metis bit_imp_le_length)
  show "leading_zeros x < LENGTH('a) \<Longrightarrow> bit x (LENGTH('a) - Suc (leading_zeros x))"
    using * by blast
qed

lemma take_bit_nat_self_iff_bits: "take_bit k n = n \<longleftrightarrow> (\<forall>i\<ge>k. \<not> bit n i)" for n :: nat
  by (metis bit_eqI bit_take_bit_iff linorder_not_less)

lemma unat_lt_iff_bits:
  fixes x :: "'a::len word"
  shows "unat x < 2 ^ k \<longleftrightarrow> (\<forall>i\<ge>k. \<not> bit x i)"
  by (simp add: take_bit_nat_self_iff_bits bit_unsigned_iff flip: take_bit_nat_eq_self_iff)

lemma leading_zeros_bounds:
  fixes x :: "'a::len word"
  assumes "x \<noteq> 0"
  shows "leading_zeros x < LENGTH('a)"
    and "2 ^ (LENGTH('a) - Suc (leading_zeros x)) \<le> unat x"
    and "unat x < 2 ^ (LENGTH('a) - leading_zeros x)"
proof -
  show lz: "leading_zeros x < LENGTH('a)"
  proof (rule ccontr)
    assume "\<not> leading_zeros x < LENGTH('a)"
    then have "\<not> bit x i" for i
      by (intro leading_zeros_bits(1)) simp
    with assms show False by (simp add: bit_eq_iff)
  qed
  show "unat x < 2 ^ (LENGTH('a) - leading_zeros x)"
    by (simp add: unat_lt_iff_bits leading_zeros_bits(1))
  have "\<not> unat x < 2 ^ (LENGTH('a) - Suc (leading_zeros x))"
    using leading_zeros_bits(2) [OF lz] by (auto simp: unat_lt_iff_bits)
  then show "2 ^ (LENGTH('a) - Suc (leading_zeros x)) \<le> unat x" by simp
qed

lemma leading_zeros_unique:
  fixes x :: "'a::len word"
  assumes "2 ^ k \<le> unat x" "unat x < 2 ^ Suc k"
  shows "leading_zeros x = LENGTH('a) - Suc k"
proof -
  have "x \<noteq> 0" using assms(1) by (auto intro: ccontr)
  note lz = leading_zeros_bounds [OF this]
  have "2 ^ (LENGTH('a) - Suc (leading_zeros x)) < (2::nat) ^ Suc k"
    using lz(2) assms(2) by linarith
  moreover have "2 ^ k < (2::nat) ^ (LENGTH('a) - leading_zeros x)"
    using lz(3) assms(1) by linarith
  ultimately have "LENGTH('a) - Suc (leading_zeros x) < Suc k" "k < LENGTH('a) - leading_zeros x"
    by (metis power_less_imp_less_exp one_less_numeral_iff semiring_norm(76))+
  with lz(1) show ?thesis by linarith
qed

lemma bit_sign_extend [bits_simps]:
  fixes x :: "'a::len word"
  assumes "p < LENGTH('a)"
  shows "bit (sign_extend x p) i \<longleftrightarrow> i < LENGTH('a) \<and> bit x (min i p)"
  using assms
  by (auto simp: sign_extend_def Let_def bit_signed_drop_bit_iff bit_push_bit_iff min_def
      not_le not_less dest: bit_imp_le_length intro: arg_cong [of _ _ "bit x"])

text \<open>The rounding functions agree with their arithmetic meaning.\<close>

lemma round_down_pow2_eq: "round_down_pow2 x k = (x div 2 ^ k) * 2 ^ k"
  by (simp add: round_down_pow2_def push_bit_eq_mult drop_bit_eq_div)

lemma unat_round_down_pow2:
  fixes x :: "'a::len word"
  shows "unat (round_down_pow2 x k) = unat x div 2 ^ k * 2 ^ k"
proof -
  have le: "unat x div 2 ^ k * 2 ^ k \<le> unat x"
    by simp
  also have "unat x < 2 ^ LENGTH('a)" by simp
  finally have lt: "unat x div 2 ^ k * 2 ^ k < 2 ^ LENGTH('a)" .
  have "unat (round_down_pow2 x k) = push_bit k (drop_bit k (unat x)) mod 2 ^ LENGTH('a)"
    by (intro bit_eqI)
      (auto simp: round_down_pow2_def bit_unsigned_iff bit_push_bit_iff bit_drop_bit_eq
        bit_take_bit_iff dest: bit_imp_le_length simp flip: take_bit_eq_mod)
  with lt show ?thesis by (simp add: push_bit_eq_mult drop_bit_eq_div)
qed

lemma and_not_mask_eq: "x AND NOT (mask k) = round_down_pow2 x k" for x :: "'a::len word"
  by (rule bit_eqI)
    (auto simp: round_down_pow2_def bit_and_iff bit_not_iff bit_mask_iff bit_push_bit_iff bit_drop_bit_eq
      dest: bit_imp_le_length)

lemma unat_mask:
  assumes "k \<le> LENGTH('a::len)"
  shows "unat (mask k :: 'a word) = 2 ^ k - 1"
proof -
  have "unat (mask k :: 'a word) = mask k"
    using assms by (intro bit_eqI) (auto simp: bit_unsigned_iff bit_mask_iff)
  then show ?thesis by (simp add: mask_eq_exp_minus_1)
qed

lemma round_up_pow2_alt:
  fixes x :: "'a::len word"
  assumes "k < LENGTH('a)"
  shows "round_up_pow2 x k =
    (if unat x + (2 ^ k - 1) < 2 ^ LENGTH('a) then Some (round_down_pow2 (x + mask k) k) else None)"
proof -
  have "unat (mask k :: 'a word) = 2 ^ k - 1"
    using assms by (simp add: unat_mask)
  moreover have "push_bit k 1 - 1 = (mask k :: 'a word)"
    by (simp add: mask_eq_decr_exp)
  ultimately show ?thesis
    by (simp add: round_up_pow2_def checked_add_def and_not_mask_eq Let_def)
qed

lemma nat_round_up_bounds:
  fixes n k :: nat
  defines "m \<equiv> (n + (2 ^ k - 1)) div 2 ^ k * 2 ^ k"
  shows "n \<le> m" "m < n + 2 ^ k" "2 ^ k dvd m"
proof -
  have *: "(n + (2 ^ k - 1)) div 2 ^ k * 2 ^ k + (n + (2 ^ k - 1)) mod 2 ^ k = n + (2 ^ k - 1)"
    by (rule div_mult_mod_eq)
  have "(n + (2 ^ k - 1)) mod 2 ^ k < 2 ^ k" by simp
  moreover have "(1::nat) \<le> 2 ^ k" by simp
  ultimately show "n \<le> m" "m < n + 2 ^ k"
    using * unfolding m_def by linarith+
  show "2 ^ k dvd m" by (simp add: m_def)
qed

lemma nat_round_up_least:
  fixes n b k :: nat
  assumes "2 ^ k dvd b" "n \<le> b"
  shows "(n + (2 ^ k - 1)) div 2 ^ k * 2 ^ k \<le> b"
proof -
  from assms(1) obtain m where m: "b = m * 2 ^ k" by (metis dvd_div_mult_self)
  have "(1::nat) \<le> 2 ^ k" by simp
  then have "n + (2 ^ k - 1) < m * 2 ^ k + 2 ^ k" using assms(2) m by linarith
  then have "n + (2 ^ k - 1) < (m + 1) * 2 ^ k" by (simp add: add.commute)
  then have "(n + (2 ^ k - 1)) div 2 ^ k < m + 1" by (simp add: less_mult_imp_div_less)
  then show ?thesis by (simp add: m)
qed

lemma nat_round_down_greatest:
  fixes n e k :: nat
  assumes "2 ^ k dvd e" "e \<le> n"
  shows "e \<le> n div 2 ^ k * 2 ^ k"
  using assms by (metis div_le_mono dvd_div_mult_self mult_le_mono1)

lemma nat_round_up_overflow:
  fixes n k w :: nat
  assumes "2 ^ w \<le> n + (2 ^ k - 1)" "k \<le> w"
  shows "2 ^ w \<le> (n + (2 ^ k - 1)) div 2 ^ k * 2 ^ k"
  using assms by (intro nat_round_down_greatest) (simp_all add: le_imp_power_dvd)

lemma round_up_pow2_SomeD:
  fixes x :: "'a::len word"
  assumes "round_up_pow2 x k = Some y" "k < LENGTH('a)"
  shows "unat y = (unat x + (2 ^ k - 1)) div 2 ^ k * 2 ^ k"
proof -
  have lt: "unat x + (2 ^ k - 1) < 2 ^ LENGTH('a)" and y: "y = round_down_pow2 (x + mask k) k"
    using assms by (auto simp: round_up_pow2_alt split: if_splits)
  have "unat (x + mask k) = unat x + (2 ^ k - 1)"
    using lt assms(2)
    by (simp add: unat_word_ariths unat_mask)
  then show ?thesis by (simp add: y unat_round_down_pow2)
qed

lemma significant_bits_bounds:
  fixes x :: "'a::len word"
  shows "1 \<le> significant_bits x" "significant_bits x \<le> LENGTH('a)"
    and "unat x < 2 ^ significant_bits x"
    and "1 < significant_bits x \<Longrightarrow> 2 ^ (significant_bits x - 1) \<le> unat x"
proof -
  have "bit (x OR 1) 0" by (simp add: bit_or_iff)
  then have "x OR 1 \<noteq> 0" by auto
  note lz = leading_zeros_bounds [OF this]
  let ?s = "significant_bits x"
  have s: "?s = LENGTH('a) - leading_zeros (x OR 1)"
    by (simp add: significant_bits_def)
  show "1 \<le> ?s" "?s \<le> LENGTH('a)" using lz(1) by (simp_all add: s)
  show "unat x < 2 ^ ?s"
    using leading_zeros_bits(1) [of "x OR 1"] by (auto simp: s unat_lt_iff_bits bit_or_iff)
  assume *: "1 < ?s"
  have "bit (x OR 1) (?s - 1)"
    using leading_zeros_bits(2) [OF lz(1)] by (simp add: s)
  with * have "bit x (?s - 1)" by (simp add: bit_or_iff bit_1_iff)
  then have "\<not> unat x < 2 ^ (?s - 1)" by (auto simp: unat_lt_iff_bits)
  then show "2 ^ (?s - 1) \<le> unat x" by simp
qed

lemma significant_bits_zero [bits_simps]:
  "significant_bits x \<le> i \<Longrightarrow> \<not> bit x i"
  using significant_bits_bounds(3) [of x] by (auto simp: unat_lt_iff_bits)

lemma drop_bit_last: "drop_bit (LENGTH('a) - 1) x = (of_bool (bit x (LENGTH('a) - 1)) :: 'a::len word)"
proof (rule bit_eqI)
  fix n
  show "bit (drop_bit (LENGTH('a) - 1) x) n = bit (of_bool (bit x (LENGTH('a) - 1)) :: 'a word) n"
    by (cases n) (auto simp: bit_drop_bit_eq bit_of_bool_iff bit_1_iff dest: bit_imp_le_length)
qed

lemma significant_bits_s_bounds:
  fixes x :: "'a::len word"
  defines "s \<equiv> significant_bits_s x"
  shows "1 \<le> s" "s \<le> LENGTH('a)"
    and "\<And>i. s - 1 \<le> i \<Longrightarrow> i < LENGTH('a) \<Longrightarrow> bit x i = bit x (LENGTH('a) - 1)"
    and "1 < s \<Longrightarrow> bit x (s - 2) \<noteq> bit x (LENGTH('a) - 1)"
proof -
  let ?m = "bit x (LENGTH('a) - 1)"
  define v where "v = x XOR (0 - drop_bit (LENGTH('a) - 1) x)"
  have bv: "bit v i \<longleftrightarrow> bit x i \<noteq> ?m" if "i < LENGTH('a)" for i
    using that by (cases ?m) (simp_all add: v_def drop_bit_last bit_xor_iff bit_not_iff del: One_nat_def)
  have s: "s = LENGTH('a) - (leading_zeros v - 1)"
    by (simp add: s_def significant_bits_s_def Let_def v_def)
  have "\<not> bit v (LENGTH('a) - 1)" by (simp add: bv)
  then have lz0: "leading_zeros v \<noteq> 0"
    using leading_zeros_bits(2) [of v] by (metis diff_Suc_1' diff_Suc_eq_diff_pred diff_zero len_gt_0)
  have lzn: "leading_zeros v \<le> LENGTH('a)" by (rule leading_zeros_le)
  show "1 \<le> s" "s \<le> LENGTH('a)" using lz0 lzn by (auto simp: s)
  have s1: "s - 1 = LENGTH('a) - leading_zeros v" using lz0 lzn by (auto simp: s)
  show "bit x i = ?m" if "s - 1 \<le> i" "i < LENGTH('a)" for i
    using that leading_zeros_bits(1) [of v i] bv [of i] s1 by simp
  show "bit x (s - 2) \<noteq> ?m" if "1 < s"
  proof -
    have "leading_zeros v < LENGTH('a)" using that s1 by linarith
    then have "bit v (LENGTH('a) - Suc (leading_zeros v))" by (rule leading_zeros_bits(2))
    moreover have "LENGTH('a) - Suc (leading_zeros v) = s - 2" using s1 by linarith
    ultimately show ?thesis using bv [of "s - 2"] by (simp add: bit_imp_le_length)
  qed
qed

text \<open>
  \<open>sign_extend\<close> reads the low \<open>p + 1\<close> bits of a value as a two's complement number with
  its sign bit at position \<open>p\<close>, for every width and every position inside it.
\<close>
theorem sign_extend_sint:
  fixes x :: "'a::len word"
  assumes "p < LENGTH('a)"
  shows "sint (sign_extend x p) = signed_take_bit p (uint x)"
proof (rule bit_eqI)
  fix i
  have "bit (sint (sign_extend x p)) i \<longleftrightarrow> bit x (min (min i (LENGTH('a) - 1)) p)"
    using assms by (simp add: bit_signed_iff bit_sign_extend min_less_iff_disj ac_simps)
  also have "min (min i (LENGTH('a) - 1)) p = min i p"
    using assms by simp
  finally show "bit (sint (sign_extend x p)) i \<longleftrightarrow> bit (signed_take_bit p (uint x)) i"
    by (simp add: bit_signed_take_bit_iff bit_unsigned_iff min.commute)
qed

theorem sign_extend_sint_witness:
  "sint (sign_extend (0x41 :: u8) 6) = - 63"
  using sign_extend_sint [of 6 "0x41 :: u8"] by simp

lemma unat_exp:
  assumes "k < LENGTH('a::len)"
  shows "unat (2 ^ k :: 'a word) = 2 ^ k"
  using assms by (intro bit_eqI) (auto simp: bit_unsigned_iff bit_exp_iff)

text \<open>
  On a nonzero value \<open>round_up_next_pow2\<close> returns the least power of two that is not below
  it, and it returns \<open>None\<close> exactly when that power does not fit the type.
\<close>
theorem round_up_next_pow2_correct:
  fixes x :: "'a::len word"
  assumes "x \<noteq> 0"
  shows "case round_up_next_pow2 x of
      None \<Rightarrow> 2 ^ (LENGTH('a) - 1) < unat x
    | Some y \<Rightarrow> \<exists>k < LENGTH('a). unat y = 2 ^ k \<and> unat x \<le> 2 ^ k \<and> (\<forall>j. unat x \<le> 2 ^ j \<longrightarrow> k \<le> j)"
proof -
  have pos: "1 \<le> unat x" using assms by (simp add: unat_gt_0 Suc_le_eq)
  have dec: "unat (x - 1) = unat x - 1"
    using assms by (simp add: unat_minus_one)
  have lz_lt: "leading_zeros (x - 1) = 0 \<longleftrightarrow> 2 ^ (LENGTH('a) - 1) < unat x"
  proof
    assume "leading_zeros (x - 1) = 0"
    then have "bit (x - 1) (LENGTH('a) - 1)"
      using leading_zeros_bits(2) [of "x - 1"] by simp
    then have "\<not> unat (x - 1) < 2 ^ (LENGTH('a) - 1)" by (auto simp: unat_lt_iff_bits)
    with dec pos show "2 ^ (LENGTH('a) - 1) < unat x" by linarith
  next
    assume "2 ^ (LENGTH('a) - 1) < unat x"
    with dec have "2 ^ (LENGTH('a) - 1) \<le> unat (x - 1)" by linarith
    moreover have "unat (x - 1) < 2 ^ Suc (LENGTH('a) - 1)" by simp
    ultimately show "leading_zeros (x - 1) = 0"
      using leading_zeros_unique [of "LENGTH('a) - 1" "x - 1"] by simp
  qed
  show ?thesis
  proof (cases "leading_zeros (x - 1) = 0")
    case True
    then have "bit (x - 1) (LENGTH('a) - 1)"
      using leading_zeros_bits(2) [of "x - 1"] by simp
    moreover from True have big: "2 ^ (LENGTH('a) - 1) < unat x" by (simp only: lz_lt)
    then have "\<exists>i\<ge>LENGTH('a) - 1. bit x i"
      using unat_lt_iff_bits [of x "LENGTH('a) - 1"] by auto
    then have "bit x (LENGTH('a) - 1)"
      by (metis Suc_pred' bit_imp_le_length le_less_Suc_eq len_gt_0)
    ultimately have "x AND (x - 1) \<noteq> 0"
      by (metis bit_0_eq bit_and_iff bot_apply bot_bool_def)
    with True big show ?thesis by (simp add: round_up_next_pow2_def Let_def)
  next
    case False
    let ?k = "LENGTH('a) - leading_zeros (x - 1)"
    have k: "?k < LENGTH('a)" using False by simp
    have "unat (x - 1) < 2 ^ ?k"
      by (simp add: unat_lt_iff_bits leading_zeros_bits(1))
    with dec pos have up: "unat x \<le> 2 ^ ?k" by linarith
    have least: "?k \<le> j" if j: "unat x \<le> 2 ^ j" for j
    proof (rule ccontr)
      assume *: "\<not> ?k \<le> j"
      then have "leading_zeros (x - 1) < LENGTH('a)" by linarith
      then have "bit (x - 1) (?k - 1)"
        using leading_zeros_bits(2) [of "x - 1"] by simp
      moreover have "unat (x - 1) < 2 ^ j" using j dec pos by linarith
      ultimately show False using * by (auto simp: unat_lt_iff_bits)
    qed
    have "unat (push_bit ?k (1 :: 'a word)) = 2 ^ ?k"
      using k by (simp add: unat_exp)
    with False k up least show ?thesis
      by (auto simp: round_up_next_pow2_def Let_def)
  qed
qed

theorem round_up_next_pow2_correct_witness:
  "(5 :: u8) \<noteq> 0 \<and>
   (case round_up_next_pow2 (5 :: u8) of
      None \<Rightarrow> 2 ^ (8 - 1) < unat (5 :: u8)
    | Some y \<Rightarrow> \<exists>k < 8. unat y = 2 ^ k \<and> unat (5 :: u8) \<le> 2 ^ k \<and> (\<forall>j. unat (5 :: u8) \<le> 2 ^ j \<longrightarrow> k \<le> j))"
  using round_up_next_pow2_correct [of "5 :: u8"] by (simp cong: option.case_cong)

text \<open>
  On zero \<open>round_up_next_pow2\<close> returns the all ones value of the type, which is no power of
  two, although one is the least power of two not below zero.
\<close>
theorem round_up_next_pow2_zero: "round_up_next_pow2 (0 :: 'a::len word) = Some (- 1)"
proof -
  have "leading_zeros (- 1 :: 'a word) = 0"
    using leading_zeros_bits(1) [of "- 1 :: 'a word" "LENGTH('a) - 1"] by (cases "leading_zeros (- 1 :: 'a word)") auto
  then show ?thesis by (simp add: round_up_next_pow2_def)
qed

end
