(* ===== verification/Block_Range.thy ===== *)
theory Block_Range
  imports Bit_Manip
begin

text \<open>
  Block counts, block indices and block ranges, \<open>src/storage/src/fs/cocoonfs/layout.rs\<close>.

  The code has one newtype over \<open>u64\<close> per kind of index (physical, logical, authentication tree
  data) so that the compiler keeps them apart; their operations are the same and the model has one
  type for all of them, the natural numbers, with the overflow checks of the code. A block range
  is a record of its begin and its end.
\<close>

section \<open>Counts and indices\<close>

type_synonym alloc_block_count = nat
type_synonym alloc_block_index = nat

definition index_align_down :: "alloc_block_index \<Rightarrow> nat \<Rightarrow> alloc_block_index" where
  "index_align_down i align_log2 = unat (round_down_pow2 (of_nat i :: u64) align_log2)"

definition index_align_up :: "alloc_block_index \<Rightarrow> nat \<Rightarrow> alloc_block_index option" where
  "index_align_up i align_log2 = map_option unat (round_up_pow2 (of_nat i :: u64) align_log2)"

section \<open>Ranges\<close>

record block_range =
  range_begin :: alloc_block_index
  range_end :: alloc_block_index

definition mk_range :: "alloc_block_index \<Rightarrow> alloc_block_index \<Rightarrow> block_range" where
  "mk_range b e = \<lparr>range_begin = b, range_end = e\<rparr>"

definition block_range_new :: "alloc_block_index \<Rightarrow> alloc_block_index \<Rightarrow> block_range outcome" where
  "block_range_new b e = debug_assert (b < e) (Ok (mk_range b e))"

definition block_range_from :: "alloc_block_index \<Rightarrow> alloc_block_count \<Rightarrow> block_range outcome" where
  "block_range_from b c = and_then (add_u64 b c) (\<lambda>e. Ok (mk_range b e))"

definition block_count :: "block_range \<Rightarrow> alloc_block_count outcome" where
  "block_count r = sub_u64 (range_end r) (range_begin r)"

definition overlaps_with :: "block_range \<Rightarrow> block_range \<Rightarrow> bool" where
  "overlaps_with r other \<longleftrightarrow> range_end r > range_begin other \<and> range_begin r < range_end other"

definition range_contains :: "block_range \<Rightarrow> block_range \<Rightarrow> bool" where
  "range_contains r other \<longleftrightarrow> range_begin r \<le> range_begin other \<and> range_end other \<le> range_end r"

definition range_align :: "block_range \<Rightarrow> nat \<Rightarrow> block_range option outcome" where
  "range_align r align_log2 =
     (let aligned_b = index_align_down (range_begin r) align_log2
      in case index_align_up (range_end r) align_log2 of
           None \<Rightarrow> Ok None
         | Some aligned_e \<Rightarrow> and_then (block_range_new aligned_b aligned_e) (\<lambda>a. Ok (Some a)))"

definition max_aligned_subrange :: "block_range \<Rightarrow> nat \<Rightarrow> block_range option" where
  "max_aligned_subrange r align_log2 =
     (let aligned_e = index_align_down (range_end r) align_log2
      in case index_align_up (range_begin r) align_log2 of
           None \<Rightarrow> None
         | Some aligned_b \<Rightarrow>
             if aligned_b \<ge> aligned_e then None else Some (mk_range aligned_b aligned_e))"

section \<open>The blocks of a range\<close>

definition blocks :: "block_range \<Rightarrow> alloc_block_index set" where
  "blocks r = {range_begin r..<range_end r}"

definition range_wf :: "block_range \<Rightarrow> bool" where
  "range_wf r \<longleftrightarrow> range_begin r < range_end r \<and> range_end r < u64_bound"

lemma mk_range_simps [simp]:
  "range_begin (mk_range b e) = b" "range_end (mk_range b e) = e"
  "blocks (mk_range b e) = {b..<e}"
  by (simp_all add: mk_range_def blocks_def)

lemma mk_range_eq_iff [simp]: "mk_range b e = mk_range b' e' \<longleftrightarrow> b = b' \<and> e = e'"
  by (simp add: mk_range_def)

lemma block_range_new_Ok [simp]: "b < e \<Longrightarrow> block_range_new b e = Ok (mk_range b e)"
  by (simp add: block_range_new_def)

lemma block_range_new_eq_Ok [outcome_simps]:
  "block_range_new b e = Ok r \<longleftrightarrow> b < e \<and> r = mk_range b e"
  by (auto simp: block_range_new_def outcome_simps)

lemma block_range_from_Ok [simp]:
  "b + c < u64_bound \<Longrightarrow> block_range_from b c = Ok (mk_range b (b + c))"
  by (simp add: block_range_from_def)

lemma block_count_Ok [simp]:
  "range_begin r \<le> range_end r \<Longrightarrow> block_count r = Ok (range_end r - range_begin r)"
  by (simp add: block_count_def)

lemma block_count_wf [simp]: "range_wf r \<Longrightarrow> block_count r = Ok (range_end r - range_begin r)"
  by (simp add: range_wf_def)

lemma overlaps_with_iff:
  assumes "range_begin r < range_end r" "range_begin s < range_end s"
  shows "overlaps_with r s \<longleftrightarrow> blocks r \<inter> blocks s \<noteq> {}"
proof
  assume "overlaps_with r s"
  then have "max (range_begin r) (range_begin s) \<in> blocks r \<inter> blocks s"
    using assms by (auto simp: overlaps_with_def blocks_def)
  then show "blocks r \<inter> blocks s \<noteq> {}" by blast
qed (auto simp: overlaps_with_def blocks_def)

lemma unat_of_nat_u64 [simp]: "n < u64_bound \<Longrightarrow> unat (of_nat n :: u64) = n"
  by (simp add: unat_of_nat)

lemma index_align_down_eq:
  "i < u64_bound \<Longrightarrow> index_align_down i k = i div 2 ^ k * 2 ^ k"
  by (simp add: index_align_down_def unat_round_down_pow2)

lemma index_align_up_eq:
  assumes "i < u64_bound" "k < 64"
  shows "index_align_up i k =
    (if i + (2 ^ k - 1) < u64_bound then Some ((i + (2 ^ k - 1)) div 2 ^ k * 2 ^ k) else None)"
proof (cases "round_up_pow2 (of_nat i :: u64) k")
  case None
  then show ?thesis
    using assms by (simp add: index_align_up_def round_up_pow2_alt split: if_splits)
next
  case (Some y)
  then have "i + (2 ^ k - 1) < u64_bound"
    using assms by (auto simp: round_up_pow2_alt split: if_splits)
  then show ?thesis
    using Some assms by (simp add: index_align_up_def round_up_pow2_SomeD [OF Some])
qed

text \<open>
  \<open>align\<close> returns the least range with both bounds multiples of the alignment that contains
  the given one, or nothing exactly when the rounded end does not fit 64 bits; it never panics.
\<close>
theorem range_align_correct:
  assumes "range_wf r" "k < 64"
  shows "case range_align r k of
      Ok None \<Rightarrow> u64_bound \<le> range_end r + (2 ^ k - 1)
    | Ok (Some a) \<Rightarrow> range_contains a r \<and> 2 ^ k dvd range_begin a \<and> 2 ^ k dvd range_end a
        \<and> range_begin r < range_begin a + 2 ^ k \<and> range_end a < range_end r + 2 ^ k
    | Err e \<Rightarrow> False
    | Panic \<Rightarrow> False"
proof (cases "range_end r + (2 ^ k - 1) < u64_bound")
  case False
  with assms show ?thesis
    by (simp add: range_align_def index_align_up_eq range_wf_def)
next
  case True
  let ?b = "range_begin r" and ?e = "range_end r"
  let ?ab = "?b div 2 ^ k * 2 ^ k" and ?ae = "(?e + (2 ^ k - 1)) div 2 ^ k * 2 ^ k"
  have wf: "?b < ?e" "?e < u64_bound" using assms by (simp_all add: range_wf_def)
  have dm: "?ab + ?b mod 2 ^ k = ?b" "?b mod 2 ^ k < 2 ^ k"
    by (rule div_mult_mod_eq) simp
  have ab: "?ab \<le> ?b" "?b < ?ab + 2 ^ k"
    using dm by linarith+
  note ae = nat_round_up_bounds [of ?e k]
  have lt: "?ab < ?ae" using ab(1) ae(1) wf(1) by linarith
  have "range_align r k = Ok (Some (mk_range ?ab ?ae))"
    using True wf assms lt
    by (simp add: range_align_def index_align_up_eq index_align_down_eq)
  with ab ae show ?thesis
    by (simp add: range_contains_def)
qed

theorem range_align_correct_witness:
  "range_wf (mk_range 5 9) \<and> range_align (mk_range 5 9) 2 = Ok (Some (mk_range 4 12))"
proof -
  have wf: "range_wf (mk_range 5 9)" by (simp add: range_wf_def)
  have "range_align (mk_range 5 9) 2 = Ok (Some (mk_range 4 12))"
    by (simp add: range_align_def index_align_up_eq index_align_down_eq)
  with wf range_align_correct [OF wf, of 2] show ?thesis by simp
qed

text \<open>
  \<open>max_aligned_subrange\<close> returns the largest range with both bounds multiples of the
  alignment inside the given one, and nothing exactly when there is no such range.
\<close>
theorem max_aligned_subrange_correct:
  assumes "range_wf r" "k < 64"
  shows "case max_aligned_subrange r k of
      None \<Rightarrow> \<forall>b e. 2 ^ k dvd b \<and> 2 ^ k dvd e \<and> b < e \<and> range_begin r \<le> b \<longrightarrow> range_end r < e
    | Some a \<Rightarrow> range_contains r a \<and> range_begin a < range_end a
        \<and> 2 ^ k dvd range_begin a \<and> 2 ^ k dvd range_end a
        \<and> (\<forall>b e. 2 ^ k dvd b \<and> 2 ^ k dvd e \<and> b < e \<and> range_contains r (mk_range b e)
              \<longrightarrow> range_contains a (mk_range b e))"
proof -
  let ?b = "range_begin r" and ?e = "range_end r"
  let ?ab = "(?b + (2 ^ k - 1)) div 2 ^ k * 2 ^ k" and ?ae = "?e div 2 ^ k * 2 ^ k"
  have wf: "?b < ?e" "?e < u64_bound" using assms by (simp_all add: range_wf_def)
  note ab = nat_round_up_bounds [of ?b k]
  have ae: "?ae \<le> ?e" by simp
  note up = nat_round_up_least [of k _ ?b] and down = nat_round_down_greatest [of k _ ?e]
  show ?thesis
  proof (cases "?b + (2 ^ k - 1) < u64_bound \<and> ?ab < ?ae")
    case True
    then have "max_aligned_subrange r k = Some (mk_range ?ab ?ae)"
      using wf assms by (simp add: max_aligned_subrange_def index_align_up_eq index_align_down_eq)
    with True up down ab ae show ?thesis by (simp add: range_contains_def)
  next
    case False
    then have none: "max_aligned_subrange r k = None"
      using wf assms by (auto simp: max_aligned_subrange_def index_align_up_eq index_align_down_eq)
    have "?ae \<le> ?ab"
      using False nat_round_up_overflow [of 64 ?b k] assms(2) wf(2) ae by linarith
    then have "?e < e" if "2 ^ k dvd b" "2 ^ k dvd e" "b < e" "?b \<le> b" for b e
      using up [OF that(1,4)] down [OF that(2)] that(3) by linarith
    with none show ?thesis by auto
  qed
qed

theorem max_aligned_subrange_correct_witness:
  "range_wf (mk_range 5 13) \<and> max_aligned_subrange (mk_range 5 13) 2 = Some (mk_range 8 12)
   \<and> range_contains (mk_range 5 13) (mk_range 8 12)"
proof -
  have wf: "range_wf (mk_range 5 13)" by (simp add: range_wf_def)
  have "max_aligned_subrange (mk_range 5 13) 2 = Some (mk_range 8 12)"
    by (simp add: max_aligned_subrange_def index_align_up_eq index_align_down_eq)
  with wf max_aligned_subrange_correct [OF wf, of 2] show ?thesis by simp
qed

end
