(* ===== verification/Sparse_Bitmap.thy ===== *)
theory Sparse_Bitmap
  imports Block_Range
begin

text \<open>
  The sparse allocation bitmap \<open>SparseAllocBitmap\<close> of
  \<open>src/storage/src/fs/cocoonfs/alloc_bitmap/sparse_bitmap.rs\<close>, which tracks the pending
  allocations and deallocations of a transaction: a vector of nonzero words of 64 bits, each with
  its index, sorted by index, and a counter of entries whose memory is kept in reserve for a
  rollback.

  The loops walk the vector from an entry on; they are recursions over the remaining entries. The
  answer of the allocator to a reservation is a function of the length of the vector and of the
  number of additional entries. An operation that can fail returns the changed bitmap together with
  its result, so that what it leaves behind on an error is part of the model.
\<close>

type_synonym bitmap_word = u64
type_synonym sparse_entry = "nat \<times> bitmap_word"

record sparse_alloc_bitmap =
  sb_entries :: "sparse_entry list"
  remove_rollback_reserve_capacity :: nat

type_synonym reservation = "nat \<Rightarrow> nat \<Rightarrow> bool"

section \<open>Positions\<close>

definition sb_new :: sparse_alloc_bitmap where
  "sb_new = \<lparr>sb_entries = [], remove_rollback_reserve_capacity = 0\<rparr>"

definition reset_remove_rollback :: "sparse_alloc_bitmap \<Rightarrow> sparse_alloc_bitmap" where
  "reset_remove_rollback sb = sb\<lparr>remove_rollback_reserve_capacity := 0\<rparr>"

text \<open>The words a range of blocks overlaps with: the index of the first one and their number.\<close>

definition bitmap_words_of_range :: "block_range \<Rightarrow> (nat \<times> nat) outcome" where
  "bitmap_words_of_range q =
     and_then (block_count q) (\<lambda>count.
     let bitmap_word_index = drop_bit 6 (range_begin q);
         offset_in_bitmap_word = range_begin q mod 64
     in and_then (add_u64 count offset_in_bitmap_word) (\<lambda>count.
        let bitmap_words_count = drop_bit 6 count
        in Ok (bitmap_word_index,
               if push_bit 6 bitmap_words_count \<noteq> count then bitmap_words_count + 1 else bitmap_words_count)))"

text \<open>The result of the binary search: found at, or to be inserted at.\<close>

definition find_entry_position :: "sparse_entry list \<Rightarrow> nat \<Rightarrow> nat + nat" where
  "find_entry_position es bitmap_word_index =
     (let p = partition_point (\<lambda>e. fst e < bitmap_word_index) es
      in if p < length es \<and> fst (es ! p) = bitmap_word_index then Inr p else Inl p)"

definition entry_position :: "sparse_entry list \<Rightarrow> nat \<Rightarrow> nat option \<Rightarrow> nat outcome" where
  "entry_position es bitmap_word_index first_entry_index_hint =
     (case first_entry_index_hint of
        Some hint \<Rightarrow>
          and_then (if hint = length es then Ok True
                    else and_then (vec_get es hint) (\<lambda>e. Ok (bitmap_word_index \<le> fst e))) (\<lambda>ok1.
          debug_assert ok1
          (and_then (if hint = 0 then Ok True
                     else and_then (vec_get es (hint - 1)) (\<lambda>e. Ok (bitmap_word_index > fst e))) (\<lambda>ok2.
           debug_assert ok2 (Ok hint))))
      | None \<Rightarrow> Ok (case find_entry_position es bitmap_word_index of Inr p \<Rightarrow> p | Inl p \<Rightarrow> p))"

section \<open>Setting bits of existing entries\<close>

definition set_bits_in_word :: "bool \<Rightarrow> nat \<Rightarrow> nat \<Rightarrow> bitmap_word \<Rightarrow> bitmap_word" where
  "set_bits_in_word v offset_in_bitmap_word bits_in_word w =
     (let set_mask = if v then NOT 0 else 0;
          bits_in_word_mask = push_bit offset_in_bitmap_word (trailing_bits_mask bits_in_word)
      in (w AND NOT bits_in_word_mask) OR (set_mask AND bits_in_word_mask))"

fun set_loop :: "bool \<Rightarrow> nat \<Rightarrow> nat \<Rightarrow> nat \<Rightarrow> sparse_entry list \<Rightarrow> sparse_entry list outcome" where
  "set_loop v bitmap_word_index offset_in_bitmap_word count [] = Ok []"
| "set_loop v bitmap_word_index offset_in_bitmap_word count (e # es) =
     (if count = 0 then Ok (e # es)
      else
        and_then (if fst e \<noteq> bitmap_word_index then
                    and_then (sub_u64 (fst e) bitmap_word_index) (\<lambda>d.
                    and_then (sub_u64 d 1) (\<lambda>d.
                    and_then (add_u64 (push_bit 6 d mod u64_bound) (64 - offset_in_bitmap_word)) (\<lambda>bits_in_words.
                    Ok (count - min bits_in_words count, 0))))
                  else Ok (count, offset_in_bitmap_word)) (\<lambda>(count, offset_in_bitmap_word).
        if count = 0 then Ok (e # es)
        else
          let bits_in_word = min count (64 - offset_in_bitmap_word)
          in and_then (set_loop v (fst e + 1) 0 (count - bits_in_word) es) (\<lambda>es.
             Ok ((fst e, set_bits_in_word v offset_in_bitmap_word bits_in_word (snd e)) # es))))"

definition set_in_range ::
  "sparse_entry list \<Rightarrow> block_range \<Rightarrow> nat option \<Rightarrow> bool \<Rightarrow> (nat \<times> sparse_entry list) outcome" where
  "set_in_range es q first_entry_index_hint v =
     and_then (block_count q) (\<lambda>count.
     let bitmap_word_index = drop_bit 6 (range_begin q);
         offset_in_bitmap_word = range_begin q mod 64
     in and_then (entry_position es bitmap_word_index first_entry_index_hint) (\<lambda>first_entry_index.
        and_then (set_loop v bitmap_word_index offset_in_bitmap_word count (drop first_entry_index es)) (\<lambda>suffix.
        Ok (first_entry_index, take first_entry_index es @ suffix))))"

section \<open>Pruning entries with no bit set\<close>

text \<open>The number of entries after the current one that are removed together with it.\<close>

definition prune_batch :: "nat \<Rightarrow> nat \<Rightarrow> sparse_entry list \<Rightarrow> nat" where
  "prune_batch bitmap_word_index count es =
     (let i = length (takeWhile (\<lambda>e. \<not> (snd e \<noteq> 0 \<or> fst e - bitmap_word_index \<ge> count)) es)
      in if i < length es then i else 0)"

function prune_loop :: "nat \<Rightarrow> nat \<Rightarrow> sparse_entry list \<Rightarrow> (nat \<times> sparse_entry list) outcome" where
  "prune_loop bitmap_word_index count [] = Ok (0, [])"
| "prune_loop bitmap_word_index count (e # es) =
     (if count = 0 then Ok (0, e # es)
      else
        debug_assert (bitmap_word_index \<le> fst e)
        (let count = count - (fst e - bitmap_word_index); bitmap_word_index = fst e in
         if count = 0 then Ok (0, e # es)
         else if snd e = 0 then
           let n = prune_batch bitmap_word_index count es;
               next_bitmap_word_index = (if n = 0 then fst e else fst (es ! (n - 1))) + 1
           in and_then (sub_u64 count (next_bitmap_word_index - bitmap_word_index)) (\<lambda>count.
              and_then (prune_loop next_bitmap_word_index count (drop n es)) (\<lambda>(removed, es).
              Ok (n + 1 + removed, es)))
         else
           and_then (prune_loop (bitmap_word_index + 1) (count - 1) es) (\<lambda>(removed, es).
           Ok (removed, e # es))))"
  by pat_completeness auto
termination
  by (relation "measure (\<lambda>(i, n, es). length es)") auto

definition prune_unused_in_range ::
  "sparse_alloc_bitmap \<Rightarrow> block_range \<Rightarrow> nat option \<Rightarrow> bool \<Rightarrow> sparse_alloc_bitmap outcome" where
  "prune_unused_in_range sb q first_entry_index_hint prepare_for_rollback =
     and_then (bitmap_words_of_range q) (\<lambda>(bitmap_word_index, bitmap_words_count).
     and_then (entry_position (sb_entries sb) bitmap_word_index first_entry_index_hint) (\<lambda>entry_index.
     and_then (prune_loop bitmap_word_index bitmap_words_count (drop entry_index (sb_entries sb))) (\<lambda>(removed, suffix).
     Ok \<lparr>sb_entries = take entry_index (sb_entries sb) @ suffix,
         remove_rollback_reserve_capacity = remove_rollback_reserve_capacity sb
           + (if prepare_for_rollback then removed else 0)\<rparr>)))"

section \<open>Inserting missing entries\<close>

definition zero_entries :: "nat \<Rightarrow> nat \<Rightarrow> sparse_entry list" where
  "zero_entries bitmap_word_index n = map (\<lambda>k. (bitmap_word_index + k, 0)) [0..<n]"

text \<open>
  The loop returns whether all reservations succeeded, and the entries up to there. The entries
  before \<open>next_entry_index\<close> are collected in the first list.
\<close>

fun populate_loop ::
  "reservation \<Rightarrow> nat \<Rightarrow> sparse_entry list \<Rightarrow> nat \<Rightarrow> nat \<Rightarrow> sparse_entry list \<Rightarrow> (bool \<times> sparse_entry list) outcome" where
  "populate_loop mem reserve pre bitmap_word_index count [] =
     (if count = 0 then Ok (True, pre)
      else if \<not> mem (length pre) (count + reserve) then Ok (False, pre)
      else if length pre + count \<ge> u64_bound then Ok (False, pre)
      else Ok (True, pre @ zero_entries bitmap_word_index count))"
| "populate_loop mem reserve pre bitmap_word_index count (e # es) =
     (if count = 0 then Ok (True, pre @ e # es)
      else if fst e \<noteq> bitmap_word_index then
        and_then (sub_u64 (fst e) bitmap_word_index) (\<lambda>d.
        let missing = min d count in
        if \<not> mem (length (pre @ e # es)) (missing + reserve) then Ok (False, pre @ e # es)
        else
          let pre = pre @ zero_entries bitmap_word_index missing;
              bitmap_word_index = bitmap_word_index + missing;
              count = count - missing
          in debug_assert (count = 0 \<or> bitmap_word_index = fst e)
             (populate_loop mem reserve (pre @ [e]) bitmap_word_index (count - 1) es))
      else populate_loop mem reserve (pre @ [e]) (bitmap_word_index + 1) (count - 1) es)"

definition populate_missing_in_range ::
  "reservation \<Rightarrow> sparse_alloc_bitmap \<Rightarrow> block_range \<Rightarrow> (sparse_alloc_bitmap \<times> (nvfs_error + nat)) outcome" where
  "populate_missing_in_range mem sb q =
     and_then (bitmap_words_of_range q) (\<lambda>(bitmap_word_index, bitmap_words_count).
     let (first_entry_index, next_entry_index, bitmap_word_index, bitmap_words_count) =
           (case find_entry_position (sb_entries sb) bitmap_word_index of
              Inr p \<Rightarrow> (p, p + 1, bitmap_word_index + 1, bitmap_words_count - 1)
            | Inl p \<Rightarrow> (p, p, bitmap_word_index, bitmap_words_count))
     in and_then (populate_loop mem (remove_rollback_reserve_capacity sb) (take next_entry_index (sb_entries sb))
                    bitmap_word_index bitmap_words_count (drop next_entry_index (sb_entries sb))) (\<lambda>(ok, es).
        let sb = sb\<lparr>sb_entries := es\<rparr> in
        if ok then Ok (sb, Inr first_entry_index)
        else and_then (prune_unused_in_range sb q (Some first_entry_index) False) (\<lambda>sb.
             Ok (sb, Inl MemoryAllocationFailure))))"

section \<open>Adding and removing extents\<close>

definition sb_add_extent ::
  "reservation \<Rightarrow> sparse_alloc_bitmap \<Rightarrow> block_range \<Rightarrow> (sparse_alloc_bitmap \<times> (nvfs_error + unit)) outcome" where
  "sb_add_extent mem sb extent =
     and_then (populate_missing_in_range mem sb extent) (\<lambda>(sb, r).
     case r of Inl e \<Rightarrow> Ok (sb, Inl e)
     | Inr first_entry_index \<Rightarrow>
       and_then (set_in_range (sb_entries sb) extent (Some first_entry_index) True) (\<lambda>(_, es).
       Ok (sb\<lparr>sb_entries := es\<rparr>, Inr ())))"

definition sb_remove_range :: "sparse_alloc_bitmap \<Rightarrow> block_range \<Rightarrow> bool \<Rightarrow> sparse_alloc_bitmap outcome" where
  "sb_remove_range sb q prepare_for_rollback =
     and_then (set_in_range (sb_entries sb) q None False) (\<lambda>(first_entry_index, es).
     prune_unused_in_range (sb\<lparr>sb_entries := es\<rparr>) q (Some first_entry_index) prepare_for_rollback)"

definition sb_remove_extent :: "sparse_alloc_bitmap \<Rightarrow> block_range \<Rightarrow> sparse_alloc_bitmap outcome" where
  "sb_remove_extent sb extent = sb_remove_range sb extent True"

definition block_range_of :: "nat \<Rightarrow> nat \<Rightarrow> block_range outcome" where
  "block_range_of block_begin block_log2 =
     (if block_log2 < 64 then block_range_from block_begin (2 ^ block_log2) else Panic)"

definition sb_add_block ::
  "reservation \<Rightarrow> sparse_alloc_bitmap \<Rightarrow> nat \<Rightarrow> nat \<Rightarrow> (sparse_alloc_bitmap \<times> (nvfs_error + unit)) outcome" where
  "sb_add_block mem sb block_begin block_log2 =
     and_then (block_range_of block_begin block_log2) (sb_add_extent mem sb)"

definition sb_remove_block_impl :: "sparse_alloc_bitmap \<Rightarrow> nat \<Rightarrow> nat \<Rightarrow> bool \<Rightarrow> sparse_alloc_bitmap outcome" where
  "sb_remove_block_impl sb block_begin block_log2 prepare_for_rollback =
     and_then (block_range_of block_begin block_log2) (\<lambda>q. sb_remove_range sb q prepare_for_rollback)"

definition sb_remove_block :: "sparse_alloc_bitmap \<Rightarrow> nat \<Rightarrow> nat \<Rightarrow> sparse_alloc_bitmap outcome" where
  "sb_remove_block sb block_begin block_log2 = sb_remove_block_impl sb block_begin block_log2 True"

section \<open>Invariant and abstraction\<close>

definition sb_sorted :: "sparse_entry list \<Rightarrow> bool" where
  "sb_sorted es \<longleftrightarrow> sorted_wrt (\<lambda>x y. fst x < fst y) es \<and> (\<forall>e \<in> set es. fst e < 2 ^ 58)"

definition sb_wf :: "sparse_alloc_bitmap \<Rightarrow> bool" where
  "sb_wf sb \<longleftrightarrow> sb_sorted (sb_entries sb) \<and> (\<forall>e \<in> set (sb_entries sb). snd e \<noteq> 0)"

definition entry_bits :: "sparse_entry list \<Rightarrow> nat set" where
  "entry_bits es = {b. \<exists>e \<in> set es. fst e = b div 64 \<and> bit (snd e) (b mod 64)}"

definition sb_blocks :: "sparse_alloc_bitmap \<Rightarrow> nat set" where
  "sb_blocks sb = entry_bits (sb_entries sb)"

lemma sb_sorted_simps [simp]:
  "sb_sorted []"
  "sb_sorted (e # es) \<longleftrightarrow> fst e < 2 ^ 58 \<and> (\<forall>x \<in> set es. fst e < fst x) \<and> sb_sorted es"
  "sb_sorted (es @ fs) \<longleftrightarrow> sb_sorted es \<and> sb_sorted fs \<and> (\<forall>x \<in> set es. \<forall>y \<in> set fs. fst x < fst y)"
  by (auto simp: sb_sorted_def sorted_wrt_append)

lemma entry_bits_simps [simp]:
  "entry_bits [] = {}"
  "entry_bits (es @ fs) = entry_bits es \<union> entry_bits fs"
  by (auto simp: entry_bits_def)

lemma entry_bits_Cons:
  "b \<in> entry_bits (e # es) \<longleftrightarrow> fst e = b div 64 \<and> bit (snd e) (b mod 64) \<or> b \<in> entry_bits es"
  by (auto simp: entry_bits_def)

lemma entry_bits_zero: "\<forall>e \<in> set es. snd e = 0 \<Longrightarrow> entry_bits es = {}"
  by (auto simp: entry_bits_def)

subsection \<open>The words of a range\<close>

definition in_words :: "block_range \<Rightarrow> nat \<Rightarrow> bool" where
  "in_words q i \<longleftrightarrow> 64 * i < range_end q \<and> range_begin q < 64 * (i + 1)"

lemma bitmap_words_of_range_eq:
  assumes "range_wf q"
  shows "bitmap_words_of_range q = Ok (range_begin q div 64, (range_end q + 63) div 64 - range_begin q div 64)"
proof -
  let ?b = "range_begin q" and ?e = "range_end q"
  define c where "c = ?e - ?b + ?b mod 64"
  have be: "?b < ?e" "?e < u64_bound" using assms by (simp_all add: range_wf_def)
  have dm: "?b = 64 * (?b div 64) + ?b mod 64" by simp
  have c: "c = ?e - 64 * (?b div 64)" "64 * (?b div 64) \<le> ?e" "c < u64_bound" using be dm unfolding c_def by linarith+
  have "(if push_bit 6 (drop_bit 6 c) \<noteq> c then drop_bit 6 c + 1 else drop_bit 6 c) = (c + 63) div 64"
  proof -
    have "push_bit 6 (drop_bit 6 c) = 64 * (c div 64)" by (simp add: push_bit_eq_mult drop_bit_eq_div)
    moreover have "c = 64 * (c div 64) + c mod 64" by simp
    ultimately show ?thesis by (simp add: drop_bit_eq_div) linarith
  qed
  moreover have "(c + 63) div 64 = (?e + 63) div 64 - ?b div 64"
  proof -
    have "?e + 63 = c + 63 + 64 * (?b div 64)" using c(1,2) by linarith
    then show ?thesis by simp
  qed
  ultimately have n: "(if push_bit 6 (drop_bit 6 c) \<noteq> c then drop_bit 6 c + 1 else drop_bit 6 c)
      = (?e + 63) div 64 - ?b div 64" by simp
  have "block_count q = Ok (?e - ?b)" "add_u64 (?e - ?b) (?b mod 64) = Ok c"
    using assms c(3) by (simp_all add: c_def)
  moreover have "drop_bit 6 ?b = ?b div 64" by (simp add: drop_bit_eq_div)
  ultimately show ?thesis
    by (simp only: bitmap_words_of_range_def Let_def and_then_simps n)
qed

lemma in_words_iff:
  assumes "range_wf q"
  shows "in_words q i \<longleftrightarrow> range_begin q div 64 \<le> i \<and> i < range_begin q div 64 + ((range_end q + 63) div 64 - range_begin q div 64)"
proof -
  have "range_begin q div 64 \<le> (range_end q + 63) div 64"
    using assms by (intro div_le_mono) (simp add: range_wf_def)
  moreover have "64 * i < range_end q \<longleftrightarrow> i < (range_end q + 63) div 64" by linarith
  moreover have "range_begin q < 64 * (i + 1) \<longleftrightarrow> range_begin q div 64 \<le> i"
    using less_mult_imp_div_less [of "range_begin q" "i + 1" 64] div_le_mono [of "64 * (i + 1)" "range_begin q" 64]
    by (auto simp: not_less mult.commute less_Suc_eq_le)
  ultimately show ?thesis by (auto simp: in_words_def)
qed

lemma in_words_block: "b \<in> blocks q \<Longrightarrow> in_words q (b div 64)"
  by (auto simp: in_words_def blocks_def)

subsection \<open>Setting bits\<close>

definition upd_entry :: "nat \<Rightarrow> nat \<Rightarrow> bool \<Rightarrow> sparse_entry \<Rightarrow> sparse_entry \<Rightarrow> bool" where
  "upd_entry lo hi v e e' \<longleftrightarrow> fst e' = fst e
     \<and> (\<forall>k<64. bit (snd e') k = (if lo \<le> 64 * fst e + k \<and> 64 * fst e + k < hi then v else bit (snd e) k))"

lemma upd_entry_refl: "(\<And>k. k < 64 \<Longrightarrow> \<not> (lo \<le> 64 * fst e + k \<and> 64 * fst e + k < hi)) \<Longrightarrow> upd_entry lo hi v e e"
  by (auto simp: upd_entry_def)

lemma bit_set_bits_in_word:
  assumes "off + n \<le> 64" "k < 64"
  shows "bit (set_bits_in_word v off n w) k = (if off \<le> k \<and> k < off + n then v else bit w k)"
proof -
  have "bit (push_bit off (trailing_bits_mask n) :: bitmap_word) k \<longleftrightarrow> off \<le> k \<and> k < off + n"
    using assms by (auto simp: trailing_bits_mask_eq_mask bit_simps)
  then show ?thesis
    using assms by (auto simp: set_bits_in_word_def Let_def bit_simps)
qed

lemma set_loop_at:
  assumes off: "off < 64" and c: "c \<noteq> 0" and i: "i = fst e"
    and rec: "set_loop v (i + 1) 0 (c - min c (64 - off)) es = Ok es'"
      "list_all2 (upd_entry (64 * (i + 1)) (64 * (i + 1) + (c - min c (64 - off))) v) es es'"
    and sorted: "\<forall>x \<in> set es. i < fst x"
  shows "set_loop v i off c (e # es) = Ok ((i, set_bits_in_word v off (min c (64 - off)) (snd e)) # es')"
    "list_all2 (upd_entry (64 * i + off) (64 * i + off + c) v) (e # es) ((i, set_bits_in_word v off (min c (64 - off)) (snd e)) # es')"
proof -
  show "set_loop v i off c (e # es) = Ok ((i, set_bits_in_word v off (min c (64 - off)) (snd e)) # es')"
    using c rec(1) i by (simp add: Let_def)
  have "upd_entry (64 * i + off) (64 * i + off + c) v e (i, set_bits_in_word v off (min c (64 - off)) (snd e))"
    using i off bit_set_bits_in_word [of off "min c (64 - off)" _ v "snd e"] by (auto simp: upd_entry_def)
  moreover have "list_all2 (upd_entry (64 * i + off) (64 * i + off + c) v) es es'"
  proof (rule list.rel_mono_strong [OF rec(2)])
    fix x y assume x: "x \<in> set es" and u: "upd_entry (64 * (i + 1)) (64 * (i + 1) + (c - min c (64 - off))) v x y"
    have "i + 1 \<le> fst x" using sorted x by auto
    then have "64 * (i + 1) \<le> 64 * fst x" by (rule mult_le_mono2)
    then have "64 * i + off \<le> 64 * fst x + k" "64 * (i + 1) \<le> 64 * fst x + k"
      "64 * fst x + k < 64 * (i + 1) + (c - min c (64 - off)) \<longleftrightarrow> 64 * fst x + k < 64 * i + off + c" for k
      using off by auto
    with u show "upd_entry (64 * i + off) (64 * i + off + c) v x y" by (simp add: upd_entry_def)
  qed
  ultimately show "list_all2 (upd_entry (64 * i + off) (64 * i + off + c) v) (e # es)
      ((i, set_bits_in_word v off (min c (64 - off)) (snd e)) # es')" by simp
qed

lemma set_loop_spec:
  assumes "sb_sorted es" "\<forall>x \<in> set es. i \<le> fst x" "off < 64"
  shows "\<exists>es'. set_loop v i off c es = Ok es' \<and> list_all2 (upd_entry (64 * i + off) (64 * i + off + c) v) es es'"
  using assms
proof (induction es arbitrary: i off c)
  case (Cons e es)
  have sorted: "\<forall>x \<in> set es. fst e < fst x" "sb_sorted es" "fst e < 2 ^ 58" using Cons.prems(1) by simp_all
  have none: "list_all2 (upd_entry lo hi v) (e # es) (e # es)" if "hi \<le> lo \<or> hi \<le> 64 * fst e" for lo hi
  proof (rule list.rel_refl_strong)
    fix x assume "x \<in> set (e # es)"
    then have "fst e \<le> fst x" using sorted(1) by auto
    then have "64 * fst e \<le> 64 * fst x" by simp
    with that show "upd_entry lo hi v x x" by (intro upd_entry_refl) auto
  qed
  have at: "\<exists>es'. set_loop v (fst e) o' c' (e # es) = Ok es'
      \<and> list_all2 (upd_entry (64 * fst e + o') (64 * fst e + o' + c') v) (e # es) es'"
    if "o' < 64" "c' \<noteq> 0" for o' c'
  proof -
    have "\<forall>x \<in> set es. fst e + 1 \<le> fst x" using sorted(1) by auto
    from Cons.IH [OF sorted(2) this, of 0 "c' - min c' (64 - o')"] obtain es' where
      "set_loop v (fst e + 1) 0 (c' - min c' (64 - o')) es = Ok es'"
      "list_all2 (upd_entry (64 * (fst e + 1)) (64 * (fst e + 1) + (c' - min c' (64 - o'))) v) es es'" by auto
    from set_loop_at [OF that refl this sorted(1)] show ?thesis by blast
  qed
  show ?case
  proof (cases "c = 0")
    case True
    then show ?thesis using none by simp
  next
    case c: False
    show ?thesis
    proof (cases "fst e = i")
      case True
      then show ?thesis using at [OF Cons.prems(3) c] by simp
    next
      case False
      with Cons.prems(2) have lt: "i < fst e" by auto
      define bw where "bw = 64 * (fst e - i - 1) + (64 - off)"
      have bw: "bw + (64 * i + off) = 64 * fst e" using lt Cons.prems(3) unfolding bw_def by (simp add: algebra_simps)
      have "push_bit 6 (fst e - i - 1) mod u64_bound = 64 * (fst e - i - 1)"
        using sorted(3) by (simp add: push_bit_eq_mult)
      moreover have "64 * (fst e - i - 1) + (64 - off) < u64_bound" using sorted(3) by simp
      ultimately have skip: "set_loop v i off c (e # es) =
          (if c - min bw c = 0 then Ok (e # es) else set_loop v (fst e) 0 (c - min bw c) (e # es))"
        using c lt by (simp add: bw_def Let_def)
      show ?thesis
      proof (cases "c - min bw c = 0")
        case True
        then have "64 * i + off + c \<le> 64 * fst e" using bw by linarith
        with True skip none show ?thesis by auto
      next
        case more: False
        from at [of 0 "c - min bw c"] more obtain es' where es': "set_loop v (fst e) 0 (c - min bw c) (e # es) = Ok es'"
          "list_all2 (upd_entry (64 * fst e) (64 * fst e + (c - min bw c)) v) (e # es) es'" by auto
        have hi: "64 * fst e + (c - min bw c) = 64 * i + off + c" using more bw by linarith
        have lo: "upd_entry (64 * fst e) h v x y \<Longrightarrow> upd_entry (64 * i + off) h v x y" if "x \<in> set (e # es)" for h x y
        proof -
          have "fst e \<le> fst x" using sorted(1) that by auto
          then have "64 * fst e \<le> 64 * fst x" by simp
          moreover have "64 * i + off \<le> 64 * fst e" using bw by simp
          ultimately show "upd_entry (64 * fst e) h v x y \<Longrightarrow> upd_entry (64 * i + off) h v x y"
            by (auto simp: upd_entry_def)
        qed
        have "list_all2 (upd_entry (64 * i + off) (64 * i + off + c) v) (e # es) es'"
          using es'(2) unfolding hi by (rule list.rel_mono_strong) (use lo in blast)
        with skip more es'(1) show ?thesis by simp
      qed
    qed
  qed
qed simp

lemma upd_entries_fst: "list_all2 (upd_entry lo hi v) es es' \<Longrightarrow> map fst es' = map fst es"
  by (induction rule: list_all2_induct) (auto simp: upd_entry_def)

lemma sb_sorted_alt: "sb_sorted xs \<longleftrightarrow> sorted_wrt (<) (map fst xs) \<and> (\<forall>i \<in> set (map fst xs). i < 2 ^ 58)"
  by (simp add: sb_sorted_def sorted_wrt_map)

lemma sb_sorted_fst: "map fst es' = map fst es \<Longrightarrow> sb_sorted es' = sb_sorted es"
  unfolding sb_sorted_alt by (rule arg_cong)

lemma upd_entries_bits:
  assumes "list_all2 (upd_entry lo hi v) es es'"
  shows "entry_bits es' = (if v then entry_bits es \<union> {b. lo \<le> b \<and> b < hi \<and> b div 64 \<in> set (map fst es)}
     else entry_bits es - {lo..<hi})"
  using assms
proof (induction rule: list_all2_induct)
  case (Cons e es e' es')
  have one: "fst e' = b div 64 \<and> bit (snd e') (b mod 64) \<longleftrightarrow>
      fst e = b div 64 \<and> (if lo \<le> b \<and> b < hi then v else bit (snd e) (b mod 64))" for b
  proof (cases "fst e = b div 64")
    case True
    have "b mod 64 < 64" "64 * fst e + b mod 64 = b" using True by simp_all
    with Cons.hyps(1) show ?thesis by (simp add: upd_entry_def)
  next
    case False
    with Cons.hyps(1) show ?thesis by (simp add: upd_entry_def)
  qed
  show ?case
  proof (rule set_eqI)
    fix b
    show "b \<in> entry_bits (e' # es') \<longleftrightarrow> b \<in> (if v then entry_bits (e # es) \<union> {b. lo \<le> b \<and> b < hi \<and> b div 64 \<in> set (map fst (e # es))}
        else entry_bits (e # es) - {lo..<hi})"
      unfolding entry_bits_Cons one Cons.IH by (cases v) (auto simp: entry_bits_Cons)
  qed
qed simp

subsection \<open>Pruning\<close>

definition unused_in :: "nat \<Rightarrow> nat \<Rightarrow> sparse_entry \<Rightarrow> bool" where
  "unused_in i n e \<longleftrightarrow> snd e = 0 \<and> fst e < i + n"

lemma sorted_filter_beyond:
  assumes "sb_sorted (e # es)" "i + n \<le> fst e"
  shows "filter (\<lambda>x. \<not> unused_in i n x) (e # es) = e # es"
  using assms by (auto simp: unused_in_def intro!: filter_True)

lemma prune_batch_le: "prune_batch i n es \<le> length es"
  by (simp add: prune_batch_def Let_def)

lemma prune_batch_spec:
  assumes "k < prune_batch i n es"
  shows "snd (es ! k) = 0 \<and> fst (es ! k) - i < n"
proof -
  let ?P = "\<lambda>e. \<not> (snd e \<noteq> 0 \<or> fst e - i \<ge> n)"
  have k: "k < length (takeWhile ?P es)" using assms by (auto simp: prune_batch_def Let_def split: if_splits)
  from set_takeWhileD [OF nth_mem [OF this]] have "?P (takeWhile ?P es ! k)" by blast
  then have "?P (es ! k)" unfolding takeWhile_nth [OF k] .
  then show ?thesis by simp
qed

lemma prune_loop_spec:
  assumes "sb_sorted es" "\<forall>x \<in> set es. i \<le> fst x"
  shows "prune_loop i n es = Ok (length (filter (unused_in i n) es), filter (\<lambda>x. \<not> unused_in i n x) es)"
  using assms
proof (induction i n es rule: prune_loop.induct)
  case (2 i n e es)
  have se: "\<forall>x \<in> set es. fst e < fst x" "sb_sorted es" "i \<le> fst e" using "2.prems" by auto
  show ?case
  proof (cases "i + n \<le> fst e")
    case True
    have "filter (unused_in i n) (e # es) = []"
      using True se(1) by (auto simp: unused_in_def filter_empty_conv)
    moreover have "prune_loop i n (e # es) = Ok (0, e # es)" using True se(3) by (auto simp: Let_def)
    ultimately show ?thesis using sorted_filter_beyond [OF "2.prems"(1) True] by simp
  next
    case False
    define c where "c = n - (fst e - i)"
    have nz: "n \<noteq> 0" "c \<noteq> 0" and ic: "fst e + c = i + n" using False se(3) by (auto simp: c_def)
    have un: "unused_in i n = unused_in (fst e) c" by (simp add: fun_eq_iff unused_in_def ic)
    show ?thesis
    proof (cases "snd e = 0")
      case True
      define m where "m = prune_batch (fst e) c es"
      define nx where "nx = (if m = 0 then fst e else fst (es ! (m - 1))) + 1"
      have m: "m \<le> length es" by (simp add: m_def prune_batch_le)
      have batch: "unused_in i n x" if "x \<in> set (take m es)" for x
      proof -
        obtain k where k: "k < m" "k < length es" "x = es ! k" using take_set_D [OF \<open>x \<in> set (take m es)\<close>] by blast
        with prune_batch_spec [of k "fst e" c es] m_def have "snd x = 0" "fst x - fst e < c" by simp_all
        then show ?thesis using ic nz by (auto simp: unused_in_def)
      qed
      have last: "m \<noteq> 0 \<Longrightarrow> es ! (m - 1) \<in> set (take m es)" using m
        by (auto simp: in_set_conv_nth intro!: exI [of _ "m - 1"])
      have "m \<noteq> 0 \<Longrightarrow> fst e < fst (es ! (m - 1))" using se(1) m by simp
      then have nx_le: "nx \<le> fst e + c" "fst e < nx"
        using batch [OF last] nz ic by (auto simp: nx_def unused_in_def)
      have "sb_sorted (take m es @ drop m es)" using se(2) by simp
      then have sd: "sb_sorted (drop m es)" and lt: "\<forall>x \<in> set (take m es). \<forall>y \<in> set (drop m es). fst x < fst y"
        unfolding sb_sorted_simps by blast+
      have rest: "\<forall>x \<in> set (drop m es). nx \<le> fst x"
      proof (cases "m = 0")
        case True
        then show ?thesis using se(1) by (simp add: nx_def Suc_le_eq)
      next
        case False
        then show ?thesis using lt last [OF False] by (simp add: nx_def Suc_le_eq)
      qed
      have un': "unused_in nx (c - (nx - fst e)) = unused_in i n"
        using nx_le ic by (auto simp: fun_eq_iff unused_in_def)
      have sub: "sub_u64 c (nx - fst e) = Ok (c - (nx - fst e))" using nx_le by simp
      have "prune_loop nx (c - (nx - fst e)) (drop m es)
          = Ok (length (filter (unused_in i n) (drop m es)), filter (\<lambda>x. \<not> unused_in i n x) (drop m es))"
        using "2.IH"(1) [OF nz(1) se(3) c_def refl nz(2) True m_def nx_def sub sd rest] unfolding un' .
      moreover have "filter (unused_in i n) (take m es) = take m es" "filter (\<lambda>x. \<not> unused_in i n x) (take m es) = []"
        using batch by (auto simp: filter_id_conv filter_empty_conv)
      then have "filter (unused_in i n) es = take m es @ filter (unused_in i n) (drop m es)"
        "filter (\<lambda>x. \<not> unused_in i n x) es = filter (\<lambda>x. \<not> unused_in i n x) (drop m es)"
        using filter_append [of "unused_in i n" "take m es" "drop m es"]
          filter_append [of "\<lambda>x. \<not> unused_in i n x" "take m es" "drop m es"] by simp_all
      moreover have "unused_in i n e" using True False by (simp add: unused_in_def)
      moreover have "prune_loop i n (e # es) = and_then (prune_loop nx (c - (nx - fst e)) (drop m es)) (\<lambda>(r, es). Ok (m + 1 + r, es))"
        unfolding prune_loop.simps(2) [of i n e es] Let_def c_def [symmetric] m_def [symmetric] nx_def [symmetric]
        using nz se(3) True sub by simp
      ultimately show ?thesis using m by simp
    next
      case used: False
      have "\<forall>x \<in> set es. fst e + 1 \<le> fst x" using se(1) by auto
      with "2.IH"(2) [OF nz(1) se(3) c_def refl nz(2) used se(2)]
      have "prune_loop (fst e + 1) (c - 1) es = Ok (length (filter (unused_in (fst e + 1) (c - 1)) es),
          filter (\<lambda>x. \<not> unused_in (fst e + 1) (c - 1) x) es)" by blast
      moreover have "unused_in (fst e + 1) (c - 1) = unused_in i n" using nz ic by (auto simp: fun_eq_iff unused_in_def)
      moreover have "\<not> unused_in i n e" using used by (simp add: unused_in_def)
      moreover have "prune_loop i n (e # es) = and_then (prune_loop (fst e + 1) (c - 1) es) (\<lambda>(r, es). Ok (r, e # es))"
        unfolding prune_loop.simps(2) [of i n e es] Let_def c_def [symmetric] using nz se(3) used by simp
      ultimately show ?thesis by simp
    qed
  qed
qed simp

subsection \<open>Splitting the vector at a range\<close>

text \<open>The entries before and from the first word of a range on.\<close>

definition split_at :: "nat \<Rightarrow> sparse_entry list \<Rightarrow> sparse_entry list \<Rightarrow> sparse_entry list \<Rightarrow> bool" where
  "split_at i es xs ys \<longleftrightarrow> es = xs @ ys \<and> (\<forall>x \<in> set xs. fst x < i) \<and> (\<forall>y \<in> set ys. i \<le> fst y)"

lemma split_atE:
  assumes "sb_sorted es"
  obtains xs ys where "split_at i es xs ys"
proof -
  let ?P = "\<lambda>x. fst x < i"
  have es: "es = takeWhile ?P es @ dropWhile ?P es" by simp
  have before: "\<forall>x \<in> set (takeWhile ?P es). fst x < i" by (auto dest: set_takeWhileD)
  have "\<forall>y \<in> set (dropWhile ?P es). i \<le> fst y"
  proof (cases "dropWhile ?P es")
    case (Cons z zs)
    then have "i \<le> fst z" using hd_dropWhile [of ?P es] by simp
    moreover have "sb_sorted (takeWhile ?P es @ dropWhile ?P es)" using assms by simp
    then have "\<forall>y \<in> set zs. fst z < fst y" unfolding Cons sb_sorted_simps by blast
    ultimately show ?thesis unfolding Cons by auto
  next
    case Nil
    then show ?thesis by (simp only: Nil list.set ball_empty)
  qed
  with es before show thesis by (intro that [of "takeWhile ?P es" "dropWhile ?P es"]) (simp add: split_at_def)
qed

lemma split_at_partition:
  assumes "split_at i es xs ys"
  shows "partition_point (\<lambda>e. fst e < i) es = length xs"
proof (rule partition_pointI)
  show "length xs \<le> length es" using assms by (simp add: split_at_def)
next
  fix k assume "k < length xs"
  then show "fst (es ! k) < i" using assms by (simp add: split_at_def nth_append)
next
  assume "length xs < length es"
  then have "ys \<noteq> []" "es ! length xs = hd ys" using assms by (auto simp: split_at_def nth_append hd_conv_nth)
  then show "\<not> fst (es ! length xs) < i" using assms by (auto simp: split_at_def not_less)
qed

lemma split_at_find:
  assumes "split_at i es xs ys"
  shows "find_entry_position es i = (case ys of [] \<Rightarrow> Inl (length xs) | y # _ \<Rightarrow> if fst y = i then Inr (length xs) else Inl (length xs))"
  using assms unfolding find_entry_position_def split_at_partition [OF assms]
  by (auto simp: split_at_def split: list.splits)

lemma split_at_position:
  assumes "split_at i es xs ys" "h = None \<or> h = Some (length xs)"
  shows "entry_position es i h = Ok (length xs)"
proof (cases h)
  case None
  then show ?thesis using split_at_find [OF assms(1)] by (simp add: entry_position_def split: list.splits)
next
  case (Some k)
  then have k: "k = length xs" using assms(2) by simp
  have es: "es = xs @ ys" using assms(1) by (simp add: split_at_def)
  have "k = length es \<or> vec_get es k = Ok (ys ! 0) \<and> i \<le> fst (ys ! 0)"
    using assms(1) k by (cases ys) (auto simp: split_at_def vec_get_def nth_append)
  moreover have "k = 0 \<or> vec_get es (k - 1) = Ok (xs ! (k - 1)) \<and> fst (xs ! (k - 1)) < i"
    using assms(1) k by (auto simp: split_at_def vec_get_def nth_append)
  ultimately show ?thesis using Some k by (auto simp: entry_position_def)
qed

lemma drop_bit_6: "drop_bit 6 (n::nat) = n div 64"
  by (simp add: drop_bit_eq_div)

lemma div_lt_below: "(i::nat) < b div 64 \<Longrightarrow> k < 64 \<Longrightarrow> 64 * i + k < b"
  by linarith

lemma set_in_range_split:
  assumes es: "sb_sorted es" and s: "split_at (range_begin q div 64) es xs ys" and q: "range_wf q"
    and h: "h = None \<or> h = Some (length xs)"
  obtains ys' where "set_in_range es q h v = Ok (length xs, xs @ ys')" "map fst ys' = map fst ys"
    "list_all2 (upd_entry (range_begin q) (range_end q) v) es (xs @ ys')"
proof -
  let ?b = "range_begin q" and ?e = "range_end q"
  have e: "es = xs @ ys" and ys: "sb_sorted ys" "\<forall>y \<in> set ys. ?b div 64 \<le> fst y"
    using es s by (auto simp: split_at_def)
  have be: "64 * (?b div 64) + ?b mod 64 = ?b" "?b + (?e - ?b) = ?e" using q by (simp_all add: range_wf_def)
  from set_loop_spec [OF ys, of "?b mod 64" v "?e - ?b"] be obtain ys' where
    ys': "set_loop v (?b div 64) (?b mod 64) (?e - ?b) ys = Ok ys'" "list_all2 (upd_entry ?b ?e v) ys ys'" by auto
  have xs: "list_all2 (upd_entry ?b ?e v) xs xs"
  proof (rule list.rel_refl_strong, rule upd_entry_refl)
    fix x k assume "x \<in> set xs" "k < (64::nat)"
    then have "64 * fst x + k < ?b" using s by (intro div_lt_below) (auto simp: split_at_def)
    then show "\<not> (?b \<le> 64 * fst x + k \<and> 64 * fst x + k < ?e)" by simp
  qed
  show thesis
  proof (rule that)
    show "set_in_range es q h v = Ok (length xs, xs @ ys')"
      using ys'(1) split_at_position [OF s h] q by (simp add: set_in_range_def Let_def drop_bit_6 e)
    show "map fst ys' = map fst ys" by (rule upd_entries_fst [OF ys'(2)])
    show "list_all2 (upd_entry ?b ?e v) es (xs @ ys')" unfolding e using xs ys'(2) by (rule list_all2_appendI)
  qed
qed

definition prunable :: "block_range \<Rightarrow> sparse_entry \<Rightarrow> bool" where
  "prunable q e \<longleftrightarrow> snd e = 0 \<and> in_words q (fst e)"

lemma prune_unused_split:
  assumes es: "sb_sorted (sb_entries sb)" and s: "split_at (range_begin q div 64) (sb_entries sb) xs ys" and q: "range_wf q"
    and h: "h = None \<or> h = Some (length xs)"
  shows "prune_unused_in_range sb q h roll = Ok \<lparr>sb_entries = filter (\<lambda>e. \<not> prunable q e) (sb_entries sb),
     remove_rollback_reserve_capacity = remove_rollback_reserve_capacity sb
       + (if roll then length (filter (prunable q) (sb_entries sb)) else 0)\<rparr>"
proof -
  let ?i = "range_begin q div 64" and ?n = "(range_end q + 63) div 64 - range_begin q div 64"
  have e: "sb_entries sb = xs @ ys" and ys: "sb_sorted ys" "\<forall>y \<in> set ys. ?i \<le> fst y" and xs: "\<forall>x \<in> set xs. fst x < ?i"
    using es s by (auto simp: split_at_def)
  have un: "unused_in ?i ?n y \<longleftrightarrow> prunable q y" if "y \<in> set ys" for y
    using ys(2) that by (auto simp: unused_in_def prunable_def in_words_iff [OF q])
  have "filter (unused_in ?i ?n) ys = filter (prunable q) ys"
    "filter (\<lambda>e. \<not> unused_in ?i ?n e) ys = filter (\<lambda>e. \<not> prunable q e) ys"
    by (intro filter_cong refl, simp add: un)+
  with prune_loop_spec [OF ys] have "prune_loop ?i ?n ys = Ok (length (filter (prunable q) ys), filter (\<lambda>e. \<not> prunable q e) ys)"
    by simp
  moreover have "filter (prunable q) xs = []" "filter (\<lambda>e. \<not> prunable q e) xs = xs"
    using xs by (auto simp: filter_empty_conv filter_id_conv prunable_def in_words_iff [OF q])
  ultimately show ?thesis
    using split_at_position [OF s h] by (simp add: prune_unused_in_range_def bitmap_words_of_range_eq [OF q] e)
qed

lemma split_at_fst:
  assumes "split_at i es xs ys" "map fst ys' = map fst ys"
  shows "split_at i (xs @ ys') xs ys'"
proof -
  have "fst ` set ys' = fst ` set ys" using assms(2) by (metis set_map)
  then show ?thesis using assms(1) unfolding split_at_def by (metis image_iff)
qed

lemma sb_sorted_filter: "sb_sorted es \<Longrightarrow> sb_sorted (filter P es)"
  by (simp add: sb_sorted_def sorted_wrt_filter)

lemma entry_bits_filter:
  "(\<And>e. e \<in> set es \<Longrightarrow> \<not> P e \<Longrightarrow> snd e = 0) \<Longrightarrow> entry_bits (filter P es) = entry_bits es"
  by (fastforce simp: entry_bits_def)

lemma upd_entry_outside:
  assumes "upd_entry (range_begin q) (range_end q) v e e'" "\<not> in_words q (fst e)"
  shows "e' = e"
proof -
  have "bit (snd e') k = bit (snd e) k" for k
  proof (cases "k < 64")
    case True
    then have "\<not> (range_begin q \<le> 64 * fst e + k \<and> 64 * fst e + k < range_end q)"
      using assms(2) by (auto simp: in_words_def)
    with True assms(1) show ?thesis unfolding upd_entry_def by (simp split del: if_split) metis
  next
    case False
    then show ?thesis using bit_imp_le_length [of "snd e'" k] bit_imp_le_length [of "snd e" k] by auto
  qed
  then have "snd e' = snd e" by (simp add: bit_eq_iff)
  with assms(1) show ?thesis by (simp add: upd_entry_def prod_eq_iff)
qed

lemma upd_entries_nonzero:
  assumes "list_all2 (upd_entry (range_begin q) (range_end q) v) es es'" "e' \<in> set es'" "\<forall>e \<in> set es. snd e \<noteq> 0"
    "\<not> in_words q (fst e')"
  shows "snd e' \<noteq> 0"
proof -
  from assms(1,2) obtain e where "e \<in> set es" "upd_entry (range_begin q) (range_end q) v e e'"
    by (metis in_set_conv_nth list_all2_conv_all_nth)
  with upd_entry_outside [of q v e e'] assms(3,4) show ?thesis by (auto simp: upd_entry_def)
qed

theorem sb_remove_range_spec:
  assumes sb: "sb_wf sb" and q: "range_wf q"
  obtains sb' where "sb_remove_range sb q roll = Ok sb'" "sb_wf sb'" "sb_blocks sb' = sb_blocks sb - blocks q"
    "remove_rollback_reserve_capacity sb' = remove_rollback_reserve_capacity sb
       + (if roll then length (sb_entries sb) - length (sb_entries sb') else 0)"
    "length (sb_entries sb') \<le> length (sb_entries sb)"
proof -
  let ?es = "sb_entries sb"
  have es: "sb_sorted ?es" "\<forall>e \<in> set ?es. snd e \<noteq> 0" using sb by (simp_all add: sb_wf_def)
  obtain xs ys where s: "split_at (range_begin q div 64) ?es xs ys" using split_atE [OF es(1)] .
  obtain ys' where set: "set_in_range ?es q None False = Ok (length xs, xs @ ys')" "map fst ys' = map fst ys"
    and upd: "list_all2 (upd_entry (range_begin q) (range_end q) False) ?es (xs @ ys')"
    using set_in_range_split [OF es(1) s q, of None False] by blast
  let ?es' = "xs @ ys'"
  have s': "split_at (range_begin q div 64) ?es' xs ys'" by (rule split_at_fst [OF s set(2)])
  have sorted: "sb_sorted ?es'" using sb_sorted_fst [OF upd_entries_fst [OF upd]] es(1) by simp
  define sb' where "sb' = \<lparr>sb_entries = filter (\<lambda>e. \<not> prunable q e) ?es',
     remove_rollback_reserve_capacity = remove_rollback_reserve_capacity sb
       + (if roll then length (filter (prunable q) ?es') else 0)\<rparr>"
  have "sb_remove_range sb q roll = Ok sb'"
    using set(1) prune_unused_split [of "sb\<lparr>sb_entries := ?es'\<rparr>" q xs ys' "Some (length xs)" roll] sorted s' q
    by (simp add: sb_remove_range_def sb'_def)
  moreover have "sb_wf sb'"
    unfolding sb_wf_def
  proof (intro conjI ballI)
    show "sb_sorted (sb_entries sb')" unfolding sb'_def using sb_sorted_filter [OF sorted] by simp
    fix e assume "e \<in> set (sb_entries sb')"
    then have "e \<in> set ?es'" "\<not> prunable q e" unfolding sb'_def by auto
    then show "snd e \<noteq> 0" using upd_entries_nonzero [OF upd _ es(2), of e] by (auto simp only: prunable_def)
  qed
  moreover have "sb_blocks sb' = sb_blocks sb - blocks q"
    using upd_entries_bits [OF upd] entry_bits_filter [of ?es' "\<lambda>e. \<not> prunable q e"]
    by (simp add: sb_blocks_def sb'_def prunable_def blocks_def)
  moreover have len: "length ?es' = length ?es" using list_all2_lengthD [OF upd] by simp
  have "length (filter (prunable q) ?es') + length (filter (\<lambda>e. \<not> prunable q e) ?es') = length ?es"
    using sum_length_filter_compl [of "prunable q" ?es'] len by simp
  then have "remove_rollback_reserve_capacity sb' = remove_rollback_reserve_capacity sb
       + (if roll then length ?es - length (sb_entries sb') else 0)" "length (sb_entries sb') \<le> length ?es"
    unfolding sb'_def by auto
  ultimately show thesis using that by blast
qed

subsection \<open>Inserting missing entries\<close>

text \<open>
  Entries strictly between the first and the last word of a range are not reached by \<open>populate\<close>
  after a gap. In a bitmap without zero words there is none when no block of the range is set yet.
\<close>

definition no_interior :: "block_range \<Rightarrow> sparse_entry list \<Rightarrow> bool" where
  "no_interior q es \<longleftrightarrow> (\<forall>e \<in> set es. in_words q (fst e) \<longrightarrow>
     \<not> in_words q (fst e + 1) \<or> fst e = range_begin q div 64)"

lemma interior_blocks:
  assumes "in_words q (fst e)" "in_words q (fst e + 1)" "fst e \<noteq> range_begin q div 64" "b div 64 = fst e"
  shows "b \<in> blocks q"
proof -
  have "range_begin q \<le> 64 * fst e" "64 * (fst e + 1) \<le> range_end q"
    using assms(1-3) by (auto simp: in_words_def)
  moreover have "64 * fst e \<le> b \<and> b < 64 * (fst e + 1)"
    unfolding assms(4) [symmetric] using mult_div_mod_eq [of 64 b] mod_less_divisor [of 64 b] by auto
  ultimately show ?thesis by (simp add: blocks_def)
qed

lemma entry_has_block:
  assumes "e \<in> set es" "snd e \<noteq> 0"
  obtains b where "b \<in> entry_bits es" "b div 64 = fst e"
proof -
  from assms(2) obtain k where k: "bit (snd e) k" by (auto simp: bit_eq_iff)
  then have "k < 64" using bit_imp_le_length [OF k] by simp
  then have "(64 * fst e + k) div 64 = fst e" "(64 * fst e + k) mod 64 = k" by simp_all
  moreover from this have "64 * fst e + k \<in> entry_bits es" using assms(1) k unfolding entry_bits_def by auto
  ultimately show thesis using that by blast
qed

lemma disjoint_no_interior:
  assumes "\<forall>e \<in> set es. \<exists>b. b \<in> B \<and> b div 64 = fst e" "B \<inter> blocks q = {}"
  shows "no_interior q es"
  unfolding no_interior_def
proof (intro ballI impI)
  fix e assume e: "e \<in> set es" "in_words q (fst e)"
  then obtain b where "b \<in> B" "b div 64 = fst e" using assms(1) by blast
  with interior_blocks [OF e(2), of b] assms(2) show "\<not> in_words q (fst e + 1) \<or> fst e = range_begin q div 64" by blast
qed

lemma sb_no_interior:
  assumes "sb_wf sb" "sb_blocks sb \<inter> blocks q = {}"
  shows "no_interior q (sb_entries sb)"
proof (rule disjoint_no_interior [OF _ assms(2)], rule ballI)
  fix e assume "e \<in> set (sb_entries sb)"
  moreover from this have "snd e \<noteq> 0" using assms(1) by (simp add: sb_wf_def)
  ultimately show "\<exists>b. b \<in> sb_blocks sb \<and> b div 64 = fst e" unfolding sb_blocks_def by (metis entry_has_block)
qed

definition populates :: "nat \<Rightarrow> nat \<Rightarrow> sparse_entry list \<Rightarrow> sparse_entry list \<Rightarrow> bool" where
  "populates i n es es' \<longleftrightarrow> sb_sorted es' \<and> set es' = set es \<union> (\<lambda>k. (k, 0)) ` ({i..<i + n} - fst ` set es)"

lemma zero_entries_simps [simp]:
  "set (zero_entries i n) = (\<lambda>k. (k, 0)) ` {i..<i + n}"
  "length (zero_entries i n) = n"
proof -
  have "(\<lambda>k. (i + k, 0)) ` {0..<n} = (\<lambda>k. (k, 0)) ` (+) i ` {0..<n}" by (simp only: image_image)
  also have "(+) i ` {0..<n} = {i..<i + n}" by (simp add: add.commute)
  finally show "set (zero_entries i n) = (\<lambda>k. (k, 0)) ` {i..<i + n}" by (simp add: zero_entries_def)
qed (simp add: zero_entries_def)

lemma zero_entries_sorted: "i + n \<le> 2 ^ 58 \<Longrightarrow> sb_sorted (zero_entries i n)"
  by (auto simp: sb_sorted_def zero_entries_def sorted_wrt_map sorted_wrt_iff_nth_less)

lemma populates_gap:
  assumes "sb_sorted (pre @ es)" "i + n \<le> 2 ^ 58" "\<forall>x \<in> set pre. fst x < i" "\<forall>x \<in> set es. i + n \<le> fst x"
  shows "populates i n (pre @ es) (pre @ zero_entries i n @ es)"
  using assms zero_entries_sorted [OF assms(2)] unfolding populates_def by (fastforce simp: image_iff)

lemma populate_loop_spec:
  assumes pe: "sb_sorted (pre @ es)" "\<forall>x \<in> set pre. fst x < i" "i + n \<le> 2 ^ 58"
    and es: "\<forall>x \<in> set es. i \<le> fst x" "\<forall>x \<in> set es. i + n \<le> fst x + 1"
  shows "populate_loop mem reserve pre i n es = Ok (False, pre @ es) \<and> n \<noteq> 0
       \<and> (\<not> (\<forall>l m. mem l m) \<or> length (pre @ es) + n \<ge> u64_bound)
    \<or> (\<exists>zs. populate_loop mem reserve pre i n es = Ok (True, pre @ zs) \<and> populates i n (pre @ es) (pre @ zs)
        \<and> (\<forall>x \<in> set zs. i \<le> fst x))"
proof (cases "n = 0")
  case True
  then have "populate_loop mem reserve pre i n es = Ok (True, pre @ es)" by (cases es) simp_all
  with True pe(1) es(1) show ?thesis by (auto simp: populates_def)
next
  case n: False
  note gap = populates_gap [OF pe(1,3,2)]
  show ?thesis
  proof (cases es)
    case Nil
    then show ?thesis using n gap by (auto simp: not_le)
  next
    case (Cons e es')
    define d where "d = min (fst e - i) n"
    have e: "i \<le> fst e" "i + n \<le> fst e + 1" using es Cons by auto
    have later: "\<forall>x \<in> set es'. fst e < fst x" using pe(1) Cons by simp
    have "fst e = i \<and> n = 1 \<or> d = n - 1 \<and> fst e = i + d \<and> i \<noteq> fst e \<or> d = n \<and> i + n \<le> fst e"
      using e n unfolding d_def by auto
    then consider (at) "fst e = i" "n = 1" | (last) "d = n - 1" "fst e = i + d" "i < fst e" | (beyond) "d = n" "i + n \<le> fst e"
      using e(1) by fastforce
    then show ?thesis
    proof cases
      case at
      then have "populate_loop mem reserve pre i n es = Ok (True, pre @ es)" using Cons by (cases es') simp_all
      moreover have "populates i n (pre @ es) (pre @ es)" using pe(1) at Cons by (auto simp: populates_def)
      ultimately show ?thesis using es(1) by blast
    next
      case last
      have "sub_u64 (fst e) i = Ok (fst e - i)" using e(1) by simp
      then have run: "populate_loop mem reserve pre i n es =
          (if \<not> mem (length (pre @ es)) (d + reserve) then Ok (False, pre @ es)
           else populate_loop mem reserve ((pre @ zero_entries i d) @ [e]) (i + d) 0 es')"
        using last n Cons by (simp add: Let_def flip: d_def)
      have "\<forall>x \<in> set es. i + d \<le> fst x" using later last Cons by auto
      from populates_gap [OF pe(1) _ pe(2) this] pe(3) last have
        "populates i d (pre @ es) (pre @ zero_entries i d @ es)" by simp
      moreover have "{i..<i + n} - fst ` set (pre @ es) = {i..<i + d} - fst ` set (pre @ es)"
      proof -
        have "{i..<i + n} = insert (fst e) {i..<i + d}" using last n by auto
        then show ?thesis using Cons by auto
      qed
      ultimately have "populates i n (pre @ es) (pre @ zero_entries i d @ es)" unfolding populates_def by simp
      moreover have "populate_loop mem reserve ((pre @ zero_entries i d) @ [e]) (i + d) 0 es' = Ok (True, pre @ zero_entries i d @ es)"
        using Cons by (cases es') simp_all
      moreover have "\<forall>x \<in> set (zero_entries i d @ es). i \<le> fst x" using es(1) by auto
      ultimately show ?thesis using n run by (cases "mem (length (pre @ es)) (d + reserve)") auto
    next
      case beyond
      have "sub_u64 (fst e) i = Ok (fst e - i)" using e(1) by simp
      then have run: "populate_loop mem reserve pre i n es =
          (if \<not> mem (length (pre @ es)) (n + reserve) then Ok (False, pre @ es)
           else populate_loop mem reserve ((pre @ zero_entries i n) @ [e]) (i + n) 0 es')"
        using beyond n Cons by (simp add: Let_def d_def)
      have "\<forall>x \<in> set es. i + n \<le> fst x" using later beyond Cons by auto
      from gap [OF this] have "populates i n (pre @ es) (pre @ zero_entries i n @ es)" .
      moreover have "populate_loop mem reserve ((pre @ zero_entries i n) @ [e]) (i + n) 0 es' = Ok (True, pre @ zero_entries i n @ es)"
        using Cons by (cases es') simp_all
      moreover have "\<forall>x \<in> set (zero_entries i n @ es). i \<le> fst x" using es(1) by auto
      ultimately show ?thesis using n run by (cases "mem (length (pre @ es)) (n + reserve)") auto
    qed
  qed
qed


definition populated :: "block_range \<Rightarrow> sparse_entry list \<Rightarrow> sparse_entry list \<Rightarrow> bool" where
  "populated q es es' \<longleftrightarrow> sb_sorted es' \<and> set es' = set es \<union> (\<lambda>k. (k, 0)) ` ({k. in_words q k} - fst ` set es)"

lemma words_bound: "range_wf q \<Longrightarrow> (range_end q + 63) div 64 \<le> 2 ^ 58"
proof -
  assume "range_wf q"
  then have "range_end q + 63 \<le> 64 * 2 ^ 58 + 63" by (simp add: range_wf_def)
  from div_le_mono [OF this, of 64] show ?thesis by simp
qed

lemma words_eq:
  assumes "range_wf q"
  shows "{k. in_words q k} = {range_begin q div 64..<range_begin q div 64 + ((range_end q + 63) div 64 - range_begin q div 64)}"
  unfolding in_words_iff [OF assms] atLeastLessThan_def atLeast_def lessThan_def by blast

lemma no_interior_last:
  assumes "range_wf q" "no_interior q es" "e \<in> set es" "range_begin q div 64 < fst e"
  shows "range_begin q div 64 + ((range_end q + 63) div 64 - range_begin q div 64) \<le> fst e + 1"
proof -
  define a n where "a = range_begin q div 64" and "n = (range_end q + 63) div 64 - range_begin q div 64"
  have iff: "in_words q k \<longleftrightarrow> a \<le> k \<and> k < a + n" for k unfolding a_def n_def by (rule in_words_iff [OF assms(1)])
  have gt: "a < fst e" "fst e \<noteq> range_begin q div 64" using assms(4) by (simp_all add: a_def)
  then have "in_words q (fst e) \<Longrightarrow> \<not> in_words q (fst e + 1)" using assms(2,3) unfolding no_interior_def by blast
  then have "a + n \<le> fst e + 1" using gt(1) unfolding iff by linarith
  then show ?thesis by (simp only: a_def n_def)
qed

lemma populate_success:
  assumes es: "sb_sorted (sb_entries sb)" and s: "split_at (range_begin q div 64) (sb_entries sb) xs ys"
    and q: "range_wf q" and ni: "no_interior q (sb_entries sb)"
  shows "populate_missing_in_range mem sb q
       = Ok (sb\<lparr>sb_entries := filter (\<lambda>e. \<not> prunable q e) (sb_entries sb)\<rparr>, Inl MemoryAllocationFailure)
       \<and> (\<not> (\<forall>l m. mem l m) \<or> length (sb_entries sb) + ((range_end q + 63) div 64 - range_begin q div 64) \<ge> u64_bound)
    \<or> (\<exists>zs. populate_missing_in_range mem sb q = Ok (sb\<lparr>sb_entries := xs @ zs\<rparr>, Inr (length xs))
       \<and> populated q (sb_entries sb) (xs @ zs) \<and> split_at (range_begin q div 64) (xs @ zs) xs zs)"
proof -
  let ?i = "range_begin q div 64" and ?n = "(range_end q + 63) div 64 - range_begin q div 64"
  let ?r = "remove_rollback_reserve_capacity sb"
  have e: "sb_entries sb = xs @ ys" and xs: "\<forall>x \<in> set xs. fst x < ?i" and ys: "\<forall>y \<in> set ys. ?i \<le> fst y"
    using s by (simp_all add: split_at_def)
  have inw: "in_words q k \<longleftrightarrow> ?i \<le> k \<and> k < ?i + ?n" for k by (rule in_words_iff [OF q])
  have n: "?n \<noteq> 0" "?i + ?n \<le> 2 ^ 58"
    using q words_bound [OF q] inw [of ?i] by (auto simp: range_wf_def in_words_def)
  have far: "?i + ?n \<le> fst y + 1" if "y \<in> set ys" "fst y \<noteq> ?i" for y
    using no_interior_last [OF q ni, of y] that ys e by auto
  have same: "sb\<lparr>sb_entries := xs @ ys\<rparr> = sb" unfolding e [symmetric] by simp
  have unsplit: "prune_unused_in_range sb q (Some (length xs)) False
      = Ok (sb\<lparr>sb_entries := filter (\<lambda>e. \<not> prunable q e) (sb_entries sb)\<rparr>)"
    using prune_unused_split [OF es s q, of "Some (length xs)" False] by simp
  show ?thesis
  proof (cases "\<exists>y ys'. ys = y # ys' \<and> fst y = ?i")
    case False
    then have find: "find_entry_position (sb_entries sb) ?i = Inl (length xs)"
      using split_at_find [OF s] by (auto split: list.splits)
    have "\<forall>y \<in> set ys. fst y \<noteq> ?i"
      using es ys False unfolding e by (cases ys) auto
    then have "\<forall>x \<in> set ys. ?i + ?n \<le> fst x + 1" using far by blast
    from populate_loop_spec [OF es [unfolded e] xs n(2) ys this, of mem ?r]
    consider (fail) "populate_loop mem ?r xs ?i ?n ys = Ok (False, sb_entries sb)"
        "\<not> (\<forall>l m. mem l m) \<or> length (sb_entries sb) + ?n \<ge> u64_bound"
      | (okay) zs where "populate_loop mem ?r xs ?i ?n ys = Ok (True, xs @ zs)"
        "populates ?i ?n (sb_entries sb) (xs @ zs)" "\<forall>x \<in> set zs. ?i \<le> fst x"
      unfolding e by blast
    then show ?thesis
    proof cases
      case fail
      then show ?thesis using unsplit
        by (simp add: populate_missing_in_range_def bitmap_words_of_range_eq [OF q] find [unfolded e] e same)
    next
      case okay
      have "populated q (sb_entries sb) (xs @ zs)" using okay(2) unfolding populated_def populates_def words_eq [OF q] .
      moreover have "split_at ?i (xs @ zs) xs zs" using xs okay(3) by (simp add: split_at_def)
      moreover have "populate_missing_in_range mem sb q = Ok (sb\<lparr>sb_entries := xs @ zs\<rparr>, Inr (length xs))"
        using okay(1) by (simp add: populate_missing_in_range_def bitmap_words_of_range_eq [OF q] find [unfolded e] e same)
      ultimately show ?thesis by blast
    qed
  next
    case True
    then obtain y ys' where y: "ys = y # ys'" "fst y = ?i" by blast
    then have find: "find_entry_position (sb_entries sb) ?i = Inr (length xs)"
      using split_at_find [OF s] by simp
    have sorted: "sb_sorted ((xs @ [y]) @ ys')" using es unfolding e y(1) by simp
    have later: "\<forall>x \<in> set ys'. ?i < fst x" using sorted y(2) by auto
    have 1: "\<forall>x \<in> set (xs @ [y]). fst x < ?i + 1" "?i + 1 + (?n - 1) \<le> 2 ^ 58" "\<forall>x \<in> set ys'. ?i + 1 \<le> fst x"
      using xs y n later by auto
    have 2: "\<forall>x \<in> set ys'. ?i + 1 + (?n - 1) \<le> fst x + 1"
    proof
      fix x assume "x \<in> set ys'"
      then have "?i + ?n \<le> fst x + 1" using later y(1) by (intro far) auto
      then show "?i + 1 + (?n - 1) \<le> fst x + 1" using n(1) by simp
    qed
    have e': "sb_entries sb = (xs @ [y]) @ ys'" and eq: "\<And>zs. (xs @ [y]) @ zs = xs @ y # zs" using e y(1) by simp_all
    have mono: "u64_bound \<le> length (sb_entries sb) + (?n - 1) \<Longrightarrow> u64_bound \<le> length (sb_entries sb) + ?n"
      by (erule order_trans) simp
    from populate_loop_spec [OF sorted 1 2, of mem ?r]
    consider (fail) "populate_loop mem ?r (xs @ [y]) (?i + 1) (?n - 1) ys' = Ok (False, sb_entries sb)"
        "\<not> (\<forall>l m. mem l m) \<or> length (sb_entries sb) + ?n \<ge> u64_bound"
      | (okay) zs where "populate_loop mem ?r (xs @ [y]) (?i + 1) (?n - 1) ys' = Ok (True, xs @ y # zs)"
        "populates (?i + 1) (?n - 1) (sb_entries sb) (xs @ y # zs)" "\<forall>x \<in> set zs. ?i + 1 \<le> fst x"
      using mono unfolding eq e' by blast
    then show ?thesis
    proof cases
      case fail
      then show ?thesis using unsplit
        by (simp add: populate_missing_in_range_def bitmap_words_of_range_eq [OF q] find [unfolded e y(1)] e y(1) same [unfolded y(1)])
    next
      case okay
      have "{?i..<?i + ?n} = insert (fst y) {?i + 1..<?i + 1 + (?n - 1)}" using n y(2) by auto
      then have "{k. in_words q k} - fst ` set (sb_entries sb) = {?i + 1..<?i + 1 + (?n - 1)} - fst ` set (sb_entries sb)"
        unfolding words_eq [OF q] e y(1) by auto
      with okay(2) have "populated q (sb_entries sb) (xs @ y # zs)" unfolding populated_def populates_def by simp
      moreover have "split_at ?i (xs @ y # zs) xs (y # zs)" using xs y(2) okay(3) by (auto simp: split_at_def)
      moreover have "populate_missing_in_range mem sb q = Ok (sb\<lparr>sb_entries := xs @ y # zs\<rparr>, Inr (length xs))"
        using okay(1) by (simp add: populate_missing_in_range_def bitmap_words_of_range_eq [OF q] find [unfolded e y(1)] e y(1) same [unfolded y(1)])
      ultimately show ?thesis by blast
    qed
  qed
qed

lemma populated_bits: "populated q es es' \<Longrightarrow> entry_bits es' = entry_bits es"
  unfolding populated_def entry_bits_def by auto

lemma populated_covers: "populated q es es' \<Longrightarrow> in_words q k \<Longrightarrow> k \<in> set (map fst es')"
  unfolding populated_def by (cases "k \<in> fst ` set es") (auto simp: image_Un image_image)

lemma sb_sorted_length:
  assumes "sb_sorted es"
  shows "length es \<le> 2 ^ 58"
proof -
  have "distinct (map fst es)" using assms strict_sorted_iff [of "map fst es"] by (simp add: sb_sorted_alt)
  then have "length es = card (set (map fst es))" using distinct_card [of "map fst es"] by simp
  also have "\<dots> \<le> card {..<2 ^ 58::nat}"
    using assms unfolding sb_sorted_alt by (intro card_mono) (auto simp only: finite_lessThan lessThan_iff)
  also have "card {..<2 ^ 58::nat} = 2 ^ 58" by (rule card_lessThan)
  finally show ?thesis .
qed

lemma no_overflow:
  assumes "sb_sorted es" "range_wf q"
  shows "length es + ((range_end q + 63) div 64 - range_begin q div 64) < u64_bound"
proof -
  have "(range_end q + 63) div 64 - range_begin q div 64 \<le> 2 ^ 58" using words_bound [OF assms(2)] by (rule order_trans [rotated]) simp
  with sb_sorted_length [OF assms(1)] have "length es + ((range_end q + 63) div 64 - range_begin q div 64) \<le> 2 ^ 58 + 2 ^ 58"
    by (rule add_mono)
  also have "(2 ^ 58 + 2 ^ 58 :: nat) < u64_bound" by simp
  finally show ?thesis .
qed

lemma in_words_some_block:
  assumes "range_wf q" "in_words q i"
  obtains b where "b \<in> blocks q" "b div 64 = i"
proof -
  let ?b = "max (range_begin q) (64 * i)"
  have "?b \<in> blocks q" using assms by (simp add: range_wf_def in_words_def blocks_def)
  moreover have "64 * i \<le> ?b" "?b < 64 * i + 64" using assms(2) by (simp_all add: in_words_def)
  then have "?b div 64 = i" by linarith
  ultimately show thesis using that by blast
qed

lemma populated_nonzero:
  assumes "populated q es es'" "e \<in> set es'" "\<not> in_words q (fst e)"
  shows "e \<in> set es"
  using assms unfolding populated_def by auto

lemma set_populated:
  assumes p: "populated q es es'" and q: "range_wf q"
    and upd: "list_all2 (upd_entry (range_begin q) (range_end q) True) es' es''"
    and nz: "\<forall>e \<in> set es. snd e \<noteq> 0 \<or> in_words q (fst e)"
  shows "sb_sorted es''" "\<forall>e \<in> set es''. snd e \<noteq> 0" "entry_bits es'' = entry_bits es \<union> blocks q"
proof -
  have "sb_sorted es'" using p by (simp add: populated_def)
  then show sorted: "sb_sorted es''" using sb_sorted_fst [OF upd_entries_fst [OF upd]] by simp
  have "b div 64 \<in> set (map fst es')" if "b \<in> blocks q" for b
    using populated_covers [OF p in_words_block [OF that]] .
  then have "{b. range_begin q \<le> b \<and> b < range_end q \<and> b div 64 \<in> set (map fst es')} = blocks q"
    unfolding blocks_def by (simp only: atLeastLessThan_iff set_eq_iff mem_Collect_eq) blast
  then show bits: "entry_bits es'' = entry_bits es \<union> blocks q"
    using upd_entries_bits [OF upd] populated_bits [OF p] by simp
  show "\<forall>e \<in> set es''. snd e \<noteq> 0"
  proof
    fix e assume e: "e \<in> set es''"
    then obtain e0 where e0: "e0 \<in> set es'" "upd_entry (range_begin q) (range_end q) True e0 e"
      using upd by (metis in_set_conv_nth list_all2_conv_all_nth)
    then have f: "fst e = fst e0" by (simp add: upd_entry_def)
    show "snd e \<noteq> 0"
    proof (cases "in_words q (fst e0)")
      case True
      then obtain b where b: "b \<in> blocks q" "b div 64 = fst e0" by (rule in_words_some_block [OF q])
      have k: "b mod 64 < 64" "64 * fst e0 + b mod 64 = b" unfolding b(2) [symmetric] by simp_all
      have "bit (snd e) (b mod 64)"
        using e0(2) k b(1) unfolding upd_entry_def by (simp add: blocks_def)
      then show ?thesis by auto
    next
      case False
      have "e = e0" by (rule upd_entry_outside [OF e0(2) False])
      moreover have "e0 \<in> set es" by (rule populated_nonzero [OF p e0(1) False])
      ultimately show ?thesis using nz False by auto
    qed
  qed
qed

lemma sb_add_extent_no_interior:
  assumes sb: "sb_wf sb" and q: "range_wf q" and ni: "no_interior q (sb_entries sb)"
  shows "(\<exists>sb'. sb_add_extent mem sb q = Ok (sb', Inr ()) \<and> sb_wf sb' \<and> sb_blocks sb' = sb_blocks sb \<union> blocks q
       \<and> remove_rollback_reserve_capacity sb' = remove_rollback_reserve_capacity sb)
    \<or> sb_add_extent mem sb q = Ok (sb, Inl MemoryAllocationFailure) \<and> \<not> (\<forall>l m. mem l m)"
proof -
  let ?es = "sb_entries sb" and ?i = "range_begin q div 64"
  have es: "sb_sorted ?es" "\<forall>e \<in> set ?es. snd e \<noteq> 0" using sb by (simp_all add: sb_wf_def)
  obtain xs ys where s: "split_at ?i ?es xs ys" using split_atE [OF es(1)] .
  have "filter (\<lambda>e. \<not> prunable q e) ?es = ?es" using es(2) by (auto simp: filter_id_conv prunable_def)
  then have same: "sb\<lparr>sb_entries := filter (\<lambda>e. \<not> prunable q e) ?es\<rparr> = sb" by simp
  from populate_success [OF es(1) s q ni, of mem, unfolded same]
    no_overflow [OF es(1) q]
  consider (fail) "populate_missing_in_range mem sb q = Ok (sb, Inl MemoryAllocationFailure)" "\<not> (\<forall>l m. mem l m)"
    | (okay) zs where "populate_missing_in_range mem sb q = Ok (sb\<lparr>sb_entries := xs @ zs\<rparr>, Inr (length xs))"
      "populated q ?es (xs @ zs)" "split_at ?i (xs @ zs) xs zs" by (meson linorder_not_less)
  then show ?thesis
  proof cases
    case fail
    then show ?thesis by (simp add: sb_add_extent_def)
  next
    case okay
    have sorted: "sb_sorted (xs @ zs)" using okay(2) unfolding populated_def by blast
    obtain zs' where set: "set_in_range (xs @ zs) q (Some (length xs)) True = Ok (length xs, xs @ zs')"
      and upd: "list_all2 (upd_entry (range_begin q) (range_end q) True) (xs @ zs) (xs @ zs')"
      using set_in_range_split [OF sorted okay(3) q, of "Some (length xs)" True] by blast
    have nz: "\<forall>e \<in> set ?es. snd e \<noteq> 0 \<or> in_words q (fst e)" using es(2) by blast
    note fin = set_populated [OF okay(2) q upd nz]
    have "sb_add_extent mem sb q = Ok (sb\<lparr>sb_entries := xs @ zs'\<rparr>, Inr ())"
      using okay(1) set by (simp add: sb_add_extent_def)
    moreover have ent: "sb_entries (sb\<lparr>sb_entries := xs @ zs'\<rparr>) = xs @ zs'" by simp
    have "sb_wf (sb\<lparr>sb_entries := xs @ zs'\<rparr>)" unfolding sb_wf_def ent using fin(1,2) by blast
    moreover have "sb_blocks (sb\<lparr>sb_entries := xs @ zs'\<rparr>) = sb_blocks sb \<union> blocks q"
      unfolding sb_blocks_def ent by (rule fin(3))
    ultimately show ?thesis by simp
  qed
qed

theorem sb_add_extent_spec:
  assumes "sb_wf sb" "range_wf q" "sb_blocks sb \<inter> blocks q = {}"
  shows "(\<exists>sb'. sb_add_extent mem sb q = Ok (sb', Inr ()) \<and> sb_wf sb' \<and> sb_blocks sb' = sb_blocks sb \<union> blocks q
       \<and> remove_rollback_reserve_capacity sb' = remove_rollback_reserve_capacity sb)
    \<or> sb_add_extent mem sb q = Ok (sb, Inl MemoryAllocationFailure) \<and> \<not> (\<forall>l m. mem l m)"
  by (rule sb_add_extent_no_interior [OF assms(1,2) sb_no_interior [OF assms(1,3)]])

end
