(* ===== verification/Alloc_Bitmap.thy ===== *)
theory Alloc_Bitmap
  imports Sparse_Bitmap
begin

text \<open>
  The in-memory allocation bitmap \<open>AllocBitmap\<close> of
  \<open>src/storage/src/fs/cocoonfs/alloc_bitmap/bitmap.rs\<close>: a vector of words of 64 bits, one
  bit per allocation block. The conversions of 64 bit values to \<open>usize\<close> succeed, as on a
  64 bit platform.
\<close>

record alloc_bitmap =
  bitmap :: "bitmap_word list"

section \<open>Operations\<close>

definition bitmap_words_for :: "nat \<Rightarrow> nat" where
  "bitmap_words_for image_allocation_blocks = drop_bit 6 (image_allocation_blocks - 1) + 1"

definition alloc_bitmap_new :: "bool \<Rightarrow> nat \<Rightarrow> alloc_bitmap outcome" where
  "alloc_bitmap_new mem image_allocation_blocks =
     (if image_allocation_blocks = 0 then Ok \<lparr>bitmap = []\<rparr>
      else if \<not> mem then Err MemoryAllocationFailure
      else Ok \<lparr>bitmap = replicate (bitmap_words_for image_allocation_blocks) 0\<rparr>)"

definition alloc_bitmap_resize :: "bool \<Rightarrow> alloc_bitmap \<Rightarrow> nat \<Rightarrow> alloc_bitmap outcome" where
  "alloc_bitmap_resize mem ab image_allocation_blocks =
     (if image_allocation_blocks = 0 then Ok (ab\<lparr>bitmap := []\<rparr>)
      else
        let bitmap_words = bitmap_words_for image_allocation_blocks in
        if bitmap_words < length (bitmap ab) then
          let words = take bitmap_words (bitmap ab);
              bits_in_last_bitmap_word =
                64 - unat ((- of_nat image_allocation_blocks :: u64) AND trailing_bits_mask 6)
          in and_then (vec_get words (bitmap_words - 1)) (\<lambda>w.
             and_then (vec_set words (bitmap_words - 1) (w AND trailing_bits_mask bits_in_last_bitmap_word)) (\<lambda>words.
             Ok (ab\<lparr>bitmap := words\<rparr>)))
        else if \<not> mem then Err MemoryAllocationFailure
        else Ok (ab\<lparr>bitmap := bitmap ab @ replicate (bitmap_words - length (bitmap ab)) 0\<rparr>))"

definition apply_word :: "bool \<Rightarrow> bitmap_word \<Rightarrow> bitmap_word \<Rightarrow> bitmap_word" where
  "apply_word is_free w pending_word = (if is_free then w AND NOT pending_word else w OR pending_word)"

text \<open>The iterator over the pending entries yields the first block of an entry's word.\<close>

fun apply_loop :: "bool \<Rightarrow> bitmap_word list \<Rightarrow> sparse_entry list \<Rightarrow> bitmap_word list outcome" where
  "apply_loop is_free words [] = Ok words"
| "apply_loop is_free words (e # es) =
     (let allocation_blocks_begin = push_bit 6 (fst e) mod u64_bound;
          bitmap_word_index = drop_bit 6 allocation_blocks_begin
      in and_then (vec_get words bitmap_word_index) (\<lambda>w.
         and_then (vec_set words bitmap_word_index (apply_word is_free w (snd e))) (\<lambda>words.
         apply_loop is_free words es)))"

definition apply_pending :: "alloc_bitmap \<Rightarrow> sparse_alloc_bitmap \<Rightarrow> bool \<Rightarrow> alloc_bitmap outcome" where
  "apply_pending ab pending is_free =
     and_then (apply_loop is_free (bitmap ab) (sb_entries pending)) (\<lambda>words. Ok (ab\<lparr>bitmap := words\<rparr>))"

fun dense_set_loop :: "bool \<Rightarrow> nat \<Rightarrow> nat \<Rightarrow> bitmap_word list \<Rightarrow> bitmap_word list" where
  "dense_set_loop v offset_in_bitmap_word count [] = []"
| "dense_set_loop v offset_in_bitmap_word count (w # ws) =
     (let bits_in_word = min count (64 - offset_in_bitmap_word)
      in set_bits_in_word v offset_in_bitmap_word bits_in_word w # dense_set_loop v 0 (count - bits_in_word) ws)"

definition dense_set_words :: "bool \<Rightarrow> nat \<Rightarrow> nat \<Rightarrow> nat \<Rightarrow> nat \<Rightarrow> bitmap_word list \<Rightarrow> bitmap_word list" where
  "dense_set_words v begin_word end_word offset_in_bitmap_word count ws =
     take begin_word ws
     @ dense_set_loop v offset_in_bitmap_word count (take (end_word - begin_word) (drop begin_word ws))
     @ drop (max begin_word end_word) ws"

definition alloc_bitmap_set_in_range :: "alloc_bitmap \<Rightarrow> block_range \<Rightarrow> bool \<Rightarrow> alloc_bitmap outcome" where
  "alloc_bitmap_set_in_range ab q value =
     and_then (block_count q) (\<lambda>count.
     let bitmap_word_index_begin = drop_bit 6 (range_begin q);
         offset_in_bitmap_word = range_begin q mod 64
     in and_then (sub_u64 (range_end q) 1) (\<lambda>last_block.
        let bitmap_word_index_end = drop_bit 6 last_block + 1 in
        if bitmap_word_index_end > length (bitmap ab) then
          if value then Err (IoError RegionOutOfRange)
          else if bitmap_word_index_begin \<ge> length (bitmap ab) then Ok ab
          else Ok (ab\<lparr>bitmap := dense_set_words value bitmap_word_index_begin (length (bitmap ab))
                 offset_in_bitmap_word count (bitmap ab)\<rparr>)
        else Ok (ab\<lparr>bitmap := dense_set_words value bitmap_word_index_begin bitmap_word_index_end
               offset_in_bitmap_word count (bitmap ab)\<rparr>)))"

section \<open>Abstraction\<close>

definition dense_bits :: "bitmap_word list \<Rightarrow> nat set" where
  "dense_bits ws = {b. b div 64 < length ws \<and> bit (ws ! (b div 64)) (b mod 64)}"

definition ab_blocks :: "alloc_bitmap \<Rightarrow> nat set" where
  "ab_blocks ab = dense_bits (bitmap ab)"

lemma dense_bits_replicate [simp]: "dense_bits (replicate n 0) = {}"
  by (auto simp: dense_bits_def)

lemma dense_bits_nth: "j < length ws \<Longrightarrow> k < 64 \<Longrightarrow> 64 * j + k \<in> dense_bits ws \<longleftrightarrow> bit (ws ! j) k"
  by (simp add: dense_bits_def)

lemma dense_bits_bound: "b \<in> dense_bits ws \<Longrightarrow> b < 64 * length ws"
  by (simp add: dense_bits_def less_mult_imp_div_less mult.commute) (metis div_less_iff_less_mult mult.commute zero_less_numeral)

text \<open>A vector of words is determined by its length and its set of bits.\<close>

lemma dense_bits_eqI:
  assumes "\<And>j k. j < length ws \<Longrightarrow> k < 64 \<Longrightarrow> bit (ws ! j) k \<longleftrightarrow> 64 * j + k \<in> B" "\<And>b. b \<in> B \<Longrightarrow> b div 64 < length ws"
  shows "dense_bits ws = B"
proof (rule set_eqI)
  fix b :: nat
  have b: "64 * (b div 64) + b mod 64 = b" "b mod 64 < 64" by simp_all
  show "b \<in> dense_bits ws \<longleftrightarrow> b \<in> B"
    using assms(1) [of "b div 64" "b mod 64"] assms(2) [of b] b unfolding dense_bits_def by auto
qed

section \<open>Setting the bits of a range\<close>

lemma dense_set_loop_length [simp]: "length (dense_set_loop v off c ws) = length ws"
  by (induction v off c ws rule: dense_set_loop.induct) (simp_all add: Let_def)

lemma dense_set_loop_bit:
  assumes "off < 64" "j < length ws" "k < 64"
  shows "bit (dense_set_loop v off c ws ! j) k = (if off \<le> 64 * j + k \<and> 64 * j + k < off + c then v else bit (ws ! j) k)"
  using assms
proof (induction ws arbitrary: off c j)
  case (Cons w ws)
  show ?case
  proof (cases j)
    case 0
    have "off + min c (64 - off) \<le> 64" using Cons.prems(1) by simp
    from bit_set_bits_in_word [OF this Cons.prems(3), of v w] show ?thesis
      using 0 Cons.prems(3) by (auto simp: Let_def)
  next
    case (Suc i)
    have "64 * i + k < c - min c (64 - off) \<longleftrightarrow> 64 * Suc i + k < off + c" using Cons.prems(1) by auto
    moreover have "off \<le> 64 * Suc i + k" using Cons.prems(1) by simp
    ultimately show ?thesis using Suc Cons.IH [of 0 i "c - min c (64 - off)"] Cons.prems(2,3) by (simp add: Let_def)
  qed
qed simp

lemma dense_set_words_bits:
  assumes q: "range_wf q" and e: "range_begin q div 64 \<le> e" "e \<le> length ws"
    and cover: "\<And>b. b \<in> blocks q \<Longrightarrow> b div 64 < length ws \<Longrightarrow> b div 64 < e"
  shows "dense_bits (dense_set_words v (range_begin q div 64) e (range_begin q mod 64) (range_end q - range_begin q) ws)
     = (if v then dense_bits ws \<union> {b \<in> blocks q. b div 64 < length ws} else dense_bits ws - blocks q)"
    (is "dense_bits ?ws' = ?B")
proof (rule dense_bits_eqI)
  let ?b = "range_begin q" and ?o = "range_begin q mod 64" and ?c = "range_end q - range_begin q"
  have len: "length ?ws' = length ws" using e by (simp add: dense_set_words_def)
  show "b div 64 < length ?ws'" if "b \<in> ?B" for b using that by (auto simp: len dense_bits_def split: if_splits)
  fix j k :: nat assume j: "j < length ?ws'" and k: "k < 64"
  have old: "64 * j + k \<in> dense_bits ws \<longleftrightarrow> bit (ws ! j) k" using j len k by (intro dense_bits_nth) simp_all
  have dv: "(64 * j + k) div 64 = j" using k by simp
  have be: "?b = 64 * (?b div 64) + ?o" "range_end q = ?b + ?c" using q by (simp_all add: range_wf_def)
  have "bit (?ws' ! j) k = (if 64 * j + k \<in> blocks q then v else bit (ws ! j) k)"
  proof (cases "?b div 64 \<le> j \<and> j < e")
    case True
    define i where "i = j - ?b div 64"
    have i: "j = ?b div 64 + i" "i < e - ?b div 64" using True unfolding i_def by linarith+
    have nth: "?ws' ! j = dense_set_loop v ?o ?c (take (e - ?b div 64) (drop (?b div 64) ws)) ! i"
      using True e i by (simp add: dense_set_words_def nth_append)
    have "bit (?ws' ! j) k = (if ?o \<le> 64 * i + k \<and> 64 * i + k < ?o + ?c then v else bit (ws ! j) k)"
      unfolding nth using i e k by (subst dense_set_loop_bit) simp_all
    moreover have "64 * j + k = 64 * (?b div 64) + (64 * i + k)" using i(1) by simp
    then have "?o \<le> 64 * i + k \<and> 64 * i + k < ?o + ?c \<longleftrightarrow> 64 * j + k \<in> blocks q"
      unfolding blocks_def atLeastLessThan_iff using be by linarith
    ultimately show ?thesis by simp
  next
    case False
    have "64 * j + k \<notin> blocks q"
    proof
      assume in_q: "64 * j + k \<in> blocks q"
      then have "j < e" using cover [OF in_q] j len dv by simp
      moreover have "?b div 64 \<le> (64 * j + k) div 64" using in_q by (intro div_le_mono) (simp add: blocks_def)
      ultimately show False using False dv by simp
    qed
    moreover have "?ws' ! j = ws ! j"
      using False e j len by (auto simp: dense_set_words_def nth_append)
    ultimately show ?thesis by simp
  qed
  then show "bit (?ws' ! j) k \<longleftrightarrow> 64 * j + k \<in> ?B" using old dv j len by auto
qed


lemma set_in_range_spec:
  assumes q: "range_wf q"
  shows "alloc_bitmap_set_in_range ab q True =
      (if range_end q \<le> 64 * length (bitmap ab)
       then Ok (ab\<lparr>bitmap := dense_set_words True (range_begin q div 64) ((range_end q - 1) div 64 + 1)
              (range_begin q mod 64) (range_end q - range_begin q) (bitmap ab)\<rparr>)
       else Err (IoError RegionOutOfRange))"
    "\<exists>ab'. alloc_bitmap_set_in_range ab q False = Ok ab' \<and> ab_blocks ab' = ab_blocks ab - blocks q
       \<and> length (bitmap ab') = length (bitmap ab)"
    "range_end q \<le> 64 * length (bitmap ab) \<Longrightarrow>
     dense_bits (dense_set_words True (range_begin q div 64) ((range_end q - 1) div 64 + 1)
              (range_begin q mod 64) (range_end q - range_begin q) (bitmap ab)) = ab_blocks ab \<union> blocks q"
proof -
  let ?b = "range_begin q" and ?e = "range_end q" and ?ws = "bitmap ab"
  define w where "w = (?e - 1) div 64 + 1"
  have be: "?b < ?e" "?e < u64_bound" using q by (simp_all add: range_wf_def)
  have lt: "n < w \<longleftrightarrow> 64 * n < ?e" for n unfolding w_def using be(1) by linarith
  have fits: "w \<le> length ?ws \<longleftrightarrow> ?e \<le> 64 * length ?ws" using lt [of "length ?ws"] by linarith
  have bw: "?b div 64 \<le> w" unfolding w_def using be(1) div_le_mono [of ?b "?e - 1" 64] by linarith
  have sub: "sub_u64 ?e 1 = Ok (?e - 1)" using be(1) by simp
  show "alloc_bitmap_set_in_range ab q True =
      (if ?e \<le> 64 * length ?ws then Ok (ab\<lparr>bitmap := dense_set_words True (?b div 64) ((?e - 1) div 64 + 1)
              (?b mod 64) (?e - ?b) ?ws\<rparr>) else Err (IoError RegionOutOfRange))"
    unfolding alloc_bitmap_set_in_range_def block_count_wf [OF q] and_then_simps Let_def drop_bit_6 sub w_def [symmetric]
      fits [symmetric] by auto
  have cover: "b div 64 < w" if "b \<in> blocks q" for b
  proof -
    have "64 * (b div 64) \<le> b" by simp
    then show ?thesis unfolding lt using that by (auto simp: blocks_def intro: le_less_trans)
  qed
  show "dense_bits (dense_set_words True (?b div 64) ((?e - 1) div 64 + 1) (?b mod 64) (?e - ?b) ?ws) = ab_blocks ab \<union> blocks q"
    if le: "?e \<le> 64 * length ?ws"
  proof -
    have w: "w \<le> length ?ws" using le fits by simp
    have "{b \<in> blocks q. b div 64 < length ?ws} = blocks q" using cover w by fastforce
    then show ?thesis using dense_set_words_bits [OF q bw w cover, of True] unfolding w_def [symmetric] ab_blocks_def by simp
  qed
  have frees: "dense_bits (dense_set_words False (?b div 64) e (?b mod 64) (?e - ?b) ?ws) = ab_blocks ab - blocks q"
    "length (dense_set_words False (?b div 64) e (?b mod 64) (?e - ?b) ?ws) = length ?ws"
    if "?b div 64 \<le> e" "e \<le> length ?ws" "e = w \<or> e = length ?ws" for e
  proof -
    have "b div 64 < e" if "b \<in> blocks q" "b div 64 < length ?ws" for b
      using cover [OF that(1)] that(2) \<open>e = w \<or> e = length ?ws\<close> by auto
    from dense_set_words_bits [OF q that(1,2) this, of False]
    show "dense_bits (dense_set_words False (?b div 64) e (?b mod 64) (?e - ?b) ?ws) = ab_blocks ab - blocks q"
      by (simp add: ab_blocks_def)
    show "length (dense_set_words False (?b div 64) e (?b mod 64) (?e - ?b) ?ws) = length ?ws"
      using that by (simp add: dense_set_words_def)
  qed
  have run: "alloc_bitmap_set_in_range ab q False =
      (if w > length ?ws then if ?b div 64 \<ge> length ?ws then Ok ab
         else Ok (ab\<lparr>bitmap := dense_set_words False (?b div 64) (length ?ws) (?b mod 64) (?e - ?b) ?ws\<rparr>)
       else Ok (ab\<lparr>bitmap := dense_set_words False (?b div 64) w (?b mod 64) (?e - ?b) ?ws\<rparr>))"
    unfolding alloc_bitmap_set_in_range_def block_count_wf [OF q] and_then_simps Let_def drop_bit_6 sub w_def [symmetric] by simp
  show "\<exists>ab'. alloc_bitmap_set_in_range ab q False = Ok ab' \<and> ab_blocks ab' = ab_blocks ab - blocks q
       \<and> length (bitmap ab') = length ?ws"
  proof (cases "w > length ?ws \<and> ?b div 64 \<ge> length ?ws")
    case True
    have "ab_blocks ab - blocks q = ab_blocks ab"
    proof -
      have "b \<notin> blocks q" if "b \<in> ab_blocks ab" for b
      proof -
        have "b div 64 < ?b div 64" using that True by (simp add: ab_blocks_def dense_bits_def)
        then have "b < ?b" using div_le_mono [of ?b b 64] by (simp add: not_le [symmetric])
        then show ?thesis by (simp add: blocks_def)
      qed
      then show ?thesis by blast
    qed
    then show ?thesis using True run by auto
  next
    case False
    then show ?thesis using run frees [of "length ?ws"] frees [of w] bw by (auto simp: ab_blocks_def)
  qed
qed

section \<open>Applying pending changes\<close>

lemma word_index_roundtrip: "i < 2 ^ 58 \<Longrightarrow> drop_bit 6 (push_bit 6 i mod u64_bound) = (i :: nat)"
  by (simp add: push_bit_eq_mult drop_bit_eq_div)

lemma apply_word_bits:
  assumes "i < length ws"
  shows "dense_bits (ws[i := apply_word f (ws ! i) w])
     = (if f then dense_bits ws - entry_bits [(i, w)] else dense_bits ws \<union> entry_bits [(i, w)])"
proof (rule dense_bits_eqI)
  fix j k :: nat assume j: "j < length (ws[i := apply_word f (ws ! i) w])" and k: "k < 64"
  have "(64 * j + k) div 64 = j" "(64 * j + k) mod 64 = k" using k by simp_all
  then have "64 * j + k \<in> entry_bits [(i, w)] \<longleftrightarrow> j = i \<and> bit w k" by (auto simp: entry_bits_def)
  moreover have "64 * j + k \<in> dense_bits ws \<longleftrightarrow> bit (ws ! j) k" using j k by (intro dense_bits_nth) simp_all
  ultimately show "bit (ws[i := apply_word f (ws ! i) w] ! j) k \<longleftrightarrow>
      64 * j + k \<in> (if f then dense_bits ws - entry_bits [(i, w)] else dense_bits ws \<union> entry_bits [(i, w)])"
    using assms j k by (auto simp: apply_word_def nth_list_update bit_simps)
qed (use assms in \<open>auto simp: dense_bits_def entry_bits_def split: if_splits\<close>)

lemma entry_bits_Cons_Un: "entry_bits (e # es) = entry_bits [e] \<union> entry_bits es"
  using entry_bits_simps(2) [of "[e]" es] by simp

lemma apply_loop_spec:
  assumes "\<forall>e \<in> set es. fst e < 2 ^ 58" "\<forall>e \<in> set es. fst e < length ws"
  shows "\<exists>ws'. apply_loop f ws es = Ok ws' \<and> length ws' = length ws
    \<and> dense_bits ws' = (if f then dense_bits ws - entry_bits es else dense_bits ws \<union> entry_bits es)"
  using assms
proof (induction es arbitrary: ws)
  case (Cons e es)
  let ?ws = "ws[fst e := apply_word f (ws ! fst e) (snd e)]"
  have e: "fst e < length ws" using Cons.prems by simp
  have ix: "drop_bit 6 (push_bit 6 (fst e) mod u64_bound) = fst e"
    using Cons.prems(1) by (intro word_index_roundtrip) simp
  from Cons.IH [of ?ws] Cons.prems obtain ws' where ws': "apply_loop f ?ws es = Ok ws'" "length ws' = length ws"
    "dense_bits ws' = (if f then dense_bits ?ws - entry_bits es else dense_bits ?ws \<union> entry_bits es)" by auto
  have "apply_loop f ws (e # es) = Ok ws'" unfolding apply_loop.simps Let_def ix using e ws'(1) by simp
  moreover have "dense_bits ws' = (if f then dense_bits ws - entry_bits (e # es) else dense_bits ws \<union> entry_bits (e # es))"
    unfolding ws'(3) apply_word_bits [OF e] prod.collapse entry_bits_Cons_Un [of e es] by auto
  ultimately show ?case using ws'(2) by blast
qed simp

lemma apply_loop_out_of_range:
  assumes "\<forall>e \<in> set es. fst e < 2 ^ 58" "\<exists>e \<in> set es. fst e \<ge> length ws"
  shows "apply_loop f ws es = Panic"
  using assms
proof (induction es arbitrary: ws)
  case (Cons e es)
  have e: "drop_bit 6 (push_bit 6 (fst e) mod u64_bound) = fst e"
    using Cons.prems(1) by (intro word_index_roundtrip) simp
  show ?case
  proof (cases "fst e < length ws")
    case True
    then show ?thesis using Cons.IH [of "ws[fst e := apply_word f (ws ! fst e) (snd e)]"] Cons.prems
      unfolding apply_loop.simps Let_def e by auto
  next
    case False
    then show ?thesis unfolding apply_loop.simps Let_def e by (simp add: vec_get_def)
  qed
qed simp

section \<open>Creation and resizing\<close>

lemma bitmap_words_for_eq: "0 < n \<Longrightarrow> bitmap_words_for n = (n + 63) div 64"
  unfolding bitmap_words_for_def drop_bit_6 by linarith

lemma bits_in_last_word:
  assumes "0 < n"
  shows "64 * (bitmap_words_for n - 1) + (64 - unat ((- of_nat n :: u64) AND trailing_bits_mask 6)) = n"
proof -
  have "(- of_nat n :: u64) = of_int (- int n)" by simp
  then have "uint (take_bit 6 (- of_nat n :: u64)) = take_bit 6 (- int n)"
    by (simp only: unsigned_take_bit_eq uint_word_of_int_eq take_bit_take_bit) simp
  then have "int (unat ((- of_nat n :: u64) AND trailing_bits_mask 6)) = (- int n) mod 64"
    by (simp add: trailing_bits_mask_eq_mask take_bit_eq_mask [symmetric] take_bit_eq_mod)
  moreover have "int (bitmap_words_for n - 1) = (int n - 1) div 64"
    using assms by (simp add: bitmap_words_for_def drop_bit_6 zdiv_int of_nat_diff)
  moreover define q r where "q = (int n - 1) div 64" and "r = (int n - 1) mod 64"
  have r: "0 \<le> r" "r < 64" "int n = 64 * q + r + 1" using mult_div_mod_eq [of 64 "int n - 1"] by (simp_all add: q_def r_def)
  have "- int n = (63 - r) + 64 * (- (q + 1))" using r(3) by simp
  then have "(- int n) mod 64 = (63 - r) mod 64" by (simp only: mod_mult_self2)
  then have "(- int n) mod 64 = 63 - r" using r(1,2) by (simp add: mod_pos_pos_trivial)
  ultimately have "int (unat ((- of_nat n :: u64) AND trailing_bits_mask 6)) = 63 - r" "int (bitmap_words_for n - 1) = q"
    by (simp_all add: q_def)
  then show ?thesis using r by linarith
qed

text \<open>A bitmap that shrinks by at least a word loses the blocks beyond its new end.\<close>

lemma alloc_bitmap_shrink:
  assumes n: "0 < n" and lt: "bitmap_words_for n < length (bitmap ab)"
  shows "\<exists>ab'. alloc_bitmap_resize mem ab n = Ok ab' \<and> length (bitmap ab') = bitmap_words_for n \<and> ab_blocks ab' = ab_blocks ab \<inter> {..<n}"
proof -
  define m l where "m = bitmap_words_for n" and "l = 64 - unat ((- of_nat n :: u64) AND trailing_bits_mask 6)"
  let ?ws = "take m (bitmap ab)"
  let ?ws' = "?ws[m - 1 := ?ws ! (m - 1) AND trailing_bits_mask l]"
  have m: "0 < m" "length ?ws = m" using lt by (simp_all add: m_def bitmap_words_for_def)
  have l: "64 * (m - 1) + l = n" "l \<le> 64" using bits_in_last_word [OF n] by (simp_all add: m_def l_def)
  have get: "vec_get ?ws (m - 1) = Ok (?ws ! (m - 1))" and set: "vec_set ?ws (m - 1) x = Ok (?ws[m - 1 := x])" for x
    using m by simp_all
  have "alloc_bitmap_resize mem ab n = Ok (ab\<lparr>bitmap := ?ws'\<rparr>)"
    using n lt unfolding alloc_bitmap_resize_def Let_def m_def [symmetric] l_def [symmetric] get set and_then_simps by simp
  moreover have "dense_bits ?ws' = ab_blocks ab \<inter> {..<n}"
  proof (rule dense_bits_eqI)
    fix j k :: nat assume j: "j < length ?ws'" and k: "k < 64"
    have "64 * j + k \<in> dense_bits (bitmap ab) \<longleftrightarrow> bit (bitmap ab ! j) k"
      using j k lt by (intro dense_bits_nth) simp_all
    moreover have "64 * j + k < n" if "j \<noteq> m - 1" using that j k m l(1) by auto
    moreover have "64 * (m - 1) + k < n \<longleftrightarrow> k < l" using l(1) by linarith
    moreover have "bit (trailing_bits_mask l :: u64) k \<longleftrightarrow> k < l" using l(2) k by (simp add: trailing_bits_mask_eq_mask bit_simps)
    ultimately show "bit (?ws' ! j) k \<longleftrightarrow> 64 * j + k \<in> ab_blocks ab \<inter> {..<n}"
      using j k m by (cases "j = m - 1") (auto simp: ab_blocks_def nth_list_update bit_simps)
  next
    fix b assume b: "b \<in> ab_blocks ab \<inter> {..<n}"
    have "b < 64 * m" using b l m by (auto simp: algebra_simps)
    then show "b div 64 < length ?ws'" using m by (simp add: less_mult_imp_div_less mult.commute)
  qed
  ultimately show ?thesis using m by (simp add: ab_blocks_def m_def)
qed

lemma alloc_bitmap_grow:
  assumes "0 < n" "length (bitmap ab) \<le> bitmap_words_for n"
  shows "alloc_bitmap_resize mem ab n = (if mem then Ok (ab\<lparr>bitmap := bitmap ab @ replicate (bitmap_words_for n - length (bitmap ab)) 0\<rparr>)
      else Err MemoryAllocationFailure)"
    "dense_bits (bitmap ab @ replicate k 0) = ab_blocks ab"
proof -
  show "alloc_bitmap_resize mem ab n = (if mem then Ok (ab\<lparr>bitmap := bitmap ab @ replicate (bitmap_words_for n - length (bitmap ab)) 0\<rparr>)
      else Err MemoryAllocationFailure)" using assms by (simp add: alloc_bitmap_resize_def Let_def)
  show "dense_bits (bitmap ab @ replicate k 0) = ab_blocks ab"
  proof (rule dense_bits_eqI)
    fix j i :: nat assume "j < length (bitmap ab @ replicate k 0)" "i < 64"
    then show "bit ((bitmap ab @ replicate k 0) ! j) i \<longleftrightarrow> 64 * j + i \<in> ab_blocks ab"
      by (cases "j < length (bitmap ab)") (simp_all add: ab_blocks_def dense_bits_def nth_append)
  qed (simp add: ab_blocks_def dense_bits_def)
qed

section \<open>Properties\<close>

lemma entries_in_range:
  assumes "sb_wf sb"
  shows "(\<forall>e \<in> set (sb_entries sb). fst e < n) \<longleftrightarrow> sb_blocks sb \<subseteq> {..<64 * n}"
proof
  assume a: "\<forall>e \<in> set (sb_entries sb). fst e < n"
  show "sb_blocks sb \<subseteq> {..<64 * n}"
  proof
    fix b assume "b \<in> sb_blocks sb"
    then have "b div 64 < n" using a by (auto simp: sb_blocks_def entry_bits_def)
    then show "b \<in> {..<64 * n}" using div_less_iff_less_mult [of 64 b n] by (simp add: mult.commute)
  qed
next
  assume a: "sb_blocks sb \<subseteq> {..<64 * n}"
  show "\<forall>e \<in> set (sb_entries sb). fst e < n"
  proof
    fix e assume e: "e \<in> set (sb_entries sb)"
    then have "snd e \<noteq> 0" using assms by (simp add: sb_wf_def)
    with e obtain b where b: "b \<in> entry_bits (sb_entries sb)" "b div 64 = fst e" by (rule entry_has_block)
    then have "b < 64 * n" using a by (auto simp: sb_blocks_def)
    then show "fst e < n" using b(2) div_less_iff_less_mult [of 64 b n] by (simp add: mult.commute)
  qed
qed

text \<open>
  C23: applying pending allocations adds the pending blocks to the allocated ones, applying pending
  deallocations removes them, provided the pending blocks are within the bitmap; with a pending
  block outside of the bitmap the access to the vector panics.
\<close>

theorem apply_pending_correct:
  assumes "sb_wf pending"
  shows "if sb_blocks pending \<subseteq> {..<64 * length (bitmap ab)}
    then \<exists>ab'. apply_pending ab pending is_free = Ok ab' \<and> length (bitmap ab') = length (bitmap ab)
      \<and> ab_blocks ab' = (if is_free then ab_blocks ab - sb_blocks pending else ab_blocks ab \<union> sb_blocks pending)
    else apply_pending ab pending is_free = Panic"
proof -
  let ?es = "sb_entries pending"
  have b: "\<forall>e \<in> set ?es. fst e < 2 ^ 58" using assms by (simp add: sb_wf_def sb_sorted_def)
  show ?thesis
  proof (cases "sb_blocks pending \<subseteq> {..<64 * length (bitmap ab)}")
    case True
    then have "\<forall>e \<in> set ?es. fst e < length (bitmap ab)" using entries_in_range [OF assms] by blast
    from apply_loop_spec [OF b this, of is_free] obtain ws where "apply_loop is_free (bitmap ab) ?es = Ok ws"
      "length ws = length (bitmap ab)"
      "dense_bits ws = (if is_free then dense_bits (bitmap ab) - entry_bits ?es else dense_bits (bitmap ab) \<union> entry_bits ?es)" by blast
    then have "apply_pending ab pending is_free = Ok (ab\<lparr>bitmap := ws\<rparr>)" "length (bitmap (ab\<lparr>bitmap := ws\<rparr>)) = length (bitmap ab)"
      "ab_blocks (ab\<lparr>bitmap := ws\<rparr>) = (if is_free then ab_blocks ab - sb_blocks pending else ab_blocks ab \<union> sb_blocks pending)"
      by (simp_all add: apply_pending_def ab_blocks_def sb_blocks_def)
    with True show ?thesis by auto
  next
    case False
    then have "\<exists>e \<in> set ?es. fst e \<ge> length (bitmap ab)" using entries_in_range [OF assms] by (meson linorder_not_le)
    from apply_loop_out_of_range [OF b this, of is_free] False show ?thesis by (simp add: apply_pending_def)
  qed
qed

lemma two_entries_wf: "sb_wf \<lparr>sb_entries = [(0, 5), (2, 1)], remove_rollback_reserve_capacity = 0\<rparr>"
  by (simp add: sb_wf_def)

lemma two_entries_blocks:
  "sb_blocks \<lparr>sb_entries = [(0, 5), (2, 1)], remove_rollback_reserve_capacity = 0\<rparr> \<subseteq> {..<64 * 3}"
  using entries_in_range [OF two_entries_wf, of 3] by simp

theorem apply_pending_correct_witness:
  "\<exists>ab'. apply_pending \<lparr>bitmap = [7, 0, 3]\<rparr> \<lparr>sb_entries = [(0, 5), (2, 1)], remove_rollback_reserve_capacity = 0\<rparr> True = Ok ab'
    \<and> length (bitmap ab') = 3
    \<and> ab_blocks ab' = ab_blocks \<lparr>bitmap = [7, 0, 3]\<rparr> - sb_blocks \<lparr>sb_entries = [(0, 5), (2, 1)], remove_rollback_reserve_capacity = 0\<rparr>"
  using apply_pending_correct [OF two_entries_wf, of "\<lparr>bitmap = [7, 0, 3]\<rparr>" True] two_entries_blocks by (simp add: numeral_3_eq_3)

text \<open>
  setting the bits of a range allocates exactly its blocks and is refused when the range exceeds
  the bitmap; clearing the bits of a range never fails, also beyond the end, and frees exactly its
  blocks.
\<close>

theorem alloc_bitmap_set_in_range_correct:
  assumes "range_wf q"
  shows "(if range_end q \<le> 64 * length (bitmap ab)
      then \<exists>ab'. alloc_bitmap_set_in_range ab q True = Ok ab' \<and> ab_blocks ab' = ab_blocks ab \<union> blocks q
      else alloc_bitmap_set_in_range ab q True = Err (IoError RegionOutOfRange))
    \<and> (\<exists>ab'. alloc_bitmap_set_in_range ab q False = Ok ab' \<and> ab_blocks ab' = ab_blocks ab - blocks q)"
proof (rule conjI)
  show "if range_end q \<le> 64 * length (bitmap ab)
      then \<exists>ab'. alloc_bitmap_set_in_range ab q True = Ok ab' \<and> ab_blocks ab' = ab_blocks ab \<union> blocks q
      else alloc_bitmap_set_in_range ab q True = Err (IoError RegionOutOfRange)"
  proof (cases "range_end q \<le> 64 * length (bitmap ab)")
    case True
    then show ?thesis using set_in_range_spec(1) [OF assms, of ab] set_in_range_spec(3) [OF assms True]
      by (auto simp: ab_blocks_def [of "ab\<lparr>bitmap := _\<rparr>"])
  next
    case False
    then show ?thesis using set_in_range_spec(1) [OF assms, of ab] by simp
  qed
  show "\<exists>ab'. alloc_bitmap_set_in_range ab q False = Ok ab' \<and> ab_blocks ab' = ab_blocks ab - blocks q"
    using set_in_range_spec(2) [OF assms, of ab] by blast
qed

theorem alloc_bitmap_set_in_range_correct_witness:
  "(\<exists>ab'. alloc_bitmap_set_in_range \<lparr>bitmap = [0, 0]\<rparr> (mk_range 60 70) True = Ok ab' \<and> ab_blocks ab' = ab_blocks \<lparr>bitmap = [0, 0]\<rparr> \<union> {60..<70})
   \<and> (\<exists>ab'. alloc_bitmap_set_in_range \<lparr>bitmap = [0, 0]\<rparr> (mk_range 60 70) False = Ok ab' \<and> ab_blocks ab' = ab_blocks \<lparr>bitmap = [0, 0]\<rparr> - {60..<70})"
proof -
  have "range_wf (mk_range 60 70)" "blocks (mk_range 60 70) = {60..<70}" by (simp_all add: range_wf_def blocks_def)
  with alloc_bitmap_set_in_range_correct [of "mk_range 60 70" "\<lparr>bitmap = [0, 0]\<rparr>"] show ?thesis by simp
qed

text \<open>
  A new bitmap has no block allocated and has room for the requested number of blocks. Resizing
  to a number of blocks keeps the allocated blocks and adds none when the number of words does not
  shrink, and keeps exactly the allocated blocks below the new end when it shrinks.
\<close>

theorem alloc_bitmap_resize_correct:
  "(0 < n \<and> bitmap_words_for n < length (bitmap ab) \<longrightarrow>
      (\<exists>ab'. alloc_bitmap_resize mem ab n = Ok ab' \<and> ab_blocks ab' = ab_blocks ab \<inter> {..<n} \<and> length (bitmap ab') = (n + 63) div 64))
   \<and> (0 < n \<and> length (bitmap ab) \<le> bitmap_words_for n \<longrightarrow>
      (\<exists>ab'. alloc_bitmap_resize True ab n = Ok ab' \<and> ab_blocks ab' = ab_blocks ab \<and> length (bitmap ab') = (n + 63) div 64)
      \<and> alloc_bitmap_resize False ab n = Err MemoryAllocationFailure)
   \<and> (\<exists>ab'. alloc_bitmap_resize mem ab 0 = Ok ab' \<and> ab_blocks ab' = {})
   \<and> (\<exists>ab'. alloc_bitmap_new True n = Ok ab' \<and> ab_blocks ab' = {} \<and> length (bitmap ab') = (n + 63) div 64)"
proof (intro conjI impI)
  assume "0 < n \<and> bitmap_words_for n < length (bitmap ab)"
  then show "\<exists>ab'. alloc_bitmap_resize mem ab n = Ok ab' \<and> ab_blocks ab' = ab_blocks ab \<inter> {..<n} \<and> length (bitmap ab') = (n + 63) div 64"
    using alloc_bitmap_shrink [of n ab mem] bitmap_words_for_eq [of n] by metis
next
  assume a: "0 < n \<and> length (bitmap ab) \<le> bitmap_words_for n"
  let ?ab = "ab\<lparr>bitmap := bitmap ab @ replicate (bitmap_words_for n - length (bitmap ab)) 0\<rparr>"
  have "ab_blocks ?ab = ab_blocks ab" using a alloc_bitmap_grow(2) [of n ab "bitmap_words_for n - length (bitmap ab)"]
    by (simp add: ab_blocks_def)
  moreover have "length (bitmap ?ab) = (n + 63) div 64" using a bitmap_words_for_eq [of n] by simp
  ultimately show "\<exists>ab'. alloc_bitmap_resize True ab n = Ok ab' \<and> ab_blocks ab' = ab_blocks ab \<and> length (bitmap ab') = (n + 63) div 64"
    using a alloc_bitmap_grow(1) [of n ab True] by auto
  show "alloc_bitmap_resize False ab n = Err MemoryAllocationFailure" using a alloc_bitmap_grow(1) [of n ab False] by simp
next
  show "\<exists>ab'. alloc_bitmap_resize mem ab 0 = Ok ab' \<and> ab_blocks ab' = {}"
    by (simp add: alloc_bitmap_resize_def ab_blocks_def dense_bits_def)
  show "\<exists>ab'. alloc_bitmap_new True n = Ok ab' \<and> ab_blocks ab' = {} \<and> length (bitmap ab') = (n + 63) div 64"
    by (cases "n = 0") (simp_all add: alloc_bitmap_new_def ab_blocks_def bitmap_words_for_eq, simp add: dense_bits_def)
qed

theorem alloc_bitmap_resize_correct_witness:
  "(\<exists>ab'. alloc_bitmap_resize False \<lparr>bitmap = [7, 1]\<rparr> 2 = Ok ab' \<and> ab_blocks ab' = ab_blocks \<lparr>bitmap = [7, 1]\<rparr> \<inter> {..<2} \<and> length (bitmap ab') = 1)
   \<and> (\<exists>ab'. alloc_bitmap_resize True \<lparr>bitmap = [7]\<rparr> 100 = Ok ab' \<and> ab_blocks ab' = ab_blocks \<lparr>bitmap = [7]\<rparr> \<and> length (bitmap ab') = 2)"
proof (rule conjI)
  have "bitmap_words_for 2 = 1" "bitmap_words_for 100 = 2" by (simp_all add: bitmap_words_for_def drop_bit_6)
  then show "\<exists>ab'. alloc_bitmap_resize False \<lparr>bitmap = [7, 1]\<rparr> 2 = Ok ab' \<and> ab_blocks ab' = ab_blocks \<lparr>bitmap = [7, 1]\<rparr> \<inter> {..<2} \<and> length (bitmap ab') = 1"
    "\<exists>ab'. alloc_bitmap_resize True \<lparr>bitmap = [7]\<rparr> 100 = Ok ab' \<and> ab_blocks ab' = ab_blocks \<lparr>bitmap = [7]\<rparr> \<and> length (bitmap ab') = 2"
    using alloc_bitmap_resize_correct [of 2 "\<lparr>bitmap = [7, 1]\<rparr>" False] alloc_bitmap_resize_correct [of 100 "\<lparr>bitmap = [7]\<rparr>" True] by simp_all
qed

text \<open>
  Shrinking within the last word does not clear the bits beyond the new end: a bitmap of 8 blocks
  with all of them allocated, resized to 1 block and back, still has all of them allocated.
\<close>

lemma alloc_bitmap_resize_keeps_stale_bits:
  "and_then (alloc_bitmap_resize True \<lparr>bitmap = [0xff]\<rparr> 1) (\<lambda>ab. alloc_bitmap_resize True ab 8) = Ok \<lparr>bitmap = [0xff]\<rparr>"
  by (simp add: alloc_bitmap_resize_def bitmap_words_for_def drop_bit_6)

end
