(* ===== verification/Bitmap_Word.thy ===== *)
theory Bitmap_Word
  imports Alloc_Bitmap
begin

text \<open>
  The tricks on single words that the search for free blocks is built from: the masks of
  \<open>src/storage/src/fs/cocoonfs/alloc_bitmap/bitmap_word.rs\<close> and the functions \<open>bitmap_word_...\<close>
  of \<open>src/storage/src/fs/cocoonfs/alloc_bitmap/bitmap.rs\<close>. A word is seen as a sequence of aligned
  blocks of \<open>2 ^ k\<close> bits: the functions find its free blocks, those whose buddy is not free, the
  smallest block an allocation has to split, runs of ones, and compute with packed integers.
\<close>

section \<open>Masks\<close>

function init_masks_loop :: "nat \<Rightarrow> bitmap_word \<Rightarrow> bitmap_word list \<Rightarrow> bitmap_word list" where
  "init_masks_loop block_log2 m table =
     (if 1 < block_log2 then
        let block_log2 = block_log2 - 1;
            m = m OR push_bit (2 ^ block_log2) m
        in init_masks_loop block_log2 m (table[block_log2 - 1 := m])
      else table)"
  by pat_completeness auto
termination
  by (relation "measure fst") auto

declare init_masks_loop.simps [simp del]

definition init_word_blocks_lsbs_masks_table :: "bitmap_word list" where
  "init_word_blocks_lsbs_masks_table = init_masks_loop 6 1 (replicate 5 0)"

definition get_blocks_lsbs_mask :: "nat \<Rightarrow> bitmap_word outcome" where
  "get_blocks_lsbs_mask block_log2 =
     (if block_log2 = 0 then Ok (- 1)
      else if block_log2 = 6 then Ok 1
      else vec_get init_word_blocks_lsbs_masks_table (block_log2 - 1))"

definition is_lsbs :: "nat \<Rightarrow> bitmap_word \<Rightarrow> bool" where
  "is_lsbs k m \<longleftrightarrow> (\<forall>i. bit m i \<longleftrightarrow> i < 64 \<and> 2 ^ k dvd i)"

lemma is_lsbs_unique: "is_lsbs k m \<Longrightarrow> is_lsbs k m' \<Longrightarrow> m = m'"
  by (auto simp: is_lsbs_def bit_eq_iff)

lemma dvd_half: "(2 :: nat) ^ Suc k dvd i \<or> 2 ^ k \<le> i \<and> 2 ^ Suc k dvd i - 2 ^ k \<longleftrightarrow> 2 ^ k dvd i"
proof
  assume a: "(2 :: nat) ^ Suc k dvd i \<or> 2 ^ k \<le> i \<and> 2 ^ Suc k dvd i - 2 ^ k"
  have "(2 :: nat) ^ k dvd 2 ^ Suc k" by simp
  then show "2 ^ k dvd i" using a by (metis dvd_diffD dvd_refl dvd_trans)
next
  assume "2 ^ k dvd i"
  then obtain q where q: "i = 2 ^ k * q" by blast
  show "2 ^ Suc k dvd i \<or> 2 ^ k \<le> i \<and> 2 ^ Suc k dvd i - 2 ^ k"
  proof (cases "even q")
    case True
    then show ?thesis by (auto simp: q)
  next
    case False
    then obtain r where "q = 2 * r + 1" by (rule oddE)
    then have "i = 2 ^ k + 2 ^ Suc k * r" by (simp add: q algebra_simps)
    then show ?thesis by simp
  qed
qed

lemma lsbs_step: "is_lsbs (Suc k) m \<Longrightarrow> is_lsbs k (m OR push_bit (2 ^ k) m)"
  unfolding is_lsbs_def using dvd_half [of k] by (auto simp: bit_simps)

lemma blocks_lsbs_mask:
  assumes "k \<le> 6"
  shows "\<exists>m. get_blocks_lsbs_mask k = Ok m \<and> is_lsbs k m"
proof -
  have m6: "is_lsbs 6 1"
  proof -
    have "i < 64 \<and> 64 dvd i \<longleftrightarrow> i = 0" for i :: nat by (auto dest: dvd_imp_le)
    then show ?thesis by (auto simp: is_lsbs_def bit_1_iff)
  qed
  have m0: "is_lsbs 0 (- 1)" by (simp add: is_lsbs_def bit_minus_1_iff)
  have b: "is_lsbs 5 0x100000001" "is_lsbs 4 0x1000100010001" "is_lsbs 3 0x101010101010101" "is_lsbs 2 0x1111111111111111"
    using lsbs_step [of 5 1] lsbs_step [of 4 "0x100000001"] lsbs_step [of 3 "0x1000100010001"] lsbs_step [of 2 "0x101010101010101"] m6 by simp_all
  have b1: "is_lsbs 1 0x5555555555555555" using lsbs_step [of 1 "0x1111111111111111"] b(4) unfolding Suc_1 by simp
  have t: "init_word_blocks_lsbs_masks_table = [0x5555555555555555, 0x1111111111111111, 0x101010101010101, 0x1000100010001, 0x100000001]"
    unfolding init_word_blocks_lsbs_masks_table_def by (simp add: init_masks_loop.simps numeral_nat)
  have "k = 0 \<or> k = 1 \<or> k = 2 \<or> k = 3 \<or> k = 4 \<or> k = 5 \<or> k = 6" using assms by linarith
  then show ?thesis using b b1 m0 m6 by (auto simp: get_blocks_lsbs_mask_def t)
qed

section \<open>Fields of a word\<close>

definition fld :: "nat \<Rightarrow> nat \<Rightarrow> nat \<Rightarrow> nat" where
  "fld B q x = x div 2 ^ (B * q) mod 2 ^ B"

lemma fld_less [simp]: "fld B q x < 2 ^ B"
  by (simp add: fld_def)

lemma bit_fld: "bit (fld B q x) j \<longleftrightarrow> j < B \<and> bit x (B * q + j)"
  unfolding fld_def by (simp add: bit_simps flip: drop_bit_eq_div take_bit_eq_mod)

lemma fld_Suc: "fld B (Suc q) x = fld B q (x div 2 ^ B)"
  by (simp add: fld_def power_add flip: div_mult2_eq)

lemma fld_add:
  assumes "\<And>q. fld B q x + fld B q y < 2 ^ B"
  shows "fld B q (x + y) = fld B q x + fld B q y"
  using assms
proof (induction q arbitrary: x y)
  case 0
  have "x mod 2 ^ B + y mod 2 ^ B < 2 ^ B" using 0 [of 0] by (simp add: fld_def)
  then have "(x + y) mod 2 ^ B = x mod 2 ^ B + y mod 2 ^ B" by (metis mod_add_eq mod_less)
  then show ?case by (simp add: fld_def)
next
  case (Suc q)
  have "x mod 2 ^ B + y mod 2 ^ B < 2 ^ B" using Suc.prems [of 0] by (simp add: fld_def)
  then have "(x + y) div 2 ^ B = x div 2 ^ B + y div 2 ^ B" unfolding div_add1_eq [of x y] by simp
  moreover have "fld B q (x div 2 ^ B) + fld B q (y div 2 ^ B) < 2 ^ B" for q using Suc.prems [of "Suc q"] by (simp add: fld_Suc)
  ultimately show ?case using Suc.IH by (simp add: fld_Suc)
qed

section \<open>Blocks within a word\<close>

definition bitmap_word_nonzero_blocks_lsbs :: "bitmap_word \<Rightarrow> nat \<Rightarrow> bitmap_word \<Rightarrow> bitmap_word" where
  "bitmap_word_nonzero_blocks_lsbs w block_log2 m =
     (drop_bit (2 ^ block_log2 - 1) (drop_bit 1 (w AND NOT m) + drop_bit 1 (NOT m)) OR w) AND m"

definition bitmap_word_free_blocks_lsbs :: "bitmap_word \<Rightarrow> nat \<Rightarrow> bitmap_word \<Rightarrow> bitmap_word" where
  "bitmap_word_free_blocks_lsbs w block_log2 m = bitmap_word_nonzero_blocks_lsbs w block_log2 m XOR m"

definition bitmap_word_filter_blocks_with_free_buddy_lsbs :: "bitmap_word \<Rightarrow> bitmap_word \<Rightarrow> nat \<Rightarrow> bitmap_word \<Rightarrow> bitmap_word outcome" where
  "bitmap_word_filter_blocks_with_free_buddy_lsbs candidates free block_log2 double_m =
     debug_assert (block_log2 < 6) (
     let t1 = (free XOR drop_bit (2 ^ block_log2) free) AND double_m;
         t2 = push_bit (2 ^ block_log2) t1;
         swapped = free XOR t1 XOR t2
     in Ok (candidates AND NOT swapped))"

lemma unat_half: "unat (drop_bit 1 x :: bitmap_word) < 2 ^ 63"
proof -
  have "unat x < 2 ^ 64" using unsigned_less [of x, where 'a = nat] by simp
  then show ?thesis unfolding unat_drop_bit_eq by (simp add: drop_bit_Suc)
qed

lemma mult_in_block:
  fixes B q j :: nat
  assumes "j < B"
  shows "B dvd B * q + j \<longleftrightarrow> j = 0"
  using assms by (metis dvd_add_right_iff dvd_triv_left nat_dvd_not_less neq0_conv dvd_0_right)

lemma fld_eq_mask:
  assumes "\<And>j. j < B \<Longrightarrow> bit x (B * q + j) \<longleftrightarrow> j < n" "n \<le> B"
  shows "fld B q x = 2 ^ n - 1"
proof -
  have "fld B q x = mask n" by (rule bit_eqI) (use assms in \<open>auto simp: bit_fld bit_mask_iff\<close>)
  then show ?thesis by (simp add: mask_eq_exp_minus_1)
qed

lemma fld_bound:
  assumes "\<And>j. j < B \<Longrightarrow> n \<le> j \<Longrightarrow> \<not> bit x (B * q + j)"
  shows "fld B q x < 2 ^ n"
proof -
  have "fld B q x = take_bit n (fld B q x)" by (rule bit_eqI) (use assms in \<open>auto simp: bit_fld bit_take_bit_iff intro: leI ccontr\<close>)
  then show ?thesis by (metis take_bit_nat_less_exp)
qed

lemma top_bit:
  fixes x :: nat
  assumes "x < 2 ^ Suc n"
  shows "bit x n \<longleftrightarrow> 2 ^ n \<le> x"
proof -
  have "x div 2 ^ n < 2" using assms by (simp add: less_mult_imp_div_less)
  moreover have "x div 2 ^ n = 0 \<longleftrightarrow> x < 2 ^ n" by (simp add: div_eq_0_iff)
  ultimately show ?thesis unfolding bit_iff_odd by (cases "x div 2 ^ n") (auto simp: not_less)
qed

lemma nonzero_blocks_lsbs_bit:
  assumes k: "k \<le> 6" and m: "is_lsbs k m"
  shows "bit (bitmap_word_nonzero_blocks_lsbs w k m) i \<longleftrightarrow> i < 64 \<and> 2 ^ k dvd i \<and> (\<exists>j < 2 ^ k. bit w (i + j))"
proof (cases "i < 64 \<and> 2 ^ k dvd i")
  case False
  then show ?thesis using m by (auto simp: bitmap_word_nonzero_blocks_lsbs_def is_lsbs_def bit_simps)
next
  case True
  define B where "B = (2 :: nat) ^ k"
  obtain q where q: "i = B * q" using True by (auto simp: B_def)
  have B: "1 \<le> B" by (simp add: B_def)
  let ?X = "drop_bit 1 (w AND NOT m)" and ?Y = "drop_bit 1 (NOT m)"
  have bm: "bit m n \<longleftrightarrow> n < 64 \<and> B dvd n" for n using m by (simp add: is_lsbs_def B_def)
  have dv: "B dvd Suc (B * p + j) \<longleftrightarrow> Suc j = B" if "j < B" for p j
  proof (cases "Suc j = B")
    case True
    then have "Suc (B * p + j) = B * Suc p" by simp
    then show ?thesis using True by (metis dvd_triv_left)
  next
    case False
    then show ?thesis using mult_in_block [of "Suc j" B p] that by simp
  qed
  have bX: "bit (unat ?X) (B * p + j) \<longleftrightarrow> Suc j < B \<and> bit w (Suc (B * p + j))" if "j < B" for p j
    using dv [OF that, of p] that by (auto simp: bit_unsigned_iff bit_simps bm dest: bit_imp_le_length)
  have bY: "bit (unat ?Y) (B * p + j) \<longleftrightarrow> Suc j < B \<and> Suc (B * p + j) < 64" if "j < B" for p j
    using dv [OF that, of p] that by (auto simp: bit_unsigned_iff bit_simps bm)
  have X: "fld B p (unat ?X) < 2 ^ (B - 1)" for p using bX by (intro fld_bound) auto
  have Y: "fld B p (unat ?Y) < 2 ^ (B - 1)" for p using bY by (intro fld_bound) auto
  have pow: "(2 :: nat) ^ B = 2 * 2 ^ (B - 1)" using B by (cases B) auto
  have add: "fld B q (unat ?X + unat ?Y) = fld B q (unat ?X) + fld B q (unat ?Y)"
    using X Y unfolding pow by (intro fld_add) (metis add_strict_mono mult_2 pow)
  have inw: "i + B \<le> 64"
  proof -
    have "B dvd 64" using le_imp_power_dvd [OF k, of "2 :: nat"] by (simp add: B_def)
    then obtain r where r: "64 = B * r" by blast
    then have "q < r" using True q by (metis nat_mult_less_cancel_disj)
    then have "B * Suc q \<le> B * r" by (intro mult_le_mono2) simp
    then show ?thesis using q r by simp
  qed
  have "fld B q (unat ?Y) = 2 ^ (B - 1) - 1" using bY inw q by (intro fld_eq_mask) auto
  moreover have "fld B q (unat ?X) = 0 \<longleftrightarrow> \<not> (\<exists>j < B. j \<noteq> 0 \<and> bit w (i + j))"
  proof -
    have "fld B q (unat ?X) = 0 \<longleftrightarrow> (\<forall>j. \<not> bit (fld B q (unat ?X)) j)" by (auto simp: bit_eq_iff)
    also have "\<dots> \<longleftrightarrow> (\<forall>j. Suc j < B \<longrightarrow> \<not> bit w (i + Suc j))" unfolding bit_fld using bX q by auto
    also have "\<dots> \<longleftrightarrow> \<not> (\<exists>j < B. j \<noteq> 0 \<and> bit w (i + j))" by (metis Suc_pred neq0_conv zero_less_Suc)
    finally show ?thesis .
  qed
  moreover have "bit (?X + ?Y) (i + (B - 1)) \<longleftrightarrow> 2 ^ (B - 1) \<le> fld B q (unat ?X + unat ?Y)"
  proof -
    have "unat (?X + ?Y) = unat ?X + unat ?Y"
      using unat_half [of "w AND NOT m"] unat_half [of "NOT m"] by (simp add: unat_plus_simple [THEN iffD1] unat_word_ariths)
    moreover have "bit (?X + ?Y) (i + (B - 1)) \<longleftrightarrow> bit (unat (?X + ?Y)) (i + (B - 1))" using inw B by (simp add: bit_unsigned_iff)
    moreover have "bit (unat ?X + unat ?Y) (i + (B - 1)) \<longleftrightarrow> bit (fld B q (unat ?X + unat ?Y)) (B - 1)" using B by (simp add: bit_fld q)
    ultimately show ?thesis using top_bit [of "fld B q (unat ?X + unat ?Y)" "B - 1"] B by simp
  qed
  ultimately have "bit (?X + ?Y) (i + (B - 1)) \<longleftrightarrow> (\<exists>j < B. j \<noteq> 0 \<and> bit w (i + j))"
    unfolding add using zero_less_power [of "2 :: nat" "B - 1"] by auto
  moreover have "(\<exists>j < B. bit w (i + j)) \<longleftrightarrow> bit w i \<or> (\<exists>j < B. j \<noteq> 0 \<and> bit w (i + j))"
    using B by (metis add_0_right less_le_trans zero_less_one)
  ultimately show ?thesis using True unfolding B_def [symmetric] bitmap_word_nonzero_blocks_lsbs_def
    by (simp add: bit_and_iff bit_or_iff bit_drop_bit_eq bm add.commute disj_commute)
qed

text \<open>A block of a word is free if none of its bits is set.\<close>

definition free_at :: "bitmap_word \<Rightarrow> nat \<Rightarrow> nat \<Rightarrow> bool" where
  "free_at w k i \<longleftrightarrow> i < 64 \<and> 2 ^ k dvd i \<and> (\<forall>j < 2 ^ k. \<not> bit w (i + j))"

definition is_free_lsbs :: "bitmap_word \<Rightarrow> nat \<Rightarrow> bitmap_word \<Rightarrow> bool" where
  "is_free_lsbs w k f \<longleftrightarrow> (\<forall>i. bit f i \<longleftrightarrow> free_at w k i)"

lemma free_blocks_lsbs:
  assumes "k \<le> 6" "is_lsbs k m"
  shows "is_free_lsbs w k (bitmap_word_free_blocks_lsbs w k m)"
  using nonzero_blocks_lsbs_bit [OF assms] assms(2)
  by (auto simp: is_free_lsbs_def free_at_def bitmap_word_free_blocks_lsbs_def bit_xor_iff is_lsbs_def)

definition buddy :: "nat \<Rightarrow> nat \<Rightarrow> nat" where
  "buddy k i = (if 2 ^ Suc k dvd i then i + 2 ^ k else i - 2 ^ k)"

lemma dvd_buddy:
  fixes i :: nat
  assumes "2 ^ k dvd i"
  shows "2 ^ Suc k dvd i \<or> 2 ^ k \<le> i \<and> 2 ^ Suc k dvd i - 2 ^ k" "\<not> (2 ^ Suc k dvd i \<and> 2 ^ k \<le> i \<and> 2 ^ Suc k dvd i - 2 ^ k)"
proof -
  show "2 ^ Suc k dvd i \<or> 2 ^ k \<le> i \<and> 2 ^ Suc k dvd i - 2 ^ k" by (rule dvd_half [THEN iffD2, OF assms])
  show "\<not> (2 ^ Suc k dvd i \<and> 2 ^ k \<le> i \<and> 2 ^ Suc k dvd i - 2 ^ k)"
  proof
    assume "2 ^ Suc k dvd i \<and> 2 ^ k \<le> i \<and> 2 ^ Suc k dvd i - 2 ^ k"
    then have "(2 :: nat) ^ Suc k dvd 2 ^ k" by (metis dvd_diffD1)
    then show False using dvd_imp_le [of "2 ^ Suc k" "(2 :: nat) ^ k"] by simp
  qed
qed

lemma filter_buddy_bit:
  assumes k: "k < 6" and c: "\<And>i. bit cand i \<Longrightarrow> 2 ^ k dvd i" and dm: "is_lsbs (Suc k) dm"
  shows "\<exists>r. bitmap_word_filter_blocks_with_free_buddy_lsbs cand f k dm = Ok r \<and> (\<forall>i. bit r i \<longleftrightarrow> bit cand i \<and> \<not> bit f (buddy k i))"
proof -
  define t1 where "t1 = (f XOR drop_bit (2 ^ k) f) AND dm"
  define sw where "sw = f XOR t1 XOR push_bit (2 ^ k) t1"
  have t1: "bit t1 i \<longleftrightarrow> i < 64 \<and> 2 ^ Suc k dvd i \<and> bit f i \<noteq> bit f (i + 2 ^ k)" for i
    using dm by (auto simp: t1_def bit_simps is_lsbs_def add.commute)
  have sw: "bit sw i \<longleftrightarrow> i < 64 \<and> bit f (buddy k i)" if "2 ^ k dvd i" for i
  proof (cases "2 ^ Suc k dvd i")
    case True
    then have "\<not> (2 ^ k \<le> i \<and> 2 ^ Suc k dvd i - 2 ^ k)" using dvd_buddy(2) [OF that] by blast
    then show ?thesis using True by (auto simp: sw_def bit_simps t1 buddy_def dest: bit_imp_le_length)
  next
    case False
    then have "2 ^ k \<le> i" "2 ^ Suc k dvd i - 2 ^ k" using dvd_buddy(1) [OF that] by blast+
    then show ?thesis using False by (auto simp: sw_def bit_simps t1 buddy_def dest: bit_imp_le_length)
  qed
  have "bitmap_word_filter_blocks_with_free_buddy_lsbs cand f k dm = Ok (cand AND NOT sw)"
    using k by (simp add: bitmap_word_filter_blocks_with_free_buddy_lsbs_def Let_def sw_def t1_def)
  moreover have "bit (cand AND NOT sw) i \<longleftrightarrow> bit cand i \<and> \<not> bit f (buddy k i)" for i
  proof (cases "bit cand i")
    case True
    then have "i < 64" using bit_imp_le_length [OF True] by simp
    then show ?thesis using sw [OF c [OF True]] True by (simp add: bit_and_iff bit_not_iff)
  qed (simp add: bit_and_iff)
  ultimately show ?thesis by blast
qed

function split_size_loop :: "nat \<Rightarrow> nat \<Rightarrow> bitmap_word \<Rightarrow> nat outcome" where
  "split_size_loop max_log2 split_log2 free =
     (if split_log2 < max_log2 then
        and_then (get_blocks_lsbs_mask (split_log2 + 1)) (\<lambda>double_m.
        and_then (bitmap_word_filter_blocks_with_free_buddy_lsbs free free split_log2 double_m) (\<lambda>r.
        if r \<noteq> 0 then Ok split_log2
        else
          let free = (free AND drop_bit (2 ^ split_log2) free) AND double_m in
          debug_assert (free \<noteq> 0) (split_size_loop max_log2 (split_log2 + 1) free)))
      else Ok split_log2)"
  by pat_completeness auto
termination
  by (relation "measure (\<lambda>(mx, s, f). mx - s)") auto

declare split_size_loop.simps [simp del]

definition bitmap_word_block_alloc_split_block_size_log2 :: "bitmap_word \<Rightarrow> nat option \<Rightarrow> nat \<Rightarrow> bitmap_word \<Rightarrow> nat outcome" where
  "bitmap_word_block_alloc_split_block_size_log2 free max_split block_log2 m =
     debug_assert (block_log2 \<noteq> 6) (
     and_then (get_blocks_lsbs_mask block_log2) (\<lambda>m'.
     debug_assert (m = m') (
     debug_assert (free AND NOT m = 0) (
     debug_assert (free \<noteq> 0) (
     debug_assert (free \<noteq> m) (
     split_size_loop (case max_split of None \<Rightarrow> 5 | Some x \<Rightarrow> min x 5) block_log2 free))))))"

definition bitmap_word_block_alloc_select_block :: "bitmap_word \<Rightarrow> nat \<Rightarrow> bitmap_word \<Rightarrow> nat outcome" where
  "bitmap_word_block_alloc_select_block free block_log2 m =
     and_then (get_blocks_lsbs_mask block_log2) (\<lambda>m'.
     debug_assert (m = m') (
     debug_assert (free AND NOT m = 0) (
     and_then (if block_log2 = 6 then Ok True
               else and_then (bitmap_word_block_alloc_split_block_size_log2 free None block_log2 m) (\<lambda>s. Ok (block_log2 = s))) (\<lambda>fits.
     debug_assert fits (
     and_then (if block_log2 < 5
               then and_then (get_blocks_lsbs_mask (block_log2 + 1)) (bitmap_word_filter_blocks_with_free_buddy_lsbs free free block_log2)
               else Ok free) (\<lambda>free.
     debug_assert (free \<noteq> 0) (Ok (trailing_zeros free))))))))"

lemma free_at_Suc:
  assumes "s < 6"
  shows "free_at w (Suc s) i \<longleftrightarrow> 2 ^ Suc s dvd i \<and> free_at w s i \<and> free_at w s (i + 2 ^ s)"
proof (cases "2 ^ Suc s dvd i \<and> i < 64")
  case True
  have "(2 :: nat) ^ s dvd 2 ^ Suc s" by simp
  then have s: "2 ^ s dvd i" using True dvd_trans by blast
  have "i + 2 ^ s < 64"
  proof -
    have "(2 :: nat) ^ Suc s dvd 64" using le_imp_power_dvd [of "Suc s" 6 "2 :: nat"] assms by simp
    then have "(2 :: nat) ^ Suc s dvd 64 - i" using True by (simp add: dvd_diff_nat)
    then have "(2 :: nat) ^ Suc s \<le> 64 - i" using True by (intro dvd_imp_le) auto
    moreover have "(0 :: nat) < 2 ^ s" by simp
    ultimately show ?thesis unfolding power_Suc by linarith
  qed
  moreover have "(\<forall>j < 2 ^ Suc s. P j) \<longleftrightarrow> (\<forall>j < 2 ^ s. P j) \<and> (\<forall>j < 2 ^ s. P (2 ^ s + j))" for P :: "nat \<Rightarrow> bool"
  proof -
    have "j < 2 ^ Suc s \<longleftrightarrow> j < 2 ^ s \<or> (\<exists>l < 2 ^ s. j = 2 ^ s + l)" for j :: nat
      by (auto intro: exI [of _ "j - 2 ^ s"])
    then show ?thesis by auto
  qed
  ultimately show ?thesis using True s by (simp add: free_at_def add.assoc del: power_Suc)
next
  case False
  then show ?thesis by (auto simp: free_at_def)
qed

lemma split_size_loop_spec:
  assumes "is_free_lsbs w s f" "f \<noteq> 0" "s \<le> 5" "mx \<le> 5"
  shows "\<exists>r. split_size_loop mx s f = Ok r \<and> s \<le> r \<and> r \<le> max s mx \<and> (\<exists>i. free_at w r i)
    \<and> (r < mx \<longrightarrow> (\<exists>i. free_at w r i \<and> \<not> free_at w r (buddy r i)))"
  using assms
proof (induction mx s f rule: split_size_loop.induct)
  case (1 mx s f)
  have fb: "bit f i \<longleftrightarrow> free_at w s i" for i using "1.prems"(1) by (simp add: is_free_lsbs_def)
  obtain i0 where i0: "free_at w s i0" using "1.prems"(2) fb by (metis bit_eqI bit_0_eq bot_apply bot_bool_def)
  show ?case
  proof (cases "s < mx")
    case False
    then show ?thesis using i0 by (subst split_size_loop.simps) auto
  next
    case True
    then have s: "s < 6" "Suc s \<le> 6" using "1.prems"(4) by simp_all
    obtain dm where dm: "get_blocks_lsbs_mask (s + 1) = Ok dm" "is_lsbs (Suc s) dm" using blocks_lsbs_mask [OF s(2)] by auto
    have dvd: "bit f i \<Longrightarrow> 2 ^ s dvd i" for i using fb by (simp add: free_at_def)
    obtain r where r: "bitmap_word_filter_blocks_with_free_buddy_lsbs f f s dm = Ok r"
      "\<And>i. bit r i \<longleftrightarrow> bit f i \<and> \<not> bit f (buddy s i)" using filter_buddy_bit [OF s(1) dvd dm(2), of f] by blast
    show ?thesis
    proof (cases "r = 0")
      case False
      then obtain i where "bit r i" by (metis bit_eqI bit_0_eq bot_apply bot_bool_def)
      then have "free_at w s i \<and> \<not> free_at w s (buddy s i)" using r(2) fb by simp
      then show ?thesis using True dm(1) r(1) False by (subst split_size_loop.simps) auto
    next
      case r0: True
      define f' where "f' = (f AND drop_bit (2 ^ s) f) AND dm"
      have f': "is_free_lsbs w (Suc s) f'"
        unfolding is_free_lsbs_def free_at_Suc [OF s(1)] f'_def using dm(2) fb
        by (auto simp: bit_simps is_lsbs_def free_at_def add.commute)
      have "free_at w s (buddy s i)" if "free_at w s i" for i using r(2) [of i] fb that by (auto simp: r0)
      then have b: "free_at w s (buddy s i0)" using i0 by blast
      have "2 ^ s dvd i0" using i0 by (simp add: free_at_def)
      note al = dvd_buddy(1) [OF this]
      have "\<exists>i. free_at w (Suc s) i"
      proof (cases "2 ^ Suc s dvd i0")
        case True
        then show ?thesis using i0 b unfolding free_at_Suc [OF s(1)] buddy_def by auto
      next
        case False
        then have "2 ^ Suc s dvd i0 - 2 ^ s" "i0 - 2 ^ s + 2 ^ s = i0" using al by auto
        then show ?thesis using i0 b False unfolding free_at_Suc [OF s(1)] buddy_def by (intro exI [of _ "i0 - 2 ^ s"]) simp
      qed
      then have nz: "f' \<noteq> 0" using f' unfolding is_free_lsbs_def by (metis bit_0_eq bot_apply bot_bool_def)
      have "s + 1 \<le> 5" "is_free_lsbs w (s + 1) f'" using True "1.prems"(4) f' by simp_all
      from "1.IH" [OF True dm(1) r(1) _ f'_def nz this(2) nz this(1) "1.prems"(4)] r0
      obtain t where "split_size_loop mx (s + 1) f' = Ok t" "s + 1 \<le> t" "t \<le> max (s + 1) mx" "\<exists>i. free_at w t i"
        "t < mx \<longrightarrow> (\<exists>i. free_at w t i \<and> \<not> free_at w t (buddy t i))" by blast
      moreover have "split_size_loop mx s f = split_size_loop mx (s + 1) f'"
        using True dm(1) r(1) r0 nz by (subst split_size_loop.simps) (simp add: f'_def)
      ultimately show ?thesis using True by (intro exI [of _ t]) auto
    qed
  qed
qed

lemma aligned_below:
  fixes j :: nat
  assumes "j < 64" "k \<le> 6"
  shows "2 ^ k dvd j - j mod 2 ^ k" "j - j mod 2 ^ k < 64" "\<exists>l < 2 ^ k. j = j - j mod 2 ^ k + l"
proof -
  show "2 ^ k dvd j - j mod 2 ^ k" by simp
  show "j - j mod 2 ^ k < 64" using assms(1) by simp
  show "\<exists>l < 2 ^ k. j = j - j mod 2 ^ k + l" by (intro exI [of _ "j mod 2 ^ k"]) simp
qed

lemma nonzero_bit: "w \<noteq> 0 \<Longrightarrow> \<exists>j < 64. bit w j" for w :: bitmap_word
proof (rule ccontr)
  assume "w \<noteq> 0" "\<not> (\<exists>j < 64. bit w j)"
  moreover from this have "w = 0" by (intro bit_word_eqI) auto
  ultimately show False by simp
qed

lemma trailing_zeros_bit:
  fixes x :: "'a::len word"
  assumes "x \<noteq> 0"
  shows "trailing_zeros x < LENGTH('a)" "bit x (trailing_zeros x)" "\<And>i. i < trailing_zeros x \<Longrightarrow> \<not> bit x i"
proof -
  let ?xs = "map (bit x) [0..<LENGTH('a)]"
  have len: "length (takeWhile Not ?xs) < length ?xs"
  proof (rule ccontr)
    assume "\<not> length (takeWhile Not ?xs) < length ?xs"
    then have "takeWhile Not ?xs = ?xs" by (metis length_takeWhile_le linorder_not_le nat_less_le takeWhile_eq_take take_all_iff)
    then have "\<forall>b \<in> set ?xs. \<not> b" by (metis takeWhile_eq_all_conv)
    then have "x = 0" by (intro bit_word_eqI) auto
    then show False using assms by simp
  qed
  then show lt: "trailing_zeros x < LENGTH('a)" by (simp add: trailing_zeros_def)
  have "?xs ! trailing_zeros x" using nth_length_takeWhile [OF len] by (simp add: trailing_zeros_def)
  then show "bit x (trailing_zeros x)" using lt by simp
  show "\<not> bit x i" if i: "i < trailing_zeros x" for i
  proof -
    have "\<not> takeWhile Not ?xs ! i" using i set_takeWhileD [of "takeWhile Not ?xs ! i" Not ?xs] unfolding trailing_zeros_def by (metis nth_mem)
    then show ?thesis using takeWhile_nth [OF i [unfolded trailing_zeros_def]] i lt by simp
  qed
qed

lemma not_all_free:
  assumes "w \<noteq> 0" "k \<le> 6" "is_lsbs k m" "is_free_lsbs w k f"
  shows "f \<noteq> m"
proof -
  obtain j where j: "j < 64" "bit w j" using nonzero_bit [OF assms(1)] by blast
  note a = aligned_below [OF j(1) assms(2)]
  have "bit m (j - j mod 2 ^ k)" using assms(3) a(1,2) by (simp add: is_lsbs_def)
  moreover have "\<not> bit f (j - j mod 2 ^ k)" using assms(4) a(3) j(2) unfolding is_free_lsbs_def free_at_def by (metis)
  ultimately show ?thesis by auto
qed

lemma split_size_spec:
  assumes k: "k \<le> 5" and m: "is_lsbs k m" and f: "is_free_lsbs w k f" "f \<noteq> 0" and w: "w \<noteq> 0"
  shows "\<exists>r. bitmap_word_block_alloc_split_block_size_log2 f mo k m = Ok r \<and> k \<le> r \<and> r \<le> max k (case mo of None \<Rightarrow> 5 | Some x \<Rightarrow> min x 5)
    \<and> (\<exists>i. free_at w r i)
    \<and> (r < (case mo of None \<Rightarrow> 5 | Some x \<Rightarrow> min x 5) \<longrightarrow> (\<exists>i. free_at w r i \<and> \<not> free_at w r (buddy r i)))"
proof -
  have "k \<le> 6" using k by simp
  from blocks_lsbs_mask [OF this] obtain m' where m': "get_blocks_lsbs_mask k = Ok m'" "is_lsbs k m'" by blast
  have "m = m'" using is_lsbs_unique [OF m m'(2)] .
  moreover have "f AND NOT m = 0" using f m by (auto simp: bit_eq_iff bit_simps is_free_lsbs_def free_at_def is_lsbs_def)
  moreover have "f \<noteq> m" using not_all_free [OF w _ m f(1)] k by simp
  moreover have "k \<noteq> 6" using k by simp
  ultimately have "bitmap_word_block_alloc_split_block_size_log2 f mo k m = split_size_loop (case mo of None \<Rightarrow> 5 | Some x \<Rightarrow> min x 5) k f"
    using m'(1) f(2) by (simp add: bitmap_word_block_alloc_split_block_size_log2_def)
  then show ?thesis using split_size_loop_spec [OF f k] by (simp split: option.split)
qed

lemma lone_half:
  assumes "w \<noteq> 0" "free_at w 5 i"
  shows "\<not> free_at w 5 (buddy 5 i)"
proof
  assume b: "free_at w 5 (buddy 5 i)"
  obtain j where j: "j < 64" "bit w j" using nonzero_bit [OF assms(1)] by blast
  have "i = 0 \<or> i = 32" using assms(2) by (auto simp: free_at_def elim!: dvdE)
  moreover have "free_at w 5 0 \<Longrightarrow> free_at w 5 32 \<Longrightarrow> False"
  proof (cases "j < 32")
    case False
    then have "j = 32 + (j - 32)" "j - 32 < 32" using j(1) by simp_all
    moreover assume "free_at w 5 32"
    ultimately show False using j(2) by (fastforce simp: free_at_def)
  qed (use j in \<open>simp add: free_at_def\<close>)
  ultimately show False using assms(2) b by (auto simp: buddy_def)
qed

lemma select_block_spec:
  assumes k: "k \<le> 6" and m: "is_lsbs k m" and f: "\<And>i. bit f i \<Longrightarrow> 2 ^ k dvd i" "f \<noteq> 0" "k < 6 \<Longrightarrow> f \<noteq> m"
    and lone: "k < 5 \<Longrightarrow> \<exists>i. bit f i \<and> \<not> bit f (buddy k i)"
  shows "\<exists>i. bitmap_word_block_alloc_select_block f k m = Ok i \<and> bit f i"
proof -
  obtain m' where m': "get_blocks_lsbs_mask k = Ok m'" "is_lsbs k m'" using blocks_lsbs_mask [OF k] by blast
  have mm: "m' = m" using is_lsbs_unique [OF m m'(2)] by simp
  have sub: "f AND NOT m = 0" using f(1) m by (auto simp: bit_eq_iff bit_simps is_lsbs_def dest: bit_imp_le_length)
  note tz = trailing_zeros_bit(2)
  show ?thesis
  proof (cases "k < 5")
    case True
    then have k': "k < 6" "Suc k \<le> 6" by simp_all
    obtain dm where dm: "get_blocks_lsbs_mask (k + 1) = Ok dm" "is_lsbs (Suc k) dm" using blocks_lsbs_mask [OF k'(2)] by auto
    obtain r where r: "bitmap_word_filter_blocks_with_free_buddy_lsbs f f k dm = Ok r" "\<And>i. bit r i \<longleftrightarrow> bit f i \<and> \<not> bit f (buddy k i)"
      using filter_buddy_bit [OF k'(1) f(1) dm(2), of f] by blast
    have r0: "r \<noteq> 0" using lone [OF True] r(2) by (metis bit_0_eq bot_apply bot_bool_def)
    have "split_size_loop 5 k f = Ok k" using True dm(1) r(1) r0 by (subst split_size_loop.simps) simp
    then have "bitmap_word_block_alloc_select_block f k m = Ok (trailing_zeros r)"
      using True m'(1) mm sub f(2,3) dm(1) r(1) r0
      by (simp add: bitmap_word_block_alloc_select_block_def bitmap_word_block_alloc_split_block_size_log2_def)
    then show ?thesis using tz [OF r0] r(2) by blast
  next
    case False
    then have "k = 6 \<or> k = 5" using k by linarith
    moreover have "split_size_loop 5 5 f = Ok 5" by (subst split_size_loop.simps) simp
    ultimately have "bitmap_word_block_alloc_select_block f k m = Ok (trailing_zeros f)"
      using m'(1) mm sub f(2,3) by (auto simp: bitmap_word_block_alloc_select_block_def bitmap_word_block_alloc_split_block_size_log2_def)
    then show ?thesis using tz [OF f(2)] by blast
  qed
qed

section \<open>Packed integers\<close>

definition bitmap_word_blocks_select_mask :: "nat \<Rightarrow> bitmap_word \<Rightarrow> bitmap_word outcome" where
  "bitmap_word_blocks_select_mask block_log2 selected_blocks_lsbs =
     (let selected_blocks_msbs = push_bit (2 ^ block_log2 - 1) selected_blocks_lsbs in
      if selected_blocks_lsbs \<le> selected_blocks_msbs
      then Ok ((selected_blocks_msbs - selected_blocks_lsbs) OR selected_blocks_msbs) else Panic)"

definition blocks_fields_diff :: "bitmap_word \<Rightarrow> bitmap_word \<Rightarrow> bitmap_word \<Rightarrow> bitmap_word outcome" where
  "blocks_fields_diff x y msbs =
     (if y AND NOT msbs \<le> x OR msbs then Ok ((x OR msbs) - (y AND NOT msbs)) else Panic)"

definition bitmap_word_blocks_fields_geq_lsbs :: "bitmap_word \<Rightarrow> bitmap_word \<Rightarrow> nat \<Rightarrow> bitmap_word \<Rightarrow> bitmap_word outcome" where
  "bitmap_word_blocks_fields_geq_lsbs x y block_log2 m =
     and_then (blocks_fields_diff x y (push_bit (2 ^ block_log2 - 1) m)) (\<lambda>d.
     let no_borrow_msbs = (x OR (NOT y AND d)) AND (NOT y OR d)
     in Ok (drop_bit (2 ^ block_log2 - 1) no_borrow_msbs AND m))"

definition bitmap_word_blocks_fields_sub :: "bitmap_word \<Rightarrow> bitmap_word \<Rightarrow> nat \<Rightarrow> bitmap_word \<Rightarrow> bitmap_word outcome" where
  "bitmap_word_blocks_fields_sub x y block_log2 m =
     (let msbs = push_bit (2 ^ block_log2 - 1) m in
      and_then (blocks_fields_diff x y msbs) (\<lambda>d. Ok (NOT (((x XOR y) OR NOT msbs) XOR d))))"

lemma fld_le:
  assumes B: "0 < B" and le: "\<And>q. fld B q y \<le> fld B q x"
  shows "y \<le> x"
  using le
proof (induction y arbitrary: x rule: less_induct)
  case (less y)
  show ?case
  proof (cases "y = 0")
    case False
    have D: "1 < (2 :: nat) ^ B" using B by (intro one_less_power) simp_all
    have "y div 2 ^ B < y" using False D by simp
    moreover have "fld B q (y div 2 ^ B) \<le> fld B q (x div 2 ^ B)" for q using less.prems [of "Suc q"] by (simp add: fld_Suc)
    ultimately have "y div 2 ^ B \<le> x div 2 ^ B" by (rule less.IH)
    moreover have "y mod 2 ^ B \<le> x mod 2 ^ B" using less.prems [of 0] by (simp add: fld_def)
    ultimately have "2 ^ B * (y div 2 ^ B) + y mod 2 ^ B \<le> 2 ^ B * (x div 2 ^ B) + x mod 2 ^ B" by (intro add_mono mult_le_mono2)
    then show ?thesis by simp
  qed simp
qed

lemma diff_div_mod:
  fixes x y D :: nat
  assumes "0 < D" "y mod D \<le> x mod D" "y div D \<le> x div D"
  shows "(x - y) div D = x div D - y div D" "(x - y) mod D = x mod D - y mod D"
proof -
  have "x - y = (D * (x div D) + x mod D) - (D * (y div D) + y mod D)" by simp
  also have "\<dots> = D * (x div D - y div D) + (x mod D - y mod D)"
    using assms(2,3) mult_le_mono2 [OF assms(3), of D] by (simp add: diff_mult_distrib2)
  finally have eq: "x - y = D * (x div D - y div D) + (x mod D - y mod D)" .
  moreover have "x mod D - y mod D < D" using assms(1) by (simp add: less_imp_diff_less)
  ultimately show "(x - y) div D = x div D - y div D" "(x - y) mod D = x mod D - y mod D" by simp_all
qed

lemma fld_diff:
  assumes B: "0 < B" and le: "\<And>q. fld B q y \<le> fld B q x"
  shows "fld B q (x - y) = fld B q x - fld B q y"
  using le
proof (induction q arbitrary: x y)
  case 0
  have "y div 2 ^ B \<le> x div 2 ^ B" using fld_le [OF B 0] by (rule div_le_mono)
  then show ?case using diff_div_mod(2) [of "2 ^ B" y x] 0 [of 0] by (simp add: fld_def)
next
  case (Suc q)
  have le': "fld B q (y div 2 ^ B) \<le> fld B q (x div 2 ^ B)" for q using Suc.prems [of "Suc q"] by (simp add: fld_Suc)
  have "y div 2 ^ B \<le> x div 2 ^ B" using fld_le [OF B Suc.prems] by (rule div_le_mono)
  then have "(x - y) div 2 ^ B = x div 2 ^ B - y div 2 ^ B"
    using diff_div_mod(1) [of "2 ^ B" y x] Suc.prems [of 0] by (simp add: fld_def)
  then show ?case using Suc.IH [OF le'] by (simp add: fld_Suc)
qed

text \<open>The packed integer of a word at an index.\<close>

definition field :: "nat \<Rightarrow> nat \<Rightarrow> bitmap_word \<Rightarrow> nat" where
  "field k q w = fld (2 ^ k) q (unat w)"

lemma bit_field: "bit (field k q w) j \<longleftrightarrow> j < 2 ^ k \<and> bit w (2 ^ k * q + j)"
  by (auto simp: field_def bit_fld bit_unsigned_iff dest: bit_imp_le_length)

lemma field_less: "field k q w < 2 ^ 2 ^ k"
  by (simp add: field_def)

lemma split_top:
  fixes v :: nat
  assumes "v < 2 ^ Suc n"
  shows "v = v mod 2 ^ n + 2 ^ n * of_bool (bit v n)"
proof -
  have "v div 2 ^ n < 2" using assms by (simp add: less_mult_imp_div_less)
  then have "v div 2 ^ n = of_bool (bit v n)" unfolding bit_iff_odd by (cases "v div 2 ^ n") (auto simp: less_Suc_eq)
  then show ?thesis by (metis mult_div_mod_eq add.commute)
qed

lemma aligned_block_in_word:
  fixes j :: nat
  assumes "k \<le> 6" "2 ^ k dvd j" "j < 64"
  shows "j + 2 ^ k \<le> 64"
proof -
  obtain q where q: "j = 2 ^ k * q" using assms(2) by blast
  have "(2 :: nat) ^ k * 2 ^ (6 - k) = 64" using assms(1) by (simp flip: power_add)
  then have "2 ^ k * q < 2 ^ k * 2 ^ (6 - k)" using assms(3) q by simp
  then have "Suc q \<le> 2 ^ (6 - k)" by simp
  then have "2 ^ k * Suc q \<le> (2 :: nat) ^ k * 2 ^ (6 - k)" by (rule mult_le_mono2)
  then show ?thesis using q \<open>(2 :: nat) ^ k * 2 ^ (6 - k) = 64\<close> by simp
qed

lemma msbs_bit:
  assumes k: "k \<le> 6" and m: "is_lsbs k m" and q: "2 ^ k * q < 64" and j: "j < 2 ^ k"
  shows "bit (push_bit (2 ^ k - 1) m) (2 ^ k * q + j) \<longleftrightarrow> j = 2 ^ k - 1"
proof -
  have in_word: "2 ^ k * q + j < 64" using aligned_block_in_word [OF k _ q] j by simp
  show ?thesis
  proof (cases "j = 2 ^ k - 1")
    case True
    then have "2 ^ k * q + j - (2 ^ k - 1) = 2 ^ k * q" "2 ^ k - 1 \<le> 2 ^ k * q + j" by simp_all
    moreover have "bit m (2 ^ k * q)" using m q by (simp add: is_lsbs_def)
    ultimately show ?thesis using True in_word by (simp only: bit_push_bit_iff_nat bit_push_bit_iff) simp
  next
    case False
    then have j': "Suc j < 2 ^ k" using j by simp
    have "\<not> 2 ^ k dvd 2 ^ k * q + j - (2 ^ k - 1)" if ge: "2 ^ k - 1 \<le> 2 ^ k * q + j"
    proof -
      obtain p where p: "q = Suc p" using ge j' by (cases q) auto
      then have "2 ^ k * q + j - (2 ^ k - 1) = 2 ^ k * p + Suc j" using j' by simp
      then show ?thesis using mult_in_block [OF j', of p] by simp
    qed
    then show ?thesis using False m by (auto simp: bit_simps is_lsbs_def)
  qed
qed

lemma field_out: "64 \<le> 2 ^ k * q \<Longrightarrow> field k q w = 0"
  by (rule bit_eqI) (auto simp: bit_field dest!: bit_imp_le_length)

lemma fields_diff_spec:
  assumes k: "k \<le> 6" and m: "is_lsbs k m"
  shows "\<exists>d. blocks_fields_diff x y (push_bit (2 ^ k - 1) m) = Ok d
    \<and> (\<forall>q. 2 ^ k * q < 64 \<longrightarrow> field k q d = 2 ^ (2 ^ k - 1) + take_bit (2 ^ k - 1) (field k q x) - take_bit (2 ^ k - 1) (field k q y))"
proof -
  let ?n = "2 ^ k - 1 :: nat" and ?M = "push_bit (2 ^ k - 1) m"
  have B: "(2 :: nat) ^ k = Suc ?n" by simp
  have fX: "field k q (x OR ?M) = 2 ^ ?n + take_bit ?n (field k q x)" if q: "2 ^ k * q < 64" for q
  proof -
    have "field k q (x OR ?M) = 2 ^ ?n OR take_bit ?n (field k q x)"
    proof (rule bit_eqI)
      fix j :: nat
      show "bit (field k q (x OR ?M)) j \<longleftrightarrow> bit (2 ^ ?n OR take_bit ?n (field k q x)) j"
      proof (cases "j < 2 ^ k")
        case True
        then show ?thesis using msbs_bit [OF k m q True] by (auto simp: bit_field bit_or_iff bit_take_bit_iff bit_exp_iff)
      next
        case False
        then have "j \<noteq> ?n" "\<not> j < ?n" by auto
        then show ?thesis using False by (simp add: bit_field bit_or_iff bit_take_bit_iff bit_exp_iff)
      qed
    qed
    also have "\<dots> = 2 ^ ?n + take_bit ?n (field k q x)"
      by (rule disjunctive_add [symmetric]) (auto simp: bit_exp_iff bit_take_bit_iff)
    finally show ?thesis .
  qed
  have fY: "field k q (y AND NOT ?M) = take_bit ?n (field k q y)" if q: "2 ^ k * q < 64" for q
  proof (rule bit_eqI)
    fix j :: nat
    show "bit (field k q (y AND NOT ?M)) j \<longleftrightarrow> bit (take_bit ?n (field k q y)) j"
    proof (cases "j < 2 ^ k")
      case True
      then have "2 ^ k * q + j < 64" using aligned_block_in_word [OF k _ q] by simp
      then show ?thesis using True msbs_bit [OF k m q True] by (auto simp: bit_field bit_and_iff bit_not_iff bit_take_bit_iff)
    next
      case False
      then have "\<not> j < ?n" by auto
      then show ?thesis using False by (simp add: bit_field bit_take_bit_iff)
    qed
  qed
  have lt: "take_bit ?n v < 2 ^ ?n" for v :: nat by simp
  have le: "field k q (y AND NOT ?M) \<le> field k q (x OR ?M)" for q
  proof (cases "2 ^ k * q < 64")
    case True
    show ?thesis unfolding fX [OF True] fY [OF True] using lt [of "field k q y"] by linarith
  qed (simp add: field_out)
  then have le': "fld (2 ^ k) q (unat (y AND NOT ?M)) \<le> fld (2 ^ k) q (unat (x OR ?M))" for q unfolding field_def .
  have B0: "0 < (2 :: nat) ^ k" by simp
  have ule: "unat (y AND NOT ?M) \<le> unat (x OR ?M)" by (rule fld_le [OF B0 le'])
  then have "blocks_fields_diff x y ?M = Ok ((x OR ?M) - (y AND NOT ?M))" by (simp add: blocks_fields_diff_def word_le_nat_alt)
  moreover have "field k q ((x OR ?M) - (y AND NOT ?M)) = field k q (x OR ?M) - field k q (y AND NOT ?M)" for q
    unfolding field_def fld_diff [OF B0 le', symmetric] using ule by (simp only: unat_sub word_le_nat_alt)
  ultimately show ?thesis using fX fY by (intro exI [of _ "(x OR ?M) - (y AND NOT ?M)"]) simp
qed


lemma field_parts:
  "field k q w = take_bit (2 ^ k - 1) (field k q w) + 2 ^ (2 ^ k - 1) * of_bool (bit w (2 ^ k * q + (2 ^ k - 1)))"
proof -
  have "field k q w < 2 ^ Suc (2 ^ k - 1)" using field_less [of k q w] by simp
  from split_top [OF this] show ?thesis by (simp add: bit_field flip: take_bit_eq_mod)
qed

text \<open>The most significant bit of a field of the difference tells whether no borrow goes into it.\<close>

lemma diff_parts:
  assumes "field k q d = 2 ^ (2 ^ k - 1) + take_bit (2 ^ k - 1) (field k q x) - take_bit (2 ^ k - 1) (field k q y)"
  shows "bit d (2 ^ k * q + (2 ^ k - 1)) \<longleftrightarrow> take_bit (2 ^ k - 1) (field k q y) \<le> take_bit (2 ^ k - 1) (field k q x)"
    and "take_bit (2 ^ k - 1) (field k q d) = (if take_bit (2 ^ k - 1) (field k q y) \<le> take_bit (2 ^ k - 1) (field k q x)
      then take_bit (2 ^ k - 1) (field k q x) - take_bit (2 ^ k - 1) (field k q y)
      else 2 ^ (2 ^ k - 1) + take_bit (2 ^ k - 1) (field k q x) - take_bit (2 ^ k - 1) (field k q y))"
proof -
  define H lx ly where "H = (2 :: nat) ^ (2 ^ k - 1)" and "lx = take_bit (2 ^ k - 1) (field k q x)" and "ly = take_bit (2 ^ k - 1) (field k q y)"
  have lt: "lx < H" "ly < H" by (simp_all add: H_def lx_def ly_def)
  have d: "field k q d = H + lx - ly" using assms by (simp add: H_def lx_def ly_def)
  have H: "field k q d < 2 ^ Suc (2 ^ k - 1)" using field_less [of k q d] by simp
  have b: "bit d (2 ^ k * q + (2 ^ k - 1)) \<longleftrightarrow> bit (field k q d) (2 ^ k - 1)" by (simp add: bit_field)
  show "bit d (2 ^ k * q + (2 ^ k - 1)) \<longleftrightarrow> take_bit (2 ^ k - 1) (field k q y) \<le> take_bit (2 ^ k - 1) (field k q x)"
    using top_bit [OF H] lt unfolding b d H_def [symmetric] lx_def [symmetric] ly_def [symmetric] by linarith
  have "(H + lx - ly) mod H = (if ly \<le> lx then lx - ly else H + lx - ly)"
  proof (cases "ly \<le> lx")
    case True
    then have "(H + lx - ly) mod H = (lx - ly) mod H" by (metis add_diff_assoc mod_add_self1)
    then show ?thesis using True lt by simp
  next
    case False
    then show ?thesis using lt by simp
  qed
  then show "take_bit (2 ^ k - 1) (field k q d) = (if take_bit (2 ^ k - 1) (field k q y) \<le> take_bit (2 ^ k - 1) (field k q x)
      then take_bit (2 ^ k - 1) (field k q x) - take_bit (2 ^ k - 1) (field k q y)
      else 2 ^ (2 ^ k - 1) + take_bit (2 ^ k - 1) (field k q x) - take_bit (2 ^ k - 1) (field k q y))"
    unfolding d H_def lx_def ly_def by (metis take_bit_eq_mod)
qed

lemma blocks_fields_geq_spec:
  assumes k: "k \<le> 6" and m: "is_lsbs k m"
  shows "\<exists>r. bitmap_word_blocks_fields_geq_lsbs x y k m = Ok r
    \<and> (\<forall>i. bit r i \<longleftrightarrow> (\<exists>q. i = 2 ^ k * q \<and> i < 64 \<and> field k q y \<le> field k q x))"
proof -
  let ?n = "2 ^ k - 1 :: nat"
  from fields_diff_spec [OF assms, of x y] obtain d where d: "blocks_fields_diff x y (push_bit ?n m) = Ok d"
    "\<forall>q. 2 ^ k * q < 64 \<longrightarrow> field k q d = 2 ^ ?n + take_bit ?n (field k q x) - take_bit ?n (field k q y)" by blast
  define r where "r = drop_bit ?n ((x OR (NOT y AND d)) AND (NOT y OR d)) AND m"
  have "bit r (2 ^ k * q) \<longleftrightarrow> field k q y \<le> field k q x" if q: "2 ^ k * q < 64" for q
  proof -
    let ?p = "2 ^ k * q + ?n"
    have p: "?p < 64" using aligned_block_in_word [OF k _ q] by simp
    have "bit m (2 ^ k * q)" using m q by (simp add: is_lsbs_def)
    then have "bit r (2 ^ k * q) \<longleftrightarrow> (bit x ?p \<or> (\<not> bit y ?p \<and> bit d ?p)) \<and> (\<not> bit y ?p \<or> bit d ?p)"
      using p by (simp add: r_def bit_and_iff bit_or_iff bit_not_iff bit_drop_bit_eq add.commute)
    moreover define H lx ly where h: "H = (2 :: nat) ^ ?n" "lx = take_bit ?n (field k q x)" "ly = take_bit ?n (field k q y)"
    have "lx < H" "ly < H" by (simp_all add: h)
    moreover have "field k q x = lx + H * of_bool (bit x ?p)" "field k q y = ly + H * of_bool (bit y ?p)"
      unfolding h by (rule field_parts)+
    moreover have "bit d ?p \<longleftrightarrow> ly \<le> lx" using diff_parts(1) [OF d(2) [rule_format, OF q]] by (simp only: h)
    ultimately show ?thesis by (cases "bit x ?p"; cases "bit y ?p") simp_all
  qed
  moreover have "bit r i \<Longrightarrow> \<exists>q. i = 2 ^ k * q \<and> i < 64" for i using m by (auto simp: r_def bit_and_iff is_lsbs_def)
  ultimately have "\<forall>i. bit r i \<longleftrightarrow> (\<exists>q. i = 2 ^ k * q \<and> i < 64 \<and> field k q y \<le> field k q x)" by blast
  then show ?thesis using d(1) by (simp add: bitmap_word_blocks_fields_geq_lsbs_def r_def)
qed

lemma blocks_fields_sub_spec:
  assumes k: "k \<le> 6" and m: "is_lsbs k m"
  shows "\<exists>r. bitmap_word_blocks_fields_sub x y k m = Ok r
    \<and> (\<forall>q. 2 ^ k * q < 64 \<longrightarrow> field k q r = (field k q x + 2 ^ 2 ^ k - field k q y) mod 2 ^ 2 ^ k)"
proof -
  let ?n = "2 ^ k - 1 :: nat" and ?M = "push_bit (2 ^ k - 1) m"
  from fields_diff_spec [OF assms, of x y] obtain d where d: "blocks_fields_diff x y ?M = Ok d"
    "\<forall>q. 2 ^ k * q < 64 \<longrightarrow> field k q d = 2 ^ ?n + take_bit ?n (field k q x) - take_bit ?n (field k q y)" by blast
  define r where "r = NOT (((x XOR y) OR NOT ?M) XOR d)"
  have "field k q r = (field k q x + 2 ^ 2 ^ k - field k q y) mod 2 ^ 2 ^ k" if q: "2 ^ k * q < 64" for q
  proof -
    let ?p = "2 ^ k * q + ?n"
    have in_word: "2 ^ k * q + j < 64" if "j < 2 ^ k" for j using aligned_block_in_word [OF k _ q] that by simp
    have low: "take_bit ?n (field k q r) = take_bit ?n (field k q d)"
    proof (rule bit_eqI)
      fix j :: nat
      show "bit (take_bit ?n (field k q r)) j \<longleftrightarrow> bit (take_bit ?n (field k q d)) j"
      proof (cases "j < ?n")
        case True
        then have j: "j < 2 ^ k" "j \<noteq> ?n" by simp_all
        then show ?thesis using in_word [OF j(1)] msbs_bit [OF k m q j(1)]
          by (simp add: bit_field bit_take_bit_iff r_def bit_or_iff bit_not_iff bit_xor_iff)
      qed (simp add: bit_take_bit_iff)
    qed
    have top: "bit r ?p \<longleftrightarrow> (bit x ?p \<noteq> bit y ?p) = bit d ?p"
      using in_word [of ?n] msbs_bit [OF k m q, of ?n] by (auto simp: r_def bit_or_iff bit_not_iff bit_xor_iff)
    define H lx ly where h: "H = (2 :: nat) ^ ?n" "lx = take_bit ?n (field k q x)" "ly = take_bit ?n (field k q y)"
    have lt: "lx < H" "ly < H" by (simp_all add: h)
    have D: "(2 :: nat) ^ 2 ^ k = H + H" unfolding h using power_Suc [of "2 :: nat" ?n] by simp
    note dp = diff_parts [OF d(2) [rule_format, OF q], folded h]
    have x: "field k q x = lx + H * of_bool (bit x ?p)" and y: "field k q y = ly + H * of_bool (bit y ?p)"
      and r: "field k q r = take_bit ?n (field k q d) + H * of_bool (bit r ?p)"
      using field_parts [of k q x] field_parts [of k q y] field_parts [of k q r] low by (simp_all add: h)
    have red: "v = e mod (H + H)" if "e = v \<or> e = v + (H + H)" "v < H + H" for e v using that by auto
    show ?thesis unfolding x y r D dp(2) top dp(1) using lt
      by (cases "bit x ?p"; cases "bit y ?p"; cases "ly \<le> lx") (auto intro!: red)
  qed
  then show ?thesis using d(1) by (simp add: bitmap_word_blocks_fields_sub_def r_def)
qed

lemma blocks_select_mask_spec:
  assumes k: "k \<le> 6" and l: "\<And>i. bit l i \<Longrightarrow> 2 ^ k dvd i"
  shows "\<exists>r. bitmap_word_blocks_select_mask k l = Ok r
    \<and> (\<forall>q j. 2 ^ k * q < 64 \<longrightarrow> j < 2 ^ k \<longrightarrow> bit r (2 ^ k * q + j) \<longleftrightarrow> bit l (2 ^ k * q))"
proof -
  let ?n = "2 ^ k - 1 :: nat"
  define M where "M = push_bit ?n l"
  have B: "0 < (2 :: nat) ^ k" by simp
  have bl: "bit l (2 ^ k * q + j) \<longleftrightarrow> j = 0 \<and> bit l (2 ^ k * q)" if "j < 2 ^ k" for q j
    using l [of "2 ^ k * q + j"] mult_in_block [OF that, of q] by auto
  have bM: "bit M (2 ^ k * q + j) \<longleftrightarrow> j = ?n \<and> bit l (2 ^ k * q)" if q: "2 ^ k * q < 64" and j: "j < 2 ^ k" for q j
  proof (cases "j = ?n")
    case True
    moreover have "2 ^ k * q + j < 64" using aligned_block_in_word [OF k _ q] j by simp
    moreover have "2 ^ k * q + ?n - ?n = 2 ^ k * q" "?n \<le> 2 ^ k * q + ?n" by simp_all
    ultimately show ?thesis by (simp only: M_def bit_push_bit_iff) simp
  next
    case False
    then have j': "Suc j < 2 ^ k" using j by simp
    have "\<not> bit l (2 ^ k * q + j - ?n)" if ge: "?n \<le> 2 ^ k * q + j"
    proof -
      obtain p where "q = Suc p" using ge j' by (cases q) auto
      then have "2 ^ k * q + j - ?n = 2 ^ k * p + Suc j" using j' by simp
      then show ?thesis using bl [OF j', of p] by simp
    qed
    then show ?thesis using False by (auto simp: M_def bit_push_bit_iff)
  qed
  have fl: "field k q l = of_bool (bit l (2 ^ k * q))" for q
    by (rule bit_eqI) (auto simp: bit_field bl bit_of_bool_iff)
  have fM: "field k q M = 2 ^ ?n * of_bool (bit l (2 ^ k * q))" if "2 ^ k * q < 64" for q
  proof (rule bit_eqI)
    fix j :: nat
    show "bit (field k q M) j \<longleftrightarrow> bit (2 ^ ?n * of_bool (bit l (2 ^ k * q)) :: nat) j"
      using bM [OF that, of j] by (cases "bit l (2 ^ k * q)") (auto simp: bit_field bit_exp_iff)
  qed
  have le: "fld (2 ^ k) q (unat l) \<le> fld (2 ^ k) q (unat M)" for q
  proof (cases "2 ^ k * q < 64")
    case True
    then show ?thesis using fl [of q] fM [OF True] by (simp add: field_def)
  next
    case False
    then show ?thesis using field_out [of k q l] by (simp add: field_def)
  qed
  have ule: "unat l \<le> unat M" by (rule fld_le [OF B le])
  have fD: "field k q (M - l) = (2 ^ ?n - 1) * of_bool (bit l (2 ^ k * q))" if q: "2 ^ k * q < 64" for q
  proof -
    have "field k q (M - l) = field k q M - field k q l"
      unfolding field_def fld_diff [OF B le, symmetric] using ule by (simp only: unat_sub word_le_nat_alt)
    then show ?thesis using fl [of q] fM [OF q] by simp
  qed
  have "bit ((M - l) OR M) (2 ^ k * q + j) \<longleftrightarrow> bit l (2 ^ k * q)" if q: "2 ^ k * q < 64" and j: "j < 2 ^ k" for q j
  proof -
    have "bit (M - l) (2 ^ k * q + j) \<longleftrightarrow> bit (field k q (M - l)) j" using j by (simp add: bit_field)
    also have "\<dots> \<longleftrightarrow> j < ?n \<and> bit l (2 ^ k * q)" unfolding fD [OF q] mask_eq_exp_minus_1 [symmetric]
      by (cases "bit l (2 ^ k * q)") (simp_all add: bit_mask_iff)
    finally show ?thesis using bM [OF q j] j by (auto simp: bit_or_iff)
  qed
  then show ?thesis using ule by (simp add: bitmap_word_blocks_select_mask_def M_def Let_def word_le_nat_alt)
qed

section \<open>Strings of ones\<close>

function find_str_loop :: "nat \<Rightarrow> bitmap_word \<Rightarrow> bitmap_word" where
  "find_str_loop n w = (if 1 < n then let s = drop_bit 1 n in find_str_loop (n - s) (w AND push_bit s w) else w)"
  by pat_completeness auto
termination
  by (relation "measure fst") (auto simp: drop_bit_Suc)

declare find_str_loop.simps [simp del]

definition bitmap_word_find_str_with_min_len :: "bitmap_word \<Rightarrow> nat \<Rightarrow> nat \<Rightarrow> bitmap_word \<Rightarrow> nat option outcome" where
  "bitmap_word_find_str_with_min_len w min_str_len str_alignment_log2 anchors =
     debug_assert (str_alignment_log2 < 6) (
     debug_assert (is_aligned_pow2 (of_nat min_str_len :: 32 word) str_alignment_log2) (
     debug_assert (min_str_len < 64) (
     let w = find_str_loop min_str_len w AND push_bit (2 ^ str_alignment_log2 - 1) anchors in
     if w \<noteq> 0 then
       and_then (sub_u64 min_str_len 1) (\<lambda>l. and_then (sub_u64 (trailing_zeros w) l) (\<lambda>p. Ok (Some p)))
     else Ok None)))"

lemma find_str_loop_bit:
  assumes "0 < n"
  shows "bit (find_str_loop n w) i \<longleftrightarrow> n \<le> Suc i \<and> (\<forall>j<n. bit w (i - j))"
  using assms
proof (induction n w rule: find_str_loop.induct)
  case (1 n w)
  show ?case
  proof (cases "1 < n")
    case False
    then have "n = 1" using 1(2) by simp
    moreover from this have "find_str_loop n w = w" by (subst find_str_loop.simps) simp
    ultimately show ?thesis by simp
  next
    case True
    define s where "s = n div 2"
    have s: "0 < s" "s \<le> n - s" "drop_bit 1 n = s" using True by (auto simp: s_def drop_bit_Suc)
    have "bit (find_str_loop n w) i \<longleftrightarrow> n - s \<le> Suc i \<and> (\<forall>j<n - s. bit (w AND push_bit s w) (i - j))"
      using 1(1) [OF True s(3) [symmetric]] True s by (simp add: find_str_loop.simps [of n w])
    also have "\<dots> \<longleftrightarrow> n \<le> Suc i \<and> (\<forall>j<n. bit w (i - j))" (is "?L \<longleftrightarrow> ?R")
    proof
      assume L: ?L
      have b: "bit w (i - j)" "s \<le> i - j" "bit w (i - j - s)" if "j < n - s" for j
        using L that by (auto simp: bit_and_iff bit_push_bit_iff)
      have "n \<le> Suc i" using b(2) [of "n - s - 1"] L s True by linarith
      moreover have "bit w (i - j)" if "j < n" for j
      proof (cases "j < n - s")
        case False
        then have "j - s < n - s" "i - (j - s) - s = i - j" using that s by simp_all
        then show ?thesis using b(3) by metis
      qed (rule b(1))
      ultimately show ?R by blast
    next
      assume R: ?R
      have "bit (w AND push_bit s w) (i - j)" if "j < n - s" for j
      proof -
        have "bit w (i - j)" "bit w (i - (j + s))" "s \<le> i - j" using R that by auto
        moreover from this have "i - j < 64" using bit_imp_le_length by force
        ultimately show ?thesis by (simp add: bit_and_iff bit_push_bit_iff)
      qed
      then show ?L using R by auto
    qed
    finally show ?thesis .
  qed
qed


definition str_at :: "bitmap_word \<Rightarrow> nat \<Rightarrow> nat \<Rightarrow> nat \<Rightarrow> bool" where
  "str_at w l a p \<longleftrightarrow> 2 ^ a dvd p \<and> p + l \<le> 64 \<and> (\<forall>j<l. bit w (p + j))"

lemma find_str_spec:
  assumes l: "0 < l" "l < 64" "2 ^ a dvd l" and a: "a < 6" "is_lsbs a m"
  shows "\<exists>r. bitmap_word_find_str_with_min_len w l a m = Ok r
    \<and> (case r of None \<Rightarrow> \<forall>p. \<not> str_at w l a p | Some p \<Rightarrow> str_at w l a p \<and> (\<forall>p'<p. \<not> str_at w l a p'))"
proof -
  define v where "v = find_str_loop l w AND push_bit (2 ^ a - 1) m"
  have v: "bit v i \<longleftrightarrow> l \<le> Suc i \<and> str_at w l a (i - (l - 1))" for i
  proof (cases "l \<le> Suc i \<and> i < 64")
    case True
    let ?p = "i - (l - 1)"
    have p: "?p + l = Suc i" using True l(1) by simp
    have "bit (push_bit (2 ^ a - 1) m) i \<longleftrightarrow> 2 ^ a dvd Suc i"
    proof (cases "2 ^ a - 1 \<le> i")
      case ge: True
      then have "Suc i = (i - (2 ^ a - 1)) + 2 ^ a" by simp
      then have "2 ^ a dvd Suc i \<longleftrightarrow> 2 ^ a dvd i - (2 ^ a - 1)" by (metis dvd_add_triv_right_iff)
      moreover have "i - (2 ^ a - 1) < 64" using True by (simp only: less_imp_diff_less)
      ultimately show ?thesis using True ge a(2) by (simp only: bit_push_bit_iff is_lsbs_def) simp
    next
      case False
      then have "\<not> 2 ^ a dvd Suc i" using nat_dvd_not_less [of "Suc i" "2 ^ a"] by simp
      then show ?thesis using False by (simp add: bit_push_bit_iff)
    qed
    moreover have "2 ^ a dvd Suc i \<longleftrightarrow> 2 ^ a dvd ?p" using l(3) p by (metis dvd_add_left_iff)
    moreover have "(\<forall>j<l. bit w (i - j)) \<longleftrightarrow> (\<forall>j<l. bit w (?p + j))"
    proof -
      have "i - (l - 1 - j) = ?p + j" "?p + (l - 1 - j) = i - j" if "j < l" for j using that p by simp_all
      moreover have "l - 1 - j < l" for j using l(1) by simp
      ultimately show ?thesis by metis
    qed
    ultimately show ?thesis using True p find_str_loop_bit [OF l(1)] by (auto simp: v_def bit_and_iff str_at_def)
  next
    case False
    then show ?thesis using find_str_loop_bit [OF l(1)] l(1) by (auto simp: v_def bit_and_iff str_at_def dest: bit_imp_le_length)
  qed
  have al: "is_aligned_pow2 (of_nat l :: 32 word) a"
  proof -
    have "unat (of_nat l :: 32 word) = l" using l(2) by (simp add: unat_of_nat)
    moreover have "take_bit a l = 0" using l(3) by (simp add: take_bit_eq_mod)
    ultimately have "unat (take_bit a (of_nat l :: 32 word)) = 0" by (simp only: unsigned_take_bit_eq)
    then have "take_bit a (of_nat l :: 32 word) = 0" by (simp only: unat_eq_0)
    then show ?thesis using a(1) by (simp add: is_aligned_pow2_def trailing_bits_mask_eq_mask take_bit_eq_mask)
  qed
  show ?thesis
  proof (cases "v = 0")
    case True
    have "\<not> str_at w l a p" for p
    proof
      assume "str_at w l a p"
      then have "bit v (p + (l - 1))" using v [of "p + (l - 1)"] l(1) by simp
      then show False using True by simp
    qed
    then show ?thesis using True l a al by (simp add: bitmap_word_find_str_with_min_len_def v_def)
  next
    case False
    note tz = trailing_zeros_bit [OF False]
    define p where "p = trailing_zeros v - (l - 1)"
    have b: "l \<le> Suc (trailing_zeros v)" "str_at w l a p" using v tz(2) by (auto simp: p_def)
    have "\<not> str_at w l a p'" if "p' < p" for p'
    proof
      assume "str_at w l a p'"
      then have "bit v (p' + (l - 1))" using v [of "p' + (l - 1)"] l(1) by simp
      moreover have "p' + (l - 1) < trailing_zeros v" using that by (simp add: p_def)
      ultimately show False using tz(3) by blast
    qed
    moreover have "bitmap_word_find_str_with_min_len w l a m = Ok (Some p)"
      unfolding bitmap_word_find_str_with_min_len_def v_def [symmetric] Let_def using False l a al b(1) by (simp add: p_def)
    ultimately show ?thesis using b(2) by simp
  qed
qed

section \<open>Correctness\<close>

lemma mask_is_lsbs: "k \<le> 6 \<Longrightarrow> get_blocks_lsbs_mask k = Ok m \<Longrightarrow> is_lsbs k m"
  using blocks_lsbs_mask [of k] by auto

lemma mask_nibbles: "get_blocks_lsbs_mask 2 = Ok 0x1111111111111111"
  by code_simp

text \<open>
  C36: the least significant bit of an aligned group of \<open>2 ^ k\<close> bits is set in the result exactly if
  all bits of that group are zero, and no other bit is set.
\<close>

theorem bitmap_word_free_blocks_lsbs_correct:
  assumes "k \<le> 6" "get_blocks_lsbs_mask k = Ok m"
  shows "bit (bitmap_word_free_blocks_lsbs w k m) i \<longleftrightarrow> i < 64 \<and> 2 ^ k dvd i \<and> (\<forall>j < 2 ^ k. \<not> bit w (i + j))"
  using free_blocks_lsbs [OF assms(1) mask_is_lsbs [OF assms]] by (simp add: is_free_lsbs_def free_at_def)

theorem bitmap_word_free_blocks_lsbs_correct_witness:
  "bit (bitmap_word_free_blocks_lsbs 0xF03 2 0x1111111111111111) 4 \<and> \<not> bit (bitmap_word_free_blocks_lsbs 0xF03 2 0x1111111111111111) 8"
proof -
  have "\<not> bit (0xF03 :: bitmap_word) (4 + j)" if "j < 2 ^ 2" for j
  proof -
    have "j = 0 \<or> j = 1 \<or> j = 2 \<or> j = 3" using that by auto
    then show ?thesis by (elim disjE) simp_all
  qed
  moreover have "bit (0xF03 :: bitmap_word) (8 + 0)" by simp
  moreover have "(0 :: nat) < 2 ^ 2" by simp
  moreover have "(2 :: nat) \<le> 6" by simp
  ultimately show ?thesis
    using bitmap_word_free_blocks_lsbs_correct [OF _ mask_nibbles, of "0xF03" 4]
      bitmap_word_free_blocks_lsbs_correct [OF _ mask_nibbles, of "0xF03" 8] by (auto simp: numeral_eq_Suc)
qed

text \<open>
  C37: the packed comparison and subtraction compute field by field: the comparison sets the least
  significant bit of a field exactly if the field of the first operand is at least that of the
  second, the subtraction is the difference of the fields modulo their size, with no borrow into
  the next field, and neither subtraction of full words underflows. The documentation of
  \<open>bitmap_word_blocks_fields_geq_lsbs\<close> announces the opposite comparison, less than or equal; the code
  computes what the name of the function says and its callers rely on.
\<close>

theorem blocks_fields_correct:
  assumes "k \<le> 6" "get_blocks_lsbs_mask k = Ok m"
  shows "\<exists>r d. bitmap_word_blocks_fields_geq_lsbs x y k m = Ok r \<and> bitmap_word_blocks_fields_sub x y k m = Ok d
    \<and> (\<forall>i. bit r i \<longleftrightarrow> (\<exists>q. i = 2 ^ k * q \<and> i < 64 \<and> field k q y \<le> field k q x))
    \<and> (\<forall>q. 2 ^ k * q < 64 \<longrightarrow> field k q d = (field k q x + 2 ^ 2 ^ k - field k q y) mod 2 ^ 2 ^ k)"
  using blocks_fields_geq_spec [OF assms(1) mask_is_lsbs [OF assms], of x y]
    blocks_fields_sub_spec [OF assms(1) mask_is_lsbs [OF assms], of x y] by blast

theorem blocks_fields_correct_witness:
  "\<exists>r d. bitmap_word_blocks_fields_geq_lsbs 0x25 0x52 2 0x1111111111111111 = Ok r
    \<and> bitmap_word_blocks_fields_sub 0x25 0x52 2 0x1111111111111111 = Ok d
    \<and> (\<forall>i. bit r i \<longleftrightarrow> (\<exists>q. i = 2 ^ 2 * q \<and> i < 64 \<and> field 2 q 0x52 \<le> field 2 q 0x25))
    \<and> (\<forall>q. 2 ^ 2 * q < 64 \<longrightarrow> field 2 q d = (field 2 q 0x25 + 2 ^ 2 ^ 2 - field 2 q 0x52) mod 2 ^ 2 ^ 2)"
  by (rule blocks_fields_correct [OF _ mask_nibbles]) simp

text \<open>
  C38: the search for a string of ones of at least a given length returns the first aligned position
  where such a string starts, entirely within the word, and nothing exactly if there is none.
\<close>

theorem bitmap_word_find_str_correct:
  assumes "0 < l" "l < 64" "2 ^ a dvd l" "a < 6" "get_blocks_lsbs_mask a = Ok m"
  shows "\<exists>r. bitmap_word_find_str_with_min_len w l a m = Ok r
    \<and> (case r of
         None \<Rightarrow> \<forall>p. 2 ^ a dvd p \<and> p + l \<le> 64 \<longrightarrow> (\<exists>j<l. \<not> bit w (p + j))
       | Some p \<Rightarrow> 2 ^ a dvd p \<and> p + l \<le> 64 \<and> (\<forall>j<l. bit w (p + j))
           \<and> (\<forall>p'<p. 2 ^ a dvd p' \<longrightarrow> (\<exists>j<l. \<not> bit w (p' + j))))"
proof -
  from find_str_spec [OF assms(1-4) mask_is_lsbs [OF _ assms(5)], of w] assms(4) obtain r where
    "bitmap_word_find_str_with_min_len w l a m = Ok r"
    "case r of None \<Rightarrow> \<forall>p. \<not> str_at w l a p | Some p \<Rightarrow> str_at w l a p \<and> (\<forall>p'<p. \<not> str_at w l a p')" by auto
  then show ?thesis by (cases r) (auto simp: str_at_def)
qed

theorem bitmap_word_find_str_correct_witness:
  "\<exists>r. bitmap_word_find_str_with_min_len 0xF0F0 4 2 0x1111111111111111 = Ok r
    \<and> (case r of
         None \<Rightarrow> \<forall>p. 2 ^ 2 dvd p \<and> p + 4 \<le> 64 \<longrightarrow> (\<exists>j<4. \<not> bit (0xF0F0 :: bitmap_word) (p + j))
       | Some p \<Rightarrow> 2 ^ 2 dvd p \<and> p + 4 \<le> 64 \<and> (\<forall>j<4. bit (0xF0F0 :: bitmap_word) (p + j))
           \<and> (\<forall>p'<p. 2 ^ 2 dvd p' \<longrightarrow> (\<exists>j<4. \<not> bit (0xF0F0 :: bitmap_word) (p' + j))))"
  by (rule bitmap_word_find_str_correct [OF _ _ _ _ mask_nibbles]) simp_all

end
