(* ===== verification/Change_Tracker_Spec.thy ===== *)
theory Change_Tracker_Spec
  imports Block_Range
begin

text \<open>
  The contract of a data structure that tracks pending changes of blocks: a range that is disjoint
  from the tracked blocks can be added, which may fail for lack of memory and then leaves the
  tracked blocks alone, and a range can be dropped, which does not fail. The clients are the loops
  over sequences of ranges: dropping all of them, and adding all of them with a rollback when one
  addition fails. They are verified once against the contract.
\<close>

fun drop_all :: "('s \<Rightarrow> block_range \<Rightarrow> 's outcome) \<Rightarrow> 's \<Rightarrow> block_range list \<Rightarrow> 's outcome" where
  "drop_all drop_range s [] = Ok s"
| "drop_all drop_range s (q # qs) = and_then (drop_range s q) (\<lambda>s. drop_all drop_range s qs)"

fun add_all :: "('s \<Rightarrow> block_range \<Rightarrow> ('s \<times> (nvfs_error + unit)) outcome) \<Rightarrow> ('s \<Rightarrow> block_range \<Rightarrow> 's outcome)
    \<Rightarrow> block_range list \<Rightarrow> 's \<Rightarrow> block_range list \<Rightarrow> ('s \<times> (nvfs_error + unit)) outcome" where
  "add_all add_range drop_range added s [] = Ok (s, Inr ())"
| "add_all add_range drop_range added s (q # qs) =
     and_then (add_range s q) (\<lambda>(s, r).
     case r of
       Inl e \<Rightarrow> and_then (drop_all drop_range s added) (\<lambda>s. Ok (s, Inl e))
     | Inr _ \<Rightarrow> add_all add_range drop_range (added @ [q]) s qs)"

definition blocks_of :: "block_range list \<Rightarrow> nat set" where
  "blocks_of qs = (\<Union>q \<in> set qs. blocks q)"

fun pairwise_disjoint :: "block_range list \<Rightarrow> bool" where
  "pairwise_disjoint [] = True"
| "pairwise_disjoint (q # qs) = (blocks q \<inter> blocks_of qs = {} \<and> pairwise_disjoint qs)"

lemma blocks_of_simps [simp]:
  "blocks_of [] = {}"
  "blocks_of (q # qs) = blocks q \<union> blocks_of qs"
  "blocks_of (qs @ rs) = blocks_of qs \<union> blocks_of rs"
  by (auto simp: blocks_of_def)

locale change_tracker =
  fixes invar :: "'s \<Rightarrow> bool" and abs_blocks :: "'s \<Rightarrow> nat set"
    and add_range :: "'s \<Rightarrow> block_range \<Rightarrow> ('s \<times> (nvfs_error + unit)) outcome"
    and drop_range :: "'s \<Rightarrow> block_range \<Rightarrow> 's outcome"
  assumes add_range_law: "invar s \<Longrightarrow> range_wf q \<Longrightarrow> abs_blocks s \<inter> blocks q = {} \<Longrightarrow>
      (\<exists>s'. add_range s q = Ok (s', Inr ()) \<and> invar s' \<and> abs_blocks s' = abs_blocks s \<union> blocks q)
      \<or> (\<exists>s'. add_range s q = Ok (s', Inl MemoryAllocationFailure) \<and> invar s' \<and> abs_blocks s' = abs_blocks s)"
    and drop_range_law: "invar s \<Longrightarrow> range_wf q \<Longrightarrow>
      \<exists>s'. drop_range s q = Ok s' \<and> invar s' \<and> abs_blocks s' = abs_blocks s - blocks q"
begin

lemma drop_all_total:
  assumes "invar s" "\<forall>q \<in> set qs. range_wf q"
  shows "\<exists>s'. drop_all drop_range s qs = Ok s' \<and> invar s' \<and> abs_blocks s' = abs_blocks s - blocks_of qs"
  using assms
proof (induction qs arbitrary: s)
  case (Cons q qs)
  then obtain s' where s': "drop_range s q = Ok s'" "invar s'" "abs_blocks s' = abs_blocks s - blocks q"
    using drop_range_law [of s q] by auto
  with Cons.IH [of s'] Cons.prems(2) show ?case by (auto simp: Diff_eq)
qed simp

lemma add_all_from:
  assumes "invar s" "\<forall>q \<in> set (added @ qs). range_wf q" "abs_blocks s \<inter> blocks_of qs = {}" "pairwise_disjoint qs"
  shows "(\<exists>s'. add_all add_range drop_range added s qs = Ok (s', Inr ()) \<and> invar s' \<and> abs_blocks s' = abs_blocks s \<union> blocks_of qs)
    \<or> (\<exists>s' done_qs. add_all add_range drop_range added s qs = Ok (s', Inl MemoryAllocationFailure) \<and> invar s'
         \<and> abs_blocks s' = (abs_blocks s \<union> blocks_of done_qs) - blocks_of (added @ done_qs) \<and> set done_qs \<subseteq> set qs)"
  using assms
proof (induction qs arbitrary: s added)
  case (Cons q qs)
  have q: "range_wf q" "abs_blocks s \<inter> blocks q = {}" using Cons.prems by auto
  from add_range_law [OF Cons.prems(1) q] show ?case
  proof (elim disjE exE conjE)
    fix s' assume s': "add_range s q = Ok (s', Inr ())" "invar s'" "abs_blocks s' = abs_blocks s \<union> blocks q"
    have disj: "abs_blocks s' \<inter> blocks_of qs = {}" "pairwise_disjoint qs" using Cons.prems(3,4) s'(3) by auto
    have wf: "\<forall>r \<in> set ((added @ [q]) @ qs). range_wf r" using Cons.prems(2) by auto
    from Cons.IH [OF s'(2) wf disj] show ?thesis
    proof (elim disjE exE conjE)
      fix t assume "add_all add_range drop_range (added @ [q]) s' qs = Ok (t, Inr ())" "invar t"
        "abs_blocks t = abs_blocks s' \<union> blocks_of qs"
      then show ?thesis using s' by (intro disjI1 exI [of _ t]) auto
    next
      fix t done_qs assume t: "add_all add_range drop_range (added @ [q]) s' qs = Ok (t, Inl MemoryAllocationFailure)" "invar t"
        "abs_blocks t = (abs_blocks s' \<union> blocks_of done_qs) - blocks_of ((added @ [q]) @ done_qs)" "set done_qs \<subseteq> set qs"
      then show ?thesis using s' by (intro disjI2 exI [of _ t] exI [of _ "q # done_qs"]) auto
    qed
  next
    fix s' assume s': "add_range s q = Ok (s', Inl MemoryAllocationFailure)" "invar s'" "abs_blocks s' = abs_blocks s"
    from drop_all_total [OF s'(2), of added] Cons.prems(2) obtain t where
      "drop_all drop_range s' added = Ok t" "invar t" "abs_blocks t = abs_blocks s' - blocks_of added" by auto
    then show ?thesis using s' by (intro disjI2 exI [of _ t] exI [of _ "[]"]) auto
  qed
qed simp

lemma add_all_total:
  assumes "invar s" "\<forall>q \<in> set qs. range_wf q" "abs_blocks s \<inter> blocks_of qs = {}" "pairwise_disjoint qs"
  shows "(\<exists>s'. add_all add_range drop_range [] s qs = Ok (s', Inr ()) \<and> invar s' \<and> abs_blocks s' = abs_blocks s \<union> blocks_of qs)
    \<or> (\<exists>s'. add_all add_range drop_range [] s qs = Ok (s', Inl MemoryAllocationFailure) \<and> invar s' \<and> abs_blocks s' = abs_blocks s)"
proof -
  have "(abs_blocks s \<union> blocks_of done_qs) - blocks_of ([] @ done_qs) = abs_blocks s" if "set done_qs \<subseteq> set qs" for done_qs
  proof -
    have "blocks_of done_qs \<subseteq> blocks_of qs" using that by (auto simp: blocks_of_def)
    then show ?thesis using assms(3) by auto
  qed
  with add_all_from [of s "[]" qs] assms show ?thesis by auto
qed

end

end
