(* ===== verification/Sparse_Bitmap_Seq.thy ===== *)
theory Sparse_Bitmap_Seq
  imports Sparse_Bitmap Change_Tracker_Spec
begin

text \<open>
  The operations of the sparse allocation bitmap on sequences of blocks and of extents
  (\<open>add_blocks\<close>, \<open>remove_blocks\<close>, \<open>add_extents\<close>, \<open>remove_extents\<close> of
  \<open>sparse_bitmap.rs\<close>). The block-wise loops are instances of the loops of the contract
  \<open>change_tracker\<close>, which the bitmap fulfils. \<open>add_extents\<close> first inserts the entries of
  all extents and only then sets bits; its rollback on an error is verified for extents in
  ascending order, and shown to fail for others.
\<close>

text \<open>The loops over sequences of blocks and extents.\<close>

fun sb_unadd_blocks :: "sparse_alloc_bitmap \<Rightarrow> nat list \<Rightarrow> nat \<Rightarrow> sparse_alloc_bitmap outcome" where
  "sb_unadd_blocks sb [] block_log2 = Ok sb"
| "sb_unadd_blocks sb (b # bs) block_log2 =
     and_then (sb_remove_block_impl sb b block_log2 False) (\<lambda>sb. sb_unadd_blocks sb bs block_log2)"

fun sb_add_blocks_loop ::
  "reservation \<Rightarrow> nat list \<Rightarrow> sparse_alloc_bitmap \<Rightarrow> nat list \<Rightarrow> nat \<Rightarrow> (sparse_alloc_bitmap \<times> (nvfs_error + unit)) outcome" where
  "sb_add_blocks_loop mem done_blocks sb [] block_log2 = Ok (sb, Inr ())"
| "sb_add_blocks_loop mem done_blocks sb (b # bs) block_log2 =
     and_then (sb_add_block mem sb b block_log2) (\<lambda>(sb, r).
     case r of
       Inl e \<Rightarrow> and_then (sb_unadd_blocks sb done_blocks block_log2) (\<lambda>sb. Ok (sb, Inl e))
     | Inr _ \<Rightarrow> sb_add_blocks_loop mem (done_blocks @ [b]) sb bs block_log2)"

definition sb_add_blocks ::
  "reservation \<Rightarrow> sparse_alloc_bitmap \<Rightarrow> nat list \<Rightarrow> nat \<Rightarrow> (sparse_alloc_bitmap \<times> (nvfs_error + unit)) outcome" where
  "sb_add_blocks mem sb bs block_log2 = sb_add_blocks_loop mem [] sb bs block_log2"

fun sb_remove_blocks :: "sparse_alloc_bitmap \<Rightarrow> nat list \<Rightarrow> nat \<Rightarrow> sparse_alloc_bitmap outcome" where
  "sb_remove_blocks sb [] block_log2 = Ok sb"
| "sb_remove_blocks sb (b # bs) block_log2 =
     and_then (sb_remove_block sb b block_log2) (\<lambda>sb. sb_remove_blocks sb bs block_log2)"

fun sb_remove_extents :: "sparse_alloc_bitmap \<Rightarrow> block_range list \<Rightarrow> sparse_alloc_bitmap outcome" where
  "sb_remove_extents sb [] = Ok sb"
| "sb_remove_extents sb (q # qs) = and_then (sb_remove_range sb q True) (\<lambda>sb. sb_remove_extents sb qs)"

text \<open>Inserting the entries of all extents, with the rollback on an error, and then setting the bits.\<close>

fun prune_extents :: "sparse_alloc_bitmap \<Rightarrow> nat option \<Rightarrow> block_range list \<Rightarrow> sparse_alloc_bitmap outcome" where
  "prune_extents sb first_entry_index_hint [] = Ok sb"
| "prune_extents sb first_entry_index_hint (q # qs) =
     and_then (prune_unused_in_range sb q first_entry_index_hint False) (\<lambda>sb. prune_extents sb None qs)"

fun populate_extents ::
  "reservation \<Rightarrow> block_range list \<Rightarrow> nat option \<Rightarrow> bool \<Rightarrow> sparse_alloc_bitmap \<Rightarrow> block_range list
    \<Rightarrow> (sparse_alloc_bitmap \<times> (nvfs_error + nat option \<times> bool)) outcome" where
  "populate_extents mem done_extents hint reset_hint sb [] = Ok (sb, Inr (hint, reset_hint))"
| "populate_extents mem done_extents hint reset_hint sb (q # qs) =
     and_then (populate_missing_in_range mem sb q) (\<lambda>(sb, r).
     case r of
       Inr first_entry_index \<Rightarrow>
         (if hint = None then populate_extents mem (done_extents @ [q]) (Some first_entry_index) reset_hint sb qs
          else populate_extents mem (done_extents @ [q]) hint True sb qs)
     | Inl e \<Rightarrow> and_then (prune_extents sb hint done_extents) (\<lambda>sb. Ok (sb, Inl e)))"

fun set_extents :: "sparse_entry list \<Rightarrow> nat option \<Rightarrow> block_range list \<Rightarrow> sparse_entry list outcome" where
  "set_extents es first_entry_index_hint [] = Ok es"
| "set_extents es first_entry_index_hint (q # qs) =
     and_then (set_in_range es q first_entry_index_hint True) (\<lambda>(_, es). set_extents es None qs)"

definition sb_add_extents ::
  "reservation \<Rightarrow> sparse_alloc_bitmap \<Rightarrow> block_range list \<Rightarrow> (sparse_alloc_bitmap \<times> (nvfs_error + unit)) outcome" where
  "sb_add_extents mem sb extents =
     and_then (populate_extents mem [] None False sb extents) (\<lambda>(sb, r).
     case r of Inl e \<Rightarrow> Ok (sb, Inl e)
     | Inr (first_entry_index_hint, reset_first_entry_index_hint) \<Rightarrow>
       let first_entry_index_hint = if reset_first_entry_index_hint then None else first_entry_index_hint
       in and_then (set_extents (sb_entries sb) first_entry_index_hint extents) (\<lambda>es.
          Ok (sb\<lparr>sb_entries := es\<rparr>, Inr ())))"

section \<open>Canonical representation\<close>

lemma sb_entry_iff:
  assumes "sb_wf sb"
  shows "(i, w) \<in> set (sb_entries sb) \<longleftrightarrow> w \<noteq> 0 \<and> (\<forall>k<64. bit w k = (64 * i + k \<in> sb_blocks sb))"
proof -
  let ?es = "sb_entries sb"
  have es: "sb_sorted ?es" "\<forall>e \<in> set ?es. snd e \<noteq> 0" using assms by (simp_all add: sb_wf_def)
  have dist: "distinct (map fst ?es)" using es(1) strict_sorted_iff [of "map fst ?es"] by (simp add: sb_sorted_alt)
  have mem: "64 * i + k \<in> sb_blocks sb \<longleftrightarrow> (\<exists>v. (i, v) \<in> set ?es \<and> bit v k)" if "k < 64" for k
  proof -
    have "(64 * i + k) div 64 = i" "(64 * i + k) mod 64 = k" using that by simp_all
    then show ?thesis unfolding sb_blocks_def entry_bits_def by force
  qed
  have uniq: "v = w" if "(i, v) \<in> set ?es" "(i, w) \<in> set ?es" for v w
    using dist that unfolding distinct_map inj_on_def by fastforce
  have words: "v = w" if "\<forall>k<64. bit v k = bit w k" for v w :: bitmap_word
    using that by (intro bit_word_eqI) simp
  show ?thesis
  proof
    assume w: "(i, w) \<in> set ?es"
    then have "w \<noteq> 0" using es(2) by auto
    moreover have "bit w k = (64 * i + k \<in> sb_blocks sb)" if "k < 64" for k
      unfolding mem [OF that] using w uniq by blast
    ultimately show "w \<noteq> 0 \<and> (\<forall>k<64. bit w k = (64 * i + k \<in> sb_blocks sb))" by blast
  next
    assume w: "w \<noteq> 0 \<and> (\<forall>k<64. bit w k = (64 * i + k \<in> sb_blocks sb))"
    then obtain k where k: "k < 64" "bit w k" using words [of w 0] by auto
    then obtain v where v: "(i, v) \<in> set ?es" "bit v k" using w mem by blast
    have "bit v k = bit w k" if "k < 64" for k using w mem [OF that] v(1) uniq that by blast
    then have "v = w" by (intro words) blast
    with v(1) show "(i, w) \<in> set ?es" by simp
  qed
qed

lemma sb_canonical:
  assumes "sb_wf sb" "sb_wf sb'" "sb_blocks sb = sb_blocks sb'"
  shows "sb_entries sb = sb_entries sb'"
proof -
  let ?es = "sb_entries sb" and ?es' = "sb_entries sb'"
  have same: "set ?es = set ?es'" using sb_entry_iff [OF assms(1)] sb_entry_iff [OF assms(2)] assms(3) by auto
  have sorted: "sorted_wrt (<) (map fst ?es)" "sorted_wrt (<) (map fst ?es')"
    using assms(1,2) by (simp_all add: sb_wf_def sb_sorted_alt)
  have fst: "map fst ?es = map fst ?es'"
    by (rule strict_sorted_equal [OF sorted(2,1)]) (simp only: set_map same)
  have dist: "distinct (map fst ?es)" using sorted(1) strict_sorted_iff by blast
  have len: "length ?es = length ?es'" using fst by (metis length_map)
  show ?thesis
  proof (rule nth_equalityI [OF len])
    fix k assume k: "k < length ?es"
    have "?es ! k \<in> set ?es" using k by (rule nth_mem)
    moreover have "?es' ! k \<in> set ?es" unfolding same using k len by (intro nth_mem) simp
    moreover have "fst (?es ! k) = fst (?es' ! k)" using fst k len by (metis nth_map)
    ultimately show "?es ! k = ?es' ! k" using dist unfolding distinct_map inj_on_def by blast
  qed
qed

section \<open>Loops over blocks and extents\<close>

interpretation sb: change_tracker sb_wf sb_blocks "sb_add_extent mem" "\<lambda>sb q. sb_remove_range sb q roll"
  for mem roll
proof
  fix s q assume a: "sb_wf s" "range_wf q"
  show "\<exists>s'. sb_remove_range s q roll = Ok s' \<and> sb_wf s' \<and> sb_blocks s' = sb_blocks s - blocks q"
    using sb_remove_range_spec [OF a, of roll] by metis
  assume "sb_blocks s \<inter> blocks q = {}"
  from sb_add_extent_spec [OF a this, of mem] show "(\<exists>s'. sb_add_extent mem s q = Ok (s', Inr ()) \<and> sb_wf s' \<and> sb_blocks s' = sb_blocks s \<union> blocks q)
      \<or> (\<exists>s'. sb_add_extent mem s q = Ok (s', Inl MemoryAllocationFailure) \<and> sb_wf s' \<and> sb_blocks s' = sb_blocks s)"
    using a(1) by metis
qed

abbreviation block_at :: "nat \<Rightarrow> nat \<Rightarrow> block_range" where
  "block_at block_log2 b \<equiv> mk_range b (b + 2 ^ block_log2)"

definition block_ok :: "nat \<Rightarrow> nat \<Rightarrow> bool" where
  "block_ok block_log2 b \<longleftrightarrow> block_log2 < 64 \<and> b + 2 ^ block_log2 < u64_bound"

lemma block_range_of_Ok: "block_ok l b \<Longrightarrow> block_range_of b l = Ok (block_at l b)"
  by (simp add: block_ok_def block_range_of_def)

lemma block_at_wf: "block_ok l b \<Longrightarrow> range_wf (block_at l b)"
  by (simp add: block_ok_def range_wf_def)

lemma sb_remove_extents_eq: "sb_remove_extents sb qs = drop_all (\<lambda>sb q. sb_remove_range sb q True) sb qs"
  by (induction qs arbitrary: sb) simp_all

lemma sb_remove_blocks_eq:
  "\<forall>b \<in> set bs. block_ok l b \<Longrightarrow>
   sb_remove_blocks sb bs l = drop_all (\<lambda>sb q. sb_remove_range sb q True) sb (map (block_at l) bs)"
  by (induction bs arbitrary: sb) (simp_all add: sb_remove_block_def sb_remove_block_impl_def block_range_of_Ok)

lemma sb_unadd_blocks_eq:
  "\<forall>b \<in> set bs. block_ok l b \<Longrightarrow>
   sb_unadd_blocks sb bs l = drop_all (\<lambda>sb q. sb_remove_range sb q False) sb (map (block_at l) bs)"
  by (induction bs arbitrary: sb) (simp_all add: sb_remove_block_impl_def block_range_of_Ok)

lemma sb_add_blocks_loop_eq:
  "\<forall>b \<in> set (added @ bs). block_ok l b \<Longrightarrow>
   sb_add_blocks_loop mem added sb bs l
     = add_all (sb_add_extent mem) (\<lambda>sb q. sb_remove_range sb q False) (map (block_at l) added) sb (map (block_at l) bs)"
proof (induction bs arbitrary: sb added)
  case (Cons b bs)
  have b: "sb_add_block mem sb b l = sb_add_extent mem sb (block_at l b)"
    using Cons.prems by (simp add: sb_add_block_def block_range_of_Ok)
  have unadd: "sb_unadd_blocks t added l = drop_all (\<lambda>sb q. sb_remove_range sb q False) t (map (block_at l) added)" for t
    by (rule sb_unadd_blocks_eq) (use Cons.prems in simp)
  have "sb_add_blocks_loop mem (added @ [b]) t bs l
      = add_all (sb_add_extent mem) (\<lambda>sb q. sb_remove_range sb q False) (map (block_at l) added @ [block_at l b]) t (map (block_at l) bs)" for t
    using Cons.IH [of "added @ [b]" t] Cons.prems by simp
  then show ?case by (simp add: b unadd cong: sum.case_cong)
qed simp

text \<open>Without preparation for a rollback the reserve is an invariant as well.\<close>

interpretation sbr: change_tracker "\<lambda>sb. sb_wf sb \<and> remove_rollback_reserve_capacity sb = reserve" sb_blocks
  "sb_add_extent mem" "\<lambda>sb q. sb_remove_range sb q False"
  for mem reserve
proof
  fix s q assume a: "sb_wf s \<and> remove_rollback_reserve_capacity s = reserve" "range_wf q"
  then have w: "sb_wf s" and r: "remove_rollback_reserve_capacity s = reserve" by simp_all
  obtain s' where "sb_remove_range s q False = Ok s'" "sb_wf s'" "sb_blocks s' = sb_blocks s - blocks q"
    "remove_rollback_reserve_capacity s' = remove_rollback_reserve_capacity s"
    by (rule sb_remove_range_spec [OF w a(2), of False]) simp
  then show "\<exists>s'. sb_remove_range s q False = Ok s' \<and> (sb_wf s' \<and> remove_rollback_reserve_capacity s' = reserve)
      \<and> sb_blocks s' = sb_blocks s - blocks q" using r by auto
  assume "sb_blocks s \<inter> blocks q = {}"
  from sb_add_extent_spec [OF w a(2) this, of mem] w r
  show "(\<exists>s'. sb_add_extent mem s q = Ok (s', Inr ()) \<and> (sb_wf s' \<and> remove_rollback_reserve_capacity s' = reserve)
        \<and> sb_blocks s' = sb_blocks s \<union> blocks q)
      \<or> (\<exists>s'. sb_add_extent mem s q = Ok (s', Inl MemoryAllocationFailure)
        \<and> (sb_wf s' \<and> remove_rollback_reserve_capacity s' = reserve) \<and> sb_blocks s' = sb_blocks s)"
    by auto
qed

lemma sb_eqI:
  assumes "sb_wf sb" "sb_wf sb'" "sb_blocks sb = sb_blocks sb'"
    "remove_rollback_reserve_capacity sb = remove_rollback_reserve_capacity sb'"
  shows "sb = (sb' :: sparse_alloc_bitmap)"
  using sb_canonical [OF assms(1-3)] assms(4) by simp

theorem sb_add_blocks_spec:
  assumes sb: "sb_wf sb" and ok: "\<forall>b \<in> set bs. block_ok l b"
    and disj: "sb_blocks sb \<inter> blocks_of (map (block_at l) bs) = {}" "pairwise_disjoint (map (block_at l) bs)"
  shows "(\<exists>sb'. sb_add_blocks mem sb bs l = Ok (sb', Inr ()) \<and> sb_wf sb'
       \<and> sb_blocks sb' = sb_blocks sb \<union> blocks_of (map (block_at l) bs))
    \<or> sb_add_blocks mem sb bs l = Ok (sb, Inl MemoryAllocationFailure)"
proof -
  have eq: "sb_add_blocks mem sb bs l = add_all (sb_add_extent mem) (\<lambda>sb q. sb_remove_range sb q False) [] sb (map (block_at l) bs)"
    using sb_add_blocks_loop_eq [of "[]" bs l mem sb] ok by (simp add: sb_add_blocks_def)
  have wf: "\<forall>q \<in> set (map (block_at l) bs). range_wf q" using ok block_at_wf by auto
  from sbr.add_all_total [OF conjI [OF sb refl] wf disj, of mem] show ?thesis
    unfolding eq using sb_eqI [OF _ sb] by blast
qed

theorem sb_remove_extents_spec:
  assumes "sb_wf sb" "\<forall>q \<in> set qs. range_wf q"
  shows "\<exists>sb'. sb_remove_extents sb qs = Ok sb' \<and> sb_wf sb' \<and> sb_blocks sb' = sb_blocks sb - blocks_of qs"
  unfolding sb_remove_extents_eq by (rule sb.drop_all_total [OF assms])

theorem sb_remove_blocks_spec:
  assumes "sb_wf sb" "\<forall>b \<in> set bs. block_ok l b"
  shows "\<exists>sb'. sb_remove_blocks sb bs l = Ok sb' \<and> sb_wf sb' \<and> sb_blocks sb' = sb_blocks sb - blocks_of (map (block_at l) bs)"
  unfolding sb_remove_blocks_eq [OF assms(2)] using assms(2)
  by (intro sb.drop_all_total [OF assms(1)]) (simp add: block_at_wf)

section \<open>Adding extents\<close>

lemma split_at_card:
  assumes "sb_sorted es"
  obtains xs ys where "split_at i es xs ys" "length xs = card {e \<in> set es. fst e < i}"
proof -
  obtain xs ys where s: "split_at i es xs ys" using split_atE [OF assms] .
  have "distinct (map fst es)" using assms strict_sorted_iff [of "map fst es"] by (simp add: sb_sorted_alt)
  then have "distinct es" by (simp add: distinct_map)
  then have "distinct xs" "set xs = {e \<in> set es. fst e < i}" using s by (auto simp: split_at_def)
  then have "length xs = card {e \<in> set es. fst e < i}" using distinct_card [of xs] by simp
  with s show thesis using that by blast
qed

definition valid_hint :: "sparse_entry list \<Rightarrow> block_range \<Rightarrow> nat option \<Rightarrow> bool" where
  "valid_hint es q h \<longleftrightarrow> h = None \<or> h = Some (card {e \<in> set es. fst e < range_begin q div 64})"

lemma prune_hinted:
  assumes "sb_sorted (sb_entries sb)" "range_wf q" "valid_hint (sb_entries sb) q h"
  shows "prune_unused_in_range sb q h False = Ok (sb\<lparr>sb_entries := filter (\<lambda>e. \<not> prunable q e) (sb_entries sb)\<rparr>)"
proof -
  obtain xs ys where s: "split_at (range_begin q div 64) (sb_entries sb) xs ys"
    "length xs = card {e \<in> set (sb_entries sb). fst e < range_begin q div 64}" using split_at_card [OF assms(1)] .
  then have "h = None \<or> h = Some (length xs)" using assms(3) by (simp add: valid_hint_def)
  from prune_unused_split [OF assms(1) s(1) assms(2) this, of False] show ?thesis by simp
qed

lemma prune_extents_spec:
  assumes "sb_sorted (sb_entries sb)" "\<forall>q \<in> set qs. range_wf q" "qs = [] \<or> valid_hint (sb_entries sb) (hd qs) h"
  shows "prune_extents sb h qs = Ok (sb\<lparr>sb_entries := filter (\<lambda>e. \<forall>q \<in> set qs. \<not> prunable q e) (sb_entries sb)\<rparr>)"
  using assms
proof (induction qs arbitrary: sb h)
  case (Cons q qs)
  have "prune_unused_in_range sb q h False = Ok (sb\<lparr>sb_entries := filter (\<lambda>e. \<not> prunable q e) (sb_entries sb)\<rparr>)"
    using Cons.prems by (intro prune_hinted) simp_all
  moreover have "prune_extents (sb\<lparr>sb_entries := filter (\<lambda>e. \<not> prunable q e) (sb_entries sb)\<rparr>) None qs
      = Ok (sb\<lparr>sb_entries := filter (\<lambda>e. \<forall>q \<in> set qs. \<not> prunable q e) (filter (\<lambda>e. \<not> prunable q e) (sb_entries sb))\<rparr>)"
    using Cons.IH [of "sb\<lparr>sb_entries := filter (\<lambda>e. \<not> prunable q e) (sb_entries sb)\<rparr>" None] Cons.prems(1,2)
    by (simp add: sb_sorted_filter valid_hint_def)
  ultimately show ?case by (simp add: conj_commute)
qed simp

definition covered :: "block_range \<Rightarrow> sparse_entry list \<Rightarrow> bool" where
  "covered q es \<longleftrightarrow> (\<forall>i. in_words q i \<longrightarrow> i \<in> set (map fst es))"

lemma set_hinted:
  assumes "sb_sorted es" "range_wf q" "valid_hint es q h" "covered q es"
  obtains p es' where "set_in_range es q h True = Ok (p, es')" "map fst es' = map fst es" "entry_bits es' = entry_bits es \<union> blocks q"
proof -
  obtain xs ys where s: "split_at (range_begin q div 64) es xs ys"
    "length xs = card {e \<in> set es. fst e < range_begin q div 64}" using split_at_card [OF assms(1)] .
  then have "h = None \<or> h = Some (length xs)" using assms(3) by (simp add: valid_hint_def)
  from set_in_range_split [OF assms(1) s(1) assms(2) this, of True] obtain ys' where
    set: "set_in_range es q h True = Ok (length xs, xs @ ys')"
    and upd: "list_all2 (upd_entry (range_begin q) (range_end q) True) es (xs @ ys')" by blast
  have "{b. range_begin q \<le> b \<and> b < range_end q \<and> b div 64 \<in> set (map fst es)} = blocks q"
    using assms(4) in_words_block [of _ q] unfolding covered_def blocks_def by auto
  then have "entry_bits (xs @ ys') = entry_bits es \<union> blocks q" using upd_entries_bits [OF upd] by simp
  with set upd_entries_fst [OF upd] show thesis using that by blast
qed

lemma set_extents_spec:
  assumes "sb_sorted es" "\<forall>q \<in> set qs. range_wf q \<and> covered q es" "qs = [] \<or> valid_hint es (hd qs) h"
  shows "\<exists>es'. set_extents es h qs = Ok es' \<and> map fst es' = map fst es \<and> entry_bits es' = entry_bits es \<union> blocks_of qs"
  using assms
proof (induction qs arbitrary: es h)
  case (Cons q qs)
  obtain p es' where es': "set_in_range es q h True = Ok (p, es')" "map fst es' = map fst es"
    "entry_bits es' = entry_bits es \<union> blocks q"
    using set_hinted [of es q h] Cons.prems by auto
  have "sb_sorted es'" using sb_sorted_fst [OF es'(2)] Cons.prems(1) by simp
  moreover have "covered r es'" if "r \<in> set qs" for r using Cons.prems(2) that es'(2) by (simp add: covered_def)
  ultimately obtain es'' where "set_extents es' None qs = Ok es''" "map fst es'' = map fst es'"
    "entry_bits es'' = entry_bits es' \<union> blocks_of qs"
    using Cons.IH [of es' None] Cons.prems(2) by (auto simp: valid_hint_def)
  with es' show ?case by auto
qed simp

lemma entry_nonzero:
  assumes "sb_sorted es" "e \<in> set es" "b \<in> entry_bits es" "b div 64 = fst e"
  shows "snd e \<noteq> 0"
proof -
  have "distinct (map fst es)" using assms(1) strict_sorted_iff [of "map fst es"] by (simp add: sb_sorted_alt)
  moreover obtain e' where "e' \<in> set es" "fst e' = fst e" "bit (snd e') (b mod 64)"
    using assms(3,4) unfolding entry_bits_def by auto
  ultimately have "bit (snd e) (b mod 64)" using assms(2) unfolding distinct_map inj_on_def by blast
  then show ?thesis by auto
qed

text \<open>The state after the entries of the extents \<open>D\<close> have been inserted and before bits are set.\<close>

definition pop_inv :: "sparse_alloc_bitmap \<Rightarrow> block_range list \<Rightarrow> sparse_alloc_bitmap \<Rightarrow> bool" where
  "pop_inv sb0 D sb \<longleftrightarrow> sb_sorted (sb_entries sb) \<and> entry_bits (sb_entries sb) = sb_blocks sb0
     \<and> (\<forall>e \<in> set (sb_entries sb). snd e \<noteq> 0 \<or> (\<exists>d \<in> set D. in_words d (fst e)))
     \<and> (\<forall>d \<in> set D. covered d (sb_entries sb))
     \<and> remove_rollback_reserve_capacity sb = remove_rollback_reserve_capacity sb0"

definition below :: "nat \<Rightarrow> sparse_entry list \<Rightarrow> sparse_entry set" where
  "below i es = {e \<in> set es. fst e < i}"

lemma valid_hint_below: "valid_hint es q h \<longleftrightarrow> h = None \<or> h = Some (card (below (range_begin q div 64) es))"
  by (simp add: valid_hint_def below_def)

lemma pop_entry_block:
  assumes "pop_inv sb0 D sb" "\<forall>d \<in> set D. range_wf d" "e \<in> set (sb_entries sb)"
  shows "\<exists>b. b \<in> sb_blocks sb0 \<union> blocks_of D \<and> b div 64 = fst e"
proof (cases "snd e = 0")
  case True
  then obtain d where "d \<in> set D" "in_words d (fst e)" using assms(1,3) unfolding pop_inv_def by blast
  moreover from this obtain b where "b \<in> blocks d" "b div 64 = fst e"
    using in_words_some_block [of d "fst e"] assms(2) by metis
  ultimately show ?thesis unfolding blocks_of_def by blast
next
  case False
  obtain b where "b \<in> entry_bits (sb_entries sb)" "b div 64 = fst e" by (rule entry_has_block [OF assms(3) False])
  moreover have "entry_bits (sb_entries sb) = sb_blocks sb0" using assms(1) by (simp add: pop_inv_def)
  ultimately show ?thesis by auto
qed

lemma words_geq: "range_wf q \<Longrightarrow> in_words q i \<Longrightarrow> range_begin q div 64 \<le> i"
  by (simp add: in_words_iff)

lemma populated_below:
  assumes "populated q es es'" "range_wf q" "i \<le> range_begin q div 64"
  shows "below i es' = below i es"
proof -
  have "\<not> k < i" if "in_words q k" for k using words_geq [OF assms(2) that] assms(3) by linarith
  then show ?thesis using assms(1) unfolding populated_def below_def by auto
qed

lemma covered_mono: "covered q es \<Longrightarrow> fst ` set es \<subseteq> fst ` set es' \<Longrightarrow> covered q es'"
  unfolding covered_def by auto

lemma populated_inv:
  assumes "pop_inv sb0 D sb" "populated q (sb_entries sb) es'"
  shows "pop_inv sb0 (D @ [q]) (sb\<lparr>sb_entries := es'\<rparr>)"
proof -
  have set: "set es' = set (sb_entries sb) \<union> (\<lambda>k. (k, 0)) ` ({k. in_words q k} - fst ` set (sb_entries sb))"
    using assms(2) by (simp add: populated_def)
  have "sb_sorted es'" using assms(2) by (simp add: populated_def)
  moreover have "entry_bits es' = sb_blocks sb0" using populated_bits [OF assms(2)] assms(1) by (simp add: pop_inv_def)
  moreover have "snd e \<noteq> 0 \<or> (\<exists>d \<in> set (D @ [q]). in_words d (fst e))" if "e \<in> set es'" for e
    using that assms(1) unfolding set pop_inv_def by auto
  moreover have "covered d es'" if "d \<in> set (D @ [q])" for d
  proof (cases "d = q")
    case True
    then show ?thesis using populated_covers [OF assms(2)] by (simp add: covered_def)
  next
    case False
    then have "covered d (sb_entries sb)" using that assms(1) by (simp add: pop_inv_def)
    then show ?thesis by (rule covered_mono) (use set in auto)
  qed
  ultimately show ?thesis using assms(1) unfolding pop_inv_def by simp
qed

lemma populate_step:
  assumes inv: "pop_inv sb0 D sb" and wf: "\<forall>d \<in> set D. range_wf d" and q: "range_wf q"
    and disj: "sb_blocks sb0 \<inter> blocks q = {}" "blocks_of D \<inter> blocks q = {}"
  shows "populate_missing_in_range mem sb q
       = Ok (sb\<lparr>sb_entries := filter (\<lambda>e. \<not> prunable q e) (sb_entries sb)\<rparr>, Inl MemoryAllocationFailure)
       \<and> \<not> (\<forall>l m. mem l m)
    \<or> (\<exists>es'. populate_missing_in_range mem sb q
         = Ok (sb\<lparr>sb_entries := es'\<rparr>, Inr (card (below (range_begin q div 64) (sb_entries sb))))
       \<and> populated q (sb_entries sb) es')"
proof -
  let ?es = "sb_entries sb"
  have es: "sb_sorted ?es" using inv by (simp add: pop_inv_def)
  obtain xs ys where s: "split_at (range_begin q div 64) ?es xs ys" "length xs = card (below (range_begin q div 64) ?es)"
    using split_at_card [OF es, of "range_begin q div 64"] unfolding below_def .
  have ni: "no_interior q ?es"
    by (rule disjoint_no_interior [where B = "sb_blocks sb0 \<union> blocks_of D"]) (use pop_entry_block [OF inv wf] disj in auto)
  show ?thesis
    using populate_success [OF es s(1) q ni, of mem] no_overflow [OF es q] unfolding s(2) by (meson linorder_not_less)
qed

lemma pop_abort:
  assumes inv: "pop_inv sb0 D sb" and sb0: "sb_wf sb0" and wf: "\<forall>d \<in> set D. range_wf d" and q: "range_wf q"
    and hint: "D = [] \<or> valid_hint (sb_entries sb) (hd D) h \<and> range_begin (hd D) div 64 \<le> range_begin q div 64"
  shows "prune_extents (sb\<lparr>sb_entries := filter (\<lambda>e. \<not> prunable q e) (sb_entries sb)\<rparr>) h D = Ok sb0"
proof -
  let ?es = "filter (\<lambda>e. \<not> prunable q e) (sb_entries sb)"
  have "sb_sorted ?es" using inv sb_sorted_filter by (simp add: pop_inv_def)
  moreover have "D = [] \<or> valid_hint ?es (hd D) h"
  proof (cases D)
    case (Cons d D')
    have "\<not> prunable q e" if "fst e < range_begin d div 64" for e
      using words_geq [OF q, of "fst e"] that hint Cons by (auto simp: prunable_def)
    then have "below (range_begin d div 64) ?es = below (range_begin d div 64) (sb_entries sb)"
      unfolding below_def by auto
    then show ?thesis using hint Cons by (simp add: valid_hint_below)
  qed simp
  ultimately have run: "prune_extents (sb\<lparr>sb_entries := ?es\<rparr>) h D
      = Ok (sb\<lparr>sb_entries := filter (\<lambda>e. \<forall>q \<in> set D. \<not> prunable q e) ?es\<rparr>)" (is "_ = Ok ?sb'")
    using prune_extents_spec [of "sb\<lparr>sb_entries := ?es\<rparr>" D h] wf by simp
  have nz: "snd e \<noteq> 0" if "e \<in> set (sb_entries ?sb')" for e
    using that inv unfolding pop_inv_def by (auto simp: prunable_def)
  have "sb_wf ?sb'" unfolding sb_wf_def
    using inv nz by (auto simp: pop_inv_def intro!: sb_sorted_filter)
  moreover have "sb_blocks ?sb' = sb_blocks sb0"
  proof -
    have "sb_blocks ?sb' = entry_bits (filter (\<lambda>e. \<forall>q \<in> set D. \<not> prunable q e) ?es)" by (simp add: sb_blocks_def)
    also have "\<dots> = entry_bits ?es" by (rule entry_bits_filter) (auto simp: prunable_def)
    also have "\<dots> = entry_bits (sb_entries sb)" by (rule entry_bits_filter) (simp add: prunable_def)
    also have "\<dots> = sb_blocks sb0" using inv by (simp add: pop_inv_def)
    finally show ?thesis .
  qed
  ultimately have "?sb' = sb0" using inv by (intro sb_eqI [OF _ sb0]) (simp_all add: pop_inv_def)
  with run show ?thesis by simp
qed


definition ascending :: "block_range list \<Rightarrow> bool" where
  "ascending qs \<longleftrightarrow> sorted (map range_begin qs)"

lemma populate_extents_spec:
  assumes "pop_inv sb0 D sb" "sb_wf sb0" "\<forall>d \<in> set (D @ qs). range_wf d"
    "sb_blocks sb0 \<inter> blocks_of qs = {}" "blocks_of D \<inter> blocks_of qs = {}" "pairwise_disjoint qs"
    "h = None \<longleftrightarrow> D = []" "reset \<longleftrightarrow> 2 \<le> length D"
    "ascending (D @ qs) \<or> length D = 1 \<Longrightarrow> D = [] \<or> valid_hint (sb_entries sb) (hd D) h"
  shows "(\<exists>sb' h' reset'. populate_extents mem D h reset sb qs = Ok (sb', Inr (h', reset')) \<and> pop_inv sb0 (D @ qs) sb'
       \<and> (D @ qs = [] \<or> valid_hint (sb_entries sb') (hd (D @ qs)) (if reset' then None else h')))
    \<or> \<not> (\<forall>l m. mem l m) \<and> (ascending (D @ qs) \<longrightarrow> populate_extents mem D h reset sb qs = Ok (sb0, Inl MemoryAllocationFailure))"
  using assms
proof (induction qs arbitrary: sb D h reset)
  case Nil
  have "D = [] \<or> valid_hint (sb_entries sb) (hd D) (if reset then None else h)"
  proof (cases "reset \<or> D = []")
    case True
    then show ?thesis by (auto simp: valid_hint_def)
  next
    case False
    then have "length D = 1" using Nil.prems(8) by (cases D) (auto simp: Suc_le_eq)
    then show ?thesis using Nil.prems(9) False by simp
  qed
  then show ?case using Nil.prems(1) by simp
next
  case (Cons q qs)
  have q: "range_wf q" "\<forall>d \<in> set D. range_wf d" "sb_blocks sb0 \<inter> blocks q = {}" "blocks_of D \<inter> blocks q = {}"
    using Cons.prems(3-5) by auto
  have asc: "range_begin (hd D) div 64 \<le> range_begin q div 64" if "ascending (D @ q # qs)" "D \<noteq> []"
    using that by (cases D) (auto simp: ascending_def intro: div_le_mono)
  from populate_step [OF Cons.prems(1) q(2,1,3,4), of mem] show ?case
  proof (elim disjE exE conjE)
    assume fail: "populate_missing_in_range mem sb q
        = Ok (sb\<lparr>sb_entries := filter (\<lambda>e. \<not> prunable q e) (sb_entries sb)\<rparr>, Inl MemoryAllocationFailure)"
      "\<not> (\<forall>l m. mem l m)"
    have "populate_extents mem D h reset sb (q # qs) = Ok (sb0, Inl MemoryAllocationFailure)" if "ascending (D @ q # qs)"
    proof -
      have "D = [] \<or> valid_hint (sb_entries sb) (hd D) h \<and> range_begin (hd D) div 64 \<le> range_begin q div 64"
        using Cons.prems(9) asc that by blast
      from pop_abort [OF Cons.prems(1,2) q(2,1) this] fail(1) show ?thesis by simp
    qed
    with fail(2) show ?thesis by blast
  next
    fix es' assume okay: "populate_missing_in_range mem sb q
        = Ok (sb\<lparr>sb_entries := es'\<rparr>, Inr (card (below (range_begin q div 64) (sb_entries sb))))"
      and pop: "populated q (sb_entries sb) es'"
    define h' where "h' = (if D = [] then Some (card (below (range_begin q div 64) (sb_entries sb))) else h)"
    have run: "populate_extents mem D h reset sb (q # qs)
        = populate_extents mem (D @ [q]) h' (2 \<le> length (D @ [q])) (sb\<lparr>sb_entries := es'\<rparr>) qs"
      using okay Cons.prems(7,8) by (cases D) (auto simp: h'_def)
    have hint: "D @ [q] = [] \<or> valid_hint (sb_entries (sb\<lparr>sb_entries := es'\<rparr>)) (hd (D @ [q])) h'"
      if a: "ascending ((D @ [q]) @ qs) \<or> length (D @ [q]) = 1"
    proof (cases D)
      case Nil
      then show ?thesis using populated_below [OF pop q(1) order_refl] by (simp add: valid_hint_below h'_def)
    next
      case (Cons d D')
      then have "ascending (D @ q # qs)" using a by simp
      then show ?thesis using Cons Cons.prems(9) populated_below [OF pop q(1) asc] by (simp add: valid_hint_below h'_def)
    qed
    have 1: "\<forall>d \<in> set ((D @ [q]) @ qs). range_wf d" "sb_blocks sb0 \<inter> blocks_of qs = {}"
      "blocks_of (D @ [q]) \<inter> blocks_of qs = {}" "pairwise_disjoint qs" "h' = None \<longleftrightarrow> D @ [q] = []"
      using Cons.prems(3-7) by (auto simp: h'_def)
    from Cons.IH [OF populated_inv [OF Cons.prems(1) pop] Cons.prems(2) 1 refl hint] show ?thesis unfolding run by simp
  qed
qed

theorem sb_add_extents_spec:
  assumes sb: "sb_wf sb" and wf: "\<forall>q \<in> set qs. range_wf q"
    and disj: "sb_blocks sb \<inter> blocks_of qs = {}" "pairwise_disjoint qs"
  shows "(\<exists>sb'. sb_add_extents mem sb qs = Ok (sb', Inr ()) \<and> sb_wf sb' \<and> sb_blocks sb' = sb_blocks sb \<union> blocks_of qs
       \<and> remove_rollback_reserve_capacity sb' = remove_rollback_reserve_capacity sb)
    \<or> \<not> (\<forall>l m. mem l m) \<and> (ascending qs \<longrightarrow> sb_add_extents mem sb qs = Ok (sb, Inl MemoryAllocationFailure))"
proof -
  have inv: "pop_inv sb [] sb" using sb by (simp add: pop_inv_def sb_wf_def sb_blocks_def)
  from populate_extents_spec [OF inv sb, of qs None False mem] wf disj
  consider (fail) "\<not> (\<forall>l m. mem l m)" "ascending qs \<longrightarrow> populate_extents mem [] None False sb qs = Ok (sb, Inl MemoryAllocationFailure)"
    | (okay) sb' h reset where "populate_extents mem [] None False sb qs = Ok (sb', Inr (h, reset))" "pop_inv sb qs sb'"
      "qs = [] \<or> valid_hint (sb_entries sb') (hd qs) (if reset then None else h)"
    by auto
  then show ?thesis
  proof cases
    case fail
    then show ?thesis by (auto simp: sb_add_extents_def)
  next
    case okay
    have sorted: "sb_sorted (sb_entries sb')" and bits: "entry_bits (sb_entries sb') = sb_blocks sb"
      and cov: "\<forall>q \<in> set qs. range_wf q \<and> covered q (sb_entries sb')" using okay(2) wf by (simp_all add: pop_inv_def)
    from set_extents_spec [OF sorted cov okay(3)] obtain es' where es':
      "set_extents (sb_entries sb') (if reset then None else h) qs = Ok es'" "map fst es' = map fst (sb_entries sb')"
      "entry_bits es' = sb_blocks sb \<union> blocks_of qs" unfolding bits by blast
    have sorted': "sb_sorted es'" using sb_sorted_fst [OF es'(2)] sorted by simp
    have "snd e \<noteq> 0" if "e \<in> set es'" for e
    proof -
      have "fst e \<in> set (map fst (sb_entries sb'))" using that unfolding es'(2) [symmetric] by simp
      then obtain e0 where "e0 \<in> set (sb_entries sb')" "fst e0 = fst e" by auto
      with pop_entry_block [OF okay(2) wf, of e0] obtain b where "b \<in> entry_bits es'" "b div 64 = fst e"
        unfolding es'(3) by auto
      then show ?thesis by (rule entry_nonzero [OF sorted' that])
    qed
    then have "sb_wf (sb'\<lparr>sb_entries := es'\<rparr>)" using sorted' by (simp add: sb_wf_def)
    moreover have "sb_add_extents mem sb qs = Ok (sb'\<lparr>sb_entries := es'\<rparr>, Inr ())"
      using okay(1) es'(1) by (simp add: sb_add_extents_def Let_def)
    ultimately show ?thesis using es'(3) okay(2) by (simp add: sb_blocks_def [of "sb'\<lparr>sb_entries := es'\<rparr>"] pop_inv_def)
  qed
qed

section \<open>Properties\<close>

text \<open>
  Adding an extent that is disjoint from the tracked blocks adds exactly its blocks and keeps
  the invariant, or fails for lack of memory and leaves the bitmap as it was.
\<close>

theorem sb_add_extent_correct:
  assumes "sb_wf sb" "range_wf q" "sb_blocks sb \<inter> blocks q = {}"
  shows "(\<exists>sb'. sb_add_extent mem sb q = Ok (sb', Inr ()) \<and> sb_wf sb' \<and> sb_blocks sb' = sb_blocks sb \<union> blocks q
       \<and> remove_rollback_reserve_capacity sb' = remove_rollback_reserve_capacity sb)
    \<or> sb_add_extent mem sb q = Ok (sb, Inl MemoryAllocationFailure) \<and> \<not> (\<forall>l m. mem l m)"
  using assms by (rule sb_add_extent_spec)

lemma one_entry_wf: "sb_wf \<lparr>sb_entries = [(5, 1)], remove_rollback_reserve_capacity = 0\<rparr>"
  by (simp add: sb_wf_def)

lemma one_entry_blocks: "sb_blocks \<lparr>sb_entries = [(5, 1)], remove_rollback_reserve_capacity = 0\<rparr> = {320}"
  by (auto simp: sb_blocks_def entry_bits_def bit_1_iff)

theorem sb_add_extent_correct_witness:
  "\<exists>sb'. sb_add_extent (\<lambda>l n. True) \<lparr>sb_entries = [(5, 1)], remove_rollback_reserve_capacity = 0\<rparr> (mk_range 100 320)
     = Ok (sb', Inr ()) \<and> sb_wf sb' \<and> sb_blocks sb' = {100..320}"
proof -
  have "range_wf (mk_range 100 320)" "blocks (mk_range 100 320) = {100..<320}" by (simp_all add: range_wf_def blocks_def)
  with sb_add_extent_correct [OF one_entry_wf, of "mk_range 100 320" "\<lambda>l n. True"]
  obtain sb' where "sb_add_extent (\<lambda>l n. True) \<lparr>sb_entries = [(5, 1)], remove_rollback_reserve_capacity = 0\<rparr> (mk_range 100 320)
     = Ok (sb', Inr ())" "sb_wf sb'" "sb_blocks sb' = {320} \<union> {100..<320}" unfolding one_entry_blocks by auto
  moreover have "{320} \<union> {100..<320} = {100..320::nat}" by auto
  ultimately show ?thesis by metis
qed

text \<open>
  Removing an extent removes exactly its blocks, keeps the invariant, does not fail, and puts as
  many entries into the rollback reserve as it takes out of the vector.
\<close>

theorem sb_remove_extent_correct:
  assumes "sb_wf sb" "range_wf q"
  shows "\<exists>sb'. sb_remove_extent sb q = Ok sb' \<and> sb_wf sb' \<and> sb_blocks sb' = sb_blocks sb - blocks q
    \<and> remove_rollback_reserve_capacity sb' + length (sb_entries sb')
      = remove_rollback_reserve_capacity sb + length (sb_entries sb)"
proof -
  obtain sb' where "sb_remove_range sb q True = Ok sb'" "sb_wf sb'" "sb_blocks sb' = sb_blocks sb - blocks q"
    "remove_rollback_reserve_capacity sb' = remove_rollback_reserve_capacity sb + (length (sb_entries sb) - length (sb_entries sb'))"
    "length (sb_entries sb') \<le> length (sb_entries sb)"
    by (rule sb_remove_range_spec [OF assms, of True]) simp
  then show ?thesis by (auto simp: sb_remove_extent_def)
qed

theorem sb_remove_extent_correct_witness:
  "\<exists>sb'. sb_remove_extent \<lparr>sb_entries = [(5, 1)], remove_rollback_reserve_capacity = 0\<rparr> (mk_range 300 330) = Ok sb'
    \<and> sb_wf sb' \<and> sb_blocks sb' = {}
    \<and> remove_rollback_reserve_capacity sb' + length (sb_entries sb') = 1"
proof -
  have "range_wf (mk_range 300 330)" by (simp add: range_wf_def)
  moreover have "{320} - blocks (mk_range 300 330) = {}" by (simp add: blocks_def)
  ultimately show ?thesis using sb_remove_extent_correct [OF one_entry_wf, of "mk_range 300 330"] unfolding one_entry_blocks by simp
qed

text \<open>
  Adding a sequence of disjoint blocks adds all of them, or adds none: when one addition fails for
  lack of memory, the rollback gives back the bitmap as it was.
\<close>

theorem sb_add_blocks_correct:
  assumes "sb_wf sb" "\<forall>b \<in> set bs. block_ok l b"
    "sb_blocks sb \<inter> blocks_of (map (block_at l) bs) = {}" "pairwise_disjoint (map (block_at l) bs)"
  shows "(\<exists>sb'. sb_add_blocks mem sb bs l = Ok (sb', Inr ()) \<and> sb_wf sb'
       \<and> sb_blocks sb' = sb_blocks sb \<union> blocks_of (map (block_at l) bs))
    \<or> sb_add_blocks mem sb bs l = Ok (sb, Inl MemoryAllocationFailure)"
  using assms by (rule sb_add_blocks_spec)

theorem sb_add_blocks_correct_witness:
  "(\<exists>sb'. sb_add_blocks (\<lambda>l n. l < 2) \<lparr>sb_entries = [(5, 1)], remove_rollback_reserve_capacity = 0\<rparr> [64, 0] 2 = Ok (sb', Inr ())
       \<and> sb_wf sb' \<and> sb_blocks sb' = {320} \<union> blocks_of (map (block_at 2) [64, 0]))
    \<or> sb_add_blocks (\<lambda>l n. l < 2) \<lparr>sb_entries = [(5, 1)], remove_rollback_reserve_capacity = 0\<rparr> [64, 0] 2
      = Ok (\<lparr>sb_entries = [(5, 1)], remove_rollback_reserve_capacity = 0\<rparr>, Inl MemoryAllocationFailure)"
proof -
  have "\<forall>b \<in> set [64, 0]. block_ok 2 b" by (simp add: block_ok_def)
  moreover have "{320} \<inter> blocks_of (map (block_at 2) [64, 0]) = {}" "pairwise_disjoint (map (block_at 2) [64, 0])"
    by (simp_all add: blocks_def)
  ultimately show ?thesis
    using sb_add_blocks_correct [OF one_entry_wf, of "[64, 0]" 2 "\<lambda>l n. l < 2"] unfolding one_entry_blocks by blast
qed

text \<open>
  C22: adding a sequence of extents that are pairwise disjoint and none of whose blocks is in the bitmap
  yet adds all their blocks unless a reservation of memory fails; when one fails and the extents are in
  ascending order, the rollback gives back the bitmap as it was. An extent over blocks that are set
  already is not covered and may panic (\<open>sb_add_extent_interior\<close>).
\<close>

theorem sb_add_extents_correct:
  assumes "sb_wf sb" "\<forall>q \<in> set qs. range_wf q" "sb_blocks sb \<inter> blocks_of qs = {}" "pairwise_disjoint qs"
  shows "(\<exists>sb'. sb_add_extents mem sb qs = Ok (sb', Inr ()) \<and> sb_wf sb' \<and> sb_blocks sb' = sb_blocks sb \<union> blocks_of qs
       \<and> remove_rollback_reserve_capacity sb' = remove_rollback_reserve_capacity sb)
    \<or> \<not> (\<forall>l m. mem l m) \<and> (ascending qs \<longrightarrow> sb_add_extents mem sb qs = Ok (sb, Inl MemoryAllocationFailure))"
  using assms by (rule sb_add_extents_spec)

theorem sb_add_extents_correct_witness:
  "\<exists>sb'. sb_add_extents (\<lambda>l n. True) \<lparr>sb_entries = [(5, 1)], remove_rollback_reserve_capacity = 0\<rparr>
      [mk_range 330 340, mk_range 60 70] = Ok (sb', Inr ()) \<and> sb_wf sb' \<and> sb_blocks sb' = {320} \<union> ({330..<340} \<union> {60..<70})"
proof -
  let ?qs = "[mk_range 330 340, mk_range 60 70]"
  have "\<forall>q \<in> set ?qs. range_wf q" by (simp add: range_wf_def)
  moreover have b: "blocks_of ?qs = {330..<340} \<union> {60..<70}" by (simp add: blocks_def)
  moreover have "{320} \<inter> blocks_of ?qs = {}" unfolding b by simp
  moreover have "pairwise_disjoint ?qs" by (simp add: blocks_def)
  ultimately show ?thesis
    using sb_add_extents_correct [OF one_entry_wf, of ?qs "\<lambda>l n. True"] unfolding one_entry_blocks by auto
qed

subsection \<open>Evaluation on two inputs outside of the conditions\<close>

lemmas sb_eval = sb_add_extents_def sb_add_extent_def populate_missing_in_range_def bitmap_words_of_range_def
  block_count_def find_entry_position_def partition_point_def prune_unused_in_range_def entry_position_def
  vec_get_def set_in_range_def drop_bit_eq_div push_bit_eq_mult Let_def sub_u64_def add_u64_def debug_assert_def
  mk_range_def prune_batch_def sb_new_def set_bits_in_word_def trailing_bits_mask_def

lemma zero_entries_rec [simp]:
  "zero_entries i 0 = []"
  "zero_entries i (Suc n) = (i, 0) # zero_entries (Suc i) n"
  "zero_entries i (numeral m) = (i, 0) # zero_entries (Suc i) (pred_numeral m)"
proof -
  show rec: "zero_entries i (Suc n) = (i, 0) # zero_entries (Suc i) n" for i n
    by (simp add: zero_entries_def upt_conv_Cons map_Suc_upt [symmetric] del: upt_Suc)
  show "zero_entries i (numeral m) = (i, 0) # zero_entries (Suc i) (pred_numeral m)"
    by (simp add: numeral_eq_Suc rec)
qed (simp add: zero_entries_def)

text \<open>
  the rollback of \<open>add_extents\<close> uses the position of the first extent's entry also after an
  extent with a smaller begin has moved it: with three disjoint extents that are not in ascending
  order, of which the third cannot get its memory, the assertion on the position fails instead of
  an error being returned.
\<close>

theorem sb_add_extents_unordered:
  "sb_add_extents (\<lambda>l n. l < 2) sb_new [mk_range 128 129, mk_range 0 1, mk_range 320 321] = Panic"
  by (simp add: sb_eval)

text \<open>
  A run of \<open>add_extent\<close> over an entry that lies inside of the extent: the entry with index 5 is passed
  without advancing the word index, a second entry with the same index is inserted, and the
  operation panics.
\<close>

theorem sb_add_extent_interior:
  "sb_add_extent (\<lambda>l n. True) \<lparr>sb_entries = [(5, 1)], remove_rollback_reserve_capacity = 0\<rparr> (mk_range 192 512) = Panic"
  by (simp add: sb_eval)

end
