(* ===== verification/Sparse_Bitmap_Diff.thy ===== *)
theory Sparse_Bitmap_Diff
  imports Alloc_Bitmap Sparse_Bitmap_Seq
begin

text \<open>
  The two operations of the sparse allocation bitmap that filter all of its entries:
  \<open>clear_redundant\<close>, which drops pending changes that a base bitmap already has, and
  \<open>subtract\<close>. Both postpone the removal of entries: \<open>remove_begin\<close> is the start of a run
  of cleared entries before the current one, which is drained when the next entry is kept.
\<close>

section \<open>Postponed removals\<close>

definition drain_removed :: "sparse_entry list \<Rightarrow> nat \<Rightarrow> nat option \<Rightarrow> (sparse_entry list \<times> nat) outcome" where
  "drain_removed es entry_index remove_begin =
     (case remove_begin of
        None \<Rightarrow> Ok (es, entry_index)
      | Some b \<Rightarrow> and_then (vec_drain es b entry_index) (\<lambda>es. Ok (es, b)))"

lemma drain_removed_length:
  "drain_removed es i rb = Ok (es', i') \<Longrightarrow> length es' - i' = length es - i"
  by (auto simp: drain_removed_def outcome_simps split: option.splits)

section \<open>Redundant changes\<close>

function clear_loop :: "bitmap_word list \<Rightarrow> bitmap_word \<Rightarrow> sparse_entry list \<Rightarrow> nat \<Rightarrow> nat option \<Rightarrow> sparse_entry list outcome" where
  "clear_loop base invert_mask es entry_index remove_begin =
     (if entry_index < length es then
        let entry = es ! entry_index;
            alloc_bitmap_word = if fst entry < length base then base ! fst entry else 0;
            word = snd entry AND (alloc_bitmap_word XOR invert_mask);
            es = es[entry_index := (fst entry, word)]
        in if word \<noteq> 0 then
             and_then (drain_removed es entry_index remove_begin) (\<lambda>(es, entry_index).
             clear_loop base invert_mask es (entry_index + 1) None)
           else
             clear_loop base invert_mask es (entry_index + 1)
               (case remove_begin of Some b \<Rightarrow> Some b | None \<Rightarrow> Some entry_index)
      else Ok (case remove_begin of Some b \<Rightarrow> take b es | None \<Rightarrow> es))"
  by pat_completeness auto
termination
  by (relation "measure (\<lambda>(base, msk, es, i, rb). length es - i)") (auto dest!: drain_removed_length)

declare clear_loop.simps [simp del]

definition clear_redundant :: "sparse_alloc_bitmap \<Rightarrow> alloc_bitmap \<Rightarrow> bool \<Rightarrow> sparse_alloc_bitmap outcome" where
  "clear_redundant sb ab is_free =
     (let sb = reset_remove_rollback sb;
          alloc_bitmap_word_invert_mask = - (1 - of_bool is_free) :: bitmap_word
      in and_then (clear_loop (bitmap ab) alloc_bitmap_word_invert_mask (sb_entries sb) 0 None) (\<lambda>es.
         Ok (sb\<lparr>sb_entries := es\<rparr>)))"

section \<open>Difference\<close>

text \<open>
  The conditions of the inner loops exclude each other, and each of them is entered from the head of
  the outer loop; a step of any of them is a step of the recursion.
\<close>

function subtract_loop :: "sparse_entry list \<Rightarrow> sparse_entry list \<Rightarrow> nat \<Rightarrow> nat \<Rightarrow> nat option \<Rightarrow> sparse_entry list outcome" where
  "subtract_loop es other i j remove_begin =
     debug_assert (i < length es)
     (debug_assert (j < length other)
     (if fst (es ! i) < fst (other ! j) then
        and_then (drain_removed es i remove_begin) (\<lambda>(es, i).
        if i + 1 = length es then Ok es else subtract_loop es other (i + 1) j None)
      else if fst (es ! i) > fst (other ! j) then
        if j + 1 = length other then and_then (drain_removed es i remove_begin) (\<lambda>(es, i). Ok es)
        else subtract_loop es other i (j + 1) remove_begin
      else
        let word = snd (es ! i) AND NOT (snd (other ! j));
            es = es[i := (fst (es ! i), word)]
        in and_then (if word = 0 then Ok (es, i, case remove_begin of None \<Rightarrow> Some i | Some b \<Rightarrow> Some b)
                     else and_then (drain_removed es i remove_begin) (\<lambda>(es, i). Ok (es, i, None))) (\<lambda>(es, i, remove_begin).
           if i + 1 = length es \<or> j + 1 = length other
           then and_then (drain_removed es (i + 1) remove_begin) (\<lambda>(es, i). Ok es)
           else subtract_loop es other (i + 1) (j + 1) remove_begin)))"
  by pat_completeness auto
termination
proof (relation "measure (\<lambda>(es, os, i, j, rb). length es - i + (length os - j))", goal_cases)
  case (2 es other i j rb p es' i')
  then show ?case using drain_removed_length [of es i rb es' i'] by auto
next
  case (4 es other i j rb word es1 p es' r i' rb')
  then have "length es' - i' = length es - i"
    using drain_removed_length [of es1 i rb] by (auto simp: outcome_simps split: if_splits prod.splits)
  with 4 show ?case by auto
qed auto

declare subtract_loop.simps [simp del]

definition sb_subtract :: "sparse_alloc_bitmap \<Rightarrow> sparse_alloc_bitmap \<Rightarrow> sparse_alloc_bitmap outcome" where
  "sb_subtract sb other =
     (let sb = reset_remove_rollback sb in
      if sb_entries sb = [] \<or> sb_entries other = [] then Ok sb
      else and_then (subtract_loop (sb_entries sb) (sb_entries other) 0 0 None) (\<lambda>es. Ok (sb\<lparr>sb_entries := es\<rparr>)))"

section \<open>The runs of removed entries\<close>

definition removal_state :: "sparse_entry list \<Rightarrow> sparse_entry list \<Rightarrow> nat option \<Rightarrow> bool" where
  "removal_state kept removed remove_begin \<longleftrightarrow> remove_begin = (if removed = [] then None else Some (length kept))"

lemma removal_state_None [simp]: "removal_state kept [] None"
  by (simp add: removal_state_def)

lemma drain_removal_state:
  assumes "removal_state kept removed rb"
  shows "drain_removed (kept @ removed @ es) (length kept + length removed) rb = Ok (kept @ es, length kept)"
  using assms by (simp add: drain_removed_def removal_state_def)

lemma removal_state_extend:
  assumes "removal_state kept removed rb"
  shows "removal_state kept (removed @ [e]) (case rb of Some b \<Rightarrow> Some b | None \<Rightarrow> Some (length kept + length removed))"
  using assms by (simp add: removal_state_def)

section \<open>Redundant changes\<close>

definition mask_entry :: "bitmap_word list \<Rightarrow> bitmap_word \<Rightarrow> sparse_entry \<Rightarrow> sparse_entry" where
  "mask_entry base msk e = (fst e, snd e AND ((if fst e < length base then base ! fst e else 0) XOR msk))"

lemma clear_loop_spec:
  assumes "removal_state kept removed rb"
  shows "clear_loop base msk (kept @ removed @ es) (length kept + length removed) rb
     = Ok (kept @ filter (\<lambda>e. snd e \<noteq> 0) (map (mask_entry base msk) es))"
  using assms
proof (induction es arbitrary: kept removed rb)
  case Nil
  then show ?case by (subst clear_loop.simps) (simp add: removal_state_def)
next
  case (Cons e es)
  let ?e = "mask_entry base msk e"
  let ?i = "length kept + length removed" and ?es = "kept @ removed @ e # es"
  have nth: "?es ! ?i = e" "?i < length ?es" by (simp_all add: nth_append)
  have upd: "?es[?i := x] = kept @ removed @ x # es" for x by (simp add: list_update_append)
  show ?case
  proof (cases "snd ?e = 0")
    case True
    have "clear_loop base msk ?es ?i rb
        = clear_loop base msk (kept @ (removed @ [?e]) @ es) (length kept + length (removed @ [?e]))
            (case rb of Some b \<Rightarrow> Some b | None \<Rightarrow> Some ?i)"
      using True nth(2) unfolding clear_loop.simps [of base msk ?es ?i rb] Let_def nth(1) upd
      by (simp add: mask_entry_def)
    also have "\<dots> = Ok (kept @ filter (\<lambda>e. snd e \<noteq> 0) (map (mask_entry base msk) es))"
      by (rule Cons.IH [OF removal_state_extend [OF Cons.prems]])
    finally show ?thesis using True by simp
  next
    case False
    have "drain_removed (kept @ removed @ ?e # es) ?i rb = Ok (kept @ ?e # es, length kept)"
      by (rule drain_removal_state [OF Cons.prems])
    then have "clear_loop base msk ?es ?i rb = clear_loop base msk ((kept @ [?e]) @ [] @ es) (length (kept @ [?e]) + length ([] :: sparse_entry list)) None"
      using False nth(2) unfolding clear_loop.simps [of base msk ?es ?i rb] Let_def nth(1) upd
      by (simp add: mask_entry_def)
    also have "\<dots> = Ok ((kept @ [?e]) @ filter (\<lambda>e. snd e \<noteq> 0) (map (mask_entry base msk) es))"
      by (rule Cons.IH) simp
    finally show ?thesis using False by simp
  qed
qed

section \<open>Difference\<close>

definition word_at :: "sparse_entry list \<Rightarrow> nat \<Rightarrow> bitmap_word" where
  "word_at es i = (case map_of es i of None \<Rightarrow> 0 | Some w \<Rightarrow> w)"

definition subtract_entry :: "sparse_entry list \<Rightarrow> sparse_entry \<Rightarrow> sparse_entry" where
  "subtract_entry other e = (fst e, snd e AND NOT (word_at other (fst e)))"

definition subtract_all :: "sparse_entry list \<Rightarrow> sparse_entry list \<Rightarrow> sparse_entry list" where
  "subtract_all other es = filter (\<lambda>e. snd e \<noteq> 0) (map (subtract_entry other) es)"

lemma subtract_all_simps [simp]:
  "subtract_all other [] = []"
  "subtract_all other (e # es) = (if snd (subtract_entry other e) = 0 then subtract_all other es
     else subtract_entry other e # subtract_all other es)"
  by (simp_all add: subtract_all_def)

lemma word_at_below: "\<forall>x \<in> set es. k < fst x \<Longrightarrow> word_at es k = 0"
  by (fastforce simp: word_at_def split: option.splits dest: map_of_SomeD)

lemma subtract_entry_below: "\<forall>x \<in> set other. fst e < fst x \<Longrightarrow> subtract_entry other e = e"
  by (simp add: subtract_entry_def word_at_below)

lemma subtract_all_below:
  assumes "\<forall>e \<in> set es. snd e \<noteq> 0" "\<forall>e \<in> set es. fst o1 < fst e"
  shows "subtract_all (o1 # os) es = subtract_all os es"
proof -
  have "subtract_entry (o1 # os) e = subtract_entry os e" if "e \<in> set es" for e
    using assms(2) that by (auto simp: subtract_entry_def word_at_def)
  then show ?thesis unfolding subtract_all_def by (simp cong: map_cong)
qed

lemma subtract_all_Nil: "\<forall>e \<in> set es. snd e \<noteq> 0 \<Longrightarrow> subtract_all [] es = es"
  by (induction es) (simp_all add: subtract_entry_def word_at_def)

lemma subtract_loop_spec:
  assumes "removal_state kept removed rb" "sb_sorted es" "es \<noteq> []" "\<forall>e \<in> set es. snd e \<noteq> 0"
    "sb_sorted (drop j other)" "j < length other"
  shows "subtract_loop (kept @ removed @ es) other (length kept + length removed) j rb
     = Ok (kept @ subtract_all (drop j other) es)"
  using assms
proof (induction "length es + (length other - j)" arbitrary: kept removed rb es j rule: less_induct)
  case less
  obtain e es' where es: "es = e # es'" using less.prems(3) by (cases es) auto
  obtain o1 os where os: "drop j other = o1 # os" using less.prems(6) by (cases "drop j other") auto
  have o1: "other ! j = o1" "drop (j + 1) other = os" using os less.prems(6)
    by (metis nth_via_drop, metis Suc_eq_plus1 drop_Suc list.sel(3) tl_drop)
  have last: "j + 1 = length other \<longleftrightarrow> os = []" using o1(2) less.prems(6) by auto
  let ?i = "length kept + length removed" and ?es = "kept @ removed @ e # es'"
  have nth: "?es ! ?i = e" "?i < length ?es" by (simp_all add: nth_append)
  have upd: "?es[?i := x] = kept @ removed @ x # es'" for x by (simp add: list_update_append)
  have fin: "?i + 1 = length ?es \<longleftrightarrow> es' = []" by simp
  note loop = subtract_loop.simps [of ?es other ?i j rb, unfolded Let_def nth(1) o1(1) upd]
  have sorted: "\<forall>x \<in> set es'. fst e < fst x" "sb_sorted es'" "\<forall>x \<in> set es'. snd x \<noteq> 0" "snd e \<noteq> 0"
    using less.prems(2,4) es by simp_all
  have osorted: "\<forall>x \<in> set os. fst o1 < fst x" "sb_sorted os" using less.prems(5) os by simp_all
  have dr: "drain_removed (kept @ removed @ x) ?i rb = Ok (kept @ x, length kept)" for x
    by (rule drain_removal_state [OF less.prems(1)])
  consider (lt) "fst e < fst o1" | (gt) "fst o1 < fst e" | (eq) "fst e = fst o1" by linarith
  then have "subtract_loop ?es other ?i j rb = Ok (kept @ subtract_all (o1 # os) (e # es'))"
  proof cases
    case lt
    have e: "subtract_entry (o1 # os) e = e" using lt osorted(1) by (intro subtract_entry_below) auto
    show ?thesis
    proof (cases "es' = []")
      case True
      then show ?thesis using loop lt nth(2) less.prems(6) dr e sorted(4) by simp
    next
      case False
      have "subtract_loop ?es other ?i j rb = subtract_loop ((kept @ [e]) @ [] @ es') other (length (kept @ [e]) + length ([] :: sparse_entry list)) j None"
        using loop lt nth(2) less.prems(6) dr False by simp
      also have "\<dots> = Ok ((kept @ [e]) @ subtract_all (drop j other) es')"
        using False less.prems(5,6) sorted es by (intro less.hyps) simp_all
      finally show ?thesis using os e sorted(4) by simp
    qed
  next
    case gt
    have below: "subtract_all (o1 # os) (e # es') = subtract_all os (e # es')"
      using gt sorted by (intro subtract_all_below) auto
    show ?thesis
    proof (cases "os = []")
      case True
      then show ?thesis using loop gt nth(2) less.prems(6) dr last below subtract_all_Nil [of "e # es'"] sorted by simp
    next
      case False
      have "subtract_loop ?es other ?i j rb = subtract_loop ?es other ?i (j + 1) rb"
        using loop gt nth(2) less.prems(6) last False by simp
      also have "\<dots> = Ok (kept @ subtract_all (drop (j + 1) other) (e # es'))"
        using False less.prems osorted sorted es o1(2) last by (intro less.hyps) auto
      finally show ?thesis using o1(2) below by simp
    qed
  next
    case eq
    let ?w = "snd e AND NOT (snd o1)"
    have e: "subtract_entry (o1 # os) e = (fst e, ?w)" using eq by (simp add: subtract_entry_def word_at_def)
    have tail: "subtract_all (o1 # os) es' = subtract_all os es'" using eq sorted by (intro subtract_all_below) auto
    define kept' removed' rb' where "kept' = (if ?w = 0 then kept else kept @ [(fst e, ?w)])"
      and "removed' = (if ?w = 0 then removed @ [(fst e, ?w)] else [])"
      and "rb' = (if ?w = 0 then (case rb of None \<Rightarrow> Some ?i | Some b \<Rightarrow> Some b) else None)"
    have st: "removal_state kept' removed' rb'"
      using less.prems(1) by (auto simp: kept'_def removed'_def rb'_def removal_state_def)
    have step: "subtract_loop ?es other ?i j rb =
        (if es' = [] \<or> os = [] then and_then (drain_removed (kept' @ removed' @ es') (length kept' + length removed') rb') (\<lambda>(es, i). Ok es)
         else subtract_loop (kept' @ removed' @ es') other (length kept' + length removed') (j + 1) rb')"
      using loop eq nth(2) less.prems(6) last dr [of "(fst e, ?w) # es'"]
      by (cases "?w = 0") (simp_all add: kept'_def removed'_def rb'_def)
    have res: "kept @ subtract_all (o1 # os) (e # es') = kept' @ subtract_all os es'"
      using e tail by (simp add: kept'_def)
    show ?thesis
    proof (cases "es' = [] \<or> os = []")
      case True
      then have "subtract_all os es' = es'" using subtract_all_Nil sorted(3) by auto
      then show ?thesis using step True drain_removal_state [OF st, of es'] res by simp
    next
      case False
      have "subtract_loop (kept' @ removed' @ es') other (length kept' + length removed') (j + 1) rb'
          = Ok (kept' @ subtract_all (drop (j + 1) other) es')"
        using False sorted osorted o1(2) last less.prems(6) es by (intro less.hyps [OF _ st]) auto
      then show ?thesis using step False res o1(2) by simp
    qed
  qed
  then show ?case unfolding es os .
qed

section \<open>Properties\<close>

lemma word_at_bit:
  assumes "sb_sorted es"
  shows "bit (word_at es (b div 64)) (b mod 64) \<longleftrightarrow> b \<in> entry_bits es"
  using assms
proof (induction es)
  case (Cons e es)
  have "b \<notin> entry_bits es" if "fst e = b div 64" using Cons.prems that by (auto simp: entry_bits_def)
  moreover have "word_at (e # es) (b div 64) = (if fst e = b div 64 then snd e else word_at es (b div 64))"
    by (cases e) (simp add: word_at_def)
  ultimately show ?case using Cons by (auto simp: entry_bits_Cons)
qed (simp add: word_at_def)

lemma filtered_entries:
  assumes "sb_sorted es" "\<And>e. fst (f e) = fst e"
  shows "sb_sorted (filter (\<lambda>e. snd e \<noteq> 0) (map f es))"
    "b \<in> entry_bits (filter (\<lambda>e. snd e \<noteq> 0) (map f es)) \<longleftrightarrow> (\<exists>e \<in> set es. fst e = b div 64 \<and> bit (snd (f e)) (b mod 64))"
proof -
  have "map fst (map f es) = map fst es" using assms(2) by simp
  from sb_sorted_fst [OF this] assms(1) show "sb_sorted (filter (\<lambda>e. snd e \<noteq> 0) (map f es))" by (intro sb_sorted_filter) simp
  have "entry_bits (filter (\<lambda>e. snd e \<noteq> 0) (map f es)) = entry_bits (map f es)" by (rule entry_bits_filter) simp
  then show "b \<in> entry_bits (filter (\<lambda>e. snd e \<noteq> 0) (map f es)) \<longleftrightarrow> (\<exists>e \<in> set es. fst e = b div 64 \<and> bit (snd (f e)) (b mod 64))"
    using assms(2) by (simp add: entry_bits_def)
qed

text \<open>
  subtracting a sparse bitmap removes exactly the blocks of the other one, keeps the invariant and
  resets the rollback reserve.
\<close>

theorem sb_subtract_correct:
  assumes "sb_wf sb" "sb_wf other"
  shows "\<exists>sb'. sb_subtract sb other = Ok sb' \<and> sb_wf sb' \<and> sb_blocks sb' = sb_blocks sb - sb_blocks other
    \<and> remove_rollback_reserve_capacity sb' = 0"
proof (cases "sb_entries sb = [] \<or> sb_entries other = []")
  case True
  then have "sb_blocks sb - sb_blocks other = sb_blocks sb" by (auto simp: sb_blocks_def)
  then show ?thesis using True assms(1) by (simp add: sb_subtract_def reset_remove_rollback_def sb_wf_def sb_blocks_def)
next
  case False
  let ?es = "sb_entries sb" and ?os = "sb_entries other"
  have w: "sb_sorted ?es" "\<forall>e \<in> set ?es. snd e \<noteq> 0" "sb_sorted ?os" using assms by (simp_all add: sb_wf_def)
  have "subtract_loop ?es ?os 0 0 None = Ok (subtract_all ?os ?es)"
    using subtract_loop_spec [of "[]" "[]" None ?es 0 ?os] w False by simp
  then have run: "sb_subtract sb other = Ok (sb\<lparr>sb_entries := subtract_all ?os ?es, remove_rollback_reserve_capacity := 0\<rparr>)"
    using False by (simp add: sb_subtract_def reset_remove_rollback_def)
  have f: "fst (subtract_entry ?os e) = fst e" for e by (simp add: subtract_entry_def)
  have "b \<in> entry_bits (subtract_all ?os ?es) \<longleftrightarrow> b \<in> entry_bits ?es - entry_bits ?os" for b
  proof -
    have "b \<in> entry_bits (subtract_all ?os ?es) \<longleftrightarrow> (\<exists>e \<in> set ?es. fst e = b div 64 \<and> bit (snd (subtract_entry ?os e)) (b mod 64))"
      unfolding subtract_all_def by (rule filtered_entries(2) [OF w(1) f])
    also have "\<dots> \<longleftrightarrow> (\<exists>e \<in> set ?es. fst e = b div 64 \<and> bit (snd e) (b mod 64) \<and> \<not> bit (word_at ?os (b div 64)) (b mod 64))"
      by (auto simp: subtract_entry_def bit_simps)
    also have "\<dots> \<longleftrightarrow> b \<in> entry_bits ?es - entry_bits ?os" unfolding word_at_bit [OF w(3)] by (auto simp: entry_bits_def)
    finally show ?thesis .
  qed
  moreover have "sb_sorted (subtract_all ?os ?es)" unfolding subtract_all_def by (rule filtered_entries(1) [OF w(1) f])
  moreover have "\<forall>e \<in> set (subtract_all ?os ?es). snd e \<noteq> 0" by (simp add: subtract_all_def)
  ultimately show ?thesis using run by (auto simp: sb_wf_def sb_blocks_def)
qed

lemma difference_example_wf:
  "sb_wf \<lparr>sb_entries = [(0, 5), (2, 1)], remove_rollback_reserve_capacity = 0\<rparr>"
  "sb_wf \<lparr>sb_entries = [(1, 9), (2, 1)], remove_rollback_reserve_capacity = 0\<rparr>"
  by (simp_all add: sb_wf_def)

theorem sb_subtract_correct_witness:
  "\<exists>sb'. sb_subtract \<lparr>sb_entries = [(0, 5), (2, 1)], remove_rollback_reserve_capacity = 0\<rparr>
      \<lparr>sb_entries = [(1, 9), (2, 1)], remove_rollback_reserve_capacity = 0\<rparr> = Ok sb' \<and> sb_wf sb'
    \<and> sb_blocks sb' = sb_blocks \<lparr>sb_entries = [(0, 5), (2, 1)], remove_rollback_reserve_capacity = 0\<rparr>
        - sb_blocks \<lparr>sb_entries = [(1, 9), (2, 1)], remove_rollback_reserve_capacity = 0\<rparr>
    \<and> remove_rollback_reserve_capacity sb' = 0"
  using difference_example_wf by (rule sb_subtract_correct)

text \<open>
  Clearing redundant changes keeps exactly the pending deallocations of blocks that are allocated
  in the base bitmap, or the pending allocations of blocks that are free in it, where blocks beyond
  the end of the base bitmap count as free.
\<close>

theorem clear_redundant_correct:
  assumes "sb_wf sb"
  shows "\<exists>sb'. clear_redundant sb ab is_free = Ok sb' \<and> sb_wf sb'
    \<and> sb_blocks sb' = (if is_free then sb_blocks sb \<inter> ab_blocks ab else sb_blocks sb - ab_blocks ab)
    \<and> remove_rollback_reserve_capacity sb' = 0"
proof -
  let ?es = "sb_entries sb"
  define msk :: bitmap_word where "msk = - (1 - of_bool is_free)"
  let ?m = "mask_entry (bitmap ab) msk"
  let ?es' = "filter (\<lambda>e. snd e \<noteq> 0) (map ?m ?es)"
  have w: "sb_sorted ?es" using assms by (simp add: sb_wf_def)
  have "clear_loop (bitmap ab) msk ?es 0 None = Ok ?es'"
    using clear_loop_spec [of "[]" "[]" None "bitmap ab" msk ?es] by simp
  then have run: "clear_redundant sb ab is_free = Ok (sb\<lparr>sb_entries := ?es', remove_rollback_reserve_capacity := 0\<rparr>)"
    by (simp add: clear_redundant_def reset_remove_rollback_def msk_def Let_def)
  have f: "fst (?m e) = fst e" for e by (simp add: mask_entry_def)
  have mbit: "bit msk k \<longleftrightarrow> \<not> is_free" if "k < 64" for k using that by (simp add: msk_def bit_simps)
  have "b \<in> entry_bits ?es' \<longleftrightarrow> b \<in> entry_bits ?es \<and> (b \<in> ab_blocks ab \<longleftrightarrow> is_free)" for b
  proof -
    have k: "b mod 64 < 64" by simp
    have "b \<in> entry_bits ?es' \<longleftrightarrow> (\<exists>e \<in> set ?es. fst e = b div 64 \<and> bit (snd (?m e)) (b mod 64))"
      by (rule filtered_entries(2) [OF w f])
    also have "\<dots> \<longleftrightarrow> (\<exists>e \<in> set ?es. fst e = b div 64 \<and> bit (snd e) (b mod 64) \<and> (b \<in> ab_blocks ab \<longleftrightarrow> is_free))"
      using k mbit [OF k] by (auto simp: mask_entry_def ab_blocks_def dense_bits_def bit_simps)
    also have "\<dots> \<longleftrightarrow> b \<in> entry_bits ?es \<and> (b \<in> ab_blocks ab \<longleftrightarrow> is_free)" by (auto simp: entry_bits_def)
    finally show ?thesis .
  qed
  then have "entry_bits ?es' = (if is_free then sb_blocks sb \<inter> ab_blocks ab else sb_blocks sb - ab_blocks ab)"
    by (auto simp: sb_blocks_def)
  moreover have "sb_sorted ?es'" by (rule filtered_entries(1) [OF w f])
  ultimately show ?thesis using run by (auto simp: sb_wf_def sb_blocks_def)
qed

theorem clear_redundant_correct_witness:
  "\<exists>sb'. clear_redundant \<lparr>sb_entries = [(0, 5), (2, 1)], remove_rollback_reserve_capacity = 0\<rparr> \<lparr>bitmap = [4]\<rparr> False = Ok sb' \<and> sb_wf sb'
    \<and> sb_blocks sb' = sb_blocks \<lparr>sb_entries = [(0, 5), (2, 1)], remove_rollback_reserve_capacity = 0\<rparr> - ab_blocks \<lparr>bitmap = [4]\<rparr>
    \<and> remove_rollback_reserve_capacity sb' = 0"
  using clear_redundant_correct [OF difference_example_wf(1), of "\<lparr>bitmap = [4]\<rparr>" False] by simp

end
