(* ===== verification/Iterator_Spec.thy ===== *)
theory Iterator_Spec
  imports Rust_Prelude
begin

text \<open>
  The contract of an iterator: a step function on its state, an invariant, and the list of items it
  has still to yield. The client is a loop that takes a number of items.
\<close>

fun take_items :: "('s \<Rightarrow> ('a option \<times> 's) outcome) \<Rightarrow> nat \<Rightarrow> 's \<Rightarrow> 'a list outcome" where
  "take_items next_item 0 s = Ok []"
| "take_items next_item (Suc n) s =
     and_then (next_item s) (\<lambda>(item, s).
     case item of
       None \<Rightarrow> Ok []
     | Some a \<Rightarrow> and_then (take_items next_item n s) (\<lambda>items. Ok (a # items)))"

locale list_iterator =
  fixes invar :: "'s \<Rightarrow> bool" and items :: "'s \<Rightarrow> 'a list" and next_item :: "'s \<Rightarrow> ('a option \<times> 's) outcome"
  assumes next_Nil: "invar s \<Longrightarrow> items s = [] \<Longrightarrow> \<exists>s'. next_item s = Ok (None, s') \<and> invar s' \<and> items s' = []"
    and next_Cons: "invar s \<Longrightarrow> items s = a # as \<Longrightarrow> \<exists>s'. next_item s = Ok (Some a, s') \<and> invar s' \<and> items s' = as"
begin

lemma next_total:
  assumes "invar s"
  shows "\<exists>s'. next_item s = Ok (case items s of [] \<Rightarrow> None | a # _ \<Rightarrow> Some a, s') \<and> invar s' \<and> items s' = tl (items s)"
  using next_Nil [OF assms] next_Cons [OF assms] by (cases "items s") auto

lemma take_items_eq: "invar s \<Longrightarrow> take_items next_item n s = Ok (take n (items s))"
proof (induction n arbitrary: s)
  case (Suc n)
  then show ?case using next_Nil [OF Suc.prems] next_Cons [OF Suc.prems] by (cases "items s") auto
qed simp

lemma take_items_all:
  assumes "invar s" "length (items s) \<le> n"
  shows "take_items next_item n s = Ok (items s)"
  using take_items_eq [OF assms(1), of n] assms(2) by simp

end

end
