(* ===== verification/Sparse_Bitmap_Union.thy ===== *)
theory Sparse_Bitmap_Union
  imports Sparse_Bitmap_Diff Iterator_Spec
begin

text \<open>
  The view of several sparse allocation bitmaps as their union (\<open>SparseAllocBitmapUnion\<close> and
  \<open>SparseAllocBitmapUnionWordIterator\<close> of \<open>sparse_bitmap.rs\<close>): an iterator that merges the
  sorted entries of all bitmaps. It fulfils the contract \<open>list_iterator\<close> for the list of the
  merged words.
\<close>

section \<open>The union of sparse bitmaps\<close>

record union_iter =
  union_bitmaps :: "sparse_alloc_bitmap list"
  next_sparse_entry_indices :: "nat option list"

definition union_iter_new :: "sparse_alloc_bitmap list \<Rightarrow> union_iter" where
  "union_iter_new bitmaps =
     \<lparr>union_bitmaps = bitmaps,
      next_sparse_entry_indices = map (\<lambda>sb. if sb_entries sb \<noteq> [] then Some 0 else None) bitmaps\<rparr>"

definition position_from :: "sparse_alloc_bitmap \<Rightarrow> nat \<Rightarrow> nat option" where
  "position_from sb bitmap_word_index =
     (case find_entry_position (sb_entries sb) bitmap_word_index of
        Inr p \<Rightarrow> Some p
      | Inl p \<Rightarrow> if p \<noteq> length (sb_entries sb) then Some p else None)"

definition union_iter_new_at :: "sparse_alloc_bitmap list \<Rightarrow> nat \<Rightarrow> union_iter" where
  "union_iter_new_at bitmaps bitmap_word_index_begin =
     \<lparr>union_bitmaps = bitmaps,
      next_sparse_entry_indices = map (\<lambda>sb. position_from sb bitmap_word_index_begin) bitmaps\<rparr>"

definition goto_position :: "nat \<Rightarrow> sparse_alloc_bitmap \<Rightarrow> nat option \<Rightarrow> nat option outcome" where
  "goto_position bitmap_word_index sb index =
     (case index of
        Some p \<Rightarrow>
          and_then (vec_get (sb_entries sb) p) (\<lambda>e.
          if fst e = bitmap_word_index then Ok (Some p)
          else if fst e + 1 = bitmap_word_index then
            Ok (if p + 1 \<noteq> length (sb_entries sb) then Some (p + 1) else None)
          else Ok (position_from sb bitmap_word_index))
      | None \<Rightarrow> Ok (position_from sb bitmap_word_index))"

fun goto_positions :: "nat \<Rightarrow> sparse_alloc_bitmap list \<Rightarrow> nat option list \<Rightarrow> nat option list outcome" where
  "goto_positions bitmap_word_index (sb # sbs) (i # is) =
     and_then (goto_position bitmap_word_index sb i) (\<lambda>i.
     and_then (goto_positions bitmap_word_index sbs is) (\<lambda>is. Ok (i # is)))"
| "goto_positions bitmap_word_index sbs is = Ok is"

definition union_iter_goto :: "union_iter \<Rightarrow> nat \<Rightarrow> union_iter outcome" where
  "union_iter_goto it bitmap_word_index =
     and_then (goto_positions bitmap_word_index (union_bitmaps it) (next_sparse_entry_indices it)) (\<lambda>is.
     Ok (it\<lparr>next_sparse_entry_indices := is\<rparr>))"

text \<open>The first bitmap with an entry left, and the scan of the bitmaps after it.\<close>

fun first_position :: "nat \<Rightarrow> nat option list \<Rightarrow> (nat \<times> nat) option" where
  "first_position i [] = None"
| "first_position i (Some p # is) = Some (i, p)"
| "first_position i (None # is) = first_position (i + 1) is"

fun union_scan :: "nat \<Rightarrow> nat \<times> nat \<times> bitmap_word \<Rightarrow> sparse_alloc_bitmap list \<Rightarrow> nat option list \<Rightarrow> (nat \<times> nat \<times> bitmap_word) outcome" where
  "union_scan j (i, next_bitmap_word_index, bitmap_word) (sb # sbs) (Some p # is) =
     and_then (vec_get (sb_entries sb) p) (\<lambda>e.
     if fst e < next_bitmap_word_index then union_scan (j + 1) (j, fst e, snd e) sbs is
     else if fst e = next_bitmap_word_index then
       union_scan (j + 1) (i, next_bitmap_word_index, bitmap_word OR snd e) sbs is
     else union_scan (j + 1) (i, next_bitmap_word_index, bitmap_word) sbs is)"
| "union_scan j acc (sb # sbs) (None # is) = union_scan (j + 1) acc sbs is"
| "union_scan j acc sbs is = Ok acc"

definition advance_position :: "nat \<Rightarrow> sparse_alloc_bitmap \<Rightarrow> nat option \<Rightarrow> nat option outcome" where
  "advance_position next_bitmap_word_index sb index =
     (case index of
        Some p \<Rightarrow>
          and_then (vec_get (sb_entries sb) p) (\<lambda>e.
          if fst e = next_bitmap_word_index then Ok (if p + 1 \<noteq> length (sb_entries sb) then Some (p + 1) else None)
          else Ok (Some p))
      | None \<Rightarrow> Ok None)"

fun union_advance :: "nat \<Rightarrow> nat \<Rightarrow> sparse_alloc_bitmap list \<Rightarrow> nat option list \<Rightarrow> nat option list outcome" where
  "union_advance n next_bitmap_word_index (sb # sbs) (i # is) =
     (if n = 0 then
        and_then (advance_position next_bitmap_word_index sb i) (\<lambda>i.
        and_then (union_advance 0 next_bitmap_word_index sbs is) (\<lambda>is. Ok (i # is)))
      else and_then (union_advance (n - 1) next_bitmap_word_index sbs is) (\<lambda>is. Ok (i # is)))"
| "union_advance n next_bitmap_word_index sbs is = Ok is"

definition union_iter_next :: "union_iter \<Rightarrow> (sparse_entry option \<times> union_iter) outcome" where
  "union_iter_next it =
     (if union_bitmaps it = [] then Ok (None, it)
      else case first_position 0 (next_sparse_entry_indices it) of
        None \<Rightarrow> Ok (None, it)
      | Some (i, p) \<Rightarrow>
        and_then (vec_get (union_bitmaps it) i) (\<lambda>sb.
        and_then (vec_get (sb_entries sb) p) (\<lambda>e.
        and_then (union_scan (i + 1) (i, fst e, snd e) (drop (i + 1) (union_bitmaps it))
                    (drop (i + 1) (next_sparse_entry_indices it))) (\<lambda>(i, next_bitmap_word_index, bitmap_word).
        and_then (union_advance i next_bitmap_word_index (union_bitmaps it) (next_sparse_entry_indices it)) (\<lambda>is.
        Ok (Some (next_bitmap_word_index, bitmap_word), it\<lparr>next_sparse_entry_indices := is\<rparr>))))))"

section \<open>Merging sorted lists of entries\<close>

definition keys_of :: "sparse_entry list list \<Rightarrow> nat set" where
  "keys_of rs = (\<Union>r \<in> set rs. fst ` set r)"

definition or_words :: "sparse_entry list list \<Rightarrow> nat \<Rightarrow> bitmap_word" where
  "or_words rs k = foldr (\<lambda>r w. word_at r k OR w) rs 0"

definition merged :: "sparse_entry list list \<Rightarrow> sparse_entry list" where
  "merged rs = map (\<lambda>k. (k, or_words rs k)) (sorted_list_of_set (keys_of rs))"

fun head_ge :: "nat \<Rightarrow> sparse_entry list \<Rightarrow> bool" where
  "head_ge k [] = True"
| "head_ge k (e # es) = (k \<le> fst e)"

fun head_is :: "nat \<Rightarrow> sparse_entry list \<Rightarrow> bool" where
  "head_is k [] = False"
| "head_is k (e # es) = (fst e = k)"

fun head_word :: "nat \<Rightarrow> sparse_entry list \<Rightarrow> bitmap_word" where
  "head_word k [] = 0"
| "head_word k (e # es) = (if fst e = k then snd e else 0)"

fun advance :: "nat \<Rightarrow> sparse_entry list \<Rightarrow> sparse_entry list" where
  "advance k [] = []"
| "advance k (e # es) = (if fst e = k then es else e # es)"

abbreviation or_heads :: "nat \<Rightarrow> sparse_entry list list \<Rightarrow> bitmap_word" where
  "or_heads k rs \<equiv> foldr (\<lambda>r w. head_word k r OR w) rs 0"

lemma keys_of_finite [simp]: "finite (keys_of rs)"
  by (simp add: keys_of_def)

lemma keys_of_simps [simp]: "keys_of [] = {}" "keys_of (r # rs) = fst ` set r \<union> keys_of rs"
  by (auto simp: keys_of_def)

lemma word_at_head:
  assumes "sb_sorted r" "head_ge k r"
  shows "word_at r k = head_word k r"
proof (cases r)
  case (Cons e es)
  show ?thesis
  proof (cases "fst e = k")
    case True
    then show ?thesis using Cons by (cases e) (simp add: word_at_def)
  next
    case False
    then have "\<forall>x \<in> set r. k < fst x" using assms Cons by auto
    then show ?thesis using False Cons by (simp add: word_at_below)
  qed
qed (simp add: word_at_def)

lemma or_words_heads:
  assumes "\<forall>r \<in> set rs. sb_sorted r \<and> head_ge k r"
  shows "or_words rs k = or_heads k rs"
  unfolding or_words_def using assms by (induction rs) (simp_all add: word_at_head)

lemma advance_facts:
  assumes "sb_sorted r" "head_ge k r"
  shows "sb_sorted (advance k r)" "fst ` set (advance k r) = fst ` set r - {k}" "k' \<noteq> k \<Longrightarrow> word_at (advance k r) k' = word_at r k'"
proof -
  show "sb_sorted (advance k r)" using assms by (cases r) auto
  show "fst ` set (advance k r) = fst ` set r - {k}" using assms by (cases r) auto
  show "word_at (advance k r) k' = word_at r k'" if "k' \<noteq> k" using that by (cases r) (auto simp: word_at_def)
qed

lemma merged_advance:
  assumes rs: "\<forall>r \<in> set rs. sb_sorted r \<and> head_ge k r" and k: "\<exists>r \<in> set rs. head_is k r"
  shows "merged rs = (k, or_heads k rs) # merged (map (advance k) rs)"
proof -
  have "k \<le> fst e" if "r \<in> set rs" "e \<in> set r" for r e
  proof -
    have "sb_sorted r" "head_ge k r" using rs that(1) by auto
    then show ?thesis using that(2) by (cases r) auto
  qed
  then have ge: "\<forall>i \<in> keys_of rs. k \<le> i" by (auto simp: keys_of_def)
  have mem: "k \<in> keys_of rs"
  proof -
    obtain r where r: "r \<in> set rs" "head_is k r" using k by blast
    then obtain e es where "r = e # es" "fst e = k" by (metis head_is.elims(2))
    then have "k \<in> fst ` set r" by auto
    then show ?thesis using r(1) unfolding keys_of_def by blast
  qed
  have keys: "keys_of (map (advance k) rs) = keys_of rs - {k}"
    using rs advance_facts(2) by (auto simp: keys_of_def)
  have "Min (keys_of rs) = k" using ge mem by (intro Min_eqI) auto
  then have list: "sorted_list_of_set (keys_of rs) = k # sorted_list_of_set (keys_of rs - {k})"
    using sorted_list_of_set_nonempty [of "keys_of rs"] mem by auto
  have "or_words (map (advance k) rs) i = or_words rs i" if "i \<noteq> k" for i
    unfolding or_words_def using rs advance_facts(3) [OF _ _ that] by (induction rs) auto
  then have "map (\<lambda>i. (i, or_words rs i)) (sorted_list_of_set (keys_of rs - {k})) = merged (map (advance k) rs)"
    unfolding merged_def keys by (intro map_cong) auto
  then show ?thesis unfolding merged_def [of rs] list using or_words_heads [OF rs] by simp
qed

section \<open>The iterator over the union\<close>

definition remaining :: "sparse_alloc_bitmap \<Rightarrow> nat option \<Rightarrow> sparse_entry list" where
  "remaining sb i = (case i of None \<Rightarrow> [] | Some p \<Rightarrow> drop p (sb_entries sb))"

definition position_ok :: "sparse_alloc_bitmap \<Rightarrow> nat option \<Rightarrow> bool" where
  "position_ok sb i \<longleftrightarrow> sb_sorted (sb_entries sb) \<and> (\<forall>p. i = Some p \<longrightarrow> p < length (sb_entries sb))"

definition union_invar :: "union_iter \<Rightarrow> bool" where
  "union_invar it \<longleftrightarrow> list_all2 position_ok (union_bitmaps it) (next_sparse_entry_indices it)"

abbreviation remainings :: "sparse_alloc_bitmap list \<Rightarrow> nat option list \<Rightarrow> sparse_entry list list" where
  "remainings sbs is \<equiv> map2 remaining sbs is"

definition union_items :: "union_iter \<Rightarrow> sparse_entry list" where
  "union_items it = merged (remainings (union_bitmaps it) (next_sparse_entry_indices it))"

lemma sb_sorted_drop: "sb_sorted es \<Longrightarrow> sb_sorted (drop n es)"
  using sb_sorted_simps(3) [of "take n es" "drop n es"] by simp

lemma remaining_sorted: "position_ok sb i \<Longrightarrow> sb_sorted (remaining sb i)"
  by (auto simp: position_ok_def remaining_def sb_sorted_drop split: option.splits)

lemma remainings_sorted: "list_all2 position_ok sbs is \<Longrightarrow> \<forall>r \<in> set (remainings sbs is). sb_sorted r"
  by (induction sbs "is" rule: list_all2_induct) (auto simp: remaining_sorted)

lemma remaining_Some:
  assumes "position_ok sb (Some p)"
  obtains e where "vec_get (sb_entries sb) p = Ok e" "remaining sb (Some p) = e # drop (p + 1) (sb_entries sb)"
  using assms by (auto simp: position_ok_def remaining_def Cons_nth_drop_Suc)

lemma union_scan_spec:
  assumes "list_all2 position_ok sbs is"
  shows "\<exists>i' k' w'. union_scan j (i, k, w) sbs is = Ok (i', k', w') \<and> k' \<le> k
    \<and> (\<forall>r \<in> set (remainings sbs is). head_ge k' r)
    \<and> (k' = k \<or> (\<exists>r \<in> set (remainings sbs is). head_is k' r))
    \<and> w' = (if k' = k then w else 0) OR or_heads k' (remainings sbs is)
    \<and> (if k' = k then i' = i else j \<le> i' \<and> (\<forall>r \<in> set (take (i' - j) (remainings sbs is)). \<not> head_is k' r))"
  using assms
proof (induction sbs "is" arbitrary: j i k w rule: list_all2_induct)
  case (Cons sb sbs p "is")
  show ?case
  proof (cases p)
    case None
    from Cons.IH [of "j + 1" i k w] obtain i' k' w' where IH: "union_scan (j + 1) (i, k, w) sbs is = Ok (i', k', w')" "k' \<le> k"
      "\<forall>r \<in> set (remainings sbs is). head_ge k' r" "k' = k \<or> (\<exists>r \<in> set (remainings sbs is). head_is k' r)"
      "w' = (if k' = k then w else 0) OR or_heads k' (remainings sbs is)"
      "if k' = k then i' = i else j + 1 \<le> i' \<and> (\<forall>r \<in> set (take (i' - (j + 1)) (remainings sbs is)). \<not> head_is k' r)" by blast
    have r: "remaining sb None = []" by (simp add: remaining_def)
    have t: "take (i' - j) ([] # rs) = [] # take (i' - (j + 1)) rs" if "j + 1 \<le> i'" for rs :: "sparse_entry list list"
      using that by (simp add: take_Cons')
    show ?thesis using IH by (intro exI [of _ i'] exI [of _ k'] exI [of _ w']) (auto simp: None r t split: if_splits)
  next
    case (Some q)
    obtain e where e: "vec_get (sb_entries sb) q = Ok e" "remaining sb (Some q) = e # drop (q + 1) (sb_entries sb)"
      using remaining_Some [of sb q] Cons.hyps(1) Some by blast
    define acc where "acc = (if fst e < k then (j, fst e, snd e) else if fst e = k then (i, k, w OR snd e) else (i, k, w))"
    obtain i0 k0 w0 where acc0: "acc = (i0, k0, w0)" by (cases acc)
    have run: "union_scan j (i, k, w) (sb # sbs) (p # is) = union_scan (j + 1) (i0, k0, w0) sbs is"
      using e(1) Some acc0 by (auto simp: acc_def)
    have k0: "k0 = min k (fst e)" using acc0 by (auto simp: acc_def split: if_splits)
    from Cons.IH [of "j + 1" i0 k0 w0] obtain i' k' w' where IH: "union_scan (j + 1) (i0, k0, w0) sbs is = Ok (i', k', w')" "k' \<le> k0"
      "\<forall>r \<in> set (remainings sbs is). head_ge k' r" "k' = k0 \<or> (\<exists>r \<in> set (remainings sbs is). head_is k' r)"
      "w' = (if k' = k0 then w0 else 0) OR or_heads k' (remainings sbs is)"
      "if k' = k0 then i' = i0 else j + 1 \<le> i' \<and> (\<forall>r \<in> set (take (i' - (j + 1)) (remainings sbs is)). \<not> head_is k' r)" by blast
    have t: "take (i' - j) (r # rs) = r # take (i' - (j + 1)) rs" if "j + 1 \<le> i'" for r and rs :: "sparse_entry list list"
      using that by (simp add: take_Cons')
    have w': "w' = (if k' = k then w else 0) OR (head_word k' (remaining sb p) OR or_heads k' (remainings sbs is))"
      using IH(2,5) acc0 by (auto simp: acc_def Some e(2) or.assoc split: if_splits)
    have ge: "head_ge k' (remaining sb p)" "k' \<le> k" using IH(2) k0 by (simp_all add: Some e(2))
    have is_k: "k' = k \<or> head_is k' (remaining sb p) \<or> (\<exists>r \<in> set (remainings sbs is). head_is k' r)"
      using IH(4) k0 by (auto simp: Some e(2) min_def)
    have i': "if k' = k then i' = i else j \<le> i' \<and> (\<forall>r \<in> set (take (i' - j) (remaining sb p # remainings sbs is)). \<not> head_is k' r)"
      using IH(2,6) acc0 by (auto simp: acc_def Some e(2) t split: if_splits)
    show ?thesis using run IH(1,3) ge is_k w' i' by (intro exI [of _ i'] exI [of _ k'] exI [of _ w']) simp
  qed
qed simp

lemma next_position:
  assumes "sb_sorted (sb_entries sb)" "p < length (sb_entries sb)"
  shows "position_ok sb (if p + 1 \<noteq> length (sb_entries sb) then Some (p + 1) else None)"
    "remaining sb (if p + 1 \<noteq> length (sb_entries sb) then Some (p + 1) else None) = drop (p + 1) (sb_entries sb)"
  using assms by (auto simp: position_ok_def remaining_def)

lemma advance_position_spec:
  assumes "position_ok sb i"
  shows "\<exists>i'. advance_position k sb i = Ok i' \<and> position_ok sb i' \<and> remaining sb i' = advance k (remaining sb i)"
proof (cases i)
  case None
  then show ?thesis using assms by (simp add: advance_position_def remaining_def)
next
  case (Some p)
  obtain e where e: "vec_get (sb_entries sb) p = Ok e" "remaining sb (Some p) = e # drop (p + 1) (sb_entries sb)"
    using remaining_Some [of sb p] assms Some by blast
  have p: "sb_sorted (sb_entries sb)" "p < length (sb_entries sb)" using assms Some by (simp_all add: position_ok_def)
  show ?thesis
  proof (cases "fst e = k")
    case True
    then show ?thesis using next_position [OF p] e Some by (simp add: advance_position_def)
  next
    case False
    then show ?thesis using e Some assms by (simp add: advance_position_def)
  qed
qed

lemma advance_id: "\<not> head_is k r \<Longrightarrow> advance k r = r"
  by (cases r) auto

lemma union_advance_spec:
  assumes "list_all2 position_ok sbs is" "\<forall>r \<in> set (take n (remainings sbs is)). \<not> head_is k r"
  shows "\<exists>is'. union_advance n k sbs is = Ok is' \<and> list_all2 position_ok sbs is'
    \<and> remainings sbs is' = map (advance k) (remainings sbs is)"
  using assms
proof (induction sbs "is" arbitrary: n rule: list_all2_induct)
  case (Cons sb sbs i "is")
  obtain is' where is': "union_advance (n - 1) k sbs is = Ok is'" "list_all2 position_ok sbs is'"
    "remainings sbs is' = map (advance k) (remainings sbs is)"
  proof -
    have "\<forall>r \<in> set (take (n - 1) (remainings sbs is)). \<not> head_is k r" using Cons.prems by (cases n) auto
    then show thesis using Cons.IH [of "n - 1"] that by blast
  qed
  show ?case
  proof (cases "n = 0")
    case True
    from advance_position_spec [OF Cons.hyps(1), of k] obtain i' where
      "advance_position k sb i = Ok i'" "position_ok sb i'" "remaining sb i' = advance k (remaining sb i)" by blast
    then show ?thesis using is' True by (intro exI [of _ "i' # is'"]) simp
  next
    case False
    then have "\<not> head_is k (remaining sb i)" using Cons.prems by (cases n) auto
    then show ?thesis using is' False Cons.hyps(1) by (intro exI [of _ "i # is'"]) (simp add: advance_id)
  qed
qed simp

lemma first_position_None: "first_position n is = None \<longleftrightarrow> (\<forall>i \<in> set is. i = None)"
  by (induction n "is" rule: first_position.induct) auto

lemma first_position_Some:
  assumes "first_position n is = Some (i, p)"
  obtains pre post where "is = pre @ Some p # post" "\<forall>i \<in> set pre. i = None" "i = n + length pre"
  using assms
proof (induction n "is" arbitrary: thesis rule: first_position.induct)
  case (3 n "is")
  obtain pre post where "is = pre @ Some p # post" "\<forall>i \<in> set pre. i = None" "i = n + 1 + length pre"
    using 3 by auto
  then show ?case using 3(2) [of "None # pre" post] by simp
qed auto

lemma remainings_None:
  assumes "length sbs = length is" "\<forall>i \<in> set is. i = None"
  shows "remainings sbs is = replicate (length is) []"
  using assms by (induction sbs "is" rule: list_induct2) (simp_all add: remaining_def)

lemma merged_empty: "(\<forall>r \<in> set rs. r = []) \<Longrightarrow> merged rs = []"
proof -
  assume "\<forall>r \<in> set rs. r = []"
  then have "keys_of rs = {}" by (auto simp: keys_of_def)
  then show ?thesis by (simp add: merged_def)
qed

lemma or_heads_append: "or_heads k (rs @ ss) = or_heads k rs OR or_heads k ss"
  by (induction rs) (simp_all add: or.assoc)

lemma or_heads_empty: "or_heads k (replicate n []) = 0"
  by (induction n) simp_all

lemma union_next_spec:
  assumes inv: "union_invar it"
  shows "(\<exists>it'. union_iter_next it = Ok (None, it') \<and> union_invar it' \<and> union_items it = [] \<and> union_items it' = [])
    \<or> (\<exists>a it'. union_iter_next it = Ok (Some a, it') \<and> union_invar it' \<and> union_items it = a # union_items it')"
proof -
  let ?sbs = "union_bitmaps it" and ?is = "next_sparse_entry_indices it"
  have ok: "list_all2 position_ok ?sbs ?is" using inv by (simp add: union_invar_def)
  have len: "length ?sbs = length ?is" using list_all2_lengthD [OF ok] .
  show ?thesis
  proof (cases "first_position 0 ?is")
    case None
    then have "\<forall>i \<in> set ?is. i = None" by (simp add: first_position_None)
    then have "union_items it = []" unfolding union_items_def by (intro merged_empty) (simp add: remainings_None [OF len])
    then show ?thesis using None inv by (simp add: union_iter_next_def)
  next
    case (Some ip)
    obtain i p where ip: "ip = (i, p)" by (cases ip)
    then obtain pre post where ix: "?is = pre @ Some p # post" "\<forall>i \<in> set pre. i = None" "i = length pre"
      using first_position_Some [of 0 ?is i p] Some by auto
    then obtain spre sb spost where sbs: "?sbs = spre @ sb # spost" "length spre = length pre"
      "list_all2 position_ok spre pre" "position_ok sb (Some p)" "list_all2 position_ok spost post"
      using ok by (auto simp: list_all2_append2 list_all2_Cons2)
    obtain e where e: "vec_get (sb_entries sb) p = Ok e" "remaining sb (Some p) = e # drop (p + 1) (sb_entries sb)"
      using remaining_Some [OF sbs(4)] .
    have pre: "remainings spre pre = replicate (length pre) []" using sbs(2) ix(2) by (rule remainings_None)
    define post_rs where "post_rs = remainings spost post"
    have rems: "remainings ?sbs ?is = replicate (length pre) [] @ remaining sb (Some p) # post_rs"
      using ix(1) sbs(1,2) pre by (simp add: post_rs_def)
    from union_scan_spec [OF sbs(5), of "i + 1" i "fst e" "snd e"] obtain i' k w where
      scan: "union_scan (i + 1) (i, fst e, snd e) spost post = Ok (i', k, w)" "k \<le> fst e"
      "\<forall>r \<in> set post_rs. head_ge k r" "k = fst e \<or> (\<exists>r \<in> set post_rs. head_is k r)"
      "w = (if k = fst e then snd e else 0) OR or_heads k post_rs"
      "if k = fst e then i' = i else i + 1 \<le> i' \<and> (\<forall>r \<in> set (take (i' - (i + 1)) post_rs). \<not> head_is k r)"
      unfolding post_rs_def by blast
    have before: "\<forall>r \<in> set (take i' (remainings ?sbs ?is)). \<not> head_is k r"
      using scan(6) e(2) unfolding rems ix(3) by (auto simp: take_Cons' split: if_splits)
    from union_advance_spec [OF ok before] obtain is' where
      adv: "union_advance i' k ?sbs ?is = Ok is'" "list_all2 position_ok ?sbs is'"
      "remainings ?sbs is' = map (advance k) (remainings ?sbs ?is)" by blast
    have "union_iter_next it = Ok (Some (k, w), it\<lparr>next_sparse_entry_indices := is'\<rparr>)"
      using Some ip ix(1,3) sbs(1,2) e(1) scan(1) adv(1) by (simp add: union_iter_next_def vec_get_def nth_append)
    moreover have "union_invar (it\<lparr>next_sparse_entry_indices := is'\<rparr>)" using adv(2) by (simp add: union_invar_def)
    moreover have "union_items it = (k, w) # union_items (it\<lparr>next_sparse_entry_indices := is'\<rparr>)"
    proof -
      have "\<forall>r \<in> set (remainings ?sbs ?is). sb_sorted r \<and> head_ge k r"
        using remainings_sorted [OF ok] scan(2,3) e(2) unfolding rems by auto
      moreover have "\<exists>r \<in> set (remainings ?sbs ?is). head_is k r" using scan(4) e(2) unfolding rems by auto
      ultimately have "union_items it = (k, or_heads k (remainings ?sbs ?is)) # merged (map (advance k) (remainings ?sbs ?is))"
        unfolding union_items_def by (rule merged_advance)
      moreover have "or_heads k (remainings ?sbs ?is) = w"
        unfolding rems or_heads_append or_heads_empty scan(5) e(2) by simp
      ultimately show ?thesis using adv(3) by (simp add: union_items_def)
    qed
    ultimately show ?thesis by blast
  qed
qed

interpretation union_it: list_iterator union_invar union_items union_iter_next
proof
  fix it assume "union_invar it" "union_items it = []"
  then show "\<exists>it'. union_iter_next it = Ok (None, it') \<and> union_invar it' \<and> union_items it' = []"
    using union_next_spec [of it] by auto
next
  fix it a as assume "union_invar it" "union_items it = a # as"
  then show "\<exists>it'. union_iter_next it = Ok (Some a, it') \<and> union_invar it' \<and> union_items it' = as"
    using union_next_spec [of it] by auto
qed

subsection \<open>Where an iteration starts\<close>

definition from_word :: "nat \<Rightarrow> sparse_alloc_bitmap \<Rightarrow> sparse_entry list" where
  "from_word i sb = filter (\<lambda>e. i \<le> fst e) (sb_entries sb)"

lemma from_word_split:
  assumes "split_at i (sb_entries sb) xs ys"
  shows "from_word i sb = ys"
  using assms by (auto simp: split_at_def from_word_def filter_id_conv filter_empty_conv not_le)

lemma from_word_drop:
  assumes "sb_sorted (sb_entries sb)" "n \<le> length (sb_entries sb)" "\<forall>x \<in> set (take n (sb_entries sb)). fst x < i"
    "\<forall>x \<in> set (drop n (sb_entries sb)). i \<le> fst x"
  shows "from_word i sb = drop n (sb_entries sb)"
  by (rule from_word_split [of i sb "take n (sb_entries sb)"]) (use assms in \<open>simp add: split_at_def\<close>)

lemma position_from_spec:
  assumes "sb_sorted (sb_entries sb)"
  shows "position_ok sb (position_from sb i)" "remaining sb (position_from sb i) = from_word i sb"
proof -
  obtain xs ys where s: "split_at i (sb_entries sb) xs ys" using split_atE [OF assms] .
  have es: "sb_entries sb = xs @ ys" using s by (simp add: split_at_def)
  have "position_from sb i = (if ys = [] then None else Some (length xs))"
    using split_at_find [OF s] by (auto simp: position_from_def es split: list.splits)
  then show "position_ok sb (position_from sb i)" "remaining sb (position_from sb i) = from_word i sb"
    using assms from_word_split [OF s] by (auto simp: position_ok_def remaining_def es)
qed

lemma goto_position_spec:
  assumes "position_ok sb p"
  shows "\<exists>p'. goto_position i sb p = Ok p' \<and> position_ok sb p' \<and> remaining sb p' = from_word i sb"
proof -
  let ?es = "sb_entries sb"
  have sorted: "sb_sorted ?es" using assms by (simp add: position_ok_def)
  show ?thesis
  proof (cases p)
    case None
    then show ?thesis using position_from_spec [OF sorted, of i] by (simp add: goto_position_def)
  next
    case (Some n)
    then have n: "n < length ?es" using assms by (simp add: position_ok_def)
    have lt: "\<forall>x \<in> set (take n ?es). fst x < fst (?es ! n)" "\<forall>x \<in> set (drop (n + 1) ?es). fst (?es ! n) < fst x"
      "sb_sorted (drop n ?es)"
      using sorted n id_take_nth_drop [OF n] sb_sorted_simps(3) [of "take n ?es" "?es ! n # drop (n + 1) ?es"]
      by (auto simp: sb_sorted_drop)
    have get: "vec_get ?es n = Ok (?es ! n)" using n by simp
    consider (at) "fst (?es ! n) = i" | (before) "fst (?es ! n) + 1 = i" | (other) "fst (?es ! n) \<noteq> i" "fst (?es ! n) + 1 \<noteq> i" by blast
    then show ?thesis
    proof cases
      case at
      have d: "drop n ?es = ?es ! n # drop (n + 1) ?es" using n by (simp add: Cons_nth_drop_Suc)
      have "from_word i sb = drop n ?es"
        by (rule from_word_drop [OF sorted]) (use n lt at d in auto)
      then show ?thesis using at get Some assms by (simp add: goto_position_def remaining_def)
    next
      case before
      have t: "take (n + 1) ?es = take n ?es @ [?es ! n]" using n by (simp add: take_Suc_conv_app_nth)
      have "from_word i sb = drop (n + 1) ?es"
        by (rule from_word_drop [OF sorted]) (use n lt before t in \<open>auto simp: less_Suc_eq\<close>)
      then show ?thesis using before get Some next_position [OF sorted n] by (simp add: goto_position_def)
    next
      case other
      then show ?thesis using get Some position_from_spec [OF sorted, of i] by (simp add: goto_position_def)
    qed
  qed
qed

lemma goto_positions_spec:
  assumes "list_all2 position_ok sbs ps"
  shows "\<exists>ps'. goto_positions i sbs ps = Ok ps' \<and> list_all2 position_ok sbs ps' \<and> remainings sbs ps' = map (from_word i) sbs"
  using assms
proof (induction sbs ps rule: list_all2_induct)
  case (Cons sb sbs p ps)
  from goto_position_spec [OF Cons.hyps(1), of i] Cons.IH obtain p' ps' where
    "goto_position i sb p = Ok p'" "position_ok sb p'" "remaining sb p' = from_word i sb"
    "goto_positions i sbs ps = Ok ps'" "list_all2 position_ok sbs ps'" "remainings sbs ps' = map (from_word i) sbs" by blast
  then show ?case by (intro exI [of _ "p' # ps'"]) simp
qed simp

definition from_all :: "nat \<Rightarrow> sparse_alloc_bitmap list \<Rightarrow> sparse_entry list" where
  "from_all i sbs = merged (map (from_word i) sbs)"

lemma union_iter_new_at_spec:
  assumes "\<forall>sb \<in> set sbs. sb_wf sb"
  shows "union_invar (union_iter_new_at sbs i)" "union_items (union_iter_new_at sbs i) = from_all i sbs"
proof -
  have s: "sb_sorted (sb_entries sb)" if "sb \<in> set sbs" for sb using assms that by (simp add: sb_wf_def)
  have "list_all2 position_ok sbs (map (\<lambda>sb. position_from sb i) sbs)"
    using s position_from_spec(1) by (simp add: list_all2_map2 list.rel_refl_strong)
  moreover have "remainings sbs (map (\<lambda>sb. position_from sb i) sbs) = map (from_word i) sbs"
    using s position_from_spec(2) by (induction sbs) auto
  ultimately show "union_invar (union_iter_new_at sbs i)" "union_items (union_iter_new_at sbs i) = from_all i sbs"
    by (simp_all add: union_iter_new_at_def union_invar_def union_items_def from_all_def)
qed

lemma union_iter_new_spec:
  assumes "\<forall>sb \<in> set sbs. sb_wf sb"
  shows "union_invar (union_iter_new sbs)" "union_items (union_iter_new sbs) = from_all 0 sbs"
proof -
  have s: "position_ok sb (if sb_entries sb \<noteq> [] then Some 0 else None)
      \<and> remaining sb (if sb_entries sb \<noteq> [] then Some 0 else None) = from_word 0 sb" if "sb \<in> set sbs" for sb
    using assms that by (auto simp: sb_wf_def position_ok_def remaining_def from_word_def)
  then have "list_all2 position_ok sbs (map (\<lambda>sb. if sb_entries sb \<noteq> [] then Some 0 else None) sbs)"
    by (simp add: list_all2_map2 list.rel_refl_strong)
  moreover have "remainings sbs (map (\<lambda>sb. if sb_entries sb \<noteq> [] then Some 0 else None) sbs) = map (from_word 0) sbs"
    using s by (induction sbs) auto
  ultimately show "union_invar (union_iter_new sbs)" "union_items (union_iter_new sbs) = from_all 0 sbs"
    by (simp_all add: union_iter_new_def union_invar_def union_items_def from_all_def)
qed

lemma union_iter_goto_spec:
  assumes "union_invar it"
  shows "\<exists>it'. union_iter_goto it i = Ok it' \<and> union_invar it' \<and> union_items it' = from_all i (union_bitmaps it)
    \<and> union_bitmaps it' = union_bitmaps it"
proof -
  from goto_positions_spec [OF assms [unfolded union_invar_def], of i] obtain ps where
    "goto_positions i (union_bitmaps it) (next_sparse_entry_indices it) = Ok ps" "list_all2 position_ok (union_bitmaps it) ps"
    "remainings (union_bitmaps it) ps = map (from_word i) (union_bitmaps it)" by blast
  then show ?thesis by (intro exI [of _ "it\<lparr>next_sparse_entry_indices := ps\<rparr>"])
      (simp add: union_iter_goto_def union_invar_def union_items_def from_all_def)
qed

lemma union_iter_next_bitmaps: "union_iter_next it = Ok (a, it') \<Longrightarrow> union_bitmaps it' = union_bitmaps it"
  by (auto simp: union_iter_next_def outcome_simps split: if_splits option.splits)

subsection \<open>The merged words\<close>

lemma merged_sorted:
  assumes "\<forall>r \<in> set rs. sb_sorted r"
  shows "sb_sorted (merged rs)"
proof -
  have "map fst (merged rs) = sorted_list_of_set (keys_of rs)" by (simp add: merged_def comp_def)
  moreover have "i < 2 ^ 58" if "i \<in> keys_of rs" for i using that assms by (auto simp: keys_of_def sb_sorted_def)
  ultimately show ?thesis unfolding sb_sorted_alt by simp
qed

lemma or_words_absent: "k \<notin> keys_of rs \<Longrightarrow> or_words rs k = 0"
proof (induction rs)
  case (Cons r rs)
  then have "map_of r k = None" by (simp add: map_of_eq_None_iff)
  then show ?case using Cons by (simp add: or_words_def word_at_def)
qed (simp add: or_words_def)

lemma word_at_map: "distinct ks \<Longrightarrow> word_at (map (\<lambda>k. (k, f k)) ks) k = (if k \<in> set ks then f k else 0)"
  by (induction ks) (auto simp: word_at_def)

lemma word_at_merged: "word_at (merged rs) k = or_words rs k"
  unfolding merged_def by (subst word_at_map) (auto simp: or_words_absent)

lemma or_words_bit: "bit (or_words rs k) j \<longleftrightarrow> (\<exists>r \<in> set rs. bit (word_at r k) j)"
  by (induction rs) (auto simp: or_words_def bit_simps)

lemma from_all_facts:
  assumes "\<forall>sb \<in> set sbs. sb_wf sb"
  shows "sb_sorted (from_all i sbs)" "\<forall>e \<in> set (from_all i sbs). i \<le> fst e"
    "i \<le> k \<Longrightarrow> j < 64 \<Longrightarrow> bit (word_at (from_all i sbs) k) j \<longleftrightarrow> (\<exists>sb \<in> set sbs. 64 * k + j \<in> sb_blocks sb)"
proof -
  have s: "sb_sorted (from_word i sb)" if "sb \<in> set sbs" for sb
    using assms that by (simp add: from_word_def sb_wf_def sb_sorted_filter)
  then show "sb_sorted (from_all i sbs)" unfolding from_all_def by (intro merged_sorted) auto
  show "\<forall>e \<in> set (from_all i sbs). i \<le> fst e" by (auto simp: from_all_def merged_def keys_of_def from_word_def)
  show "bit (word_at (from_all i sbs) k) j \<longleftrightarrow> (\<exists>sb \<in> set sbs. 64 * k + j \<in> sb_blocks sb)" if k: "i \<le> k" and j: "j < 64"
  proof -
    have dm: "(64 * k + j) div 64 = k" "(64 * k + j) mod 64 = j" using j by simp_all
    have "bit (word_at (from_word i sb) k) j \<longleftrightarrow> 64 * k + j \<in> sb_blocks sb" if "sb \<in> set sbs" for sb
    proof -
      have "64 * k + j \<in> entry_bits (from_word i sb) \<longleftrightarrow> 64 * k + j \<in> sb_blocks sb"
        unfolding sb_blocks_def entry_bits_def from_word_def mem_Collect_eq dm set_filter using k by blast
      then show ?thesis using word_at_bit [OF s [OF that], of "64 * k + j"] unfolding dm by simp
    qed
    then show ?thesis unfolding from_all_def word_at_merged or_words_bit by auto
  qed
qed

end
