(* ===== verification/Alloc_Bitmap_Iter.thy ===== *)
theory Alloc_Bitmap_Iter
  imports Sparse_Bitmap_Union
begin

text \<open>
  The iterators over an allocation bitmap with pending allocations and deallocations applied
  virtually, of \<open>src/storage/src/fs/cocoonfs/alloc_bitmap/bitmap.rs\<close>: over its words
  (\<open>AllocBitmapWordIterator\<close>), its single blocks (\<open>AllocBitmapIterator\<close>) and chunks of a fixed
  number of blocks (\<open>AllocBitmapChunkedIterator\<close>).
\<close>

section \<open>The words of an allocation bitmap with pending changes\<close>

record word_iter =
  wi_bitmap :: alloc_bitmap
  pending_allocs_iter :: union_iter
  next_pending_alloc :: "sparse_entry option"
  pending_frees_iter :: union_iter
  next_pending_free :: "sparse_entry option"
  next_bitmap_word_index :: nat

definition word_iter_new_at ::
  "alloc_bitmap \<Rightarrow> sparse_alloc_bitmap list \<Rightarrow> sparse_alloc_bitmap list \<Rightarrow> nat \<Rightarrow> word_iter outcome" where
  "word_iter_new_at ab pending_allocs pending_frees bitmap_word_index_begin =
     (let (allocs, frees) =
        (if bitmap_word_index_begin = 0 then (union_iter_new pending_allocs, union_iter_new pending_frees)
         else (union_iter_new_at pending_allocs bitmap_word_index_begin, union_iter_new_at pending_frees bitmap_word_index_begin))
      in and_then (union_iter_next allocs) (\<lambda>(a, allocs).
         and_then (union_iter_next frees) (\<lambda>(f, frees).
         Ok \<lparr>wi_bitmap = ab, pending_allocs_iter = allocs, next_pending_alloc = a,
             pending_frees_iter = frees, next_pending_free = f, next_bitmap_word_index = bitmap_word_index_begin\<rparr>)))"

definition word_iter_goto :: "word_iter \<Rightarrow> nat \<Rightarrow> word_iter outcome" where
  "word_iter_goto it bitmap_word_index =
     (if next_bitmap_word_index it = bitmap_word_index then Ok it
      else
        and_then (union_iter_goto (pending_allocs_iter it) bitmap_word_index) (\<lambda>allocs.
        and_then (union_iter_next allocs) (\<lambda>(a, allocs).
        and_then (union_iter_goto (pending_frees_iter it) bitmap_word_index) (\<lambda>frees.
        and_then (union_iter_next frees) (\<lambda>(f, frees).
        Ok (it\<lparr>pending_allocs_iter := allocs, next_pending_alloc := a, pending_frees_iter := frees,
               next_pending_free := f, next_bitmap_word_index := bitmap_word_index\<rparr>))))))"

definition take_pending :: "nat \<Rightarrow> union_iter \<Rightarrow> sparse_entry option \<Rightarrow> (bitmap_word \<times> union_iter \<times> sparse_entry option) outcome" where
  "take_pending bitmap_word_index it pending =
     (case pending of
        Some p \<Rightarrow> if fst p = bitmap_word_index
                  then and_then (union_iter_next it) (\<lambda>(n, it). Ok (snd p, it, n))
                  else Ok (0, it, pending)
      | None \<Rightarrow> Ok (0, it, pending))"

definition word_iter_next :: "word_iter \<Rightarrow> (sparse_entry option \<times> word_iter) outcome" where
  "word_iter_next it =
     (if next_bitmap_word_index it \<ge> length (bitmap (wi_bitmap it)) then Ok (None, it)
      else
        let i = next_bitmap_word_index it in
        and_then (vec_get (bitmap (wi_bitmap it)) i) (\<lambda>w.
        and_then (take_pending i (pending_allocs_iter it) (next_pending_alloc it)) (\<lambda>(a, allocs, na).
        and_then (take_pending i (pending_frees_iter it) (next_pending_free it)) (\<lambda>(f, frees, nf).
        Ok (Some (i, (w OR a) AND NOT f),
            it\<lparr>next_bitmap_word_index := i + 1, pending_allocs_iter := allocs, next_pending_alloc := na,
               pending_frees_iter := frees, next_pending_free := nf\<rparr>)))))"

section \<open>The single blocks and the chunks of an allocation bitmap\<close>

record bit_iter =
  bi_word_iter :: word_iter
  cur_bitmap_word :: "bitmap_word option"
  next_pos_in_cur_bitmap_word :: nat

definition bit_iter_new_at ::
  "alloc_bitmap \<Rightarrow> sparse_alloc_bitmap list \<Rightarrow> sparse_alloc_bitmap list \<Rightarrow> nat \<Rightarrow> bit_iter outcome" where
  "bit_iter_new_at ab pending_allocs pending_frees first_physical_allocation_block_index =
     (let bitmap_word_index_begin = drop_bit 6 first_physical_allocation_block_index;
          next_pos = first_physical_allocation_block_index mod 64
      in and_then (word_iter_new_at ab pending_allocs pending_frees bitmap_word_index_begin) (\<lambda>it.
         and_then (word_iter_next it) (\<lambda>(w, it).
         Ok \<lparr>bi_word_iter = it, cur_bitmap_word = map_option snd w, next_pos_in_cur_bitmap_word = next_pos\<rparr>)))"

definition bit_iter_next :: "bit_iter \<Rightarrow> (bool option \<times> bit_iter) outcome" where
  "bit_iter_next it =
     (case cur_bitmap_word it of
        None \<Rightarrow> Ok (None, it)
      | Some w \<Rightarrow>
        let b = (drop_bit (next_pos_in_cur_bitmap_word it) w AND 1) \<noteq> 0;
            pos = next_pos_in_cur_bitmap_word it + 1
        in if pos = 64 then
             and_then (word_iter_next (bi_word_iter it)) (\<lambda>(w, wi).
             Ok (Some b, it\<lparr>bi_word_iter := wi, cur_bitmap_word := map_option snd w, next_pos_in_cur_bitmap_word := 0\<rparr>))
           else Ok (Some b, it\<lparr>next_pos_in_cur_bitmap_word := pos\<rparr>))"

record chunk_iter = bit_iter +
  chunk_allocation_blocks :: nat

definition chunk_iter_new_at ::
  "alloc_bitmap \<Rightarrow> sparse_alloc_bitmap list \<Rightarrow> sparse_alloc_bitmap list \<Rightarrow> nat \<Rightarrow> nat \<Rightarrow> chunk_iter outcome" where
  "chunk_iter_new_at ab pending_allocs pending_frees first_physical_allocation_block_index chunk_blocks =
     debug_assert (chunk_blocks \<le> 64)
     (let bitmap_word_index_begin = drop_bit 6 first_physical_allocation_block_index;
          next_pos = first_physical_allocation_block_index mod 64
      in and_then (word_iter_new_at ab pending_allocs pending_frees bitmap_word_index_begin) (\<lambda>it.
         and_then (word_iter_next it) (\<lambda>(w, it).
         Ok \<lparr>bi_word_iter = it, cur_bitmap_word = map_option snd w, next_pos_in_cur_bitmap_word = next_pos,
             chunk_allocation_blocks = chunk_blocks\<rparr>)))"

definition chunk_iter_goto :: "chunk_iter \<Rightarrow> nat \<Rightarrow> chunk_iter outcome" where
  "chunk_iter_goto it physical_allocation_block_index =
     (let bitmap_word_index = drop_bit 6 physical_allocation_block_index;
          it = it\<lparr>next_pos_in_cur_bitmap_word := physical_allocation_block_index mod 64\<rparr>
      in and_then (word_iter_goto (bi_word_iter it) bitmap_word_index) (\<lambda>wi.
         and_then (word_iter_next wi) (\<lambda>(w, wi).
         Ok (it\<lparr>bi_word_iter := wi, cur_bitmap_word := map_option snd w\<rparr>))))"

definition chunk_iter_next :: "chunk_iter \<Rightarrow> (bitmap_word option \<times> chunk_iter) outcome" where
  "chunk_iter_next it =
     (case cur_bitmap_word it of
        None \<Rightarrow> Ok (None, it)
      | Some w \<Rightarrow>
        let cur_chunk = drop_bit (next_pos_in_cur_bitmap_word it) w;
            chunk = chunk_allocation_blocks it;
            pos = next_pos_in_cur_bitmap_word it + chunk
        in if pos \<ge> 64 then
             let pos = pos - 64 in
             and_then (word_iter_next (bi_word_iter it)) (\<lambda>(w, wi).
             let w = map_option snd w;
                 cur_chunk = if pos > 0 then cur_chunk OR push_bit (chunk - pos) (case w of Some w \<Rightarrow> w | None \<Rightarrow> 0)
                             else cur_chunk
             in Ok (Some (cur_chunk AND trailing_bits_mask chunk),
                    it\<lparr>bi_word_iter := wi, cur_bitmap_word := w, next_pos_in_cur_bitmap_word := pos\<rparr>))
           else Ok (Some (cur_chunk AND trailing_bits_mask chunk), it\<lparr>next_pos_in_cur_bitmap_word := pos\<rparr>))"

section \<open>The words with pending changes\<close>

definition pending_list :: "union_iter \<Rightarrow> sparse_entry option \<Rightarrow> sparse_entry list" where
  "pending_list it p = (case p of None \<Rightarrow> [] | Some e \<Rightarrow> e # union_items it)"

definition pending_invar :: "nat \<Rightarrow> union_iter \<Rightarrow> sparse_entry option \<Rightarrow> bool" where
  "pending_invar i it p \<longleftrightarrow> union_invar it \<and> (p = None \<longrightarrow> union_items it = [])
     \<and> sb_sorted (pending_list it p) \<and> (\<forall>e \<in> set (pending_list it p). i \<le> fst e)"

lemma union_next_pending:
  assumes "union_invar it" "sb_sorted (union_items it)" "\<forall>e \<in> set (union_items it). i \<le> fst e"
  shows "\<exists>a it'. union_iter_next it = Ok (a, it') \<and> pending_invar i it' a \<and> pending_list it' a = union_items it
    \<and> union_bitmaps it' = union_bitmaps it"
proof -
  from union_it.next_total [OF assms(1)] obtain it' where it': "union_iter_next it = Ok (case union_items it of [] \<Rightarrow> None | a # _ \<Rightarrow> Some a, it')"
    "union_invar it'" "union_items it' = tl (union_items it)" by blast
  then show ?thesis using assms union_iter_next_bitmaps [OF it'(1)]
    by (cases "union_items it") (auto simp: pending_invar_def pending_list_def)
qed

lemma take_pending_spec:
  assumes "pending_invar i it p"
  shows "\<exists>it' p'. take_pending i it p = Ok (word_at (pending_list it p) i, it', p') \<and> pending_invar (i + 1) it' p'
    \<and> pending_list it' p' = advance i (pending_list it p) \<and> union_bitmaps it' = union_bitmaps it"
proof (cases p)
  case None
  then show ?thesis using assms by (simp add: take_pending_def pending_invar_def pending_list_def word_at_def)
next
  case (Some e)
  have inv: "union_invar it" "sb_sorted (union_items it)" "\<forall>x \<in> set (union_items it). fst e < fst x" "i \<le> fst e"
    using assms Some by (simp_all add: pending_invar_def pending_list_def)
  have l: "pending_list it p = e # union_items it" using Some by (simp add: pending_list_def)
  show ?thesis
  proof (cases "fst e = i")
    case True
    have "\<forall>x \<in> set (union_items it). i + 1 \<le> fst x" using inv(3) True by auto
    from union_next_pending [OF inv(1,2) this] obtain a it' where "union_iter_next it = Ok (a, it')" "pending_invar (i + 1) it' a"
      "pending_list it' a = union_items it" "union_bitmaps it' = union_bitmaps it" by blast
    moreover have "word_at (e # union_items it) i = snd e" using True by (cases e) (simp add: word_at_def)
    ultimately show ?thesis using True Some unfolding l by (simp add: take_pending_def)
  next
    case False
    then have "\<forall>x \<in> set (e # union_items it). i < fst x" using inv(3,4) by auto
    then have "word_at (e # union_items it) i = 0" by (rule word_at_below)
    moreover have "pending_invar (i + 1) it p" using assms False inv(3,4) unfolding pending_invar_def l by auto
    ultimately show ?thesis using False Some unfolding l by (simp add: take_pending_def l [unfolded Some])
  qed
qed

definition changed_word :: "bitmap_word list \<Rightarrow> sparse_entry list \<Rightarrow> sparse_entry list \<Rightarrow> nat \<Rightarrow> bitmap_word" where
  "changed_word ws allocs frees k = (ws ! k OR word_at allocs k) AND NOT (word_at frees k)"

definition word_invar :: "word_iter \<Rightarrow> bool" where
  "word_invar it \<longleftrightarrow> pending_invar (next_bitmap_word_index it) (pending_allocs_iter it) (next_pending_alloc it)
     \<and> pending_invar (next_bitmap_word_index it) (pending_frees_iter it) (next_pending_free it)"

definition word_items :: "word_iter \<Rightarrow> sparse_entry list" where
  "word_items it = map (\<lambda>k. (k, changed_word (bitmap (wi_bitmap it))
     (pending_list (pending_allocs_iter it) (next_pending_alloc it))
     (pending_list (pending_frees_iter it) (next_pending_free it)) k))
     [next_bitmap_word_index it..<length (bitmap (wi_bitmap it))]"

lemma word_next_spec:
  assumes inv: "word_invar it" and lt: "next_bitmap_word_index it < length (bitmap (wi_bitmap it))"
  shows "\<exists>it' w. word_iter_next it = Ok (Some w, it') \<and> word_invar it' \<and> word_items it = w # word_items it' \<and> wi_bitmap it' = wi_bitmap it
    \<and> next_bitmap_word_index it' = next_bitmap_word_index it + 1
    \<and> union_bitmaps (pending_allocs_iter it') = union_bitmaps (pending_allocs_iter it)
    \<and> union_bitmaps (pending_frees_iter it') = union_bitmaps (pending_frees_iter it)"
proof -
  let ?i = "next_bitmap_word_index it" and ?ws = "bitmap (wi_bitmap it)"
  let ?A = "pending_list (pending_allocs_iter it) (next_pending_alloc it)"
  let ?F = "pending_list (pending_frees_iter it) (next_pending_free it)"
  have pa: "pending_invar ?i (pending_allocs_iter it) (next_pending_alloc it)"
    and pf: "pending_invar ?i (pending_frees_iter it) (next_pending_free it)" using inv by (simp_all add: word_invar_def)
  from take_pending_spec [OF pa] obtain ai na where a: "take_pending ?i (pending_allocs_iter it) (next_pending_alloc it) = Ok (word_at ?A ?i, ai, na)"
    "pending_invar (?i + 1) ai na" "pending_list ai na = advance ?i ?A" "union_bitmaps ai = union_bitmaps (pending_allocs_iter it)" by blast
  from take_pending_spec [OF pf] obtain fi nf where f: "take_pending ?i (pending_frees_iter it) (next_pending_free it) = Ok (word_at ?F ?i, fi, nf)"
    "pending_invar (?i + 1) fi nf" "pending_list fi nf = advance ?i ?F" "union_bitmaps fi = union_bitmaps (pending_frees_iter it)" by blast
  let ?it = "it\<lparr>next_bitmap_word_index := ?i + 1, pending_allocs_iter := ai, next_pending_alloc := na,
               pending_frees_iter := fi, next_pending_free := nf\<rparr>"
  have "word_iter_next it = Ok (Some (?i, changed_word ?ws ?A ?F ?i), ?it)"
    using lt a(1) f(1) by (simp add: word_iter_next_def changed_word_def Let_def)
  moreover have "word_invar ?it" using a(2) f(2) by (simp add: word_invar_def)
  moreover have "word_items it = (?i, changed_word ?ws ?A ?F ?i) # word_items ?it"
  proof -
    have "word_at (advance ?i l) k = word_at l k" if "k \<noteq> ?i" for k l using that by (cases l) (auto simp: word_at_def)
    then have "changed_word ?ws (advance ?i ?A) (advance ?i ?F) k = changed_word ?ws ?A ?F k" if "?i + 1 \<le> k" for k
      using that by (simp add: changed_word_def)
    then have "word_items ?it = map (\<lambda>k. (k, changed_word ?ws ?A ?F k)) [?i + 1..<length ?ws]"
      unfolding word_items_def using a(3) f(3) by simp
    moreover have "[?i..<length ?ws] = ?i # [?i + 1..<length ?ws]" using lt by (simp add: upt_conv_Cons)
    ultimately show ?thesis by (simp add: word_items_def)
  qed
  ultimately show ?thesis using a(4) f(4) by (intro exI [of _ ?it] exI [of _ "(?i, changed_word ?ws ?A ?F ?i)"]) simp
qed

definition virtual_blocks :: "alloc_bitmap \<Rightarrow> sparse_alloc_bitmap list \<Rightarrow> sparse_alloc_bitmap list \<Rightarrow> nat set" where
  "virtual_blocks ab allocs frees = (ab_blocks ab \<union> (\<Union>sb \<in> set allocs. sb_blocks sb)) - (\<Union>sb \<in> set frees. sb_blocks sb)"

definition virtual_word :: "alloc_bitmap \<Rightarrow> sparse_alloc_bitmap list \<Rightarrow> sparse_alloc_bitmap list \<Rightarrow> nat \<Rightarrow> bitmap_word" where
  "virtual_word ab allocs frees = changed_word (bitmap ab) (from_all 0 allocs) (from_all 0 frees)"

lemma virtual_word_bit:
  assumes "\<forall>sb \<in> set (allocs @ frees). sb_wf sb" "k < length (bitmap ab)" "j < 64"
  shows "bit (virtual_word ab allocs frees k) j \<longleftrightarrow> 64 * k + j \<in> virtual_blocks ab allocs frees"
proof -
  have wf: "\<forall>sb \<in> set allocs. sb_wf sb" "\<forall>sb \<in> set frees. sb_wf sb" using assms(1) by auto
  have "64 * k + j \<in> ab_blocks ab \<longleftrightarrow> bit (bitmap ab ! k) j" unfolding ab_blocks_def using assms(2,3) by (rule dense_bits_nth)
  then show ?thesis
    using from_all_facts(3) [OF wf(1), of 0 k j] from_all_facts(3) [OF wf(2), of 0 k j] assms(3)
    by (auto simp: virtual_word_def changed_word_def virtual_blocks_def bit_simps)
qed

lemma changed_word_from:
  assumes "\<forall>sb \<in> set (allocs @ frees). sb_wf sb" "i \<le> k"
  shows "changed_word (bitmap ab) (from_all i allocs) (from_all i frees) k = virtual_word ab allocs frees k"
proof -
  have "word_at (from_all i sbs) k = word_at (from_all 0 sbs) k" if "\<forall>sb \<in> set sbs. sb_wf sb" for sbs
    using from_all_facts(3) [OF that, of i k] from_all_facts(3) [OF that, of 0 k] assms(2) by (intro bit_word_eqI) simp
  then show ?thesis using assms(1) by (simp add: virtual_word_def changed_word_def)
qed

definition word_state :: "alloc_bitmap \<Rightarrow> sparse_alloc_bitmap list \<Rightarrow> sparse_alloc_bitmap list \<Rightarrow> word_iter \<Rightarrow> bool" where
  "word_state ab allocs frees it \<longleftrightarrow> word_invar it \<and> wi_bitmap it = ab
     \<and> union_bitmaps (pending_allocs_iter it) = allocs \<and> union_bitmaps (pending_frees_iter it) = frees
     \<and> word_items it = map (\<lambda>k. (k, virtual_word ab allocs frees k)) [next_bitmap_word_index it..<length (bitmap ab)]"

interpretation word_it: list_iterator "word_state ab allocs frees" word_items word_iter_next
  for ab allocs frees
proof
  fix it assume a: "word_state ab allocs frees it" "word_items it = []"
  then have "\<not> next_bitmap_word_index it < length (bitmap (wi_bitmap it))" by (auto simp: word_items_def)
  then show "\<exists>it'. word_iter_next it = Ok (None, it') \<and> word_state ab allocs frees it' \<and> word_items it' = []"
    using a by (simp add: word_iter_next_def)
next
  fix it a as assume a: "word_state ab allocs frees it" "word_items it = a # as"
  then have lt: "next_bitmap_word_index it < length (bitmap (wi_bitmap it))"
    by (cases "next_bitmap_word_index it < length (bitmap (wi_bitmap it))") (auto simp: word_items_def)
  have inv: "word_invar it" and items: "word_items it = map (\<lambda>k. (k, virtual_word ab allocs frees k)) [next_bitmap_word_index it..<length (bitmap ab)]"
    and ab: "wi_bitmap it = ab" using a(1) by (simp_all add: word_state_def)
  from word_next_spec [OF inv lt] obtain it' w where it': "word_iter_next it = Ok (Some w, it')" "word_invar it'"
    "word_items it = w # word_items it'" "wi_bitmap it' = wi_bitmap it" "next_bitmap_word_index it' = next_bitmap_word_index it + 1"
    "union_bitmaps (pending_allocs_iter it') = union_bitmaps (pending_allocs_iter it)"
    "union_bitmaps (pending_frees_iter it') = union_bitmaps (pending_frees_iter it)" by blast
  have "word_items it' = tl (word_items it)" using it'(3) by simp
  also have "\<dots> = map (\<lambda>k. (k, virtual_word ab allocs frees k)) [next_bitmap_word_index it'..<length (bitmap ab)]"
    unfolding items it'(5) using lt ab by (simp add: upt_conv_Cons)
  finally have "word_state ab allocs frees it'" using a(1) it' by (simp add: word_state_def)
  with it'(1,3) a(2) show "\<exists>it'. word_iter_next it = Ok (Some a, it') \<and> word_state ab allocs frees it' \<and> word_items it' = as" by auto
qed

lemma start_pending:
  assumes "\<forall>sb \<in> set sbs. sb_wf sb" "union_invar it" "union_items it = from_all i sbs" "union_bitmaps it = sbs"
  shows "\<exists>a it'. union_iter_next it = Ok (a, it') \<and> pending_invar i it' a \<and> pending_list it' a = from_all i sbs \<and> union_bitmaps it' = sbs"
  using union_next_pending [OF assms(2), of i] from_all_facts(1,2) [OF assms(1), of i] assms(3,4) by simp

lemma word_state_at:
  assumes "\<forall>sb \<in> set (allocs @ frees). sb_wf sb" "pending_invar i ai a" "pending_list ai a = from_all i allocs"
    "union_bitmaps ai = allocs" "pending_invar i fi f" "pending_list fi f = from_all i frees" "union_bitmaps fi = frees"
  shows "word_state ab allocs frees \<lparr>wi_bitmap = ab, pending_allocs_iter = ai, next_pending_alloc = a,
     pending_frees_iter = fi, next_pending_free = f, next_bitmap_word_index = i\<rparr>"
  using assms changed_word_from [OF assms(1), of i] by (simp add: word_state_def word_invar_def word_items_def)

lemma word_iter_new_at_spec:
  assumes wf: "\<forall>sb \<in> set (allocs @ frees). sb_wf sb"
  shows "\<exists>it. word_iter_new_at ab allocs frees i = Ok it \<and> word_state ab allocs frees it \<and> next_bitmap_word_index it = i"
proof -
  define ai fi where "ai = (if i = 0 then union_iter_new allocs else union_iter_new_at allocs i)"
    and "fi = (if i = 0 then union_iter_new frees else union_iter_new_at frees i)"
  have wf2: "\<forall>sb \<in> set allocs. sb_wf sb" "\<forall>sb \<in> set frees. sb_wf sb" using wf by auto
  have ai: "union_invar ai" "union_items ai = from_all i allocs" "union_bitmaps ai = allocs"
    using union_iter_new_spec [OF wf2(1)] union_iter_new_at_spec [OF wf2(1), of i]
    by (simp_all add: ai_def union_iter_new_def union_iter_new_at_def)
  have fi: "union_invar fi" "union_items fi = from_all i frees" "union_bitmaps fi = frees"
    using union_iter_new_spec [OF wf2(2)] union_iter_new_at_spec [OF wf2(2), of i]
    by (simp_all add: fi_def union_iter_new_def union_iter_new_at_def)
  from start_pending [OF wf2(1) ai] start_pending [OF wf2(2) fi] obtain a ai' f fi' where
    1: "union_iter_next ai = Ok (a, ai')" "pending_invar i ai' a" "pending_list ai' a = from_all i allocs" "union_bitmaps ai' = allocs"
    "union_iter_next fi = Ok (f, fi')" "pending_invar i fi' f" "pending_list fi' f = from_all i frees" "union_bitmaps fi' = frees" by blast
  have "word_iter_new_at ab allocs frees i = Ok \<lparr>wi_bitmap = ab, pending_allocs_iter = ai', next_pending_alloc = a,
     pending_frees_iter = fi', next_pending_free = f, next_bitmap_word_index = i\<rparr>"
    using 1(1,5) by (simp add: word_iter_new_at_def ai_def fi_def split: if_splits)
  then show ?thesis using word_state_at [OF wf 1(2-4,6-8), of ab] by simp
qed

lemma word_iter_goto_spec:
  assumes wf: "\<forall>sb \<in> set (allocs @ frees). sb_wf sb" and it: "word_state ab allocs frees it"
  shows "\<exists>it'. word_iter_goto it i = Ok it' \<and> word_state ab allocs frees it' \<and> next_bitmap_word_index it' = i"
proof (cases "next_bitmap_word_index it = i")
  case True
  then show ?thesis using it by (simp add: word_iter_goto_def)
next
  case False
  have wf2: "\<forall>sb \<in> set allocs. sb_wf sb" "\<forall>sb \<in> set frees. sb_wf sb" using wf by auto
  have "union_invar (pending_allocs_iter it)" "union_bitmaps (pending_allocs_iter it) = allocs"
    "union_invar (pending_frees_iter it)" "union_bitmaps (pending_frees_iter it) = frees" and ab: "wi_bitmap it = ab"
    using it by (simp_all add: word_state_def word_invar_def pending_invar_def)
  then obtain ai fi where ai: "union_iter_goto (pending_allocs_iter it) i = Ok ai" "union_invar ai" "union_items ai = from_all i allocs"
    "union_bitmaps ai = allocs" and fi: "union_iter_goto (pending_frees_iter it) i = Ok fi" "union_invar fi"
    "union_items fi = from_all i frees" "union_bitmaps fi = frees"
    using union_iter_goto_spec [of "pending_allocs_iter it" i] union_iter_goto_spec [of "pending_frees_iter it" i] by auto
  from start_pending [OF wf2(1) ai(2-4)] start_pending [OF wf2(2) fi(2-4)] obtain a ai' f fi' where
    1: "union_iter_next ai = Ok (a, ai')" "pending_invar i ai' a" "pending_list ai' a = from_all i allocs" "union_bitmaps ai' = allocs"
    "union_iter_next fi = Ok (f, fi')" "pending_invar i fi' f" "pending_list fi' f = from_all i frees" "union_bitmaps fi' = frees" by blast
  have "word_iter_goto it i = Ok (it\<lparr>pending_allocs_iter := ai', next_pending_alloc := a, pending_frees_iter := fi',
               next_pending_free := f, next_bitmap_word_index := i\<rparr>)"
    using False ai(1) fi(1) 1(1,5) by (simp add: word_iter_goto_def)
  then show ?thesis using word_state_at [OF wf 1(2-4,6-8), of ab] ab by (cases it) simp
qed

section \<open>Single blocks\<close>

definition rest_words :: "('a bit_iter_scheme) \<Rightarrow> bitmap_word list" where
  "rest_words it = (case cur_bitmap_word it of None \<Rightarrow> [] | Some w \<Rightarrow> w # map snd (word_items (bi_word_iter it)))"

definition bit_state :: "alloc_bitmap \<Rightarrow> sparse_alloc_bitmap list \<Rightarrow> sparse_alloc_bitmap list \<Rightarrow> ('a bit_iter_scheme) \<Rightarrow> bool" where
  "bit_state ab allocs frees it \<longleftrightarrow> word_state ab allocs frees (bi_word_iter it) \<and> next_pos_in_cur_bitmap_word it < 64
     \<and> (cur_bitmap_word it = None \<longrightarrow> word_items (bi_word_iter it) = [])"

definition word_bits :: "bitmap_word \<Rightarrow> bool list" where
  "word_bits w = map (bit w) [0..<64]"

definition bit_items :: "bit_iter \<Rightarrow> bool list" where
  "bit_items it = drop (next_pos_in_cur_bitmap_word it) (concat (map word_bits (rest_words it)))"

lemma word_next_state:
  assumes "word_state ab allocs frees wi"
  shows "\<exists>wi' w. word_iter_next wi = Ok (w, wi') \<and> word_state ab allocs frees wi'
    \<and> (case map_option snd w of None \<Rightarrow> [] | Some v \<Rightarrow> v # map snd (word_items wi')) = map snd (word_items wi)
    \<and> (map_option snd w = None \<longrightarrow> word_items wi' = [])"
proof -
  from word_it.next_total [OF assms] obtain wi' where
    "word_iter_next wi = Ok (case word_items wi of [] \<Rightarrow> None | a # _ \<Rightarrow> Some a, wi')" "word_state ab allocs frees wi'"
    "word_items wi' = tl (word_items wi)" by blast
  then show ?thesis by (cases "word_items wi") auto
qed

lemma drop_bit_and_1: "(drop_bit n w AND 1 \<noteq> 0) \<longleftrightarrow> bit (w :: bitmap_word) n"
  by (simp add: and_one_eq bit_iff_odd_drop_bit mod_2_eq_odd)

interpretation bit_it: list_iterator "bit_state ab allocs frees" bit_items bit_iter_next
  for ab allocs frees
proof
  fix it :: bit_iter assume a: "bit_state ab allocs frees it" "bit_items it = []"
  have "cur_bitmap_word it = None"
  proof (rule ccontr)
    assume "cur_bitmap_word it \<noteq> None"
    then obtain w where "cur_bitmap_word it = Some w" by auto
    then have "64 \<le> length (concat (map word_bits (rest_words it)))" by (simp add: rest_words_def word_bits_def)
    then show False using a by (auto simp: bit_items_def bit_state_def)
  qed
  then show "\<exists>it'. bit_iter_next it = Ok (None, it') \<and> bit_state ab allocs frees it' \<and> bit_items it' = []"
    using a by (simp add: bit_iter_next_def)
next
  fix it :: bit_iter and a as assume st: "bit_state ab allocs frees it" and items: "bit_items it = a # as"
  let ?p = "next_pos_in_cur_bitmap_word it"
  obtain w where w: "cur_bitmap_word it = Some w" using items by (cases "cur_bitmap_word it") (auto simp: bit_items_def rest_words_def)
  define ws where "ws = map snd (word_items (bi_word_iter it))"
  have p: "?p < 64" and wst: "word_state ab allocs frees (bi_word_iter it)" using st by (simp_all add: bit_state_def)
  have "bit_items it = drop ?p (word_bits w) @ concat (map word_bits ws)"
    using p by (simp add: bit_items_def rest_words_def w ws_def word_bits_def)
  moreover have "drop ?p (word_bits w) = bit w ?p # drop (?p + 1) (word_bits w)"
  proof -
    have "length (word_bits w) = 64" "word_bits w ! ?p = bit w ?p" using p by (simp_all add: word_bits_def)
    then show ?thesis using Cons_nth_drop_Suc [of ?p "word_bits w"] p by simp
  qed
  ultimately have as: "a = bit w ?p" "as = drop (?p + 1) (word_bits w) @ concat (map word_bits ws)" using items by simp_all
  show "\<exists>it'. bit_iter_next it = Ok (Some a, it') \<and> bit_state ab allocs frees it' \<and> bit_items it' = as"
  proof (cases "?p + 1 = 64")
    case True
    from word_next_state [OF wst] obtain wi' v where n: "word_iter_next (bi_word_iter it) = Ok (v, wi')" "word_state ab allocs frees wi'"
      "(case map_option snd v of None \<Rightarrow> [] | Some v \<Rightarrow> v # map snd (word_items wi')) = ws" "map_option snd v = None \<longrightarrow> word_items wi' = []"
      unfolding ws_def by blast
    let ?it = "it\<lparr>bi_word_iter := wi', cur_bitmap_word := map_option snd v, next_pos_in_cur_bitmap_word := 0\<rparr>"
    have "bit_iter_next it = Ok (Some a, ?it)" using w n(1) True as(1) by (simp add: bit_iter_next_def Let_def drop_bit_and_1)
    moreover have "bit_state ab allocs frees ?it" using n(2,4) by (simp add: bit_state_def)
    moreover have "bit_items ?it = as"
    proof -
      have "rest_words ?it = ws" using n(3) by (cases v) (simp_all add: rest_words_def)
      moreover have "drop 64 (word_bits w) = []" by (simp add: word_bits_def)
      ultimately show ?thesis unfolding bit_items_def as(2) True by simp
    qed
    ultimately show ?thesis by blast
  next
    case False
    let ?it = "it\<lparr>next_pos_in_cur_bitmap_word := ?p + 1\<rparr>"
    have "bit_iter_next it = Ok (Some a, ?it)" using w False as(1) by (simp add: bit_iter_next_def Let_def drop_bit_and_1)
    moreover have "bit_state ab allocs frees ?it" using st p False by (simp add: bit_state_def)
    moreover have "bit_items ?it = as"
      using p False as(2) w by (simp add: bit_items_def rest_words_def ws_def word_bits_def)
    ultimately show ?thesis by blast
  qed
qed

section \<open>Chunks\<close>

definition chunk_word :: "nat \<Rightarrow> nat \<Rightarrow> bitmap_word \<Rightarrow> bitmap_word list \<Rightarrow> bitmap_word" where
  "chunk_word c pos w ws = (drop_bit pos w OR (if pos + c > 64 then push_bit (64 - pos) (case ws of [] \<Rightarrow> 0 | v # _ \<Rightarrow> v) else 0))
     AND trailing_bits_mask c"

function chunks_of :: "nat \<Rightarrow> nat \<Rightarrow> bitmap_word list \<Rightarrow> bitmap_word list" where
  "chunks_of c pos [] = []"
| "chunks_of c pos (w # ws) =
     (if 0 < c \<and> c \<le> 64 \<and> pos < 64 then
        chunk_word c pos w ws # (if pos + c \<ge> 64 then chunks_of c (pos + c - 64) ws else chunks_of c (pos + c) (w # ws))
      else [])"
  by pat_completeness auto
termination
  by (relation "measure (\<lambda>(c, pos, ws). 64 * length ws + 64 - pos)") auto

declare chunks_of.simps(2) [simp del]

lemma dense_bits_Cons:
  "b \<in> dense_bits (w # ws) \<longleftrightarrow> (if b < 64 then bit w b else b - 64 \<in> dense_bits ws)"
proof (cases "b < 64")
  case True
  then show ?thesis by (simp add: dense_bits_def)
next
  case False
  then obtain d where d: "b = d + 64" using le_Suc_ex [of 64 b] by (auto simp: add.commute)
  then have "b div 64 = Suc (d div 64)" "b mod 64 = d mod 64" "b - 64 = d" by simp_all
  then show ?thesis using False by (simp add: dense_bits_def)
qed

lemma chunk_word_bit:
  assumes "0 < c" "c \<le> 64" "pos < 64" "j < 64"
  shows "bit (chunk_word c pos w ws) j \<longleftrightarrow> j < c \<and> pos + j \<in> dense_bits (w # ws)"
proof -
  have mask: "bit (trailing_bits_mask c :: bitmap_word) j \<longleftrightarrow> j < c" using assms by (simp add: trailing_bits_mask_eq_mask bit_simps)
  show ?thesis
  proof (cases "pos + j < 64")
    case True
    then show ?thesis using assms mask by (auto simp: chunk_word_def dense_bits_Cons bit_simps)
  next
    case False
    have "\<not> bit w (pos + j)" using False by (auto dest: bit_imp_le_length)
    moreover have "pos + j - 64 < 64" using assms by simp
    then have "pos + j - 64 \<in> dense_bits ws \<longleftrightarrow> (case ws of [] \<Rightarrow> False | v # _ \<Rightarrow> bit v (pos + j - 64))"
      by (cases ws) (auto simp: dense_bits_Cons dense_bits_def)
    moreover have "j - (64 - pos) = pos + j - 64" using False assms by simp
    ultimately show ?thesis using False assms mask
      by (cases ws) (auto simp: chunk_word_def dense_bits_Cons bit_simps)
  qed
qed

lemma chunks_of_nth:
  assumes c: "0 < c" "c \<le> 64" and pos: "pos < 64"
  shows "(n < length (chunks_of c pos ws) \<longleftrightarrow> pos + n * c < 64 * length ws)
    \<and> (pos + n * c < 64 * length ws \<longrightarrow> (\<forall>j<64. bit (chunks_of c pos ws ! n) j \<longleftrightarrow> j < c \<and> pos + n * c + j \<in> dense_bits ws))"
  using pos
proof (induction n arbitrary: pos ws)
  case 0
  then show ?case using c chunks_of.simps(2) [of c pos "hd ws" "tl ws"] by (cases ws) (simp_all add: chunk_word_bit)
next
  case (Suc m)
  show ?case
  proof (cases ws)
    case (Cons w vs)
    show ?thesis
    proof (cases "pos + c \<ge> 64")
      case True
      define pos' where "pos' = pos + c - 64"
      have pos': "pos' < 64" "pos + c = pos' + 64" using True Suc.prems c by (simp_all add: pos'_def)
      have e: "pos + Suc m * c = (pos' + m * c) + 64" using pos'(2) by simp
      have "chunks_of c pos ws = chunk_word c pos w vs # chunks_of c pos' vs"
        using Cons c Suc.prems True chunks_of.simps(2) [of c pos w vs] by (simp add: pos'_def)
      moreover have "b + 64 \<in> dense_bits ws \<longleftrightarrow> b \<in> dense_bits vs" for b unfolding Cons dense_bits_Cons by simp
      moreover have "pos + Suc m * c + j = (pos' + m * c + j) + 64" for j using e by simp
      moreover have "pos + Suc m * c < 64 * length ws \<longleftrightarrow> pos' + m * c < 64 * length vs" unfolding e Cons by simp
      ultimately show ?thesis using Suc.IH [OF pos'(1), of vs] by (simp only: length_Cons nth_Cons_Suc Suc_less_eq) blast
    next
      case False
      have e: "pos + Suc m * c = (pos + c) + m * c" by simp
      have "chunks_of c pos ws = chunk_word c pos w vs # chunks_of c (pos + c) ws"
        using Cons c Suc.prems False chunks_of.simps(2) [of c pos w vs] by simp
      then show ?thesis using Suc.IH [of "pos + c" ws] False unfolding e by simp
    qed
  qed simp
qed

definition chunk_state :: "alloc_bitmap \<Rightarrow> sparse_alloc_bitmap list \<Rightarrow> sparse_alloc_bitmap list \<Rightarrow> chunk_iter \<Rightarrow> bool" where
  "chunk_state ab allocs frees it \<longleftrightarrow> bit_state ab allocs frees it \<and> 0 < chunk_allocation_blocks it \<and> chunk_allocation_blocks it \<le> 64"

definition chunk_items :: "chunk_iter \<Rightarrow> bitmap_word list" where
  "chunk_items it = chunks_of (chunk_allocation_blocks it) (next_pos_in_cur_bitmap_word it) (rest_words it)"

interpretation chunk_it: list_iterator "chunk_state ab allocs frees" chunk_items chunk_iter_next
  for ab allocs frees
proof
  fix it :: chunk_iter assume a: "chunk_state ab allocs frees it" "chunk_items it = []"
  have "cur_bitmap_word it = None"
  proof (rule ccontr)
    assume "cur_bitmap_word it \<noteq> None"
    then obtain w ws where "rest_words it = w # ws" by (auto simp: rest_words_def)
    then show False using a chunks_of.simps(2) [of "chunk_allocation_blocks it" "next_pos_in_cur_bitmap_word it" w ws]
      by (simp add: chunk_items_def chunk_state_def bit_state_def)
  qed
  then show "\<exists>it'. chunk_iter_next it = Ok (None, it') \<and> chunk_state ab allocs frees it' \<and> chunk_items it' = []"
    using a by (simp add: chunk_iter_next_def)
next
  fix it :: chunk_iter and a as assume st: "chunk_state ab allocs frees it" and items: "chunk_items it = a # as"
  let ?p = "next_pos_in_cur_bitmap_word it" and ?c = "chunk_allocation_blocks it"
  obtain w where w: "cur_bitmap_word it = Some w" using items by (cases "cur_bitmap_word it") (auto simp: chunk_items_def rest_words_def)
  define ws where "ws = map snd (word_items (bi_word_iter it))"
  have p: "?p < 64" "0 < ?c" "?c \<le> 64" and wst: "word_state ab allocs frees (bi_word_iter it)"
    using st by (simp_all add: chunk_state_def bit_state_def)
  have rw: "rest_words it = w # ws" using w by (simp add: rest_words_def ws_def)
  have as: "a = chunk_word ?c ?p w ws" "as = (if ?p + ?c \<ge> 64 then chunks_of ?c (?p + ?c - 64) ws else chunks_of ?c (?p + ?c) (w # ws))"
    using items p unfolding chunk_items_def rw chunks_of.simps(2) [of ?c ?p w ws] by simp_all
  show "\<exists>it'. chunk_iter_next it = Ok (Some a, it') \<and> chunk_state ab allocs frees it' \<and> chunk_items it' = as"
  proof (cases "?p + ?c \<ge> 64")
    case True
    from word_next_state [OF wst] obtain wi' v where n: "word_iter_next (bi_word_iter it) = Ok (v, wi')" "word_state ab allocs frees wi'"
      "(case map_option snd v of None \<Rightarrow> [] | Some v \<Rightarrow> v # map snd (word_items wi')) = ws" "map_option snd v = None \<longrightarrow> word_items wi' = []"
      unfolding ws_def by blast
    let ?it = "it\<lparr>bi_word_iter := wi', cur_bitmap_word := map_option snd v, next_pos_in_cur_bitmap_word := ?p + ?c - 64\<rparr>"
    have nxt: "(case ws of [] \<Rightarrow> 0 | x # _ \<Rightarrow> x) = (case v of None \<Rightarrow> 0 | Some x \<Rightarrow> snd x)"
      using n(3) by (cases v) auto
    have sh: "?c - (?p + ?c - 64) = 64 - ?p" using p True by simp
    have "chunk_iter_next it = Ok (Some a, ?it)"
      using w n(1) True unfolding chunk_iter_next_def as(1) chunk_word_def
      by (cases v) (simp_all add: Let_def nxt sh)
    moreover have "chunk_state ab allocs frees ?it" using n(2,4) p st by (simp add: chunk_state_def bit_state_def)
    moreover have "rest_words ?it = ws" using n(3) by (cases v) (simp_all add: rest_words_def)
    then have "chunk_items ?it = as" using as(2) True by (simp add: chunk_items_def)
    ultimately show ?thesis by blast
  next
    case False
    let ?it = "it\<lparr>next_pos_in_cur_bitmap_word := ?p + ?c\<rparr>"
    have "chunk_iter_next it = Ok (Some a, ?it)" using w False as(1) by (simp add: chunk_iter_next_def Let_def chunk_word_def)
    moreover have "chunk_state ab allocs frees ?it" using st False by (simp add: chunk_state_def bit_state_def)
    moreover have "rest_words ?it = w # ws" using w by (simp add: rest_words_def ws_def)
    then have "chunk_items ?it = as" using as(2) False by (simp add: chunk_items_def)
    ultimately show ?thesis by blast
  qed
qed

section \<open>Properties\<close>

lemma first_word_state:
  assumes "word_state ab allocs frees wi" "next_bitmap_word_index wi = i"
  shows "\<exists>wi' w. word_iter_next wi = Ok (w, wi') \<and> word_state ab allocs frees wi'
    \<and> (case map_option snd w of None \<Rightarrow> [] | Some v \<Rightarrow> v # map snd (word_items wi')) = map (virtual_word ab allocs frees) [i..<length (bitmap ab)]
    \<and> (map_option snd w = None \<longrightarrow> word_items wi' = [])"
proof -
  have "map snd (word_items wi) = map (virtual_word ab allocs frees) [i..<length (bitmap ab)]"
    using assms by (simp add: word_state_def comp_def)
  then show ?thesis using word_next_state [OF assms(1)] by simp
qed

lemma virtual_words_bits:
  assumes "\<forall>sb \<in> set (allocs @ frees). sb_wf sb"
  shows "b \<in> dense_bits (map (virtual_word ab allocs frees) [i..<length (bitmap ab)]) \<longleftrightarrow>
    64 * i + b < 64 * length (bitmap ab) \<and> 64 * i + b \<in> virtual_blocks ab allocs frees"
proof -
  have dm: "b = 64 * (b div 64) + b mod 64" "b mod 64 < 64" by simp_all
  have lt: "b div 64 < length (bitmap ab) - i \<longleftrightarrow> 64 * i + b < 64 * length (bitmap ab)" using dm by linarith
  show ?thesis
  proof (cases "b div 64 < length (bitmap ab) - i")
    case True
    then have "bit (virtual_word ab allocs frees (i + b div 64)) (b mod 64) \<longleftrightarrow> 64 * (i + b div 64) + b mod 64 \<in> virtual_blocks ab allocs frees"
      using dm(2) by (intro virtual_word_bit [OF assms]) auto
    moreover have "64 * (i + b div 64) + b mod 64 = 64 * i + b"
      using dm(1) [symmetric] by (simp only: distrib_left add.assoc)
    ultimately show ?thesis using True lt by (simp add: dense_bits_def add.commute)
  next
    case False
    then show ?thesis using lt by (simp add: dense_bits_def)
  qed
qed

lemma chunk_iter_start:
  assumes "\<forall>sb \<in> set (allocs @ frees). sb_wf sb" "0 < c" "c \<le> 64"
  shows "\<exists>it. chunk_iter_new_at ab allocs frees s c = Ok it \<and> chunk_state ab allocs frees it
    \<and> chunk_items it = chunks_of c (s mod 64) (map (virtual_word ab allocs frees) [s div 64..<length (bitmap ab)])
    \<and> chunk_allocation_blocks it = c"
proof -
  from word_iter_new_at_spec [OF assms(1), of ab "s div 64"] obtain wi where wi: "word_iter_new_at ab allocs frees (s div 64) = Ok wi"
    "word_state ab allocs frees wi" "next_bitmap_word_index wi = s div 64" by blast
  from first_word_state [OF wi(2,3)] obtain wi' w where w: "word_iter_next wi = Ok (w, wi')" "word_state ab allocs frees wi'"
    "(case map_option snd w of None \<Rightarrow> [] | Some v \<Rightarrow> v # map snd (word_items wi')) = map (virtual_word ab allocs frees) [s div 64..<length (bitmap ab)]"
    "map_option snd w = None \<longrightarrow> word_items wi' = []" by blast
  let ?it = "\<lparr>bi_word_iter = wi', cur_bitmap_word = map_option snd w, next_pos_in_cur_bitmap_word = s mod 64, chunk_allocation_blocks = c\<rparr>"
  have "chunk_iter_new_at ab allocs frees s c = Ok ?it" using wi(1) w(1) assms(3) by (simp add: chunk_iter_new_at_def Let_def drop_bit_6)
  moreover have "chunk_state ab allocs frees ?it" using w(2,4) assms(2,3) by (simp add: chunk_state_def bit_state_def)
  moreover have "rest_words ?it = map (virtual_word ab allocs frees) [s div 64..<length (bitmap ab)]"
    using w(3) by (cases w) (simp_all add: rest_words_def)
  ultimately show ?thesis by (simp add: chunk_items_def)
qed

lemma chunk_iter_goto_spec:
  assumes wf: "\<forall>sb \<in> set (allocs @ frees). sb_wf sb" and st: "chunk_state ab allocs frees it"
  shows "\<exists>it'. chunk_iter_goto it s = Ok it' \<and> chunk_state ab allocs frees it'
    \<and> chunk_items it' = chunks_of (chunk_allocation_blocks it) (s mod 64) (map (virtual_word ab allocs frees) [s div 64..<length (bitmap ab)])"
proof -
  have "word_state ab allocs frees (bi_word_iter it)" using st by (simp add: chunk_state_def bit_state_def)
  from word_iter_goto_spec [OF wf this, of "s div 64"] obtain wi where wi: "word_iter_goto (bi_word_iter it) (s div 64) = Ok wi"
    "word_state ab allocs frees wi" "next_bitmap_word_index wi = s div 64" by blast
  from first_word_state [OF wi(2,3)] obtain wi' w where w: "word_iter_next wi = Ok (w, wi')" "word_state ab allocs frees wi'"
    "(case map_option snd w of None \<Rightarrow> [] | Some v \<Rightarrow> v # map snd (word_items wi')) = map (virtual_word ab allocs frees) [s div 64..<length (bitmap ab)]"
    "map_option snd w = None \<longrightarrow> word_items wi' = []" by blast
  let ?it = "it\<lparr>next_pos_in_cur_bitmap_word := s mod 64, bi_word_iter := wi', cur_bitmap_word := map_option snd w\<rparr>"
  have "chunk_iter_goto it s = Ok ?it" using wi(1) w(1) by (simp add: chunk_iter_goto_def Let_def drop_bit_6)
  moreover have "chunk_state ab allocs frees ?it" using w(2,4) st by (simp add: chunk_state_def bit_state_def)
  moreover have "rest_words ?it = map (virtual_word ab allocs frees) [s div 64..<length (bitmap ab)]"
    using w(3) by (cases w) (simp_all add: rest_words_def)
  ultimately show ?thesis by (simp add: chunk_items_def)
qed

lemma chunks_of_virtual:
  assumes "\<forall>sb \<in> set (allocs @ frees). sb_wf sb" "0 < c" "c \<le> 64"
    and ws: "ws = map (virtual_word ab allocs frees) [s div 64..<length (bitmap ab)]"
  shows "n < length (chunks_of c (s mod 64) ws) \<longleftrightarrow> s + n * c < 64 * length (bitmap ab)"
    "s + n * c < 64 * length (bitmap ab) \<Longrightarrow> j < 64 \<Longrightarrow> bit (chunks_of c (s mod 64) ws ! n) j \<longleftrightarrow>
       j < c \<and> s + n * c + j < 64 * length (bitmap ab) \<and> s + n * c + j \<in> virtual_blocks ab allocs frees"
proof -
  have sm: "s = 64 * (s div 64) + s mod 64" "s mod 64 < 64" by simp_all
  have len: "s mod 64 + n * c < 64 * length ws \<longleftrightarrow> s + n * c < 64 * length (bitmap ab)" 
  proof -
    have "r + x < 64 * (l - p) \<longleftrightarrow> 64 * p + r + x < 64 * l" for r x l p :: nat by linarith
    from this [of "s mod 64" "n * c" "length (bitmap ab)" "s div 64"] show ?thesis unfolding ws by simp
  qed
  note nth = chunks_of_nth [OF assms(2,3) sm(2), of n ws]
  show "n < length (chunks_of c (s mod 64) ws) \<longleftrightarrow> s + n * c < 64 * length (bitmap ab)" using nth len by blast
  assume "s + n * c < 64 * length (bitmap ab)" "j < 64"
  then have "bit (chunks_of c (s mod 64) ws ! n) j \<longleftrightarrow> j < c \<and> s mod 64 + n * c + j \<in> dense_bits ws" using nth len by blast
  moreover have "64 * (s div 64) + (s mod 64 + n * c + j) = s + n * c + j" using sm(1) by linarith
  ultimately show "bit (chunks_of c (s mod 64) ws ! n) j \<longleftrightarrow>
       j < c \<and> s + n * c + j < 64 * length (bitmap ab) \<and> s + n * c + j \<in> virtual_blocks ab allocs frees"
    unfolding ws using virtual_words_bits [OF assms(1), of "s mod 64 + n * c + j" ab "s div 64"] by simp
qed

text \<open>
  the iterator over the words of the bitmap yields, from the start word on and in order, the words
  of the bitmap with all pending allocations added and all pending deallocations removed.
\<close>

theorem word_iter_correct:
  assumes "\<forall>sb \<in> set (allocs @ frees). sb_wf sb"
  shows "\<exists>it ws. word_iter_new_at ab allocs frees i = Ok it
    \<and> take_items word_iter_next (length (bitmap ab)) it = Ok ws
    \<and> map fst ws = [i..<length (bitmap ab)]
    \<and> (\<forall>(k, w) \<in> set ws. \<forall>j<64. bit w j \<longleftrightarrow> 64 * k + j \<in> virtual_blocks ab allocs frees)"
proof -
  from word_iter_new_at_spec [OF assms, of ab i] obtain it where it: "word_iter_new_at ab allocs frees i = Ok it"
    "word_state ab allocs frees it" "next_bitmap_word_index it = i" by blast
  let ?ws = "map (\<lambda>k. (k, virtual_word ab allocs frees k)) [i..<length (bitmap ab)]"
  have items: "word_items it = ?ws" using it(2,3) by (simp add: word_state_def)
  have "take_items word_iter_next (length (bitmap ab)) it = Ok ?ws"
    using word_it.take_items_all [OF it(2), of "length (bitmap ab)"] unfolding items by simp
  moreover have "\<forall>(k, w) \<in> set ?ws. \<forall>j<64. bit w j \<longleftrightarrow> 64 * k + j \<in> virtual_blocks ab allocs frees"
    using virtual_word_bit [OF assms] by auto
  ultimately show ?thesis using it(1) by (intro exI [of _ it] exI [of _ ?ws]) (simp add: comp_def)
qed

theorem word_iter_correct_witness:
  "\<exists>it ws. word_iter_new_at \<lparr>bitmap = [7, 0, 3]\<rparr> [\<lparr>sb_entries = [(0, 8), (2, 4)], remove_rollback_reserve_capacity = 0\<rparr>]
       [\<lparr>sb_entries = [(2, 1)], remove_rollback_reserve_capacity = 0\<rparr>] 1 = Ok it
    \<and> take_items word_iter_next 3 it = Ok ws \<and> map fst ws = [1, 2]"
proof -
  have wf: "\<forall>sb \<in> set ([\<lparr>sb_entries = [(0, 8), (2, 4)], remove_rollback_reserve_capacity = 0\<rparr>]
      @ [\<lparr>sb_entries = [(2, 1)], remove_rollback_reserve_capacity = 0\<rparr>]). sb_wf sb" by (simp add: sb_wf_def)
  have l: "length (bitmap \<lparr>bitmap = [7, 0, 3]\<rparr>) = 3" "[1..<3] = [1, 2::nat]" by (simp_all add: upt_rec)
  from word_iter_correct [OF wf, of "\<lparr>bitmap = [7, 0, 3]\<rparr>" 1] show ?thesis unfolding l by (elim exE conjE) (intro exI conjI)
qed

text \<open>
  The iterator over chunks of \<open>c\<close> blocks from block \<open>s\<close> on yields a chunk for every start
  within the bitmap, also after moving it elsewhere; bit \<open>j\<close> of chunk \<open>n\<close> tells whether block
  \<open>s + n c + j\<close> is allocated with the pending changes applied, and is zero beyond the end of
  the bitmap.
\<close>

theorem chunk_iter_correct:
  assumes "\<forall>sb \<in> set (allocs @ frees). sb_wf sb" "0 < c" "c \<le> 64"
  shows "\<exists>it it' xs ys. chunk_iter_new_at ab allocs frees s c = Ok it
    \<and> take_items chunk_iter_next m it = Ok xs
    \<and> chunk_iter_goto it s' = Ok it' \<and> take_items chunk_iter_next m it' = Ok ys
    \<and> (\<forall>n<m. (n < length xs \<longleftrightarrow> s + n * c < 64 * length (bitmap ab)) \<and> (n < length ys \<longleftrightarrow> s' + n * c < 64 * length (bitmap ab)))
    \<and> (\<forall>n<length xs. \<forall>j<64. bit (xs ! n) j \<longleftrightarrow>
         j < c \<and> s + n * c + j < 64 * length (bitmap ab) \<and> s + n * c + j \<in> virtual_blocks ab allocs frees)
    \<and> (\<forall>n<length ys. \<forall>j<64. bit (ys ! n) j \<longleftrightarrow>
         j < c \<and> s' + n * c + j < 64 * length (bitmap ab) \<and> s' + n * c + j \<in> virtual_blocks ab allocs frees)"
proof -
  define cs where "cs s = chunks_of c (s mod 64) (map (virtual_word ab allocs frees) [s div 64..<length (bitmap ab)])" for s
  have len: "n < length (cs s) \<longleftrightarrow> s + n * c < 64 * length (bitmap ab)" for n s
    unfolding cs_def by (rule chunks_of_virtual(1) [OF assms refl])
  have bits: "bit (cs s ! n) j \<longleftrightarrow> j < c \<and> s + n * c + j < 64 * length (bitmap ab) \<and> s + n * c + j \<in> virtual_blocks ab allocs frees"
    if "n < length (cs s)" "j < 64" for s n j
    using chunks_of_virtual(2) [OF assms refl] that len unfolding cs_def by blast
  from chunk_iter_start [OF assms, of ab s] obtain it where it: "chunk_iter_new_at ab allocs frees s c = Ok it"
    "chunk_state ab allocs frees it" "chunk_items it = cs s" "chunk_allocation_blocks it = c" unfolding cs_def by blast
  from chunk_iter_goto_spec [OF assms(1) it(2), of s'] it(4) obtain it' where it': "chunk_iter_goto it s' = Ok it'"
    "chunk_state ab allocs frees it'" "chunk_items it' = cs s'" unfolding cs_def by auto
  have "take_items chunk_iter_next m it = Ok (take m (cs s))" "take_items chunk_iter_next m it' = Ok (take m (cs s'))"
    using chunk_it.take_items_eq [OF it(2), of m] chunk_it.take_items_eq [OF it'(2), of m] it(3) it'(3) by simp_all
  then show ?thesis using it(1) it'(1) len bits
    by (intro exI [of _ it] exI [of _ it'] exI [of _ "take m (cs s)"] exI [of _ "take m (cs s')"]) simp
qed

theorem chunk_iter_correct_witness:
  "\<exists>it xs. chunk_iter_new_at \<lparr>bitmap = [7, 1]\<rparr> [\<lparr>sb_entries = [(0, 8)], remove_rollback_reserve_capacity = 0\<rparr>] [] 60 7 = Ok it
    \<and> take_items chunk_iter_next 2 it = Ok xs \<and> (0 < length xs) \<and> (1 < length xs)"
proof -
  have "\<forall>sb \<in> set ([\<lparr>sb_entries = [(0, 8)], remove_rollback_reserve_capacity = 0\<rparr>] @ []). sb_wf sb" by (simp add: sb_wf_def)
  from chunk_iter_correct [OF this, of 7 "\<lparr>bitmap = [7, 1]\<rparr>" 60 2 0] show ?thesis
    by (fastforce dest: spec [of _ 0] spec [of _ 1])
qed

end
