(* ===== verification/Block_Set_Spec.thy ===== *)
theory Block_Set_Spec
  imports Block_Range
begin

text \<open>
  The contract of a data structure that holds a set of allocation blocks and is updated by whole
  ranges: an invariant, an abstraction to a set of block numbers, and the laws that adding and
  removing a range are union and difference and fail for no other reason than memory. A client
  that runs a sequence of updates is verified once against the contract.
\<close>

datatype range_op = AddRange bool block_range | RemoveRange bool block_range

fun op_range :: "range_op \<Rightarrow> block_range" where
  "op_range (AddRange mem q) = q"
| "op_range (RemoveRange mem q) = q"

fun op_mem :: "range_op \<Rightarrow> bool" where
  "op_mem (AddRange mem q) = mem"
| "op_mem (RemoveRange mem q) = mem"

fun op_effect :: "range_op \<Rightarrow> nat set \<Rightarrow> nat set" where
  "op_effect (AddRange mem q) B = B \<union> blocks q"
| "op_effect (RemoveRange mem q) B = B - blocks q"

fun run_ops :: "(bool \<Rightarrow> 's \<Rightarrow> block_range \<Rightarrow> 's outcome) \<Rightarrow> (bool \<Rightarrow> 's \<Rightarrow> block_range \<Rightarrow> 's outcome)
    \<Rightarrow> range_op list \<Rightarrow> 's \<Rightarrow> 's outcome" where
  "run_ops add rem [] s = Ok s"
| "run_ops add rem (AddRange mem q # ops) s = and_then (add mem s q) (run_ops add rem ops)"
| "run_ops add rem (RemoveRange mem q # ops) s = and_then (rem mem s q) (run_ops add rem ops)"

locale block_set =
  fixes invar :: "'s \<Rightarrow> bool" and abs_blocks :: "'s \<Rightarrow> nat set"
    and add_range :: "bool \<Rightarrow> 's \<Rightarrow> block_range \<Rightarrow> 's outcome"
    and remove_range :: "bool \<Rightarrow> 's \<Rightarrow> block_range \<Rightarrow> 's outcome"
  assumes add_range_law: "invar s \<Longrightarrow> range_wf q \<Longrightarrow> case add_range mem s q of
      Ok s' \<Rightarrow> invar s' \<and> abs_blocks s' = abs_blocks s \<union> blocks q
    | Err e \<Rightarrow> e = MemoryAllocationFailure \<and> \<not> mem
    | Panic \<Rightarrow> False"
    and remove_range_law: "invar s \<Longrightarrow> range_wf q \<Longrightarrow> case remove_range mem s q of
      Ok s' \<Rightarrow> invar s' \<and> abs_blocks s' = abs_blocks s - blocks q
    | Err e \<Rightarrow> e = MemoryAllocationFailure \<and> \<not> mem
    | Panic \<Rightarrow> False"
begin

lemma add_range_Ok:
  assumes "invar s" "range_wf q"
  obtains s' where "add_range True s q = Ok s'" "invar s'" "abs_blocks s' = abs_blocks s \<union> blocks q"
  using add_range_law [OF assms, of True] by (cases "add_range True s q") auto

lemma remove_range_Ok:
  assumes "invar s" "range_wf q"
  obtains s' where "remove_range True s q = Ok s'" "invar s'" "abs_blocks s' = abs_blocks s - blocks q"
  using remove_range_law [OF assms, of True] by (cases "remove_range True s q") auto

lemma run_ops_total:
  assumes "invar s" "\<forall>op \<in> set ops. range_wf (op_range op) \<and> op_mem op"
  shows "\<exists>s'. run_ops add_range remove_range ops s = Ok s'
    \<and> invar s' \<and> abs_blocks s' = fold op_effect ops (abs_blocks s)"
  using assms
proof (induction ops arbitrary: s)
  case (Cons op ops)
  show ?case
  proof (cases op)
    case (AddRange mem q)
    with Cons.prems obtain s' where "add_range mem s q = Ok s'" "invar s'"
        "abs_blocks s' = abs_blocks s \<union> blocks q"
      using add_range_Ok [of s q] by auto
    with AddRange Cons.IH [of s'] Cons.prems(2) show ?thesis by simp
  next
    case (RemoveRange mem q)
    with Cons.prems obtain s' where "remove_range mem s q = Ok s'" "invar s'"
        "abs_blocks s' = abs_blocks s - blocks q"
      using remove_range_Ok [of s q] by auto
    with RemoveRange Cons.IH [of s'] Cons.prems(2) show ?thesis by simp
  qed
qed simp

end

end
