(* ===== verification/Extents_Set.thy ===== *)
theory Extents_Set
  imports Block_Set_Spec
begin

text \<open>
  The set of disjoint extents \<open>PhysicalExtentsSet\<close> of
  \<open>src/storage/src/fs/cocoonfs/extents.rs\<close>: a vector of \<open>(begin, end)\<close> pairs sorted by
  position, searched by the two hand written binary searches of \<open>_overlaps\<close>.

  The abstraction \<open>es_blocks\<close> is the set of blocks the entries cover. The theorems say that under
  the invariant \<open>es_wf\<close> the search returns exactly the entries that overlap with the query,
  that \<open>insert\<close> and \<open>remove\<close> are union and difference, keep the invariant and never panic,
  and that the iterator yields the intersection with the query.
\<close>

type_synonym physical_extents_set = "(nat \<times> nat) list"

section \<open>Writing one component of an entry\<close>

definition vec_set_fst :: "('a \<times> 'b) list \<Rightarrow> nat \<Rightarrow> 'a \<Rightarrow> ('a \<times> 'b) list outcome" where
  "vec_set_fst es i v = and_then (vec_get es i) (\<lambda>e. vec_set es i (v, snd e))"

definition vec_set_snd :: "('a \<times> 'b) list \<Rightarrow> nat \<Rightarrow> 'b \<Rightarrow> ('a \<times> 'b) list outcome" where
  "vec_set_snd es i v = and_then (vec_get es i) (\<lambda>e. vec_set es i (fst e, v))"

lemma vec_set_fst_snd_Ok [simp]:
  "i < length es \<Longrightarrow> vec_set_fst es i v = Ok (es[i := (v, snd (es ! i))])"
  "i < length es \<Longrightarrow> vec_set_snd es i w = Ok (es[i := (fst (es ! i), w)])"
  by (simp_all add: vec_set_fst_def vec_set_snd_def)

section \<open>Operations\<close>

definition entry_physical_range :: "physical_extents_set \<Rightarrow> nat \<Rightarrow> block_range outcome" where
  "entry_physical_range es index =
     and_then (vec_get es index) (\<lambda>entry. block_range_new (fst entry) (snd entry))"

text \<open>
  The first loop of \<open>_overlaps\<close>. A search interval with \<open>u < l\<close> does not arise; the branch
  for it only makes the function total.
\<close>

function overlaps_index_first ::
  "physical_extents_set \<Rightarrow> block_range \<Rightarrow> nat \<Rightarrow> nat \<Rightarrow> nat \<Rightarrow> nat \<Rightarrow> (nat \<times> nat \<times> nat) outcome" where
  "overlaps_index_first es q l u l_index_last u_index_last =
     (if l = u then
        and_then (entry_physical_range es u) (\<lambda>r.
        debug_assert (range_begin q < range_end r)
        (if u = 0 then Ok (u, l_index_last, u_index_last)
         else and_then (entry_physical_range es (u - 1)) (\<lambda>p.
              debug_assert (range_begin q \<ge> range_end p)
              (Ok (u, l_index_last, u_index_last)))))
      else if u < l then Panic
      else let i = midpoint l u in
        debug_assert (i \<noteq> u)
        (and_then (entry_physical_range es i) (\<lambda>r.
         if range_begin q < range_end r then
           if range_end q \<le> range_begin r then
             and_then (sub_u64 i 1) (\<lambda>u'. overlaps_index_first es q l i l_index_last u')
           else overlaps_index_first es q l i l_index_last u_index_last
         else overlaps_index_first es q (i + 1) u i u_index_last)))"
  by pat_completeness auto
termination
  by (relation "measure (\<lambda>(es, q, l, u, ll, ul). u - l)") auto

function overlaps_index_last :: "physical_extents_set \<Rightarrow> block_range \<Rightarrow> nat \<Rightarrow> nat \<Rightarrow> nat outcome" where
  "overlaps_index_last es q l u =
     (if l = u then
        and_then (entry_physical_range es l) (\<lambda>r.
        debug_assert (range_end q > range_begin r)
        (if l = length es - 1 then Ok l
         else and_then (entry_physical_range es (l + 1)) (\<lambda>n.
              debug_assert (range_end q \<le> range_begin n) (Ok l))))
      else
        debug_assert (l < u)
        (let i = midpoint (l + 1) u in
         debug_assert (i \<noteq> l)
         (and_then (entry_physical_range es i) (\<lambda>r.
          if range_end q \<le> range_begin r then
            and_then (sub_u64 i 1) (\<lambda>u'. overlaps_index_last es q l u')
          else overlaps_index_last es q i u))))"
  by pat_completeness auto
termination
  by (relation "measure (\<lambda>(es, q, l, u). u - l)") (auto simp: outcome_simps)

declare overlaps_index_first.simps [simp del] overlaps_index_last.simps [simp del]

definition overlaps_indices :: "physical_extents_set \<Rightarrow> block_range \<Rightarrow> (nat \<times> nat) outcome" where
  "overlaps_indices es q =
     (if es = [] then Ok (0, 0)
      else and_then (entry_physical_range es 0) (\<lambda>r0.
        if range_begin r0 \<ge> range_end q then Ok (0, 0)
        else and_then (entry_physical_range es (length es - 1)) (\<lambda>rn.
          if range_end rn \<le> range_begin q then Ok (length es, length es)
          else and_then (overlaps_index_first es q 0 (length es - 1) 0 (length es - 1))
            (\<lambda>(index_first, l, u).
          and_then (overlaps_index_last es q l u) (\<lambda>index_last.
          let index_begin = index_first; index_end = index_last + 1 in
          debug_assert (index_begin \<le> index_end) (Ok (index_begin, index_end)))))))"

definition extents_set_insert ::
  "bool \<Rightarrow> physical_extents_set \<Rightarrow> block_range \<Rightarrow> physical_extents_set outcome" where
  "extents_set_insert mem es q =
     and_then (overlaps_indices es q) (\<lambda>(overlap_begin, overlap_end).
     and_then (if overlap_begin \<noteq> 0
               then and_then (entry_physical_range es (overlap_begin - 1)) (\<lambda>r.
                    Ok (if range_end r = range_begin q then overlap_begin - 1 else overlap_begin))
               else Ok overlap_begin) (\<lambda>overlap_begin.
     and_then (if overlap_end < length es
               then and_then (entry_physical_range es overlap_end) (\<lambda>r.
                    Ok (if range_begin r = range_end q then overlap_end + 1 else overlap_end))
               else Ok overlap_end) (\<lambda>overlap_end.
     and_then (if overlap_begin = 0 then Ok True
               else and_then (entry_physical_range es (overlap_begin - 1)) (\<lambda>r.
                    Ok (range_end r < range_begin q))) (\<lambda>before_ok. debug_assert before_ok
     (and_then (if overlap_end = length es then Ok True
               else and_then (entry_physical_range es overlap_end) (\<lambda>r.
                    Ok (range_begin r > range_end q))) (\<lambda>after_ok. debug_assert after_ok
     (if overlap_begin = overlap_end then
        if mem then vec_insert es overlap_begin (range_begin q, range_end q)
        else Err MemoryAllocationFailure
      else
        and_then (entry_physical_range es overlap_begin) (\<lambda>r.
        and_then (vec_set_fst es overlap_begin (min (range_begin r) (range_begin q))) (\<lambda>es.
        and_then (entry_physical_range es (overlap_end - 1)) (\<lambda>r.
        and_then (vec_set_snd es overlap_begin (max (range_end r) (range_end q))) (\<lambda>es.
        vec_drain es (overlap_begin + 1) overlap_end)))))))))))"

definition extents_set_remove ::
  "bool \<Rightarrow> physical_extents_set \<Rightarrow> block_range \<Rightarrow> physical_extents_set outcome" where
  "extents_set_remove mem es q =
     and_then (overlaps_indices es q) (\<lambda>(overlap_begin, overlap_end).
     if overlap_begin = overlap_end then Ok es
     else and_then (entry_physical_range es overlap_begin) (\<lambda>r.
       if overlap_begin + 1 = overlap_end \<and> range_begin r < range_begin q \<and> range_end r > range_end q
       then
         if mem then
           and_then (vec_insert es (overlap_begin + 1) (range_end q, range_end r)) (\<lambda>es.
           vec_set_snd es overlap_begin (range_begin q))
         else Err MemoryAllocationFailure
       else
         and_then (if range_begin r < range_begin q
                   then and_then (vec_set_snd es overlap_begin (range_begin q)) (\<lambda>es.
                        Ok (es, overlap_begin + 1))
                   else Ok (es, overlap_begin)) (\<lambda>(es, overlap_begin).
         and_then (entry_physical_range es (overlap_end - 1)) (\<lambda>r.
         and_then (if range_end r > range_end q
                   then and_then (vec_set_fst es (overlap_end - 1) (range_end q)) (\<lambda>es.
                        Ok (es, overlap_end - 1))
                   else Ok (es, overlap_end)) (\<lambda>(es, overlap_end).
         vec_drain es overlap_begin overlap_end)))))"

section \<open>The overlaps iterator\<close>

record overlaps_iterator =
  iter_extents :: physical_extents_set
  iter_query_range :: block_range
  iter_index_begin :: nat
  iter_index_end :: nat

definition overlaps :: "physical_extents_set \<Rightarrow> block_range \<Rightarrow> overlaps_iterator outcome" where
  "overlaps es q =
     and_then (overlaps_indices es q) (\<lambda>(b, e).
     Ok \<lparr>iter_extents = es, iter_query_range = q, iter_index_begin = b, iter_index_end = e\<rparr>)"

definition overlaps_next :: "overlaps_iterator \<Rightarrow> (block_range option \<times> overlaps_iterator) outcome" where
  "overlaps_next it =
     (if iter_index_begin it < iter_index_end it then
        let index = iter_index_begin it; it' = it\<lparr>iter_index_begin := index + 1\<rparr> in
        and_then (entry_physical_range (iter_extents it) index) (\<lambda>r.
        and_then (block_range_new (max (range_begin r) (range_begin (iter_query_range it)))
                                  (min (range_end r) (range_end (iter_query_range it)))) (\<lambda>c.
        Ok (Some c, it')))
      else Ok (None, it))"

text \<open>A client's loop over the iterator, until it yields nothing.\<close>

function overlaps_collect :: "overlaps_iterator \<Rightarrow> block_range list outcome" where
  "overlaps_collect it =
     (if iter_index_begin it < iter_index_end it then
        and_then (overlaps_next it) (\<lambda>(item, it').
        case item of None \<Rightarrow> Ok []
        | Some r \<Rightarrow> and_then (overlaps_collect it') (\<lambda>rs. Ok (r # rs)))
      else Ok [])"
  by pat_completeness auto
termination
  by (relation "measure (\<lambda>it. iter_index_end it - iter_index_begin it)")
    (auto simp: overlaps_next_def Let_def outcome_simps split: if_splits)

declare overlaps_collect.simps [simp del]

definition collect_overlaps :: "physical_extents_set \<Rightarrow> block_range \<Rightarrow> block_range list outcome" where
  "collect_overlaps es q = and_then (overlaps es q) overlaps_collect"

section \<open>Invariant and abstraction\<close>

definition es_wf :: "physical_extents_set \<Rightarrow> bool" where
  "es_wf es \<longleftrightarrow> sorted_wrt (\<lambda>x y. snd x \<le> fst y) es \<and> (\<forall>x \<in> set es. fst x < snd x \<and> snd x < u64_bound)"

definition es_blocks :: "physical_extents_set \<Rightarrow> nat set" where
  "es_blocks es = (\<Union>x \<in> set es. {fst x..<snd x})"

lemma es_wf_nth:
  assumes "es_wf es" "i < length es"
  shows "fst (es ! i) < snd (es ! i)" "snd (es ! i) < u64_bound"
  using assms by (auto simp: es_wf_def)

lemma es_wf_nth_less:
  assumes "es_wf es" "i < j" "j < length es"
  shows "snd (es ! i) \<le> fst (es ! j)"
  using assms by (auto simp: es_wf_def sorted_wrt_iff_nth_less)

lemma es_wf_mono:
  assumes "es_wf es" "i \<le> j" "j < length es"
  shows "fst (es ! i) \<le> fst (es ! j) \<and> snd (es ! i) \<le> snd (es ! j)"
proof (cases "i = j")
  case False
  then have "snd (es ! i) \<le> fst (es ! j)" using assms by (intro es_wf_nth_less) auto
  moreover have "fst (es ! i) < snd (es ! i)" "fst (es ! j) < snd (es ! j)"
    using assms by (auto intro: es_wf_nth)
  ultimately show ?thesis by linarith
qed simp

lemma es_wf_append [simp]:
  "es_wf (xs @ ys) \<longleftrightarrow> es_wf xs \<and> es_wf ys \<and> (\<forall>x \<in> set xs. \<forall>y \<in> set ys. snd x \<le> fst y)"
  by (auto simp: es_wf_def sorted_wrt_append)

lemma es_wf_Cons [simp]:
  "es_wf (x # xs) \<longleftrightarrow> fst x < snd x \<and> snd x < u64_bound \<and> es_wf xs \<and> (\<forall>y \<in> set xs. snd x \<le> fst y)"
  by (auto simp: es_wf_def)

lemma es_wf_Nil [simp]: "es_wf []"
  by (simp add: es_wf_def)

lemma es_blocks_simps [simp]:
  "es_blocks [] = {}"
  "es_blocks (x # xs) = {fst x..<snd x} \<union> es_blocks xs"
  "es_blocks (xs @ ys) = es_blocks xs \<union> es_blocks ys"
  by (auto simp: es_blocks_def)

lemma entry_physical_range_Ok [simp]:
  "es_wf es \<Longrightarrow> i < length es \<Longrightarrow>
   entry_physical_range es i = Ok (mk_range (fst (es ! i)) (snd (es ! i)))"
  by (simp add: entry_physical_range_def es_wf_nth)

section \<open>The binary searches\<close>


lemma overlaps_index_first_spec:
  assumes wf: "es_wf es" and "fst (es ! 0) < range_end q" "range_begin q < range_end q"
    and "l \<le> u" "u < length es"
    and "\<forall>k<l. snd (es ! k) \<le> range_begin q" "range_begin q < snd (es ! u)"
    and "ll < length es" "fst (es ! ll) < range_end q"
    and "ul < length es" "\<forall>k. ul < k \<and> k < length es \<longrightarrow> range_end q \<le> fst (es ! k)"
  shows "\<exists>ll' ul'. overlaps_index_first es q l u ll ul
      = Ok (partition_point (\<lambda>e. snd e \<le> range_begin q) es, ll', ul')
    \<and> ll' < length es \<and> fst (es ! ll') < range_end q
    \<and> ul' < length es \<and> (\<forall>k. ul' < k \<and> k < length es \<longrightarrow> range_end q \<le> fst (es ! k))"
  using assms
proof (induction es q l u ll ul rule: overlaps_index_first.induct)
  case (1 es q l u ll ul)
  note wf = "1.prems"(1)
  show ?case
  proof (cases "l = u")
    case True
    have "partition_point (\<lambda>e. snd e \<le> range_begin q) es = u"
      using "1.prems" True by (intro partition_pointI) auto
    moreover have "u \<noteq> 0 \<Longrightarrow> snd (es ! (u - 1)) \<le> range_begin q"
      using "1.prems"(6) True by simp
    ultimately show ?thesis
      using "1.prems" True by (simp add: overlaps_index_first.simps)
  next
    case False
    let ?i = "midpoint l u"
    have i: "l \<le> ?i" "?i < u" "?i < length es" using False "1.prems"(4,5) by simp_all
    have lu: "\<not> u < l" "?i \<noteq> u" using "1.prems"(4) i(2) by simp_all
    have en: "entry_physical_range es ?i = Ok (mk_range (fst (es ! ?i)) (snd (es ! ?i)))"
      using wf i(3) by simp
    note step = overlaps_index_first.simps [of es q l u ll ul]
    show ?thesis
    proof (cases "range_begin q < snd (es ! ?i)")
      case T: True
      show ?thesis
      proof (cases "range_end q \<le> fst (es ! ?i)")
        case True
        then have i0: "?i \<noteq> 0" using "1.prems"(2) by (cases "?i = 0") auto
        have after: "range_end q \<le> fst (es ! k)" if "?i - 1 < k" "k < length es" for k
          using es_wf_mono [OF wf _ that(2), of ?i] that(1) True by linarith
        have "?i - 1 < length es" using i(3) by simp
        with "1.IH"(1) [OF False lu(1) refl lu(2) en] True T i0 after i "1.prems"
        show ?thesis
          using False lu en by (simp add: step Let_def del: midpoint_eq)
      next
        case F: False
        with "1.IH"(2) [OF False lu(1) refl lu(2) en] T i "1.prems"
        show ?thesis
          using False lu en by (simp add: step Let_def del: midpoint_eq)
      qed
    next
      case F: False
      have lower: "snd (es ! k) \<le> range_begin q" if "k < ?i + 1" for k
        using that F i(3) es_wf_mono [OF wf, of k ?i] by simp
      have li: "fst (es ! ?i) < range_end q"
        using F es_wf_nth(1) [OF wf i(3)] "1.prems"(3) by simp
      with "1.IH"(3) [OF False lu(1) refl lu(2) en] F lower i "1.prems"
      show ?thesis
        using False lu en by (simp add: step Let_def del: midpoint_eq)
    qed
  qed
qed

lemma overlaps_index_last_spec:
  assumes wf: "es_wf es"
    and "l \<le> u" "u < length es" "fst (es ! l) < range_end q"
    and "\<forall>k. u < k \<and> k < length es \<longrightarrow> range_end q \<le> fst (es ! k)"
  shows "\<exists>n. overlaps_index_last es q l u = Ok n
    \<and> partition_point (\<lambda>e. fst e < range_end q) es = n + 1"
  using assms
proof (induction es q l u rule: overlaps_index_last.induct)
  case (1 es q l u)
  note wf = "1.prems"(1)
  show ?case
  proof (cases "l = u")
    case True
    have "fst (es ! k) < range_end q" if "k \<le> l" for k
      using that True "1.prems" es_wf_mono [OF wf, of k l] by simp
    then have "partition_point (\<lambda>e. fst e < range_end q) es = l + 1"
      using True "1.prems" by (intro partition_pointI) (auto simp: not_less)
    then show ?thesis
      using "1.prems" True by (auto simp: overlaps_index_last.simps)
  next
    case False
    let ?i = "midpoint (l + 1) u"
    have lu: "l < u" using False "1.prems"(2) by simp
    have i: "l < ?i" "?i \<le> u" "?i < length es" using lu "1.prems"(3) by auto
    have il: "?i \<noteq> l" "?i \<noteq> 0" using i(1) by auto
    have en: "entry_physical_range es ?i = Ok (mk_range (fst (es ! ?i)) (snd (es ! ?i)))"
      using wf i(3) by simp
    note step = overlaps_index_last.simps [of es q l u]
    show ?thesis
    proof (cases "range_end q \<le> fst (es ! ?i)")
      case True
      have after: "range_end q \<le> fst (es ! k)" if "?i - 1 < k" "k < length es" for k
        using es_wf_mono [OF wf _ that(2), of ?i] that(1) True by linarith
      have "?i - 1 < length es" "l \<le> ?i - 1" using i by simp_all
      with "1.IH"(1) [OF False lu refl il(1) en] True il after "1.prems"
      show ?thesis
        using False lu en by (simp add: step Let_def del: midpoint_eq)
    next
      case F: False
      with "1.IH"(2) [OF False lu refl il(1) en] i "1.prems"
      show ?thesis
        using False lu il en by (simp add: step Let_def del: midpoint_eq)
    qed
  qed
qed

lemma overlaps_indices_eq:
  assumes wf: "es_wf es" and q: "range_begin q < range_end q"
  shows "overlaps_indices es q
    = Ok (partition_point (\<lambda>e. snd e \<le> range_begin q) es, partition_point (\<lambda>e. fst e < range_end q) es)"
proof -
  consider "es = []" | "es \<noteq> []" "range_end q \<le> fst (es ! 0)"
    | "es \<noteq> []" "fst (es ! 0) < range_end q" "snd (es ! (length es - 1)) \<le> range_begin q"
    | "es \<noteq> []" "fst (es ! 0) < range_end q" "range_begin q < snd (es ! (length es - 1))"
    by linarith
  then show ?thesis
  proof cases
    case 1
    then show ?thesis by (simp add: overlaps_indices_def partition_point_def)
  next
    case 2
    then have "fst (es ! 0) < snd (es ! 0)" using wf by (intro es_wf_nth) simp_all
    with 2 q have "partition_point (\<lambda>e. snd e \<le> range_begin q) es = 0"
      "partition_point (\<lambda>e. fst e < range_end q) es = 0"
      by (auto intro!: partition_pointI)
    with 2 wf show ?thesis by (simp add: overlaps_indices_def)
  next
    case 3
    have "snd (es ! k) \<le> range_begin q \<and> fst (es ! k) < range_end q" if "k < length es" for k
    proof -
      have "k \<le> length es - 1" "length es - 1 < length es" using that by auto
      then have "snd (es ! k) \<le> snd (es ! (length es - 1))" using es_wf_mono [OF wf] by blast
      with 3(3) q es_wf_nth(1) [OF wf that] show ?thesis by linarith
    qed
    then have "partition_point (\<lambda>e. snd e \<le> range_begin q) es = length es"
      "partition_point (\<lambda>e. fst e < range_end q) es = length es"
      by (auto intro!: partition_pointI)
    with 3 wf show ?thesis by (simp add: overlaps_indices_def)
  next
    case 4
    let ?p = "partition_point (\<lambda>e. snd e \<le> range_begin q) es"
    have top: "\<forall>k. length es - 1 < k \<and> k < length es \<longrightarrow> range_end q \<le> fst (es ! k)"
      by auto
    obtain ll ul where first: "overlaps_index_first es q 0 (length es - 1) 0 (length es - 1) = Ok (?p, ll, ul)"
      and ll: "ll < length es" "fst (es ! ll) < range_end q"
      and ul: "ul < length es" "\<forall>k. ul < k \<and> k < length es \<longrightarrow> range_end q \<le> fst (es ! k)"
      using overlaps_index_first_spec [OF wf 4(2) q, of 0 "length es - 1" 0 "length es - 1"] 4 top by auto
    have "ll \<le> ul" using ll ul by (meson leI not_less)
    then obtain n where last: "overlaps_index_last es q ll ul = Ok n"
      and n: "partition_point (\<lambda>e. fst e < range_end q) es = n + 1"
      using overlaps_index_last_spec [OF wf _ ul(1) ll(2) ul(2)] by blast
    have "?p \<le> n + 1"
    proof (rule ccontr)
      assume *: "\<not> ?p \<le> n + 1"
      then have "snd (es ! (n + 1)) \<le> range_begin q"
        using partition_point_before [of "n + 1" "\<lambda>e. snd e \<le> range_begin q" es] by auto
      moreover have "n + 1 < length es"
        using * partition_point_le [of "\<lambda>e. snd e \<le> range_begin q" es] by linarith
      moreover from this have "\<not> fst (es ! (n + 1)) < range_end q"
        using partition_point_at [of "\<lambda>e. fst e < range_end q" es] n by simp
      ultimately show False using es_wf_nth(1) [OF wf, of "n + 1"] q by simp
    qed
    with 4 wf first last n show ?thesis
      by (simp add: overlaps_indices_def Let_def)
  qed
qed


lemma touch_begin:
  fixes b :: nat
  assumes wf: "es_wf es"
  defines "p \<equiv> partition_point (\<lambda>e. snd e \<le> b) es"
  shows "(if p \<noteq> 0 \<and> snd (es ! (p - 1)) = b then p - 1 else p) = partition_point (\<lambda>e. snd e < b) es"
proof (rule sym, rule partition_pointI)
  have le: "p \<le> length es" by (simp add: p_def)
  show "(if p \<noteq> 0 \<and> snd (es ! (p - 1)) = b then p - 1 else p) \<le> length es" using le by auto
  have before: "snd (es ! k) \<le> b" if "k < p" for k
    using that unfolding p_def by (rule partition_point_before)
  have last: "snd (es ! k) < snd (es ! (p - 1))" if "k < p - 1" for k
  proof -
    have "p - 1 < length es" using that le by linarith
    then show ?thesis
      using es_wf_nth_less [OF wf that] es_wf_nth(1) [OF wf] by (meson le_less_trans)
  qed
  show "snd (es ! k) < b" if "k < (if p \<noteq> 0 \<and> snd (es ! (p - 1)) = b then p - 1 else p)" for k
  proof (cases "k < p - 1")
    case True
    then have "snd (es ! (p - 1)) \<le> b" by (intro before) linarith
    with last [OF True] show ?thesis by linarith
  next
    case False
    with that have k: "k = p - 1" "p \<noteq> 0" "snd (es ! (p - 1)) \<noteq> b" by (auto split: if_splits)
    with before [of "p - 1"] show ?thesis by simp
  qed
  show "\<not> snd (es ! (if p \<noteq> 0 \<and> snd (es ! (p - 1)) = b then p - 1 else p)) < b"
    if "(if p \<noteq> 0 \<and> snd (es ! (p - 1)) = b then p - 1 else p) < length es"
    using that partition_point_at [of "\<lambda>e. snd e \<le> b" es] by (auto simp: p_def split: if_splits)
qed

lemma touch_end:
  fixes c :: nat
  assumes wf: "es_wf es"
  defines "r \<equiv> partition_point (\<lambda>e. fst e < c) es"
  shows "(if r < length es \<and> fst (es ! r) = c then r + 1 else r) = partition_point (\<lambda>e. fst e \<le> c) es"
proof (rule sym, rule partition_pointI)
  have le: "r \<le> length es" by (simp add: r_def)
  then show "(if r < length es \<and> fst (es ! r) = c then r + 1 else r) \<le> length es" by auto
  have before: "fst (es ! k) < c" if "k < r" for k
    using that unfolding r_def by (rule partition_point_before)
  show "fst (es ! k) \<le> c" if "k < (if r < length es \<and> fst (es ! r) = c then r + 1 else r)" for k
    using that before [of k] by (cases "k = r") (auto split: if_splits)
  have at: "r < length es \<Longrightarrow> c \<le> fst (es ! r)"
    using partition_point_at [of "\<lambda>e. fst e < c" es] by (auto simp: r_def)
  show "\<not> fst (es ! (if r < length es \<and> fst (es ! r) = c then r + 1 else r)) \<le> c"
    if "(if r < length es \<and> fst (es ! r) = c then r + 1 else r) < length es"
    using that at es_wf_nth_less [OF wf, of r "r + 1"] es_wf_nth(1) [OF wf, of r]
    by (auto split: if_splits)
qed

lemma extents_set_insert_eq:
  assumes wf: "es_wf es" and q: "range_begin q < range_end q"
  defines "p \<equiv> partition_point (\<lambda>e. snd e < range_begin q) es"
    and "r \<equiv> partition_point (\<lambda>e. fst e \<le> range_end q) es"
  shows "extents_set_insert mem es q =
    (if p = r then if mem then Ok (take p es @ (range_begin q, range_end q) # drop p es)
                   else Err MemoryAllocationFailure
     else Ok (take p es @ (min (fst (es ! p)) (range_begin q), max (snd (es ! (r - 1))) (range_end q)) # drop r es))"
proof -
  let ?p0 = "partition_point (\<lambda>e. snd e \<le> range_begin q) es"
  let ?r0 = "partition_point (\<lambda>e. fst e < range_end q) es"
  have le: "p \<le> length es" "r \<le> length es" "?p0 \<le> length es" by (simp_all add: p_def r_def)
  have pr: "p \<le> r"
    unfolding p_def r_def using wf q by (intro partition_point_mono) (auto simp: es_wf_def)
  have pred: "?p0 \<noteq> 0 \<Longrightarrow> ?p0 - 1 < length es" using le(3) by linarith
  have tb: "(if ?p0 \<noteq> 0
        then and_then (entry_physical_range es (?p0 - 1)) (\<lambda>e. Ok (if range_end e = range_begin q then ?p0 - 1 else ?p0))
        else Ok ?p0) = Ok p"
    using touch_begin [OF wf, of "range_begin q"] wf pred by (auto simp: p_def)
  have te: "(if ?r0 < length es
        then and_then (entry_physical_range es ?r0) (\<lambda>e. Ok (if range_begin e = range_end q then ?r0 + 1 else ?r0))
        else Ok ?r0) = Ok r"
    using touch_end [OF wf, of "range_end q"] wf by (auto simp: r_def)
  have before: "p \<noteq> 0 \<Longrightarrow> snd (es ! (p - 1)) < range_begin q"
    unfolding p_def by (rule partition_point_before) simp
  have after: "r \<noteq> length es \<Longrightarrow> range_end q < fst (es ! r)"
    using partition_point_at [of "\<lambda>e. fst e \<le> range_end q" es] le(2) unfolding r_def by linarith
  have b_ok: "(if p = 0 then Ok True else and_then (entry_physical_range es (p - 1)) (\<lambda>e. Ok (range_end e < range_begin q))) = Ok True"
    using before wf le(1) by auto
  have a_ok: "(if r = length es then Ok True else and_then (entry_physical_range es r) (\<lambda>e. Ok (range_begin e > range_end q))) = Ok True"
    using after wf le(2) by auto
  have run: "extents_set_insert mem es q =
      (if p = r then
        if mem then vec_insert es p (range_begin q, range_end q) else Err MemoryAllocationFailure
      else
        and_then (entry_physical_range es p) (\<lambda>e.
        and_then (vec_set_fst es p (min (range_begin e) (range_begin q))) (\<lambda>es.
        and_then (entry_physical_range es (r - 1)) (\<lambda>e.
        and_then (vec_set_snd es p (max (range_end e) (range_end q))) (\<lambda>es.
        vec_drain es (p + 1) r)))))"
    by (simp only: extents_set_insert_def overlaps_indices_eq [OF wf q] and_then_simps prod.case
        tb te b_ok a_ok debug_assert_True)
  show ?thesis
  proof (cases "p = r")
    case True
    then show ?thesis using le by (simp add: run)
  next
    case False
    with pr have lt: "p < r" by simp
    let ?m = "min (fst (es ! p)) (range_begin q)" and ?M = "max (snd (es ! (r - 1))) (range_end q)"
    have pl: "p < length es" "r - 1 < length es" using lt le(2) by auto
    have m: "?m < snd (es ! p)" using es_wf_nth(1) [OF wf pl(1)] by simp
    have en: "entry_physical_range (es[p := (?m, snd (es ! p))]) (r - 1)
        = Ok (mk_range (if r - 1 = p then ?m else fst (es ! (r - 1))) (snd (es ! (r - 1))))"
      using pl m wf by (auto simp: entry_physical_range_def nth_list_update es_wf_nth)
    show ?thesis
      using lt le pl False wf en [simplified]
      by (simp add: run take_Suc_conv_app_nth)
  qed
qed

lemma es_blocks_iff: "x \<in> es_blocks es \<longleftrightarrow> (\<exists>k<length es. fst (es ! k) \<le> x \<and> x < snd (es ! k))"
  by (simp add: es_blocks_def bex_set_nth)

lemma es_blocks_mid_iff:
  assumes "r \<le> length es"
  shows "x \<in> es_blocks (drop p (take r es)) \<longleftrightarrow> (\<exists>k. p \<le> k \<and> k < r \<and> fst (es ! k) \<le> x \<and> x < snd (es ! k))"
proof
  assume "x \<in> es_blocks (drop p (take r es))"
  then obtain k where "k < r - p" "fst (es ! (p + k)) \<le> x" "x < snd (es ! (p + k))"
    using assms by (auto simp: es_blocks_iff)
  then show "\<exists>k. p \<le> k \<and> k < r \<and> fst (es ! k) \<le> x \<and> x < snd (es ! k)"
    by (intro exI [of _ "p + k"]) auto
next
  assume "\<exists>k. p \<le> k \<and> k < r \<and> fst (es ! k) \<le> x \<and> x < snd (es ! k)"
  then obtain k where "p \<le> k" "k < r" "fst (es ! k) \<le> x" "x < snd (es ! k)" by blast
  then show "x \<in> es_blocks (drop p (take r es))"
    using assms by (auto simp: es_blocks_iff intro!: exI [of _ "k - p"])
qed

lemma es_wf_replace:
  assumes wf: "es_wf es" and pr: "p \<le> r" "r \<le> length es" and new: "es_wf xs"
    and lo: "\<And>x k. x \<in> set xs \<Longrightarrow> k < p \<Longrightarrow> snd (es ! k) \<le> fst x"
    and hi: "\<And>x k. x \<in> set xs \<Longrightarrow> r \<le> k \<Longrightarrow> k < length es \<Longrightarrow> snd x \<le> fst (es ! k)"
  shows "es_wf (take p es @ xs @ drop r es)"
proof -
  have "es_wf (take p es @ drop p es)" "es_wf (take r es @ drop r es)" using wf by simp_all
  then have parts: "es_wf (take p es)" "es_wf (drop r es)" by (simp_all only: es_wf_append)
  have outer: "snd x \<le> fst y" if x: "x \<in> set (take p es)" and y: "y \<in> set (drop r es)" for x y
  proof -
    obtain i j where "i < p" "x = es ! i" "r \<le> j" "j < length es" "y = es ! j"
      using take_set_D [OF x] drop_set_D [OF y] by blast
    then show ?thesis using es_wf_nth_less [OF wf, of i j] pr by simp
  qed
  have left: "snd x \<le> fst y" if "x \<in> set (take p es)" "y \<in> set xs" for x y
    using take_set_D [OF that(1)] lo [OF that(2)] by blast
  have right: "snd x \<le> fst y" if "x \<in> set xs" "y \<in> set (drop r es)" for x y
    using drop_set_D [OF that(2)] hi [OF that(1)] by blast
  show ?thesis
    using parts new outer left right by (simp only: es_wf_append set_append) blast
qed

lemma es_partition_snd:
  assumes "es_wf es"
  shows "k < partition_point (\<lambda>e. snd e < b) es \<Longrightarrow> snd (es ! k) < b"
    and "partition_point (\<lambda>e. snd e < b) es \<le> k \<Longrightarrow> k < length es \<Longrightarrow> b \<le> snd (es ! k)"
    and "k < partition_point (\<lambda>e. snd e \<le> b) es \<Longrightarrow> snd (es ! k) \<le> b"
    and "partition_point (\<lambda>e. snd e \<le> b) es \<le> k \<Longrightarrow> k < length es \<Longrightarrow> b < snd (es ! k)"
  using partition_point_before [of k "\<lambda>e. snd e < b" es] partition_point_at [of "\<lambda>e. snd e < b" es]
    partition_point_before [of k "\<lambda>e. snd e \<le> b" es] partition_point_at [of "\<lambda>e. snd e \<le> b" es]
    es_wf_mono [OF assms, of _ k]
  by force+

lemma es_partition_fst:
  assumes "es_wf es"
  shows "k < partition_point (\<lambda>e. fst e < b) es \<Longrightarrow> fst (es ! k) < b"
    and "partition_point (\<lambda>e. fst e < b) es \<le> k \<Longrightarrow> k < length es \<Longrightarrow> b \<le> fst (es ! k)"
    and "k < partition_point (\<lambda>e. fst e \<le> b) es \<Longrightarrow> fst (es ! k) \<le> b"
    and "partition_point (\<lambda>e. fst e \<le> b) es \<le> k \<Longrightarrow> k < length es \<Longrightarrow> b < fst (es ! k)"
  using partition_point_before [of k "\<lambda>e. fst e < b" es] partition_point_at [of "\<lambda>e. fst e < b" es]
    partition_point_before [of k "\<lambda>e. fst e \<le> b" es] partition_point_at [of "\<lambda>e. fst e \<le> b" es]
    es_wf_mono [OF assms, of _ k]
  by force+

lemma es_blocks_split:
  assumes "p \<le> r"
  shows "es_blocks es = es_blocks (take p es) \<union> es_blocks (drop p (take r es)) \<union> es_blocks (drop r es)"
  by (subst take_mid_drop [OF assms]) auto

text \<open>Entries that touch a range merge with it into one interval.\<close>

lemma es_blocks_touching:
  assumes wf: "es_wf es" and pr: "p < r" "r \<le> length es"
    and lo: "b \<le> snd (es ! p)" and hi: "fst (es ! (r - 1)) \<le> e"
  shows "es_blocks (drop p (take r es)) \<union> {b..<e} = {min (fst (es ! p)) b..<max (snd (es ! (r - 1))) e}"
    (is "?L = ?R")
proof (intro set_eqI iffI)
  have last: "r - 1 < r" "p \<le> r - 1" "r - 1 < length es" using pr by auto
  fix x
  show "x \<in> ?R" if "x \<in> ?L"
  proof -
    from that consider "x \<in> {b..<e}" | k where "p \<le> k" "k < r" "fst (es ! k) \<le> x" "x < snd (es ! k)"
      by (auto simp: es_blocks_mid_iff [OF pr(2)])
    then show ?thesis
    proof cases
      case (2 k)
      then have "fst (es ! p) \<le> fst (es ! k)" "snd (es ! k) \<le> snd (es ! (r - 1))"
        using es_wf_mono [OF wf, of p k] es_wf_mono [OF wf _ last(3), of k] pr by auto
      with 2 show ?thesis by auto
    qed auto
  qed
  show "x \<in> ?L" if "x \<in> ?R"
    using that lo hi pr(1) last by (cases "x < b"; cases "x < e") (auto simp: es_blocks_mid_iff [OF pr(2)])
qed

lemma extents_set_insert_spec:
  assumes wf: "es_wf es" and q: "range_wf q"
  shows "case extents_set_insert mem es q of
      Ok es' \<Rightarrow> es_wf es' \<and> es_blocks es' = es_blocks es \<union> blocks q
    | Err e \<Rightarrow> e = MemoryAllocationFailure \<and> \<not> mem
    | Panic \<Rightarrow> False"
proof -
  let ?b = "range_begin q" and ?e = "range_end q"
  have be: "?b < ?e" "?e < u64_bound" using q by (simp_all add: range_wf_def)
  define p where "p = partition_point (\<lambda>e. snd e < ?b) es"
  define r where "r = partition_point (\<lambda>e. fst e \<le> ?e) es"
  have rl: "r \<le> length es" by (simp add: r_def)
  have pr: "p \<le> r"
    unfolding p_def r_def using wf be by (intro partition_point_mono) (auto simp: es_wf_def)
  note lo = es_partition_snd(1,2) [OF wf, where b = ?b, folded p_def]
  note hi = es_partition_fst(3,4) [OF wf, where b = ?e, folded r_def]
  note eq = extents_set_insert_eq [OF wf be(1), of mem, folded p_def r_def]
  show ?thesis
  proof (cases "p = r")
    case True
    have "es_wf (take p es @ [(?b, ?e)] @ drop p es)"
      using es_wf_replace [OF wf order.refl, of p "[(?b, ?e)]"] rl True be lo(1) hi(2) by (simp add: less_imp_le)
    moreover have "es_blocks (take p es @ (?b, ?e) # drop p es) = es_blocks es \<union> blocks q"
      using es_blocks_split [OF pr, of es] True by (auto simp: blocks_def)
    ultimately show ?thesis using eq True by simp
  next
    case False
    let ?m = "min (fst (es ! p)) ?b" and ?M = "max (snd (es ! (r - 1))) ?e"
    have lt: "p < r" "p < length es" "r - 1 < length es" using False pr rl by auto
    have "snd (es ! k) \<le> ?m" if "k < p" for k
      using lo(1) [OF that] es_wf_nth_less [OF wf that lt(2)] by simp
    moreover have "?M \<le> fst (es ! k)" if "r \<le> k" "k < length es" for k
      using hi(2) [OF that] es_wf_nth_less [OF wf _ that(2), of "r - 1"] that(1) lt(1) by simp
    moreover have "?m < ?M" "?M < u64_bound"
      using be es_wf_nth(2) [OF wf lt(3)] by auto
    ultimately have "es_wf (take p es @ [(?m, ?M)] @ drop r es)"
      by (intro es_wf_replace [OF wf pr rl]) auto
    moreover have "es_blocks (drop p (take r es)) \<union> {?b..<?e} = {?m..<?M}"
      using lt lo(2) [of p] hi(1) [of "r - 1"] by (intro es_blocks_touching [OF wf _ rl]) auto
    ultimately show ?thesis
      using eq False es_blocks_split [OF pr, of es] by (auto simp: blocks_def)
  qed
qed

lemma extents_set_remove_eq:
  assumes wf: "es_wf es" and q: "range_begin q < range_end q"
  defines "p \<equiv> partition_point (\<lambda>e. snd e \<le> range_begin q) es"
    and "r \<equiv> partition_point (\<lambda>e. fst e < range_end q) es"
  shows "extents_set_remove mem es q =
    (if p = r then Ok es
     else if p + 1 = r \<and> fst (es ! p) < range_begin q \<and> snd (es ! p) > range_end q \<and> \<not> mem
     then Err MemoryAllocationFailure
     else Ok (take p es @ (if fst (es ! p) < range_begin q then [(fst (es ! p), range_begin q)] else [])
        @ (if snd (es ! (r - 1)) > range_end q then [(range_end q, snd (es ! (r - 1)))] else []) @ drop r es))"
proof (cases "p = r")
  case True
  then show ?thesis
    by (simp add: extents_set_remove_def overlaps_indices_eq [OF wf q] p_def r_def)
next
  case False
  have pr: "p \<le> r"
    unfolding p_def r_def using wf q by (intro partition_point_mono) (auto simp: es_wf_def)
  with False obtain s where r: "r = Suc s" by (cases r) auto
  have rl: "r \<le> length es" by (simp add: r_def)
  have lt: "p \<le> s" "p < length es" "s < length es" using r False pr rl by auto
  have ind: "overlaps_indices es q = Ok (p, Suc s)"
    unfolding r [symmetric] by (simp add: overlaps_indices_eq [OF wf q] p_def r_def)
  have ep: "entry_physical_range es p = Ok (mk_range (fst (es ! p)) (snd (es ! p)))"
    and es: "entry_physical_range es s = Ok (mk_range (fst (es ! s)) (snd (es ! s)))"
    using wf lt by simp_all
  have snd_p: "range_begin q < snd (es ! p)"
    using es_partition_snd(4) [OF wf, of "range_begin q" p] lt(2) by (simp add: p_def)
  let ?es = "es[p := (fst (es ! p), range_begin q)]"
  have es': "entry_physical_range ?es s =
      Ok (mk_range (fst (es ! s)) (if s = p then range_begin q else snd (es ! s)))"
    if "fst (es ! p) < range_begin q"
    using that lt wf by (auto simp: entry_physical_range_def nth_list_update es_wf_nth)
  note run = extents_set_remove_def ind ep es
  show ?thesis
  proof (cases "p = s")
    case True
    then show ?thesis
      using q snd_p lt es' unfolding r
      by (simp add: run take_Suc_conv_app_nth list_update_append nth_append drop_update_same)
  next
    case False
    then show ?thesis
      using q snd_p lt es' unfolding r
      by (simp add: run take_Suc_conv_app_nth drop_update_same)
  qed
qed

lemma es_blocks_overlapping:
  assumes wf: "es_wf es" and pr: "p < r" "r \<le> length es" and be: "b < e"
    and lo: "\<And>k. p \<le> k \<Longrightarrow> k < length es \<Longrightarrow> b < snd (es ! k)"
    and hi: "\<And>k. k < r \<Longrightarrow> fst (es ! k) < e"
  shows "es_blocks (drop p (take r es)) - {b..<e}
    = {fst (es ! p)..<b} \<union> {e..<snd (es ! (r - 1))}" (is "?L = ?R")
proof (intro set_eqI iffI)
  have last: "r - 1 < r" "p \<le> r - 1" "r - 1 < length es" using pr by auto
  fix x
  show "x \<in> ?R" if "x \<in> ?L"
  proof -
    from that obtain k where k: "p \<le> k" "k < r" "fst (es ! k) \<le> x" "x < snd (es ! k)" "x < b \<or> e \<le> x"
      by (auto simp: es_blocks_mid_iff [OF pr(2)])
    moreover have "fst (es ! p) \<le> fst (es ! k)" "snd (es ! k) \<le> snd (es ! (r - 1))"
      using k(1,2) es_wf_mono [OF wf, of p k] es_wf_mono [OF wf _ last(3), of k] pr by auto
    ultimately show ?thesis by auto
  qed
  show "x \<in> ?L" if "x \<in> ?R"
  proof -
    from that consider "fst (es ! p) \<le> x" "x < b" | "e \<le> x" "x < snd (es ! (r - 1))" by auto
    then show ?thesis
    proof cases
      case 1
      then have "x < snd (es ! p)" using lo [of p] pr by simp
      with 1 pr show ?thesis by (auto simp: es_blocks_mid_iff [OF pr(2)] intro!: exI [of _ p])
    next
      case 2
      then have "fst (es ! (r - 1)) \<le> x" using hi [OF last(1)] by simp
      with 2 last be show ?thesis
        by (auto simp: es_blocks_mid_iff [OF pr(2)] intro!: exI [of _ "r - 1"])
    qed
  qed
qed

lemma extents_set_remove_spec:
  assumes wf: "es_wf es" and q: "range_wf q"
  shows "case extents_set_remove mem es q of
      Ok es' \<Rightarrow> es_wf es' \<and> es_blocks es' = es_blocks es - blocks q
    | Err e \<Rightarrow> e = MemoryAllocationFailure \<and> \<not> mem
    | Panic \<Rightarrow> False"
proof -
  let ?b = "range_begin q" and ?e = "range_end q"
  have be: "?b < ?e" "?e < u64_bound" using q by (simp_all add: range_wf_def)
  define p where "p = partition_point (\<lambda>e. snd e \<le> ?b) es"
  define r where "r = partition_point (\<lambda>e. fst e < ?e) es"
  have rl: "r \<le> length es" by (simp add: r_def)
  have pr: "p \<le> r"
    unfolding p_def r_def using wf be by (intro partition_point_mono) (auto simp: es_wf_def)
  note lo = es_partition_snd(3,4) [OF wf, where b = ?b, folded p_def]
  note hi = es_partition_fst(1,2) [OF wf, where b = ?e, folded r_def]
  note eq = extents_set_remove_eq [OF wf be(1), of mem, folded p_def r_def]
  have "x \<notin> blocks q" if e: "e \<in> set (take p es)" "x < snd e" for e x
  proof -
    obtain k where "k < p" "e = es ! k" using take_set_D [OF e(1)] by blast
    with lo(1) [of k] e(2) show ?thesis by (simp add: blocks_def)
  qed
  moreover have "x \<notin> blocks q" if e: "e \<in> set (drop r es)" "fst e \<le> x" for e x
  proof -
    obtain k where "r \<le> k" "k < length es" "e = es ! k" using drop_set_D [OF e(1)] by blast
    with hi(2) [of k] e(2) show ?thesis by (simp add: blocks_def)
  qed
  ultimately have outside: "es_blocks (take p es) \<inter> blocks q = {}" "es_blocks (drop r es) \<inter> blocks q = {}"
    by (auto simp: es_blocks_def)
  show ?thesis
  proof (cases "p = r")
    case True
    have "drop p (take r es) = []" using True by simp
    then have "es_blocks es \<inter> blocks q = {}"
      using es_blocks_split [OF pr, of es] outside by auto
    then show ?thesis using eq True wf by auto
  next
    case False
    have lt: "p < r" "p < length es" "r - 1 < length es" using False pr rl by auto
    define xs where "xs = (if fst (es ! p) < ?b then [(fst (es ! p), ?b)] else [])
        @ (if snd (es ! (r - 1)) > ?e then [(?e, snd (es ! (r - 1)))] else [])"
    have below: "snd (es ! k) \<le> fst (es ! p) \<and> snd (es ! k) \<le> ?e" if "k < p" for k
      using lo(1) [OF that] es_wf_nth_less [OF wf that lt(2)] be by simp
    have above: "snd (es ! (r - 1)) \<le> fst (es ! k) \<and> ?b \<le> fst (es ! k)" if "r \<le> k" "k < length es" for k
      using hi(2) [OF that] es_wf_nth_less [OF wf _ that(2), of "r - 1"] that(1) lt(1) be by simp
    have "es_wf xs" using be es_wf_nth(2) [OF wf lt(3)] by (auto simp: xs_def)
    then have "es_wf (take p es @ xs @ drop r es)"
      using below above by (intro es_wf_replace [OF wf pr rl]) (auto simp: xs_def split: if_splits)
    moreover have "es_blocks xs = {fst (es ! p)..<?b} \<union> {?e..<snd (es ! (r - 1))}"
      by (auto simp: xs_def)
    with es_blocks_overlapping [OF wf lt(1) rl be(1) lo(2) hi(1)]
    have "es_blocks xs = es_blocks (drop p (take r es)) - blocks q" by (simp add: blocks_def)
    with outside have "es_blocks (take p es @ xs @ drop r es) = es_blocks es - blocks q"
      using es_blocks_split [OF pr, of es] by auto
    ultimately show ?thesis using eq False by (simp add: xs_def)
  qed
qed


section \<open>The iterator yields the intersection\<close>

lemma overlaps_collect_eq:
  assumes wf: "es_wf es" and q: "range_begin q < range_end q"
    and idx: "\<And>k. i \<le> k \<Longrightarrow> k < j \<Longrightarrow> k < length es \<and> fst (es ! k) < range_end q \<and> range_begin q < snd (es ! k)"
  shows "overlaps_collect \<lparr>iter_extents = es, iter_query_range = q, iter_index_begin = i, iter_index_end = j\<rparr>
    = Ok (map (\<lambda>e. mk_range (max (fst e) (range_begin q)) (min (snd e) (range_end q))) (drop i (take j es)))"
  using idx
proof (induction "j - i" arbitrary: i)
  case 0
  then show ?case by (simp add: overlaps_collect.simps)
next
  case (Suc n)
  then have ij: "i < j" by simp
  have i: "i < length es" "fst (es ! i) < range_end q" "range_begin q < snd (es ! i)"
    using Suc.prems [of i] ij by simp_all
  have jl: "i < length (take j es)" using i(1) ij by simp
  have "max (fst (es ! i)) (range_begin q) < min (snd (es ! i)) (range_end q)"
    using i q es_wf_nth(1) [OF wf i(1)] by simp
  moreover have "drop i (take j es) = es ! i # drop (Suc i) (take j es)"
    using Cons_nth_drop_Suc [OF jl] ij by simp
  ultimately show ?case
    using Suc.hyps(1) [of "Suc i"] Suc.hyps(2) Suc.prems ij wf i(1)
    by (subst overlaps_collect.simps) (simp add: overlaps_next_def)
qed

lemma overlaps_spec:
  assumes wf: "es_wf es" and q: "range_wf q"
  shows "collect_overlaps es q =
      Ok (map (\<lambda>e. mk_range (max (fst e) (range_begin q)) (min (snd e) (range_end q)))
            (filter (\<lambda>e. fst e < range_end q \<and> range_begin q < snd e) es))"
proof -
  let ?b = "range_begin q" and ?e = "range_end q"
  have be: "?b < ?e" using q by (simp add: range_wf_def)
  define p where "p = partition_point (\<lambda>e. snd e \<le> ?b) es"
  define r where "r = partition_point (\<lambda>e. fst e < ?e) es"
  have rl: "r \<le> length es" by (simp add: r_def)
  have pr: "p \<le> r"
    unfolding p_def r_def using wf be by (intro partition_point_mono) (auto simp: es_wf_def)
  note lo = es_partition_snd(3,4) [OF wf, where b = ?b, folded p_def]
  note hi = es_partition_fst(1,2) [OF wf, where b = ?e, folded r_def]
  have "overlaps es q = Ok \<lparr>iter_extents = es, iter_query_range = q, iter_index_begin = p, iter_index_end = r\<rparr>"
    by (simp add: overlaps_def overlaps_indices_eq [OF wf be] p_def r_def)
  moreover have "filter (\<lambda>e. fst e < ?e \<and> ?b < snd e) es = drop p (take r es)"
  proof -
    have "filter (\<lambda>e. fst e < ?e \<and> ?b < snd e) (take p es) = []"
      using lo(1) by (auto simp: filter_empty_conv not_less dest!: take_set_D)
    moreover have "filter (\<lambda>e. fst e < ?e \<and> ?b < snd e) (drop r es) = []"
      using hi(2) by (auto simp: filter_empty_conv not_less dest!: drop_set_D)
    moreover have "filter (\<lambda>e. fst e < ?e \<and> ?b < snd e) (drop p (take r es)) = drop p (take r es)"
    proof -
      have "fst e < ?e \<and> ?b < snd e" if e: "e \<in> set (drop p (take r es))" for e
      proof -
        obtain k where "k < r - p" "e = es ! (p + k)" using e rl by (auto simp: in_set_conv_nth)
        then show ?thesis using lo(2) [of "p + k"] hi(1) [of "p + k"] rl by simp
      qed
      then show ?thesis by (simp add: filter_id_conv)
    qed
    ultimately show ?thesis
      by (subst take_mid_drop [OF pr]) (simp only: filter_append append_Nil append_Nil2)
  qed
  ultimately show ?thesis
    using rl lo(2) hi(1) overlaps_collect_eq [OF wf be, of p r]
    by (simp add: collect_overlaps_def)
qed

section \<open>The interface of a set of blocks\<close>

interpretation es: block_set es_wf es_blocks extents_set_insert extents_set_remove
  by unfold_locales (rule extents_set_insert_spec extents_set_remove_spec; assumption)+

section \<open>Properties\<close>

text \<open>
  C9: Inserting a nonempty range into a well formed extents set never panics and fails only when
  the memory reservation does. The new vector is well formed and covers the union of the old
  blocks and the range, whatever entries the range overlaps or touches.
\<close>

theorem extents_set_insert_correct:
  assumes "es_wf es" "range_wf q"
  shows "case extents_set_insert mem es q of
      Ok es' \<Rightarrow> es_wf es' \<and> es_blocks es' = es_blocks es \<union> blocks q
    | Err e \<Rightarrow> e = MemoryAllocationFailure \<and> \<not> mem
    | Panic \<Rightarrow> False"
  using assms by (rule es.add_range_law)

theorem extents_set_insert_correct_witness:
  "extents_set_insert False [(2, 4), (6, 9), (20, 30)] (mk_range 4 7) = Ok [(2, 9), (20, 30)]
   \<and> es_blocks [(2, 9), (20, 30)] = es_blocks [(2, 4), (6, 9), (20, 30)] \<union> {4..<7}"
proof -
  have *: "extents_set_insert False [(2, 4), (6, 9), (20, 30)] (mk_range 4 7) = Ok [(2, 9), (20, 30)]"
    by code_simp
  show ?thesis
    using extents_set_insert_correct [of "[(2, 4), (6, 9), (20, 30)]" "mk_range 4 7" False] *
    by (simp add: range_wf_def blocks_def)
qed

text \<open>
  C12: Removing a nonempty range from a well formed extents set never panics and fails only when an
  entry has to be split and the memory reservation for the second piece fails. The new vector is
  well formed and covers exactly the old blocks outside of the range.
\<close>

theorem extents_set_remove_correct:
  assumes "es_wf es" "range_wf q"
  shows "case extents_set_remove mem es q of
      Ok es' \<Rightarrow> es_wf es' \<and> es_blocks es' = es_blocks es - blocks q
    | Err e \<Rightarrow> e = MemoryAllocationFailure \<and> \<not> mem
    | Panic \<Rightarrow> False"
  using assms by (rule es.remove_range_law)

theorem extents_set_remove_correct_witness:
  "extents_set_remove True [(2, 9), (20, 30)] (mk_range 4 7) = Ok [(2, 4), (7, 9), (20, 30)]
   \<and> es_blocks [(2, 4), (7, 9), (20, 30)] = es_blocks [(2, 9), (20, 30)] - {4..<7}"
proof -
  have *: "extents_set_remove True [(2, 9), (20, 30)] (mk_range 4 7) = Ok [(2, 4), (7, 9), (20, 30)]"
    by code_simp
  show ?thesis
    using extents_set_remove_correct [of "[(2, 9), (20, 30)]" "mk_range 4 7" True] *
    by (simp add: range_wf_def blocks_def)
qed

text \<open>
  C14: Any sequence of insertions and removals of nonempty ranges, run on a well formed set with
  memory available, succeeds and computes the same set of blocks as the mathematical unions and
  differences in that order; the vector is well formed at the end.
\<close>

theorem extents_set_sequence_correct:
  assumes "es_wf es" "\<forall>op \<in> set ops. range_wf (op_range op) \<and> op_mem op"
  shows "\<exists>es'. run_ops extents_set_insert extents_set_remove ops es = Ok es'
    \<and> es_wf es' \<and> es_blocks es' = fold op_effect ops (es_blocks es)"
  using assms by (rule es.run_ops_total)

theorem extents_set_sequence_correct_witness:
  "\<exists>es'. run_ops extents_set_insert extents_set_remove
       [AddRange True (mk_range 3 9), RemoveRange True (mk_range 5 6), AddRange True (mk_range 1 3)] [] = Ok es'
     \<and> es_blocks es' = (({} \<union> {3..<9}) - {5..<6}) \<union> {1..<3}"
  using extents_set_sequence_correct [of "[]"
      "[AddRange True (mk_range 3 9), RemoveRange True (mk_range 5 6), AddRange True (mk_range 1 3)]"]
  by (auto simp: range_wf_def blocks_def)

text \<open>
  C15: Iterating over the overlaps of a well formed set with a nonempty query never panics and
  yields, in order, exactly the entries that overlap the query, each cropped to it. The two binary
  searches return the same index range as a linear scan.
\<close>

theorem overlaps_correct:
  assumes "es_wf es" "range_wf q"
  shows "collect_overlaps es q =
      Ok (map (\<lambda>e. mk_range (max (fst e) (range_begin q)) (min (snd e) (range_end q)))
            (filter (\<lambda>e. fst e < range_end q \<and> range_begin q < snd e) es))"
  using assms by (rule overlaps_spec)

theorem overlaps_correct_witness:
  "collect_overlaps [(2, 4), (6, 9), (20, 30)] (mk_range 3 25)
     = Ok [mk_range 3 4, mk_range 6 9, mk_range 20 25]"
  using overlaps_correct [of "[(2, 4), (6, 9), (20, 30)]" "mk_range 3 25"]
  by (simp add: range_wf_def)

end
