(* ===== verification/Physical_Extents.thy ===== *)
theory Physical_Extents
  imports Extents_Set "HOL-Library.Multiset"
begin

text \<open>
  The ordered sequence of extents \<open>PhysicalExtents\<close> of
  \<open>src/storage/src/fs/cocoonfs/extents.rs\<close>: a vector of \<open>(begin, count)\<close> pairs whose order
  is the order of a file's data.

  The abstraction \<open>pe_seq\<close> lists the blocks of all extents in sequence. The theorems say that
  each operation acts on this sequence as its documentation promises (insertion at a position,
  concatenation, splitting, dropping a tail) whether or not neighbouring extents are merged on the
  way, keeps the invariant and does not panic on the arguments the callers pass.
\<close>

type_synonym physical_extents = "(nat \<times> nat) list"

section \<open>Operations\<close>

definition unpack_entry :: "nat \<times> nat \<Rightarrow> block_range outcome" where
  "unpack_entry entry = block_range_from (fst entry) (snd entry)"

definition get_extent_range :: "physical_extents \<Rightarrow> nat \<Rightarrow> block_range outcome" where
  "get_extent_range es i = and_then (vec_get es i) unpack_entry"

text \<open>\<open>self.extents[i].1 += v\<close> and \<open>self.extents[i].1 -= v\<close>\<close>

definition count_add_assign :: "physical_extents \<Rightarrow> nat \<Rightarrow> nat \<Rightarrow> physical_extents outcome" where
  "count_add_assign es i v =
     and_then (vec_get es i) (\<lambda>e. and_then (add_u64 (snd e) v) (vec_set_snd es i))"

definition count_sub_assign :: "physical_extents \<Rightarrow> nat \<Rightarrow> nat \<Rightarrow> physical_extents outcome" where
  "count_sub_assign es i v =
     and_then (vec_get es i) (\<lambda>e. and_then (sub_u64 (snd e) v) (vec_set_snd es i))"

fun any_overlap :: "physical_extents \<Rightarrow> block_range \<Rightarrow> bool outcome" where
  "any_overlap [] q = Ok False"
| "any_overlap (e # es) q =
     and_then (unpack_entry e) (\<lambda>r. if overlaps_with r q then Ok True else any_overlap es q)"

text \<open>The tail of two loops and of \<open>insert_extent\<close>: fold the extent at \<open>pos\<close> into its
  predecessor when the two are contiguous.\<close>

definition merge_with_pred :: "physical_extents \<Rightarrow> nat \<Rightarrow> physical_extents outcome" where
  "merge_with_pred es pos =
     and_then (get_extent_range es (pos - 1)) (\<lambda>p.
     and_then (get_extent_range es pos) (\<lambda>n.
     if range_end p = range_begin n then
       and_then (vec_get es pos) (\<lambda>e.
       and_then (count_add_assign es (pos - 1) (snd e)) (\<lambda>es. vec_remove es pos))
     else Ok es))"

definition insert_extent ::
  "bool \<Rightarrow> physical_extents \<Rightarrow> nat \<Rightarrow> block_range \<Rightarrow> bool \<Rightarrow> physical_extents outcome" where
  "insert_extent mem es pos rng no_merge =
     debug_assert (pos \<le> length es)
     (and_then (block_count rng) (\<lambda>count.
      if count = 0 then Ok es
      else and_then (any_overlap es rng) (\<lambda>ov. debug_assert (\<not> ov)
      (and_then (if \<not> no_merge \<and> pos > 0
                 then and_then (get_extent_range es (pos - 1)) (\<lambda>p. Ok (range_end p = range_begin rng))
                 else Ok False) (\<lambda>follows.
       if follows then
         and_then (count_add_assign es (pos - 1) count) (\<lambda>es.
         if pos < length es then merge_with_pred es pos else Ok es)
       else
         and_then (if \<not> no_merge \<and> pos < length es
                   then and_then (get_extent_range es pos) (\<lambda>n. Ok (range_end rng = range_begin n))
                   else Ok False) (\<lambda>precedes.
         if precedes then
           and_then (vec_set_fst es pos (range_begin rng)) (\<lambda>es. count_add_assign es pos count)
         else if mem then vec_insert es pos (range_begin rng, count)
         else Err MemoryAllocationFailure))))))"

definition push_extent :: "bool \<Rightarrow> physical_extents \<Rightarrow> block_range \<Rightarrow> bool \<Rightarrow> physical_extents outcome" where
  "push_extent mem es rng no_merge = insert_extent mem es (length es) rng no_merge"

definition pop_extent :: "physical_extents \<Rightarrow> physical_extents" where
  "pop_extent es = butlast es"

definition remove_extent :: "physical_extents \<Rightarrow> nat \<Rightarrow> physical_extents outcome" where
  "remove_extent es i = vec_remove es i"

definition append_extents ::
  "bool \<Rightarrow> physical_extents \<Rightarrow> physical_extents \<Rightarrow> bool \<Rightarrow> physical_extents outcome" where
  "append_extents mem es extents no_merge =
     (if extents = [] then Ok es
      else if es = [] then if mem then Ok extents else Err MemoryAllocationFailure
      else and_then (if no_merge then Ok True
             else and_then (get_extent_range es (length es - 1)) (\<lambda>p.
                  and_then (get_extent_range extents 0) (\<lambda>n. Ok (range_end p \<noteq> range_begin n))))
        (\<lambda>separate.
         if \<not> mem then Err MemoryAllocationFailure
         else if separate then Ok (es @ extents)
         else and_then (count_add_assign es (length es - 1) (snd (hd extents))) (\<lambda>es.
              Ok (es @ tl extents))))"

definition split_extents ::
  "bool \<Rightarrow> physical_extents \<Rightarrow> nat \<Rightarrow> nat \<Rightarrow> (physical_extents \<times> physical_extents) outcome" where
  "split_extents mem es i offset_in_extent =
     and_then (if i < length es
               then and_then (get_extent_range es i) (\<lambda>r. and_then (block_count r) (\<lambda>c.
                    Ok (if offset_in_extent = c then (i + 1, 0) else (i, offset_in_extent))))
               else Ok (i, offset_in_extent)) (\<lambda>(i, offset_in_extent).
     if i = length es then Ok (es, [])
     else and_then (sub_u64 (length es) i) (\<lambda>n.
       if \<not> mem then Err MemoryAllocationFailure
       else
         let split_off = drop i es in
         and_then (vec_get split_off 0) (\<lambda>e0.
         and_then (add_u64 (fst e0) offset_in_extent) (\<lambda>b.
         and_then (sub_u64 (snd e0) offset_in_extent) (\<lambda>c.
         and_then (if offset_in_extent \<noteq> 0
                   then and_then (vec_set_snd es i offset_in_extent) (\<lambda>es. Ok (es, i + 1))
                   else Ok (es, i)) (\<lambda>(es, i).
         Ok (take i es, (b, c) # tl split_off)))))))"

definition shrink_extent_by :: "physical_extents \<Rightarrow> nat \<Rightarrow> nat \<Rightarrow> (bool \<times> physical_extents) outcome" where
  "shrink_extent_by es i allocation_blocks =
     and_then (vec_get es i) (\<lambda>e.
     debug_assert (allocation_blocks \<le> snd e)
     (if allocation_blocks = snd e then
        and_then (remove_extent es i) (\<lambda>es. Ok (True, es))
      else and_then (count_sub_assign es i allocation_blocks) (\<lambda>es. Ok (False, es))))"

definition swap_extents :: "physical_extents \<Rightarrow> nat \<Rightarrow> nat \<Rightarrow> physical_extents outcome" where
  "swap_extents es i j =
     and_then (vec_get es i) (\<lambda>x. and_then (vec_get es j) (\<lambda>y. Ok (es[i := y, j := x])))"

fun physical_extents_iter :: "physical_extents \<Rightarrow> block_range list outcome" where
  "physical_extents_iter [] = Ok []"
| "physical_extents_iter (e # es) =
     and_then (block_range_from (fst e) (snd e)) (\<lambda>r. and_then (physical_extents_iter es) (\<lambda>rs. Ok (r # rs)))"

text \<open>
  The standard library's stable \<open>sort_by\<close>, for a comparison that is a total preorder:
  \<open>le x y\<close> stands for \<open>compare(x, y) != Greater\<close>.
\<close>

fun insert_by :: "('a \<Rightarrow> 'a \<Rightarrow> bool) \<Rightarrow> 'a \<Rightarrow> 'a list \<Rightarrow> 'a list" where
  "insert_by le x [] = [x]"
| "insert_by le x (y # ys) = (if le x y then x # y # ys else y # insert_by le x ys)"

fun sort_by :: "('a \<Rightarrow> 'a \<Rightarrow> bool) \<Rightarrow> 'a list \<Rightarrow> 'a list" where
  "sort_by le [] = []"
| "sort_by le (x # xs) = insert_by le x (sort_by le xs)"

fun unpack_entries :: "physical_extents \<Rightarrow> ((nat \<times> nat) \<times> block_range) list outcome" where
  "unpack_entries [] = Ok []"
| "unpack_entries (e # es) =
     and_then (unpack_entry e) (\<lambda>r. and_then (unpack_entries es) (\<lambda>rs. Ok ((e, r) # rs)))"

text \<open>The loop \<open>for pos in range.rev()\<close>; the last argument is the end of what remains of the
  range.\<close>

fun merge_loop :: "physical_extents \<Rightarrow> nat \<Rightarrow> nat \<Rightarrow> physical_extents outcome" where
  "merge_loop es start 0 = Ok es"
| "merge_loop es start (Suc pos) =
     (if pos < start then Ok es
      else and_then (merge_with_pred es pos) (\<lambda>es. merge_loop es start pos))"

definition sort_extents_by ::
  "physical_extents \<Rightarrow> nat \<Rightarrow> nat \<Rightarrow> (block_range \<Rightarrow> block_range \<Rightarrow> bool) \<Rightarrow> bool \<Rightarrow> physical_extents outcome" where
  "sort_extents_by es range_start range_stop le no_merge =
     (if range_start \<le> range_stop \<and> range_stop \<le> length es then
        let slice = drop range_start (take range_stop es) in
        and_then (if length slice < 2 then Ok slice
                  else and_then (unpack_entries slice) (\<lambda>rs.
                       Ok (map fst (sort_by (\<lambda>x y. le (snd x) (snd y)) rs)))) (\<lambda>sorted.
        let es = take range_start es @ sorted @ drop range_stop es in
        if no_merge then Ok es
        else merge_loop es (if range_start = 0 then 1 else range_start)
               (if range_stop < length es then range_stop + 1 else range_stop))
      else Panic)"

text \<open>\<open>From<PhysicalExtents>\<close>: sort by the begin, then turn counts into ends.\<close>

fun counts_to_ends :: "(nat \<times> nat) list \<Rightarrow> (nat \<times> nat) list outcome" where
  "counts_to_ends [] = Ok []"
| "counts_to_ends (e # es) =
     and_then (add_u64 (fst e) (snd e)) (\<lambda>end.
     and_then (counts_to_ends es) (\<lambda>es. Ok ((fst e, end) # es)))"

definition extents_set_from_physical :: "(nat \<times> nat) list \<Rightarrow> physical_extents_set outcome" where
  "extents_set_from_physical extents = counts_to_ends (sort_key fst extents)"

section \<open>Invariant and abstraction\<close>

definition extent_blocks :: "nat \<times> nat \<Rightarrow> nat list" where
  "extent_blocks e = [fst e..<fst e + snd e]"

definition pe_seq :: "physical_extents \<Rightarrow> nat list" where
  "pe_seq es = concat (map extent_blocks es)"

definition extents_ok :: "physical_extents \<Rightarrow> bool" where
  "extents_ok es \<longleftrightarrow> (\<forall>e \<in> set es. 0 < snd e \<and> fst e + snd e < u64_bound)"

definition pe_wf :: "physical_extents \<Rightarrow> bool" where
  "pe_wf es \<longleftrightarrow> extents_ok es \<and> distinct (pe_seq es)"

lemma pe_seq_simps [simp]:
  "pe_seq [] = []"
  "pe_seq (e # es) = extent_blocks e @ pe_seq es"
  "pe_seq (es @ fs) = pe_seq es @ pe_seq fs"
  by (simp_all add: pe_seq_def)

lemma extents_ok_simps [simp]:
  "extents_ok []"
  "extents_ok (e # es) \<longleftrightarrow> 0 < snd e \<and> fst e + snd e < u64_bound \<and> extents_ok es"
  "extents_ok (es @ fs) \<longleftrightarrow> extents_ok es \<and> extents_ok fs"
  by (auto simp: extents_ok_def)

lemma extents_ok_nth:
  "extents_ok es \<Longrightarrow> i < length es \<Longrightarrow> 0 < snd (es ! i) \<and> fst (es ! i) + snd (es ! i) < u64_bound"
  by (simp add: extents_ok_def)

lemma extents_ok_sub: "extents_ok es \<Longrightarrow> set fs \<subseteq> set es \<Longrightarrow> extents_ok fs"
  by (auto simp: extents_ok_def)

lemma set_extent_blocks [simp]: "set (extent_blocks e) = {fst e..<fst e + snd e}"
  by (simp add: extent_blocks_def)

lemma length_extent_blocks [simp]: "length (extent_blocks e) = snd e"
  by (simp add: extent_blocks_def)

lemma extent_blocks_merge:
  "b' = b + c \<Longrightarrow> extent_blocks (b, c + c') = extent_blocks (b, c) @ extent_blocks (b', c')"
  using upt_add_eq_append [of b "b + c" c'] by (simp add: extent_blocks_def add.assoc)

lemma unpack_entry_Ok [simp]:
  "fst e + snd e < u64_bound \<Longrightarrow> unpack_entry e = Ok (mk_range (fst e) (fst e + snd e))"
  by (simp add: unpack_entry_def)

lemma get_extent_range_Ok [simp]:
  "extents_ok es \<Longrightarrow> i < length es \<Longrightarrow>
   get_extent_range es i = Ok (mk_range (fst (es ! i)) (fst (es ! i) + snd (es ! i)))"
  using extents_ok_nth [of es i] by (simp add: get_extent_range_def)

lemma any_overlap_eq:
  "extents_ok es \<Longrightarrow> any_overlap es q = Ok (\<exists>e \<in> set es. overlaps_with (mk_range (fst e) (fst e + snd e)) q)"
  by (induction es) auto

lemma nth_split: "i < length es \<Longrightarrow> \<exists>xs ys. es = xs @ es ! i # ys \<and> length xs = i"
  by (metis id_take_nth_drop length_take less_imp_le_nat min.absorb2)

lemma merge_with_pred_app:
  assumes "extents_ok (xs @ [d, e] @ ys)"
  shows "\<exists>zs. merge_with_pred (xs @ [d, e] @ ys) (Suc (length xs)) = Ok (xs @ zs @ ys)
    \<and> pe_seq zs = pe_seq [d, e] \<and> extents_ok zs \<and> zs \<noteq> [] \<and> length zs \<le> 2"
proof (cases "fst d + snd d = fst e")
  case True
  then show ?thesis
    using assms extent_blocks_merge [of "fst e" "fst d" "snd d" "snd e"]
    by (intro exI [of _ "[(fst d, snd d + snd e)]"])
      (simp add: merge_with_pred_def get_extent_range_def count_add_assign_def nth_append list_update_append)
next
  case False
  then show ?thesis
    using assms
    by (intro exI [of _ "[d, e]"]) (simp add: merge_with_pred_def get_extent_range_def nth_append)
qed

lemma any_overlap_disjoint:
  assumes "extents_ok es" "range_wf q" "set (pe_seq es) \<inter> blocks q = {}"
  shows "any_overlap es q = Ok False"
proof -
  have "\<not> overlaps_with (mk_range (fst e) (fst e + snd e)) q" if "e \<in> set es" for e
  proof -
    have "0 < snd e" using assms(1) that by (simp add: extents_ok_def)
    moreover have "{fst e..<fst e + snd e} \<inter> blocks q = {}"
      using assms(3) that by (auto simp: pe_seq_def)
    ultimately show ?thesis
      using assms(2) overlaps_with_iff [of "mk_range (fst e) (fst e + snd e)" q]
      by (simp add: range_wf_def)
  qed
  then show ?thesis using assms(1) by (auto simp: any_overlap_eq)
qed

text \<open>What an insertion at a position does, before the invariant is considered.\<close>

lemma insert_extent_app:
  assumes ok: "extents_ok (xs @ ys)" and q: "range_wf q" and dj: "set (pe_seq (xs @ ys)) \<inter> blocks q = {}"
  shows "(\<exists>es. insert_extent mem (xs @ ys) (length xs) q no_merge = Ok es \<and> extents_ok es
      \<and> pe_seq es = pe_seq xs @ [range_begin q..<range_end q] @ pe_seq ys)
    \<or> insert_extent mem (xs @ ys) (length xs) q no_merge = Err MemoryAllocationFailure \<and> \<not> mem"
proof -
  let ?c = "range_end q - range_begin q"
  have c: "0 < ?c" "range_begin q + ?c = range_end q" using q by (auto simp: range_wf_def)
  have head: "insert_extent mem (xs @ ys) (length xs) q no_merge =
      and_then (if \<not> no_merge \<and> length xs > 0
                 then and_then (get_extent_range (xs @ ys) (length xs - 1)) (\<lambda>p. Ok (range_end p = range_begin q))
                 else Ok False) (\<lambda>follows.
       if follows then
         and_then (count_add_assign (xs @ ys) (length xs - 1) ?c) (\<lambda>es.
         if length xs < length es then merge_with_pred es (length xs) else Ok es)
       else
         and_then (if \<not> no_merge \<and> length xs < length (xs @ ys)
                   then and_then (get_extent_range (xs @ ys) (length xs)) (\<lambda>n. Ok (range_end q = range_begin n))
                   else Ok False) (\<lambda>precedes.
         if precedes then
           and_then (vec_set_fst (xs @ ys) (length xs) (range_begin q)) (\<lambda>es. count_add_assign es (length xs) ?c)
         else if mem then vec_insert (xs @ ys) (length xs) (range_begin q, ?c)
         else Err MemoryAllocationFailure))"
    using q c(1) any_overlap_disjoint [OF ok q dj] by (simp add: insert_extent_def)
  have seq_q: "extent_blocks (range_begin q, ?c) = [range_begin q..<range_end q]"
    using c(2) by (simp add: extent_blocks_def)
  consider (follows) us u where "\<not> no_merge" "xs = us @ [u]" "fst u + snd u = range_begin q"
    | (precedes) v vs where "\<not> no_merge" "ys = v # vs" "range_end q = fst v"
        "xs = [] \<or> fst (last xs) + snd (last xs) \<noteq> range_begin q"
    | (alone) "no_merge \<or> (xs = [] \<or> fst (last xs) + snd (last xs) \<noteq> range_begin q)
        \<and> (ys = [] \<or> range_end q \<noteq> fst (hd ys))"
    by (cases no_merge; cases xs rule: rev_cases; cases ys) auto
  then show ?thesis
  proof cases
    case follows
    let ?u = "(fst u, snd u + ?c)"
    have run: "insert_extent mem (xs @ ys) (length xs) q no_merge =
        (if ys \<noteq> [] then merge_with_pred (us @ ?u # ys) (Suc (length us)) else Ok (us @ ?u # ys))"
      using follows ok q c unfolding head
      by (simp add: nth_append count_add_assign_def list_update_append range_wf_def)
    have u: "extent_blocks ?u = extent_blocks u @ [range_begin q..<range_end q]"
      using extent_blocks_merge [of "range_begin q" "fst u" "snd u" ?c] follows(3) seq_q by simp
    show ?thesis
    proof (cases ys)
      case Nil
      then show ?thesis using run u ok q follows by (simp add: range_wf_def) linarith
    next
      case (Cons v vs)
      with ok q follows have "extents_ok (us @ [?u, v] @ vs)" by (simp add: range_wf_def) linarith
      from merge_with_pred_app [OF this] obtain zs where
        "merge_with_pred (us @ ?u # ys) (Suc (length us)) = Ok (us @ zs @ vs)"
        "pe_seq zs = pe_seq [?u, v]" "extents_ok zs" by (auto simp: Cons)
      then show ?thesis using run u ok Cons follows by simp
    qed
  next
    case precedes
    have "extent_blocks (range_begin q, snd v + ?c) = [range_begin q..<range_end q] @ extent_blocks v"
      using extent_blocks_merge [of "fst v" "range_begin q" ?c "snd v"] precedes(3) c(2) seq_q
      by (simp add: add.commute)
    moreover have "insert_extent mem (xs @ ys) (length xs) q no_merge = Ok (xs @ (range_begin q, snd v + ?c) # vs)"
      using precedes ok q c unfolding head
      by (cases xs rule: rev_cases) (auto simp: nth_append count_add_assign_def list_update_append range_wf_def)
    ultimately show ?thesis using ok q precedes c by (simp add: range_wf_def)
  next
    case alone
    have "insert_extent mem (xs @ ys) (length xs) q no_merge =
        (if mem then Ok (xs @ (range_begin q, ?c) # ys) else Err MemoryAllocationFailure)"
      using alone ok q c unfolding head
      by (cases xs rule: rev_cases; cases ys) (auto simp: nth_append range_wf_def)
    then show ?thesis using seq_q ok q c by (simp add: range_wf_def)
  qed
qed

lemma insert_extent_spec:
  assumes wf: "pe_wf es" and q: "range_wf q" and dj: "set (pe_seq es) \<inter> blocks q = {}" and pos: "pos \<le> length es"
  shows "case insert_extent mem es pos q no_merge of
      Ok es' \<Rightarrow> pe_wf es' \<and> pe_seq es' = pe_seq (take pos es) @ [range_begin q..<range_end q] @ pe_seq (drop pos es)
    | Err e \<Rightarrow> e = MemoryAllocationFailure \<and> \<not> mem
    | Panic \<Rightarrow> False"
proof -
  define xs ys where "xs = take pos es" and "ys = drop pos es"
  have es: "es = xs @ ys" "pos = length xs" using pos by (simp_all add: xs_def ys_def)
  have "distinct (pe_seq xs @ [range_begin q..<range_end q] @ pe_seq ys)"
    using wf dj by (auto simp: es pe_wf_def blocks_def)
  with insert_extent_app [of xs ys q mem no_merge] wf q dj show ?thesis
    by (auto simp: es pe_wf_def)
qed

lemma append_extents_spec:
  assumes wf: "pe_wf (es @ extents)"
  shows "case append_extents mem es extents no_merge of
      Ok es' \<Rightarrow> pe_wf es' \<and> pe_seq es' = pe_seq es @ pe_seq extents
    | Err e \<Rightarrow> e = MemoryAllocationFailure \<and> \<not> mem
    | Panic \<Rightarrow> False"
proof (cases "es = [] \<or> extents = []")
  case True
  then show ?thesis using wf by (auto simp: append_extents_def pe_wf_def)
next
  case False
  then obtain us u v vs where es: "es = us @ [u]" "extents = v # vs"
    by (metis list.exhaust rev_exhaust)
  have merged: "fst u + snd u = fst v \<Longrightarrow> extent_blocks (fst u, snd u + snd v) = extent_blocks u @ extent_blocks v"
    using extent_blocks_merge [of "fst v" "fst u" "snd u" "snd v"] by simp
  have run: "append_extents mem es extents no_merge =
      (if \<not> mem then Err MemoryAllocationFailure
       else if no_merge \<or> fst u + snd u \<noteq> fst v then Ok (es @ extents)
       else Ok (us @ (fst u, snd u + snd v) # vs))"
    using wf by (auto simp: append_extents_def es pe_wf_def get_extent_range_def count_add_assign_def
        nth_append list_update_append)
  show ?thesis using wf merged by (simp add: run) (auto simp: es pe_wf_def)
qed

lemma split_extents_eq:
  assumes ok: "extents_ok (xs @ e # ys)" and off: "off \<le> snd e"
  shows "split_extents mem (xs @ e # ys) (length xs) off =
    (if off = snd e \<and> ys = [] then Ok (xs @ [e], [])
     else if \<not> mem then Err MemoryAllocationFailure
     else if off = snd e then Ok (xs @ [e], ys)
     else if off = 0 then Ok (xs, e # ys)
     else Ok (xs @ [(fst e, off)], (fst e + off, snd e - off) # ys))"
proof -
  have r: "get_extent_range (xs @ e # ys) (length xs) = Ok (mk_range (fst e) (fst e + snd e))"
    using ok by (simp add: get_extent_range_def nth_append)
  show ?thesis
  proof (cases "off = snd e")
    case True
    then show ?thesis using ok r by (cases ys) (auto simp: split_extents_def Let_def nth_append)
  next
    case False
    then have "off < snd e" "fst e + off < u64_bound" using off ok by auto
    then show ?thesis
      using ok r by (auto simp: split_extents_def Let_def nth_append list_update_append)
  qed
qed

lemma extent_blocks_split:
  assumes "off \<le> snd e"
  shows "extent_blocks (fst e, off) = take off (extent_blocks e)"
    and "extent_blocks (fst e + off, snd e - off) = drop off (extent_blocks e)"
  using assms by (simp_all add: extent_blocks_def take_upt drop_upt)

lemma split_extents_spec:
  assumes wf: "pe_wf es" and i: "i < length es" "off \<le> snd (es ! i)"
  shows "case split_extents mem es i off of
      Ok (a, b) \<Rightarrow> pe_wf a \<and> pe_wf b
        \<and> pe_seq a = take (length (pe_seq (take i es)) + off) (pe_seq es)
        \<and> pe_seq b = drop (length (pe_seq (take i es)) + off) (pe_seq es)
    | Err e \<Rightarrow> e = MemoryAllocationFailure \<and> \<not> mem
    | Panic \<Rightarrow> False"
proof -
  from nth_split [OF i(1)] obtain xs ys where es: "es = xs @ es ! i # ys" "length xs = i" by blast
  define e where "e = es ! i"
  have es': "es = xs @ e # ys" "i = length xs" "off \<le> snd e" using es i by (simp_all add: e_def)
  have ok: "extents_ok (xs @ e # ys)" "distinct (pe_seq (xs @ e # ys))" using wf es' by (simp_all add: pe_wf_def)
  note s = extent_blocks_split [OF es'(3)]
  have d: "distinct (extent_blocks e)" by (simp add: extent_blocks_def)
  have sub: "set (take off (extent_blocks e)) \<subseteq> set (extent_blocks e)"
    "set (drop off (extent_blocks e)) \<subseteq> set (extent_blocks e)"
    by (rule set_take_subset set_drop_subset)+
  have all: "off = snd e \<Longrightarrow> take off (extent_blocks e) = extent_blocks e"
    "off = snd e \<Longrightarrow> drop off (extent_blocks e) = []" by simp_all
  have "distinct (pe_seq xs @ take off (extent_blocks e))" "distinct (drop off (extent_blocks e) @ pe_seq ys)"
    using ok(2) d sub by (auto simp del: set_extent_blocks)
  then show ?thesis
    using ok es'(3) s all unfolding es'(1,2) split_extents_eq [OF ok(1) es'(3)]
    by (cases "off = snd e"; cases "off = 0"; cases ys) (auto simp: pe_wf_def)
qed

lemma shrink_extent_by_spec:
  assumes wf: "pe_wf es" and i: "i < length es" "n \<le> snd (es ! i)"
  shows "\<exists>removed es'. shrink_extent_by es i n = Ok (removed, es') \<and> pe_wf es'
    \<and> (removed \<longleftrightarrow> n = snd (es ! i))
    \<and> pe_seq es' = pe_seq (take i es) @ take (snd (es ! i) - n) (extent_blocks (es ! i)) @ pe_seq (drop (Suc i) es)"
proof -
  from nth_split [OF i(1)] obtain xs ys where es: "es = xs @ es ! i # ys" "length xs = i" by blast
  define e where "e = es ! i"
  have es': "es = xs @ e # ys" "i = length xs" "n \<le> snd e" using es i by (simp_all add: e_def)
  have s: "extent_blocks (fst e, snd e - n) = take (snd e - n) (extent_blocks e)"
    by (intro extent_blocks_split) simp
  have "set (take (snd e - n) (extent_blocks e)) \<subseteq> set (extent_blocks e)" by (rule set_take_subset)
  then have "distinct (pe_seq xs @ take (snd e - n) (extent_blocks e) @ pe_seq ys)"
    using wf by (auto simp: es' pe_wf_def simp del: set_extent_blocks)
  then show ?thesis
    using wf s es'(3)
    by (auto simp: es'(1,2) pe_wf_def shrink_extent_by_def remove_extent_def count_sub_assign_def nth_append list_update_append)
qed

subsection \<open>Sorting\<close>

lemma mset_sort_by [simp]: "mset (sort_by le xs) = mset xs"
proof -
  have "mset (insert_by le x ys) = add_mset x (mset ys)" for x and ys :: "'a list"
    by (induction ys) auto
  then show ?thesis by (induction xs) auto
qed

lemma sort_by_short: "length xs < 2 \<Longrightarrow> sort_by le xs = xs"
  by (cases xs; cases "tl xs") auto

lemma sort_by_sorted:
  assumes tot: "\<And>x y. le x y \<or> le y x" and tr: "\<And>x y z. le x y \<Longrightarrow> le y z \<Longrightarrow> le x z"
  shows "sorted_wrt le (sort_by le xs)"
proof -
  have set_ins: "set (insert_by le x ys) = insert x (set ys)" for x and ys :: "'a list"
    by (induction ys) auto
  have "sorted_wrt le ys \<Longrightarrow> sorted_wrt le (insert_by le x ys)" for x ys
  proof (induction ys)
    case (Cons y ys)
    then show ?case using tot tr by (auto simp: set_ins)
  qed simp
  then show ?thesis by (induction xs) auto
qed

lemma unpack_entries_eq:
  "extents_ok es \<Longrightarrow> unpack_entries es = Ok (map (\<lambda>e. (e, mk_range (fst e) (fst e + snd e))) es)"
  by (induction es) auto

lemma merge_loop_spec:
  assumes "extents_ok es" "1 \<le> start" "stop \<le> length es"
  shows "\<exists>es'. merge_loop es start stop = Ok es' \<and> extents_ok es' \<and> pe_seq es' = pe_seq es"
  using assms
proof (induction stop arbitrary: es)
  case (Suc pos)
  show ?case
  proof (cases "pos < start")
    case False
    then obtain k where k: "pos = Suc k" using Suc.prems(2) by (cases pos) auto
    have "k < length es" using Suc.prems(3) k by simp
    from nth_split [OF this] obtain xs zs where es: "es = xs @ es ! k # zs" "length xs = k" by blast
    have "length es = Suc (k + length zs)" using arg_cong [OF es(1), of length] es(2) by simp
    then obtain e ys where "zs = e # ys" using Suc.prems(3) k by (cases zs) auto
    with es(1) obtain d where es': "es = xs @ [d, e] @ ys" by simp
    from merge_with_pred_app [OF Suc.prems(1) [unfolded es']] obtain ms where
      ms: "merge_with_pred es pos = Ok (xs @ ms @ ys)" "pe_seq ms = pe_seq [d, e]" "extents_ok ms" "ms \<noteq> []"
      using k es(2) unfolding es' by blast
    have "pos \<le> length (xs @ ms @ ys)" using k es(2) ms(4) by (cases ms) auto
    then have "\<exists>es'. merge_loop (xs @ ms @ ys) start pos = Ok es' \<and> extents_ok es' \<and> pe_seq es' = pe_seq (xs @ ms @ ys)"
      using Suc.prems ms(3) by (intro Suc.IH) (auto simp: es')
    then show ?thesis using False ms(1,2) by (simp add: es')
  qed (use Suc.prems in simp)
qed simp

lemma pe_seq_mset: "mset es = mset fs \<Longrightarrow> mset (pe_seq es) = mset (pe_seq fs)"
  by (simp add: pe_seq_def mset_concat flip: sum_mset_sum_list)

definition sort_ranges :: "(block_range \<Rightarrow> block_range \<Rightarrow> bool) \<Rightarrow> physical_extents \<Rightarrow> physical_extents" where
  "sort_ranges le = sort_by (\<lambda>d e. le (mk_range (fst d) (fst d + snd d)) (mk_range (fst e) (fst e + snd e)))"

lemma sort_extents_by_spec:
  assumes wf: "pe_wf es" and r: "a \<le> b" "b \<le> length es"
  shows "\<exists>es'. sort_extents_by es a b le no_merge = Ok es' \<and> pe_wf es'
    \<and> pe_seq es' = pe_seq (take a es @ sort_ranges le (drop a (take b es)) @ drop b es)"
proof -
  define sorted_slice where "sorted_slice = sort_ranges le (drop a (take b es))"
  let ?es = "take a es @ sorted_slice @ drop b es"
  let ?f = "\<lambda>e. (e, mk_range (fst e) (fst e + snd e))"
  have ok: "extents_ok (drop a (take b es))"
    by (rule extents_ok_sub [of es]) (use wf in \<open>auto simp: pe_wf_def dest!: in_set_dropD in_set_takeD\<close>)
  have map_sort: "map fst (sort_by (\<lambda>x y. le (snd x) (snd y)) (map ?f xs))
      = sort_by (\<lambda>d e. le (snd (?f d)) (snd (?f e))) xs" for xs
  proof -
    have ins: "insert_by (\<lambda>x y. le (snd x) (snd y)) (?f x) (map ?f ys) = map ?f (insert_by (\<lambda>d e. le (snd (?f d)) (snd (?f e))) x ys)" for x ys
      by (induction ys) auto
    have "sort_by (\<lambda>x y. le (snd x) (snd y)) (map ?f xs) = map ?f (sort_by (\<lambda>d e. le (snd (?f d)) (snd (?f e))) xs)"
      by (induction xs) (auto simp: ins)
    then show ?thesis by (simp add: comp_def)
  qed
  have "(if length (drop a (take b es)) < 2 then Ok (drop a (take b es))
         else and_then (unpack_entries (drop a (take b es))) (\<lambda>rs.
              Ok (map fst (sort_by (\<lambda>x y. le (snd x) (snd y)) rs)))) = Ok sorted_slice"
    using ok map_sort by (simp add: unpack_entries_eq sorted_slice_def sort_ranges_def sort_by_short)
  then have run: "sort_extents_by es a b le no_merge = (if no_merge then Ok ?es
      else merge_loop ?es (if a = 0 then 1 else a) (if b < length ?es then b + 1 else b))"
    using r by (simp only: sort_extents_by_def Let_def and_then_simps if_True simp_thms)
  have perm: "mset ?es = mset es"
    using arg_cong [OF take_mid_drop [OF r(1), of es], of mset] by (simp add: sorted_slice_def sort_ranges_def)
  then have ok': "extents_ok ?es" "distinct (pe_seq ?es)" and len: "length ?es = length es"
    using wf pe_seq_mset [OF perm] mset_eq_setD [OF perm] mset_eq_length [OF perm]
    by (auto simp: pe_wf_def extents_ok_def simp del: pe_seq_simps dest: mset_eq_imp_distinct_iff)
  have "1 \<le> (if a = 0 then 1 else a)" "(if b < length ?es then b + 1 else b) \<le> length ?es"
    using r(2) unfolding len by simp_all
  from merge_loop_spec [OF ok'(1) this] obtain es' where
    "merge_loop ?es (if a = 0 then 1 else a) (if b < length ?es then b + 1 else b) = Ok es'"
      "extents_ok es'" "pe_seq es' = pe_seq ?es" by blast
  with run have "sort_extents_by es a b le no_merge = Ok (if no_merge then ?es else es')"
    "extents_ok es'" "pe_seq es' = pe_seq ?es" by simp_all
  with ok' show ?thesis unfolding sorted_slice_def [symmetric] by (cases no_merge) (auto simp: pe_wf_def simp del: pe_seq_simps)
qed

subsection \<open>Conversion into a set of extents\<close>

lemma counts_to_ends_Ok:
  assumes "\<forall>e \<in> set es. fst e + snd e < u64_bound"
  shows "counts_to_ends es = Ok (map (\<lambda>e. (fst e, fst e + snd e)) es)"
  using assms by (induction es) auto

lemma sorted_disjoint_extents:
  assumes "sorted (map fst es)" "distinct es"
    and "\<forall>e \<in> set es. 0 < snd e \<and> fst e + snd e < u64_bound"
    and "\<forall>d \<in> set es. \<forall>e \<in> set es. d \<noteq> e \<longrightarrow> fst d + snd d \<le> fst e \<or> fst e + snd e \<le> fst d"
  shows "es_wf (map (\<lambda>e. (fst e, fst e + snd e)) es)"
  using assms
proof (induction es)
  case (Cons e es)
  have "fst e + snd e \<le> fst d" if d: "d \<in> set es" for d
  proof -
    have ne: "e \<noteq> d" using Cons.prems(2) d by auto
    have le: "fst e \<le> fst d" using Cons.prems(1) d by auto
    have "fst e + snd e \<le> fst d \<or> fst d + snd d \<le> fst e" "0 < snd d"
      using Cons.prems(3,4) d ne by auto
    with le show ?thesis by linarith
  qed
  moreover have "es_wf (map (\<lambda>e. (fst e, fst e + snd e)) es)"
    using Cons.prems by (intro Cons.IH) simp_all
  ultimately show ?case using Cons.prems(3) by auto
qed simp

lemma extents_set_from_physical_spec:
  assumes wf: "pe_wf es"
  shows "\<exists>s. extents_set_from_physical es = Ok s \<and> es_wf s \<and> es_blocks s = set (pe_seq es)"
proof -
  let ?s = "sort_key fst es"
  have nd: "distinct es \<and> (\<forall>d \<in> set es. \<forall>e \<in> set es. d \<noteq> e \<longrightarrow> fst d + snd d \<le> fst e \<or> fst e + snd e \<le> fst d)"
    using wf
  proof (induction es)
    case (Cons e es)
    have apart: "fst d + snd d \<le> fst e \<or> fst e + snd e \<le> fst d" if "d \<in> set es" for d
    proof -
      have "set (extent_blocks d) \<subseteq> set (pe_seq es)" "set (extent_blocks e) \<inter> set (pe_seq es) = {}"
        using Cons.prems that by (auto simp: pe_wf_def pe_seq_def)
      then have "set (extent_blocks e) \<inter> set (extent_blocks d) = {}" by blast
      moreover have "0 < snd d" "0 < snd e" using Cons.prems that by (auto simp: pe_wf_def extents_ok_def)
      ultimately show ?thesis by auto
    qed
    moreover have "e \<notin> set es"
      using Cons.prems apart [of e] by (auto simp: pe_wf_def)
    ultimately show ?case using Cons.IH Cons.prems by (auto simp: pe_wf_def)
  qed simp
  have ok: "\<forall>e \<in> set ?s. 0 < snd e \<and> fst e + snd e < u64_bound"
    using wf by (simp add: pe_wf_def extents_ok_def)
  then have "extents_set_from_physical es = Ok (map (\<lambda>e. (fst e, fst e + snd e)) ?s)"
    unfolding extents_set_from_physical_def by (intro counts_to_ends_Ok) simp
  moreover have "es_wf (map (\<lambda>e. (fst e, fst e + snd e)) ?s)"
    using nd ok by (intro sorted_disjoint_extents) auto
  moreover have "es_blocks (map (\<lambda>e. (fst e, fst e + snd e)) ?s) = set (pe_seq es)"
    by (auto simp: es_blocks_def pe_seq_def)
  ultimately show ?thesis by blast
qed

lemmas physical_extents_eval = insert_extent_def append_extents_def split_extents_def extents_set_from_physical_def
  get_extent_range_def count_add_assign_def merge_with_pred_def Let_def
  pe_wf_def extent_blocks_def overlaps_with_def

section \<open>Properties\<close>

text \<open>
  Inserting a nonempty range that is disjoint from all extents at a position of the sequence
  never panics and fails only when the memory reservation does. The block sequence gets the blocks
  of the range inserted exactly at the position, also when the range is merged with its
  predecessor, its successor or both, and the extents stay nonempty, in range and disjoint.
\<close>

theorem insert_extent_correct:
  assumes "pe_wf es" "range_wf q" "set (pe_seq es) \<inter> blocks q = {}" "pos \<le> length es"
  shows "case insert_extent mem es pos q no_merge of
      Ok es' \<Rightarrow> pe_wf es' \<and> pe_seq es' = pe_seq (take pos es) @ [range_begin q..<range_end q] @ pe_seq (drop pos es)
    | Err e \<Rightarrow> e = MemoryAllocationFailure \<and> \<not> mem
    | Panic \<Rightarrow> False"
  using assms by (rule insert_extent_spec)

theorem insert_extent_correct_witness:
  "insert_extent False [(2, 2), (7, 3)] 1 (mk_range 4 7) False = Ok [(2, 8)]
   \<and> pe_seq [(2, 8)] = pe_seq [(2, 2)] @ [4..<7] @ pe_seq [(7, 3)]"
proof -
  have run: "insert_extent False [(2, 2), (7, 3)] 1 (mk_range 4 7) False = Ok [(2, 8)]" by (simp add: physical_extents_eval)
  have "pe_wf [(2, 2), (7, 3)]" "set (pe_seq [(2, 2), (7, 3)]) \<inter> blocks (mk_range 4 7) = {}"
    by (simp_all add: physical_extents_eval)
  with insert_extent_correct [of "[(2, 2), (7, 3)]" "mk_range 4 7" 1 False False] run
  show ?thesis by (simp add: range_wf_def)
qed

text \<open>
  Appending one sequence of extents to another, all of them disjoint, never panics, fails only
  for memory, and concatenates the block sequences, whether or not the extents at the seam merge.
\<close>

theorem append_extents_correct:
  assumes "pe_wf (es @ extents)"
  shows "case append_extents mem es extents no_merge of
      Ok es' \<Rightarrow> pe_wf es' \<and> pe_seq es' = pe_seq es @ pe_seq extents
    | Err e \<Rightarrow> e = MemoryAllocationFailure \<and> \<not> mem
    | Panic \<Rightarrow> False"
  using assms by (rule append_extents_spec)

theorem append_extents_correct_witness:
  "append_extents True [(8, 1), (2, 2)] [(4, 1), (0, 2)] False = Ok [(8, 1), (2, 3), (0, 2)]
   \<and> pe_seq [(8, 1), (2, 3), (0, 2)] = pe_seq [(8, 1), (2, 2)] @ pe_seq [(4, 1), (0, 2)]"
proof -
  have run: "append_extents True [(8, 1), (2, 2)] [(4, 1), (0, 2)] False = Ok [(8, 1), (2, 3), (0, 2)]"
    by (simp add: physical_extents_eval)
  have "pe_wf ([(8, 1), (2, 2)] @ [(4, 1), (0, 2)])" by (simp add: physical_extents_eval)
  from append_extents_correct [OF this, of True False] run show ?thesis by simp
qed

text \<open>
  Splitting a sequence at an offset within (or at the end of) one of its extents never panics,
  fails only for memory, and yields two well formed sequences whose block sequences are the prefix
  and the suffix at the pivot.
\<close>

theorem split_extents_correct:
  assumes "pe_wf es" "i < length es" "off \<le> snd (es ! i)"
  shows "case split_extents mem es i off of
      Ok (a, b) \<Rightarrow> pe_wf a \<and> pe_wf b
        \<and> pe_seq a = take (length (pe_seq (take i es)) + off) (pe_seq es)
        \<and> pe_seq b = drop (length (pe_seq (take i es)) + off) (pe_seq es)
    | Err e \<Rightarrow> e = MemoryAllocationFailure \<and> \<not> mem
    | Panic \<Rightarrow> False"
  using assms by (rule split_extents_spec)

theorem split_extents_correct_witness:
  "split_extents True [(8, 1), (2, 5)] 1 2 = Ok ([(8, 1), (2, 2)], [(4, 3)])
   \<and> pe_seq [(4, 3)] = drop 3 (pe_seq [(8, 1), (2, 5)])"
proof -
  have run: "split_extents True [(8, 1), (2, 5)] 1 2 = Ok ([(8, 1), (2, 2)], [(4, 3)])" by (simp add: physical_extents_eval)
  have "pe_wf [(8, 1), (2, 5)]" by (simp add: physical_extents_eval)
  from split_extents_correct [OF this, of 1 2 True] run show ?thesis by (simp add: numeral_2_eq_2)
qed

text \<open>
  Sorting a part of the sequence with any comparison (optionally followed by the loop that
  merges contiguous neighbours from the back) never panics, keeps the invariant, and its block
  sequence is that of the sequence with this part stably sorted: merging never moves, drops or
  duplicates a block.
\<close>

theorem sort_extents_by_correct:
  assumes "pe_wf es" "a \<le> b" "b \<le> length es"
  shows "\<exists>es'. sort_extents_by es a b le no_merge = Ok es' \<and> pe_wf es'
    \<and> pe_seq es' = pe_seq (take a es @ sort_ranges le (drop a (take b es)) @ drop b es)"
  using assms by (rule sort_extents_by_spec)

theorem sort_extents_by_correct_witness:
  "\<exists>es'. sort_extents_by [(8, 1), (4, 2), (2, 2), (6, 1)] 0 3 (\<lambda>x y. range_begin x \<le> range_begin y) False = Ok es'
    \<and> pe_seq es' = [2, 3, 4, 5, 8, 6]"
proof -
  have "pe_wf [(8, 1), (4, 2), (2, 2), (6, 1)]" by (simp add: physical_extents_eval)
  from sort_extents_by_correct [OF this, of 0 3 "\<lambda>x y. range_begin x \<le> range_begin y" False]
  show ?thesis by (auto simp: sort_ranges_def extent_blocks_def)
qed

text \<open>
  Converting a well formed sequence of extents into an extents set never overflows and gives a
  well formed (sorted, disjoint) set of exactly the blocks of the sequence.
\<close>

theorem extents_set_from_physical_correct:
  assumes "pe_wf es"
  shows "\<exists>s. extents_set_from_physical es = Ok s \<and> es_wf s \<and> es_blocks s = set (pe_seq es)"
  using assms by (rule extents_set_from_physical_spec)

theorem extents_set_from_physical_correct_witness:
  "extents_set_from_physical [(8, 1), (2, 2)] = Ok [(2, 4), (8, 9)] \<and> es_wf [(2, 4), (8, 9)]"
proof -
  have run: "extents_set_from_physical [(8, 1), (2, 2)] = Ok [(2, 4), (8, 9)]" by (simp add: physical_extents_eval)
  have "pe_wf [(8, 1), (2, 2)]" by (simp add: physical_extents_eval)
  from extents_set_from_physical_correct [OF this] run show ?thesis by simp
qed

end
