(* ===== verification/Find_Free_Block.thy ===== *)
theory Find_Free_Block
  imports Bitmap_Word Alloc_Bitmap_Iter Physical_Extents
begin

text \<open>
  The search for a free block in the allocation bitmap, \<open>AllocBitmap::find_free_block()\<close> and
  \<open>find_free_fullword_block()\<close> of \<open>src/storage/src/fs/cocoonfs/alloc_bitmap/bitmap.rs\<close>. The search
  runs over the words of the bitmap with the pending changes applied, from an optional start and
  wrapping around at the end, and with the placement optimization goes on for a limited distance
  after the first candidate to find one that splits a smaller free block.
\<close>

section \<open>Looking for words allocated as part of a fullword chunk\<close>

fun min_by_key :: "('a \<Rightarrow> nat) \<Rightarrow> 'a list \<Rightarrow> 'a option" where
  "min_by_key key [] = None"
| "min_by_key key (x # xs) =
     (case min_by_key key xs of None \<Rightarrow> Some x | Some y \<Rightarrow> if key x \<le> key y then Some x else Some y)"

definition refresh_fullword_chunk ::
  "physical_extents option \<Rightarrow> block_range option \<Rightarrow> nat \<Rightarrow> block_range option outcome" where
  "refresh_fullword_chunk allocated_fullword_chunks next_chunk bitmap_word_index =
     (let ends_after = (\<lambda>e. drop_bit 6 (range_end e) > bitmap_word_index) in
      case Option.bind next_chunk (\<lambda>e. if ends_after e then Some e else None) of
        Some e \<Rightarrow> Ok (Some e)
      | None \<Rightarrow>
          (case allocated_fullword_chunks of
             None \<Rightarrow> Ok None
           | Some es \<Rightarrow> and_then (physical_extents_iter es) (\<lambda>rs. Ok (min_by_key range_end (filter ends_after rs)))))"

definition in_fullword_chunk :: "block_range option \<Rightarrow> nat \<Rightarrow> bool" where
  "in_fullword_chunk next_chunk bitmap_word_index \<longleftrightarrow>
     (case next_chunk of None \<Rightarrow> False | Some e \<Rightarrow> drop_bit 6 (range_begin e) \<le> bitmap_word_index)"

section \<open>Blocks of a full bitmap word\<close>

function skip_allocated_blocks :: "nat list \<Rightarrow> nat \<Rightarrow> nat \<Rightarrow> bool \<times> nat" where
  "skip_allocated_blocks allocated_blocks bitmap_word_index allocated_blocks_index =
     (if allocated_blocks_index \<ge> length allocated_blocks then (False, allocated_blocks_index)
      else let w = drop_bit 6 (allocated_blocks ! allocated_blocks_index) in
        if w < bitmap_word_index then skip_allocated_blocks allocated_blocks bitmap_word_index (allocated_blocks_index + 1)
        else if w = bitmap_word_index then (True, allocated_blocks_index + 1)
        else (False, allocated_blocks_index))"
  by pat_completeness auto
termination
  by (relation "measure (\<lambda>(bs, w, i). length bs - i)") auto

declare skip_allocated_blocks.simps [simp del]

fun fullword_block_loop ::
  "nat list \<Rightarrow> physical_extents option \<Rightarrow> nat \<Rightarrow> word_iter \<Rightarrow> block_range option \<Rightarrow> nat \<Rightarrow> nat option outcome" where
  "fullword_block_loop allocated_blocks chunks 0 it next_chunk allocated_blocks_index = Ok None"
| "fullword_block_loop allocated_blocks chunks (Suc n) it next_chunk allocated_blocks_index =
     and_then (word_iter_next it) (\<lambda>(item, it).
     case item of
       None \<Rightarrow> Ok None
     | Some (bitmap_word_index, bitmap_word) \<Rightarrow>
         if bitmap_word = 0 then
           let (allocated, allocated_blocks_index) = skip_allocated_blocks allocated_blocks bitmap_word_index allocated_blocks_index in
           if allocated then fullword_block_loop allocated_blocks chunks n it next_chunk allocated_blocks_index
           else
             and_then (refresh_fullword_chunk chunks next_chunk bitmap_word_index) (\<lambda>next_chunk.
             if in_fullword_chunk next_chunk bitmap_word_index
             then fullword_block_loop allocated_blocks chunks n it next_chunk allocated_blocks_index
             else Ok (Some (bitmap_word_index * 64)))
         else fullword_block_loop allocated_blocks chunks n it next_chunk allocated_blocks_index)"

definition find_free_fullword_block ::
  "alloc_bitmap \<Rightarrow> nat list \<Rightarrow> physical_extents option \<Rightarrow> sparse_alloc_bitmap list \<Rightarrow> sparse_alloc_bitmap list \<Rightarrow> nat \<Rightarrow> nat option outcome" where
  "find_free_fullword_block ab allocated_blocks chunks pending_allocs pending_frees image_size =
     (let image_bitmap_words = drop_bit 6 image_size in
      and_then (word_iter_new_at ab pending_allocs pending_frees 0) (\<lambda>it.
      fullword_block_loop allocated_blocks chunks image_bitmap_words it None 0))"

section \<open>Blocks smaller than a bitmap word\<close>

record found_candidate =
  fc_bitmap_word_index :: nat
  fc_bitmap_word :: bitmap_word
  fc_split_block_log2 :: nat

text \<open>The arguments of the search and the values that stay fixed during it.\<close>

record search_args =
  sa_bitmap :: alloc_bitmap
  sa_block_log2 :: nat
  sa_blocks_lsbs_mask :: bitmap_word
  sa_allocated_blocks :: "nat list"
  sa_fullword_chunks :: "physical_extents option"
  sa_pending_allocs :: "sparse_alloc_bitmap list"
  sa_pending_frees :: "sparse_alloc_bitmap list"
  sa_image_size :: nat
  sa_image_bitmap_words :: nat
  sa_search_begin :: nat
  sa_optimize :: bool

text \<open>The mutable variables of the search; the iterator is limited to a number of words.\<close>

record search_state =
  ss_iter :: word_iter
  ss_iter_left :: nat
  ss_allocated_blocks_index :: nat
  ss_next_chunk :: "block_range option"
  ss_best :: "found_candidate option"
  ss_distance :: nat

definition search_distance :: nat where
  "search_distance = 16"

function mark_allocated_blocks :: "nat list \<Rightarrow> nat \<Rightarrow> nat \<Rightarrow> nat \<Rightarrow> bitmap_word \<Rightarrow> nat \<times> bitmap_word" where
  "mark_allocated_blocks allocated_blocks block_log2 bitmap_word_index i w =
     (if i < length allocated_blocks \<and> drop_bit 6 (allocated_blocks ! i) = bitmap_word_index then
        mark_allocated_blocks allocated_blocks block_log2 bitmap_word_index (i + 1)
          (w OR push_bit (allocated_blocks ! i mod 64) (trailing_bits_mask (2 ^ block_log2)))
      else (i, w))"
  by pat_completeness auto
termination
  by (relation "measure (\<lambda>(bs, k, x, i, w). length bs - i)") auto

declare mark_allocated_blocks.simps [simp del]

definition mark_excess_blocks :: "nat \<Rightarrow> bitmap_word \<Rightarrow> bitmap_word" where
  "mark_excess_blocks image_size w =
     w OR NOT (trailing_bits_mask (64 - unat (- (of_nat image_size :: u64) AND 63)))"

definition limited_next :: "search_state \<Rightarrow> (sparse_entry option \<times> search_state) outcome" where
  "limited_next s =
     (if ss_iter_left s = 0 then Ok (None, s)
      else and_then (word_iter_next (ss_iter s)) (\<lambda>(item, it).
           Ok (item, s\<lparr>ss_iter := it, ss_iter_left := ss_iter_left s - 1\<rparr>)))"

definition wrap_around :: "search_args \<Rightarrow> search_state \<Rightarrow> search_state outcome" where
  "wrap_around a s =
     (if sa_search_begin a \<noteq> 0 then
        and_then (word_iter_new_at (sa_bitmap a) (sa_pending_allocs a) (sa_pending_frees a) 0) (\<lambda>it.
        Ok (s\<lparr>ss_iter := it, ss_iter_left := sa_search_begin a, ss_allocated_blocks_index := 0\<rparr>))
      else Ok s)"

definition prepare_word :: "search_args \<Rightarrow> search_state \<Rightarrow> nat \<Rightarrow> bitmap_word \<Rightarrow> (bitmap_word \<times> search_state) outcome" where
  "prepare_word a s bitmap_word_index w =
     (let (i, w) = mark_allocated_blocks (sa_allocated_blocks a) (sa_block_log2 a) bitmap_word_index (ss_allocated_blocks_index s) w;
          s = s\<lparr>ss_allocated_blocks_index := i\<rparr>
      in if bitmap_word_index + 1 = sa_image_bitmap_words a then
           and_then (wrap_around a s) (\<lambda>s. Ok (mark_excess_blocks (sa_image_size a) w, s))
         else Ok (w, s))"

datatype search_flow = Continue search_state | Break search_state | Return nat

definition examine_free_word :: "search_args \<Rightarrow> search_state \<Rightarrow> nat \<Rightarrow> search_flow outcome" where
  "examine_free_word a s bitmap_word_index =
     (if ss_best s = None then
        and_then (refresh_fullword_chunk (sa_fullword_chunks a) (ss_next_chunk s) bitmap_word_index) (\<lambda>next_chunk.
        let s = s\<lparr>ss_next_chunk := next_chunk\<rparr> in
        if in_fullword_chunk next_chunk bitmap_word_index then Ok (Continue s)
        else if \<not> sa_optimize a then Ok (Return (push_bit 6 bitmap_word_index mod u64_bound))
        else Ok (Continue (s\<lparr>ss_distance := search_distance,
               ss_best := Some \<lparr>fc_bitmap_word_index = bitmap_word_index, fc_bitmap_word = 0, fc_split_block_log2 = 6\<rparr>\<rparr>)))
      else Ok (Continue s))"

definition word_block_at :: "nat \<Rightarrow> nat \<Rightarrow> nat outcome" where
  "word_block_at bitmap_word_index offset = add_u64 (push_bit 6 bitmap_word_index mod u64_bound) offset"

definition examine_used_word :: "search_args \<Rightarrow> search_state \<Rightarrow> nat \<Rightarrow> bitmap_word \<Rightarrow> search_flow outcome" where
  "examine_used_word a s bitmap_word_index w =
     (let k = sa_block_log2 a; m = sa_blocks_lsbs_mask a; free = bitmap_word_free_blocks_lsbs w k m in
      if free = 0 then Ok (Continue s)
      else if \<not> sa_optimize a then
        and_then (word_block_at bitmap_word_index (trailing_zeros free)) (\<lambda>b. Ok (Return b))
      else
        debug_assert (case ss_best s of None \<Rightarrow> True | Some c \<Rightarrow> fc_split_block_log2 c > k) (
        and_then (bitmap_word_block_alloc_split_block_size_log2 free (map_option fc_split_block_log2 (ss_best s)) k m) (\<lambda>split.
        if split = k then
          and_then (bitmap_word_block_alloc_select_block free k m) (\<lambda>i.
          and_then (word_block_at bitmap_word_index i) (\<lambda>b. Ok (Return b)))
        else if (case ss_best s of None \<Rightarrow> True | Some c \<Rightarrow> fc_split_block_log2 c > split) then
          Ok (Continue (s\<lparr>ss_distance := (if ss_best s = None then search_distance else ss_distance s),
            ss_best := Some \<lparr>fc_bitmap_word_index = bitmap_word_index, fc_bitmap_word = w, fc_split_block_log2 = split\<rparr>\<rparr>))
        else Ok (Continue s))))"

definition examine_word :: "search_args \<Rightarrow> search_state \<Rightarrow> nat \<Rightarrow> bitmap_word \<Rightarrow> search_flow outcome" where
  "examine_word a s bitmap_word_index w =
     (if w = - 1 then Ok (Continue s)
      else if w = 0 then examine_free_word a s bitmap_word_index
      else examine_used_word a s bitmap_word_index w)"

definition search_step :: "search_args \<Rightarrow> search_state \<Rightarrow> search_flow outcome" where
  "search_step a s =
     and_then (limited_next s) (\<lambda>(item, s).
     case item of
       None \<Rightarrow> Ok (Break s)
     | Some (bitmap_word_index, w) \<Rightarrow>
         and_then (sub_u64 (ss_distance s) 1) (\<lambda>d.
         let s = s\<lparr>ss_distance := d\<rparr> in
         if d = 0 then debug_assert (sa_optimize a \<and> ss_best s \<noteq> None) (Ok (Break s))
         else and_then (prepare_word a s bitmap_word_index w) (\<lambda>(w, s). examine_word a s bitmap_word_index w)))"

definition select_candidate :: "found_candidate \<Rightarrow> nat outcome" where
  "select_candidate c =
     (let split = fc_split_block_log2 c in
      and_then (get_blocks_lsbs_mask split) (\<lambda>m.
      let free = bitmap_word_free_blocks_lsbs (fc_bitmap_word c) split m in
      and_then (if split < 5
                then and_then (get_blocks_lsbs_mask (split + 1)) (bitmap_word_filter_blocks_with_free_buddy_lsbs free free split)
                else Ok free) (\<lambda>free.
      debug_assert (free \<noteq> 0) (
      and_then (bitmap_word_block_alloc_select_block free split m) (\<lambda>i.
      add_u64 (fc_bitmap_word_index c * 64) i)))))"

text \<open>
  An iteration that goes on either finds the first candidate, or leaves the kind of the state and
  reduces the remaining search distance.
\<close>

lemma limited_next_keeps:
  "limited_next s = Ok (item, s') \<Longrightarrow> ss_best s' = ss_best s \<and> ss_distance s' = ss_distance s"
  by (auto simp: limited_next_def outcome_simps split: if_splits)

lemma prepare_word_keeps:
  "prepare_word a s i w = Ok (w', s') \<Longrightarrow> ss_best s' = ss_best s \<and> ss_distance s' = ss_distance s"
  by (auto simp: prepare_word_def wrap_around_def outcome_simps Let_def split: if_splits prod.splits)

lemma examine_word_progress:
  assumes "examine_word a s i w = Ok (Continue s')"
  shows "(ss_best s = None \<and> ss_best s' \<noteq> None) \<or> ((ss_best s = None \<longleftrightarrow> ss_best s' = None) \<and> ss_distance s' = ss_distance s)"
  using assms
  by (auto simp: examine_word_def examine_free_word_def examine_used_word_def outcome_simps Let_def split: if_splits)

lemma search_step_Continue:
  assumes "search_step a s = Ok (Continue s')"
  obtains i w s1 w2 s2 where "limited_next s = Ok (Some (i, w), s1)" "1 < ss_distance s1"
    "prepare_word a (s1\<lparr>ss_distance := ss_distance s1 - 1\<rparr>) i w = Ok (w2, s2)" "examine_word a s2 i w2 = Ok (Continue s')"
proof -
  from assms obtain item s1 where n: "limited_next s = Ok (item, s1)" by (auto simp: search_step_def outcome_simps)
  with assms obtain i w where item: "item = Some (i, w)" by (cases item) (auto simp: search_step_def)
  show ?thesis using assms that unfolding search_step_def n item
    by (auto simp: outcome_simps Let_def split: if_splits)
qed

lemma search_step_progress:
  assumes "search_step a s = Ok (Continue s')"
  shows "(ss_best s = None \<and> ss_best s' \<noteq> None) \<or> ((ss_best s = None \<longleftrightarrow> ss_best s' = None) \<and> ss_distance s' < ss_distance s)"
  using assms
proof (rule search_step_Continue)
  fix i w s1 w2 s2
  assume a: "limited_next s = Ok (Some (i, w), s1)" "1 < ss_distance s1"
    "prepare_word a (s1\<lparr>ss_distance := ss_distance s1 - 1\<rparr>) i w = Ok (w2, s2)" "examine_word a s2 i w2 = Ok (Continue s')"
  have "ss_best s2 = ss_best s" "ss_distance s2 = ss_distance s - 1" "1 < ss_distance s"
    using limited_next_keeps [OF a(1)] prepare_word_keeps [OF a(3)] a(2) by simp_all
  then show ?thesis using examine_word_progress [OF a(4)] by (elim disjE) simp_all
qed

function search_loop :: "search_args \<Rightarrow> search_state \<Rightarrow> (search_state + nat) outcome" where
  "search_loop a s =
     and_then (search_step a s) (\<lambda>flow. 
     case flow of Continue s \<Rightarrow> search_loop a s | Break s \<Rightarrow> Ok (Inl s) | Return b \<Rightarrow> Ok (Inr b))"
  by pat_completeness auto
termination
  by (relation "measures [\<lambda>(a, s). of_bool (ss_best s = None), \<lambda>(a, s). ss_distance s]")
    (auto dest!: search_step_progress)

declare search_loop.simps [simp del]

definition search_begin_word :: "nat option \<Rightarrow> bool \<Rightarrow> nat" where
  "search_begin_word search_begin optimize_placement =
     (case search_begin of
        None \<Rightarrow> 0
      | Some b \<Rightarrow> if optimize_placement then drop_bit 6 b - (search_distance - 1) else drop_bit 6 b)"

definition find_free_block ::
  "alloc_bitmap \<Rightarrow> nat \<Rightarrow> nat list \<Rightarrow> physical_extents option \<Rightarrow> sparse_alloc_bitmap list \<Rightarrow> sparse_alloc_bitmap list
     \<Rightarrow> nat \<Rightarrow> nat option \<Rightarrow> bool \<Rightarrow> nat option outcome" where
  "find_free_block ab block_log2 allocated_blocks chunks pending_allocs pending_frees image_size search_begin optimize_placement =
     debug_assert (2 ^ block_log2 \<le> (64 :: nat)) (
     if 2 ^ block_log2 = (64 :: nat) then
       find_free_fullword_block ab allocated_blocks chunks pending_allocs pending_frees image_size
     else
       and_then (add_u64 image_size 63) (\<lambda>n.
       let image_bitmap_words = drop_bit 6 n; begin_word = search_begin_word search_begin optimize_placement in
       debug_assert (begin_word < image_bitmap_words) (
       and_then (get_blocks_lsbs_mask block_log2) (\<lambda>m.
       and_then (word_iter_new_at ab pending_allocs pending_frees begin_word) (\<lambda>it.
       debug_assert (sorted allocated_blocks) (
       let a = \<lparr>sa_bitmap = ab, sa_block_log2 = block_log2, sa_blocks_lsbs_mask = m, sa_allocated_blocks = allocated_blocks,
             sa_fullword_chunks = chunks, sa_pending_allocs = pending_allocs, sa_pending_frees = pending_frees,
             sa_image_size = image_size, sa_image_bitmap_words = image_bitmap_words, sa_search_begin = begin_word,
             sa_optimize = optimize_placement\<rparr>;
           s = \<lparr>ss_iter = it, ss_iter_left = image_bitmap_words - begin_word,
             ss_allocated_blocks_index = partition_point (\<lambda>b. drop_bit 6 b < begin_word) allocated_blocks,
             ss_next_chunk = None, ss_best = None, ss_distance = image_bitmap_words + 1\<rparr>
       in and_then (search_loop a s) (\<lambda>flow.
          case flow of
            Inr b \<Rightarrow> Ok (Some b)
          | Inl s \<Rightarrow> (case ss_best s of
              None \<Rightarrow> Ok None
            | Some c \<Rightarrow> and_then (select_candidate c) (\<lambda>b. Ok (Some b))))))))))"

section \<open>Words as sets of blocks\<close>

definition word_shows :: "nat set \<Rightarrow> nat \<Rightarrow> bitmap_word \<Rightarrow> bool" where
  "word_shows B i w \<longleftrightarrow> (\<forall>j<64. bit w j \<longleftrightarrow> 64 * i + j \<in> B)"

lemma free_at_shows:
  assumes w: "word_shows B i w" and k: "k \<le> 6" and j: "2 ^ k dvd j" "j < 64"
  shows "free_at w k j \<longleftrightarrow> {64 * i + j..<64 * i + j + 2 ^ k} \<inter> B = {}"
proof -
  have "bit w (j + l) \<longleftrightarrow> 64 * i + j + l \<in> B" if "l < 2 ^ k" for l
    using w that aligned_block_in_word [OF k j] by (simp add: word_shows_def add.assoc)
  moreover have "{64 * i + j..<64 * i + j + 2 ^ k} \<inter> B = {} \<longleftrightarrow> (\<forall>l < 2 ^ k. 64 * i + j + l \<notin> B)"
    by (auto simp: disjoint_iff) (metis add_diff_inverse_nat nat_add_left_cancel_less not_le)
  ultimately show ?thesis using j by (auto simp: free_at_def)
qed

lemma free_at_mono:
  assumes "s \<le> t" "t \<le> 6" "free_at w t j"
  shows "free_at w s j"
proof -
  have "(2 :: nat) ^ s \<le> 2 ^ t" "(2 :: nat) ^ s dvd 2 ^ t" using assms(1) by (simp_all add: le_imp_power_dvd)
  then show ?thesis using assms(3) unfolding free_at_def by (meson dvd_trans less_le_trans)
qed

lemma aligned_same_word:
  fixes b :: nat
  assumes "k \<le> 6" "2 ^ k dvd b" "x \<in> {b..<b + 2 ^ k}"
  shows "x div 64 = b div 64"
proof -
  have "(2 :: nat) ^ k dvd 64" using le_imp_power_dvd [OF assms(1), of "2 :: nat"] by simp
  then have "2 ^ k dvd b mod 64" using assms(2) by (simp add: dvd_mod)
  from aligned_block_in_word [OF assms(1) this] have "b mod 64 + 2 ^ k \<le> 64" by simp
  moreover have "b = 64 * (b div 64) + b mod 64" by simp
  moreover have "b = 64 * q + m \<Longrightarrow> m + P \<le> 64 \<Longrightarrow> b \<le> x \<Longrightarrow> x < b + P \<Longrightarrow> x div 64 = q" for q m P
    by (intro div_nat_eqI) auto
  ultimately show ?thesis using assms(3) by (simp only: atLeastLessThan_iff)
qed

lemma bit_block_mask:
  assumes "k \<le> 6" "j < 64"
  shows "bit (push_bit (b mod 64) (trailing_bits_mask (2 ^ k)) :: bitmap_word) j \<longleftrightarrow> b mod 64 \<le> j \<and> j < b mod 64 + 2 ^ k"
proof -
  have "(2 :: nat) ^ k \<le> 64" using power_increasing [OF assms(1), of "2 :: nat"] by simp
  then show ?thesis using assms(2) by (auto simp: bit_simps trailing_bits_mask_eq_mask)
qed

lemma ex_ge_split:
  assumes "p < n"
  shows "(\<exists>q\<ge>p. q < n \<and> R q) \<longleftrightarrow> R p \<or> (\<exists>q\<ge>Suc p. q < n \<and> R q)"
  using assms by (metis Suc_le_eq le_eq_less_or_eq)

lemma mark_loop_spec:
  assumes "k \<le> 6" "sorted bs" "\<forall>q<p. q < length bs \<longrightarrow> bs ! q div 64 < Suc i" "\<forall>q\<ge>p. q < length bs \<longrightarrow> i \<le> bs ! q div 64" "p \<le> length bs"
  shows "\<exists>w'. mark_allocated_blocks bs k i p w = (partition_point (\<lambda>b. b div 64 < Suc i) bs, w')
    \<and> (\<forall>j<64. bit w' j \<longleftrightarrow> bit w j \<or> (\<exists>q\<ge>p. q < length bs \<and> bs ! q div 64 = i \<and> bs ! q mod 64 \<le> j \<and> j < bs ! q mod 64 + 2 ^ k))"
  using assms
proof (induction "length bs - p" arbitrary: p w)
  case 0
  then have "partition_point (\<lambda>b. b div 64 < Suc i) bs = p" by (intro partition_pointI) auto
  then show ?case using 0 by (auto simp: mark_allocated_blocks.simps [of bs k i p w])
next
  case (Suc n)
  then have p: "p < length bs" by simp
  show ?case
  proof (cases "bs ! p div 64 = i")
    case False
    then have gt: "i < bs ! p div 64" using Suc.prems(4) p by force
    have later: "i < bs ! q div 64" if "p \<le> q" "q < length bs" for q
      using gt sorted_nth_mono [OF Suc.prems(2) that] div_le_mono [of "bs ! p" "bs ! q" 64] by linarith
    have "partition_point (\<lambda>b. b div 64 < Suc i) bs = p" using Suc.prems(3) later [of p] p by (intro partition_pointI) auto
    then show ?thesis using False later by (auto simp: mark_allocated_blocks.simps [of bs k i p w] drop_bit_6)
  next
    case True
    let ?w = "w OR push_bit (bs ! p mod 64) (trailing_bits_mask (2 ^ k))"
    have pre: "\<forall>q<Suc p. q < length bs \<longrightarrow> bs ! q div 64 < Suc i" "\<forall>q\<ge>Suc p. q < length bs \<longrightarrow> i \<le> bs ! q div 64" "Suc p \<le> length bs" "n = length bs - Suc p"
      using Suc.prems Suc.hyps(2) True p by (auto simp: less_Suc_eq)
    from Suc.hyps(1) [OF pre(4) Suc.prems(1,2) pre(1-3), of ?w] obtain w' where w':
      "mark_allocated_blocks bs k i (Suc p) ?w = (partition_point (\<lambda>b. b div 64 < Suc i) bs, w')"
      "\<forall>j<64. bit w' j \<longleftrightarrow> bit ?w j \<or> (\<exists>q\<ge>Suc p. q < length bs \<and> bs ! q div 64 = i \<and> bs ! q mod 64 \<le> j \<and> j < bs ! q mod 64 + 2 ^ k)" by blast
    have "bit w' j \<longleftrightarrow> bit w j \<or> (\<exists>q\<ge>p. q < length bs \<and> bs ! q div 64 = i \<and> bs ! q mod 64 \<le> j \<and> j < bs ! q mod 64 + 2 ^ k)" if "j < 64" for j
      unfolding ex_ge_split [OF p] using w'(2) that bit_block_mask [OF Suc.prems(1) that, of "bs ! p"] True by (simp add: bit_or_iff disj_assoc)
    then show ?thesis using w'(1) True p by (simp add: mark_allocated_blocks.simps [of bs k i p w] drop_bit_6)
  qed
qed

lemma mark_allocated_blocks_spec:
  assumes k: "k \<le> 6" and bs: "sorted bs" "\<forall>b \<in> set bs. 2 ^ k dvd b"
  shows "\<exists>w'. mark_allocated_blocks bs k i (partition_point (\<lambda>b. b div 64 < i) bs) w = (partition_point (\<lambda>b. b div 64 < Suc i) bs, w')
    \<and> (\<forall>j<64. bit w' j \<longleftrightarrow> bit w j \<or> (\<exists>b \<in> set bs. 64 * i + j \<in> {b..<b + 2 ^ k}))"
proof -
  let ?p = "partition_point (\<lambda>b. b div 64 < i) bs"
  have mono: "bs ! q div 64 \<le> bs ! r div 64" if "q \<le> r" "r < length bs" for q r
    using sorted_nth_mono [OF bs(1) that] by (rule div_le_mono)
  have before: "\<forall>q<?p. q < length bs \<longrightarrow> bs ! q div 64 < i" using partition_point_before by blast
  have after: "\<forall>q\<ge>?p. q < length bs \<longrightarrow> i \<le> bs ! q div 64"
  proof (intro allI impI)
    fix q assume q: "?p \<le> q" "q < length bs"
    then have "\<not> bs ! ?p div 64 < i" by (intro partition_point_at) simp
    then show "i \<le> bs ! q div 64" using mono [OF q] by linarith
  qed
  from mark_loop_spec [OF k bs(1), of ?p i w] before after obtain w' where w':
    "mark_allocated_blocks bs k i ?p w = (partition_point (\<lambda>b. b div 64 < Suc i) bs, w')"
    "\<forall>j<64. bit w' j \<longleftrightarrow> bit w j \<or> (\<exists>q\<ge>?p. q < length bs \<and> bs ! q div 64 = i \<and> bs ! q mod 64 \<le> j \<and> j < bs ! q mod 64 + 2 ^ k)"
    by (auto simp: less_Suc_eq)
  have "(\<exists>q\<ge>?p. q < length bs \<and> bs ! q div 64 = i \<and> bs ! q mod 64 \<le> j \<and> j < bs ! q mod 64 + 2 ^ k) \<longleftrightarrow> (\<exists>b \<in> set bs. 64 * i + j \<in> {b..<b + 2 ^ k})" (is "?L \<longleftrightarrow> ?R") if j: "j < 64" for j
  proof
    assume ?L
    then obtain q where q: "q < length bs" "bs ! q div 64 = i" "bs ! q mod 64 \<le> j" "j < bs ! q mod 64 + 2 ^ k" by blast
    moreover have "bs ! q = 64 * (bs ! q div 64) + bs ! q mod 64" by simp
    ultimately have "64 * i + j \<in> {bs ! q..<bs ! q + 2 ^ k}" by simp
    then show ?R using q(1) nth_mem by blast
  next
    assume ?R
    then obtain q where q: "q < length bs" "64 * i + j \<in> {bs ! q..<bs ! q + 2 ^ k}" by (auto simp: in_set_conv_nth)
    have "(64 * i + j) div 64 = i" using j by simp
    then have w: "bs ! q div 64 = i" using aligned_same_word [OF k _ q(2)] bs(2) q(1) by simp
    then have "?p \<le> q" using before q(1) by (meson not_le less_irrefl)
    moreover have "bs ! q = 64 * i + bs ! q mod 64" using w by (metis mult_div_mod_eq)
    ultimately show ?L using q w by (intro exI [of _ q]) auto
  qed
  then show ?thesis using w' by blast
qed

lemma mark_excess_blocks_bit:
  assumes N: "0 < N" "N < u64_bound" and i: "Suc i = (N + 63) div 64" and j: "j < 64"
  shows "bit (mark_excess_blocks N w) j \<longleftrightarrow> bit w j \<or> N \<le> 64 * i + j"
proof -
  let ?c = "N - 64 * i"
  have c: "0 < ?c" "?c \<le> 64" "N = 64 * i + ?c" using i N by linarith+
  have "unat (- (of_nat N :: u64) AND 63) = 64 - ?c"
  proof -
    have "- (of_nat N :: u64) = of_nat (u64_bound - N)" using N(2) by (simp add: of_nat_diff)
    then have "unat (- (of_nat N :: u64)) = u64_bound - N" using N(1) by (simp only:) (rule unat_of_nat_u64, simp)
    moreover have "- (of_nat N :: u64) AND 63 = take_bit 6 (- of_nat N)" by (simp add: take_bit_eq_mask mask_eq_exp_minus_1)
    ultimately have "unat (- (of_nat N :: u64) AND 63) = (u64_bound - N) mod 64" by (simp add: unsigned_take_bit_eq) (simp add: take_bit_eq_mod)
    also have "\<dots> = 64 - ?c"
    proof -
      have "u64_bound - N = 64 * (2 ^ 58 - Suc i) + (64 - ?c)" using c N(2) by simp
      moreover have "64 - ?c < 64" using c(1) by simp
      ultimately show ?thesis by (metis mod_less mod_mult_self4)
    qed
    finally show ?thesis .
  qed
  then have "64 - unat (- (of_nat N :: u64) AND 63) = ?c" using c by simp
  then show ?thesis using c j unfolding mark_excess_blocks_def
    by (auto simp: bit_simps trailing_bits_mask_eq_mask)
qed

end
