(* ===== verification/Find_Free_Block_Spec.thy ===== *)
theory Find_Free_Block_Spec
  imports Find_Free_Block
begin

text \<open>
  The correctness of the search for a free block: the invariant of its loop, and that it returns an
  aligned block which is free and inside the filesystem image exactly if there is one.
\<close>

section \<open>Chunks of full words\<close>

definition chunk_ranges :: "physical_extents option \<Rightarrow> block_range set" where
  "chunk_ranges chunks = (case chunks of None \<Rightarrow> {} | Some es \<Rightarrow> (\<lambda>e. mk_range (fst e) (fst e + snd e)) ` set es)"

definition word_in_chunk :: "physical_extents option \<Rightarrow> nat \<Rightarrow> bool" where
  "word_in_chunk chunks i \<longleftrightarrow> (\<exists>r \<in> chunk_ranges chunks. range_begin r div 64 \<le> i \<and> i < range_end r div 64)"

text \<open>A remembered chunk is the one that ends first among those that end after word \<open>i\<close>.\<close>

definition chunk_cache :: "physical_extents option \<Rightarrow> nat \<Rightarrow> block_range option \<Rightarrow> bool" where
  "chunk_cache chunks i c \<longleftrightarrow>
     (\<forall>r. c = Some r \<longrightarrow> r \<in> chunk_ranges chunks \<and> (\<forall>r' \<in> chunk_ranges chunks. i < range_end r' div 64 \<longrightarrow> range_end r \<le> range_end r'))"

lemma chunk_cache_mono: "chunk_cache chunks i c \<Longrightarrow> i \<le> i' \<Longrightarrow> chunk_cache chunks i' c"
  by (auto simp: chunk_cache_def)

lemma chunk_cache_None [simp]: "chunk_cache chunks i None"
  by (simp add: chunk_cache_def)

lemma min_by_key_None [simp]: "min_by_key key xs = None \<longleftrightarrow> xs = []"
  by (cases xs) (auto split: option.splits)

lemma min_by_key_Some: "min_by_key key xs = Some x \<Longrightarrow> x \<in> set xs \<and> (\<forall>y \<in> set xs. key x \<le> key y)"
proof (induction xs arbitrary: x)
  case (Cons a xs)
  then show ?case by (cases "min_by_key key xs") (fastforce split: if_splits)+
qed simp

lemma chunk_extents_iter_Ok:
  "extents_ok es \<Longrightarrow> physical_extents_iter es = Ok (map (\<lambda>e. mk_range (fst e) (fst e + snd e)) es)"
  by (induction es) (auto simp: extents_ok_def)

lemma refresh_fullword_chunk_spec:
  assumes ok: "\<And>es. chunks = Some es \<Longrightarrow> extents_ok es" and c: "chunk_cache chunks i c"
  shows "\<exists>c'. refresh_fullword_chunk chunks c i = Ok c' \<and> chunk_cache chunks i c'
    \<and> (c' = None \<longrightarrow> (\<forall>r \<in> chunk_ranges chunks. \<not> i < range_end r div 64)) \<and> (\<forall>r. c' = Some r \<longrightarrow> i < range_end r div 64)"
proof (cases "\<exists>r. c = Some r \<and> i < range_end r div 64")
  case True
  then show ?thesis using c by (auto simp: refresh_fullword_chunk_def drop_bit_6)
next
  case False
  then have b: "Option.bind c (\<lambda>e. if i < range_end e div 64 then Some e else None) = None" by (cases c) auto
  show ?thesis
  proof (cases chunks)
    case None
    then show ?thesis using b by (simp add: refresh_fullword_chunk_def drop_bit_6 chunk_ranges_def)
  next
    case (Some es)
    let ?rs = "filter (\<lambda>e. i < range_end e div 64) (map (\<lambda>e. mk_range (fst e) (fst e + snd e)) es)"
    have "refresh_fullword_chunk chunks c i = Ok (min_by_key range_end ?rs)"
      using b ok [OF Some] Some by (simp add: refresh_fullword_chunk_def drop_bit_6 chunk_extents_iter_Ok)
    moreover have rs: "set ?rs = {r \<in> chunk_ranges chunks. i < range_end r div 64}" using Some by (auto simp: chunk_ranges_def)
    moreover have "chunk_cache chunks i (min_by_key range_end ?rs)"
      unfolding chunk_cache_def using min_by_key_Some [of range_end ?rs] unfolding rs by blast
    moreover have "min_by_key range_end ?rs = None \<longrightarrow> (\<forall>r \<in> chunk_ranges chunks. \<not> i < range_end r div 64)"
      using rs unfolding min_by_key_None by (metis (mono_tags, lifting) empty_iff list.set(1) mem_Collect_eq)
    moreover have "\<forall>r. min_by_key range_end ?rs = Some r \<longrightarrow> i < range_end r div 64"
      using min_by_key_Some [of range_end ?rs] unfolding rs by blast
    ultimately show ?thesis by (intro exI [of _ "min_by_key range_end ?rs"] conjI)
  qed
qed

lemma chunks_disjoint:
  assumes wf: "pe_wf es" and r: "r \<in> chunk_ranges (Some es)" "r' \<in> chunk_ranges (Some es)" "r \<noteq> r'"
  shows "range_end r \<le> range_begin r' \<or> range_end r' \<le> range_begin r"
proof -
  obtain d e where de: "d \<in> set es" "e \<in> set es" "r = mk_range (fst d) (fst d + snd d)" "r' = mk_range (fst e) (fst e + snd e)"
    using r(1,2) by (auto simp: chunk_ranges_def)
  have ne: "d \<noteq> e" using de(3,4) r(3) by auto
  have pos: "0 < snd d" "0 < snd e" using wf de(1,2) by (auto simp: pe_wf_def extents_ok_def)
  have "extent_blocks d \<noteq> extent_blocks e"
  proof
    assume eq: "extent_blocks d = extent_blocks e"
    then have "snd d = snd e" by (metis length_extent_blocks)
    moreover have "fst d = fst e" using arg_cong [OF eq, of hd] pos by (simp add: extent_blocks_def)
    ultimately show False using ne by (simp add: prod_eq_iff)
  qed
  then have dj: "set (extent_blocks d) \<inter> set (extent_blocks e) = {}"
    using wf de(1,2) unfolding pe_wf_def pe_seq_def distinct_concat_iff by (metis imageI list.set_map)
  have "\<not> (fst d < fst e + snd e \<and> fst e < fst d + snd d)"
  proof
    assume "fst d < fst e + snd e \<and> fst e < fst d + snd d"
    then have "max (fst d) (fst e) \<in> set (extent_blocks d) \<inter> set (extent_blocks e)" using pos by (auto simp: max_def)
    then show False using dj by blast
  qed
  then show ?thesis using de(3,4) by auto
qed

lemma in_fullword_chunk_eq:
  assumes wf: "\<And>es. chunks = Some es \<Longrightarrow> pe_wf es" and c: "chunk_cache chunks i c"
    and e: "c = None \<longrightarrow> (\<forall>r \<in> chunk_ranges chunks. \<not> i < range_end r div 64)" "\<forall>r. c = Some r \<longrightarrow> i < range_end r div 64"
  shows "in_fullword_chunk c i \<longleftrightarrow> word_in_chunk chunks i"
proof (cases c)
  case None
  then show ?thesis using e(1) by (auto simp: in_fullword_chunk_def word_in_chunk_def)
next
  case (Some r)
  have r: "r \<in> chunk_ranges chunks" "i < range_end r div 64" using c e(2) Some by (auto simp: chunk_cache_def)
  then obtain es where es: "chunks = Some es" by (cases chunks) (auto simp: chunk_ranges_def)
  have "range_begin r div 64 \<le> i" if r': "r' \<in> chunk_ranges chunks" "range_begin r' div 64 \<le> i" "i < range_end r' div 64" for r'
  proof (cases "r = r'")
    case False
    have "range_end r \<le> range_end r'" using c Some r' by (auto simp: chunk_cache_def)
    moreover have "range_end r \<le> range_begin r' \<or> range_end r' \<le> range_begin r"
      using chunks_disjoint [OF wf [OF es] _ _ False] r(1) r'(1) es by simp
    moreover have "range_begin r < range_end r" using r(1) wf [OF es] es by (auto simp: chunk_ranges_def pe_wf_def extents_ok_def)
    ultimately have "range_end r \<le> range_begin r'" by linarith
    then have "range_end r div 64 \<le> range_begin r' div 64" by (rule div_le_mono)
    then show ?thesis using r'(2) r(2) by linarith
  qed (use r' in simp)
  then show ?thesis using r Some by (auto simp: in_fullword_chunk_def word_in_chunk_def drop_bit_6)
qed

section \<open>The invariant of the search\<close>

definition taken_blocks :: "alloc_bitmap \<Rightarrow> sparse_alloc_bitmap list \<Rightarrow> sparse_alloc_bitmap list \<Rightarrow> nat \<Rightarrow> nat list \<Rightarrow> nat \<Rightarrow> nat set" where
  "taken_blocks ab allocs frees k bs N = virtual_blocks ab allocs frees \<union> (\<Union>b \<in> set bs. {b..<b + 2 ^ k}) \<union> {N..}"

abbreviation args_taken :: "search_args \<Rightarrow> nat set" where
  "args_taken a \<equiv> taken_blocks (sa_bitmap a) (sa_pending_allocs a) (sa_pending_frees a) (sa_block_log2 a) (sa_allocated_blocks a) (sa_image_size a)"

definition args_ok :: "search_args \<Rightarrow> bool" where
  "args_ok a \<longleftrightarrow> (\<forall>sb \<in> set (sa_pending_allocs a @ sa_pending_frees a). sb_wf sb)
     \<and> sa_block_log2 a < 6 \<and> is_lsbs (sa_block_log2 a) (sa_blocks_lsbs_mask a)
     \<and> sorted (sa_allocated_blocks a) \<and> (\<forall>b \<in> set (sa_allocated_blocks a). 2 ^ sa_block_log2 a dvd b)
     \<and> 0 < sa_image_size a \<and> sa_image_size a < 2 ^ 57 \<and> sa_image_bitmap_words a = (sa_image_size a + 63) div 64
     \<and> sa_image_bitmap_words a \<le> length (bitmap (sa_bitmap a)) \<and> sa_search_begin a < sa_image_bitmap_words a
     \<and> (\<forall>es. sa_fullword_chunks a = Some es \<longrightarrow> pe_wf es \<and> sa_search_begin a = 0)"

text \<open>The word that the search examines at an index.\<close>

definition search_word :: "search_args \<Rightarrow> nat \<Rightarrow> bitmap_word" where
  "search_word a i =
     (let w = snd (mark_allocated_blocks (sa_allocated_blocks a) (sa_block_log2 a) i
                (partition_point (\<lambda>b. b div 64 < i) (sa_allocated_blocks a))
                (virtual_word (sa_bitmap a) (sa_pending_allocs a) (sa_pending_frees a) i))
      in if i + 1 = sa_image_bitmap_words a then mark_excess_blocks (sa_image_size a) w else w)"

lemma search_word_shows:
  assumes a: "args_ok a" and i: "i < sa_image_bitmap_words a"
  shows "word_shows (args_taken a) i (search_word a i)"
  unfolding word_shows_def
proof (intro allI impI)
  fix j :: nat assume j: "j < 64"
  let ?v = "virtual_word (sa_bitmap a) (sa_pending_allocs a) (sa_pending_frees a) i"
  have k: "sa_block_log2 a \<le> 6" using a by (simp add: args_ok_def)
  from mark_allocated_blocks_spec [OF k, of "sa_allocated_blocks a" i ?v] a obtain w where w:
    "mark_allocated_blocks (sa_allocated_blocks a) (sa_block_log2 a) i (partition_point (\<lambda>b. b div 64 < i) (sa_allocated_blocks a)) ?v
      = (partition_point (\<lambda>b. b div 64 < Suc i) (sa_allocated_blocks a), w)"
    "bit w j \<longleftrightarrow> bit ?v j \<or> (\<exists>b \<in> set (sa_allocated_blocks a). 64 * i + j \<in> {b..<b + 2 ^ sa_block_log2 a})"
    using j by (auto simp: args_ok_def)
  have v: "bit ?v j \<longleftrightarrow> 64 * i + j \<in> virtual_blocks (sa_bitmap a) (sa_pending_allocs a) (sa_pending_frees a)"
    using a i j by (intro virtual_word_bit) (auto simp: args_ok_def)
  show "bit (search_word a i) j \<longleftrightarrow> 64 * i + j \<in> args_taken a"
  proof (cases "i + 1 = sa_image_bitmap_words a")
    case True
    have "bit (mark_excess_blocks (sa_image_size a) w) j \<longleftrightarrow> bit w j \<or> sa_image_size a \<le> 64 * i + j"
      using a True j by (intro mark_excess_blocks_bit) (auto simp: args_ok_def)
    then show ?thesis using True w v by (simp add: search_word_def taken_blocks_def disj_assoc)
  next
    case False
    then have "64 * i + j < sa_image_size a" using a i j by (auto simp: args_ok_def)
    then show ?thesis using False w v by (simp add: search_word_def taken_blocks_def)
  qed
qed


text \<open>
  Where the search is: the words that are still to come, with the position of the iterator and the
  index into the allocated blocks. Before the wrap-around the iterator runs to the end of the
  bitmap, after it up to the word where the search began.
\<close>

definition scan_pos :: "search_args \<Rightarrow> search_state \<Rightarrow> nat list \<Rightarrow> bool" where
  "scan_pos a s rest \<longleftrightarrow>
     (let i = next_bitmap_word_index (ss_iter s); b = sa_search_begin a; n = sa_image_bitmap_words a in
      word_state (sa_bitmap a) (sa_pending_allocs a) (sa_pending_frees a) (ss_iter s)
      \<and> (b \<le> i \<and> i < n \<and> ss_iter_left s = n - i \<and> [i..<n] @ [0..<b] = rest
         \<or> i \<le> b \<and> ss_iter_left s = b - i \<and> [i..<b] = rest
         \<or> ss_iter_left s = 0 \<and> rest = [])
      \<and> (rest \<noteq> [] \<longrightarrow> ss_allocated_blocks_index s = partition_point (\<lambda>x. x div 64 < i) (sa_allocated_blocks a)))"

lemma scan_pos_update [simp]:
  "scan_pos a (s\<lparr>ss_distance := d\<rparr>) rest = scan_pos a s rest"
  "scan_pos a (s\<lparr>ss_best := c\<rparr>) rest = scan_pos a s rest"
  "scan_pos a (s\<lparr>ss_next_chunk := r\<rparr>) rest = scan_pos a s rest"
  by (simp_all add: scan_pos_def)

lemma limited_next_end:
  assumes "scan_pos a s []"
  shows "limited_next s = Ok (None, s)"
  using assms by (auto simp: scan_pos_def limited_next_def Let_def)

lemma word_iter_next_state:
  assumes "word_state ab allocs frees it" "next_bitmap_word_index it < length (bitmap ab)"
  shows "\<exists>it'. word_iter_next it = Ok (Some (next_bitmap_word_index it, virtual_word ab allocs frees (next_bitmap_word_index it)), it')
    \<and> word_state ab allocs frees it' \<and> next_bitmap_word_index it' = Suc (next_bitmap_word_index it)"
proof -
  let ?i = "next_bitmap_word_index it"
  have st: "word_invar it" "wi_bitmap it = ab" "word_items it = map (\<lambda>k. (k, virtual_word ab allocs frees k)) [?i..<length (bitmap ab)]"
    using assms(1) by (simp_all add: word_state_def)
  then have items: "word_items it = (?i, virtual_word ab allocs frees ?i) # map (\<lambda>k. (k, virtual_word ab allocs frees k)) [Suc ?i..<length (bitmap ab)]"
    using assms(2) by (simp add: upt_conv_Cons)
  from word_it.next_total [OF assms(1)] obtain it' where it': "word_iter_next it = Ok (Some (?i, virtual_word ab allocs frees ?i), it')"
    "word_state ab allocs frees it'" unfolding items by auto
  moreover have "next_bitmap_word_index it' = Suc ?i"
    using word_next_spec [OF st(1)] assms(2) st(2) it'(1) by auto
  ultimately show ?thesis by blast
qed

lemma partition_point_False: "partition_point (\<lambda>x. False) xs = 0"
  by (cases xs) (simp_all add: partition_point_def)

lemma scan_pos_next:
  assumes a: "args_ok a" and s: "scan_pos a s (i # rest)"
  shows "\<exists>s1. limited_next s = Ok (Some (i, virtual_word (sa_bitmap a) (sa_pending_allocs a) (sa_pending_frees a) i), s1)
    \<and> i < sa_image_bitmap_words a \<and> ss_best s1 = ss_best s \<and> ss_distance s1 = ss_distance s \<and> ss_next_chunk s1 = ss_next_chunk s
    \<and> (\<forall>d. \<exists>s2. prepare_word a (s1\<lparr>ss_distance := d\<rparr>) i (virtual_word (sa_bitmap a) (sa_pending_allocs a) (sa_pending_frees a) i) = Ok (search_word a i, s2)
         \<and> scan_pos a s2 rest \<and> ss_best s2 = ss_best s \<and> ss_distance s2 = d \<and> ss_next_chunk s2 = ss_next_chunk s)"
proof -
  let ?ab = "sa_bitmap a" and ?al = "sa_pending_allocs a" and ?fr = "sa_pending_frees a" and ?n = "sa_image_bitmap_words a" and ?b = "sa_search_begin a"
  let ?pp = "\<lambda>i. partition_point (\<lambda>x. x div 64 < i) (sa_allocated_blocks a)"
  have st: "word_state ?ab ?al ?fr (ss_iter s)" and ai: "ss_allocated_blocks_index s = ?pp i" 
    and i: "next_bitmap_word_index (ss_iter s) = i"
    and cases: "?b \<le> i \<and> i < ?n \<and> ss_iter_left s = ?n - i \<and> rest = [Suc i..<?n] @ [0..<?b] \<or> i < ?b \<and> ss_iter_left s = ?b - i \<and> rest = [Suc i..<?b]"
    using s by (auto simp: scan_pos_def Let_def append_eq_Cons_conv upt_eq_Cons_conv)
  have b: "?b < ?n" and n: "?n \<le> length (bitmap ?ab)" and k: "sa_block_log2 a \<le> 6" using a by (auto simp: args_ok_def)
  have lt: "i < ?n" and left: "ss_iter_left s \<noteq> 0" using cases b by auto
  from word_iter_next_state [OF st] lt n i obtain it where it: "word_iter_next (ss_iter s) = Ok (Some (i, virtual_word ?ab ?al ?fr i), it)"
    "word_state ?ab ?al ?fr it" "next_bitmap_word_index it = Suc i" by auto
  let ?v = "virtual_word ?ab ?al ?fr i" and ?s1 = "s\<lparr>ss_iter := it, ss_iter_left := ss_iter_left s - 1\<rparr>"
  from mark_allocated_blocks_spec [OF k, of "sa_allocated_blocks a" i ?v] a obtain w where w:
    "mark_allocated_blocks (sa_allocated_blocks a) (sa_block_log2 a) i (?pp i) ?v = (?pp (Suc i), w)" by (auto simp: args_ok_def)
  have "\<exists>s2. prepare_word a (?s1\<lparr>ss_distance := d\<rparr>) i ?v = Ok (search_word a i, s2)
     \<and> scan_pos a s2 rest \<and> ss_best s2 = ss_best s \<and> ss_distance s2 = d \<and> ss_next_chunk s2 = ss_next_chunk s" for d
  proof (cases "i + 1 = ?n \<and> ?b \<noteq> 0")
    case True
    from word_iter_new_at_spec [of ?al ?fr ?ab 0] a obtain it0 where it0: "word_iter_new_at ?ab ?al ?fr 0 = Ok it0"
      "word_state ?ab ?al ?fr it0" "next_bitmap_word_index it0 = 0" by (auto simp: args_ok_def)
    have "rest = [0..<?b]" using cases True b by auto
    then show ?thesis using True it0 w ai
      by (simp add: prepare_word_def wrap_around_def search_word_def scan_pos_def Let_def partition_point_False)
  next
    case False
    have "prepare_word a (?s1\<lparr>ss_distance := d\<rparr>) i ?v = Ok (search_word a i, ?s1\<lparr>ss_distance := d, ss_allocated_blocks_index := ?pp (Suc i)\<rparr>)"
      using False w ai by (auto simp: prepare_word_def wrap_around_def search_word_def Let_def)
    moreover have "scan_pos a (?s1\<lparr>ss_distance := d, ss_allocated_blocks_index := ?pp (Suc i)\<rparr>) rest"
      using False cases it(2,3) lt by (auto simp: scan_pos_def Let_def)
    ultimately show ?thesis by simp
  qed
  then show ?thesis using it(1) left lt by (simp add: limited_next_def)
qed

definition no_block :: "search_args \<Rightarrow> nat \<Rightarrow> bool" where
  "no_block a i \<longleftrightarrow> search_word a i = 0 \<and> word_in_chunk (sa_fullword_chunks a) i \<or> (\<forall>j. \<not> free_at (search_word a i) (sa_block_log2 a) j)"

definition found_block :: "search_args \<Rightarrow> nat \<Rightarrow> bool" where
  "found_block a b \<longleftrightarrow> (\<exists>i j. i < sa_image_bitmap_words a \<and> free_at (search_word a i) (sa_block_log2 a) j
     \<and> \<not> (search_word a i = 0 \<and> word_in_chunk (sa_fullword_chunks a) i) \<and> b = 64 * i + j)"

text \<open>A candidate has an aligned free block of the recorded size, and one whose buddy is in use.\<close>

definition candidate_ok :: "search_args \<Rightarrow> found_candidate \<Rightarrow> bool" where
  "candidate_ok a c \<longleftrightarrow>
     (let i = fc_bitmap_word_index c; w = fc_bitmap_word c; t = fc_split_block_log2 c in
      i < sa_image_bitmap_words a \<and> w = search_word a i \<and> \<not> (w = 0 \<and> word_in_chunk (sa_fullword_chunks a) i)
      \<and> sa_block_log2 a < t \<and> t \<le> 6 \<and> (t = 6 \<longleftrightarrow> w = 0)
      \<and> (\<exists>j. free_at w t j \<and> (t < 5 \<longrightarrow> \<not> free_at w t (buddy t j))))"

definition search_inv :: "search_args \<Rightarrow> search_state \<Rightarrow> nat list \<Rightarrow> bool" where
  "search_inv a s rest \<longleftrightarrow> scan_pos a s rest
     \<and> (rest \<noteq> [] \<longrightarrow> chunk_cache (sa_fullword_chunks a) (hd rest) (ss_next_chunk s))
     \<and> (case ss_best s of
          None \<Rightarrow> ss_distance s = Suc (length rest) \<and> (\<forall>i < sa_image_bitmap_words a. i \<notin> set rest \<longrightarrow> no_block a i)
        | Some c \<Rightarrow> candidate_ok a c \<and> 0 < ss_distance s \<and> sa_optimize a)"

lemma free_at_zero: "free_at 0 6 0"
  by (simp add: free_at_def)

lemma no_free_at_full: "\<not> free_at (- 1) k j"
  by (auto simp: free_at_def bit_minus_1_iff intro!: exI [of _ 0])

lemma word_block_at_Ok: "i < 2 ^ 57 \<Longrightarrow> j < 64 \<Longrightarrow> word_block_at i j = Ok (64 * i + j)"
  by (simp add: word_block_at_def push_bit_eq_mult mult.commute)

lemma free_at_less: "free_at w k j \<Longrightarrow> j < 64"
  by (simp add: free_at_def)

lemma is_free_lsbs_zero: "is_free_lsbs w k f \<Longrightarrow> f = 0 \<longleftrightarrow> (\<forall>j. \<not> free_at w k j)"
  by (metis bit_0_eq bot_apply bot_bool_def bit_word_eqI is_free_lsbs_def)

lemma select_candidate_spec:
  assumes a: "args_ok a" and c: "candidate_ok a c"
  shows "\<exists>b. select_candidate c = Ok b \<and> found_block a b"
proof -
  define i w t where iwt: "i = fc_bitmap_word_index c" "w = fc_bitmap_word c" "t = fc_split_block_log2 c"
  have ok: "i < sa_image_bitmap_words a" "w = search_word a i" "\<not> (w = 0 \<and> word_in_chunk (sa_fullword_chunks a) i)"
    "sa_block_log2 a < t" "t \<le> 6" "t = 6 \<longleftrightarrow> w = 0" using c unfolding candidate_ok_def iwt Let_def by auto
  obtain j where j: "free_at w t j" "t < 5 \<longrightarrow> \<not> free_at w t (buddy t j)" using c unfolding candidate_ok_def iwt Let_def by blast
  obtain m where m: "get_blocks_lsbs_mask t = Ok m" "is_lsbs t m" using blocks_lsbs_mask [OF ok(5)] by blast
  define f where "f = bitmap_word_free_blocks_lsbs w t m"
  have f: "bit f x \<longleftrightarrow> free_at w t x" for x using free_blocks_lsbs [OF ok(5) m(2), of w] by (simp add: f_def is_free_lsbs_def)
  obtain g where g: "(if t < 5 then and_then (get_blocks_lsbs_mask (t + 1)) (bitmap_word_filter_blocks_with_free_buddy_lsbs f f t) else Ok f) = Ok g"
    "\<And>x. bit g x \<longleftrightarrow> free_at w t x \<and> (t < 5 \<longrightarrow> \<not> free_at w t (buddy t x))"
  proof (cases "t < 5")
    case True
    then have t: "t + 1 \<le> 6" "t < 6" by simp_all
    obtain dm where dm: "get_blocks_lsbs_mask (t + 1) = Ok dm" "is_lsbs (Suc t) dm" using blocks_lsbs_mask [OF t(1)] by auto
    have "bit f x \<Longrightarrow> 2 ^ t dvd x" for x using f by (simp add: free_at_def)
    from filter_buddy_bit [OF t(2) this dm(2), of f] obtain r where
      "bitmap_word_filter_blocks_with_free_buddy_lsbs f f t dm = Ok r" "\<forall>x. bit r x \<longleftrightarrow> bit f x \<and> \<not> bit f (buddy t x)" by blast
    then show ?thesis using True dm(1) f that [of r] by simp
  qed (use f that [of f] in simp)
  have gj: "bit g j" using g(2) j by blast
  then have g0: "g \<noteq> 0" by auto
  have "\<exists>x. bitmap_word_block_alloc_select_block g t m = Ok x \<and> bit g x"
  proof (rule select_block_spec [OF ok(5) m(2) _ g0])
    show "2 ^ t dvd x" if "bit g x" for x using g(2) that by (simp add: free_at_def)
    show "\<exists>x. bit g x \<and> \<not> bit g (buddy t x)" if "t < 5" using gj g(2) j(2) that by blast
    show "g \<noteq> m" if "t < 6"
    proof
      assume "g = m"
      then have "f = m" using g(2) f m(2) by (intro bit_word_eqI) (auto simp: is_lsbs_def free_at_def)
      moreover have "w \<noteq> 0" using ok(6) that by auto
      ultimately show False using not_all_free [OF _ ok(5) m(2), of w f] f by (simp add: is_free_lsbs_def)
    qed
  qed
  then obtain x where x: "bitmap_word_block_alloc_select_block g t m = Ok x" "bit g x" by blast
  then have fx: "free_at w t x" using g(2) by blast
  have "i < 2 ^ 57" using ok(1) a by (auto simp: args_ok_def)
  then have add: "add_u64 (i * 64) x = Ok (64 * i + x)" using free_at_less [OF fx] by (simp add: add_u64_def)
  have "select_candidate c = Ok (64 * i + x)"
    unfolding select_candidate_def iwt [symmetric] Let_def m(1) and_then_simps f_def [symmetric] g(1)
    using g0 x(1) add by simp
  moreover have "free_at w (sa_block_log2 a) x" using free_at_mono [OF less_imp_le [OF ok(4)] ok(5) fx] .
  ultimately show ?thesis using ok unfolding found_block_def by blast
qed


lemma examine_free_word_spec:
  assumes a: "args_ok a" and s: "scan_pos a s rest" and i: "i < sa_image_bitmap_words a" and w: "search_word a i = 0"
    and c: "chunk_cache (sa_fullword_chunks a) i (ss_next_chunk s)" and best: "ss_best s = None"
  shows "(\<exists>c'. examine_free_word a s i = Ok (Continue (s\<lparr>ss_next_chunk := c'\<rparr>)) \<and> no_block a i
        \<and> chunk_cache (sa_fullword_chunks a) i c')
    \<or> (\<exists>b. examine_free_word a s i = Ok (Return b) \<and> found_block a b)
    \<or> (\<exists>c' cand. examine_free_word a s i = Ok (Continue (s\<lparr>ss_next_chunk := c', ss_distance := search_distance, ss_best := Some cand\<rparr>))
        \<and> chunk_cache (sa_fullword_chunks a) i c' \<and> candidate_ok a cand \<and> sa_optimize a)"
proof -
  have wf: "pe_wf es" if "sa_fullword_chunks a = Some es" for es using a that by (simp add: args_ok_def)
  then have ok: "extents_ok es" if "sa_fullword_chunks a = Some es" for es using that by (auto simp: pe_wf_def)
  from refresh_fullword_chunk_spec [OF ok c] obtain c' where c': "refresh_fullword_chunk (sa_fullword_chunks a) (ss_next_chunk s) i = Ok c'"
    "chunk_cache (sa_fullword_chunks a) i c'" "c' = None \<longrightarrow> (\<forall>r \<in> chunk_ranges (sa_fullword_chunks a). \<not> i < range_end r div 64)"
    "\<forall>r. c' = Some r \<longrightarrow> i < range_end r div 64" by blast
  note cw = in_fullword_chunk_eq [OF wf c'(2-4)]
  have i': "i < 2 ^ 57" using i a by (auto simp: args_ok_def)
  have k: "sa_block_log2 a < 6" using a by (simp add: args_ok_def)
  have free: "free_at 0 (sa_block_log2 a) 0" using free_at_mono [OF _ _ free_at_zero, of "sa_block_log2 a"] k by simp
  show ?thesis
  proof (cases "word_in_chunk (sa_fullword_chunks a) i")
    case True
    then show ?thesis using c' best w cw by (auto simp: examine_free_word_def no_block_def)
  next
    case False
    have "found_block a (64 * i + 0)" unfolding found_block_def using i w False free by metis
    moreover have "push_bit 6 i mod u64_bound = 64 * i" using i' by (simp add: push_bit_eq_mult)
    moreover have "candidate_ok a \<lparr>fc_bitmap_word_index = i, fc_bitmap_word = 0, fc_split_block_log2 = 6\<rparr>"
      using i w False k free_at_zero by (auto simp: candidate_ok_def)
    ultimately show ?thesis using False c' best cw by (cases "sa_optimize a") (auto simp: examine_free_word_def)
  qed
qed

lemma examine_used_word_spec:
  assumes a: "args_ok a" and i: "i < sa_image_bitmap_words a" and w: "search_word a i = w" "w \<noteq> 0"
    and best: "\<And>c. ss_best s = Some c \<Longrightarrow> candidate_ok a c"
  shows "(examine_used_word a s i w = Ok (Continue s) \<and> (ss_best s = None \<longrightarrow> no_block a i))
    \<or> (\<exists>b. examine_used_word a s i w = Ok (Return b) \<and> found_block a b)
    \<or> (\<exists>cand. examine_used_word a s i w = Ok (Continue (s\<lparr>ss_distance := (if ss_best s = None then search_distance else ss_distance s), ss_best := Some cand\<rparr>))
        \<and> candidate_ok a cand \<and> sa_optimize a)"
proof -
  define k m f where kmf: "k = sa_block_log2 a" "m = sa_blocks_lsbs_mask a" "f = bitmap_word_free_blocks_lsbs w k m"
  have k: "k < 6" and m: "is_lsbs k m" and i': "i < 2 ^ 57" using a i by (auto simp: args_ok_def kmf)
  have f: "is_free_lsbs w k f" using k m unfolding kmf(3) by (intro free_blocks_lsbs) simp_all
  have fb: "bit f j \<longleftrightarrow> free_at w k j" for j using f by (simp add: is_free_lsbs_def)
  have found: "found_block a (64 * i + j)" if "free_at w k j" for j
    unfolding found_block_def using i w that by (metis kmf(1))
  show ?thesis
  proof (cases "f = 0")
    case True
    then show ?thesis using is_free_lsbs_zero [OF f] w kmf by (simp add: examine_used_word_def Let_def no_block_def)
  next
    case False
    show ?thesis
    proof (cases "sa_optimize a")
      case no: False
      have "free_at w k (trailing_zeros f)" using trailing_zeros_bit(2) [OF False] fb by blast
      then show ?thesis using no False found word_block_at_Ok [OF i' free_at_less] kmf by (simp add: examine_used_word_def Let_def)
    next
      case True
      have bs: "case ss_best s of None \<Rightarrow> True | Some c \<Rightarrow> k < fc_split_block_log2 c"
        using best by (auto simp: candidate_ok_def Let_def kmf split: option.splits)
      let ?mo = "map_option fc_split_block_log2 (ss_best s)"
      let ?mx = "case ?mo of None \<Rightarrow> 5 | Some x \<Rightarrow> min x 5"
      have k5: "k \<le> 5" using k by simp
      from split_size_spec [OF k5 m f False w(2), of ?mo] obtain r where r: "bitmap_word_block_alloc_split_block_size_log2 f ?mo k m = Ok r"
        "k \<le> r" "r \<le> max k ?mx" "\<exists>i. free_at w r i" "r < ?mx \<longrightarrow> (\<exists>i. free_at w r i \<and> \<not> free_at w r (buddy r i))" by blast
      note step = examine_used_word_def [of a s i w, folded kmf(1,2), unfolded Let_def, folded kmf(3)]
      show ?thesis
      proof (cases "r = k")
        case eq: True
        have "k < ?mx" if "k < 5" using that bs by (auto split: option.splits)
        then have lone: "\<exists>j. bit f j \<and> \<not> bit f (buddy k j)" if "k < 5" using r(5) eq fb that by blast
        have "2 ^ k dvd j" if "bit f j" for j using fb that by (simp add: free_at_def)
        moreover have "f \<noteq> m" if "k < 6" using not_all_free [OF w(2) less_imp_le [OF k] m f] .
        ultimately obtain j where j: "bitmap_word_block_alloc_select_block f k m = Ok j" "bit f j"
          using select_block_spec [OF less_imp_le [OF k] m _ False _ lone] by blast
        then show ?thesis using found [of j] fb word_block_at_Ok [OF i' free_at_less, of w k j] r(1) True False eq bs
          by (simp add: step)
      next
        case ne: False
        define cand where "cand = \<lparr>fc_bitmap_word_index = i, fc_bitmap_word = w, fc_split_block_log2 = r\<rparr>"
        show ?thesis
        proof (cases "case ss_best s of None \<Rightarrow> True | Some c \<Rightarrow> r < fc_split_block_log2 c")
          case better: True
          have "?mx \<le> 5" by (simp split: option.splits)
          then have "r \<le> 5" using r(3) k5 by linarith
          moreover have "r < ?mx" if "r < 5" using that better by (auto split: option.splits)
          ultimately have "candidate_ok a cand"
            using i w r(2,4,5) ne unfolding candidate_ok_def cand_def kmf(1) Let_def by auto
          moreover have "examine_used_word a s i w = Ok (Continue (s\<lparr>ss_distance := (if ss_best s = None then search_distance else ss_distance s), ss_best := Some cand\<rparr>))"
            using r(1) True False ne bs better by (simp add: step cand_def)
          ultimately show ?thesis using True by blast
        next
          case False
          then show ?thesis using r(1) True \<open>f \<noteq> 0\<close> ne bs by (auto simp: step split: option.splits)
        qed
      qed
    qed
  qed
qed

lemma search_step_end:
  assumes "search_inv a s []"
  shows "search_step a s = Ok (Break s)"
  using assms limited_next_end [of a s] by (simp add: search_inv_def search_step_def)

lemma cache_moves:
  assumes a: "args_ok a" and s: "scan_pos a s (i # rest)" and c: "chunk_cache (sa_fullword_chunks a) i c"
  shows "rest \<noteq> [] \<longrightarrow> chunk_cache (sa_fullword_chunks a) (hd rest) c"
proof (cases "sa_fullword_chunks a")
  case None
  then show ?thesis using c by (auto simp: chunk_cache_def chunk_ranges_def)
next
  case (Some es)
  then have "sa_search_begin a = 0" using a by (simp add: args_ok_def)
  then have "rest \<noteq> [] \<longrightarrow> i \<le> hd rest" using s by (auto simp: scan_pos_def Let_def upt_eq_Cons_conv)
  then show ?thesis using chunk_cache_mono [OF c] by blast
qed

lemma search_inv_Continue:
  assumes s: "scan_pos a s rest" "rest \<noteq> [] \<longrightarrow> chunk_cache (sa_fullword_chunks a) (hd rest) (ss_next_chunk s)"
    and none: "ss_best s = None \<Longrightarrow> ss_distance s = Suc (length rest) \<and> (\<forall>i < sa_image_bitmap_words a. i \<notin> set rest \<longrightarrow> no_block a i)"
    and some: "\<And>c. ss_best s = Some c \<Longrightarrow> candidate_ok a c \<and> 0 < ss_distance s \<and> sa_optimize a"
  shows "search_inv a s rest"
  using assms by (auto simp: search_inv_def split: option.splits)

lemma examine_word_spec:
  assumes a: "args_ok a" and i: "i < sa_image_bitmap_words a" and s: "scan_pos a s rest"
    and c: "chunk_cache (sa_fullword_chunks a) i (ss_next_chunk s)"
    and moves: "\<And>c. chunk_cache (sa_fullword_chunks a) i c \<Longrightarrow> rest \<noteq> [] \<longrightarrow> chunk_cache (sa_fullword_chunks a) (hd rest) c"
    and none: "ss_best s = None \<Longrightarrow> ss_distance s = Suc (length rest) \<and> (\<forall>j < sa_image_bitmap_words a. j \<noteq> i \<and> j \<notin> set rest \<longrightarrow> no_block a j)"
    and some: "\<And>c. ss_best s = Some c \<Longrightarrow> candidate_ok a c \<and> 0 < ss_distance s \<and> sa_optimize a"
  shows "(\<exists>b. examine_word a s i (search_word a i) = Ok (Return b) \<and> found_block a b)
    \<or> (\<exists>s'. examine_word a s i (search_word a i) = Ok (Continue s') \<and> search_inv a s' rest)"
proof -
  have skip: "search_inv a (s\<lparr>ss_next_chunk := c'\<rparr>) rest" if "ss_best s = None \<Longrightarrow> no_block a i" "chunk_cache (sa_fullword_chunks a) i c'" for c'
    using s none some moves that by (intro search_inv_Continue) auto
  have take: "search_inv a (s\<lparr>ss_next_chunk := c', ss_distance := d, ss_best := Some cand\<rparr>) rest"
    if "candidate_ok a cand" "chunk_cache (sa_fullword_chunks a) i c'" "0 < d" "sa_optimize a" for c' d cand
    using s moves that by (intro search_inv_Continue) auto
  have same: "s\<lparr>ss_next_chunk := ss_next_chunk s\<rparr> = s" by simp
  consider (full) "search_word a i = - 1" | (zero) "search_word a i = 0" | (used) "search_word a i \<noteq> 0" "search_word a i \<noteq> - 1" by blast
  then show ?thesis
  proof cases
    case full
    then have "no_block a i" by (simp add: no_block_def no_free_at_full)
    then show ?thesis using skip [OF _ c] full by (simp add: examine_word_def)
  next
    case zero
    show ?thesis
    proof (cases "ss_best s")
      case None
      from examine_free_word_spec [OF a s i zero c None] skip take zero show ?thesis
        by (fastforce simp: examine_word_def search_distance_def)
    next
      case (Some x)
      then show ?thesis using skip [OF _ c] zero by (simp add: examine_word_def examine_free_word_def)
    qed
  next
    case used
    have sd: "0 < (if ss_best s = None then search_distance else ss_distance s)" using some by (auto simp: search_distance_def)
    from examine_used_word_spec [OF a i refl used(1), of s] some have
      "(examine_used_word a s i (search_word a i) = Ok (Continue s) \<and> (ss_best s = None \<longrightarrow> no_block a i))
      \<or> (\<exists>b. examine_used_word a s i (search_word a i) = Ok (Return b) \<and> found_block a b)
      \<or> (\<exists>cand. examine_used_word a s i (search_word a i) = Ok (Continue (s\<lparr>ss_distance := (if ss_best s = None then search_distance else ss_distance s), ss_best := Some cand\<rparr>))
          \<and> candidate_ok a cand \<and> sa_optimize a)" by blast
    then show ?thesis using skip [OF _ c] take [OF _ c sd] used by (auto simp: examine_word_def)
  qed
qed

lemma search_step_spec:
  assumes a: "args_ok a" and s: "search_inv a s (i # rest)"
  shows "(\<exists>b. search_step a s = Ok (Return b) \<and> found_block a b)
    \<or> (\<exists>s' c. search_step a s = Ok (Break s') \<and> ss_best s' = Some c \<and> candidate_ok a c)
    \<or> (\<exists>s'. search_step a s = Ok (Continue s') \<and> search_inv a s' rest)"
proof -
  have pos: "scan_pos a s (i # rest)" and c: "chunk_cache (sa_fullword_chunks a) i (ss_next_chunk s)"
    and none: "ss_best s = None \<Longrightarrow> ss_distance s = Suc (Suc (length rest)) \<and> (\<forall>j < sa_image_bitmap_words a. j \<noteq> i \<and> j \<notin> set rest \<longrightarrow> no_block a j)"
    and some: "\<And>c. ss_best s = Some c \<Longrightarrow> candidate_ok a c \<and> 0 < ss_distance s \<and> sa_optimize a"
    using s by (auto simp: search_inv_def)
  have d: "0 < ss_distance s" using none some by (cases "ss_best s") auto
  let ?v = "virtual_word (sa_bitmap a) (sa_pending_allocs a) (sa_pending_frees a) i"
  from scan_pos_next [OF a pos] obtain s1 where s1: "limited_next s = Ok (Some (i, ?v), s1)" "i < sa_image_bitmap_words a"
    "ss_best s1 = ss_best s" "ss_distance s1 = ss_distance s"
    and prep: "\<And>d. \<exists>s2. prepare_word a (s1\<lparr>ss_distance := d\<rparr>) i ?v = Ok (search_word a i, s2) \<and> scan_pos a s2 rest \<and> ss_best s2 = ss_best s
       \<and> ss_distance s2 = d \<and> ss_next_chunk s2 = ss_next_chunk s" by blast
  show ?thesis
  proof (cases "ss_distance s = 1")
    case True
    then obtain x where "ss_best s = Some x" using none by (cases "ss_best s") auto
    then show ?thesis using some [of x] s1 True by (simp add: search_step_def)
  next
    case False
    from prep [of "ss_distance s - 1"] obtain s2 where s2: "prepare_word a (s1\<lparr>ss_distance := ss_distance s - 1\<rparr>) i ?v = Ok (search_word a i, s2)"
      "scan_pos a s2 rest" "ss_best s2 = ss_best s" "ss_distance s2 = ss_distance s - 1" "ss_next_chunk s2 = ss_next_chunk s" by blast
    have step: "search_step a s = examine_word a s2 i (search_word a i)" using s1 s2(1) d False by (simp add: search_step_def)
    have "(\<exists>b. examine_word a s2 i (search_word a i) = Ok (Return b) \<and> found_block a b)
      \<or> (\<exists>s'. examine_word a s2 i (search_word a i) = Ok (Continue s') \<and> search_inv a s' rest)"
      by (rule examine_word_spec [OF a s1(2) s2(2)]) (use c cache_moves [OF a pos] none some s2 d False in auto)
    then show ?thesis unfolding step by blast
  qed
qed

lemma search_loop_spec:
  assumes "args_ok a" "search_inv a s rest"
  shows "(\<exists>b. search_loop a s = Ok (Inr b) \<and> found_block a b)
    \<or> (\<exists>s'. search_loop a s = Ok (Inl s') \<and> (case ss_best s' of None \<Rightarrow> \<forall>i < sa_image_bitmap_words a. no_block a i | Some c \<Rightarrow> candidate_ok a c))"
  using assms(2)
proof (induction rest arbitrary: s)
  case Nil
  then have "search_loop a s = Ok (Inl s)" by (simp add: search_loop.simps [of a s] search_step_end)
  then show ?case using Nil by (auto simp: search_inv_def split: option.splits)
next
  case (Cons i rest)
  from search_step_spec [OF assms(1) Cons.prems] show ?case
  proof (elim disjE exE conjE)
    fix s' assume "search_step a s = Ok (Continue s')" "search_inv a s' rest"
    then show ?case using Cons.IH [of s'] by (simp add: search_loop.simps [of a s])
  qed (auto simp: search_loop.simps [of a s])
qed

section \<open>Free blocks and full-word chunks\<close>

definition chunk_blocks :: "physical_extents option \<Rightarrow> nat set" where
  "chunk_blocks chunks = (case chunks of None \<Rightarrow> {} | Some es \<Rightarrow> set (pe_seq es))"

definition chunks_ok :: "physical_extents option \<Rightarrow> nat set \<Rightarrow> bool" where
  "chunks_ok chunks T \<longleftrightarrow> chunk_blocks chunks \<inter> T = {}
     \<and> (case chunks of None \<Rightarrow> True | Some es \<Rightarrow> pe_wf es \<and> (\<forall>e \<in> set es. 64 dvd fst e \<and> 64 dvd snd e))"

lemma word_in_chunk_blocks:
  assumes "chunks_ok chunks T"
  shows "word_in_chunk chunks i \<Longrightarrow> {64 * i..<64 * i + 64} \<subseteq> chunk_blocks chunks"
    and "\<not> word_in_chunk chunks i \<Longrightarrow> {64 * i..<64 * i + 64} \<inter> chunk_blocks chunks = {}"
proof -
  have cb: "x \<in> chunk_blocks chunks \<longleftrightarrow> (\<exists>r \<in> chunk_ranges chunks. range_begin r \<le> x \<and> x < range_end r)" for x
    by (auto simp: chunk_blocks_def chunk_ranges_def pe_seq_def split: option.splits)
  have al: "64 dvd range_begin r" "64 dvd range_end r" if "r \<in> chunk_ranges chunks" for r
    using assms that by (auto simp: chunks_ok_def chunk_ranges_def split: option.splits)
  have iff: "range_begin r div 64 \<le> i \<and> i < range_end r div 64 \<longleftrightarrow> range_begin r \<le> x \<and> x < range_end r"
    if "r \<in> chunk_ranges chunks" "64 * i \<le> x" "x < 64 * i + 64" for r x
    using al [OF that(1)] that(2,3) by (auto elim!: dvdE)
  show "{64 * i..<64 * i + 64} \<subseteq> chunk_blocks chunks" if "word_in_chunk chunks i"
    using that iff by (auto simp: word_in_chunk_def cb) blast
  show "{64 * i..<64 * i + 64} \<inter> chunk_blocks chunks = {}" if "\<not> word_in_chunk chunks i"
    using that iff by (auto simp: word_in_chunk_def cb) blast
qed

lemma block_free_iff:
  assumes c: "chunks_ok chunks T" and w: "word_shows T i w" and k: "k \<le> 6" and j: "2 ^ k dvd j" "j < 64"
  shows "{64 * i + j..<64 * i + j + 2 ^ k} \<inter> (T \<union> chunk_blocks chunks) = {} \<longleftrightarrow> free_at w k j \<and> \<not> (w = 0 \<and> word_in_chunk chunks i)"
proof -
  let ?b = "{64 * i + j..<64 * i + j + 2 ^ k}"
  have sub: "?b \<subseteq> {64 * i..<64 * i + 64}" using aligned_block_in_word [OF k j] by auto
  have ne: "64 * i + j \<in> ?b" by simp
  show ?thesis
  proof (cases "word_in_chunk chunks i")
    case True
    then have in_chunk: "{64 * i..<64 * i + 64} \<subseteq> chunk_blocks chunks" using word_in_chunk_blocks(1) [OF c] by blast
    have "\<not> bit w l" if "l < 64" for l
    proof -
      have "64 * i + l \<in> chunk_blocks chunks" using in_chunk that by auto
      then have "64 * i + l \<notin> T" using c unfolding chunks_ok_def by blast
      then show ?thesis using w that by (simp add: word_shows_def)
    qed
    then have "w = 0" by (intro bit_word_eqI) simp
    then show ?thesis using True in_chunk sub ne by blast
  next
    case False
    then have "?b \<inter> chunk_blocks chunks = {}" using word_in_chunk_blocks(2) [OF c] sub by blast
    then show ?thesis using False free_at_shows [OF w k j] by blast
  qed
qed

section \<open>Searching a full word\<close>

lemma skip_allocated_blocks_spec:
  assumes "sorted bs" "\<forall>q<p. bs ! q div 64 < i" "p \<le> length bs"
  shows "\<exists>p'. skip_allocated_blocks bs i p = (\<exists>b \<in> set bs. b div 64 = i, p') \<and> p' \<le> length bs \<and> (\<forall>q<p'. bs ! q div 64 < Suc i)"
  using assms
proof (induction "length bs - p" arbitrary: p)
  case 0
  then have p: "p = length bs" by simp
  then have "\<not> (\<exists>b \<in> set bs. b div 64 = i)" using 0 by (fastforce simp: in_set_conv_nth)
  moreover have "skip_allocated_blocks bs i p = (False, p)" unfolding skip_allocated_blocks.simps [of bs i p] using p by simp
  moreover have "\<forall>q<p. bs ! q div 64 < Suc i" using 0 by auto
  ultimately show ?case using 0 by auto
next
  case (Suc n)
  then have p: "p < length bs" by simp
  consider (less) "bs ! p div 64 < i" | (eq) "bs ! p div 64 = i" | (gt) "i < bs ! p div 64" by linarith
  then show ?case
  proof cases
    case less
    then have "\<forall>q<Suc p. bs ! q div 64 < i" using Suc.prems(2) by (auto simp: less_Suc_eq)
    moreover have "n = length bs - Suc p" using Suc.hyps(2) by simp
    ultimately show ?thesis using Suc.hyps(1) [of "Suc p"] Suc.prems(1) p less by (simp add: skip_allocated_blocks.simps [of bs i p] drop_bit_6)
  next
    case eq
    then have "\<exists>b \<in> set bs. b div 64 = i" using p nth_mem by blast
    moreover have "\<forall>q<Suc p. bs ! q div 64 < Suc i" using Suc.prems(2) eq by (auto simp: less_Suc_eq)
    ultimately show ?thesis using p eq by (simp add: skip_allocated_blocks.simps [of bs i p] drop_bit_6)
  next
    case gt
    have "bs ! q div 64 \<noteq> i" if "q < length bs" for q
    proof (cases "q < p")
      case False
      then have "bs ! p div 64 \<le> bs ! q div 64" using that by (intro div_le_mono sorted_nth_mono [OF Suc.prems(1)]) auto
      then show ?thesis using gt by linarith
    qed (use Suc.prems(2) in auto)
    then have "\<not> (\<exists>b \<in> set bs. b div 64 = i)" unfolding bex_set_nth by blast
    moreover have "\<forall>q<p. bs ! q div 64 < Suc i" using Suc.prems(2) by auto
    ultimately show ?thesis using p gt by (simp add: skip_allocated_blocks.simps [of bs i p] drop_bit_6)
  qed
qed

definition free_fullword :: "alloc_bitmap \<Rightarrow> sparse_alloc_bitmap list \<Rightarrow> sparse_alloc_bitmap list \<Rightarrow> nat list \<Rightarrow> physical_extents option \<Rightarrow> nat \<Rightarrow> bool" where
  "free_fullword ab allocs frees bs chunks i \<longleftrightarrow>
     virtual_word ab allocs frees i = 0 \<and> (\<forall>b \<in> set bs. b div 64 \<noteq> i) \<and> \<not> word_in_chunk chunks i"

lemma fullword_block_loop_spec:
  assumes bs: "sorted bs" and wf: "\<And>es. chunks = Some es \<Longrightarrow> pe_wf es"
    and "word_state ab allocs frees it" "next_bitmap_word_index it = i" "i + n \<le> length (bitmap ab)"
      "\<forall>q<p. bs ! q div 64 < i" "p \<le> length bs" "chunk_cache chunks i c"
  shows "\<exists>r. fullword_block_loop bs chunks n it c p = Ok r
    \<and> (case r of None \<Rightarrow> \<forall>x. i \<le> x \<and> x < i + n \<longrightarrow> \<not> free_fullword ab allocs frees bs chunks x
       | Some b \<Rightarrow> \<exists>x. i \<le> x \<and> x < i + n \<and> free_fullword ab allocs frees bs chunks x \<and> b = 64 * x)"
  using assms(3-)
proof (induction n arbitrary: it i p c)
  case 0
  then show ?case by auto
next
  case (Suc n)
  let ?w = "virtual_word ab allocs frees i"
  from word_iter_next_state [OF Suc.prems(1)] Suc.prems(2,3) obtain it' where it': "word_iter_next it = Ok (Some (i, ?w), it')"
    "word_state ab allocs frees it'" "next_bitmap_word_index it' = Suc i" by auto
  have go: "\<exists>r. fullword_block_loop bs chunks n it' c' p' = Ok r
    \<and> (case r of None \<Rightarrow> \<forall>x. i \<le> x \<and> x < i + Suc n \<longrightarrow> \<not> free_fullword ab allocs frees bs chunks x
       | Some b \<Rightarrow> \<exists>x. i \<le> x \<and> x < i + Suc n \<and> free_fullword ab allocs frees bs chunks x \<and> b = 64 * x)"
    if not_free: "\<not> free_fullword ab allocs frees bs chunks i" and p': "p' \<le> length bs" "\<forall>q<p'. bs ! q div 64 < Suc i"
      and c': "chunk_cache chunks i c'" for c' p'
  proof -
    have "Suc i + n \<le> length (bitmap ab)" using Suc.prems(3) by simp
    from Suc.IH [OF it'(2,3) this p'(2,1) chunk_cache_mono [OF c']] obtain r where r: "fullword_block_loop bs chunks n it' c' p' = Ok r"
      "case r of None \<Rightarrow> \<forall>x. Suc i \<le> x \<and> x < Suc i + n \<longrightarrow> \<not> free_fullword ab allocs frees bs chunks x
       | Some b \<Rightarrow> \<exists>x. Suc i \<le> x \<and> x < Suc i + n \<and> free_fullword ab allocs frees bs chunks x \<and> b = 64 * x" by auto
    have "i \<le> x \<longleftrightarrow> x = i \<or> Suc i \<le> x" for x by linarith
    then show ?thesis using r not_free by (intro exI [of _ r]) (auto split: option.splits)
  qed
  show ?case
  proof (cases "?w = 0")
    case False
    then have "\<not> free_fullword ab allocs frees bs chunks i" by (simp add: free_fullword_def)
    from go [OF this Suc.prems(5) _ Suc.prems(6)] show ?thesis using it'(1) False Suc.prems(4) by (auto simp: less_SucI)
  next
    case zero: True
    from skip_allocated_blocks_spec [OF bs Suc.prems(4,5)] obtain p' where p': "skip_allocated_blocks bs i p = (\<exists>b \<in> set bs. b div 64 = i, p')"
      "p' \<le> length bs" "\<forall>q<p'. bs ! q div 64 < Suc i" by blast
    show ?thesis
    proof (cases "\<exists>b \<in> set bs. b div 64 = i")
      case True
      then have "\<not> free_fullword ab allocs frees bs chunks i" by (auto simp: free_fullword_def)
      from go [OF this p'(2,3) Suc.prems(6)] show ?thesis using it'(1) zero p'(1) True by simp
    next
      case False
      have ok: "extents_ok es" if "chunks = Some es" for es using wf [OF that] by (simp add: pe_wf_def)
      from refresh_fullword_chunk_spec [OF ok Suc.prems(6)] obtain c' where c': "refresh_fullword_chunk chunks c i = Ok c'"
        "chunk_cache chunks i c'" "c' = None \<longrightarrow> (\<forall>r \<in> chunk_ranges chunks. \<not> i < range_end r div 64)"
        "\<forall>r. c' = Some r \<longrightarrow> i < range_end r div 64" by blast
      note cw = in_fullword_chunk_eq [OF wf c'(2-4)]
      have step: "fullword_block_loop bs chunks (Suc n) it c p =
        (if word_in_chunk chunks i then fullword_block_loop bs chunks n it' c' p' else Ok (Some (i * 64)))"
        using it'(1) zero p'(1) False c'(1) cw by simp
      show ?thesis
      proof (cases "word_in_chunk chunks i")
        case True
        then have "\<not> free_fullword ab allocs frees bs chunks i" by (simp add: free_fullword_def)
        from go [OF this p'(2,3) c'(2)] show ?thesis unfolding step using True by simp
      next
        case no: False
        then have "free_fullword ab allocs frees bs chunks i" using zero False by (auto simp: free_fullword_def)
        then show ?thesis unfolding step using no by auto
      qed
    qed
  qed
qed


lemma free_fullword_iff:
  assumes wf: "\<forall>sb \<in> set (allocs @ frees). sb_wf sb" and al: "\<forall>b \<in> set bs. 64 dvd b" and i: "i < length (bitmap ab)" "64 * i + 64 \<le> N"
    and c: "chunks_ok chunks (taken_blocks ab allocs frees 6 bs N)"
  shows "free_fullword ab allocs frees bs chunks i \<longleftrightarrow> {64 * i..<64 * i + 64} \<inter> (taken_blocks ab allocs frees 6 bs N \<union> chunk_blocks chunks) = {}"
proof -
  have "virtual_word ab allocs frees i = 0 \<longleftrightarrow> (\<forall>j<64. \<not> bit (virtual_word ab allocs frees i) j)"
    by (auto intro!: bit_word_eqI)
  also have "\<dots> \<longleftrightarrow> {64 * i..<64 * i + 64} \<inter> virtual_blocks ab allocs frees = {}"
    using virtual_word_bit [OF wf i(1)] by (auto simp: disjoint_iff) (metis add_diff_inverse_nat nat_add_left_cancel_less not_less)
  finally have v: "virtual_word ab allocs frees i = 0 \<longleftrightarrow> {64 * i..<64 * i + 64} \<inter> virtual_blocks ab allocs frees = {}" .
  have "{64 * i..<64 * i + 64} \<inter> {b..<b + 64} = {} \<longleftrightarrow> b div 64 \<noteq> i" if "64 dvd b" for b
    using that by (auto elim!: dvdE simp: disjoint_iff)
  then have b: "(\<forall>b \<in> set bs. b div 64 \<noteq> i) \<longleftrightarrow> {64 * i..<64 * i + 64} \<inter> (\<Union>b \<in> set bs. {b..<b + 2 ^ 6}) = {}" using al by (simp add: Int_UN_distrib)
  have ch: "word_in_chunk chunks i \<longleftrightarrow> {64 * i..<64 * i + 64} \<inter> chunk_blocks chunks \<noteq> {}" using word_in_chunk_blocks [OF c, of i] atLeastLessThan_empty_iff2 [of "64 * i" "64 * i + 64"] by (metis Int_absorb2 inf_commute less_add_same_cancel1 zero_less_numeral)
  have N: "{64 * i..<64 * i + 64} \<inter> {N..} = {}" using i(2) by auto
  show ?thesis unfolding free_fullword_def v b ch taken_blocks_def Int_Un_distrib N by blast
qed

text \<open>
  What a search for a free block is asked for: well-formed pending changes, blocks allocated so far
  that are sorted and aligned, an image covered by the bitmap, a start within the image and
  full-word chunks that are free in the bitmap, given only without a start of the search.
\<close>

definition find_args_ok ::
  "alloc_bitmap \<Rightarrow> nat \<Rightarrow> nat list \<Rightarrow> physical_extents option \<Rightarrow> sparse_alloc_bitmap list \<Rightarrow> sparse_alloc_bitmap list \<Rightarrow> nat \<Rightarrow> nat option \<Rightarrow> bool" where
  "find_args_ok ab k bs chunks allocs frees N start \<longleftrightarrow> k \<le> 6 \<and> (\<forall>sb \<in> set (allocs @ frees). sb_wf sb)
     \<and> sorted bs \<and> (\<forall>b \<in> set bs. 2 ^ k dvd b) \<and> 0 < N \<and> N < 2 ^ 57 \<and> N \<le> 64 * length (bitmap ab)
     \<and> (\<forall>b. start = Some b \<longrightarrow> b < N) \<and> chunks_ok chunks (taken_blocks ab allocs frees k bs N) \<and> (chunks = None \<or> start = None)"

definition free_block_result :: "nat \<Rightarrow> nat set \<Rightarrow> nat option \<Rightarrow> bool" where
  "free_block_result k T r \<longleftrightarrow>
     (case r of
        Some b \<Rightarrow> 2 ^ k dvd b \<and> {b..<b + 2 ^ k} \<inter> T = {}
      | None \<Rightarrow> \<forall>b. 2 ^ k dvd b \<longrightarrow> {b..<b + 2 ^ k} \<inter> T \<noteq> {})"

lemma find_free_fullword_block_spec:
  assumes "find_args_ok ab 6 bs chunks allocs frees N start"
  shows "\<exists>r. find_free_fullword_block ab bs chunks allocs frees N = Ok r
    \<and> free_block_result 6 (taken_blocks ab allocs frees 6 bs N \<union> chunk_blocks chunks) r"
proof -
  have ok: "\<forall>sb \<in> set (allocs @ frees). sb_wf sb" "sorted bs" "\<forall>b \<in> set bs. 64 dvd b" "N \<le> 64 * length (bitmap ab)"
    "chunks_ok chunks (taken_blocks ab allocs frees 6 bs N)" using assms by (simp_all add: find_args_ok_def)
  have wf: "pe_wf es" if "chunks = Some es" for es using ok(5) that by (simp add: chunks_ok_def)
  from word_iter_new_at_spec [OF ok(1), of ab 0] obtain it where it: "word_iter_new_at ab allocs frees 0 = Ok it"
    "word_state ab allocs frees it" "next_bitmap_word_index it = 0" by blast
  have n: "0 + N div 64 \<le> length (bitmap ab)" using ok(4) by linarith
  have "\<exists>r. fullword_block_loop bs chunks (N div 64) it None 0 = Ok r
    \<and> (case r of None \<Rightarrow> \<forall>x. 0 \<le> x \<and> x < 0 + N div 64 \<longrightarrow> \<not> free_fullword ab allocs frees bs chunks x
       | Some b \<Rightarrow> \<exists>x. 0 \<le> x \<and> x < 0 + N div 64 \<and> free_fullword ab allocs frees bs chunks x \<and> b = 64 * x)"
    by (rule fullword_block_loop_spec [OF ok(2) wf it(2,3) n]) simp_all
  then obtain r where r: "fullword_block_loop bs chunks (N div 64) it None 0 = Ok r"
    "\<And>x. r = None \<Longrightarrow> x < N div 64 \<Longrightarrow> \<not> free_fullword ab allocs frees bs chunks x"
    "\<And>b. r = Some b \<Longrightarrow> \<exists>x<N div 64. free_fullword ab allocs frees bs chunks x \<and> b = 64 * x" by (auto split: option.splits)
  have free: "free_fullword ab allocs frees bs chunks x \<longleftrightarrow> {64 * x..<64 * x + 64} \<inter> (taken_blocks ab allocs frees 6 bs N \<union> chunk_blocks chunks) = {}"
    if "x < N div 64" for x using that n by (intro free_fullword_iff [OF ok(1,3) _ _ ok(5)]) linarith+
  have "{64 * x..<64 * x + 64} \<inter> (taken_blocks ab allocs frees 6 bs N \<union> chunk_blocks chunks) \<noteq> {}" if "\<not> x < N div 64" for x
  proof -
    have "64 * x + 63 \<in> {64 * x..<64 * x + 64} \<inter> {N..}" using that by auto
    then show ?thesis unfolding taken_blocks_def by blast
  qed
  then have "free_block_result 6 (taken_blocks ab allocs frees 6 bs N \<union> chunk_blocks chunks) r"
    using r(2,3) free by (cases r) (auto simp: free_block_result_def elim!: dvdE)
  then show ?thesis using it(1) r(1) by (simp add: find_free_fullword_block_def drop_bit_6)
qed

lemma found_block_free:
  assumes a: "args_ok a" and c: "chunks_ok (sa_fullword_chunks a) (args_taken a)" and b: "found_block a b"
  shows "2 ^ sa_block_log2 a dvd b \<and> {b..<b + 2 ^ sa_block_log2 a} \<inter> (args_taken a \<union> chunk_blocks (sa_fullword_chunks a)) = {}"
proof -
  obtain i j where ij: "i < sa_image_bitmap_words a" "free_at (search_word a i) (sa_block_log2 a) j"
    "\<not> (search_word a i = 0 \<and> word_in_chunk (sa_fullword_chunks a) i)" "b = 64 * i + j" using b by (auto simp: found_block_def)
  have k: "sa_block_log2 a \<le> 6" using a by (simp add: args_ok_def)
  have j: "2 ^ sa_block_log2 a dvd j" "j < 64" using ij(2) by (simp_all add: free_at_def)
  have "(2 :: nat) ^ sa_block_log2 a dvd 64" using le_imp_power_dvd [OF k, of "2 :: nat"] by simp
  then have "2 ^ sa_block_log2 a dvd b" using j(1) ij(4) by simp
  then show ?thesis using block_free_iff [OF c search_word_shows [OF a ij(1)] k j] ij by simp
qed

lemma no_block_taken:
  assumes a: "args_ok a" and c: "chunks_ok (sa_fullword_chunks a) (args_taken a)"
    and none: "\<forall>i < sa_image_bitmap_words a. no_block a i" and b: "2 ^ sa_block_log2 a dvd b"
  shows "{b..<b + 2 ^ sa_block_log2 a} \<inter> (args_taken a \<union> chunk_blocks (sa_fullword_chunks a)) \<noteq> {}"
proof (cases "b < sa_image_size a")
  case False
  then have "b \<in> {b..<b + 2 ^ sa_block_log2 a} \<inter> args_taken a" by (simp add: taken_blocks_def)
  then show ?thesis by blast
next
  case True
  have k: "sa_block_log2 a \<le> 6" using a by (simp add: args_ok_def)
  have i: "b div 64 < sa_image_bitmap_words a" using True a by (simp add: args_ok_def)
  have "(2 :: nat) ^ sa_block_log2 a dvd 64" using le_imp_power_dvd [OF k, of "2 :: nat"] by simp
  then have j: "2 ^ sa_block_log2 a dvd b mod 64" using b by (simp add: dvd_mod)
  have "\<not> (free_at (search_word a (b div 64)) (sa_block_log2 a) (b mod 64)
      \<and> \<not> (search_word a (b div 64) = 0 \<and> word_in_chunk (sa_fullword_chunks a) (b div 64)))"
    using none i by (auto simp: no_block_def)
  then show ?thesis using block_free_iff [OF c search_word_shows [OF a i] k j] by simp
qed

lemma find_free_block_spec:
  assumes "find_args_ok ab k bs chunks allocs frees N start"
  shows "\<exists>r. find_free_block ab k bs chunks allocs frees N start opt = Ok r
    \<and> free_block_result k (taken_blocks ab allocs frees k bs N \<union> chunk_blocks chunks) r"
proof (cases "k = 6")
  case True
  then show ?thesis using find_free_fullword_block_spec [OF assms [unfolded True]]
    by (simp add: find_free_block_def)
next
  case False
  have ok: "k < 6" "\<forall>sb \<in> set (allocs @ frees). sb_wf sb" "sorted bs" "\<forall>b \<in> set bs. 2 ^ k dvd b" "0 < N" "N < 2 ^ 57"
    "N \<le> 64 * length (bitmap ab)" "\<forall>b. start = Some b \<longrightarrow> b < N" "chunks = None \<or> start = None"
    "chunks_ok chunks (taken_blocks ab allocs frees k bs N)" using assms False by (simp_all add: find_args_ok_def)
  define n b0 where n: "n = (N + 63) div 64" and b0: "b0 = search_begin_word start opt"
  have lt: "(2 :: nat) ^ k < 64" using power_strict_increasing [OF ok(1), of "2 :: nat"] by simp
  have bn: "b0 < n"
  proof (cases start)
    case None
    then show ?thesis using ok(5) by (simp add: b0 n search_begin_word_def)
  next
    case (Some x)
    then have "b0 \<le> x div 64" by (simp add: b0 search_begin_word_def drop_bit_6)
    moreover have "x div 64 < n" using ok(8) Some unfolding n by auto
    ultimately show ?thesis by linarith
  qed
  obtain m where m: "get_blocks_lsbs_mask k = Ok m" "is_lsbs k m" using blocks_lsbs_mask [of k] ok(1) by auto
  from word_iter_new_at_spec [OF ok(2), of ab b0] obtain it where it: "word_iter_new_at ab allocs frees b0 = Ok it"
    "word_state ab allocs frees it" "next_bitmap_word_index it = b0" by blast
  define a where "a = \<lparr>sa_bitmap = ab, sa_block_log2 = k, sa_blocks_lsbs_mask = m, sa_allocated_blocks = bs,
             sa_fullword_chunks = chunks, sa_pending_allocs = allocs, sa_pending_frees = frees,
             sa_image_size = N, sa_image_bitmap_words = n, sa_search_begin = b0, sa_optimize = opt\<rparr>"
  define s where "s = \<lparr>ss_iter = it, ss_iter_left = n - b0,
             ss_allocated_blocks_index = partition_point (\<lambda>b. drop_bit 6 b < b0) bs,
             ss_next_chunk = None, ss_best = None, ss_distance = n + 1\<rparr>"
  have wf: "\<forall>es. chunks = Some es \<longrightarrow> pe_wf es \<and> b0 = 0" using ok(9,10) by (auto simp: chunks_ok_def b0 search_begin_word_def)
  have a: "args_ok a" unfolding args_ok_def using ok m(2) wf bn by (simp add: a_def n)
  have inv: "search_inv a s ([b0..<n] @ [0..<b0])"
    using it bn by (auto simp: search_inv_def scan_pos_def s_def a_def drop_bit_6)
  have c: "chunks_ok (sa_fullword_chunks a) (args_taken a)" using ok(10) by (simp add: a_def)
  have "add_u64 N 63 = Ok (N + 63)" using ok(6) by simp
  then have run: "find_free_block ab k bs chunks allocs frees N start opt = and_then (search_loop a s) (\<lambda>flow. case flow of
            Inr b \<Rightarrow> Ok (Some b)
          | Inl s \<Rightarrow> (case ss_best s of None \<Rightarrow> Ok None | Some c \<Rightarrow> and_then (select_candidate c) (\<lambda>b. Ok (Some b))))"
    using lt bn m(1) it(1) ok(3) unfolding find_free_block_def a_def s_def Let_def
    by (simp add: drop_bit_6 flip: n b0)
  from search_loop_spec [OF a inv] show ?thesis
  proof (elim disjE exE conjE)
    fix b assume "search_loop a s = Ok (Inr b)" "found_block a b"
    then show ?thesis using found_block_free [OF a c, of b] unfolding run by (simp add: free_block_result_def a_def)
  next
    fix s' assume s': "search_loop a s = Ok (Inl s')"
      "case ss_best s' of None \<Rightarrow> \<forall>i < sa_image_bitmap_words a. no_block a i | Some c \<Rightarrow> candidate_ok a c"
    show ?thesis
    proof (cases "ss_best s'")
      case None
      then show ?thesis using s' no_block_taken [OF a c] unfolding run by (simp add: free_block_result_def a_def)
    next
      case (Some cand)
      then obtain b where "select_candidate cand = Ok b" "found_block a b" using select_candidate_spec [OF a] s'(2) by auto
      then show ?thesis using s'(1) Some found_block_free [OF a c, of b] unfolding run by (simp add: free_block_result_def a_def)
    qed
  qed
qed

section \<open>Correctness\<close>

text \<open>
  C3: the search for a free block never panics and returns a block of the requested size and
  alignment that lies inside the filesystem image, is free in the bitmap with the pending
  allocations and deallocations applied and overlaps neither with the blocks nor with the chunks
  allocated before; it returns none only if there is no such block.
\<close>

theorem find_free_block_correct:
  assumes "find_args_ok ab k bs chunks allocs frees N start"
  shows "\<exists>r. find_free_block ab k bs chunks allocs frees N start opt = Ok r
    \<and> (let used = virtual_blocks ab allocs frees \<union> (\<Union>b \<in> set bs. {b..<b + 2 ^ k}) \<union> chunk_blocks chunks in
       case r of
         Some b \<Rightarrow> 2 ^ k dvd b \<and> b + 2 ^ k \<le> N \<and> {b..<b + 2 ^ k} \<inter> used = {}
       | None \<Rightarrow> \<forall>b. 2 ^ k dvd b \<and> b + 2 ^ k \<le> N \<longrightarrow> {b..<b + 2 ^ k} \<inter> used \<noteq> {})"
proof -
  from find_free_block_spec [OF assms, of opt] obtain r where r: "find_free_block ab k bs chunks allocs frees N start opt = Ok r"
    "free_block_result k (taken_blocks ab allocs frees k bs N \<union> chunk_blocks chunks) r" by blast
  have N: "{b..<b + 2 ^ k} \<inter> {N..} = {} \<longleftrightarrow> b + 2 ^ k \<le> N" for b
  proof
    assume e: "{b..<b + 2 ^ k} \<inter> {N..} = {}"
    show "b + 2 ^ k \<le> N"
    proof (rule ccontr)
      assume "\<not> b + 2 ^ k \<le> N"
      then have "max b N \<in> {b..<b + 2 ^ k} \<inter> {N..}" by (simp add: max_def)
      then show False using e by blast
    qed
  qed auto
  have "{b..<b + 2 ^ k} \<inter> (taken_blocks ab allocs frees k bs N \<union> chunk_blocks chunks) = {} \<longleftrightarrow>
    b + 2 ^ k \<le> N \<and> {b..<b + 2 ^ k} \<inter> (virtual_blocks ab allocs frees \<union> (\<Union>b \<in> set bs. {b..<b + 2 ^ k}) \<union> chunk_blocks chunks) = {}" for b
    unfolding taken_blocks_def N [symmetric] Int_Un_distrib by blast
  then show ?thesis using r by (intro exI [of _ r]) (auto simp: free_block_result_def Let_def split: option.splits)
qed

theorem find_free_block_correct_witness:
  "\<exists>r. find_free_block \<lparr>bitmap = [0xFF, 0]\<rparr> 3 [8, 24] None [] [] 100 (Some 24) True = Ok r
    \<and> (let used = virtual_blocks \<lparr>bitmap = [0xFF, 0]\<rparr> [] [] \<union> (\<Union>b \<in> set [8, 24]. {b..<b + 2 ^ 3}) \<union> chunk_blocks None in
       case r of
         Some b \<Rightarrow> 2 ^ 3 dvd b \<and> b + 2 ^ 3 \<le> 100 \<and> {b..<b + 2 ^ 3} \<inter> used = {}
       | None \<Rightarrow> \<forall>b. 2 ^ 3 dvd b \<and> b + 2 ^ 3 \<le> 100 \<longrightarrow> {b..<b + 2 ^ 3} \<inter> used \<noteq> {})"
  by (rule find_free_block_correct) (simp add: find_args_ok_def chunks_ok_def chunk_blocks_def)

text \<open>
  The chunk remembered from before the wrap-around is not looked up again: with a start of the
  search and full-word chunks, block 0 is returned although it belongs to a chunk.
\<close>

lemma not_mask_64: "NOT (mask 64 :: bitmap_word) = 0"
  by (rule bit_word_eqI) (simp add: bit_simps)

lemmas search_eval = search_step_def limited_next_def prepare_word_def wrap_around_def examine_word_def examine_free_word_def
  refresh_fullword_chunk_def in_fullword_chunk_def word_iter_new_at_def word_iter_next_def take_pending_def
  mark_allocated_blocks.simps union_iter_new_def union_iter_new_at_def union_iter_next_def mark_excess_blocks_def
  trailing_bits_mask_eq_mask not_mask_64 unpack_entry_def block_range_from_def drop_bit_6

lemma find_free_block_stale_chunk:
  "find_free_block \<lparr>bitmap = [0, 0, 0]\<rparr> 0 [] (Some [(0, 64), (128, 64)]) [] [] 192 (Some 128) False = Ok (Some 0)"
  by (simp add: find_free_block_def search_begin_word_def get_blocks_lsbs_mask_def partition_point_def search_eval,
      subst search_loop.simps, simp add: search_eval, subst search_loop.simps, simp add: search_eval)

end
