(* ===== verification/Byte_Codec.thy ===== *)
theory Byte_Codec
  imports Rust_Prelude
begin

text \<open>
  The contract of a variable length encoding into bytes: every valid value has an encoding that the
  decoder reads back, leaving the bytes that follow it. A client that writes a sequence of such
  values and reads it back is verified once against the contract.
\<close>

fun encode_all :: "('a \<Rightarrow> u8 list) \<Rightarrow> 'a list \<Rightarrow> u8 list" where
  "encode_all enc [] = []"
| "encode_all enc (x # xs) = enc x @ encode_all enc xs"

fun decode_n :: "(u8 list \<Rightarrow> 'e + ('a \<times> u8 list)) \<Rightarrow> nat \<Rightarrow> u8 list \<Rightarrow> 'e + ('a list \<times> u8 list)" where
  "decode_n dec 0 src = Inr ([], src)"
| "decode_n dec (Suc n) src =
     (case dec src of Inl e \<Rightarrow> Inl e
      | Inr (x, src) \<Rightarrow> (case decode_n dec n src of Inl e \<Rightarrow> Inl e | Inr (xs, src) \<Rightarrow> Inr (x # xs, src)))"

locale byte_codec =
  fixes enc :: "'a \<Rightarrow> u8 list" and dec :: "u8 list \<Rightarrow> 'e + ('a \<times> u8 list)" and valid :: "'a \<Rightarrow> bool"
  assumes dec_enc: "valid x \<Longrightarrow> dec (enc x @ rest) = Inr (x, rest)"
begin

lemma prefix_free:
  assumes "valid x" "valid y" "enc x @ r = enc y @ s"
  shows "x = y \<and> r = s"
  using dec_enc [OF assms(1), of r] dec_enc [OF assms(2), of s] unfolding assms(3) by simp

lemma decode_encode_all:
  assumes "\<forall>x \<in> set xs. valid x"
  shows "decode_n dec (length xs) (encode_all enc xs @ rest) = Inr (xs, rest)"
  using assms by (induction xs) (auto simp: dec_enc)

end

end
