(* ===== verification/Extent_Ptr.thy ===== *)
theory Extent_Ptr
  imports Physical_Extents Byte_Codec
begin

text \<open>
  The encoded extent and block pointers of \<open>src/storage/src/fs/cocoonfs/extent_ptr.rs\<close>: 64 bit
  values in little endian byte order. An extent pointer holds a begin, a length of one up to 64
  blocks and the flag for indirect references; the value with all bits set means NIL.
\<close>

section \<open>Little endian bytes\<close>

definition to_le_bytes :: "u64 \<Rightarrow> u8 list" where
  "to_le_bytes w = map (\<lambda>i. ucast (drop_bit (8 * i) w)) [0..<8]"

fun from_le_bytes :: "u8 list \<Rightarrow> u64" where
  "from_le_bytes [] = 0"
| "from_le_bytes (b # bs) = ucast b OR push_bit 8 (from_le_bytes bs)"

lemma bit_from_le_bytes:
  "bit (from_le_bytes bs) i \<longleftrightarrow> i < 64 \<and> i div 8 < length bs \<and> bit (bs ! (i div 8)) (i mod 8)"
proof (induction bs arbitrary: i)
  case (Cons b bs)
  show ?case
  proof (cases "i < 8")
    case True
    then show ?thesis by (auto simp: bit_simps)
  next
    case False
    have "\<not> bit b i" using False bit_imp_le_length [of b i] by auto
    moreover have "i div 8 = Suc ((i - 8) div 8)" "i mod 8 = (i - 8) mod 8"
      using False by (simp_all add: div_if [of 8 i] mod_if [of i 8])
    ultimately show ?thesis using False Cons.IH [of "i - 8"] by (auto simp: bit_simps)
  qed
qed simp

lemma length_to_le_bytes [simp]: "length (to_le_bytes w) = 8"
  by (simp add: to_le_bytes_def)

lemma from_to_le_bytes [simp]: "from_le_bytes (to_le_bytes w) = w"
proof (rule bit_word_eqI)
  fix i assume "i < LENGTH(64)"
  then have "i < 64" "i div 8 < 8" "8 * (i div 8) + i mod 8 = i" "i mod 8 < 8" by (auto simp: div_less_iff_less_mult)
  then show "bit (from_le_bytes (to_le_bytes w)) i = bit w i"
    by (auto simp: bit_from_le_bytes to_le_bytes_def bit_simps)
qed

lemma to_from_le_bytes:
  assumes "length bs = 8"
  shows "to_le_bytes (from_le_bytes bs) = bs"
proof (rule nth_equalityI)
  show "length (to_le_bytes (from_le_bytes bs)) = length bs" using assms by simp
  fix i assume "i < length (to_le_bytes (from_le_bytes bs))"
  then have i: "i < 8" by simp
  show "to_le_bytes (from_le_bytes bs) ! i = bs ! i"
  proof (rule bit_word_eqI)
    fix n assume "n < LENGTH(8)"
    then have "n < 8" by simp
    with i assms show "bit (to_le_bytes (from_le_bytes bs) ! i) n = bit (bs ! i) n"
      by (simp add: to_le_bytes_def bit_simps bit_from_le_bytes)
  qed
qed

section \<open>Extent pointers\<close>

definition EXTENT_ALLOCATION_BLOCKS_ENCODING_BITS :: nat where
  "EXTENT_ALLOCATION_BLOCKS_ENCODING_BITS = 6"

definition MAX_EXTENT_ALLOCATION_BLOCKS :: nat where
  "MAX_EXTENT_ALLOCATION_BLOCKS = 2 ^ EXTENT_ALLOCATION_BLOCKS_ENCODING_BITS"

definition extent_ptr_encode_nil :: "u8 list" where
  "extent_ptr_encode_nil = to_le_bytes (NOT 0)"

definition extent_ptr_encode :: "block_range option \<Rightarrow> bool \<Rightarrow> u8 list outcome" where
  "extent_ptr_encode extent indirect =
     (case extent of None \<Rightarrow> Ok extent_ptr_encode_nil
      | Some extent \<Rightarrow>
        and_then (block_count extent) (\<lambda>extent_allocation_blocks.
        if extent_allocation_blocks = 0 \<or> extent_allocation_blocks > MAX_EXTENT_ALLOCATION_BLOCKS
        then nvfs_err_internal
        else
          let encoded_extent_allocation_blocks = of_nat (extent_allocation_blocks - 1) :: u64;
              extent_allocation_block_begin = of_nat (range_begin extent) :: u64;
              encoded_begin = push_bit (EXTENT_ALLOCATION_BLOCKS_ENCODING_BITS + 1) extent_allocation_block_begin
          in if drop_bit (EXTENT_ALLOCATION_BLOCKS_ENCODING_BITS + 1) encoded_begin \<noteq> extent_allocation_block_begin
             then nvfs_err_internal
             else Ok (to_le_bytes (encoded_begin OR push_bit 1 encoded_extent_allocation_blocks OR of_bool indirect))))"

definition extent_ptr_decode :: "u8 list \<Rightarrow> nat \<Rightarrow> (block_range \<times> bool) option outcome" where
  "extent_ptr_decode bytes allocation_block_size_128b_log2 =
     (let encoded_extent_ptr = from_le_bytes bytes in
      if encoded_extent_ptr = NOT 0 then Ok None
      else
        let indirect = encoded_extent_ptr AND 1 \<noteq> 0;
            encoded_extent_ptr = drop_bit 1 encoded_extent_ptr;
            encoded_extent_allocation_blocks =
              encoded_extent_ptr AND (push_bit EXTENT_ALLOCATION_BLOCKS_ENCODING_BITS 1 - 1);
            extent_allocation_blocks_begin = drop_bit EXTENT_ALLOCATION_BLOCKS_ENCODING_BITS encoded_extent_ptr
        in and_then (add_u64 (unat encoded_extent_allocation_blocks) 1) (\<lambda>extent_allocation_blocks.
           and_then (add_u64 (unat extent_allocation_blocks_begin) extent_allocation_blocks) (\<lambda>extent_allocation_blocks_end.
           and_then (sub_u64 64 (allocation_block_size_128b_log2 + 7)) (\<lambda>shift.
           if drop_bit shift extent_allocation_blocks_end \<noteq> 0 then Err (FsFormatError InvalidExtents)
           else and_then (block_range_from (unat extent_allocation_blocks_begin) extent_allocation_blocks) (\<lambda>r.
                Ok (Some (r, indirect)))))))"

section \<open>Block pointers\<close>

definition RESERVED_ENCODING_BITS :: nat where
  "RESERVED_ENCODING_BITS = 7"

definition block_ptr_encode_nil :: "u8 list" where
  "block_ptr_encode_nil = to_le_bytes (NOT 0)"

definition block_ptr_encode :: "nat option \<Rightarrow> u8 list outcome" where
  "block_ptr_encode block_allocation_blocks_begin =
     (case block_allocation_blocks_begin of None \<Rightarrow> Ok block_ptr_encode_nil
      | Some b \<Rightarrow>
        let b = of_nat b :: u64; encoded = push_bit RESERVED_ENCODING_BITS b
        in if drop_bit RESERVED_ENCODING_BITS encoded \<noteq> b then nvfs_err_internal
           else Ok (to_le_bytes encoded))"

definition block_ptr_decode :: "u8 list \<Rightarrow> nat \<Rightarrow> nat option outcome" where
  "block_ptr_decode bytes allocation_block_size_128b_log2 =
     (let encoded = from_le_bytes bytes in
      if encoded = NOT 0 then Ok None
      else let b = drop_bit RESERVED_ENCODING_BITS encoded in
        if push_bit RESERVED_ENCODING_BITS b \<noteq> encoded then Err (FsFormatError InvalidExtents)
        else and_then (sub_u64 64 (allocation_block_size_128b_log2 + 7)) (\<lambda>shift.
             if drop_bit shift b \<noteq> 0 then Err (FsFormatError InvalidExtents)
             else Ok (Some (unat b))))"

section \<open>The fields of an encoded pointer\<close>

lemma drop_push_id:
  fixes x :: u64
  assumes "unat x < 2 ^ (64 - n)" "n \<le> 64"
  shows "drop_bit n (push_bit n x) = x"
proof (rule bit_word_eqI)
  fix i assume "i < LENGTH(64)"
  moreover have "\<not> bit x i" if "64 - n \<le> i" using assms(1) that unfolding unat_lt_iff_bits by blast
  ultimately show "bit (drop_bit n (push_bit n x)) i = bit x i"
    by (cases "64 - n \<le> i") (auto simp: bit_simps)
qed

lemma ptr_fields:
  fixes b c :: u64 and ind :: bool
  assumes "unat b < 2 ^ 57" "unat c < 2 ^ 6"
  defines "w \<equiv> push_bit 7 b OR push_bit 1 c OR of_bool ind"
  shows "drop_bit 6 (drop_bit 1 w) = b" "drop_bit 1 w AND (push_bit 6 1 - 1) = c" "w AND 1 \<noteq> 0 \<longleftrightarrow> ind"
proof -
  have b: "\<not> bit b i" if "57 \<le> i" for i using assms(1) that unfolding unat_lt_iff_bits by blast
  have c: "\<not> bit c i" if "6 \<le> i" for i using assms(2) that unfolding unat_lt_iff_bits by blast
  have m: "(push_bit 6 1 - 1 :: u64) = mask 6" by (simp add: mask_eq_exp_minus_1)
  have bb: "bit b i \<Longrightarrow> i < 57" and bc: "bit c i \<Longrightarrow> i < 6" for i using b [of i] c [of i] by (meson not_le)+
  define p where "p = push_bit 1 c"
  have p: "bit p i \<longleftrightarrow> 1 \<le> i \<and> i < 64 \<and> bit c (i - 1)" for i
    unfolding p_def bit_push_bit_iff by simp
  have w: "w = push_bit 7 b OR p OR of_bool ind" by (simp only: w_def p_def)
  show "drop_bit 6 (drop_bit 1 w) = b"
    by (rule bit_word_eqI) (auto simp: w p bit_simps dest: bb bc)
  show "drop_bit 1 w AND (push_bit 6 1 - 1) = c"
    unfolding m by (rule bit_word_eqI) (auto simp: w p bit_simps dest: bb bc)
  have "w AND 1 = of_bool (bit w 0)" by (simp add: and_one_eq bit_0 mod2_eq_if)
  moreover have "bit w 0 \<longleftrightarrow> ind" by (simp add: w p bit_simps)
  ultimately show "w AND 1 \<noteq> 0 \<longleftrightarrow> ind" by simp
qed

lemma nil_fields:
  "drop_bit 6 (drop_bit 1 (NOT 0 :: u64)) = mask 57" "drop_bit 1 (NOT 0 :: u64) AND (push_bit 6 1 - 1) = mask 6"
  by code_simp+

lemma extent_ptr_roundtrip_aux:
  assumes e: "range_begin e < range_end e" "range_end e - range_begin e \<le> 64"
    and fits: "range_end e < 2 ^ (57 - abl)" and abl: "abl \<le> 57"
  shows "\<exists>bytes. extent_ptr_encode (Some e) indirect = Ok bytes \<and> length bytes = 8
    \<and> extent_ptr_decode bytes abl = Ok (Some (e, indirect))"
proof -
  define b :: u64 where "b = of_nat (range_begin e)"
  define c :: u64 where "c = of_nat (range_end e - range_begin e - 1)"
  have pow: "(2::nat) ^ (57 - abl) \<le> 2 ^ 57" by (rule power_increasing) simp_all
  have lt: "range_begin e < 2 ^ 57" "range_end e < 2 ^ 57" "range_end e - range_begin e - 1 < 2 ^ 6"
    using e fits pow by auto
  have ub: "unat b = range_begin e" and uc: "unat c = range_end e - range_begin e - 1"
    using lt by (simp_all add: b_def c_def unat_of_nat)
  have bc: "unat b < 2 ^ 57" "unat c < 2 ^ 6" using lt ub uc by simp_all
  define w where "w = push_bit 7 b OR push_bit 1 c OR of_bool indirect"
  note fields = ptr_fields [OF bc, of indirect, folded w_def]
  have nn: "w \<noteq> NOT 0"
  proof
    assume "w = NOT 0"
    then have "b = mask 57" "c = mask 6" using fields(1,2) nil_fields by simp_all
    then have "unat b = 2 ^ 57 - 1" "unat c = 2 ^ 6 - 1" by (simp_all add: unat_mask)
    then show False using ub uc lt(2) e by simp
  qed
  have "drop_bit 7 (push_bit 7 b) = b" using bc(1) by (intro drop_push_id) simp_all
  then have enc: "extent_ptr_encode (Some e) indirect = Ok (to_le_bytes w)"
    using e by (simp add: extent_ptr_encode_def Let_def MAX_EXTENT_ALLOCATION_BLOCKS_def
        EXTENT_ALLOCATION_BLOCKS_ENCODING_BITS_def w_def b_def c_def)
  have sum: "unat c + 1 = range_end e - range_begin e" "unat b + (range_end e - range_begin e) = range_end e"
    using ub uc e by simp_all
  have sh: "drop_bit (57 - abl) (range_end e) = 0" using fits by (simp add: drop_bit_eq_div)
  have "add_u64 (unat c) 1 = Ok (range_end e - range_begin e)"
    "add_u64 (unat b) (range_end e - range_begin e) = Ok (range_end e)"
    "sub_u64 64 (abl + 7) = Ok (57 - abl)"
    "block_range_from (unat b) (range_end e - range_begin e) = Ok e"
    using sum lt(2) abl ub e by (simp_all add: add_u64_def sub_u64_def block_range_from_def mk_range_def)
  then have "extent_ptr_decode (to_le_bytes w) abl = Ok (Some (e, indirect))"
    using nn fields sh
    by (simp only: extent_ptr_decode_def Let_def from_to_le_bytes EXTENT_ALLOCATION_BLOCKS_ENCODING_BITS_def
        if_False and_then_simps simp_thms)
  with enc show ?thesis by simp
qed

lemma unat_drop_bit_le: "unat (drop_bit n (x :: u64)) < 2 ^ (64 - n)"
  unfolding unat_lt_iff_bits by (auto simp: bit_simps dest: bit_imp_le_length)

lemma word_from_fields:
  fixes w :: u64
  shows "push_bit 7 (drop_bit 6 (drop_bit 1 w)) OR push_bit 1 (drop_bit 1 w AND (push_bit 6 1 - 1)) OR of_bool (w AND 1 \<noteq> 0) = w"
proof -
  have m: "(push_bit 6 1 - 1 :: u64) = mask 6" by (simp add: mask_eq_exp_minus_1)
  define p where "p = push_bit 1 (drop_bit 1 w AND mask 6)"
  have p: "bit p i \<longleftrightarrow> 1 \<le> i \<and> i < 7 \<and> bit w i" for i
    unfolding p_def bit_push_bit_iff by (auto simp: bit_simps)
  have o: "w AND 1 \<noteq> 0 \<longleftrightarrow> bit w 0" by (simp add: and_one_eq bit_0 mod2_eq_if)
  show ?thesis
    unfolding m p_def [symmetric] o
  proof (rule bit_word_eqI)
    fix i assume i: "i < LENGTH(64)"
    show "bit (push_bit 7 (drop_bit 6 (drop_bit 1 w)) OR p OR of_bool (bit w 0)) i = bit w i"
      using i p [of i] by (cases "i = 0") (auto simp: bit_simps not_le)
  qed
qed

lemma extent_ptr_decode_sound:
  assumes len: "length bytes = 8" and abl: "abl \<le> 57"
  shows "case extent_ptr_decode bytes abl of
      Ok None \<Rightarrow> bytes = extent_ptr_encode_nil
    | Ok (Some (r, indirect)) \<Rightarrow> range_begin r < range_end r \<and> range_end r - range_begin r \<le> 64
        \<and> range_end r < 2 ^ (57 - abl) \<and> extent_ptr_encode (Some r) indirect = Ok bytes
    | Err e \<Rightarrow> e = FsFormatError InvalidExtents
    | Panic \<Rightarrow> False"
proof -
  define w where "w = from_le_bytes bytes"
  have bytes: "bytes = to_le_bytes w" using to_from_le_bytes [OF len] by (simp add: w_def)
  show ?thesis
  proof (cases "w = NOT 0")
    case True
    then show ?thesis by (simp add: extent_ptr_decode_def Let_def bytes extent_ptr_encode_nil_def)
  next
    case False
    define b where "b = drop_bit 6 (drop_bit 1 w)"
    define c where "c = drop_bit 1 w AND (push_bit 6 1 - 1)"
    have w: "push_bit 7 b OR push_bit 1 c OR of_bool (w AND 1 \<noteq> 0) = w"
      unfolding b_def c_def by (rule word_from_fields)
    have m: "(push_bit 6 1 - 1 :: u64) = mask 6" by (simp add: mask_eq_exp_minus_1)
    have ub: "unat b < 2 ^ 57"
      unfolding b_def unat_lt_iff_bits by (auto simp: bit_simps dest: bit_imp_le_length)
    have uc: "unat c < 2 ^ 6" unfolding c_def m unat_lt_iff_bits by (simp add: bit_simps)
    have adds: "add_u64 (unat c) 1 = Ok (unat c + 1)" "add_u64 (unat b) (unat c + 1) = Ok (unat b + (unat c + 1))"
      "sub_u64 64 (abl + 7) = Ok (57 - abl)"
      "block_range_from (unat b) (unat c + 1) = Ok (mk_range (unat b) (unat b + (unat c + 1)))"
      using ub uc abl by (simp_all add: add_u64_def sub_u64_def block_range_from_def)
    have run: "extent_ptr_decode bytes abl = (if drop_bit (57 - abl) (unat b + (unat c + 1)) \<noteq> 0
        then Err (FsFormatError InvalidExtents)
        else Ok (Some (mk_range (unat b) (unat b + (unat c + 1)), w AND 1 \<noteq> 0)))"
      using False
      by (simp only: bytes extent_ptr_decode_def Let_def from_to_le_bytes EXTENT_ALLOCATION_BLOCKS_ENCODING_BITS_def
          b_def [symmetric] c_def [symmetric] adds if_False and_then_simps simp_thms)
    have "drop_bit 7 (push_bit 7 b) = b" using ub by (intro drop_push_id) simp_all
    then have "extent_ptr_encode (Some (mk_range (unat b) (unat b + (unat c + 1)))) (w AND 1 \<noteq> 0) = Ok bytes"
      using uc w by (simp add: extent_ptr_encode_def Let_def MAX_EXTENT_ALLOCATION_BLOCKS_def
          EXTENT_ALLOCATION_BLOCKS_ENCODING_BITS_def bytes)
    moreover have "unat b + (unat c + 1) < 2 ^ (57 - abl)" if "drop_bit (57 - abl) (unat b + (unat c + 1)) = 0"
      using that by (simp add: drop_bit_eq_div div_eq_0_iff)
    ultimately show ?thesis using uc unfolding run by simp
  qed
qed

lemma block_ptr_roundtrip_aux:
  assumes fits: "b < 2 ^ (57 - abl)" and abl: "abl \<le> 57"
  shows "\<exists>bytes. block_ptr_encode (Some b) = Ok bytes \<and> length bytes = 8 \<and> block_ptr_decode bytes abl = Ok (Some b)"
proof -
  define w :: u64 where "w = of_nat b"
  have "(2::nat) ^ (57 - abl) \<le> 2 ^ 57" by (rule power_increasing) simp_all
  then have lt: "b < 2 ^ 57" using fits by simp
  then have uw: "unat w = b" by (simp add: w_def unat_of_nat)
  have id: "drop_bit 7 (push_bit 7 w) = w" using lt uw by (intro drop_push_id) simp_all
  have "\<not> bit (push_bit 7 w) 0" "bit (NOT 0 :: u64) 0" by (simp_all add: bit_simps)
  then have nn: "push_bit 7 w \<noteq> NOT 0" by metis
  have "unat (drop_bit (57 - abl) w) = drop_bit (57 - abl) b" by (simp only: unat_drop_bit_eq uw)
  also have "\<dots> = 0" using fits by (simp add: drop_bit_eq_div)
  finally have sh: "drop_bit (57 - abl) w = 0" by (simp add: unat_eq_0)
  have "block_ptr_encode (Some b) = Ok (to_le_bytes (push_bit 7 w))"
    using id by (simp add: block_ptr_encode_def Let_def RESERVED_ENCODING_BITS_def w_def)
  moreover have "block_ptr_decode (to_le_bytes (push_bit 7 w)) abl = Ok (Some b)"
    using id nn sh uw abl by (simp add: block_ptr_decode_def Let_def RESERVED_ENCODING_BITS_def)
  ultimately show ?thesis by simp
qed

section \<open>Properties\<close>

text \<open>
  C18: An extent of one to 64 blocks that ends within the image size encodable for the block size is
  encoded without an error into eight bytes, from which the decoder returns the same extent and the
  same flag for indirection.
\<close>

theorem extent_ptr_roundtrip:
  assumes "range_begin e < range_end e" "range_end e - range_begin e \<le> 64"
    and "range_end e < 2 ^ (57 - abl)" and "abl \<le> 57"
  shows "\<exists>bytes. extent_ptr_encode (Some e) indirect = Ok bytes \<and> length bytes = 8
    \<and> extent_ptr_decode bytes abl = Ok (Some (e, indirect))"
  using assms by (rule extent_ptr_roundtrip_aux)

theorem extent_ptr_roundtrip_witness:
  "\<exists>bytes. extent_ptr_encode (Some (mk_range 100 164)) True = Ok bytes
    \<and> extent_ptr_decode bytes 3 = Ok (Some (mk_range 100 164, True))"
  using extent_ptr_roundtrip [of "mk_range 100 164" 3 True] by auto

text \<open>
  Decoding any eight bytes never panics. It returns NIL for the NIL encoding only, an extent
  only if it has one to 64 blocks, lies within the encodable image size and is encoded by exactly
  these bytes, and the error for invalid extents otherwise.
\<close>

theorem extent_ptr_decode_correct:
  assumes "length bytes = 8" "abl \<le> 57"
  shows "case extent_ptr_decode bytes abl of
      Ok None \<Rightarrow> bytes = extent_ptr_encode_nil
    | Ok (Some (r, indirect)) \<Rightarrow> range_begin r < range_end r \<and> range_end r - range_begin r \<le> 64
        \<and> range_end r < 2 ^ (57 - abl) \<and> extent_ptr_encode (Some r) indirect = Ok bytes
    | Err e \<Rightarrow> e = FsFormatError InvalidExtents
    | Panic \<Rightarrow> False"
  using assms by (rule extent_ptr_decode_sound)

theorem extent_ptr_decode_correct_witness:
  "extent_ptr_decode [0, 0, 0, 0, 0, 0, 0, 0x80] 0 \<noteq> Panic"
  using extent_ptr_decode_correct [of "[0, 0, 0, 0, 0, 0, 0, 0x80]" 0] by auto

text \<open>
  A block index within the encodable image size is encoded into eight bytes from which the
  decoder of block pointers returns it.
\<close>

theorem block_ptr_roundtrip:
  assumes "b < 2 ^ (57 - abl)" "abl \<le> 57"
  shows "\<exists>bytes. block_ptr_encode (Some b) = Ok bytes \<and> length bytes = 8 \<and> block_ptr_decode bytes abl = Ok (Some b)"
  using assms by (rule block_ptr_roundtrip_aux)

theorem block_ptr_roundtrip_witness:
  "\<exists>bytes. block_ptr_encode (Some 77) = Ok bytes \<and> block_ptr_decode bytes 3 = Ok (Some 77)"
  using block_ptr_roundtrip [of 77 3] by auto

end
