(* ===== verification/Image_Layout.thy ===== *)
theory Image_Layout
  imports Extent_Ptr
begin

text \<open>
  The core configuration parameters of a filesystem image, \<open>ImageLayout\<close> of
  \<open>src/storage/src/fs/cocoonfs/layout.rs\<close>, with the checks of its constructor and its encoding
  in the image header. The algorithm identifiers come from \<open>src/tpm2-interface/src/interface.rs\<close>
  and \<open>src/crypto/src/symcipher.rs\<close>, in the configuration with all hash algorithms and with the
  block ciphers AES, Camellia and SM4.
\<close>

section \<open>Algorithm identifiers\<close>

datatype tpmi_alg_hash = Sha1 | Sha256 | Sha384 | Sha512 | Sm3_256 | Sha3_256 | Sha3_384 | Sha3_512

datatype tpmi_alg_sym_object = Aes | Sm4 | Camellia

datatype tpm_err = RcHash | RcSymmetric | RcInsufficient | TpmInternalErr

fun alg_hash_id :: "tpmi_alg_hash \<Rightarrow> u16" where
  "alg_hash_id Sha1 = 0x4"
| "alg_hash_id Sha256 = 0xb"
| "alg_hash_id Sha384 = 0xc"
| "alg_hash_id Sha512 = 0xd"
| "alg_hash_id Sm3_256 = 0x12"
| "alg_hash_id Sha3_256 = 0x27"
| "alg_hash_id Sha3_384 = 0x28"
| "alg_hash_id Sha3_512 = 0x29"

fun alg_sym_object_id :: "tpmi_alg_sym_object \<Rightarrow> u16" where
  "alg_sym_object_id Aes = 0x6"
| "alg_sym_object_id Sm4 = 0x13"
| "alg_sym_object_id Camellia = 0x26"

definition alg_hash_try_from :: "u16 \<Rightarrow> tpm_err + tpmi_alg_hash" where
  "alg_hash_try_from v =
     (if v = alg_hash_id Sha1 then Inr Sha1
      else if v = alg_hash_id Sha256 then Inr Sha256
      else if v = alg_hash_id Sha384 then Inr Sha384
      else if v = alg_hash_id Sha512 then Inr Sha512
      else if v = alg_hash_id Sm3_256 then Inr Sm3_256
      else if v = alg_hash_id Sha3_256 then Inr Sha3_256
      else if v = alg_hash_id Sha3_384 then Inr Sha3_384
      else if v = alg_hash_id Sha3_512 then Inr Sha3_512
      else Inl RcHash)"

definition alg_sym_object_try_from :: "u16 \<Rightarrow> tpm_err + tpmi_alg_sym_object" where
  "alg_sym_object_try_from v =
     (if v = alg_sym_object_id Aes then Inr Aes
      else if v = alg_sym_object_id Sm4 then Inr Sm4
      else if v = alg_sym_object_id Camellia then Inr Camellia
      else Inl RcSymmetric)"

datatype aes_key_size = Aes128 | Aes192 | Aes256
datatype camellia_key_size = Camellia128 | Camellia192 | Camellia256
datatype sm4_key_size = Sm4_128

datatype sym_block_cipher_alg =
    AesCipher aes_key_size
  | CamelliaCipher camellia_key_size
  | Sm4Cipher sm4_key_size

definition block_cipher_try_from :: "tpmi_alg_sym_object \<Rightarrow> u16 \<Rightarrow> sym_block_cipher_alg option" where
  "block_cipher_try_from block_alg key_size =
     (case block_alg of
        Aes \<Rightarrow> if key_size = 128 then Some (AesCipher Aes128)
               else if key_size = 192 then Some (AesCipher Aes192)
               else if key_size = 256 then Some (AesCipher Aes256) else None
      | Camellia \<Rightarrow> if key_size = 128 then Some (CamelliaCipher Camellia128)
               else if key_size = 192 then Some (CamelliaCipher Camellia192)
               else if key_size = 256 then Some (CamelliaCipher Camellia256) else None
      | Sm4 \<Rightarrow> if key_size = 128 then Some (Sm4Cipher Sm4_128) else None)"

fun block_cipher_ids :: "sym_block_cipher_alg \<Rightarrow> tpmi_alg_sym_object \<times> u16" where
  "block_cipher_ids (AesCipher Aes128) = (Aes, 128)"
| "block_cipher_ids (AesCipher Aes192) = (Aes, 192)"
| "block_cipher_ids (AesCipher Aes256) = (Aes, 256)"
| "block_cipher_ids (CamelliaCipher Camellia128) = (Camellia, 128)"
| "block_cipher_ids (CamelliaCipher Camellia192) = (Camellia, 192)"
| "block_cipher_ids (CamelliaCipher Camellia256) = (Camellia, 256)"
| "block_cipher_ids (Sm4Cipher Sm4_128) = (Sm4, 128)"

section \<open>Marshalling\<close>

definition u16_to_be_bytes :: "u16 \<Rightarrow> u8 list" where
  "u16_to_be_bytes v = [ucast (drop_bit 8 v), ucast v]"

definition u16_from_be_bytes :: "u8 \<Rightarrow> u8 \<Rightarrow> u16" where
  "u16_from_be_bytes hi lo = push_bit 8 (ucast hi) OR ucast lo"

text \<open>\<open>marshal_u16\<close> returns what it has written and the rest of the buffer.\<close>

definition marshal_u16 :: "u8 list \<Rightarrow> u16 \<Rightarrow> tpm_err + (u8 list \<times> u8 list)" where
  "marshal_u16 buf v =
     (if length buf < 2 then Inl TpmInternalErr else Inr (u16_to_be_bytes v, drop 2 buf))"

definition unmarshal_u16 :: "u8 list \<Rightarrow> tpm_err + (u8 list \<times> u16)" where
  "unmarshal_u16 buf =
     (case buf of hi # lo # rest \<Rightarrow> Inr (rest, u16_from_be_bytes hi lo) | _ \<Rightarrow> Inl RcInsufficient)"

definition alg_hash_unmarshal :: "u8 list \<Rightarrow> tpm_err + (u8 list \<times> tpmi_alg_hash)" where
  "alg_hash_unmarshal buf =
     (case unmarshal_u16 buf of Inl e \<Rightarrow> Inl e
      | Inr (buf, v) \<Rightarrow> (case alg_hash_try_from v of Inl e \<Rightarrow> Inl e | Inr r \<Rightarrow> Inr (buf, r)))"

definition alg_sym_object_unmarshal :: "u8 list \<Rightarrow> tpm_err + (u8 list \<times> tpmi_alg_sym_object)" where
  "alg_sym_object_unmarshal buf =
     (case unmarshal_u16 buf of Inl e \<Rightarrow> Inl e
      | Inr (buf, v) \<Rightarrow> (case alg_sym_object_try_from v of Inl e \<Rightarrow> Inl e | Inr r \<Rightarrow> Inr (buf, r)))"

section \<open>The image layout\<close>

record image_layout =
  allocation_block_size_128b_log2 :: u8
  io_block_allocation_blocks_log2 :: u8
  auth_tree_node_io_blocks_log2 :: u8
  auth_tree_data_block_allocation_blocks_log2 :: u8
  allocation_bitmap_file_block_allocation_blocks_log2 :: u8
  index_tree_leaf_node_allocation_blocks_log2 :: u8
  index_tree_internal_node_allocation_blocks_log2 :: u8
  auth_tree_node_hash_alg :: tpmi_alg_hash
  auth_tree_data_hmac_hash_alg :: tpmi_alg_hash
  auth_tree_root_hmac_hash_alg :: tpmi_alg_hash
  preauth_cca_protection_hmac_hash_alg :: tpmi_alg_hash
  kdf_hash_alg :: tpmi_alg_hash
  block_cipher_alg :: sym_block_cipher_alg

text \<open>Shift of an \<open>u64\<close> one, which panics for an amount of 64 or more.\<close>

definition one_shl :: "nat \<Rightarrow> nat outcome" where
  "one_shl n = (if n < 64 then Ok (2 ^ n) else Panic)"

text \<open>The bounds on \<open>u64::BITS\<close> and on \<open>usize::BITS\<close>; they coincide where \<open>usize\<close> has
  64 bits, and the second one is never reached.\<close>

definition check_bits :: "nat \<Rightarrow> unit outcome \<Rightarrow> unit outcome" where
  "check_bits n k =
     (if n \<ge> 64 then Err (FsFormatError InvalidImageLayoutConfig)
      else if n \<ge> 64 then Err DimensionsNotSupported else k)"

definition check_index_node :: "image_layout \<Rightarrow> u8 \<Rightarrow> unit outcome \<Rightarrow> unit outcome" where
  "check_index_node l n k =
     check_bits (unat n + unat (allocation_block_size_128b_log2 l) + 7)
       (and_then (one_shl (unat n)) (\<lambda>s.
        if s > 64 then Err (FsFormatError InvalidImageLayoutConfig)
        else if s > MAX_EXTENT_ALLOCATION_BLOCKS then Err (FsFormatError InvalidImageLayoutConfig)
        else k))"

definition image_layout_check :: "image_layout \<Rightarrow> unit outcome" where
  "image_layout_check l =
     (let ab = unat (allocation_block_size_128b_log2 l);
          io = unat (io_block_allocation_blocks_log2 l);
          node = unat (auth_tree_node_io_blocks_log2 l);
          dat = unat (auth_tree_data_block_allocation_blocks_log2 l);
          bm = unat (allocation_bitmap_file_block_allocation_blocks_log2 l)
      in check_bits (ab + 7)
        (check_bits (io + ab + 7)
        (and_then (one_shl io) (\<lambda>s.
         if s > MAX_EXTENT_ALLOCATION_BLOCKS then Err (FsFormatError InvalidImageLayoutConfig)
         else check_bits (node + io + ab + 7)
        (check_bits (dat + ab + 7)
        (and_then (one_shl (max io dat)) (\<lambda>s.
         if s > 64 then Err (FsFormatError InvalidImageLayoutConfig)
         else check_bits (bm + ab + 7)
        (check_index_node l (index_tree_leaf_node_allocation_blocks_log2 l)
        (check_index_node l (index_tree_internal_node_allocation_blocks_log2 l)
         (Ok ()))))))))))"

definition image_layout_new :: "image_layout \<Rightarrow> image_layout outcome" where
  "image_layout_new l = and_then (image_layout_check l) (\<lambda>_. Ok l)"

definition image_layout_encoded_len :: nat where
  "image_layout_encoded_len = 1 + 1 + 1 + 1 + 1 + 1 + 1 + 5 * 2 + 2 + 2"

definition marshal_step :: "u8 list \<times> u8 list \<Rightarrow> u16 \<Rightarrow> (u8 list \<times> u8 list) outcome" where
  "marshal_step b v =
     (case marshal_u16 (snd b) v of Inl _ \<Rightarrow> nvfs_err_internal | Inr (w, rest) \<Rightarrow> Ok (fst b @ w, rest))"

definition image_layout_encode :: "image_layout \<Rightarrow> u8 list outcome" where
  "image_layout_encode l =
     (let result = replicate image_layout_encoded_len 0;
          front = [allocation_block_size_128b_log2 l, io_block_allocation_blocks_log2 l,
                   auth_tree_node_io_blocks_log2 l, auth_tree_data_block_allocation_blocks_log2 l,
                   allocation_bitmap_file_block_allocation_blocks_log2 l,
                   index_tree_leaf_node_allocation_blocks_log2 l,
                   index_tree_internal_node_allocation_blocks_log2 l]
      in and_then (marshal_step (front, drop 7 result) (alg_hash_id (auth_tree_node_hash_alg l))) (\<lambda>b.
         and_then (marshal_step b (alg_hash_id (auth_tree_data_hmac_hash_alg l))) (\<lambda>b.
         and_then (marshal_step b (alg_hash_id (auth_tree_root_hmac_hash_alg l))) (\<lambda>b.
         and_then (marshal_step b (alg_hash_id (preauth_cca_protection_hmac_hash_alg l))) (\<lambda>b.
         and_then (marshal_step b (alg_hash_id (kdf_hash_alg l))) (\<lambda>b.
         let (block_cipher_alg_id, block_cipher_key_size) = block_cipher_ids (block_cipher_alg l) in
         and_then (marshal_step b (alg_sym_object_id block_cipher_alg_id)) (\<lambda>b.
         and_then (marshal_step b block_cipher_key_size) (\<lambda>b.
         debug_assert (snd b = []) (Ok (fst b))))))))))"

definition hash_step :: "u8 list \<Rightarrow> (u8 list \<times> tpmi_alg_hash) outcome" where
  "hash_step buf =
     (case alg_hash_unmarshal buf of
        Inl RcHash \<Rightarrow> Err (FsFormatError UnsupportedCryptoAlgorithm)
      | Inl _ \<Rightarrow> nvfs_err_internal
      | Inr r \<Rightarrow> Ok r)"

definition sym_step :: "u8 list \<Rightarrow> (u8 list \<times> tpmi_alg_sym_object) outcome" where
  "sym_step buf =
     (case alg_sym_object_unmarshal buf of
        Inl RcSymmetric \<Rightarrow> Err (FsFormatError UnsupportedCryptoAlgorithm)
      | Inl _ \<Rightarrow> nvfs_err_internal
      | Inr r \<Rightarrow> Ok r)"

definition image_layout_decode :: "u8 list \<Rightarrow> image_layout outcome" where
  "image_layout_decode src =
     (if length src \<noteq> image_layout_encoded_len then nvfs_err_internal
      else
        and_then (hash_step (drop 7 src)) (\<lambda>(buf, node_hash).
        and_then (hash_step buf) (\<lambda>(buf, data_hash).
        and_then (hash_step buf) (\<lambda>(buf, root_hash).
        and_then (hash_step buf) (\<lambda>(buf, preauth_hash).
        and_then (hash_step buf) (\<lambda>(buf, kdf_hash).
        and_then (sym_step buf) (\<lambda>(buf, block_cipher_alg_id).
        and_then (case unmarshal_u16 buf of Inl _ \<Rightarrow> nvfs_err_internal | Inr r \<Rightarrow> Ok r) (\<lambda>(buf, block_cipher_key_size).
        debug_assert (buf = [])
        (and_then (case block_cipher_try_from block_cipher_alg_id block_cipher_key_size of
                     None \<Rightarrow> Err (FsFormatError UnsupportedCryptoAlgorithm) | Some a \<Rightarrow> Ok a) (\<lambda>cipher.
         image_layout_new
           \<lparr>allocation_block_size_128b_log2 = src ! 0,
            io_block_allocation_blocks_log2 = src ! 1,
            auth_tree_node_io_blocks_log2 = src ! 2,
            auth_tree_data_block_allocation_blocks_log2 = src ! 3,
            allocation_bitmap_file_block_allocation_blocks_log2 = src ! 4,
            index_tree_leaf_node_allocation_blocks_log2 = src ! 5,
            index_tree_internal_node_allocation_blocks_log2 = src ! 6,
            auth_tree_node_hash_alg = node_hash,
            auth_tree_data_hmac_hash_alg = data_hash,
            auth_tree_root_hmac_hash_alg = root_hash,
            preauth_cca_protection_hmac_hash_alg = preauth_hash,
            kdf_hash_alg = kdf_hash,
            block_cipher_alg = cipher\<rparr>))))))))))"

section \<open>The checked bounds\<close>

definition layout_ok :: "image_layout \<Rightarrow> bool" where
  "layout_ok l \<longleftrightarrow>
     (let ab = unat (allocation_block_size_128b_log2 l);
          io = unat (io_block_allocation_blocks_log2 l)
      in io \<le> 6 \<and> unat (auth_tree_data_block_allocation_blocks_log2 l) \<le> 6
       \<and> unat (index_tree_leaf_node_allocation_blocks_log2 l) \<le> 6
       \<and> unat (index_tree_internal_node_allocation_blocks_log2 l) \<le> 6
       \<and> unat (auth_tree_node_io_blocks_log2 l) + io + ab + 7 < 64
       \<and> unat (auth_tree_data_block_allocation_blocks_log2 l) + ab + 7 < 64
       \<and> unat (allocation_bitmap_file_block_allocation_blocks_log2 l) + ab + 7 < 64
       \<and> unat (index_tree_leaf_node_allocation_blocks_log2 l) + ab + 7 < 64
       \<and> unat (index_tree_internal_node_allocation_blocks_log2 l) + ab + 7 < 64)"

lemma pow2_le_64 [simp]: "(2::nat) ^ n > 64 \<longleftrightarrow> n > 6"
  using power_strict_increasing_iff [of "2::nat" 6 n] by simp

lemma check_bits_simp: "check_bits n k = (if n < 64 then k else Err (FsFormatError InvalidImageLayoutConfig))"
  by (simp add: check_bits_def)

lemma one_shl_Ok: "n < 64 \<Longrightarrow> one_shl n = Ok (2 ^ n)"
  by (simp add: one_shl_def)

lemma max_blocks [simp]: "MAX_EXTENT_ALLOCATION_BLOCKS = 64"
  by (simp add: MAX_EXTENT_ALLOCATION_BLOCKS_def EXTENT_ALLOCATION_BLOCKS_ENCODING_BITS_def)

lemma check_index_node_simp:
  "check_index_node l n k = (if unat n + unat (allocation_block_size_128b_log2 l) + 7 < 64 \<and> unat n \<le> 6 then k
     else Err (FsFormatError InvalidImageLayoutConfig))"
  by (simp add: check_index_node_def check_bits_simp one_shl_Ok not_le)

lemma image_layout_check_eq:
  "image_layout_check l = (if layout_ok l then Ok () else Err (FsFormatError InvalidImageLayoutConfig))"
  unfolding image_layout_check_def check_index_node_simp check_bits_simp layout_ok_def Let_def
  by (auto simp: one_shl_Ok not_le max_def)

section \<open>Encoding\<close>

lemma u16_be [simp]: "u16_from_be_bytes (ucast (drop_bit 8 v)) (ucast v) = v"
  unfolding u16_from_be_bytes_def by (rule bit_word_eqI) (auto simp: bit_simps not_le)

lemma u16_be_inv: "u16_to_be_bytes (u16_from_be_bytes hi lo) = [hi, lo]"
proof -
  have "ucast (drop_bit 8 (u16_from_be_bytes hi lo)) = hi" "ucast (u16_from_be_bytes hi lo) = lo"
    by (rule bit_word_eqI; auto simp: u16_from_be_bytes_def bit_simps dest: bit_imp_le_length)+
  then show ?thesis by (simp add: u16_to_be_bytes_def)
qed

lemma alg_hash_id_inv [simp]: "alg_hash_try_from (alg_hash_id h) = Inr h"
  by (cases h) (simp_all add: alg_hash_try_from_def)

lemma alg_hash_try_from_Inr: "alg_hash_try_from v = Inr h \<Longrightarrow> v = alg_hash_id h"
  by (auto simp: alg_hash_try_from_def split: if_splits)

lemma alg_hash_try_from_Inl: "alg_hash_try_from v = Inl e \<Longrightarrow> e = RcHash"
  by (auto simp: alg_hash_try_from_def split: if_splits)

lemma alg_sym_object_id_inv [simp]: "alg_sym_object_try_from (alg_sym_object_id a) = Inr a"
  by (cases a) (simp_all add: alg_sym_object_try_from_def)

lemma alg_sym_object_try_from_Inr: "alg_sym_object_try_from v = Inr a \<Longrightarrow> v = alg_sym_object_id a"
  by (auto simp: alg_sym_object_try_from_def split: if_splits)

lemma alg_sym_object_try_from_Inl: "alg_sym_object_try_from v = Inl e \<Longrightarrow> e = RcSymmetric"
  by (auto simp: alg_sym_object_try_from_def split: if_splits)

lemma block_cipher_ids_inv [simp]: "block_cipher_try_from (fst (block_cipher_ids c)) (snd (block_cipher_ids c)) = Some c"
  by (induction c rule: block_cipher_ids.induct) (simp_all add: block_cipher_try_from_def)

lemma block_cipher_try_from_Some: "block_cipher_try_from a k = Some c \<Longrightarrow> block_cipher_ids c = (a, k)"
  by (auto simp: block_cipher_try_from_def split: tpmi_alg_sym_object.splits if_splits)

lemma marshal_step_Ok: "2 \<le> length rest \<Longrightarrow> marshal_step (w, rest) v = Ok (w @ u16_to_be_bytes v, drop 2 rest)"
  by (simp add: marshal_step_def marshal_u16_def)

lemma hash_step_Cons [simp]:
  "hash_step (hi # lo # rest) = (case alg_hash_try_from (u16_from_be_bytes hi lo) of
     Inl _ \<Rightarrow> Err (FsFormatError UnsupportedCryptoAlgorithm) | Inr h \<Rightarrow> Ok (rest, h))"
  by (auto simp: hash_step_def alg_hash_unmarshal_def unmarshal_u16_def split: sum.splits tpm_err.splits
      dest: alg_hash_try_from_Inl)

lemma sym_step_Cons [simp]:
  "sym_step (hi # lo # rest) = (case alg_sym_object_try_from (u16_from_be_bytes hi lo) of
     Inl _ \<Rightarrow> Err (FsFormatError UnsupportedCryptoAlgorithm) | Inr h \<Rightarrow> Ok (rest, h))"
  by (auto simp: sym_step_def alg_sym_object_unmarshal_def unmarshal_u16_def split: sum.splits tpm_err.splits
      dest: alg_sym_object_try_from_Inl)

lemma image_layout_encode_eq:
  "image_layout_encode l = Ok
    ([allocation_block_size_128b_log2 l, io_block_allocation_blocks_log2 l, auth_tree_node_io_blocks_log2 l,
      auth_tree_data_block_allocation_blocks_log2 l, allocation_bitmap_file_block_allocation_blocks_log2 l,
      index_tree_leaf_node_allocation_blocks_log2 l, index_tree_internal_node_allocation_blocks_log2 l]
     @ u16_to_be_bytes (alg_hash_id (auth_tree_node_hash_alg l))
     @ u16_to_be_bytes (alg_hash_id (auth_tree_data_hmac_hash_alg l))
     @ u16_to_be_bytes (alg_hash_id (auth_tree_root_hmac_hash_alg l))
     @ u16_to_be_bytes (alg_hash_id (preauth_cca_protection_hmac_hash_alg l))
     @ u16_to_be_bytes (alg_hash_id (kdf_hash_alg l))
     @ u16_to_be_bytes (alg_sym_object_id (fst (block_cipher_ids (block_cipher_alg l))))
     @ u16_to_be_bytes (snd (block_cipher_ids (block_cipher_alg l))))"
  by (simp add: image_layout_encode_def Let_def image_layout_encoded_len_def marshal_step_Ok split: prod.splits)

lemma image_layout_roundtrip_aux:
  assumes "layout_ok l"
  shows "\<exists>bytes. image_layout_encode l = Ok bytes \<and> length bytes = image_layout_encoded_len
    \<and> image_layout_decode bytes = Ok l"
  using assms unfolding image_layout_encode_eq
  by (cases l) (simp add: image_layout_decode_def image_layout_encoded_len_def u16_to_be_bytes_def unmarshal_u16_def
      image_layout_new_def image_layout_check_eq)

lemma try_from_bytes:
  "alg_hash_try_from (u16_from_be_bytes hi lo) = Inr h \<Longrightarrow> u16_to_be_bytes (alg_hash_id h) = [hi, lo]"
  "alg_sym_object_try_from (u16_from_be_bytes hi lo) = Inr a \<Longrightarrow> u16_to_be_bytes (alg_sym_object_id a) = [hi, lo]"
  by (auto dest!: alg_hash_try_from_Inr alg_sym_object_try_from_Inr simp flip: u16_be_inv)

lemma image_layout_decode_sound:
  "case image_layout_decode src of
      Ok l \<Rightarrow> layout_ok l \<and> image_layout_encode l = Ok src
    | Err e \<Rightarrow> length src = image_layout_encoded_len
        \<and> e \<in> {FsFormatError UnsupportedCryptoAlgorithm, FsFormatError InvalidImageLayoutConfig}
    | Panic \<Rightarrow> length src \<noteq> image_layout_encoded_len"
proof (cases "length src = image_layout_encoded_len")
  case True
  then have "length src = Suc (Suc (Suc (Suc (Suc (Suc (Suc 14))))))" by (simp add: image_layout_encoded_len_def)
  then obtain c0 c1 c2 c3 c4 c5 c6 ys where src: "src = c0 # c1 # c2 # c3 # c4 # c5 # c6 # ys" and ys: "length ys = 14"
    unfolding length_Suc_conv by blast
  from ys have "length ys = Suc (Suc (Suc (Suc (Suc (Suc (Suc (Suc (Suc (Suc (Suc (Suc (Suc (Suc 0)))))))))))))" by simp
  then obtain a0 a1 b0 b1 d0 d1 e0 e1 f0 f1 g0 g1 h0 h1 where
    ys': "ys = [a0, a1, b0, b1, d0, d1, e0, e1, f0, f1, g0, g1, h0, h1]"
    unfolding length_Suc_conv length_0_conv by blast
  show ?thesis
    unfolding image_layout_encode_eq src ys'
    by (auto simp: image_layout_decode_def image_layout_encoded_len_def unmarshal_u16_def
        image_layout_new_def image_layout_check_eq u16_be_inv
        split: sum.splits option.splits
        dest!: try_from_bytes block_cipher_try_from_Some)
next
  case False
  then show ?thesis by (simp add: image_layout_decode_def)
qed

section \<open>Properties\<close>

text \<open>
  The constructor accepts exactly the layouts in which every block size is below \<open>2 ^ 64\<close>
  bytes and the IO block, the authentication tree data block and the index tree nodes have 64
  allocation blocks at most, so that each fits one extent pointer and one word of the allocation
  bitmap. It reports an invalid configuration for any other layout and never panics.
\<close>

theorem image_layout_new_correct:
  "image_layout_new l = (if layout_ok l then Ok l else Err (FsFormatError InvalidImageLayoutConfig))"
  by (simp add: image_layout_new_def image_layout_check_eq)

text \<open>
  C20: Encoding a valid layout succeeds and fills the 21 bytes of its encoding; decoding them gives
  the same layout.
\<close>

theorem image_layout_roundtrip:
  assumes "layout_ok l"
  shows "\<exists>bytes. image_layout_encode l = Ok bytes \<and> length bytes = image_layout_encoded_len
    \<and> image_layout_decode bytes = Ok l"
  using assms by (rule image_layout_roundtrip_aux)

theorem image_layout_roundtrip_witness:
  "\<exists>bytes. image_layout_encode
      \<lparr>allocation_block_size_128b_log2 = 0, io_block_allocation_blocks_log2 = 2,
       auth_tree_node_io_blocks_log2 = 1, auth_tree_data_block_allocation_blocks_log2 = 2,
       allocation_bitmap_file_block_allocation_blocks_log2 = 2,
       index_tree_leaf_node_allocation_blocks_log2 = 1, index_tree_internal_node_allocation_blocks_log2 = 1,
       auth_tree_node_hash_alg = Sha512, auth_tree_data_hmac_hash_alg = Sha512,
       auth_tree_root_hmac_hash_alg = Sha512, preauth_cca_protection_hmac_hash_alg = Sha256,
       kdf_hash_alg = Sha256, block_cipher_alg = AesCipher Aes256\<rparr> = Ok bytes \<and> length bytes = 21"
proof -
  let ?l = "\<lparr>allocation_block_size_128b_log2 = 0, io_block_allocation_blocks_log2 = 2,
       auth_tree_node_io_blocks_log2 = 1, auth_tree_data_block_allocation_blocks_log2 = 2,
       allocation_bitmap_file_block_allocation_blocks_log2 = 2,
       index_tree_leaf_node_allocation_blocks_log2 = 1, index_tree_internal_node_allocation_blocks_log2 = 1,
       auth_tree_node_hash_alg = Sha512, auth_tree_data_hmac_hash_alg = Sha512,
       auth_tree_root_hmac_hash_alg = Sha512, preauth_cca_protection_hmac_hash_alg = Sha256,
       kdf_hash_alg = Sha256, block_cipher_alg = AesCipher Aes256\<rparr>"
  have "layout_ok ?l" by (simp add: layout_ok_def)
  from image_layout_roundtrip [OF this] show ?thesis by (auto simp: image_layout_encoded_len_def)
qed

text \<open>
  C21: Decoding bytes of the encoded length never panics, whatever they are; bytes of any other length
  end in \<open>nvfs_err_internal!()\<close>, which panics with debug assertions. A layout is returned only if it
  is valid and the bytes are its encoding; otherwise the error is the one for an unsupported algorithm
  or the one for an invalid configuration.
\<close>

theorem image_layout_decode_correct:
  "case image_layout_decode src of
      Ok l \<Rightarrow> layout_ok l \<and> image_layout_encode l = Ok src
    | Err e \<Rightarrow> length src = image_layout_encoded_len
        \<and> e \<in> {FsFormatError UnsupportedCryptoAlgorithm, FsFormatError InvalidImageLayoutConfig}
    | Panic \<Rightarrow> length src \<noteq> image_layout_encoded_len"
  by (rule image_layout_decode_sound)

end
