(* ===== verification/Transaction_Allocs.thy ===== *)
theory Transaction_Allocs
  imports Find_Free_Block_Spec Sparse_Bitmap_Seq Image_Layout
begin

text \<open>
  The block allocations of pending transactions: the sets of blocks a transaction has allocated and
  freed (\<open>transaction/mod.rs\<close>, \<open>TransactionAllocations\<close>), the allocations of all pending
  transactions that may be written to before their commit
  (\<open>fs.rs\<close>, \<open>CocoonFsPendingTransactionsSyncState\<close>), and the branches of
  \<open>PendingTransactionsSyncFuture::poll()\<close> that allocate one block or several. The memory
  reservations of the two sparse bitmaps a handler grows are arguments.
\<close>

section \<open>State\<close>

record transaction_allocs =
  ta_pending_allocs :: sparse_alloc_bitmap
  ta_pending_frees :: sparse_alloc_bitmap
  ta_journal_allocs :: sparse_alloc_bitmap
  ta_journal_frees :: sparse_alloc_bitmap

definition transaction_allocations_new :: transaction_allocs where
  "transaction_allocations_new =
     \<lparr>ta_pending_allocs = sb_new, ta_pending_frees = sb_new, ta_journal_allocs = sb_new, ta_journal_frees = sb_new\<rparr>"

definition transaction_allocations_reset_rollback :: "transaction_allocs \<Rightarrow> transaction_allocs" where
  "transaction_allocations_reset_rollback tr =
     tr\<lparr>ta_pending_allocs := reset_remove_rollback (ta_pending_allocs tr),
        ta_pending_frees := reset_remove_rollback (ta_pending_frees tr)\<rparr>"

datatype allocation_constraints = Regular | NoPendingFrees | Journal

text \<open>What the handlers read of the filesystem instance.\<close>

record fs_sync_state =
  fs_alloc_bitmap :: alloc_bitmap
  fs_image_size :: nat
  fs_image_layout :: image_layout

definition journal_block_log2 :: "image_layout \<Rightarrow> nat" where
  "journal_block_log2 l =
     max (unat (auth_tree_data_block_allocation_blocks_log2 l)) (unat (io_block_allocation_blocks_log2 l))"

section \<open>Registering allocations with the state shared between transactions\<close>

definition deregister_allocated_block :: "sparse_alloc_bitmap \<Rightarrow> nat \<Rightarrow> nat \<Rightarrow> sparse_alloc_bitmap outcome" where
  "deregister_allocated_block shared b k = and_then (sb_remove_block shared b k) (\<lambda>sb. Ok (reset_remove_rollback sb))"

fun deregister_allocated_blocks :: "sparse_alloc_bitmap \<Rightarrow> nat list \<Rightarrow> nat \<Rightarrow> sparse_alloc_bitmap outcome" where
  "deregister_allocated_blocks shared [] k = Ok shared"
| "deregister_allocated_blocks shared (b # bs) k =
     and_then (deregister_allocated_block shared b k) (\<lambda>shared. deregister_allocated_blocks shared bs k)"

fun register_journal_blocks ::
  "reservation \<Rightarrow> nat \<Rightarrow> nat \<Rightarrow> nat \<Rightarrow> nat \<Rightarrow> nat \<Rightarrow> chunk_iter \<Rightarrow> sparse_alloc_bitmap \<Rightarrow> (sparse_alloc_bitmap \<times> (nvfs_error + unit)) outcome" where
  "register_journal_blocks mem journal_log2 b k i 0 it shared = Ok (shared, Inr ())"
| "register_journal_blocks mem journal_log2 b k i (Suc n) it shared =
     and_then (chunk_iter_next it) (\<lambda>(w, it).
     if (case w of None \<Rightarrow> 0 | Some w \<Rightarrow> w) \<noteq> 0 then register_journal_blocks mem journal_log2 b k (i + 1) n it shared
     else
       and_then (add_u64 b (push_bit journal_log2 i mod u64_bound)) (\<lambda>b'.
       and_then (sb_add_block mem shared b' (min journal_log2 k)) (\<lambda>(shared, r).
       case r of
         Inl e \<Rightarrow> and_then (deregister_allocated_block shared b k) (\<lambda>shared. Ok (shared, Inl e))
       | Inr _ \<Rightarrow> register_journal_blocks mem journal_log2 b k (i + 1) n it shared)))"

definition register_allocated_block ::
  "reservation \<Rightarrow> fs_sync_state \<Rightarrow> sparse_alloc_bitmap \<Rightarrow> nat \<Rightarrow> nat \<Rightarrow> (sparse_alloc_bitmap \<times> (nvfs_error + unit)) outcome" where
  "register_allocated_block mem fs shared b k =
     debug_assert (k \<le> 6) (
     let journal_log2 = journal_block_log2 (fs_image_layout fs) in
     debug_assert (journal_log2 \<le> 6) (
     and_then (chunk_iter_new_at (fs_alloc_bitmap fs) [] [] (index_align_down b journal_log2) (2 ^ journal_log2)) (\<lambda>it.
     register_journal_blocks mem journal_log2 b k 0 (2 ^ (k - journal_log2)) it shared)))"

fun register_blocks_loop ::
  "reservation \<Rightarrow> fs_sync_state \<Rightarrow> nat list \<Rightarrow> sparse_alloc_bitmap \<Rightarrow> nat list \<Rightarrow> nat \<Rightarrow> (sparse_alloc_bitmap \<times> (nvfs_error + unit)) outcome" where
  "register_blocks_loop mem fs registered shared [] k = Ok (shared, Inr ())"
| "register_blocks_loop mem fs registered shared (b # bs) k =
     and_then (register_allocated_block mem fs shared b k) (\<lambda>(shared, r).
     case r of
       Inl e \<Rightarrow> and_then (deregister_allocated_blocks shared registered k) (\<lambda>shared. Ok (shared, Inl e))
     | Inr _ \<Rightarrow> register_blocks_loop mem fs (registered @ [b]) shared bs k)"

definition register_allocated_blocks ::
  "reservation \<Rightarrow> fs_sync_state \<Rightarrow> sparse_alloc_bitmap \<Rightarrow> nat list \<Rightarrow> nat \<Rightarrow> (sparse_alloc_bitmap \<times> (nvfs_error + unit)) outcome" where
  "register_allocated_blocks mem fs shared bs k = register_blocks_loop mem fs [] shared bs k"

definition deregister_allocated_extent :: "sparse_alloc_bitmap \<Rightarrow> block_range \<Rightarrow> sparse_alloc_bitmap outcome" where
  "deregister_allocated_extent shared extent = and_then (sb_remove_extent shared extent) (\<lambda>sb. Ok (reset_remove_rollback sb))"

fun deregister_allocated_extents :: "sparse_alloc_bitmap \<Rightarrow> block_range list \<Rightarrow> sparse_alloc_bitmap outcome" where
  "deregister_allocated_extents shared [] = Ok shared"
| "deregister_allocated_extents shared (extent # extents) =
     and_then (deregister_allocated_extent shared extent) (\<lambda>shared. deregister_allocated_extents shared extents)"

definition register_region ::
  "reservation \<Rightarrow> sparse_alloc_bitmap \<Rightarrow> nat \<Rightarrow> nat \<Rightarrow> nat \<Rightarrow> (sparse_alloc_bitmap \<times> (nvfs_error + unit)) outcome" where
  "register_region mem shared extent_begin region_begin region_end =
     (if region_begin < region_end then
        and_then (block_range_new region_begin region_end) (\<lambda>region.
        and_then (sb_add_extent mem shared region) (\<lambda>(shared, r).
        case r of
          Inl e \<Rightarrow> and_then (block_range_new extent_begin region_end) (\<lambda>registered.
            and_then (sb_remove_extent shared registered) (\<lambda>shared. Ok (reset_remove_rollback shared, Inl e)))
        | Inr _ \<Rightarrow> Ok (shared, Inr ())))
      else Ok (shared, Inr ()))"

function register_extent_loop ::
  "reservation \<Rightarrow> nat \<Rightarrow> block_range \<Rightarrow> chunk_iter \<Rightarrow> nat \<Rightarrow> nat \<Rightarrow> sparse_alloc_bitmap
     \<Rightarrow> (sparse_alloc_bitmap \<times> (nvfs_error + unit)) outcome" where
  "register_extent_loop mem journal_log2 extent it aligned region_begin shared =
     and_then (chunk_iter_next it) (\<lambda>(w, it).
     let word = (case w of None \<Rightarrow> 0 | Some w \<Rightarrow> w); region_end = aligned in
     and_then (add_u64 aligned (2 ^ journal_log2)) (\<lambda>aligned.
     if word \<noteq> 0 \<or> range_end extent \<le> aligned then
       let region_end = (if word = 0 then range_end extent else region_end) in
       and_then (register_region mem shared (range_begin extent) region_begin region_end) (\<lambda>(shared, r).
       case r of
         Inl e \<Rightarrow> Ok (shared, Inl e)
       | Inr _ \<Rightarrow>
         if range_end extent \<le> aligned then Ok (shared, Inr ())
         else register_extent_loop mem journal_log2 extent it aligned aligned shared)
     else register_extent_loop mem journal_log2 extent it aligned region_begin shared))"
  by pat_completeness auto
termination
proof (relation "measure (\<lambda>(mem, journal_log2, extent, it, aligned, region_begin, shared). range_end extent - aligned)",
    goal_cases)
  case (2 mem j extent it aligned rb shared p w it1 word re al re1 s sh r u)
  then have "\<not> range_end extent \<le> al" "al = aligned + 2 ^ j" by (simp_all add: add_u64_eq_Ok)
  moreover have "0 < (2 :: nat) ^ j" by simp
  ultimately have "range_end extent - al < range_end extent - aligned" by linarith
  then show ?case by simp
next
  case (3 mem j extent it aligned rb shared p w it1 word re al)
  then have "\<not> range_end extent \<le> al" "al = aligned + 2 ^ j" by (simp_all add: add_u64_eq_Ok)
  moreover have "0 < (2 :: nat) ^ j" by simp
  ultimately have "range_end extent - al < range_end extent - aligned" by linarith
  then show ?case by simp
qed simp

declare register_extent_loop.simps [simp del]

definition register_allocated_extent ::
  "reservation \<Rightarrow> fs_sync_state \<Rightarrow> sparse_alloc_bitmap \<Rightarrow> block_range \<Rightarrow> (sparse_alloc_bitmap \<times> (nvfs_error + unit)) outcome" where
  "register_allocated_extent mem fs shared extent =
     (let journal_log2 = journal_block_log2 (fs_image_layout fs) in
     debug_assert (journal_log2 \<le> 6) (
     let aligned = index_align_down (range_begin extent) journal_log2 in
     and_then (chunk_iter_new_at (fs_alloc_bitmap fs) [] [] aligned (2 ^ journal_log2)) (\<lambda>it.
     register_extent_loop mem journal_log2 extent it aligned (range_begin extent) shared)))"

fun register_extents_loop ::
  "reservation \<Rightarrow> fs_sync_state \<Rightarrow> block_range list \<Rightarrow> sparse_alloc_bitmap \<Rightarrow> block_range list \<Rightarrow> (sparse_alloc_bitmap \<times> (nvfs_error + unit)) outcome" where
  "register_extents_loop mem fs registered shared [] = Ok (shared, Inr ())"
| "register_extents_loop mem fs registered shared (extent # extents) =
     and_then (register_allocated_extent mem fs shared extent) (\<lambda>(shared, r).
     case r of
       Inl e \<Rightarrow> and_then (deregister_allocated_extents shared registered) (\<lambda>shared. Ok (shared, Inl e))
     | Inr _ \<Rightarrow> register_extents_loop mem fs (registered @ [extent]) shared extents)"

definition register_allocated_extents ::
  "reservation \<Rightarrow> fs_sync_state \<Rightarrow> sparse_alloc_bitmap \<Rightarrow> block_range list \<Rightarrow> (sparse_alloc_bitmap \<times> (nvfs_error + unit)) outcome" where
  "register_allocated_extents mem fs shared extents = register_extents_loop mem fs [] shared extents"

section \<open>Allocating blocks on behalf of a transaction\<close>

definition constrained_frees :: "allocation_constraints \<Rightarrow> transaction_allocs \<Rightarrow> sparse_alloc_bitmap" where
  "constrained_frees c tr = (case c of Regular \<Rightarrow> ta_pending_frees tr | _ \<Rightarrow> sb_new)"

definition find_for_transaction ::
  "fs_sync_state \<Rightarrow> sparse_alloc_bitmap \<Rightarrow> transaction_allocs \<Rightarrow> allocation_constraints \<Rightarrow> nat \<Rightarrow> nat list \<Rightarrow> nat option \<Rightarrow> nat option outcome" where
  "find_for_transaction fs shared tr c k bs start =
     find_free_block (fs_alloc_bitmap fs) k bs None [ta_pending_allocs tr, ta_journal_allocs tr, shared]
       [constrained_frees c tr, ta_journal_frees tr] (fs_image_size fs) start True"

definition record_blocks ::
  "reservation \<Rightarrow> transaction_allocs \<Rightarrow> allocation_constraints \<Rightarrow> nat list \<Rightarrow> nat \<Rightarrow> (transaction_allocs \<times> (nvfs_error + unit)) outcome" where
  "record_blocks mem tr c bs k =
     (case c of
        Journal \<Rightarrow> and_then (sb_add_blocks mem (ta_journal_allocs tr) bs k) (\<lambda>(sb, r). Ok (tr\<lparr>ta_journal_allocs := sb\<rparr>, r))
      | _ \<Rightarrow> and_then (sb_add_blocks mem (ta_pending_allocs tr) bs k) (\<lambda>(sb, r). Ok (tr\<lparr>ta_pending_allocs := sb\<rparr>, r)))"

definition record_block ::
  "reservation \<Rightarrow> transaction_allocs \<Rightarrow> allocation_constraints \<Rightarrow> nat \<Rightarrow> nat \<Rightarrow> (transaction_allocs \<times> (nvfs_error + unit)) outcome" where
  "record_block mem tr c b k =
     (case c of
        Journal \<Rightarrow> and_then (sb_add_block mem (ta_journal_allocs tr) b k) (\<lambda>(sb, r). Ok (tr\<lparr>ta_journal_allocs := sb\<rparr>, r))
      | _ \<Rightarrow> and_then (sb_add_block mem (ta_pending_allocs tr) b k) (\<lambda>(sb, r). Ok (tr\<lparr>ta_pending_allocs := sb\<rparr>, r)))"

text \<open>
  The result of a handler: an error with the transaction lost, or the transaction and what became
  of the request.
\<close>

type_synonym 'a handler_result = "nvfs_error + (transaction_allocs \<times> (nvfs_error + 'a))"

definition allocate_block ::
  "reservation \<Rightarrow> reservation \<Rightarrow> fs_sync_state \<Rightarrow> sparse_alloc_bitmap \<Rightarrow> transaction_allocs option \<Rightarrow> nat \<Rightarrow> allocation_constraints
     \<Rightarrow> (sparse_alloc_bitmap \<times> nat handler_result) outcome" where
  "allocate_block mem_shared mem_tr fs shared transaction k c =
     (case transaction of
        None \<Rightarrow> nvfs_err_internal
      | Some tr \<Rightarrow>
        and_then (find_for_transaction fs shared tr c k [] None) (\<lambda>found.
        case found of
          None \<Rightarrow> Ok (shared, Inr (tr, Inl NoSpace))
        | Some b \<Rightarrow>
          and_then (register_allocated_block mem_shared fs shared b k) (\<lambda>(shared, r).
          case r of
            Inl e \<Rightarrow> Ok (shared, Inr (tr, Inl e))
          | Inr _ \<Rightarrow>
            and_then (record_block mem_tr tr c b k) (\<lambda>(tr, r).
            case r of
              Inl e \<Rightarrow> and_then (deregister_allocated_block shared b k) (\<lambda>shared. Ok (shared, Inr (tr, Inl e)))
            | Inr _ \<Rightarrow>
              and_then (sb_remove_block (ta_pending_frees tr) b k) (\<lambda>pending_frees.
              and_then (sb_remove_block (ta_journal_frees tr) b k) (\<lambda>journal_frees.
              Ok (shared, Inr (tr\<lparr>ta_pending_frees := pending_frees, ta_journal_frees := journal_frees\<rparr>, Inr b))))))))"

definition binary_search :: "nat list \<Rightarrow> nat \<Rightarrow> nat + nat" where
  "binary_search xs x = (let p = partition_point (\<lambda>y. y < x) xs in if p < length xs \<and> xs ! p = x then Inr p else Inl p)"

function allocate_blocks_loop ::
  "fs_sync_state \<Rightarrow> sparse_alloc_bitmap \<Rightarrow> transaction_allocs \<Rightarrow> allocation_constraints \<Rightarrow> nat \<Rightarrow> nat \<Rightarrow> nat list \<Rightarrow> nat list outcome" where
  "allocate_blocks_loop fs shared tr c k num bs =
     (if length bs < num then
        and_then (find_for_transaction fs shared tr c k bs (if bs = [] then None else Some (last bs))) (\<lambda>found.
        case found of
          None \<Rightarrow> Err NoSpace
        | Some b \<Rightarrow>
          (case binary_search bs b of
             Inr _ \<Rightarrow> nvfs_err_internal
           | Inl p \<Rightarrow> and_then (vec_insert bs p b) (allocate_blocks_loop fs shared tr c k num)))
      else Ok bs)"
  by pat_completeness auto
termination
  by (relation "measure (\<lambda>(fs, shared, tr, c, k, num, bs). num - length bs)") (auto simp: outcome_simps)

declare allocate_blocks_loop.simps [simp del]

definition commit_found_blocks ::
  "reservation \<Rightarrow> reservation \<Rightarrow> fs_sync_state \<Rightarrow> sparse_alloc_bitmap \<Rightarrow> transaction_allocs \<Rightarrow> nat \<Rightarrow> nat list \<Rightarrow> allocation_constraints
     \<Rightarrow> (sparse_alloc_bitmap \<times> nat list handler_result) outcome" where
  "commit_found_blocks mem_shared mem_tr fs shared tr k bs c =
     and_then (register_allocated_blocks mem_shared fs shared bs k) (\<lambda>(shared, r).
     case r of
       Inl e \<Rightarrow> Ok (shared, Inr (tr, Inl e))
     | Inr _ \<Rightarrow>
       and_then (record_blocks mem_tr tr c bs k) (\<lambda>(tr, r).
       case r of
         Inl e \<Rightarrow> and_then (deregister_allocated_blocks shared bs k) (\<lambda>shared. Ok (shared, Inr (tr, Inl e)))
       | Inr _ \<Rightarrow>
         and_then (sb_remove_blocks (ta_pending_frees tr) bs k) (\<lambda>pending_frees.
         and_then (sb_remove_blocks (ta_journal_frees tr) bs k) (\<lambda>journal_frees.
         Ok (shared, Inr (tr\<lparr>ta_pending_frees := pending_frees, ta_journal_frees := journal_frees\<rparr>, Inr bs))))))"

definition allocate_blocks ::
  "reservation \<Rightarrow> reservation \<Rightarrow> fs_sync_state \<Rightarrow> sparse_alloc_bitmap \<Rightarrow> transaction_allocs option \<Rightarrow> nat \<Rightarrow> nat \<Rightarrow> allocation_constraints
     \<Rightarrow> (sparse_alloc_bitmap \<times> nat list handler_result) outcome" where
  "allocate_blocks mem_shared mem_tr fs shared transaction k num c =
     (case transaction of
        None \<Rightarrow> nvfs_err_internal
      | Some tr \<Rightarrow>
        (case allocate_blocks_loop fs shared tr c k num [] of
           Panic \<Rightarrow> Panic
         | Err e \<Rightarrow> Ok (shared, Inl e)
         | Ok bs \<Rightarrow> commit_found_blocks mem_shared mem_tr fs shared tr k bs c))"

text \<open>The changes \<open>Transaction::free_block()\<close> makes to the allocations of a transaction.\<close>

definition free_block_allocs ::
  "reservation \<Rightarrow> transaction_allocs \<Rightarrow> nat \<Rightarrow> nat \<Rightarrow> (transaction_allocs \<times> (nvfs_error + unit)) outcome" where
  "free_block_allocs mem tr b k =
     and_then (sb_add_block mem (ta_pending_frees tr) b k) (\<lambda>(pending_frees, r).
     let tr = tr\<lparr>ta_pending_frees := pending_frees\<rparr> in
     case r of
       Inl e \<Rightarrow> Ok (tr, Inl e)
     | Inr _ \<Rightarrow> and_then (sb_remove_block (ta_pending_allocs tr) b k) (\<lambda>pending_allocs.
         Ok (tr\<lparr>ta_pending_allocs := pending_allocs\<rparr>, Inr ())))"

text \<open>
  How \<open>TransactionAllocateJournalStagingCopiesFuture\<close> releases the journal blocks it could not assign. They
  stay allocated when the memory for their release is short.
\<close>

definition release_journal_blocks :: "reservation \<Rightarrow> transaction_allocs \<Rightarrow> nat list \<Rightarrow> nat \<Rightarrow> transaction_allocs outcome" where
  "release_journal_blocks mem tr bs k =
     and_then (sb_add_blocks mem (ta_journal_frees tr) bs k) (\<lambda>(journal_frees, r).
     let tr = tr\<lparr>ta_journal_frees := journal_frees\<rparr> in
     case r of
       Inl _ \<Rightarrow> Ok tr
     | Inr _ \<Rightarrow> and_then (sb_remove_blocks (ta_journal_allocs tr) bs k) (\<lambda>journal_allocs.
         Ok (tr\<lparr>ta_journal_allocs := reset_remove_rollback journal_allocs\<rparr>)))"

end
