(* ===== verification/Transaction_Allocs_Spec.thy ===== *)
theory Transaction_Allocs_Spec
  imports Transaction_Allocs
begin

text \<open>
  What the registration of allocations and the allocation handlers do. Registration adds the part of
  a block or of an extent that lies in journal blocks free in the committed bitmap; the handlers hand
  out aligned blocks that are free for the transaction and fail with \<open>NoSpace\<close> exactly when there
  are too few.
\<close>

section \<open>Adding and removing aligned blocks\<close>

abbreviation span :: "nat \<Rightarrow> nat \<Rightarrow> nat set" where
  "span k b \<equiv> {b..<b + 2 ^ k}"

definition aligned_block :: "nat \<Rightarrow> nat \<Rightarrow> bool" where
  "aligned_block k b \<longleftrightarrow> k \<le> 6 \<and> 2 ^ k dvd b \<and> b + 2 ^ k < u64_bound"

lemma aligned_block_ok: "aligned_block k b \<Longrightarrow> block_ok k b"
  by (simp add: aligned_block_def block_ok_def)

lemma blocks_block_at [simp]: "blocks (block_at k b) = span k b"
  by (simp add: blocks_def)

lemma aligned_no_interior:
  assumes "aligned_block k b"
  shows "no_interior (block_at k b) es"
proof -
  have k: "k \<le> 6" "2 ^ k dvd b" using assms by (simp_all add: aligned_block_def)
  have "b + 2 ^ k \<le> 64 * (b div 64) + 64"
  proof -
    obtain t where t: "(2 :: nat) ^ k = Suc t" by (cases "(2 :: nat) ^ k") auto
    then have "b + t \<in> span k b" by simp
    from aligned_same_word [OF k this] show ?thesis unfolding t by linarith
  qed
  moreover have "b < 64 * (i + 1) \<Longrightarrow> b div 64 \<le> i" for i :: nat
    using less_mult_imp_div_less [of b "i + 1" 64] by (simp add: mult.commute)
  ultimately have "\<not> in_words (block_at k b) (i + 1)" if "in_words (block_at k b) i" for i
    using that by (fastforce simp: in_words_def)
  then show ?thesis by (auto simp: no_interior_def)
qed

lemma sb_add_aligned_block:
  assumes "sb_wf sb" "aligned_block k b"
  shows "(\<exists>sb'. sb_add_block mem sb b k = Ok (sb', Inr ()) \<and> sb_wf sb' \<and> sb_blocks sb' = sb_blocks sb \<union> span k b)
    \<or> sb_add_block mem sb b k = Ok (sb, Inl MemoryAllocationFailure) \<and> \<not> (\<forall>l m. mem l m)"
  using sb_add_extent_no_interior [OF assms(1) block_at_wf [OF aligned_block_ok [OF assms(2)]] aligned_no_interior [OF assms(2)], of mem]
  unfolding sb_add_block_def block_range_of_Ok [OF aligned_block_ok [OF assms(2)]] by auto

lemma sb_remove_aligned_block:
  assumes "sb_wf sb" "aligned_block k b"
  shows "\<exists>sb'. sb_remove_block sb b k = Ok sb' \<and> sb_wf sb' \<and> sb_blocks sb' = sb_blocks sb - span k b"
  using sb_remove_range_spec [OF assms(1) block_at_wf [OF aligned_block_ok [OF assms(2)]], of True]
  unfolding sb_remove_block_def sb_remove_block_impl_def block_range_of_Ok [OF aligned_block_ok [OF assms(2)]]
  by (metis and_then_simps(1) blocks_block_at)

lemma reset_remove_rollback_keeps [simp]:
  "sb_wf (reset_remove_rollback sb) = sb_wf sb" "sb_blocks (reset_remove_rollback sb) = sb_blocks sb"
  by (simp_all add: reset_remove_rollback_def sb_wf_def sb_blocks_def)

lemma deregister_block_spec:
  assumes "sb_wf sb" "aligned_block k b"
  shows "\<exists>sb'. deregister_allocated_block sb b k = Ok sb' \<and> sb_wf sb' \<and> sb_blocks sb' = sb_blocks sb - span k b"
  using sb_remove_aligned_block [OF assms] by (auto simp: deregister_allocated_block_def)

lemma deregister_blocks_spec:
  assumes "sb_wf sb" "\<forall>b \<in> set bs. aligned_block k b"
  shows "\<exists>sb'. deregister_allocated_blocks sb bs k = Ok sb' \<and> sb_wf sb' \<and> sb_blocks sb' = sb_blocks sb - (\<Union>b \<in> set bs. span k b)"
  using assms
proof (induction bs arbitrary: sb)
  case (Cons b bs)
  from deregister_block_spec [OF Cons.prems(1), of k b] Cons.prems(2) obtain s1 where s1:
    "deregister_allocated_block sb b k = Ok s1" "sb_wf s1" "sb_blocks s1 = sb_blocks sb - span k b" by auto
  from Cons.IH [OF s1(2)] Cons.prems(2) obtain s2 where
    "deregister_allocated_blocks s1 bs k = Ok s2" "sb_wf s2" "sb_blocks s2 = sb_blocks s1 - (\<Union>b \<in> set bs. span k b)" by auto
  then show ?case using s1 by (auto simp: Un_commute)
qed simp

section \<open>Registration\<close>

text \<open>The journal blocks that are free in the bitmap: the blocks that may be written to before the commit.\<close>

definition free_journal_blocks :: "alloc_bitmap \<Rightarrow> nat \<Rightarrow> nat set" where
  "free_journal_blocks ab j = {x. \<forall>y. y div 2 ^ j = x div 2 ^ j \<longrightarrow> y \<notin> ab_blocks ab}"

definition journal_block_free :: "alloc_bitmap \<Rightarrow> nat \<Rightarrow> nat \<Rightarrow> bool" where
  "journal_block_free ab j q \<longleftrightarrow> (\<forall>y. y div 2 ^ j = q \<longrightarrow> y \<notin> ab_blocks ab)"

lemma virtual_blocks_Nil [simp]: "virtual_blocks ab [] [] = ab_blocks ab"
  by (simp add: virtual_blocks_def)

lemma div_eq_span: "x div 2 ^ j = q \<longleftrightarrow> q * 2 ^ j \<le> x \<and> x < q * 2 ^ j + 2 ^ j" for x :: nat
proof -
  have "x div 2 ^ j = q \<longleftrightarrow> q \<le> x div 2 ^ j \<and> x div 2 ^ j < Suc q" by linarith
  also have "\<dots> \<longleftrightarrow> q * 2 ^ j \<le> x \<and> x < Suc q * 2 ^ j" by (simp add: less_eq_div_iff_mult_less_eq div_less_iff_less_mult)
  finally show ?thesis by (simp add: add.commute)
qed

lemma chunk_zero_iff:
  assumes "j \<le> 6" "ws = map (virtual_word ab [] []) [q * 2 ^ j div 64..<length (bitmap ab)]"
  defines "cs \<equiv> chunks_of (2 ^ j) (q * 2 ^ j mod 64) ws"
  shows "(case (if n < length cs then Some (cs ! n) else None) of None \<Rightarrow> 0 | Some w \<Rightarrow> w) = 0 \<longleftrightarrow> journal_block_free ab j (q + n)"
proof -
  have c: "0 < (2 :: nat) ^ j" "(2 :: nat) ^ j \<le> 64" using power_increasing [OF assms(1), of "2 :: nat"] by simp_all
  have base: "q * 2 ^ j + n * 2 ^ j = (q + n) * 2 ^ j" by (simp add: algebra_simps)
  have "\<forall>sb \<in> set ([] @ []). sb_wf sb" by simp
  note cv = chunks_of_virtual [OF this c assms(2), folded cs_def, of n, unfolded base virtual_blocks_Nil]
  have free: "journal_block_free ab j (q + n) \<longleftrightarrow> (\<forall>l < 2 ^ j. (q + n) * 2 ^ j + l \<notin> ab_blocks ab)"
  proof -
    have ex: "(\<exists>l < 2 ^ j. y = (q + n) * 2 ^ j + l) \<longleftrightarrow> y div 2 ^ j = q + n" for y
    proof
      assume "y div 2 ^ j = q + n"
      then have "y = (q + n) * 2 ^ j + y mod 2 ^ j" "y mod 2 ^ j < 2 ^ j" by (metis div_mult_mod_eq, simp)
      then show "\<exists>l < 2 ^ j. y = (q + n) * 2 ^ j + l" by blast
    qed auto
    show ?thesis unfolding journal_block_free_def ex [symmetric] by auto
  qed
  have bound: "x \<in> ab_blocks ab \<Longrightarrow> x < 64 * length (bitmap ab)" for x by (simp add: ab_blocks_def dense_bits_bound)
  show ?thesis
  proof (cases "n < length cs")
    case False
    then have "\<not> (q + n) * 2 ^ j < 64 * length (bitmap ab)" using cv(1) by blast
    then have "(q + n) * 2 ^ j + l \<notin> ab_blocks ab" for l using bound [of "(q + n) * 2 ^ j + l"] by linarith
    then show ?thesis using False free by simp
  next
    case True
    then have lt: "(q + n) * 2 ^ j < 64 * length (bitmap ab)" using cv(1) by blast
    have "cs ! n = 0 \<longleftrightarrow> (\<forall>l<64. \<not> bit (cs ! n) l)" by (auto intro!: bit_word_eqI)
    also have "\<dots> \<longleftrightarrow> (\<forall>l < 2 ^ j. (q + n) * 2 ^ j + l \<notin> ab_blocks ab)"
    proof -
      have "bit (cs ! n) l \<longleftrightarrow> l < 2 ^ j \<and> (q + n) * 2 ^ j + l \<in> ab_blocks ab" if "l < 64" for l
        using cv(2) [OF lt that] bound by auto
      then show ?thesis using c(2) by (metis less_le_trans)
    qed
    finally show ?thesis using True free by simp
  qed
qed


definition piece :: "nat \<Rightarrow> nat \<Rightarrow> nat \<Rightarrow> nat \<Rightarrow> nat set" where
  "piece j k b i = span (min j k) (b + i * 2 ^ j)"

lemma piece_block:
  assumes b: "aligned_block k b" and i: "i < 2 ^ (k - j)"
  shows "aligned_block (min j k) (b + i * 2 ^ j)" "piece j k b i \<subseteq> span k b" "add_u64 b (push_bit j i mod u64_bound) = Ok (b + i * 2 ^ j)"
proof -
  have fits: "i * 2 ^ j + 2 ^ min j k \<le> 2 ^ k"
  proof (cases "j \<le> k")
    case True
    have "Suc i * 2 ^ j \<le> 2 ^ (k - j) * 2 ^ j" using i by (intro mult_le_mono1) simp
    then show ?thesis using True by (simp add: add.commute flip: power_add)
  qed (use i in simp)
  have lt: "b + 2 ^ k < u64_bound" and k: "k \<le> 6" "2 ^ k dvd b" using b by (simp_all add: aligned_block_def)
  have "(2 :: nat) ^ min j k dvd 2 ^ k" "(2 :: nat) ^ min j k dvd 2 ^ j" by (auto intro: le_imp_power_dvd)
  moreover from this(1) k(2) have "2 ^ min j k dvd b" by (rule dvd_trans)
  ultimately have dv: "2 ^ min j k dvd b + i * 2 ^ j" by simp
  show "aligned_block (min j k) (b + i * 2 ^ j)" unfolding aligned_block_def using dv k fits lt by auto
  show "piece j k b i \<subseteq> span k b" unfolding piece_def using fits by auto
  show "add_u64 b (push_bit j i mod u64_bound) = Ok (b + i * 2 ^ j)"
  proof -
    have "i * 2 ^ j \<le> 2 ^ k" using fits by linarith
    then have "i * 2 ^ j < u64_bound" "b + i * 2 ^ j < u64_bound" using lt by linarith+
    then show ?thesis by (simp only: push_bit_eq_mult mod_less add_u64_Ok)
  qed
qed

lemma register_journal_blocks_spec:
  assumes b: "aligned_block k b" and j: "j \<le> 6" and it: "chunk_state ab [] [] it"
    and items: "\<And>t. (case (if t < length (chunk_items it) then Some (chunk_items it ! t) else None) of None \<Rightarrow> 0 | Some w \<Rightarrow> w) = 0 \<longleftrightarrow> free (i + t)"
    and n: "i + n \<le> 2 ^ (k - j)" and sb: "sb_wf sb"
  shows "(\<exists>sb'. register_journal_blocks mem j b k i n it sb = Ok (sb', Inr ()) \<and> sb_wf sb'
       \<and> sb_blocks sb' = sb_blocks sb \<union> (\<Union>t \<in> {t. i \<le> t \<and> t < i + n \<and> free t}. piece j k b t))
    \<or> (\<exists>sb'. register_journal_blocks mem j b k i n it sb = Ok (sb', Inl MemoryAllocationFailure) \<and> sb_wf sb' \<and> sb_blocks sb' = sb_blocks sb - span k b
       \<and> \<not> (\<forall>l m. mem l m))"
  using it items n sb
proof (induction n arbitrary: i it sb)
  case 0
  then show ?case by auto
next
  case (Suc n)
  let ?head = "if 0 < length (chunk_items it) then Some (chunk_items it ! 0) else None"
  from chunk_it.next_total [OF Suc.prems(1)] obtain it' where it': "chunk_iter_next it = Ok (?head, it')"
    "chunk_state ab [] [] it'" "chunk_items it' = tl (chunk_items it)" by (cases "chunk_items it") auto
  have items': "(case (if t < length (chunk_items it') then Some (chunk_items it' ! t) else None) of None \<Rightarrow> 0 | Some w \<Rightarrow> w) = 0 \<longleftrightarrow> free (Suc i + t)" for t
    using Suc.prems(2) [of "Suc t"] unfolding it'(3) by (cases "chunk_items it") auto
  have n': "Suc i + n \<le> 2 ^ (k - j)" and i: "i < 2 ^ (k - j)" using Suc.prems(3) by simp_all
  note IH = Suc.IH [OF it'(2) items' n']
  have head: "(case ?head of None \<Rightarrow> 0 | Some w \<Rightarrow> w) = 0 \<longleftrightarrow> free i" using Suc.prems(2) [of 0] by simp
  have set: "{t. i \<le> t \<and> t < i + Suc n \<and> free t} = (if free i then {i} else {}) \<union> {t. Suc i \<le> t \<and> t < Suc i + n \<and> free t}"
    by (auto simp: le_eq_less_or_eq)
  show ?case
  proof (cases "free i")
    case False
    have "register_journal_blocks mem j b k i (Suc n) it sb = register_journal_blocks mem j b k (Suc i) n it' sb"
      using it'(1) head False by simp
    then show ?thesis using IH [OF Suc.prems(4)] False unfolding set by simp
  next
    case True
    note pb = piece_block [OF b i]
    have step: "register_journal_blocks mem j b k i (Suc n) it sb =
      and_then (sb_add_block mem sb (b + i * 2 ^ j) (min j k)) (\<lambda>(shared, r).
       case r of
         Inl e \<Rightarrow> and_then (deregister_allocated_block shared b k) (\<lambda>shared. Ok (shared, Inl e))
       | Inr _ \<Rightarrow> register_journal_blocks mem j b k (Suc i) n it' shared)"
      using it'(1) head True pb(3) by simp
    from sb_add_aligned_block [OF Suc.prems(4) pb(1), of mem] show ?thesis
    proof (elim disjE exE conjE)
      fix s1 assume s1: "sb_add_block mem sb (b + i * 2 ^ j) (min j k) = Ok (s1, Inr ())" "sb_wf s1"
        "sb_blocks s1 = sb_blocks sb \<union> span (min j k) (b + i * 2 ^ j)"
      have "sb_blocks s1 - span k b = sb_blocks sb - span k b" using s1(3) pb(2) by (auto simp: piece_def)
      then show ?thesis using IH [OF s1(2)] s1(1,3) True unfolding step set by (auto simp: piece_def Un_assoc)
    next
      assume f: "sb_add_block mem sb (b + i * 2 ^ j) (min j k) = Ok (sb, Inl MemoryAllocationFailure)" and nm: "\<not> (\<forall>l m. mem l m)"
      from deregister_block_spec [OF Suc.prems(4) b] nm show ?thesis unfolding step f by auto
    qed
  qed
qed

lemma free_journal_pieces:
  assumes b: "aligned_block k b"
  shows "(\<Union>t \<in> {t. t < 2 ^ (k - j) \<and> journal_block_free ab j (b div 2 ^ j + t)}. piece j k b t) = span k b \<inter> free_journal_blocks ab j"
proof -
  have fj: "x \<in> free_journal_blocks ab j \<longleftrightarrow> journal_block_free ab j (x div 2 ^ j)" for x
    by (simp add: free_journal_blocks_def journal_block_free_def)
  show ?thesis
  proof (cases "j \<le> k")
    case True
    have al: "2 ^ j dvd b" using b True by (auto simp: aligned_block_def intro: dvd_trans [OF le_imp_power_dvd])
    have dm: "(b + y) div 2 ^ j = b div 2 ^ j + y div 2 ^ j" for y using al by (simp add: div_plus_div_distrib_dvd_left)
    have in_piece: "x \<in> piece j k b t \<longleftrightarrow> b \<le> x \<and> (x - b) div 2 ^ j = t" for x t
      unfolding piece_def div_eq_span using True by (auto simp: min_def)
    have lt: "(x - b) div 2 ^ j < 2 ^ (k - j) \<longleftrightarrow> x < b + 2 ^ k" if "b \<le> x" for x
      using True that by (simp add: div_less_iff_less_mult less_diff_conv2 add.commute flip: power_add)
    have "(\<exists>t. t < 2 ^ (k - j) \<and> journal_block_free ab j (b div 2 ^ j + t) \<and> x \<in> piece j k b t) \<longleftrightarrow> x \<in> span k b \<inter> free_journal_blocks ab j" for x
      unfolding in_piece Int_iff fj using lt [of x] dm [of "x - b"] by auto
    then show ?thesis by blast
  next
    case False
    have "x div 2 ^ j = b div 2 ^ j" if "x \<in> span k b" for x
    proof -
      have kj: "k \<le> j" using False by simp
      obtain q where q: "b = 2 ^ k * q" using b by (auto simp: aligned_block_def)
      have "x div 2 ^ k = q" using that q by (simp add: div_eq_span mult.commute)
      moreover have "y div 2 ^ j = y div 2 ^ k div 2 ^ (j - k)" for y :: nat using kj by (simp add: div_mult2_eq [symmetric] flip: power_add)
      ultimately show ?thesis using q by simp
    qed
    then have same: "x \<in> free_journal_blocks ab j \<longleftrightarrow> journal_block_free ab j (b div 2 ^ j)" if "x \<in> span k b" for x
      using that unfolding fj by metis
    have "span k b \<inter> free_journal_blocks ab j = {x \<in> span k b. journal_block_free ab j (b div 2 ^ j)}" using same by (intro set_eqI) (simp only: Int_iff mem_Collect_eq cong: conj_cong)
    then have "span k b \<inter> free_journal_blocks ab j = (if journal_block_free ab j (b div 2 ^ j) then span k b else {})" by (simp add: atLeastLessThan_def atLeast_def lessThan_def Collect_conj_eq)
    moreover have "piece j k b 0 = span k b" using False by (simp add: piece_def min_def)
    moreover have "{t. t < (2 :: nat) ^ (k - j) \<and> P t} = (if P 0 then {0} else {})" for P using False by auto
    ultimately show ?thesis by simp
  qed
qed

lemma register_block_spec:
  assumes b: "aligned_block k b" and j: "journal_block_log2 (fs_image_layout fs) \<le> 6" and sb: "sb_wf sb"
  shows "(\<exists>sb'. register_allocated_block mem fs sb b k = Ok (sb', Inr ()) \<and> sb_wf sb'
       \<and> sb_blocks sb' = sb_blocks sb \<union> span k b \<inter> free_journal_blocks (fs_alloc_bitmap fs) (journal_block_log2 (fs_image_layout fs)))
    \<or> (\<exists>sb'. register_allocated_block mem fs sb b k = Ok (sb', Inl MemoryAllocationFailure) \<and> sb_wf sb' \<and> sb_blocks sb' = sb_blocks sb - span k b
       \<and> \<not> (\<forall>l m. mem l m))"
proof -
  define j where "j = journal_block_log2 (fs_image_layout fs)"
  have j6: "j \<le> 6" using assms(2) by (simp add: j_def)
  let ?ab = "fs_alloc_bitmap fs"
  have c: "0 < (2 :: nat) ^ j" "(2 :: nat) ^ j \<le> 64" using power_increasing [OF j6, of "2 :: nat"] by simp_all
  have k: "k \<le> 6" and b64: "b < u64_bound" using b by (auto simp: aligned_block_def)
  have ad: "index_align_down b j = b div 2 ^ j * 2 ^ j" using index_align_down_eq [OF b64] .
  have "\<forall>sb \<in> set ([] @ []). sb_wf sb" by simp
  from chunk_iter_start [OF this c, of ?ab "b div 2 ^ j * 2 ^ j"] obtain it where it:
    "chunk_iter_new_at ?ab [] [] (b div 2 ^ j * 2 ^ j) (2 ^ j) = Ok it" "chunk_state ?ab [] [] it"
    "chunk_items it = chunks_of (2 ^ j) (b div 2 ^ j * 2 ^ j mod 64) (map (virtual_word ?ab [] []) [b div 2 ^ j * 2 ^ j div 64..<length (bitmap ?ab)])" by blast
  note items = chunk_zero_iff [OF j6 refl, where ab = ?ab and q = "b div 2 ^ j", folded it(3)]
  have run: "register_allocated_block mem fs sb b k = register_journal_blocks mem j b k 0 (2 ^ (k - j)) it sb"
    using k j6 it(1) ad by (simp add: register_allocated_block_def Let_def flip: j_def)
  show ?thesis
    using register_journal_blocks_spec [OF b j6 it(2), of "\<lambda>t. journal_block_free ?ab j (b div 2 ^ j + t)" 0 "2 ^ (k - j)" sb mem] items sb
    unfolding run j_def [symmetric] free_journal_pieces [OF b, symmetric] by simp
qed

definition fs_ok :: "fs_sync_state \<Rightarrow> bool" where
  "fs_ok fs \<longleftrightarrow> journal_block_log2 (fs_image_layout fs) \<le> 6 \<and> 0 < fs_image_size fs \<and> fs_image_size fs < 2 ^ 57
     \<and> fs_image_size fs \<le> 64 * length (bitmap (fs_alloc_bitmap fs))"

abbreviation precommit_blocks :: "fs_sync_state \<Rightarrow> nat set" where
  "precommit_blocks fs \<equiv> free_journal_blocks (fs_alloc_bitmap fs) (journal_block_log2 (fs_image_layout fs))"

abbreviation spans :: "nat \<Rightarrow> nat list \<Rightarrow> nat set" where
  "spans k bs \<equiv> (\<Union>b \<in> set bs. span k b)"

lemma register_blocks_loop_spec:
  assumes fs: "fs_ok fs" and "sb_wf sb" "\<forall>b \<in> set (reg @ bs). aligned_block k b"
  shows "(\<exists>sb'. register_blocks_loop mem fs reg sb bs k = Ok (sb', Inr ()) \<and> sb_wf sb'
       \<and> sb_blocks sb' = sb_blocks sb \<union> spans k bs \<inter> precommit_blocks fs)
    \<or> (\<exists>sb'. register_blocks_loop mem fs reg sb bs k = Ok (sb', Inl MemoryAllocationFailure) \<and> sb_wf sb'
       \<and> sb_blocks sb - spans k (reg @ bs) \<subseteq> sb_blocks sb' \<and> sb_blocks sb' \<subseteq> sb_blocks sb - spans k reg
       \<and> \<not> (\<forall>l m. mem l m))"
  using assms(2,3)
proof (induction bs arbitrary: sb reg)
  case Nil
  then show ?case by simp
next
  case (Cons b bs)
  have j: "journal_block_log2 (fs_image_layout fs) \<le> 6" using fs by (simp add: fs_ok_def)
  have b: "aligned_block k b" using Cons.prems(2) by simp
  from register_block_spec [OF b j Cons.prems(1), of mem] show ?case
  proof (elim disjE exE conjE)
    fix s1 assume s1: "register_allocated_block mem fs sb b k = Ok (s1, Inr ())" "sb_wf s1" "sb_blocks s1 = sb_blocks sb \<union> span k b \<inter> precommit_blocks fs"
    have "\<forall>a \<in> set ((reg @ [b]) @ bs). aligned_block k a" using Cons.prems(2) by simp
    from Cons.IH [OF s1(2) this] show ?thesis
    proof (elim disjE exE conjE)
      fix s2 assume "register_blocks_loop mem fs (reg @ [b]) s1 bs k = Ok (s2, Inr ())" "sb_wf s2" "sb_blocks s2 = sb_blocks s1 \<union> spans k bs \<inter> precommit_blocks fs"
      then show ?thesis using s1 by auto
    next
      fix s2 assume s2: "register_blocks_loop mem fs (reg @ [b]) s1 bs k = Ok (s2, Inl MemoryAllocationFailure)" "sb_wf s2"
        "sb_blocks s1 - spans k ((reg @ [b]) @ bs) \<subseteq> sb_blocks s2" "sb_blocks s2 \<subseteq> sb_blocks s1 - spans k (reg @ [b])"
        and nm: "\<not> (\<forall>l m. mem l m)"
      have "sb_blocks sb - spans k (reg @ b # bs) \<subseteq> sb_blocks s2" using s2(3) s1(3) by auto
      moreover have "sb_blocks s2 \<subseteq> sb_blocks sb - spans k reg" using s2(4) s1(3) by auto
      ultimately show ?thesis using s1(1) s2(1,2) nm by auto
    qed
  next
    fix s1 assume s1: "register_allocated_block mem fs sb b k = Ok (s1, Inl MemoryAllocationFailure)" "sb_wf s1" "sb_blocks s1 = sb_blocks sb - span k b"
      and nm: "\<not> (\<forall>l m. mem l m)"
    from deregister_blocks_spec [OF s1(2), of reg k] Cons.prems(2) obtain s2 where s2: "deregister_allocated_blocks s1 reg k = Ok s2" "sb_wf s2"
      "sb_blocks s2 = sb_blocks s1 - spans k reg" by auto
    have "sb_blocks sb - spans k (reg @ b # bs) \<subseteq> sb_blocks s2" "sb_blocks s2 \<subseteq> sb_blocks sb - spans k reg" using s1(3) s2(3) by auto
    then show ?thesis using s1(1) s2(1,2) nm by auto
  qed
qed

section \<open>Finding several free blocks\<close>

definition tr_wf :: "transaction_allocs \<Rightarrow> bool" where
  "tr_wf tr \<longleftrightarrow> sb_wf (ta_pending_allocs tr) \<and> sb_wf (ta_pending_frees tr) \<and> sb_wf (ta_journal_allocs tr) \<and> sb_wf (ta_journal_frees tr)
     \<and> (sb_blocks (ta_pending_allocs tr) \<union> sb_blocks (ta_journal_allocs tr)) \<inter> (sb_blocks (ta_pending_frees tr) \<union> sb_blocks (ta_journal_frees tr)) = {}"

text \<open>The blocks a transaction may not allocate, and the aligned blocks that it may.\<close>

definition taken_for :: "fs_sync_state \<Rightarrow> sparse_alloc_bitmap \<Rightarrow> transaction_allocs \<Rightarrow> allocation_constraints \<Rightarrow> nat set" where
  "taken_for fs shared tr c =
     (ab_blocks (fs_alloc_bitmap fs) \<union> sb_blocks (ta_pending_allocs tr) \<union> sb_blocks (ta_journal_allocs tr) \<union> sb_blocks shared)
     - (sb_blocks (constrained_frees c tr) \<union> sb_blocks (ta_journal_frees tr)) \<union> {fs_image_size fs..}"

definition free_for :: "fs_sync_state \<Rightarrow> sparse_alloc_bitmap \<Rightarrow> transaction_allocs \<Rightarrow> allocation_constraints \<Rightarrow> nat \<Rightarrow> nat set" where
  "free_for fs shared tr c k = {b. 2 ^ k dvd b \<and> span k b \<inter> taken_for fs shared tr c = {}}"

lemma free_for_bound: "b \<in> free_for fs shared tr c k \<Longrightarrow> b < fs_image_size fs \<and> b + 2 ^ k \<le> fs_image_size fs"
proof -
  assume "b \<in> free_for fs shared tr c k"
  then have e: "span k b \<inter> {fs_image_size fs..} = {}" by (auto simp: free_for_def taken_for_def)
  have "b + 2 ^ k \<le> fs_image_size fs"
  proof (rule ccontr)
    assume "\<not> b + 2 ^ k \<le> fs_image_size fs"
    then have "max b (fs_image_size fs) \<in> span k b \<inter> {fs_image_size fs..}" by (simp add: max_def)
    then show False using e by blast
  qed
  moreover have "b < b + 2 ^ k" by simp
  ultimately show "b < fs_image_size fs \<and> b + 2 ^ k \<le> fs_image_size fs" by linarith
qed

lemma finite_free_for: "finite (free_for fs shared tr c k)"
  by (rule finite_subset [of _ "{..<fs_image_size fs}"]) (auto dest: free_for_bound)

lemma free_for_aligned: "fs_ok fs \<Longrightarrow> k \<le> 6 \<Longrightarrow> b \<in> free_for fs shared tr c k \<Longrightarrow> aligned_block k b"
  using free_for_bound [of b fs shared tr c k] by (auto simp: aligned_block_def free_for_def fs_ok_def)

lemma aligned_spans_meet:
  assumes "2 ^ k dvd a" "2 ^ k dvd b" "span k a \<inter> span k b \<noteq> {}"
  shows "a = (b :: nat)"
proof -
  obtain x where x: "x \<in> span k a" "x \<in> span k b" using assms(3) by blast
  obtain p q where pq: "a = 2 ^ k * p" "b = 2 ^ k * q" using assms(1,2) by blast
  have "x div 2 ^ k = p" "x div 2 ^ k = q" using x pq by (simp_all add: div_eq_span mult.commute)
  then show ?thesis using pq by simp
qed

lemma find_for_transaction_spec:
  assumes fs: "fs_ok fs" and tr: "tr_wf tr" "sb_wf shared" and k: "k \<le> 6"
    and bs: "sorted bs" "set bs \<subseteq> free_for fs shared tr c k" and st: "start = None \<or> start = Some (last bs) \<and> bs \<noteq> []"
  shows "\<exists>r. find_for_transaction fs shared tr c k bs start = Ok r
    \<and> (case r of None \<Rightarrow> free_for fs shared tr c k \<subseteq> set bs | Some b \<Rightarrow> b \<in> free_for fs shared tr c k - set bs)"
proof -
  let ?allocs = "[ta_pending_allocs tr, ta_journal_allocs tr, shared]" and ?frees = "[constrained_frees c tr, ta_journal_frees tr]"
  let ?ab = "fs_alloc_bitmap fs" and ?N = "fs_image_size fs"
  have cf: "sb_wf (constrained_frees c tr)" using tr(1) by (cases c) (simp_all add: tr_wf_def constrained_frees_def sb_wf_def sb_new_def sb_sorted_def)
  have T: "taken_blocks ?ab ?allocs ?frees k bs ?N = taken_for fs shared tr c \<union> spans k bs"
    by (auto simp: taken_blocks_def virtual_blocks_def taken_for_def)
  have "last bs < ?N" if "bs \<noteq> []" using bs(2) that free_for_bound by (meson last_in_set subsetD)
  then have ok: "find_args_ok ?ab k bs None ?allocs ?frees ?N start"
    using fs tr cf k bs st by (auto simp: find_args_ok_def fs_ok_def tr_wf_def chunks_ok_def chunk_blocks_def free_for_def)
  from find_free_block_spec [OF ok, of True] obtain r where r: "find_for_transaction fs shared tr c k bs start = Ok r"
    "free_block_result k (taken_for fs shared tr c \<union> spans k bs) r" by (auto simp: find_for_transaction_def T chunk_blocks_def)
  have al: "2 ^ k dvd b" if "b \<in> set bs" for b using bs(2) that by (auto simp: free_for_def)
  have self: "span k b \<noteq> {}" for b by simp
  have "case r of None \<Rightarrow> free_for fs shared tr c k \<subseteq> set bs | Some b \<Rightarrow> b \<in> free_for fs shared tr c k - set bs"
  proof (cases r)
    case None
    have "b \<in> set bs" if b: "b \<in> free_for fs shared tr c k" for b
    proof -
      have b': "2 ^ k dvd b" "span k b \<inter> taken_for fs shared tr c = {}" using b by (simp_all add: free_for_def)
      then have "span k b \<inter> spans k bs \<noteq> {}" using r(2) None by (auto simp: free_block_result_def Int_Un_distrib)
      then obtain b'' where "b'' \<in> set bs" "span k b \<inter> span k b'' \<noteq> {}" by blast
      then show ?thesis using aligned_spans_meet [OF b'(1) al] by metis
    qed
    then show ?thesis using None by auto
  next
    case (Some b)
    then have b: "2 ^ k dvd b" "span k b \<inter> taken_for fs shared tr c = {}" "span k b \<inter> spans k bs = {}"
      using r(2) by (auto simp: free_block_result_def Int_Un_distrib)
    have "b \<notin> set bs" using b(3) self [of b] by blast
    then show ?thesis using Some b by (simp add: free_for_def)
  qed
  then show ?thesis using r(1) by blast
qed

lemma sorted_insert_mid:
  "sorted xs \<Longrightarrow> sorted ys \<Longrightarrow> (\<And>y. y \<in> set xs \<Longrightarrow> y \<le> x) \<Longrightarrow> (\<And>y. y \<in> set ys \<Longrightarrow> x \<le> y) \<Longrightarrow> sorted (xs @ x # ys)"
  by (auto simp: sorted_append intro: order_trans)

lemma binary_search_absent:
  assumes "sorted bs" "x \<notin> set bs"
  shows "\<exists>ys. binary_search bs x = Inl (partition_point (\<lambda>y. y < x) bs) \<and> vec_insert bs (partition_point (\<lambda>y. y < x) bs) x = Ok ys
    \<and> sorted ys \<and> set ys = insert x (set bs) \<and> length ys = Suc (length bs)"
proof -
  define p where "p = partition_point (\<lambda>y. y < x) bs"
  let ?ys = "take p bs @ x # drop p bs"
  have lo: "y \<le> x" if y: "y \<in> set (take p bs)" for y
  proof -
    obtain q where "q < p" "y = bs ! q" using take_set_D [OF y] by auto
    then show ?thesis using partition_point_before [of q "\<lambda>y. y < x" bs] by (simp add: p_def)
  qed
  have hi: "x \<le> y" if y: "y \<in> set (drop p bs)" for y
  proof -
    obtain q where q: "p \<le> q" "q < length bs" "y = bs ! q" using drop_set_D [OF y] by blast
    have "\<not> bs ! p < x" using partition_point_at [of "\<lambda>y. y < x" bs] q(1,2) by (simp add: p_def)
    then show ?thesis using sorted_nth_mono [OF assms(1) q(1,2)] q(3) by simp
  qed
  have "\<not> (p < length bs \<and> bs ! p = x)" using assms(2) by (metis nth_mem)
  then have "binary_search bs x = Inl p" unfolding binary_search_def Let_def p_def by (rule if_not_P)
  moreover have "p \<le> length bs" by (simp add: p_def)
  then have "vec_insert bs p x = Ok ?ys" by (simp add: vec_insert_def)
  moreover have "sorted ?ys" by (rule sorted_insert_mid [OF _ _ lo hi]) (use assms(1) in \<open>simp_all add: sorted_wrt_take sorted_wrt_drop\<close>)
  moreover have "set ?ys = insert x (set bs)" by (metis append_take_drop_id set_append list.set(2) Un_insert_right)
  moreover have "length ?ys = Suc (length bs)" by simp
  ultimately show ?thesis unfolding p_def [symmetric] by blast
qed

lemma allocate_blocks_loop_spec:
  assumes fs: "fs_ok fs" and tr: "tr_wf tr" "sb_wf shared" and k: "k \<le> 6"
    and "sorted bs" "distinct bs" "set bs \<subseteq> free_for fs shared tr c k" "length bs \<le> num"
  shows "if num \<le> card (free_for fs shared tr c k)
    then \<exists>bs'. allocate_blocks_loop fs shared tr c k num bs = Ok bs' \<and> sorted bs' \<and> distinct bs' \<and> set bs' \<subseteq> free_for fs shared tr c k \<and> length bs' = num
    else allocate_blocks_loop fs shared tr c k num bs = Err NoSpace"
  using assms(5-)
proof (induction "num - length bs" arbitrary: bs)
  case 0
  then have "card (set bs) \<le> card (free_for fs shared tr c k)" by (intro card_mono finite_free_for)
  moreover have "allocate_blocks_loop fs shared tr c k num bs = Ok bs" using 0 by (subst allocate_blocks_loop.simps) simp
  ultimately show ?case using 0 by (auto simp: distinct_card)
next
  case (Suc n)
  let ?F = "free_for fs shared tr c k"
  have lt: "length bs < num" using Suc.hyps(2) by simp
  have "(if bs = [] then None else Some (last bs)) = None \<or> (if bs = [] then None else Some (last bs)) = Some (last bs) \<and> bs \<noteq> []" by simp
  from find_for_transaction_spec [OF fs tr k Suc.prems(1,3) this] obtain r where
    r: "find_for_transaction fs shared tr c k bs (if bs = [] then None else Some (last bs)) = Ok r"
    "case r of None \<Rightarrow> ?F \<subseteq> set bs | Some b \<Rightarrow> b \<in> ?F - set bs" by blast
  show ?case
  proof (cases r)
    case None
    then have "card ?F \<le> card (set bs)" using r(2) by (intro card_mono) auto
    then have "\<not> num \<le> card ?F" using lt card_length [of bs] by simp
    then show ?thesis using r(1) None lt by (simp add: allocate_blocks_loop.simps [of fs shared tr c k num bs])
  next
    case (Some b)
    then have b: "b \<in> ?F" "b \<notin> set bs" using r(2) by auto
    from binary_search_absent [OF Suc.prems(1) b(2)] obtain ys where ys: "binary_search bs b = Inl (partition_point (\<lambda>y. y < b) bs)"
      "vec_insert bs (partition_point (\<lambda>y. y < b) bs) b = Ok ys" "sorted ys" "set ys = insert b (set bs)" "length ys = Suc (length bs)" by blast
    have step: "allocate_blocks_loop fs shared tr c k num bs = allocate_blocks_loop fs shared tr c k num ys"
      using r(1) Some lt ys(1,2) by (simp add: allocate_blocks_loop.simps [of fs shared tr c k num bs])
    have "distinct ys" using ys(4,5) Suc.prems(2) b(2) by (intro card_distinct) (simp add: distinct_card)
    moreover have "set ys \<subseteq> ?F" using ys(4) b(1) Suc.prems(3) by simp
    moreover have "n = num - length ys" "length ys \<le> num" using Suc.hyps(2) ys(5) by simp_all
    ultimately show ?thesis using Suc.hyps(1) [of ys] ys(3) unfolding step by blast
  qed
qed

section \<open>What the handlers do\<close>

definition recorded :: "allocation_constraints \<Rightarrow> transaction_allocs \<Rightarrow> nat set \<Rightarrow> transaction_allocs \<Rightarrow> bool" where
  "recorded c tr B tr' \<longleftrightarrow> tr_wf tr'
     \<and> sb_blocks (ta_pending_allocs tr') = sb_blocks (ta_pending_allocs tr) \<union> (if c = Journal then {} else B)
     \<and> sb_blocks (ta_journal_allocs tr') = sb_blocks (ta_journal_allocs tr) \<union> (if c = Journal then B else {})
     \<and> sb_blocks (ta_pending_frees tr') = sb_blocks (ta_pending_frees tr) - B
     \<and> sb_blocks (ta_journal_frees tr') = sb_blocks (ta_journal_frees tr) - B"

lemma tr_wfD:
  assumes "tr_wf tr"
  shows "sb_wf (ta_pending_allocs tr)" "sb_wf (ta_pending_frees tr)" "sb_wf (ta_journal_allocs tr)" "sb_wf (ta_journal_frees tr)"
    "(sb_blocks (ta_pending_allocs tr) \<union> sb_blocks (ta_journal_allocs tr)) \<inter> (sb_blocks (ta_pending_frees tr) \<union> sb_blocks (ta_journal_frees tr)) = {}"
  using assms by (simp_all add: tr_wf_def)

lemma free_for_span:
  assumes tr: "tr_wf tr" and b: "b \<in> free_for fs shared tr c k"
  shows "span k b \<inter> (sb_blocks (ta_pending_allocs tr) \<union> sb_blocks (ta_journal_allocs tr)) = {}"
    and "span k b \<inter> sb_blocks shared \<subseteq> sb_blocks (ta_pending_frees tr) \<union> sb_blocks (ta_journal_frees tr)"
    and "span k b \<inter> sb_blocks shared \<subseteq> sb_blocks (constrained_frees c tr) \<union> sb_blocks (ta_journal_frees tr)"
proof -
  have cf: "sb_blocks (constrained_frees c tr) \<subseteq> sb_blocks (ta_pending_frees tr)"
    by (cases c) (simp_all add: constrained_frees_def sb_new_def sb_blocks_def entry_bits_def)
  have "x \<in> span k b \<Longrightarrow> x \<notin> taken_for fs shared tr c" for x using b by (auto simp: free_for_def)
  then have f: "x \<in> sb_blocks (constrained_frees c tr) \<union> sb_blocks (ta_journal_frees tr)"
    if "x \<in> span k b" "x \<in> sb_blocks (ta_pending_allocs tr) \<union> sb_blocks (ta_journal_allocs tr) \<union> sb_blocks shared" for x
    using that unfolding taken_for_def by blast
  show "span k b \<inter> (sb_blocks (ta_pending_allocs tr) \<union> sb_blocks (ta_journal_allocs tr)) = {}"
    using f cf tr_wfD(5) [OF tr] by blast
  show "span k b \<inter> sb_blocks shared \<subseteq> sb_blocks (ta_pending_frees tr) \<union> sb_blocks (ta_journal_frees tr)"
    using f cf by blast
  show "span k b \<inter> sb_blocks shared \<subseteq> sb_blocks (constrained_frees c tr) \<union> sb_blocks (ta_journal_frees tr)"
    using f by blast
qed

lemma recordedI:
  assumes tr: "tr_wf tr" and dj: "B \<inter> (sb_blocks (ta_pending_allocs tr) \<union> sb_blocks (ta_journal_allocs tr)) = {}"
    and al: "sb_wf sb" "sb_blocks sb = sb_blocks (if c = Journal then ta_journal_allocs tr else ta_pending_allocs tr) \<union> B"
    and fr: "sb_wf pf" "sb_blocks pf = sb_blocks (ta_pending_frees tr) - B" "sb_wf jf" "sb_blocks jf = sb_blocks (ta_journal_frees tr) - B"
  shows "recorded c tr B ((if c = Journal then tr\<lparr>ta_journal_allocs := sb\<rparr> else tr\<lparr>ta_pending_allocs := sb\<rparr>)\<lparr>ta_pending_frees := pf, ta_journal_frees := jf\<rparr>)"
  using tr_wfD [OF tr] al fr unfolding recorded_def tr_wf_def by (cases "c = Journal") auto

lemma record_block_spec:
  assumes tr: "tr_wf tr" and b: "aligned_block k b"
  shows "(\<exists>sb. record_block mem tr c b k = Ok (if c = Journal then tr\<lparr>ta_journal_allocs := sb\<rparr> else tr\<lparr>ta_pending_allocs := sb\<rparr>, Inr ())
       \<and> sb_wf sb \<and> sb_blocks sb = sb_blocks (if c = Journal then ta_journal_allocs tr else ta_pending_allocs tr) \<union> span k b)
    \<or> record_block mem tr c b k = Ok (tr, Inl MemoryAllocationFailure) \<and> \<not> (\<forall>l m. mem l m)"
proof -
  have "sb_wf (if c = Journal then ta_journal_allocs tr else ta_pending_allocs tr)" using tr_wfD [OF tr] by simp
  from sb_add_aligned_block [OF this b, of mem] show ?thesis by (cases c) (auto simp: record_block_def)
qed

lemma allocate_block_spec:
  assumes fs: "fs_ok fs" and tr: "tr_wf tr" "sb_wf shared" and k: "k \<le> 6"
  shows "(free_for fs shared tr c k = {} \<and> allocate_block mem_shared mem_tr fs shared (Some tr) k c = Ok (shared, Inr (tr, Inl NoSpace)))
    \<or> (\<exists>b \<in> free_for fs shared tr c k. \<exists>shared' tr'. allocate_block mem_shared mem_tr fs shared (Some tr) k c = Ok (shared', Inr (tr', Inr b))
        \<and> sb_wf shared' \<and> sb_blocks shared' = sb_blocks shared \<union> span k b \<inter> precommit_blocks fs \<and> recorded c tr (span k b) tr')
    \<or> (\<exists>b \<in> free_for fs shared tr c k. \<exists>shared'. allocate_block mem_shared mem_tr fs shared (Some tr) k c = Ok (shared', Inr (tr, Inl MemoryAllocationFailure))
        \<and> sb_wf shared' \<and> sb_blocks shared' = sb_blocks shared - span k b \<and> \<not> ((\<forall>l m. mem_shared l m) \<and> (\<forall>l m. mem_tr l m)))"
proof -
  have "sorted []" "set [] \<subseteq> free_for fs shared tr c k" "(None :: nat option) = None \<or> None = Some (last []) \<and> [] \<noteq> ([] :: nat list)" by simp_all
  from find_for_transaction_spec [OF fs tr k this] obtain r where r: "find_for_transaction fs shared tr c k [] None = Ok r"
    "case r of None \<Rightarrow> free_for fs shared tr c k \<subseteq> set [] | Some b \<Rightarrow> b \<in> free_for fs shared tr c k - set []" by blast
  show ?thesis
  proof (cases r)
    case None
    then show ?thesis using r by (simp add: allocate_block_def)
  next
    case (Some b)
    then have b: "b \<in> free_for fs shared tr c k" using r(2) by simp
    note al = free_for_aligned [OF fs k b]
    have j: "journal_block_log2 (fs_image_layout fs) \<le> 6" using fs by (simp add: fs_ok_def)
    from register_block_spec [OF al j tr(2), of mem_shared] show ?thesis
    proof (elim disjE exE conjE)
      fix s1 assume "register_allocated_block mem_shared fs shared b k = Ok (s1, Inl MemoryAllocationFailure)" "sb_wf s1" "sb_blocks s1 = sb_blocks shared - span k b"
        "\<not> (\<forall>l m. mem_shared l m)"
      then show ?thesis using r(1) Some b by (auto simp: allocate_block_def)
    next
      fix s1 assume s1: "register_allocated_block mem_shared fs shared b k = Ok (s1, Inr ())" "sb_wf s1"
        "sb_blocks s1 = sb_blocks shared \<union> span k b \<inter> precommit_blocks fs"
      from record_block_spec [OF tr(1) al, of mem_tr c] show ?thesis
      proof (elim disjE exE conjE)
        assume f: "record_block mem_tr tr c b k = Ok (tr, Inl MemoryAllocationFailure)" and nm: "\<not> (\<forall>l m. mem_tr l m)"
        from deregister_block_spec [OF s1(2) al] obtain s2 where s2: "deregister_allocated_block s1 b k = Ok s2" "sb_wf s2" "sb_blocks s2 = sb_blocks s1 - span k b" by blast
        have "allocate_block mem_shared mem_tr fs shared (Some tr) k c = Ok (s2, Inr (tr, Inl MemoryAllocationFailure))"
          using r(1) Some s1(1) f s2(1) by (simp add: allocate_block_def)
        moreover have "sb_blocks s2 = sb_blocks shared - span k b" using s1(3) s2(3) by auto
        ultimately show ?thesis using b s2(2) nm by blast
      next
        fix sb assume sb: "record_block mem_tr tr c b k = Ok (if c = Journal then tr\<lparr>ta_journal_allocs := sb\<rparr> else tr\<lparr>ta_pending_allocs := sb\<rparr>, Inr ())"
          "sb_wf sb" "sb_blocks sb = sb_blocks (if c = Journal then ta_journal_allocs tr else ta_pending_allocs tr) \<union> span k b"
        let ?tr = "if c = Journal then tr\<lparr>ta_journal_allocs := sb\<rparr> else tr\<lparr>ta_pending_allocs := sb\<rparr>"
        have keep: "ta_pending_frees ?tr = ta_pending_frees tr" "ta_journal_frees ?tr = ta_journal_frees tr" by simp_all
        from sb_remove_aligned_block [OF tr_wfD(2) [OF tr(1)] al] sb_remove_aligned_block [OF tr_wfD(4) [OF tr(1)] al] obtain pf jf where
          fr: "sb_remove_block (ta_pending_frees tr) b k = Ok pf" "sb_wf pf" "sb_blocks pf = sb_blocks (ta_pending_frees tr) - span k b"
          "sb_remove_block (ta_journal_frees tr) b k = Ok jf" "sb_wf jf" "sb_blocks jf = sb_blocks (ta_journal_frees tr) - span k b" by blast
        have "allocate_block mem_shared mem_tr fs shared (Some tr) k c = Ok (s1, Inr (?tr\<lparr>ta_pending_frees := pf, ta_journal_frees := jf\<rparr>, Inr b))"
          using r(1) Some s1(1) sb(1) fr(1,4) unfolding allocate_block_def by (simp add: keep split del: if_split)
        moreover have "recorded c tr (span k b) (?tr\<lparr>ta_pending_frees := pf, ta_journal_frees := jf\<rparr>)"
          using recordedI [OF tr(1) free_for_span(1) [OF tr(1) b] sb(2,3) fr(2,3,5,6)] .
        ultimately show ?thesis using b s1(2,3) by blast
      qed
    qed
  qed
qed

lemma spans_blocks_of: "blocks_of (map (block_at k) bs) = spans k bs"
  by (simp add: blocks_of_def)

lemma aligned_pairwise_disjoint:
  assumes "distinct bs" "\<forall>b \<in> set bs. aligned_block k b"
  shows "pairwise_disjoint (map (block_at k) bs)"
  using assms
proof (induction bs)
  case (Cons b bs)
  have "span k b \<inter> spans k bs = {}"
  proof (rule ccontr)
    assume "span k b \<inter> spans k bs \<noteq> {}"
    then obtain b' where b': "b' \<in> set bs" "span k b \<inter> span k b' \<noteq> {}" by blast
    moreover have "2 ^ k dvd b" "2 ^ k dvd b'" using Cons.prems(2) b'(1) by (auto simp: aligned_block_def)
    ultimately have "b = b'" using aligned_spans_meet by blast
    then show False using b'(1) Cons.prems(1) by simp
  qed
  then show ?case using Cons by (auto simp: spans_blocks_of)
qed simp

lemma sb_add_blocks_memory:
  assumes "sb_wf sb" "\<forall>b \<in> set bs. aligned_block k b" "\<forall>l m. mem l m"
  shows "\<exists>sb'. sb_add_blocks mem sb bs k = Ok (sb', Inr ())"
proof -
  have "\<exists>sb'. sb_add_blocks_loop mem added sb bs k = Ok (sb', Inr ())" for added using assms(1,2)
  proof (induction bs arbitrary: sb added)
    case (Cons b bs)
    from sb_add_aligned_block [OF Cons.prems(1), of k b mem] Cons.prems(2) assms(3) obtain s1
      where "sb_add_block mem sb b k = Ok (s1, Inr ())" "sb_wf s1" by auto
    then show ?case using Cons by simp
  qed simp
  then show ?thesis by (simp add: sb_add_blocks_def)
qed

lemma record_blocks_spec:
  assumes tr: "tr_wf tr" and bs: "distinct bs" "set bs \<subseteq> free_for fs shared tr c k" "\<forall>b \<in> set bs. aligned_block k b"
  shows "(\<exists>sb. record_blocks mem tr c bs k = Ok (if c = Journal then tr\<lparr>ta_journal_allocs := sb\<rparr> else tr\<lparr>ta_pending_allocs := sb\<rparr>, Inr ())
       \<and> sb_wf sb \<and> sb_blocks sb = sb_blocks (if c = Journal then ta_journal_allocs tr else ta_pending_allocs tr) \<union> spans k bs)
    \<or> record_blocks mem tr c bs k = Ok (tr, Inl MemoryAllocationFailure) \<and> \<not> (\<forall>l m. mem l m)"
proof -
  let ?sb = "if c = Journal then ta_journal_allocs tr else ta_pending_allocs tr"
  have wf: "sb_wf ?sb" using tr_wfD [OF tr] by simp
  have "span k b \<inter> sb_blocks ?sb = {}" if "b \<in> set bs" for b using free_for_span(1) [OF tr, of b fs shared c k] bs(2) that by auto
  then have dj: "sb_blocks ?sb \<inter> blocks_of (map (block_at k) bs) = {}" unfolding spans_blocks_of by blast
  have ok: "\<forall>b \<in> set bs. block_ok k b" using bs(3) aligned_block_ok by blast
  from sb_add_blocks_spec [OF wf ok dj aligned_pairwise_disjoint [OF bs(1,3)], of mem] sb_add_blocks_memory [OF wf bs(3), of mem]
  show ?thesis unfolding spans_blocks_of by (cases c) (auto simp: record_blocks_def)
qed

lemma commit_found_blocks_spec:
  assumes fs: "fs_ok fs" and tr: "tr_wf tr" "sb_wf shared" and k: "k \<le> 6" and bs: "distinct bs" "set bs \<subseteq> free_for fs shared tr c k"
  shows "(\<exists>shared' tr'. commit_found_blocks mem_shared mem_tr fs shared tr k bs c = Ok (shared', Inr (tr', Inr bs))
        \<and> sb_wf shared' \<and> sb_blocks shared' = sb_blocks shared \<union> spans k bs \<inter> precommit_blocks fs \<and> recorded c tr (spans k bs) tr')
    \<or> (\<exists>shared'. commit_found_blocks mem_shared mem_tr fs shared tr k bs c = Ok (shared', Inr (tr, Inl MemoryAllocationFailure))
        \<and> sb_wf shared' \<and> sb_blocks shared - spans k bs \<subseteq> sb_blocks shared' \<and> sb_blocks shared' \<subseteq> sb_blocks shared
        \<and> \<not> ((\<forall>l m. mem_shared l m) \<and> (\<forall>l m. mem_tr l m)))"
proof -
  let ?run = "commit_found_blocks mem_shared mem_tr fs shared tr k bs c"
  have al: "\<forall>b \<in> set bs. aligned_block k b" using free_for_aligned [OF fs k] bs(2) by blast
  then have "\<forall>b \<in> set ([] @ bs). aligned_block k b" by simp
  from register_blocks_loop_spec [OF fs tr(2) this, of mem_shared] show ?thesis
    unfolding append_Nil register_allocated_blocks_def [symmetric]
  proof (elim disjE exE conjE)
    fix s1 assume s1: "register_allocated_blocks mem_shared fs shared bs k = Ok (s1, Inl MemoryAllocationFailure)" "sb_wf s1"
      "sb_blocks shared - spans k bs \<subseteq> sb_blocks s1" "sb_blocks s1 \<subseteq> sb_blocks shared - spans k []"
      and nm: "\<not> (\<forall>l m. mem_shared l m)"
    from s1(1) have "?run = Ok (s1, Inr (tr, Inl MemoryAllocationFailure))" by (simp add: commit_found_blocks_def)
    moreover have "sb_blocks s1 \<subseteq> sb_blocks shared" using s1(4) by simp
    ultimately show ?thesis using s1(2,3) nm by blast
  next
    fix s1 assume s1: "register_allocated_blocks mem_shared fs shared bs k = Ok (s1, Inr ())" "sb_wf s1"
      "sb_blocks s1 = sb_blocks shared \<union> spans k bs \<inter> precommit_blocks fs"
    from record_blocks_spec [OF tr(1) bs al, of mem_tr] show ?thesis
    proof (elim disjE exE conjE)
      assume f: "record_blocks mem_tr tr c bs k = Ok (tr, Inl MemoryAllocationFailure)" and nm: "\<not> (\<forall>l m. mem_tr l m)"
      from deregister_blocks_spec [OF s1(2) al] obtain s2 where s2: "deregister_allocated_blocks s1 bs k = Ok s2" "sb_wf s2"
        "sb_blocks s2 = sb_blocks s1 - spans k bs" by blast
      have "?run = Ok (s2, Inr (tr, Inl MemoryAllocationFailure))" using s1(1) f s2(1) by (simp add: commit_found_blocks_def)
      moreover have "sb_blocks shared - spans k bs \<subseteq> sb_blocks s2" "sb_blocks s2 \<subseteq> sb_blocks shared" using s1(3) s2(3) by blast+
      ultimately show ?thesis using s2(2) nm by blast
    next
      fix sb assume sb: "record_blocks mem_tr tr c bs k = Ok (if c = Journal then tr\<lparr>ta_journal_allocs := sb\<rparr> else tr\<lparr>ta_pending_allocs := sb\<rparr>, Inr ())"
        "sb_wf sb" "sb_blocks sb = sb_blocks (if c = Journal then ta_journal_allocs tr else ta_pending_allocs tr) \<union> spans k bs"
      let ?tr = "if c = Journal then tr\<lparr>ta_journal_allocs := sb\<rparr> else tr\<lparr>ta_pending_allocs := sb\<rparr>"
      have keep: "ta_pending_frees ?tr = ta_pending_frees tr" "ta_journal_frees ?tr = ta_journal_frees tr" by simp_all
      have bok: "\<forall>b \<in> set bs. block_ok k b" using al aligned_block_ok by blast
      from sb_remove_blocks_spec [OF tr_wfD(2) [OF tr(1)] bok] sb_remove_blocks_spec [OF tr_wfD(4) [OF tr(1)] bok] obtain pf jf where
        fr: "sb_remove_blocks (ta_pending_frees tr) bs k = Ok pf" "sb_wf pf" "sb_blocks pf = sb_blocks (ta_pending_frees tr) - spans k bs"
        "sb_remove_blocks (ta_journal_frees tr) bs k = Ok jf" "sb_wf jf" "sb_blocks jf = sb_blocks (ta_journal_frees tr) - spans k bs"
        unfolding spans_blocks_of by blast
      have dj: "spans k bs \<inter> (sb_blocks (ta_pending_allocs tr) \<union> sb_blocks (ta_journal_allocs tr)) = {}"
        using free_for_span(1) [OF tr(1)] bs(2) by blast
      have "?run = Ok (s1, Inr (?tr\<lparr>ta_pending_frees := pf, ta_journal_frees := jf\<rparr>, Inr bs))"
        using s1(1) sb(1) fr(1,4) unfolding commit_found_blocks_def by (simp add: keep split del: if_split)
      moreover have "recorded c tr (spans k bs) (?tr\<lparr>ta_pending_frees := pf, ta_journal_frees := jf\<rparr>)"
        using recordedI [OF tr(1) dj sb(2,3) fr(2,3,5,6)] .
      ultimately show ?thesis using s1(2,3) by blast
    qed
  qed
qed

lemma allocate_blocks_spec:
  assumes fs: "fs_ok fs" and tr: "tr_wf tr" "sb_wf shared" and k: "k \<le> 6"
  shows "(card (free_for fs shared tr c k) < num \<and> allocate_blocks mem_shared mem_tr fs shared (Some tr) k num c = Ok (shared, Inl NoSpace))
    \<or> (\<exists>bs shared' tr'. allocate_blocks mem_shared mem_tr fs shared (Some tr) k num c = Ok (shared', Inr (tr', Inr bs))
        \<and> sorted bs \<and> distinct bs \<and> length bs = num \<and> set bs \<subseteq> free_for fs shared tr c k
        \<and> sb_wf shared' \<and> sb_blocks shared' = sb_blocks shared \<union> spans k bs \<inter> precommit_blocks fs \<and> recorded c tr (spans k bs) tr')
    \<or> (\<exists>bs shared'. set bs \<subseteq> free_for fs shared tr c k \<and> num \<le> card (free_for fs shared tr c k) \<and> allocate_blocks mem_shared mem_tr fs shared (Some tr) k num c = Ok (shared', Inr (tr, Inl MemoryAllocationFailure))
        \<and> sb_wf shared' \<and> sb_blocks shared - spans k bs \<subseteq> sb_blocks shared' \<and> sb_blocks shared' \<subseteq> sb_blocks shared
        \<and> \<not> ((\<forall>l m. mem_shared l m) \<and> (\<forall>l m. mem_tr l m)))"
proof -
  let ?F = "free_for fs shared tr c k"
  let ?run = "allocate_blocks mem_shared mem_tr fs shared (Some tr) k num c"
  have pre: "sorted []" "distinct []" "set [] \<subseteq> ?F" "length [] \<le> num" by simp_all
  note loop = allocate_blocks_loop_spec [OF fs tr k pre]
  show ?thesis
  proof (cases "num \<le> card ?F")
    case False
    then have "allocate_blocks mem_shared mem_tr fs shared (Some tr) k num c = Ok (shared, Inl NoSpace)"
      using loop by (simp add: allocate_blocks_def)
    then show ?thesis using False by simp
  next
    case True
    then obtain bs where bs: "allocate_blocks_loop fs shared tr c k num [] = Ok bs" "sorted bs" "distinct bs" "set bs \<subseteq> ?F" "length bs = num"
      using loop by auto
    then have run: "allocate_blocks mem_shared mem_tr fs shared (Some tr) k num c = commit_found_blocks mem_shared mem_tr fs shared tr k bs c"
      by (simp add: allocate_blocks_def)
    from commit_found_blocks_spec [OF fs tr k bs(3,4), of mem_shared mem_tr] show ?thesis unfolding run [symmetric]
    proof (elim disjE)
      assume "\<exists>shared' tr'. ?run = Ok (shared', Inr (tr', Inr bs)) \<and> sb_wf shared'
        \<and> sb_blocks shared' = sb_blocks shared \<union> spans k bs \<inter> precommit_blocks fs \<and> recorded c tr (spans k bs) tr'"
      then show ?thesis using bs(2-5) by (intro disjI2 disjI1 exI [of _ bs]) auto
    next
      assume "\<exists>shared'. ?run = Ok (shared', Inr (tr, Inl MemoryAllocationFailure)) \<and> sb_wf shared' \<and> sb_blocks shared - spans k bs \<subseteq> sb_blocks shared'
        \<and> sb_blocks shared' \<subseteq> sb_blocks shared \<and> \<not> ((\<forall>l m. mem_shared l m) \<and> (\<forall>l m. mem_tr l m))"
      then show ?thesis using bs(4) True by (intro disjI2 exI [of _ bs]) blast
    qed
  qed
qed

section \<open>Registering extents\<close>

lemma register_region_spec:
  assumes sb: "sb_wf sb" and q: "b \<le> rb" "re < u64_bound" and dj: "sb_blocks sb \<inter> {rb..<re} = {}"
  shows "(\<exists>sb'. register_region mem sb b rb re = Ok (sb', Inr ()) \<and> sb_wf sb' \<and> sb_blocks sb' = sb_blocks sb \<union> {rb..<re})
    \<or> (\<exists>sb'. register_region mem sb b rb re = Ok (sb', Inl MemoryAllocationFailure) \<and> sb_wf sb' \<and> sb_blocks sb' = sb_blocks sb - {b..<re}
       \<and> rb < re \<and> \<not> (\<forall>l m. mem l m))"
proof (cases "rb < re")
  case True
  have wf: "range_wf (mk_range rb re)" "range_wf (mk_range b re)" using True q by (simp_all add: range_wf_def)
  have bl: "blocks (mk_range rb re) = {rb..<re}" "blocks (mk_range b re) = {b..<re}" by (simp_all add: blocks_def)
  from sb_add_extent_no_interior [OF sb wf(1) sb_no_interior [OF sb], of mem] dj
  consider (okay) sb' where "sb_add_extent mem sb (mk_range rb re) = Ok (sb', Inr ())" "sb_wf sb'" "sb_blocks sb' = sb_blocks sb \<union> {rb..<re}"
    | (fail) "sb_add_extent mem sb (mk_range rb re) = Ok (sb, Inl MemoryAllocationFailure)" "\<not> (\<forall>l m. mem l m)"
    unfolding bl by blast
  then show ?thesis
  proof cases
    case okay
    then show ?thesis using True by (simp add: register_region_def block_range_new_def)
  next
    case fail
    from sb_remove_range_spec [OF sb wf(2), of True] obtain sb' where "sb_remove_range sb (mk_range b re) True = Ok sb'" "sb_wf sb'"
      "sb_blocks sb' = sb_blocks sb - {b..<re}" unfolding bl by blast
    then show ?thesis using True q fail by (simp add: register_region_def block_range_new_def sb_remove_extent_def)
  qed
qed (simp add: register_region_def sb)

lemma region_blocks:
  fixes F :: "nat set"
  assumes low: "\<forall>x. rb \<le> x \<longrightarrow> x < a0 \<longrightarrow> x \<in> F" and here: "\<forall>x. a0 \<le> x \<longrightarrow> x < a \<longrightarrow> x \<in> F = free" and e: "a0 \<le> e" "rb < a" "a0 \<le> a"
  shows "e \<le> a \<Longrightarrow> {rb..<e} \<inter> F = {rb..<if free then e else a0}"
    and "\<not> free \<Longrightarrow> a < e \<Longrightarrow> {rb..<e} \<inter> F = {rb..<a0} \<union> {a..<e} \<inter> F"
    and "free \<Longrightarrow> {rb..<a} \<subseteq> F"
proof -
  have *: "x \<in> F \<longleftrightarrow> x < a0 \<or> free" if "rb \<le> x" "x < a" for x using low here that by (cases "x < a0") auto
  show "{rb..<e} \<inter> F = {rb..<if free then e else a0}" if "e \<le> a" using * that e by auto
  show "{rb..<e} \<inter> F = {rb..<a0} \<union> {a..<e} \<inter> F" if "\<not> free" "a < e"
  proof -
    have "x \<in> F \<longleftrightarrow> x < a0 \<or> a \<le> x \<and> x \<in> F" if "rb \<le> x" for x using * [OF that] \<open>\<not> free\<close> e(3) by (cases "x < a") auto
    then show ?thesis using that e by (intro set_eqI) (metis (no_types, lifting) Int_iff Un_iff atLeastLessThan_iff less_le_trans less_imp_le order.trans)
  qed
  show "{rb..<a} \<subseteq> F" if free using * that by auto
qed

lemma register_extent_loop_spec:
  assumes j: "j \<le> 6" and e: "range_begin extent < range_end extent" "range_end extent + 2 ^ j < u64_bound"
    and "chunk_state ab [] [] it"
    and "\<And>t. (case (if t < length (chunk_items it) then Some (chunk_items it ! t) else None) of None \<Rightarrow> 0 | Some w \<Rightarrow> w) = 0 \<longleftrightarrow> journal_block_free ab j (q + t)"
    and "sb_wf sb" "q * 2 ^ j < range_end extent" "range_begin extent \<le> rb" "rb < q * 2 ^ j + 2 ^ j"
    "{rb..<q * 2 ^ j} \<subseteq> free_journal_blocks ab j" "sb_blocks sb \<inter> {rb..<range_end extent} = {}"
  shows "(\<exists>sb'. register_extent_loop mem j extent it (q * 2 ^ j) rb sb = Ok (sb', Inr ()) \<and> sb_wf sb'
       \<and> sb_blocks sb' = sb_blocks sb \<union> {rb..<range_end extent} \<inter> free_journal_blocks ab j)
    \<or> (\<exists>sb'. register_extent_loop mem j extent it (q * 2 ^ j) rb sb = Ok (sb', Inl MemoryAllocationFailure) \<and> sb_wf sb'
       \<and> sb_blocks sb - blocks extent \<subseteq> sb_blocks sb' \<and> sb_blocks sb' \<subseteq> sb_blocks sb - {range_begin extent..<rb} \<and> \<not> (\<forall>l m. mem l m))"
  using assms(4-)
proof (induction "range_end extent - q * 2 ^ j" arbitrary: q it rb sb rule: less_induct)
  case less
  let ?F = "free_journal_blocks ab j" and ?e = "range_end extent" and ?a = "q * 2 ^ j" and ?b = "range_begin extent"
  let ?head = "if 0 < length (chunk_items it) then Some (chunk_items it ! 0) else None"
  let ?goal = "\<lambda>run sb rb. (\<exists>sb'. run = Ok (sb', Inr ()) \<and> sb_wf sb' \<and> sb_blocks sb' = sb_blocks sb \<union> {rb..<?e} \<inter> ?F)
    \<or> (\<exists>sb'. run = Ok (sb', Inl MemoryAllocationFailure) \<and> sb_wf sb' \<and> sb_blocks sb - blocks extent \<subseteq> sb_blocks sb' \<and> sb_blocks sb' \<subseteq> sb_blocks sb - {?b..<rb}
       \<and> \<not> (\<forall>l m. mem l m))"
  from chunk_it.next_total [OF less.prems(1)] obtain it' where it': "chunk_iter_next it = Ok (?head, it')"
    "chunk_state ab [] [] it'" "chunk_items it' = tl (chunk_items it)" by (cases "chunk_items it") auto
  have items': "(case (if t < length (chunk_items it') then Some (chunk_items it' ! t) else None) of None \<Rightarrow> 0 | Some w \<Rightarrow> w) = 0
      \<longleftrightarrow> journal_block_free ab j (Suc q + t)" for t
    using less.prems(2) [of "Suc t"] unfolding it'(3) by (cases "chunk_items it") auto
  define free where "free = journal_block_free ab j q"
  obtain h where nxt: "chunk_iter_next it = Ok (h, it')" and head: "(case h of None \<Rightarrow> 0 | Some w \<Rightarrow> w) = 0 \<longleftrightarrow> free"
    using less.prems(2) [of 0] it'(1) by (simp add: free_def)
  define a where "a = Suc q * 2 ^ j"
  have nx: "a = ?a + 2 ^ j" by (simp add: a_def)
  have add: "add_u64 ?a (2 ^ j) = Ok a" unfolding nx using less.prems(4) e(2) by (intro add_u64_Ok) linarith
  have here: "x \<in> ?F \<longleftrightarrow> free" if "?a \<le> x" "x < ?a + 2 ^ j" for x
  proof -
    have "x div 2 ^ j = q" using that by (simp add: div_eq_span)
    then show ?thesis by (simp add: free_journal_blocks_def journal_block_free_def free_def)
  qed
  have pos: "0 < (2 :: nat) ^ j" by simp
  have dec: "?e - Suc q * 2 ^ j < ?e - ?a" unfolding a_def [symmetric] using less.prems(4) nx pos by linarith
  let ?re = "if free then ?e else ?a"
  have step: "register_extent_loop mem j extent it ?a rb sb =
    (if \<not> free \<or> ?e \<le> a then
       and_then (register_region mem sb ?b rb ?re) (\<lambda>(shared, r).
       case r of Inl e \<Rightarrow> Ok (shared, Inl e)
       | Inr _ \<Rightarrow> if ?e \<le> a then Ok (shared, Inr ()) else register_extent_loop mem j extent it' a a shared)
     else register_extent_loop mem j extent it' a rb sb)"
    by (subst register_extent_loop.simps) (simp add: nxt add head)
  have less_low: "\<forall>x. rb \<le> x \<longrightarrow> x < ?a \<longrightarrow> x \<in> ?F" and here': "\<forall>x. ?a \<le> x \<longrightarrow> x < a \<longrightarrow> x \<in> ?F = free" using less.prems(7) here nx by auto
  have "?a \<le> ?e" "rb < a" "?a \<le> a" using less.prems(4,6) nx by simp_all
  note F = region_blocks [OF less_low here' this]
  note IH = less.hyps [OF dec it'(2) items', folded a_def]
  show ?case
  proof (cases "free \<and> a < ?e")
    case True
    have "{rb..<a} \<subseteq> ?F" using F(3) True by simp
    then have "?goal (register_extent_loop mem j extent it' (a) rb sb) sb rb"
      using less.prems True nx by (intro IH) linarith+
    then show ?thesis using True unfolding step by simp
  next
    case False
    note P = less.prems
    have cond: "\<not> free \<or> ?e \<le> a" using False by linarith
    define re where "re = ?re"
    note step = step [unfolded if_P [OF cond], folded re_def]
    have rbe: "re \<le> ?e" "rb < a" using P(4,6) nx by (simp_all add: re_def)
    have "re < u64_bound" "sb_blocks sb \<inter> {rb..<re} = {}" using P(8) rbe(1) e(2) by auto
    from register_region_spec [OF P(3,5) this, of mem] show ?thesis
    proof (elim disjE exE conjE)
      fix s1 assume s1: "register_region mem sb ?b rb re = Ok (s1, Inl MemoryAllocationFailure)" "sb_wf s1" "sb_blocks s1 = sb_blocks sb - {?b..<re}"
        and lt: "rb < re" and nm: "\<not> (\<forall>l m. mem l m)"
      have "register_extent_loop mem j extent it ?a rb sb = Ok (s1, Inl MemoryAllocationFailure)" using step s1(1) by simp
      moreover have "sb_blocks sb - blocks extent \<subseteq> sb_blocks s1" "sb_blocks s1 \<subseteq> sb_blocks sb - {?b..<rb}"
      proof -
        have "{?b..<re} \<subseteq> blocks extent" "{?b..<rb} \<subseteq> {?b..<re}" using rbe(1) lt by (auto simp: blocks_def)
        then show "sb_blocks sb - blocks extent \<subseteq> sb_blocks s1" "sb_blocks s1 \<subseteq> sb_blocks sb - {?b..<rb}" unfolding s1(3) by blast+
      qed
      ultimately show ?thesis using s1(2) nm by blast
    next
      fix s1 assume s1: "register_region mem sb ?b rb re = Ok (s1, Inr ())" "sb_wf s1" "sb_blocks s1 = sb_blocks sb \<union> {rb..<re}"
      show ?thesis
      proof (cases "?e \<le> a")
        case True
        have "register_extent_loop mem j extent it ?a rb sb = Ok (s1, Inr ())" using step s1(1) True by simp
        then show ?thesis using s1(2,3) F(1) [OF True, folded re_def] by auto
      next
        case ae: False
        then have nf: "\<not> free" using False by simp
        have run: "register_extent_loop mem j extent it ?a rb sb = register_extent_loop mem j extent it' a a s1"
          using step s1(1) ae nf by simp
        have s1b: "sb_blocks s1 = sb_blocks sb \<union> {rb..<?a}" using s1(3) nf by (simp add: re_def)
        have G: "{rb..<?e} \<inter> ?F = {rb..<?a} \<union> {a..<?e} \<inter> ?F" using F(2) nf ae by simp
        have "?goal (register_extent_loop mem j extent it' a a s1) s1 a"
          using s1(2) s1b ae P(5,8) rbe(2) nx pos by (intro IH) auto
        then show ?thesis
        proof (elim disjE exE conjE)
          fix s2 assume "register_extent_loop mem j extent it' a a s1 = Ok (s2, Inr ())" "sb_wf s2" "sb_blocks s2 = sb_blocks s1 \<union> {a..<?e} \<inter> ?F"
          then show ?thesis unfolding run G s1b by (auto simp: Un_assoc)
        next
          fix s2 assume s2: "register_extent_loop mem j extent it' a a s1 = Ok (s2, Inl MemoryAllocationFailure)" "sb_wf s2"
            "sb_blocks s1 - blocks extent \<subseteq> sb_blocks s2" "sb_blocks s2 \<subseteq> sb_blocks s1 - {?b..<a}" and nm: "\<not> (\<forall>l m. mem l m)"
          have "sb_blocks sb - blocks extent \<subseteq> sb_blocks s2" "sb_blocks s2 \<subseteq> sb_blocks sb - {?b..<rb}"
            using s2(3,4) s1b rbe(2) nx P(5) by auto
          then show ?thesis unfolding run using s2(1,2) nm by blast
        qed
      qed
    qed
  qed
qed

definition extent_ok :: "fs_sync_state \<Rightarrow> block_range \<Rightarrow> bool" where
  "extent_ok fs extent \<longleftrightarrow> range_begin extent < range_end extent \<and> range_end extent + 2 ^ journal_block_log2 (fs_image_layout fs) < u64_bound"

lemma extent_ok_wf: "extent_ok fs extent \<Longrightarrow> range_wf extent"
  by (simp add: extent_ok_def range_wf_def)

lemma register_extent_spec:
  assumes j: "journal_block_log2 (fs_image_layout fs) \<le> 6" and e: "extent_ok fs extent" and sb: "sb_wf sb" "sb_blocks sb \<inter> blocks extent = {}"
  shows "(\<exists>sb'. register_allocated_extent mem fs sb extent = Ok (sb', Inr ()) \<and> sb_wf sb'
       \<and> sb_blocks sb' = sb_blocks sb \<union> blocks extent \<inter> precommit_blocks fs)
    \<or> (\<exists>sb'. register_allocated_extent mem fs sb extent = Ok (sb', Inl MemoryAllocationFailure) \<and> sb_wf sb' \<and> sb_blocks sb' = sb_blocks sb
       \<and> \<not> (\<forall>l m. mem l m))"
proof -
  define j where "j = journal_block_log2 (fs_image_layout fs)"
  have j6: "j \<le> 6" using assms(1) by (simp add: j_def)
  have ee: "range_begin extent < range_end extent" "range_end extent + 2 ^ j < u64_bound" using e by (simp_all add: extent_ok_def j_def)
  let ?ab = "fs_alloc_bitmap fs" and ?q = "range_begin extent div 2 ^ j"
  have c: "0 < (2 :: nat) ^ j" "(2 :: nat) ^ j \<le> 64" using power_increasing [OF j6, of "2 :: nat"] by simp_all
  have ad: "index_align_down (range_begin extent) j = ?q * 2 ^ j" using ee by (intro index_align_down_eq) linarith
  have "\<forall>sb \<in> set ([] @ []). sb_wf sb" by simp
  from chunk_iter_start [OF this c, of ?ab "?q * 2 ^ j"] obtain it where it:
    "chunk_iter_new_at ?ab [] [] (?q * 2 ^ j) (2 ^ j) = Ok it" "chunk_state ?ab [] [] it"
    "chunk_items it = chunks_of (2 ^ j) (?q * 2 ^ j mod 64) (map (virtual_word ?ab [] []) [?q * 2 ^ j div 64..<length (bitmap ?ab)])" by blast
  note items = chunk_zero_iff [OF j6 refl, where ab = ?ab and q = ?q, folded it(3)]
  let ?run = "register_extent_loop mem j extent it (?q * 2 ^ j) (range_begin extent) sb"
  have run: "register_allocated_extent mem fs sb extent = register_extent_loop mem j extent it (?q * 2 ^ j) (range_begin extent) sb"
    using j6 it(1) ad by (simp add: register_allocated_extent_def Let_def flip: j_def)
  have q: "?q * 2 ^ j \<le> range_begin extent" "range_begin extent < ?q * 2 ^ j + 2 ^ j"
    using div_eq_span [of "range_begin extent" j ?q] by simp_all
  have "?q * 2 ^ j < range_end extent" using q(1) ee(1) by (rule le_less_trans)
  moreover have "{range_begin extent..<?q * 2 ^ j} \<subseteq> free_journal_blocks ?ab j"
    "sb_blocks sb \<inter> {range_begin extent..<range_end extent} = {}" using q(1) sb(2) by (auto simp: blocks_def)
  ultimately have spec: "(\<exists>sb'. ?run = Ok (sb', Inr ()) \<and> sb_wf sb' \<and> sb_blocks sb' = sb_blocks sb \<union> {range_begin extent..<range_end extent} \<inter> free_journal_blocks ?ab j)
    \<or> (\<exists>sb'. ?run = Ok (sb', Inl MemoryAllocationFailure) \<and> sb_wf sb' \<and> sb_blocks sb - blocks extent \<subseteq> sb_blocks sb'
      \<and> sb_blocks sb' \<subseteq> sb_blocks sb - {range_begin extent..<range_begin extent} \<and> \<not> (\<forall>l m. mem l m))"
    using q(2) sb(1) by (intro register_extent_loop_spec [OF j6 ee it(2) items]) simp_all
  have "sb_blocks sb - blocks extent = sb_blocks sb" using sb(2) by blast
  with spec
  show ?thesis unfolding run j_def [symmetric] by (elim disjE exE conjE) (auto simp: blocks_def)
qed

lemma deregister_extent_spec:
  assumes "sb_wf sb" "range_wf extent"
  shows "\<exists>sb'. deregister_allocated_extent sb extent = Ok sb' \<and> sb_wf sb' \<and> sb_blocks sb' = sb_blocks sb - blocks extent"
  using sb_remove_range_spec [OF assms, of True] by (fastforce simp: deregister_allocated_extent_def sb_remove_extent_def)

lemma deregister_extents_spec:
  assumes "sb_wf sb" "\<forall>q \<in> set qs. range_wf q"
  shows "\<exists>sb'. deregister_allocated_extents sb qs = Ok sb' \<and> sb_wf sb' \<and> sb_blocks sb' = sb_blocks sb - blocks_of qs"
  using assms
proof (induction qs arbitrary: sb)
  case (Cons q qs)
  from deregister_extent_spec [OF Cons.prems(1), of q] Cons.prems(2) obtain s1 where s1:
    "deregister_allocated_extent sb q = Ok s1" "sb_wf s1" "sb_blocks s1 = sb_blocks sb - blocks q" by auto
  from Cons.IH [OF s1(2)] Cons.prems(2) obtain s2 where
    "deregister_allocated_extents s1 qs = Ok s2" "sb_wf s2" "sb_blocks s2 = sb_blocks s1 - blocks_of qs" by auto
  then show ?case using s1 by (auto simp: Un_commute)
qed simp

lemma register_extents_loop_spec:
  assumes j: "journal_block_log2 (fs_image_layout fs) \<le> 6" and "sb_wf sb" "\<forall>q \<in> set (reg @ qs). extent_ok fs q" "pairwise_disjoint qs"
    "blocks_of reg \<inter> blocks_of qs = {}" "sb_blocks sb \<inter> blocks_of qs = {}"
  shows "(\<exists>sb'. register_extents_loop mem fs reg sb qs = Ok (sb', Inr ()) \<and> sb_wf sb' \<and> sb_blocks sb' = sb_blocks sb \<union> blocks_of qs \<inter> precommit_blocks fs)
    \<or> (\<exists>sb'. register_extents_loop mem fs reg sb qs = Ok (sb', Inl MemoryAllocationFailure) \<and> sb_wf sb' \<and> sb_blocks sb' = sb_blocks sb - blocks_of reg
       \<and> \<not> (\<forall>l m. mem l m))"
  using assms(2-)
proof (induction qs arbitrary: sb reg)
  case (Cons q qs)
  let ?P = "precommit_blocks fs"
  have "extent_ok fs q" "sb_blocks sb \<inter> blocks q = {}" using Cons.prems(2,5) by auto
  from register_extent_spec [OF j this(1) Cons.prems(1) this(2), of mem] show ?case
  proof (elim disjE exE conjE)
    fix s1 assume s1: "register_allocated_extent mem fs sb q = Ok (s1, Inl MemoryAllocationFailure)" "sb_wf s1" "sb_blocks s1 = sb_blocks sb"
      and nm: "\<not> (\<forall>l m. mem l m)"
    have "\<forall>q \<in> set reg. range_wf q" using Cons.prems(2) extent_ok_wf by auto
    from deregister_extents_spec [OF s1(2) this] s1 nm show ?thesis by auto
  next
    fix s1 assume s1: "register_allocated_extent mem fs sb q = Ok (s1, Inr ())" "sb_wf s1" "sb_blocks s1 = sb_blocks sb \<union> blocks q \<inter> ?P"
    have run: "register_extents_loop mem fs reg sb (q # qs) = register_extents_loop mem fs (reg @ [q]) s1 qs" using s1(1) by simp
    have "pairwise_disjoint qs" "blocks_of (reg @ [q]) \<inter> blocks_of qs = {}" "sb_blocks s1 \<inter> blocks_of qs = {}"
      using Cons.prems(3-5) s1(3) by auto
    from Cons.IH [OF s1(2) _ this] Cons.prems(2) consider
      (okay) s2 where "register_extents_loop mem fs (reg @ [q]) s1 qs = Ok (s2, Inr ())" "sb_wf s2" "sb_blocks s2 = sb_blocks s1 \<union> blocks_of qs \<inter> ?P"
      | (fail) s2 where "register_extents_loop mem fs (reg @ [q]) s1 qs = Ok (s2, Inl MemoryAllocationFailure)" "sb_wf s2"
        "sb_blocks s2 = sb_blocks s1 - blocks_of (reg @ [q])" "\<not> (\<forall>l m. mem l m)" by auto
    then show ?thesis
    proof cases
      case okay
      then show ?thesis unfolding run s1(3) by (auto simp: Un_assoc Int_Un_distrib2)
    next
      case fail
      have "sb_blocks s2 = sb_blocks sb - blocks_of reg" using fail(3) s1(3) Cons.prems(5) by auto
      then show ?thesis unfolding run using fail(1,2,4) by blast
    qed
  qed
qed simp

end
