(* ===== verification/Pending_Transactions.thy ===== *)
theory Pending_Transactions
  imports Transaction_Allocs_Spec
begin

text \<open>
  Several pending transactions that allocate and free blocks in any order, as a step relation over the
  shared state and the allocations of each transaction: an invariant keeps the blocks they may write
  to before their commit disjoint. The allocation of extents and the commit of a transaction, which
  cancels all others, are not among the steps. The properties of the allocation handlers follow, with a run of
  two transactions as their witness.
\<close>

section \<open>Several pending transactions\<close>

text \<open>
  The blocks that a transaction has freed and that its next allocation may take again. While one of them
  is registered with the shared state, a failure of that allocation for want of memory may deregister
  it, as the last property of this theory shows: such failures are not among the steps.
\<close>

definition reclaimable :: "fs_sync_state \<Rightarrow> allocation_constraints \<Rightarrow> transaction_allocs \<Rightarrow> nat set" where
  "reclaimable fs c tr = (sb_blocks (constrained_frees c tr) \<union> sb_blocks (ta_journal_frees tr)) \<inter> precommit_blocks fs"

type_synonym pending_system = "sparse_alloc_bitmap \<times> (nat \<Rightarrow> transaction_allocs option)"

inductive pending_step :: "fs_sync_state \<Rightarrow> pending_system \<Rightarrow> pending_system \<Rightarrow> bool" for fs where
  start: "trs t = None \<Longrightarrow> pending_step fs (shared, trs) (shared, trs(t \<mapsto> transaction_allocations_new))"
| alloc_one: "trs t = Some tr \<Longrightarrow> k \<le> 6 \<Longrightarrow> allocate_block mem_shared mem_tr fs shared (Some tr) k c = Ok (shared', Inr (tr', r))
     \<Longrightarrow> r \<noteq> Inl MemoryAllocationFailure \<or> reclaimable fs c tr = {} \<Longrightarrow> pending_step fs (shared, trs) (shared', trs(t \<mapsto> tr'))"
| alloc_some: "trs t = Some tr \<Longrightarrow> k \<le> 6 \<Longrightarrow> allocate_blocks mem_shared mem_tr fs shared (Some tr) k num c = Ok (shared', Inr (tr', r))
     \<Longrightarrow> r \<noteq> Inl MemoryAllocationFailure \<or> reclaimable fs c tr = {} \<Longrightarrow> pending_step fs (shared, trs) (shared', trs(t \<mapsto> tr'))"
| lost: "trs t = Some tr \<Longrightarrow> k \<le> 6 \<Longrightarrow> allocate_blocks mem_shared mem_tr fs shared (Some tr) k num c = Ok (shared', Inl e)
     \<Longrightarrow> pending_step fs (shared, trs) (shared', trs(t := None))"
| free: "trs t = Some tr \<Longrightarrow> aligned_block k b \<Longrightarrow> span k b \<inter> precommit_blocks fs \<subseteq> sb_blocks (ta_pending_allocs tr)
     \<Longrightarrow> span k b \<inter> sb_blocks (ta_journal_allocs tr) = {} \<Longrightarrow> free_block_allocs mem tr b k = Ok (tr', r)
     \<Longrightarrow> pending_step fs (shared, trs) (shared, trs(t \<mapsto> tr'))"
| release: "trs t = Some tr \<Longrightarrow> \<forall>b \<in> set bs. aligned_block k b \<Longrightarrow> distinct bs \<Longrightarrow> spans k bs \<subseteq> sb_blocks (ta_journal_allocs tr)
     \<Longrightarrow> spans k bs \<inter> sb_blocks (ta_pending_allocs tr) = {} \<Longrightarrow> release_journal_blocks mem tr bs k = Ok tr'
     \<Longrightarrow> pending_step fs (shared, trs) (shared, trs(t \<mapsto> tr'))"

definition owned :: "transaction_allocs \<Rightarrow> nat set" where
  "owned tr = sb_blocks (ta_pending_allocs tr) \<union> sb_blocks (ta_journal_allocs tr) \<union> sb_blocks (ta_pending_frees tr) \<union> sb_blocks (ta_journal_frees tr)"

text \<open>
  Every block that may be written to before the commit and that a transaction has ever allocated is
  registered with the shared state, and belongs to no other transaction.
\<close>

fun isolated :: "fs_sync_state \<Rightarrow> pending_system \<Rightarrow> bool" where
  "isolated fs (shared, trs) \<longleftrightarrow> sb_wf shared
     \<and> (\<forall>t tr. trs t = Some tr \<longrightarrow> tr_wf tr \<and> owned tr \<inter> precommit_blocks fs \<subseteq> sb_blocks shared)
     \<and> (\<forall>t t' tr tr'. trs t = Some tr \<longrightarrow> trs t' = Some tr' \<longrightarrow> t \<noteq> t' \<longrightarrow> owned tr \<inter> owned tr' \<inter> precommit_blocks fs = {})"

lemma isolatedD:
  assumes "isolated fs (shared, trs)" "trs t = Some a"
  shows "owned a \<inter> precommit_blocks fs \<subseteq> sb_blocks shared"
    and "trs t' = Some b \<Longrightarrow> t \<noteq> t' \<Longrightarrow> owned a \<inter> owned b \<inter> precommit_blocks fs = {}"
  using assms by (simp_all del: Int_subset_iff)

lemma isolated_update:
  assumes iso: "isolated fs (shared, trs)" and t: "trs t = Some tr" and wf: "sb_wf shared'" "tr_wf tr'"
    and sh: "sb_blocks shared \<union> B \<inter> precommit_blocks fs \<subseteq> sb_blocks shared'"
    and own: "owned tr' \<subseteq> owned tr \<union> B" and B: "B \<inter> precommit_blocks fs \<inter> sb_blocks shared \<subseteq> owned tr"
  shows "isolated fs (shared', trs(t \<mapsto> tr'))"
proof -
  let ?P = "precommit_blocks fs"
  have old: "tr_wf x" "owned x \<inter> ?P \<subseteq> sb_blocks shared" if "trs u = Some x" for u x using iso that by auto
  have dj: "owned x \<inter> owned y \<inter> ?P = {}" if "trs u = Some x" "trs v = Some y" "u \<noteq> v" for u v x y using iso that by auto
  have new: "owned tr' \<inter> ?P \<subseteq> sb_blocks shared'" using own sh old(2) [OF t] by blast
  have new_dj: "owned tr' \<inter> owned x \<inter> ?P = {}" if "trs u = Some x" "u \<noteq> t" for u x
    using own B old(2) [OF that(1)] dj [OF that(1) t that(2)] by blast
  have "owned x \<inter> owned y \<inter> ?P = {}" if "(trs(t \<mapsto> tr')) u = Some x" "(trs(t \<mapsto> tr')) v = Some y" "u \<noteq> v" for u v x y
    using that dj new_dj [of v y] new_dj [of u x] by (auto split: if_splits)
  moreover have "tr_wf x \<and> owned x \<inter> ?P \<subseteq> sb_blocks shared'" if "(trs(t \<mapsto> tr')) u = Some x" for u x
    using that wf(2) new old [of u x] sh by (auto split: if_splits)
  ultimately show ?thesis using wf(1) by simp
qed

lemma isolated_deregister:
  assumes "isolated fs (shared, trs)" "sb_wf shared'" "sb_blocks shared \<inter> precommit_blocks fs \<subseteq> sb_blocks shared'"
  shows "isolated fs (shared', trs)"
proof -
  have "tr_wf x \<and> owned x \<inter> precommit_blocks fs \<subseteq> sb_blocks shared'" if "trs t = Some x" for t x
    using isolatedD(1) [OF assms(1) that] assms(1,3) that by auto
  then show ?thesis using assms(1,2) by auto
qed

lemma failure_keeps_registered:
  assumes tr: "tr_wf tr" and bs: "set bs \<subseteq> free_for fs shared tr c k" and none: "reclaimable fs c tr = {}"
    and sh: "sb_blocks shared - spans k bs \<subseteq> sb_blocks shared'"
  shows "sb_blocks shared \<inter> precommit_blocks fs \<subseteq> sb_blocks shared'"
proof -
  have "span k b \<inter> sb_blocks shared \<inter> precommit_blocks fs = {}" if "b \<in> set bs" for b
    using free_for_span(3) [OF tr, of b fs shared c k] bs that none unfolding reclaimable_def by blast
  then show ?thesis using sh by blast
qed

lemma recorded_owned: "recorded c tr B tr' \<Longrightarrow> tr_wf tr' \<and> owned tr' \<subseteq> owned tr \<union> B"
  by (auto simp: recorded_def owned_def split: if_splits)

lemma free_block_allocs_spec:
  assumes tr: "tr_wf tr" and b: "aligned_block k b" and dj: "span k b \<inter> sb_blocks (ta_journal_allocs tr) = {}"
    and run: "free_block_allocs mem tr b k = Ok (tr', r)"
  shows "tr_wf tr' \<and> owned tr' \<subseteq> owned tr \<union> span k b"
proof -
  note wf = tr_wfD [OF tr]
  from sb_add_aligned_block [OF wf(2) b, of mem] show ?thesis
  proof (elim disjE exE conjE)
    fix pf assume pf: "sb_add_block mem (ta_pending_frees tr) b k = Ok (pf, Inr ())" "sb_wf pf" "sb_blocks pf = sb_blocks (ta_pending_frees tr) \<union> span k b"
    from sb_remove_aligned_block [OF wf(1) b] obtain pa where pa: "sb_remove_block (ta_pending_allocs tr) b k = Ok pa" "sb_wf pa"
      "sb_blocks pa = sb_blocks (ta_pending_allocs tr) - span k b" by blast
    have "tr' = tr\<lparr>ta_pending_frees := pf, ta_pending_allocs := pa\<rparr>" using run pf(1) pa(1) by (simp add: free_block_allocs_def)
    then show ?thesis using pf pa wf dj by (auto simp: tr_wf_def owned_def)
  next
    assume "sb_add_block mem (ta_pending_frees tr) b k = Ok (ta_pending_frees tr, Inl MemoryAllocationFailure)"
    then have "tr' = tr" using run by (simp add: free_block_allocs_def)
    then show ?thesis using tr by simp
  qed
qed

lemma release_journal_blocks_spec:
  assumes tr: "tr_wf tr" and bs: "\<forall>b \<in> set bs. aligned_block k b" "distinct bs" "spans k bs \<subseteq> sb_blocks (ta_journal_allocs tr)"
    "spans k bs \<inter> sb_blocks (ta_pending_allocs tr) = {}" and run: "release_journal_blocks mem tr bs k = Ok tr'"
  shows "tr_wf tr' \<and> owned tr' \<subseteq> owned tr"
proof -
  note wf = tr_wfD [OF tr]
  have ok: "\<forall>b \<in> set bs. block_ok k b" using bs(1) aligned_block_ok by blast
  have dj: "sb_blocks (ta_journal_frees tr) \<inter> blocks_of (map (block_at k) bs) = {}" unfolding spans_blocks_of using bs(3) wf(5) by blast
  from sb_add_blocks_spec [OF wf(4) ok dj aligned_pairwise_disjoint [OF bs(2,1)], of mem] show ?thesis unfolding spans_blocks_of
  proof (elim disjE exE conjE)
    fix jf assume jf: "sb_add_blocks mem (ta_journal_frees tr) bs k = Ok (jf, Inr ())" "sb_wf jf" "sb_blocks jf = sb_blocks (ta_journal_frees tr) \<union> spans k bs"
    from sb_remove_blocks_spec [OF wf(3) ok] obtain ja where ja: "sb_remove_blocks (ta_journal_allocs tr) bs k = Ok ja" "sb_wf ja"
      "sb_blocks ja = sb_blocks (ta_journal_allocs tr) - spans k bs" unfolding spans_blocks_of by blast
    have tr': "tr' = tr\<lparr>ta_journal_frees := jf, ta_journal_allocs := reset_remove_rollback ja\<rparr>"
      using run jf(1) ja(1) by (simp add: release_journal_blocks_def)
    have "tr_wf tr'" using jf ja wf bs(4) unfolding tr' tr_wf_def by auto
    moreover have "owned tr' \<subseteq> owned tr" using jf(3) ja(3) bs(3) unfolding tr' owned_def by auto
    ultimately show ?thesis ..
  qed (use run tr in \<open>simp add: release_journal_blocks_def\<close>)
qed

lemma new_transaction: "tr_wf transaction_allocations_new" "owned transaction_allocations_new = {}"
  by (simp_all add: tr_wf_def owned_def transaction_allocations_new_def sb_new_def sb_wf_def sb_sorted_def sb_blocks_def entry_bits_def)

lemma pending_step_isolated:
  assumes fs: "fs_ok fs" and "pending_step fs x y" "isolated fs x"
  shows "isolated fs y"
  using assms(2,3)
proof (induction rule: pending_step.induct)
  case (start trs t shared)
  then show ?case using new_transaction by (auto split: if_splits)
next
  case (alloc_one trs t tr k mem_shared mem_tr shared c shared' tr' r)
  have tr: "tr_wf tr" "sb_wf shared" using alloc_one by auto
  from allocate_block_spec [OF fs tr alloc_one(2), of c mem_shared mem_tr] show ?case
  proof (elim disjE bexE exE conjE)
    assume "allocate_block mem_shared mem_tr fs shared (Some tr) k c = Ok (shared, Inr (tr, Inl NoSpace))"
    then have "shared' = shared" "tr' = tr" using alloc_one(3) by simp_all
    then show ?thesis using alloc_one by (auto split: if_splits)
  next
    fix b s1 tr1 assume b: "b \<in> free_for fs shared tr c k"
      and run: "allocate_block mem_shared mem_tr fs shared (Some tr) k c = Ok (s1, Inr (tr1, Inr b))"
      and s1: "sb_wf s1" "sb_blocks s1 = sb_blocks shared \<union> span k b \<inter> precommit_blocks fs" "recorded c tr (span k b) tr1"
    have eq: "shared' = s1" "tr' = tr1" using alloc_one(3) run by simp_all
    show ?thesis unfolding eq
    proof (rule isolated_update [OF alloc_one(5,1) s1(1), where B = "span k b"])
      show "span k b \<inter> precommit_blocks fs \<inter> sb_blocks shared \<subseteq> owned tr"
        using free_for_span(2) [OF tr(1) b] by (auto simp: owned_def)
    qed (use recorded_owned [OF s1(3)] s1(2) in auto)
  next
    fix b s1 assume b: "b \<in> free_for fs shared tr c k" and s1: "sb_wf s1" "sb_blocks s1 = sb_blocks shared - span k b"
      and run: "allocate_block mem_shared mem_tr fs shared (Some tr) k c = Ok (s1, Inr (tr, Inl MemoryAllocationFailure))"
    have eq: "shared' = s1" "tr' = tr" "reclaimable fs c tr = {}" using alloc_one(3,4) run by auto
    have "sb_blocks shared \<inter> precommit_blocks fs \<subseteq> sb_blocks s1"
      by (rule failure_keeps_registered [OF tr(1) _ eq(3), of "[b]" shared k]) (use b s1(2) in auto)
    from isolated_deregister [OF alloc_one(5) s1(1) this] show ?thesis using alloc_one(1) eq by (simp add: map_upd_triv)
  qed
next
  case (alloc_some trs t tr k mem_shared mem_tr shared num c shared' tr' r)
  have tr: "tr_wf tr" "sb_wf shared" using alloc_some by auto
  from allocate_blocks_spec [OF fs tr alloc_some(2), of c num mem_shared mem_tr] show ?case
  proof (elim disjE bexE exE conjE)
    fix bs s1 tr1 assume bs: "set bs \<subseteq> free_for fs shared tr c k"
      and run: "allocate_blocks mem_shared mem_tr fs shared (Some tr) k num c = Ok (s1, Inr (tr1, Inr bs))"
      and s1: "sb_wf s1" "sb_blocks s1 = sb_blocks shared \<union> spans k bs \<inter> precommit_blocks fs" "recorded c tr (spans k bs) tr1"
    have eq: "shared' = s1" "tr' = tr1" using alloc_some(3) run by simp_all
    show ?thesis unfolding eq
    proof (rule isolated_update [OF alloc_some(5,1) s1(1), where B = "spans k bs"])
      have "span k b \<inter> sb_blocks shared \<subseteq> owned tr" if "b \<in> set bs" for b
        using free_for_span(2) [OF tr(1), of b fs shared c k] bs that unfolding owned_def by blast
      then show "spans k bs \<inter> precommit_blocks fs \<inter> sb_blocks shared \<subseteq> owned tr" by blast
    qed (use recorded_owned [OF s1(3)] s1(2) in auto)
  next
    fix bs s1 assume bs: "set bs \<subseteq> free_for fs shared tr c k" and s1: "sb_wf s1" "sb_blocks shared - spans k bs \<subseteq> sb_blocks s1"
      and run: "allocate_blocks mem_shared mem_tr fs shared (Some tr) k num c = Ok (s1, Inr (tr, Inl MemoryAllocationFailure))"
    have eq: "shared' = s1" "tr' = tr" "reclaimable fs c tr = {}" using alloc_some(3,4) run by auto
    from isolated_deregister [OF alloc_some(5) s1(1) failure_keeps_registered [OF tr(1) bs eq(3) s1(2)]]
    show ?thesis using alloc_some(1) eq by (simp add: map_upd_triv)
  qed (use alloc_some(3,4) in simp_all)
next
  case (lost trs t tr k mem_shared mem_tr shared num c shared' e)
  have tr: "tr_wf tr" "sb_wf shared" using lost by auto
  from allocate_blocks_spec [OF fs tr lost(2), of c num mem_shared mem_tr] lost(3) have "shared' = shared" by auto
  then show ?case using lost(4) by (auto split: if_splits)
next
  case (free trs t tr k b mem tr' r shared)
  have tr: "tr_wf tr" "sb_wf shared" and own: "owned tr \<inter> precommit_blocks fs \<subseteq> sb_blocks shared" using free by auto
  note new = free_block_allocs_spec [OF tr(1) free(2,4,5)]
  show ?case
  proof (rule isolated_update [OF free(6,1) tr(2), where B = "span k b"])
    have "span k b \<inter> precommit_blocks fs \<subseteq> owned tr" using free(3) by (auto simp: owned_def)
    then show "span k b \<inter> precommit_blocks fs \<inter> sb_blocks shared \<subseteq> owned tr" "sb_blocks shared \<union> span k b \<inter> precommit_blocks fs \<subseteq> sb_blocks shared"
      using own by blast+
  qed (use new in auto)
next
  case (release trs t tr bs k mem tr' shared)
  have tr: "tr_wf tr" "sb_wf shared" using release by auto
  note new = release_journal_blocks_spec [OF tr(1) release(2-6)]
  show ?case by (rule isolated_update [OF release(7,1) tr(2), where B = "{}"]) (use new in auto)
qed

section \<open>Properties\<close>

text \<open>A filesystem of two free allocation blocks, each of them a journal block.\<close>

definition example_fs :: fs_sync_state where
  "example_fs = \<lparr>fs_alloc_bitmap = \<lparr>bitmap = [0]\<rparr>, fs_image_size = 2,
     fs_image_layout = \<lparr>allocation_block_size_128b_log2 = 0, io_block_allocation_blocks_log2 = 0, auth_tree_node_io_blocks_log2 = 0,
       auth_tree_data_block_allocation_blocks_log2 = 0, allocation_bitmap_file_block_allocation_blocks_log2 = 0,
       index_tree_leaf_node_allocation_blocks_log2 = 0, index_tree_internal_node_allocation_blocks_log2 = 0,
       auth_tree_node_hash_alg = Sha256, auth_tree_data_hmac_hash_alg = Sha256, auth_tree_root_hmac_hash_alg = Sha256,
       preauth_cca_protection_hmac_hash_alg = Sha256, kdf_hash_alg = Sha256, block_cipher_alg = AesCipher Aes256\<rparr>\<rparr>"

lemma example_fs_ok: "fs_ok example_fs"
  by (simp add: fs_ok_def example_fs_def journal_block_log2_def)

lemma example_blocks: "ab_blocks (fs_alloc_bitmap example_fs) = {}" "precommit_blocks example_fs = UNIV" "fs_image_size example_fs = 2"
  by (auto simp: example_fs_def ab_blocks_def dense_bits_def free_journal_blocks_def)

lemma example_free: "b < 2 \<Longrightarrow> b \<in> free_for example_fs shared tr c 0 \<longleftrightarrow>
    b \<notin> (sb_blocks (ta_pending_allocs tr) \<union> sb_blocks (ta_journal_allocs tr) \<union> sb_blocks shared)
      - (sb_blocks (constrained_frees c tr) \<union> sb_blocks (ta_journal_frees tr))"
  by (auto simp: free_for_def taken_for_def example_blocks)

lemma example_free_set: "free_for example_fs shared tr c 0 = {b \<in> {0, 1}.
    b \<notin> (sb_blocks (ta_pending_allocs tr) \<union> sb_blocks (ta_journal_allocs tr) \<union> sb_blocks shared)
      - (sb_blocks (constrained_frees c tr) \<union> sb_blocks (ta_journal_frees tr))}"
proof -
  have "b \<in> {0, 1} \<longleftrightarrow> b < 2" for b :: nat by auto
  then show ?thesis using example_free [of _ shared tr c] free_for_bound [of _ example_fs shared tr c 0] unfolding example_blocks by blast
qed

text \<open>
  C6: The handler that allocates one block for a transaction never panics. It answers
  \<open>NoSpace\<close>, with nothing changed, exactly when no aligned block of the image is free for the
  transaction; otherwise it returns such a block, registers with the shared state the part of it
  that may be written to before the commit, and moves it from the sets of freed blocks of the
  transaction to its allocations; only when the memory is short does it fail with the transaction
  unchanged and the block deregistered.
\<close>

theorem allocate_block_correct:
  assumes "fs_ok fs" "tr_wf tr" "sb_wf shared" "k \<le> 6"
  shows "(free_for fs shared tr c k = {} \<and> allocate_block mem_shared mem_tr fs shared (Some tr) k c = Ok (shared, Inr (tr, Inl NoSpace)))
    \<or> (\<exists>b \<in> free_for fs shared tr c k. \<exists>shared' tr'. allocate_block mem_shared mem_tr fs shared (Some tr) k c = Ok (shared', Inr (tr', Inr b))
        \<and> sb_wf shared' \<and> sb_blocks shared' = sb_blocks shared \<union> span k b \<inter> precommit_blocks fs \<and> recorded c tr (span k b) tr')
    \<or> (\<exists>b \<in> free_for fs shared tr c k. \<exists>shared'. allocate_block mem_shared mem_tr fs shared (Some tr) k c = Ok (shared', Inr (tr, Inl MemoryAllocationFailure))
        \<and> sb_wf shared' \<and> sb_blocks shared' = sb_blocks shared - span k b \<and> \<not> ((\<forall>l m. mem_shared l m) \<and> (\<forall>l m. mem_tr l m)))"
  using assms by (rule allocate_block_spec)

lemma sb_new_wf: "sb_wf sb_new" "sb_blocks sb_new = {}"
  by (simp_all add: sb_new_def sb_wf_def sb_sorted_def sb_blocks_def)

lemma new_transaction_blocks:
  "sb_blocks (ta_pending_allocs transaction_allocations_new) = {}" "sb_blocks (ta_journal_allocs transaction_allocations_new) = {}"
  "sb_blocks (ta_pending_frees transaction_allocations_new) = {}" "sb_blocks (ta_journal_frees transaction_allocations_new) = {}"
  using new_transaction(2) by (auto simp: owned_def)

theorem allocate_block_correct_witness:
  "\<exists>b < 2. \<exists>shared tr. allocate_block (\<lambda>_ _. True) (\<lambda>_ _. True) example_fs sb_new (Some transaction_allocations_new) 0 Regular = Ok (shared, Inr (tr, Inr b))
     \<and> sb_blocks shared = {b} \<and> sb_blocks (ta_pending_allocs tr) = {b}"
proof -
  have ne: "free_for example_fs sb_new transaction_allocations_new Regular 0 \<noteq> {}"
    using example_free [of 0 sb_new transaction_allocations_new Regular] by (auto simp: sb_new_wf new_transaction_blocks)
  from allocate_block_correct [OF example_fs_ok new_transaction(1) sb_new_wf(1), of 0 Regular "\<lambda>_ _. True" "\<lambda>_ _. True"] ne
  show ?thesis by (auto simp: example_blocks sb_new_wf new_transaction_blocks recorded_def dest!: free_for_bound)
qed

text \<open>
  C7: The handler that allocates several blocks for a transaction never panics and searches until it
  has found all of them: it succeeds, unless the memory is short, exactly when the image has at least
  that many aligned blocks free for the transaction. Then it returns the requested number of
  distinct blocks in ascending order, registers them with the shared state and records them with the
  transaction. Otherwise it returns \<open>NoSpace\<close> without the transaction and leaves the shared
  state as it was.
\<close>

theorem allocate_blocks_correct:
  assumes "fs_ok fs" "tr_wf tr" "sb_wf shared" "k \<le> 6"
  shows "(card (free_for fs shared tr c k) < num \<and> allocate_blocks mem_shared mem_tr fs shared (Some tr) k num c = Ok (shared, Inl NoSpace))
    \<or> (\<exists>bs shared' tr'. allocate_blocks mem_shared mem_tr fs shared (Some tr) k num c = Ok (shared', Inr (tr', Inr bs))
        \<and> sorted bs \<and> distinct bs \<and> length bs = num \<and> set bs \<subseteq> free_for fs shared tr c k
        \<and> sb_wf shared' \<and> sb_blocks shared' = sb_blocks shared \<union> spans k bs \<inter> precommit_blocks fs \<and> recorded c tr (spans k bs) tr')
    \<or> (\<exists>bs shared'. set bs \<subseteq> free_for fs shared tr c k \<and> num \<le> card (free_for fs shared tr c k)
        \<and> allocate_blocks mem_shared mem_tr fs shared (Some tr) k num c = Ok (shared', Inr (tr, Inl MemoryAllocationFailure))
        \<and> sb_wf shared' \<and> sb_blocks shared - spans k bs \<subseteq> sb_blocks shared' \<and> sb_blocks shared' \<subseteq> sb_blocks shared
        \<and> \<not> ((\<forall>l m. mem_shared l m) \<and> (\<forall>l m. mem_tr l m)))"
  using assms by (rule allocate_blocks_spec)

lemma example_free_card:
  "free_for example_fs sb_new transaction_allocations_new c 0 = {0, 1}"
  by (auto simp: example_free_set sb_new_wf new_transaction_blocks)

lemma example_too_many: "\<not> (distinct bs \<and> length bs = 3 \<and> set bs \<subseteq> {0, 1 :: nat})"
proof
  assume a: "distinct bs \<and> length bs = 3 \<and> set bs \<subseteq> {0, 1 :: nat}"
  then have "card (set bs) \<le> card {0, 1 :: nat}" by (intro card_mono) simp_all
  then show False using a by (simp add: distinct_card)
qed

theorem allocate_blocks_correct_witness:
  "allocate_blocks (\<lambda>_ _. True) (\<lambda>_ _. True) example_fs sb_new (Some transaction_allocations_new) 0 3 Journal = Ok (sb_new, Inl NoSpace)"
  using allocate_blocks_correct [OF example_fs_ok new_transaction(1) sb_new_wf(1), of 0 Journal 3 "\<lambda>_ _. True" "\<lambda>_ _. True"]
  unfolding example_free_card using example_too_many by auto

text \<open>
  C2: In every run of pending transactions that allocate blocks, free blocks and release journal blocks,
  in any interleaving and with any of the allocation constraints, no two of them ever hold the same
  block of a journal block that is free in the committed state, that is, of those that a transaction
  may write to before its commit; and the shared state has registered all of them. The runs have every
  outcome of an allocation but one: that it fails for want of memory while the transaction holds freed
  blocks of this kind that it may allocate again. That failure loses registrations,
  as the last property of this theory shows, and isolation with them. Allocations of extents and commits are not
  steps of the runs.
\<close>

theorem pending_transactions_isolated:
  assumes "fs_ok fs" "(pending_step fs)\<^sup>*\<^sup>* (sb_new, \<lambda>_. None) (shared, trs)" "trs t = Some a" "trs t' = Some b" "t \<noteq> t'"
  shows "(sb_blocks (ta_pending_allocs a) \<union> sb_blocks (ta_journal_allocs a)) \<inter> (sb_blocks (ta_pending_allocs b) \<union> sb_blocks (ta_journal_allocs b))
      \<inter> precommit_blocks fs = {}
    \<and> (sb_blocks (ta_pending_allocs a) \<union> sb_blocks (ta_journal_allocs a)) \<inter> precommit_blocks fs \<subseteq> sb_blocks shared"
proof -
  from assms(2) have "isolated fs (shared, trs)"
  proof (induction rule: rtranclp_induct)
    case base
    then show ?case by (simp add: sb_new_wf)
  next
    case (step x y)
    then show ?case by (intro pending_step_isolated [OF assms(1) step(2)])
  qed
  from isolatedD [OF this assms(3)] assms(4,5) have "owned a \<inter> owned b \<inter> precommit_blocks fs = {}" "owned a \<inter> precommit_blocks fs \<subseteq> sb_blocks shared"
    by simp_all
  note own = this
  have sub: "sb_blocks (ta_pending_allocs x) \<union> sb_blocks (ta_journal_allocs x) \<subseteq> owned x" for x by (auto simp: owned_def)
  show ?thesis
    using Int_mono [OF Int_mono [OF sub [of a] sub [of b]] order_refl [of "precommit_blocks fs"]] Int_mono [OF sub [of a] order_refl [of "precommit_blocks fs"]] own
    by (simp only: subset_empty) (intro conjI refl, rule subset_trans)
qed

text \<open>Two transactions that allocate one block each.\<close>

lemma example_run:
  "\<exists>shared a b. (pending_step example_fs)\<^sup>*\<^sup>* (sb_new, \<lambda>_. None) (shared, [0 \<mapsto> a, 1 \<mapsto> b])
     \<and> card (sb_blocks (ta_pending_allocs a)) = 1 \<and> card (sb_blocks (ta_journal_allocs b)) = 1"
proof -
  let ?N = transaction_allocations_new and ?T = "\<lambda>_ _. True"
  let ?alloc = "\<lambda>shared c. allocate_block ?T ?T example_fs shared (Some ?N) 0 c"
  from allocate_block_spec [OF example_fs_ok new_transaction(1) sb_new_wf(1), of 0 Regular ?T ?T] example_free_card [of Regular]
  obtain b1 s1 t1 where r1: "?alloc sb_new Regular = Ok (s1, Inr (t1, Inr b1))" "sb_wf s1" "sb_blocks s1 = {b1}" "recorded Regular ?N {b1} t1"
    by (auto simp: example_blocks sb_new_wf)
  define b2 :: nat where "b2 = (if b1 = 0 then 1 else 0)"
  have b2: "b2 < 2" "b2 \<noteq> b1" by (simp_all add: b2_def)
  have "b2 \<in> free_for example_fs s1 ?N Journal 0" using b2 r1(3) by (simp add: example_free new_transaction_blocks)
  with allocate_block_spec [OF example_fs_ok new_transaction(1) r1(2), of 0 Journal ?T ?T]
  obtain b3 s2 t2 where r2: "?alloc s1 Journal = Ok (s2, Inr (t2, Inr b3))" "recorded Journal ?N {b3} t2" by auto
  have p1: "pending_step example_fs (sb_new, \<lambda>_. None) (sb_new, [0 \<mapsto> ?N])" by (rule start) simp
  have p2: "pending_step example_fs (sb_new, [0 \<mapsto> ?N]) (sb_new, [0 \<mapsto> ?N, 1 \<mapsto> ?N])" by (rule start) simp
  have p3: "pending_step example_fs (sb_new, [0 \<mapsto> ?N, 1 \<mapsto> ?N]) (s1, [0 \<mapsto> ?N, 1 \<mapsto> ?N, 0 \<mapsto> t1])"
    by (rule alloc_one [OF _ _ r1(1)]) simp_all
  have p4: "pending_step example_fs (s1, [0 \<mapsto> ?N, 1 \<mapsto> ?N, 0 \<mapsto> t1]) (s2, [0 \<mapsto> ?N, 1 \<mapsto> ?N, 0 \<mapsto> t1, 1 \<mapsto> t2])"
    by (rule alloc_one [OF _ _ r2(1)]) simp_all
  have "(pending_step example_fs)\<^sup>*\<^sup>* (sb_new, \<lambda>_. None) (s2, [0 \<mapsto> ?N, 1 \<mapsto> ?N, 0 \<mapsto> t1, 1 \<mapsto> t2])"
    by (rule rtranclp.rtrancl_into_rtrancl [where r = "pending_step example_fs", OF
        rtranclp.rtrancl_into_rtrancl [where r = "pending_step example_fs", OF
        rtranclp.rtrancl_into_rtrancl [where r = "pending_step example_fs", OF
        r_into_rtranclp [where r = "pending_step example_fs", OF p1] p2] p3] p4])
  moreover have "[0 \<mapsto> ?N, 1 \<mapsto> ?N, 0 \<mapsto> t1, 1 \<mapsto> t2] = [0 \<mapsto> t1, 1 :: nat \<mapsto> t2]" by auto
  ultimately have "(pending_step example_fs)\<^sup>*\<^sup>* (sb_new, \<lambda>_. None) (s2, [0 \<mapsto> t1, 1 \<mapsto> t2])" by simp
  moreover have "sb_blocks (ta_pending_allocs t1) = {b1}" "sb_blocks (ta_journal_allocs t2) = {b3}"
    using r1(4) r2(2) by (auto simp: recorded_def new_transaction_blocks)
  ultimately show ?thesis by (intro exI [of _ s2] exI [of _ t1] exI [of _ t2]) simp
qed

theorem pending_transactions_isolated_witness:
  "\<exists>shared a b. (pending_step example_fs)\<^sup>*\<^sup>* (sb_new, \<lambda>_. None) (shared, [0 \<mapsto> a, 1 \<mapsto> b])
     \<and> card (sb_blocks (ta_pending_allocs a)) = 1 \<and> card (sb_blocks (ta_journal_allocs b)) = 1
     \<and> sb_blocks (ta_pending_allocs a) \<inter> sb_blocks (ta_journal_allocs b) = {}"
proof -
  from example_run obtain shared a b where r: "(pending_step example_fs)\<^sup>*\<^sup>* (sb_new, \<lambda>_. None) (shared, [0 \<mapsto> a, 1 \<mapsto> b])"
    "card (sb_blocks (ta_pending_allocs a)) = 1" "card (sb_blocks (ta_journal_allocs b)) = 1" by blast
  from pending_transactions_isolated [OF example_fs_ok r(1), of 0 a 1 b] have "sb_blocks (ta_pending_allocs a) \<inter> sb_blocks (ta_journal_allocs b) = {}"
    unfolding example_blocks by auto
  then show ?thesis using r by blast
qed

text \<open>
  C35: Registering extents of a transaction that are pairwise disjoint and none of whose blocks is
  registered yet adds to the shared state exactly the blocks of theirs that lie in journal blocks free in
  the committed state; when the memory is short all of them are deregistered, and the shared state
  tracks the blocks it did before. Extents that a transaction takes from the ones it has freed are
  registered already and not covered: their registration may panic (\<open>sb_add_extent_interior\<close>), or be
  lost when the memory is short.
\<close>

theorem register_allocated_extents_correct:
  assumes "journal_block_log2 (fs_image_layout fs) \<le> 6" "sb_wf sb" "\<forall>q \<in> set qs. extent_ok fs q" "pairwise_disjoint qs"
    "sb_blocks sb \<inter> blocks_of qs = {}"
  shows "(\<exists>sb'. register_allocated_extents mem fs sb qs = Ok (sb', Inr ()) \<and> sb_wf sb' \<and> sb_blocks sb' = sb_blocks sb \<union> blocks_of qs \<inter> precommit_blocks fs)
    \<or> (\<exists>sb'. register_allocated_extents mem fs sb qs = Ok (sb', Inl MemoryAllocationFailure) \<and> sb_wf sb' \<and> sb_blocks sb' = sb_blocks sb
       \<and> \<not> (\<forall>l m. mem l m))"
  using register_extents_loop_spec [OF assms(1,2), of "[]" qs mem] assms(3-) by (simp add: register_allocated_extents_def)

theorem register_allocated_extents_correct_witness:
  "\<exists>sb. register_allocated_extents (\<lambda>_ _. True) example_fs sb_new [mk_range 1 2, mk_range 70 200] = Ok (sb, Inr ())
     \<and> sb_blocks sb = {1} \<union> {70..<200}"
proof -
  have "extent_ok example_fs (mk_range 1 2)" "extent_ok example_fs (mk_range 70 200)" "journal_block_log2 (fs_image_layout example_fs) \<le> 6"
    by (simp_all add: extent_ok_def example_fs_def journal_block_log2_def)
  moreover have "blocks (mk_range 1 2) = {1}" "blocks (mk_range 70 200) = {70..<200}" by (auto simp: blocks_def)
  ultimately show ?thesis
    using register_allocated_extents_correct [of example_fs sb_new "[mk_range 1 2, mk_range 70 200]" "\<lambda>_ _. True"]
    by (auto simp: sb_new_wf example_blocks)
qed

lemma record_block_fails:
  "record_block (\<lambda>_ _. False) (transaction_allocations_new\<lparr>ta_journal_frees := frees\<rparr>) Journal 0 0
     = Ok (transaction_allocations_new\<lparr>ta_journal_frees := frees\<rparr>, Inl MemoryAllocationFailure)"
  by (simp add: record_block_def sb_add_block_def block_range_of_def block_range_from_def transaction_allocations_new_def sb_new_def
      sb_add_extent_def populate_missing_in_range_def bitmap_words_of_range_eq range_wf_def find_entry_position_def partition_point_def
      prune_unused_in_range_def entry_position_def)

text \<open>
  C39: When the memory for the bookkeeping of a transaction runs out while it allocates a block that
  it had freed before, the rollback deregisters the block although its registration is older than
  the attempt. The block stays in \<open>journal_frees\<close>, from where the transaction may allocate it
  again, and another transaction is given it in the meantime.
\<close>

theorem rollback_loses_registration:
  "\<exists>shared tr shared' shared'' tr''. tr_wf tr \<and> sb_wf shared \<and> sb_blocks shared = {0, 1} \<and> sb_blocks (ta_journal_frees tr) = {0}
     \<and> allocate_block (\<lambda>_ _. True) (\<lambda>_ _. False) example_fs shared (Some tr) 0 Journal = Ok (shared', Inr (tr, Inl MemoryAllocationFailure))
     \<and> allocate_block (\<lambda>_ _. True) (\<lambda>_ _. True) example_fs shared' (Some transaction_allocations_new) 0 Journal = Ok (shared'', Inr (tr'', Inr 0))"
proof -
  let ?N = transaction_allocations_new
  have al: "aligned_block 1 0" "aligned_block 0 0" by (simp_all add: aligned_block_def)
  have sp: "span 1 0 = {0, 1}" "span 0 0 = {0}" by auto
  from sb_add_aligned_block [OF sb_new_wf(1) al(1), of "\<lambda>_ _. True"] sb_add_aligned_block [OF sb_new_wf(1) al(2), of "\<lambda>_ _. True"]
  obtain shared frees where wf: "sb_wf shared" "sb_blocks shared = {0, 1}" "sb_wf frees" "sb_blocks frees = {0}"
    unfolding sp by (auto simp: sb_new_wf)
  let ?tr = "?N\<lparr>ta_journal_frees := frees\<rparr>"
  have tr: "tr_wf ?tr" using wf(3) new_transaction(1) by (simp add: tr_wf_def new_transaction_blocks)
  have free: "free_for example_fs shared ?tr Journal 0 = {0}"
    by (auto simp: example_free_set wf(2,4) new_transaction_blocks constrained_frees_def sb_new_wf)
  from find_for_transaction_spec [OF example_fs_ok tr wf(1), of 0 "[]" Journal None] free
  have found: "find_for_transaction example_fs shared ?tr Journal 0 [] None = Ok (Some 0)" by (auto split: option.splits)
  have "journal_block_log2 (fs_image_layout example_fs) \<le> 6" using example_fs_ok by (simp add: fs_ok_def)
  from register_block_spec [OF al(2) this wf(1), of "\<lambda>_ _. True"] obtain s1
    where s1: "register_allocated_block (\<lambda>_ _. True) example_fs shared 0 0 = Ok (s1, Inr ())" "sb_wf s1" "sb_blocks s1 = {0, 1}"
    unfolding sp wf(2) by auto
  from deregister_block_spec [OF s1(2) al(2)] obtain s2
    where s2: "deregister_allocated_block s1 0 0 = Ok s2" "sb_wf s2" "sb_blocks s2 = {1}" unfolding sp s1(3) by auto
  have one: "allocate_block (\<lambda>_ _. True) (\<lambda>_ _. False) example_fs shared (Some ?tr) 0 Journal = Ok (s2, Inr (?tr, Inl MemoryAllocationFailure))"
    using found s1(1) s2(1) record_block_fails [of frees] by (simp add: allocate_block_def)
  have free2: "free_for example_fs s2 ?N Journal 0 = {0}"
    by (auto simp: example_free_set s2(3) new_transaction_blocks constrained_frees_def sb_new_wf)
  from allocate_block_spec [OF example_fs_ok new_transaction(1) s2(2), of 0 Journal "\<lambda>_ _. True" "\<lambda>_ _. True"] obtain s3 t3
    where "allocate_block (\<lambda>_ _. True) (\<lambda>_ _. True) example_fs s2 (Some ?N) 0 Journal = Ok (s3, Inr (t3, Inr 0))"
    unfolding free2 by auto
  then show ?thesis using one tr wf by (intro exI [of _ shared] exI [of _ ?tr] exI [of _ s2] exI [of _ s3] exI [of _ t3]) simp
qed

end
