(* ===== verification/Logical_Extents.thy ===== *)
theory Logical_Extents
  imports Physical_Extents
begin

text \<open>
  The map from a file's logical blocks to physical storage, \<open>LogicalExtents\<close> of
  \<open>src/storage/src/fs/cocoonfs/extents.rs\<close>: a vector of \<open>(physical begin, logical end)\<close>
  pairs, with its lookups by binary search and its iterators.

  The abstraction \<open>le_seq\<close> lists the physical block of each logical block. The theorems relate
  the lookups and the iterators to positions of this list and show that the conversions from and
  to \<open>PhysicalExtents\<close> are inverse to each other. The iterator over a range starts at the first
  extent of the file instead of the first one of the range; what it yields is stated as it is.
\<close>

type_synonym logical_extents = "(nat \<times> nat) list"

record logical_extent =
  extent_logical_begin :: nat
  extent_physical_begin :: nat
  extent_block_count :: nat

record logical_extents_range =
  range_index_first :: nat
  range_index_last :: nat
  range_offset_in_first :: nat
  range_end_in_last :: nat

record logical_extents_range_iterator =
  it_extents :: logical_extents
  it_range :: "logical_extents_range option"
  it_index :: nat

section \<open>Operations\<close>

definition allocation_block_count :: "logical_extents \<Rightarrow> nat" where
  "allocation_block_count es = (if es = [] then 0 else snd (last es))"

definition extend_by_physical :: "bool \<Rightarrow> logical_extents \<Rightarrow> block_range \<Rightarrow> logical_extents outcome" where
  "extend_by_physical mem es physical_extent =
     (if \<not> mem then Err MemoryAllocationFailure
      else and_then (block_count physical_extent) (\<lambda>c.
           and_then (add_u64 (allocation_block_count es) c) (\<lambda>logical_end.
           Ok (es @ [(range_begin physical_extent, logical_end)]))))"

definition entry_logical_range :: "logical_extents \<Rightarrow> nat \<Rightarrow> block_range outcome" where
  "entry_logical_range es index =
     and_then (if index \<noteq> 0 then and_then (vec_get es (index - 1)) (\<lambda>e. Ok (snd e)) else Ok 0) (\<lambda>b.
     and_then (vec_get es index) (\<lambda>e. block_range_new b (snd e)))"

definition get_extent :: "logical_extents \<Rightarrow> nat \<Rightarrow> logical_extent outcome" where
  "get_extent es i =
     and_then (entry_logical_range es i) (\<lambda>logical_range.
     and_then (vec_get es i) (\<lambda>e.
     and_then (block_count logical_range) (\<lambda>c.
     Ok \<lparr>extent_logical_begin = range_begin logical_range, extent_physical_begin = fst e,
         extent_block_count = c\<rparr>)))"

definition lookup :: "logical_extents \<Rightarrow> nat \<Rightarrow> logical_extent option outcome" where
  "lookup es query =
     (let index = partition_point (\<lambda>extent. snd extent \<le> query) es in
      if index = length es then Ok None
      else
        and_then (entry_logical_range es index) (\<lambda>logical_range.
        and_then (vec_get es index) (\<lambda>e.
        and_then (sub_u64 query (range_begin logical_range)) (\<lambda>offset_in_extent.
        and_then (add_u64 (range_begin logical_range) offset_in_extent) (\<lambda>logical_begin.
        and_then (add_u64 (fst e) offset_in_extent) (\<lambda>physical_begin.
        and_then (sub_u64 (range_end logical_range) logical_begin) (\<lambda>c.
        Ok (Some \<lparr>extent_logical_begin = logical_begin, extent_physical_begin = physical_begin,
                  extent_block_count = c\<rparr>))))))))"

text \<open>
  The two loops of \<open>lookup_range\<close>. The first one returns the entry that contains the begin of
  the query and an upper bound for the entry that contains its end. A search interval with
  \<open>u < l\<close> is not entered; the branch for it only makes the functions total.
\<close>

function lookup_index_first :: "logical_extents \<Rightarrow> block_range \<Rightarrow> nat \<Rightarrow> nat \<Rightarrow> nat \<Rightarrow> (nat \<times> nat) option outcome" where
  "lookup_index_first es q l u u_index_last =
     (if u < l then Panic
      else let i = midpoint l u in
        and_then (entry_logical_range es i) (\<lambda>r.
        if range_begin q < range_begin r then
          and_then (sub_u64 i 1) (\<lambda>u'.
          let u_index_last' = (if range_end q \<le> range_begin r then u' else u_index_last) in
          if u' < l then Ok None else lookup_index_first es q l u' u_index_last')
        else if range_begin q \<ge> range_end r then
          if u < i + 1 then Ok None else lookup_index_first es q (i + 1) u u_index_last
        else Ok (Some (i, u_index_last))))"
  by pat_completeness auto
termination
  by (relation "measure (\<lambda>(es, q, l, u, ul). Suc u - l)") (auto simp: outcome_simps)

function lookup_index_last :: "logical_extents \<Rightarrow> block_range \<Rightarrow> nat \<Rightarrow> nat \<Rightarrow> nat option outcome" where
  "lookup_index_last es q l u =
     (if u < l then Panic
      else let i = midpoint l u in
        and_then (entry_logical_range es i) (\<lambda>r.
        if range_end q \<le> range_begin r then
          and_then (sub_u64 i 1) (\<lambda>u'. if u' < l then Ok None else lookup_index_last es q l u')
        else if range_end q > range_end r then
          if u < i + 1 then Ok None else lookup_index_last es q (i + 1) u
        else Ok (Some i)))"
  by pat_completeness auto
termination
  by (relation "measure (\<lambda>(es, q, l, u). Suc u - l)") (auto simp: outcome_simps)

declare lookup_index_first.simps [simp del] lookup_index_last.simps [simp del]

definition lookup_range :: "logical_extents \<Rightarrow> block_range \<Rightarrow> logical_extents_range option outcome" where
  "lookup_range es q =
     debug_assert (range_begin q < range_end q)
     (debug_assert (es \<noteq> [])
     (and_then (entry_logical_range es (length es - 1)) (\<lambda>r.
      debug_assert (range_end q \<le> range_end r)
      (and_then (lookup_index_first es q 0 (length es - 1) (length es - 1)) (\<lambda>found.
       case found of None \<Rightarrow> Ok None
       | Some (index_first, u_index_last) \<Rightarrow>
         and_then (lookup_index_last es q index_first u_index_last) (\<lambda>found.
         case found of None \<Rightarrow> Ok None
         | Some index_last \<Rightarrow>
           and_then (entry_logical_range es index_first) (\<lambda>rf.
           and_then (sub_u64 (range_begin q) (range_begin rf)) (\<lambda>offset_in_first.
           and_then (entry_logical_range es index_last) (\<lambda>rl.
           and_then (sub_u64 (range_end q) (range_begin rl)) (\<lambda>end_in_last.
           Ok (Some \<lparr>range_index_first = index_first, range_index_last = index_last,
                     range_offset_in_first = offset_in_first, range_end_in_last = end_in_last\<rparr>)))))))))))"

definition range_iterator_new :: "logical_extents \<Rightarrow> logical_extents_range \<Rightarrow> logical_extents_range_iterator" where
  "range_iterator_new es r = \<lparr>it_extents = es, it_range = Some r, it_index = 0\<rparr>"

definition iter :: "logical_extents \<Rightarrow> logical_extents_range_iterator outcome" where
  "iter es =
     (if es \<noteq> [] then
        let index_last = length es - 1 in
        and_then (entry_logical_range es index_last) (\<lambda>r.
        and_then (block_count r) (\<lambda>end_in_last.
        Ok \<lparr>it_extents = es,
            it_range = Some \<lparr>range_index_first = 0, range_index_last = index_last, range_offset_in_first = 0,
                             range_end_in_last = end_in_last\<rparr>,
            it_index = 0\<rparr>))
      else Ok \<lparr>it_extents = es, it_range = None, it_index = 0\<rparr>)"

definition iter_range :: "logical_extents \<Rightarrow> block_range \<Rightarrow> logical_extents_range_iterator option outcome" where
  "iter_range es q = and_then (lookup_range es q) (\<lambda>r. Ok (map_option (range_iterator_new es) r))"

definition range_iterator_next ::
  "logical_extents_range_iterator \<Rightarrow> (logical_extent option \<times> logical_extents_range_iterator) outcome" where
  "range_iterator_next it =
     (case it_range it of None \<Rightarrow> Ok (None, it)
      | Some r \<Rightarrow>
        let index = it_index it in
        if index = range_index_last r + 1 then Ok (None, it)
        else
          let it = it\<lparr>it_index := index + 1\<rparr> in
          and_then (entry_logical_range (it_extents it) index) (\<lambda>logical_range.
          and_then (vec_get (it_extents it) index) (\<lambda>e.
          and_then (if index = range_index_first r
                    then and_then (add_u64 (range_begin logical_range) (range_offset_in_first r)) (\<lambda>lb.
                         and_then (add_u64 (fst e) (range_offset_in_first r)) (\<lambda>pb. Ok (lb, pb)))
                    else Ok (range_begin logical_range, fst e)) (\<lambda>(logical_begin, physical_begin).
          and_then (if index \<noteq> range_index_last r then Ok (range_end logical_range)
                    else add_u64 (range_begin logical_range) (range_end_in_last r)) (\<lambda>logical_end.
          and_then (sub_u64 logical_end logical_begin) (\<lambda>c.
          Ok (Some \<lparr>extent_logical_begin = logical_begin, extent_physical_begin = physical_begin,
                    extent_block_count = c\<rparr>, it)))))))"

text \<open>A client's loop over the iterator. Every step takes one more entry of the vector.\<close>

lemma range_iterator_next_progress:
  assumes "range_iterator_next it = Ok (Some x, it')"
  shows "it_extents it' = it_extents it \<and> it_index it' = it_index it + 1 \<and> it_index it < length (it_extents it)"
  using assms
  by (auto simp: range_iterator_next_def Let_def entry_logical_range_def outcome_simps
      split: option.splits if_splits)

function range_iterator_collect :: "logical_extents_range_iterator \<Rightarrow> logical_extent list outcome" where
  "range_iterator_collect it =
     and_then (range_iterator_next it) (\<lambda>(item, it').
     case item of None \<Rightarrow> Ok []
     | Some x \<Rightarrow> and_then (range_iterator_collect it') (\<lambda>xs. Ok (x # xs)))"
  by pat_completeness auto
termination
  by (relation "measure (\<lambda>it. length (it_extents it) - it_index it)")
    (auto dest!: range_iterator_next_progress)

declare range_iterator_collect.simps [simp del]

definition logical_range :: "logical_extent \<Rightarrow> block_range outcome" where
  "logical_range x =
     and_then (add_u64 (extent_logical_begin x) (extent_block_count x)) (block_range_new (extent_logical_begin x))"

definition physical_range :: "logical_extent \<Rightarrow> block_range outcome" where
  "physical_range x =
     and_then (add_u64 (extent_physical_begin x) (extent_block_count x)) (block_range_new (extent_physical_begin x))"

section \<open>Conversions\<close>

fun counts_to_logical_ends :: "nat \<Rightarrow> physical_extents \<Rightarrow> logical_extents outcome" where
  "counts_to_logical_ends logical_end [] = Ok []"
| "counts_to_logical_ends logical_end (e # es) =
     and_then (add_u64 logical_end (snd e)) (\<lambda>logical_end.
     and_then (counts_to_logical_ends logical_end es) (\<lambda>es. Ok ((fst e, logical_end) # es)))"

definition logical_from_physical :: "physical_extents \<Rightarrow> logical_extents outcome" where
  "logical_from_physical es = counts_to_logical_ends 0 es"

fun logical_ends_to_counts :: "nat \<Rightarrow> logical_extents \<Rightarrow> physical_extents outcome" where
  "logical_ends_to_counts last_logical_end [] = Ok []"
| "logical_ends_to_counts last_logical_end (e # es) =
     and_then (sub_u64 (snd e) last_logical_end) (\<lambda>c.
     and_then (logical_ends_to_counts (snd e) es) (\<lambda>es. Ok ((fst e, c) # es)))"

definition physical_from_logical :: "logical_extents \<Rightarrow> physical_extents outcome" where
  "physical_from_logical es = logical_ends_to_counts 0 es"

section \<open>Invariant and abstraction\<close>

fun le_wf_from :: "nat \<Rightarrow> logical_extents \<Rightarrow> bool" where
  "le_wf_from l [] \<longleftrightarrow> True"
| "le_wf_from l (e # es) \<longleftrightarrow>
     l < snd e \<and> snd e < u64_bound \<and> fst e + (snd e - l) < u64_bound \<and> le_wf_from (snd e) es"

fun le_seq_from :: "nat \<Rightarrow> logical_extents \<Rightarrow> nat list" where
  "le_seq_from l [] = []"
| "le_seq_from l (e # es) = [fst e..<fst e + (snd e - l)] @ le_seq_from (snd e) es"

definition le_wf :: "logical_extents \<Rightarrow> bool" where
  "le_wf es \<longleftrightarrow> le_wf_from 0 es"

definition le_seq :: "logical_extents \<Rightarrow> nat list" where
  "le_seq es = le_seq_from 0 es"

definition end_after :: "nat \<Rightarrow> logical_extents \<Rightarrow> nat" where
  "end_after l es = (if es = [] then l else snd (last es))"

lemma end_after_simps [simp]:
  "end_after l [] = l" "end_after l (e # es) = end_after (snd e) es"
  "end_after l (es @ [e]) = snd e" "end_after l (es @ e # fs) = end_after (snd e) fs"
  by (simp_all add: end_after_def)

lemma le_wf_from_append [simp]:
  "le_wf_from l (es @ fs) \<longleftrightarrow> le_wf_from l es \<and> le_wf_from (end_after l es) fs"
  by (induction es arbitrary: l) auto

lemma le_seq_from_append [simp]:
  "le_seq_from l (es @ fs) = le_seq_from l es @ le_seq_from (end_after l es) fs"
  by (induction es arbitrary: l) auto

lemma le_seq_from_length: "le_wf_from l es \<Longrightarrow> length (le_seq_from l es) + l = end_after l es"
  by (induction es arbitrary: l) fastforce+

definition entry_begin :: "logical_extents \<Rightarrow> nat \<Rightarrow> nat" where
  "entry_begin es i = end_after 0 (take i es)"

lemma entry_begin_0 [simp]: "entry_begin es 0 = 0"
  by (simp add: entry_begin_def)

lemma entry_begin_Suc: "i < length es \<Longrightarrow> entry_begin es (Suc i) = snd (es ! i)"
  by (simp add: entry_begin_def take_Suc_conv_app_nth)

lemma length_le_seq: "le_wf es \<Longrightarrow> length (le_seq es) = allocation_block_count es"
  using le_seq_from_length [of 0 es] by (simp add: le_wf_def le_seq_def end_after_def allocation_block_count_def)

text \<open>The vector and its block list around an entry.\<close>

lemma le_at:
  assumes "le_wf es" "i < length es"
  shows "entry_begin es i < snd (es ! i)" "snd (es ! i) < u64_bound"
    "fst (es ! i) + (snd (es ! i) - entry_begin es i) < u64_bound"
    "length (le_seq_from 0 (take i es)) = entry_begin es i"
    "le_seq es = le_seq_from 0 (take i es) @ [fst (es ! i)..<fst (es ! i) + (snd (es ! i) - entry_begin es i)]
       @ le_seq_from (snd (es ! i)) (drop (Suc i) es)"
proof -
  have es: "es = take i es @ es ! i # drop (Suc i) es" using assms(2) by (rule id_take_nth_drop)
  have wf: "le_wf_from 0 (take i es @ es ! i # drop (Suc i) es)"
    using assms(1) by (simp add: le_wf_def flip: es)
  then show "entry_begin es i < snd (es ! i)" "snd (es ! i) < u64_bound"
    "fst (es ! i) + (snd (es ! i) - entry_begin es i) < u64_bound"
    by (simp_all only: entry_begin_def le_wf_from_append le_wf_from.simps)
  show "length (le_seq_from 0 (take i es)) = entry_begin es i"
    using wf le_seq_from_length [of 0 "take i es"] by (simp add: entry_begin_def)
  have "le_seq es = le_seq_from 0 (take i es @ es ! i # drop (Suc i) es)"
    by (simp add: le_seq_def flip: es)
  then show "le_seq es = le_seq_from 0 (take i es) @ [fst (es ! i)..<fst (es ! i) + (snd (es ! i) - entry_begin es i)]
       @ le_seq_from (snd (es ! i)) (drop (Suc i) es)"
    by (simp add: entry_begin_def)
qed

lemma entry_begin_mono:
  assumes wf: "le_wf es" and "i \<le> j" "j \<le> length es"
  shows "entry_begin es i \<le> entry_begin es j"
  using assms(2,3)
proof (induction j rule: dec_induct)
  case (step j)
  then show ?case using le_at(1) [OF wf, of j] by (simp add: entry_begin_Suc)
qed simp

lemma entry_logical_range_Ok [simp]:
  assumes "le_wf es" "i < length es"
  shows "entry_logical_range es i = Ok (mk_range (entry_begin es i) (snd (es ! i)))"
proof (cases i)
  case 0
  then show ?thesis using assms le_at(1) [OF assms] by (simp add: entry_logical_range_def)
next
  case (Suc k)
  then show ?thesis using assms le_at(1) [OF assms] by (simp add: entry_logical_range_def entry_begin_Suc)
qed

lemma le_seq_nth:
  assumes "le_wf es" "i < length es" "entry_begin es i \<le> x" "x < snd (es ! i)"
  shows "le_seq es ! x = fst (es ! i) + (x - entry_begin es i)"
proof -
  have "x - entry_begin es i < snd (es ! i) - entry_begin es i" using assms(3,4) by simp
  then show ?thesis
    using assms(3,4) le_at [OF assms(1,2)] by (simp add: nth_append)
qed

lemma snd_le_count:
  assumes "le_wf es" "i < length es"
  shows "snd (es ! i) \<le> allocation_block_count es"
proof -
  have "entry_begin es (length es) = allocation_block_count es"
    by (simp add: entry_begin_def end_after_def allocation_block_count_def)
  with entry_begin_mono [OF assms(1), of "Suc i" "length es"] assms(2) show ?thesis
    by (simp add: entry_begin_Suc)
qed

section \<open>Lookup of a block\<close>

lemma partition_entry:
  assumes wf: "le_wf es" and x: "x < allocation_block_count es"
  defines "i \<equiv> partition_point (\<lambda>e. snd e \<le> x) es"
  shows "i < length es" "entry_begin es i \<le> x" "x < snd (es ! i)"
proof -
  have "i \<noteq> length es"
  proof
    assume "i = length es"
    then have "snd (es ! (length es - 1)) \<le> x" if "es \<noteq> []"
      using that partition_point_before [of "length es - 1" "\<lambda>e. snd e \<le> x" es] by (simp add: i_def)
    with x show False by (cases "es = []") (auto simp: allocation_block_count_def last_conv_nth)
  qed
  then show i: "i < length es" using partition_point_le [of "\<lambda>e. snd e \<le> x" es] unfolding i_def by linarith
  then show "x < snd (es ! i)" using partition_point_at [of "\<lambda>e. snd e \<le> x" es] by (simp add: i_def)
  show "entry_begin es i \<le> x"
  proof (cases i)
    case (Suc k)
    then show ?thesis
      using i partition_point_before [of k "\<lambda>e. snd e \<le> x" es] by (simp add: entry_begin_Suc i_def)
  qed simp
qed

lemma lookup_spec:
  assumes wf: "le_wf es"
  shows "x \<ge> allocation_block_count es \<Longrightarrow> lookup es x = Ok None"
    and "x < allocation_block_count es \<Longrightarrow> \<exists>c. lookup es x = Ok (Some \<lparr>extent_logical_begin = x,
        extent_physical_begin = le_seq es ! x, extent_block_count = c\<rparr>)
      \<and> 0 < c \<and> x + c \<le> allocation_block_count es \<and> (\<forall>k<c. le_seq es ! (x + k) = le_seq es ! x + k)"
proof -
  assume "x \<ge> allocation_block_count es"
  then have "partition_point (\<lambda>e. snd e \<le> x) es = length es"
    using snd_le_count [OF wf] by (intro partition_pointI) (auto intro: order_trans)
  then show "lookup es x = Ok None" by (simp add: lookup_def)
next
  assume x: "x < allocation_block_count es"
  define i where "i = partition_point (\<lambda>e. snd e \<le> x) es"
  note i = partition_entry [OF wf x, folded i_def]
  have nth: "le_seq es ! (x + k) = fst (es ! i) + (x + k - entry_begin es i)" if "k < snd (es ! i) - x" for k
    using that i by (intro le_seq_nth [OF wf]) auto
  have "fst (es ! i) + (x - entry_begin es i) < u64_bound"
    using le_at(3) [OF wf i(1)] i(3) by linarith
  moreover have "x < u64_bound" using le_at(2) [OF wf i(1)] i(3) by linarith
  ultimately have "lookup es x = Ok (Some \<lparr>extent_logical_begin = x,
        extent_physical_begin = le_seq es ! x, extent_block_count = snd (es ! i) - x\<rparr>)"
    using i wf nth [of 0] by (simp add: lookup_def flip: i_def)
  then show "\<exists>c. lookup es x = Ok (Some \<lparr>extent_logical_begin = x,
        extent_physical_begin = le_seq es ! x, extent_block_count = c\<rparr>)
      \<and> 0 < c \<and> x + c \<le> allocation_block_count es \<and> (\<forall>k<c. le_seq es ! (x + k) = le_seq es ! x + k)"
    using i snd_le_count [OF wf i(1)] nth nth [of 0] by auto
qed

section \<open>Lookup of a range\<close>

lemma entry_unique:
  assumes wf: "le_wf es" and "i < length es" "j < length es"
    and "entry_begin es i \<le> x" "x < snd (es ! i)" "entry_begin es j \<le> x" "x < snd (es ! j)"
  shows "i = j"
proof (rule ccontr)
  assume "i \<noteq> j"
  then consider "Suc i \<le> j" | "Suc j \<le> i" by linarith
  then show False
    using entry_begin_mono [OF wf, of "Suc i" j] entry_begin_mono [OF wf, of "Suc j" i] assms
    by cases (auto simp: entry_begin_Suc)
qed

lemma lookup_index_first_spec:
  assumes wf: "le_wf es" and q: "range_begin q < range_end q"
    and f: "f < length es" "entry_begin es f \<le> range_begin q" "range_begin q < snd (es ! f)"
    and t: "t < length es" "entry_begin es t < range_end q"
    and "l \<le> f" "f \<le> u" "u < length es" "t \<le> ul" "ul < length es"
  shows "\<exists>ul'. lookup_index_first es q l u ul = Ok (Some (f, ul')) \<and> t \<le> ul' \<and> ul' < length es"
  using assms
proof (induction es q l u ul rule: lookup_index_first.induct)
  case (1 es q l u ul)
  let ?i = "midpoint l u"
  note wf = "1.prems"(1) and lf = "1.prems"(8) and fu = "1.prems"(9)
  have lu: "\<not> u < l" using lf fu by simp
  have i: "l \<le> ?i" "?i \<le> u" "?i < length es" using lu "1.prems"(10) by auto
  have en: "entry_logical_range es ?i = Ok (mk_range (entry_begin es ?i) (snd (es ! ?i)))"
    using wf i(3) by simp
  note step = lookup_index_first.simps [of es q l u ul]
  show ?case
  proof (cases "range_begin q < entry_begin es ?i")
    case below: True
    have fi: "f < ?i"
      using entry_begin_mono [OF wf, of ?i f] "1.prems"(3,4) below by (cases "f < ?i") auto
    have ti: "t < ?i" if "range_end q \<le> entry_begin es ?i"
      using entry_begin_mono [OF wf, of ?i t] "1.prems"(6,7) that by (cases "t < ?i") auto
    have sub: "sub_u64 ?i 1 = Ok (?i - 1)" using fi by (simp del: midpoint_eq)
    let ?ul = "if range_end q \<le> entry_begin es ?i then ?i - 1 else ul"
    have ul: "t \<le> ?ul" "?ul < length es" using ti "1.prems"(11,12) i(3) by auto
    have nl: "\<not> ?i - 1 < l" "f \<le> ?i - 1" "?i - 1 < length es" using fi lf i(3) by linarith+
    have run: "lookup_index_first es q l u ul = lookup_index_first es q l (?i - 1) ?ul"
      unfolding step using below lu en sub nl(1) by (simp add: Let_def del: midpoint_eq)
    show ?thesis unfolding run
      using "1.IH"(1) [OF lu refl en _ sub refl] below nl ul "1.prems" by (simp del: midpoint_eq)
  next
    case above: False
    show ?thesis
    proof (cases "range_begin q \<ge> snd (es ! ?i)")
      case True
      have "?i < f"
      proof (rule ccontr)
        assume "\<not> ?i < f"
        then have "snd (es ! f) \<le> snd (es ! ?i)"
          using entry_begin_mono [OF wf, of "Suc f" "Suc ?i"] i(3) "1.prems"(3)
          by (simp add: entry_begin_Suc del: midpoint_eq)
        with True "1.prems"(5) show False by simp
      qed
      then have nu: "\<not> u < ?i + 1" "?i + 1 \<le> f" using fu by linarith+
      have run: "lookup_index_first es q l u ul = lookup_index_first es q (?i + 1) u ul"
        unfolding step using above True lu en nu(1) by (simp add: Let_def del: midpoint_eq)
      show ?thesis unfolding run
        using "1.IH"(2) [OF lu refl en] above True nu "1.prems" by (simp del: midpoint_eq)
    next
      case False
      then have "?i = f" using above "1.prems" i by (intro entry_unique [OF wf, where x = "range_begin q"]) auto
      then show ?thesis using above False "1.prems" lu en by (simp add: step Let_def del: midpoint_eq)
    qed
  qed
qed

lemma lookup_index_last_spec:
  assumes wf: "le_wf es"
    and t: "t < length es" "entry_begin es t < range_end q" "range_end q \<le> snd (es ! t)"
    and "l \<le> t" "t \<le> u" "u < length es"
  shows "lookup_index_last es q l u = Ok (Some t)"
  using assms
proof (induction es q l u rule: lookup_index_last.induct)
  case (1 es q l u)
  let ?i = "midpoint l u"
  note wf = "1.prems"(1) and lt = "1.prems"(5) and tu = "1.prems"(6)
  have lu: "\<not> u < l" using lt tu by simp
  have i: "l \<le> ?i" "?i \<le> u" "?i < length es" using lu "1.prems"(7) by auto
  have en: "entry_logical_range es ?i = Ok (mk_range (entry_begin es ?i) (snd (es ! ?i)))"
    using wf i(3) by simp
  note step = lookup_index_last.simps [of es q l u]
  show ?case
  proof (cases "range_end q \<le> entry_begin es ?i")
    case below: True
    have ti: "t < ?i"
      using entry_begin_mono [OF wf, of ?i t] "1.prems"(2,3) below by (cases "t < ?i") auto
    have sub: "sub_u64 ?i 1 = Ok (?i - 1)" using ti by (simp del: midpoint_eq)
    have nl: "\<not> ?i - 1 < l" "t \<le> ?i - 1" "?i - 1 < length es" using ti lt i(3) by linarith+
    have run: "lookup_index_last es q l u = lookup_index_last es q l (?i - 1)"
      unfolding step using below lu en sub nl(1) by (simp add: Let_def del: midpoint_eq)
    show ?thesis unfolding run
      using "1.IH"(1) [OF lu refl en _ sub] below nl "1.prems" by (simp del: midpoint_eq)
  next
    case above: False
    show ?thesis
    proof (cases "range_end q > snd (es ! ?i)")
      case True
      have "?i < t"
      proof (rule ccontr)
        assume "\<not> ?i < t"
        then have "snd (es ! t) \<le> snd (es ! ?i)"
          using entry_begin_mono [OF wf, of "Suc t" "Suc ?i"] i(3) "1.prems"(2)
          by (simp add: entry_begin_Suc del: midpoint_eq)
        with True "1.prems"(4) show False by simp
      qed
      then have nu: "\<not> u < ?i + 1" "?i + 1 \<le> t" using tu by linarith+
      have run: "lookup_index_last es q l u = lookup_index_last es q (?i + 1) u"
        unfolding step using above True lu en nu(1) by (simp add: Let_def del: midpoint_eq)
      show ?thesis unfolding run
        using "1.IH"(2) [OF lu refl en] above True nu "1.prems" by (simp del: midpoint_eq)
    next
      case False
      then have "?i = t"
        using above "1.prems" i by (intro entry_unique [OF wf, where x = "range_end q - 1"]) auto
      then show ?thesis using above False lu en by (simp add: step Let_def del: midpoint_eq)
    qed
  qed
qed

lemma lookup_range_spec:
  assumes wf: "le_wf es" and q: "range_begin q < range_end q" "range_end q \<le> allocation_block_count es"
  shows "\<exists>f t. lookup_range es q = Ok (Some \<lparr>range_index_first = f, range_index_last = t,
      range_offset_in_first = range_begin q - entry_begin es f, range_end_in_last = range_end q - entry_begin es t\<rparr>)
    \<and> f \<le> t \<and> t < length es
    \<and> entry_begin es f \<le> range_begin q \<and> range_begin q < snd (es ! f)
    \<and> entry_begin es t < range_end q \<and> range_end q \<le> snd (es ! t)"
proof -
  have "range_begin q < allocation_block_count es" "range_end q - 1 < allocation_block_count es"
    using q by linarith+
  from partition_entry [OF wf this(1)] partition_entry [OF wf this(2)]
  obtain f t where f: "f < length es" "entry_begin es f \<le> range_begin q" "range_begin q < snd (es ! f)"
    and t: "t < length es" "entry_begin es t \<le> range_end q - 1" "range_end q - 1 < snd (es ! t)" by blast
  have t': "entry_begin es t < range_end q" "range_end q \<le> snd (es ! t)" using t(2,3) q(1) by linarith+
  have ft: "f \<le> t"
  proof (rule ccontr)
    assume "\<not> f \<le> t"
    then have "snd (es ! t) \<le> entry_begin es f"
      using entry_begin_mono [OF wf, of "Suc t" f] f(1) by (simp add: entry_begin_Suc)
    with f(2) t'(2) q(1) show False by simp
  qed
  have ne: "es \<noteq> []" "length es - 1 < length es" "f \<le> length es - 1" "t \<le> length es - 1" using f(1) t(1) by auto
  have "snd (es ! (length es - 1)) = allocation_block_count es"
    using ne(1) by (simp add: allocation_block_count_def last_conv_nth)
  then have last_ok: "entry_logical_range es (length es - 1)
      = Ok (mk_range (entry_begin es (length es - 1)) (allocation_block_count es))"
    using wf ne(2) by simp
  from lookup_index_first_spec [OF wf q(1) f t(1) t'(1), of 0 "length es - 1" "length es - 1"] ne
  obtain ul where ul: "lookup_index_first es q 0 (length es - 1) (length es - 1) = Ok (Some (f, ul))"
    "t \<le> ul" "ul < length es" by auto
  have "lookup_index_last es q f ul = Ok (Some t)"
    by (rule lookup_index_last_spec [OF wf t(1) t' ft ul(2,3)])
  then have "lookup_range es q = Ok (Some \<lparr>range_index_first = f, range_index_last = t,
      range_offset_in_first = range_begin q - entry_begin es f, range_end_in_last = range_end q - entry_begin es t\<rparr>)"
    using q ne(1) last_ok ul(1) f t(1) t' wf by (simp add: lookup_range_def)
  with f t t' ft show ?thesis by blast
qed

section \<open>Iteration\<close>

definition yielded :: "logical_extent list \<Rightarrow> nat list" where
  "yielded xs = concat (map (\<lambda>x. [extent_physical_begin x..<extent_physical_begin x + extent_block_count x]) xs)"

lemma yielded_simps [simp]:
  "yielded [] = []"
  "yielded (x # xs) = [extent_physical_begin x..<extent_physical_begin x + extent_block_count x] @ yielded xs"
  by (simp_all add: yielded_def)

lemma le_seq_segment:
  assumes wf: "le_wf es" and i: "i < length es"
    and be: "entry_begin es i \<le> b" "b \<le> e" "e \<le> snd (es ! i)"
  shows "[fst (es ! i) + (b - entry_begin es i)..<fst (es ! i) + (b - entry_begin es i) + (e - b)]
    = drop b (take e (le_seq es))"
proof (rule nth_equalityI)
  have len: "e \<le> length (le_seq es)"
    using snd_le_count [OF wf i] be(3) by (simp add: length_le_seq [OF wf])
  then show "length [fst (es ! i) + (b - entry_begin es i)..<fst (es ! i) + (b - entry_begin es i) + (e - b)]
      = length (drop b (take e (le_seq es)))" by simp
  fix k
  assume "k < length [fst (es ! i) + (b - entry_begin es i)..<fst (es ! i) + (b - entry_begin es i) + (e - b)]"
  then have k: "k < e - b" by simp
  then have "le_seq es ! (b + k) = fst (es ! i) + (b + k - entry_begin es i)"
    using be by (intro le_seq_nth [OF wf i]) auto
  with k be len show "[fst (es ! i) + (b - entry_begin es i)..<fst (es ! i) + (b - entry_begin es i) + (e - b)] ! k
      = drop b (take e (le_seq es)) ! k" by simp
qed

lemma drop_take_join: "a \<le> b \<Longrightarrow> b \<le> c \<Longrightarrow> drop a (take b xs) @ drop b (take c xs) = drop a (take c xs)"
proof -
  assume "a \<le> b" "b \<le> c"
  then have "drop a (take c xs) = drop a (take b xs @ drop b (take c xs))"
    using append_take_drop_id [of b "take c xs"] by (simp add: min_absorb1)
  also have "\<dots> = drop a (take b xs) @ drop b (take c xs)"
    using \<open>a \<le> b\<close> by (cases "b \<le> length xs") auto
  finally show ?thesis by simp
qed

lemma range_iterator_next_entry:
  assumes wf: "le_wf es" and ft: "t < length es" and b: "entry_begin es f \<le> b" "b < snd (es ! f)" "b < e"
    and e: "entry_begin es t < e" "e \<le> snd (es ! t)" and i: "i \<le> t"
    and r: "r = \<lparr>range_index_first = f, range_index_last = t,
        range_offset_in_first = b - entry_begin es f, range_end_in_last = e - entry_begin es t\<rparr>"
  defines "x \<equiv> \<lparr>extent_logical_begin = (if i = f then b else entry_begin es i),
      extent_physical_begin = fst (es ! i) + ((if i = f then b else entry_begin es i) - entry_begin es i),
      extent_block_count = (if i = t then e else snd (es ! i)) - (if i = f then b else entry_begin es i)\<rparr>"
  shows "range_iterator_next \<lparr>it_extents = es, it_range = Some r, it_index = i\<rparr>
      = Ok (Some x, \<lparr>it_extents = es, it_range = Some r, it_index = Suc i\<rparr>)"
proof -
  have it: "i < length es" using i ft by simp
  note at = le_at [OF wf it]
  let ?b = "if i = f then b else entry_begin es i" and ?e = "if i = t then e else snd (es ! i)"
  have be: "entry_begin es i \<le> ?b" "?b \<le> ?e" "?e \<le> snd (es ! i)" "?b < snd (es ! i)" using at(1) b e by auto
  have bounds: "?b < u64_bound" "?e < u64_bound" "fst (es ! i) + (?b - entry_begin es i) < u64_bound"
    using be at by linarith+
  show ?thesis using it i be bounds wf b e by (auto simp: range_iterator_next_def r x_def)
qed

text \<open>
  The iterator from entry \<open>i\<close> on: the part of the file before the first entry of the range that
  is not skipped, then the range itself.
\<close>

lemma range_iterator_collect_eq:
  assumes wf: "le_wf es" and ft: "f \<le> t" "t < length es"
    and b: "entry_begin es f \<le> b" "b < snd (es ! f)" "b < e"
    and e: "entry_begin es t < e" "e \<le> snd (es ! t)"
    and r: "r = \<lparr>range_index_first = f, range_index_last = t,
        range_offset_in_first = b - entry_begin es f, range_end_in_last = e - entry_begin es t\<rparr>"
    and i: "i \<le> Suc t"
  shows "\<exists>xs. range_iterator_collect \<lparr>it_extents = es, it_range = Some r, it_index = i\<rparr> = Ok xs
    \<and> yielded xs = (if i \<le> f then drop (entry_begin es i) (take (entry_begin es f) (le_seq es)) @ drop b (take e (le_seq es))
                    else drop (entry_begin es i) (take e (le_seq es)))"
  using i
proof (induction "Suc t - i" arbitrary: i)
  case 0
  then have "i = Suc t" by simp
  then have "i = Suc t" "entry_begin es i = snd (es ! t)" using ft by (simp_all add: entry_begin_Suc)
  then show ?case
    using ft e by (subst range_iterator_collect.simps) (simp add: range_iterator_next_def r)
next
  case (Suc n)
  then have it: "i \<le> t" "i < length es" using ft by auto
  note at = le_at [OF wf it(2)]
  let ?b = "if i = f then b else entry_begin es i" and ?e = "if i = t then e else snd (es ! i)"
  let ?x = "\<lparr>extent_logical_begin = ?b, extent_physical_begin = fst (es ! i) + (?b - entry_begin es i),
      extent_block_count = ?e - ?b\<rparr>"
  have be: "entry_begin es i \<le> ?b" "?b \<le> ?e" "?e \<le> snd (es ! i)" "?b < snd (es ! i)" using at(1) b e by auto
  note next_ok = range_iterator_next_entry [OF wf ft(2) b e it(1) r]
  have nxt: "entry_begin es (Suc i) = snd (es ! i)" using it(2) by (rule entry_begin_Suc)
  have "n = Suc t - Suc i" "Suc i \<le> Suc t" using Suc.hyps(2) it(1) by simp_all
  from Suc.hyps(1) [OF this, unfolded nxt] obtain xs where xs:
    "range_iterator_collect \<lparr>it_extents = es, it_range = Some r, it_index = Suc i\<rparr> = Ok xs"
    "yielded xs = (if Suc i \<le> f then drop (snd (es ! i)) (take (entry_begin es f) (le_seq es)) @ drop b (take e (le_seq es))
                    else drop (snd (es ! i)) (take e (le_seq es)))" by blast
  have seg: "yielded (?x # xs) = drop ?b (take ?e (le_seq es)) @ yielded xs"
    using le_seq_segment [OF wf it(2) be(1-3)] by simp
  have fin: "e \<le> snd (es ! i) \<Longrightarrow> drop (snd (es ! i)) (take e (le_seq es)) = []" by simp
  have more: "i < t \<Longrightarrow> snd (es ! i) \<le> e" "i < f \<Longrightarrow> snd (es ! i) \<le> entry_begin es f"
    using entry_begin_mono [OF wf, of "Suc i" t] entry_begin_mono [OF wf, of "Suc i" f] ft it(2) e(1)
    by (simp_all add: nxt)
  have tail: "drop ?b (take ?e (le_seq es)) @ drop (snd (es ! i)) (take e (le_seq es)) = drop ?b (take e (le_seq es))"
    using it(1) e(2) be(4) more(1) fin by (cases "i = t") (simp_all add: drop_take_join less_imp_le)
  have "yielded (?x # xs) = (if i \<le> f then drop (entry_begin es i) (take (entry_begin es f) (le_seq es)) @ drop b (take e (le_seq es))
                    else drop (entry_begin es i) (take e (le_seq es)))"
  proof (cases "i < f")
    case True
    then have "i \<noteq> t" "i \<noteq> f" using ft(1) by simp_all
    then have "yielded (?x # xs) = (drop (entry_begin es i) (take (snd (es ! i)) (le_seq es))
        @ drop (snd (es ! i)) (take (entry_begin es f) (le_seq es))) @ drop b (take e (le_seq es))"
      unfolding seg xs(2) using True by simp
    also have "\<dots> = drop (entry_begin es i) (take (entry_begin es f) (le_seq es)) @ drop b (take e (le_seq es))"
      using at(1) more(2) True by (simp only: drop_take_join less_imp_le)
    finally show ?thesis using True by simp
  next
    case False
    then have "yielded (?x # xs) = drop ?b (take e (le_seq es))"
      unfolding seg xs(2) using tail by simp
    then show ?thesis using False by (cases "i = f") simp_all
  qed
  then show ?case
    using next_ok xs(1) by (subst range_iterator_collect.simps) simp
qed

lemma iter_spec:
  assumes wf: "le_wf es"
  shows "\<exists>xs. and_then (iter es) range_iterator_collect = Ok xs \<and> yielded xs = le_seq es"
proof (cases "es = []")
  case True
  then show ?thesis
    by (simp add: iter_def le_seq_def range_iterator_collect.simps [of "\<lparr>it_extents = [], it_range = None, it_index = 0\<rparr>"]
        range_iterator_next_def)
next
  case False
  let ?t = "length es - 1"
  have t: "?t < length es" "0 < length es" using False by auto
  note at = le_at [OF wf t(1)]
  have cnt: "snd (es ! ?t) = allocation_block_count es"
    using False by (simp add: allocation_block_count_def last_conv_nth)
  have fst_pos: "0 < snd (es ! 0)" using le_at(1) [OF wf t(2)] by simp
  have "iter es = Ok \<lparr>it_extents = es, it_range = Some \<lparr>range_index_first = 0, range_index_last = ?t,
      range_offset_in_first = 0, range_end_in_last = snd (es ! ?t) - entry_begin es ?t\<rparr>, it_index = 0\<rparr>"
    using False wf t(1) at(1) by (simp add: iter_def Let_def less_imp_le)
  moreover have "0 < snd (es ! ?t)" using at(1) by simp
  ultimately show ?thesis
    using range_iterator_collect_eq [OF wf _ t(1) _ _ _ at(1) order.refl refl, of 0 0 0] fst_pos length_le_seq [OF wf]
      cnt [simplified]
    by simp
qed

section \<open>Conversions\<close>

lemma logical_from_physical_from:
  assumes "extents_ok es" "l + length (pe_seq es) < u64_bound"
  shows "\<exists>ls. counts_to_logical_ends l es = Ok ls \<and> le_wf_from l ls \<and> le_seq_from l ls = pe_seq es
    \<and> logical_ends_to_counts l ls = Ok es"
  using assms
proof (induction es arbitrary: l)
  case (Cons e es)
  then have "extents_ok es" "l + snd e + length (pe_seq es) < u64_bound" by (simp_all add: add.assoc)
  with Cons.IH obtain ls where "counts_to_logical_ends (l + snd e) es = Ok ls" "le_wf_from (l + snd e) ls"
    "le_seq_from (l + snd e) ls = pe_seq es" "logical_ends_to_counts (l + snd e) ls = Ok es"
    by blast
  with Cons.prems show ?case by (auto simp: extent_blocks_def)
qed simp

lemma physical_from_logical_from:
  assumes "le_wf_from l ls"
  shows "\<exists>es. logical_ends_to_counts l ls = Ok es \<and> extents_ok es \<and> pe_seq es = le_seq_from l ls
    \<and> counts_to_logical_ends l es = Ok ls"
  using assms
proof (induction ls arbitrary: l)
  case (Cons e ls)
  then obtain es where "logical_ends_to_counts (snd e) ls = Ok es" "extents_ok es"
    "pe_seq es = le_seq_from (snd e) ls" "counts_to_logical_ends (snd e) es = Ok ls"
    using Cons.IH [of "snd e"] by auto
  with Cons.prems show ?case by (auto simp: extent_blocks_def)
qed simp

lemma extend_by_physical_spec:
  assumes wf: "le_wf es" and q: "range_wf q" and room: "allocation_block_count es + (range_end q - range_begin q) < u64_bound"
  shows "extend_by_physical True es q = Ok (es @ [(range_begin q, allocation_block_count es + (range_end q - range_begin q))])"
    "le_wf (es @ [(range_begin q, allocation_block_count es + (range_end q - range_begin q))])"
    "le_seq (es @ [(range_begin q, allocation_block_count es + (range_end q - range_begin q))])
      = le_seq es @ [range_begin q..<range_end q]"
proof -
  have ends: "end_after 0 es = allocation_block_count es" by (simp add: end_after_def allocation_block_count_def)
  have c: "range_begin q < range_end q" "range_end q < u64_bound" using q by (simp_all add: range_wf_def)
  show "extend_by_physical True es q = Ok (es @ [(range_begin q, allocation_block_count es + (range_end q - range_begin q))])"
    using q room by (simp add: extend_by_physical_def)
  show "le_wf (es @ [(range_begin q, allocation_block_count es + (range_end q - range_begin q))])"
    using wf c room by (simp add: le_wf_def ends)
  show "le_seq (es @ [(range_begin q, allocation_block_count es + (range_end q - range_begin q))])
      = le_seq es @ [range_begin q..<range_end q]"
    using c by (simp add: le_seq_def ends)
qed

section \<open>Properties\<close>

text \<open>
  C16: On a well formed map, looking up a logical block beyond the end finds nothing; looking up any
  other block returns its physical position, and the returned count is positive, stays within the
  map and spans physically contiguous blocks only.
\<close>

theorem lookup_correct:
  assumes "le_wf es"
  shows "if x \<ge> allocation_block_count es then lookup es x = Ok None
    else \<exists>c. lookup es x = Ok (Some \<lparr>extent_logical_begin = x,
        extent_physical_begin = le_seq es ! x, extent_block_count = c\<rparr>)
      \<and> 0 < c \<and> x + c \<le> allocation_block_count es \<and> (\<forall>k<c. le_seq es ! (x + k) = le_seq es ! x + k)"
  using lookup_spec [OF assms, of x] by auto

theorem lookup_correct_witness:
  "le_wf [(6, 2), (4, 3), (0, 5)] \<and> lookup [(6, 2), (4, 3), (0, 5)] 5 = Ok None
   \<and> (\<exists>c. lookup [(6, 2), (4, 3), (0, 5)] 3 = Ok (Some \<lparr>extent_logical_begin = 3,
        extent_physical_begin = 0, extent_block_count = c\<rparr>))"
proof -
  have wf: "le_wf [(6, 2), (4, 3), (0, 5)]" by (simp add: le_wf_def)
  show ?thesis
    using wf lookup_correct [OF wf, of 5] lookup_correct [OF wf, of 3]
    by (auto simp: allocation_block_count_def le_seq_def)
qed

text \<open>
  For a nonempty query within the map, the two binary searches of \<open>lookup_range\<close> terminate
  without a panic and without giving up, and return the entry that contains the first block of the
  query, the entry that contains its last block, and the offsets of the query in them.
\<close>

theorem lookup_range_correct:
  assumes "le_wf es" "range_begin q < range_end q" "range_end q \<le> allocation_block_count es"
  shows "\<exists>f t. lookup_range es q = Ok (Some \<lparr>range_index_first = f, range_index_last = t,
      range_offset_in_first = range_begin q - entry_begin es f, range_end_in_last = range_end q - entry_begin es t\<rparr>)
    \<and> f \<le> t \<and> t < length es
    \<and> entry_begin es f \<le> range_begin q \<and> range_begin q < snd (es ! f)
    \<and> entry_begin es t < range_end q \<and> range_end q \<le> snd (es ! t)"
  using assms by (rule lookup_range_spec)

theorem lookup_range_correct_witness:
  "le_wf [(6, 2), (4, 3), (0, 5)] \<and> (\<exists>r. lookup_range [(6, 2), (4, 3), (0, 5)] (mk_range 1 4) = Ok (Some r))"
proof -
  have wf: "le_wf [(6, 2), (4, 3), (0, 5)]" by (simp add: le_wf_def)
  show ?thesis
    using wf lookup_range_correct [OF wf, of "mk_range 1 4"] by (auto simp: allocation_block_count_def)
qed

text \<open>
  Iterating over a well formed map never panics and yields extents whose physical blocks, in
  order, are the physical blocks of the logical blocks in order.
\<close>

theorem iter_correct:
  assumes "le_wf es"
  shows "\<exists>xs. and_then (iter es) range_iterator_collect = Ok xs \<and> yielded xs = le_seq es"
  using assms by (rule iter_spec)

theorem iter_correct_witness:
  "\<exists>xs. and_then (iter [(6, 2), (4, 3), (0, 5)]) range_iterator_collect = Ok xs \<and> yielded xs = [6, 7, 4, 0, 1]"
  using iter_correct [of "[(6, 2), (4, 3), (0, 5)]"] by (simp add: le_wf_def le_seq_def)

text \<open>
  Iterating over a query range of a well formed map never panics. It yields the blocks of the
  query only if the query begins in the first extent of the map. Otherwise the blocks of all the
  extents before the one with the begin of the query are yielded first, because the iterator starts
  at index 0 and not at the index of the first extent of the range.
\<close>

theorem iter_range_yields:
  assumes wf: "le_wf es" and q: "range_begin q < range_end q" "range_end q \<le> allocation_block_count es"
  shows "\<exists>it xs f. iter_range es q = Ok (Some it) \<and> range_iterator_collect it = Ok xs
    \<and> f < length es \<and> entry_begin es f \<le> range_begin q \<and> range_begin q < snd (es ! f)
    \<and> yielded xs = take (entry_begin es f) (le_seq es) @ drop (range_begin q) (take (range_end q) (le_seq es))"
proof -
  from lookup_range_spec [OF assms] obtain f t where
    r: "lookup_range es q = Ok (Some \<lparr>range_index_first = f, range_index_last = t,
      range_offset_in_first = range_begin q - entry_begin es f, range_end_in_last = range_end q - entry_begin es t\<rparr>)"
    and ft: "f \<le> t" "t < length es" and b: "entry_begin es f \<le> range_begin q" "range_begin q < snd (es ! f)"
    and e: "entry_begin es t < range_end q" "range_end q \<le> snd (es ! t)" by blast
  have "f < length es" using ft by simp
  moreover have "iter_range es q = Ok (Some (range_iterator_new es \<lparr>range_index_first = f, range_index_last = t,
      range_offset_in_first = range_begin q - entry_begin es f, range_end_in_last = range_end q - entry_begin es t\<rparr>))"
    by (simp add: iter_range_def r)
  ultimately show ?thesis
    using range_iterator_collect_eq [OF wf ft b q(1) e refl, of 0] b
    unfolding range_iterator_new_def by (simp only: le0 if_True entry_begin_0 drop_0) blast
qed

theorem iter_range_yields_witness:
  "\<exists>it xs. iter_range [(6, 2), (4, 3), (0, 5)] (mk_range 2 4) = Ok (Some it)
     \<and> range_iterator_collect it = Ok xs \<and> yielded xs = [6, 7, 4, 0]
     \<and> drop 2 (take 4 (le_seq [(6, 2), (4, 3), (0, 5)])) = [4, 0]"
proof -
  define es where "es = [(6, 2), (4, 3), (0::nat, 5::nat)]"
  have wf: "le_wf es" by (simp add: le_wf_def es_def)
  have en: "1 < length es" "entry_begin es 1 = 2" "2 < snd (es ! 1)" by (simp_all add: es_def entry_begin_def)
  have q: "range_begin (mk_range 2 4) < range_end (mk_range 2 4)"
    "range_end (mk_range 2 4) \<le> allocation_block_count es"
    by (simp_all add: es_def allocation_block_count_def)
  from iter_range_yields [OF wf q] obtain it xs f where
    it: "iter_range es (mk_range 2 4) = Ok (Some it)" "range_iterator_collect it = Ok xs"
    and f: "f < length es" "entry_begin es f \<le> 2" "2 < snd (es ! f)"
    and y: "yielded xs = take (entry_begin es f) (le_seq es) @ drop 2 (take 4 (le_seq es))"
    unfolding mk_range_simps by blast
  have "f = 1" using entry_unique [OF wf f(1) en(1) f(2,3)] en(2,3) by simp
  with y en(2) have "yielded xs = [6, 7, 4, 0]" by (simp add: es_def le_seq_def)
  moreover have "drop 2 (take 4 (le_seq es)) = [4, 0]" by (simp add: es_def le_seq_def)
  ultimately show ?thesis using it unfolding es_def by blast
qed

text \<open>
  Converting a sequence of extents with less than \<open>2 ^ 64\<close> blocks into a logical map never
  overflows; the map is well formed, maps each logical block to the block at the same position of
  the sequence, and converting it back gives the same sequence of extents.
\<close>

theorem logical_from_physical_correct:
  assumes "extents_ok es" "length (pe_seq es) < u64_bound"
  shows "\<exists>ls. logical_from_physical es = Ok ls \<and> le_wf ls \<and> le_seq ls = pe_seq es
    \<and> physical_from_logical ls = Ok es"
  using logical_from_physical_from [of es 0] assms
  by (simp add: logical_from_physical_def le_wf_def le_seq_def physical_from_logical_def)

theorem logical_from_physical_correct_witness:
  "\<exists>ls. logical_from_physical [(6, 2), (4, 1), (0, 2)] = Ok ls \<and> le_seq ls = [6, 7, 4, 0, 1]"
  using logical_from_physical_correct [of "[(6, 2), (4, 1), (0, 2)]"] by (auto simp: extent_blocks_def)

text \<open>
  Converting a well formed logical map into a sequence of extents never underflows, keeps the
  order of the physical blocks, and converting it back gives the same map.
\<close>

theorem physical_from_logical_correct:
  assumes "le_wf ls"
  shows "\<exists>es. physical_from_logical ls = Ok es \<and> extents_ok es \<and> pe_seq es = le_seq ls
    \<and> logical_from_physical es = Ok ls"
  using physical_from_logical_from [of 0 ls] assms
  by (simp add: logical_from_physical_def le_wf_def le_seq_def physical_from_logical_def)

theorem physical_from_logical_correct_witness:
  "\<exists>es. physical_from_logical [(6, 2), (4, 3), (0, 5)] = Ok es \<and> pe_seq es = [6, 7, 4, 0, 1]"
  using physical_from_logical_correct [of "[(6, 2), (4, 3), (0, 5)]"] by (auto simp: le_wf_def le_seq_def)

end
