(* ===== verification/Leb128.thy ===== *)
theory Leb128
  imports Bit_Manip Byte_Codec
begin

text \<open>
  The variable length integer encodings of \<open>src/storage/src/fs/cocoonfs/leb128.rs\<close>. An
  \<open>i64\<close> is the word of its two's complement. The encoders write to the front of a buffer and
  return what remains of it; the model returns the written bytes and the remainder.
\<close>

datatype leb128_encoding_error = TruncatedEncoding | DecodeOverflow

section \<open>Encoders\<close>

definition div_ceil :: "nat \<Rightarrow> nat \<Rightarrow> nat" where
  "div_ceil a b = (if a mod b = 0 then a div b else a div b + 1)"

definition leb128s_i64_encoded_len :: "u64 \<Rightarrow> nat" where
  "leb128s_i64_encoded_len v = div_ceil (significant_bits_s v) 7"

definition leb128u_u64_encoded_len :: "u64 \<Rightarrow> nat" where
  "leb128u_u64_encoded_len v = div_ceil (significant_bits v) 7"

text \<open>The loop of the unsigned encoder: write that many groups of seven bits, each with the
  continuation bit.\<close>

fun leb128_groups :: "nat \<Rightarrow> u64 \<Rightarrow> u8 list" where
  "leb128_groups 0 v = []"
| "leb128_groups (Suc n) v = (ucast (v AND 0x7f) OR 0x80) # leb128_groups n (drop_bit 7 v)"

definition leb128u_u64_encode :: "u8 list \<Rightarrow> u64 \<Rightarrow> (u8 list \<times> u8 list) outcome" where
  "leb128u_u64_encode dst v =
     (let encoded_len = leb128u_u64_encoded_len v;
          dst = leb128_groups (min encoded_len (length dst)) v @ drop encoded_len dst
      in and_then (sub_u64 encoded_len 1) (\<lambda>i.
         and_then (vec_get dst i) (\<lambda>b.
         and_then (vec_set dst i (b XOR 0x80)) (\<lambda>dst.
         Ok (take encoded_len dst, drop encoded_len dst)))))"

function leb128s_loop :: "nat \<Rightarrow> u8 list \<Rightarrow> u64 \<Rightarrow> nat \<Rightarrow> nat \<Rightarrow> (u8 list \<times> nat \<times> nat) outcome" where
  "leb128s_loop significand_bits dst v encoded_bits encoded_len =
     (if encoded_bits < significand_bits then
        and_then (vec_set dst encoded_len (ucast (v AND 0x7f) OR 0x80)) (\<lambda>dst.
        leb128s_loop significand_bits dst (drop_bit 7 v) (encoded_bits + 7) (encoded_len + 1))
      else Ok (dst, encoded_bits, encoded_len))"
  by pat_completeness auto
termination
  by (relation "measure (\<lambda>(s, d, v, b, l). s - b)") auto

declare leb128s_loop.simps [simp del]

definition leb128s_i64_encode :: "u8 list \<Rightarrow> u64 \<Rightarrow> (u8 list \<times> u8 list) outcome" where
  "leb128s_i64_encode dst v =
     (let significand_bits = significant_bits_s v in
      and_then (leb128s_loop significand_bits dst v 0 0) (\<lambda>(dst, encoded_bits, encoded_len).
      and_then (sub_u64 encoded_len 1) (\<lambda>i.
      and_then (vec_get dst i) (\<lambda>last.
      let last = sign_extend last (7 - (encoded_bits - significand_bits) - 1);
          last = last AND 0x7f
      in and_then (vec_set dst i last) (\<lambda>dst.
         Ok (take encoded_len dst, drop encoded_len dst))))))"

section \<open>Decoders\<close>

text \<open>
  The inner loop accepts overlong encodings: more bytes whose seven bits repeat the sign (zero for
  the unsigned encoding). \<open>b\<close> is the byte read last.
\<close>

fun leb128_overlong :: "u8 \<Rightarrow> u64 \<Rightarrow> u8 \<Rightarrow> u8 list \<Rightarrow> leb128_encoding_error + (u64 \<times> u8 list)" where
  "leb128_overlong sign_mask v b src =
     (if b AND 0x80 = 0 then Inr (v, src)
      else case src of [] \<Rightarrow> Inl TruncatedEncoding
        | b' # src' \<Rightarrow> if (b' XOR sign_mask) AND 0x7f \<noteq> 0 then Inl DecodeOverflow
                      else leb128_overlong sign_mask v b' src')"

declare leb128_overlong.simps [simp del]

fun leb128s_decode_loop :: "nat \<Rightarrow> u64 \<Rightarrow> u8 list \<Rightarrow> leb128_encoding_error + (u64 \<times> u8 list)" where
  "leb128s_decode_loop encoded_len v [] = Inl TruncatedEncoding"
| "leb128s_decode_loop encoded_len v (b # src) =
     (let v = v OR push_bit (7 * encoded_len) (ucast (b AND 0x7f));
          encoded_len = encoded_len + 1
      in if encoded_len = div_ceil 64 7 then
           if (b XOR sign_extend b ((64 - 1) mod 7)) AND 0x7f \<noteq> 0 then Inl DecodeOverflow
           else leb128_overlong (0 - (drop_bit 6 b AND 1)) v b src
         else if b AND 0x80 = 0 then Inr (sign_extend v (7 * encoded_len - 1), src)
         else leb128s_decode_loop encoded_len v src)"

definition leb128s_i64_decode :: "u8 list \<Rightarrow> leb128_encoding_error + (u64 \<times> u8 list)" where
  "leb128s_i64_decode src = leb128s_decode_loop 0 0 src"

fun leb128u_decode_loop :: "nat \<Rightarrow> u64 \<Rightarrow> u8 list \<Rightarrow> leb128_encoding_error + (u64 \<times> u8 list)" where
  "leb128u_decode_loop encoded_len v [] = Inl TruncatedEncoding"
| "leb128u_decode_loop encoded_len v (b # src) =
     (let v = v OR push_bit (7 * encoded_len) (ucast (b AND 0x7f));
          encoded_len = encoded_len + 1
      in if encoded_len = div_ceil 64 7 then
           if drop_bit ((64 - 1) mod 7 + 1) (b AND 0x7f) \<noteq> 0 then Inl DecodeOverflow
           else leb128_overlong 0 v b src
         else if b AND 0x80 = 0 then Inr (v, src)
         else leb128u_decode_loop encoded_len v src)"

definition leb128u_u64_decode :: "u8 list \<Rightarrow> leb128_encoding_error + (u64 \<times> u8 list)" where
  "leb128u_u64_decode src = leb128u_decode_loop 0 0 src"

declare leb128s_decode_loop.simps(2) [simp del] leb128u_decode_loop.simps(2) [simp del]

section \<open>Groups of seven bits\<close>

lemma mask_7f: "(0x7f :: 'a::len word) = mask 7"
  by (simp add: mask_eq_exp_minus_1)

lemma bit_80: "bit (0x80 :: int) i \<longleftrightarrow> i = 7"
proof -
  have "(0x80 :: int) = push_bit 7 1" by (simp add: push_bit_eq_mult)
  then have "bit (0x80 :: int) i \<longleftrightarrow> bit (push_bit 7 1 :: int) i" by (rule arg_cong)
  also have "\<dots> \<longleftrightarrow> i = 7" unfolding bit_push_bit_iff bit_1_iff by auto
  finally show ?thesis .
qed

lemma div_ceil_64_7 [simp]: "div_ceil 64 7 = 10"
  by (simp add: div_ceil_def)

lemma div_ceil_7: "0 < n \<Longrightarrow> div_ceil n 7 = Suc ((n - 1) div 7)"
  by (cases n) (auto simp: div_ceil_def div_Suc)

lemma length_leb128_groups [simp]: "length (leb128_groups n v) = n"
  by (induction n arbitrary: v) auto

lemma leb128_groups_Suc:
  "leb128_groups (Suc n) v = leb128_groups n v @ [ucast (drop_bit (7 * n) v AND 0x7f) OR 0x80]"
proof (induction n arbitrary: v)
  case (Suc n)
  have "drop_bit (7 * n) (drop_bit 7 v) = drop_bit (7 * Suc n) v" by (simp add: drop_bit_drop_bit add.commute)
  with Suc [of "drop_bit 7 v"] show ?case by simp
qed simp

lemma group_byte:
  "ucast ((ucast (v AND 0x7f) OR 0x80 :: u8) AND 0x7f) = (take_bit 7 v :: u64)"
  "(ucast (v AND 0x7f) OR 0x80 :: u8) AND 0x80 \<noteq> 0"
proof -
  show "ucast ((ucast (v AND 0x7f) OR 0x80 :: u8) AND 0x7f) = (take_bit 7 v :: u64)"
    by (rule bit_word_eqI) (auto simp: mask_7f bit_simps bit_80)
  have "bit ((ucast (v AND 0x7f) OR 0x80 :: u8) AND 0x80) 7"
    by (simp add: bit_simps bit_80)
  then show "(ucast (v AND 0x7f) OR 0x80 :: u8) AND 0x80 \<noteq> 0" by auto
qed

lemma take_bit_group:
  "take_bit (7 * Suc m) v = take_bit 7 v OR push_bit 7 (take_bit (7 * m) (drop_bit 7 v))" for v :: u64
  by (rule bit_word_eqI) (auto simp: bit_simps)

lemma acc_group:
  "acc OR push_bit (7 * k) (take_bit 7 v) OR push_bit (7 * Suc k) (take_bit (7 * m) (drop_bit 7 v))
    = acc OR push_bit (7 * k) (take_bit (7 * Suc m) v)" for acc v :: u64
  unfolding take_bit_group [of m v] by (simp add: push_bit_or push_bit_push_bit or.assoc add.commute)

lemma leb128u_decode_groups:
  "k + m < 10 \<Longrightarrow> leb128u_decode_loop k acc (leb128_groups m v @ rest)
    = leb128u_decode_loop (k + m) (acc OR push_bit (7 * k) (take_bit (7 * m) v)) rest"
proof (induction m arbitrary: k acc v)
  case (Suc m)
  then show ?case
    using group_byte [of v] acc_group [of acc k v m]
    by (simp add: leb128u_decode_loop.simps(2) Let_def or.assoc del: mult_Suc_right)
qed simp

lemma leb128s_decode_groups:
  "k + m < 10 \<Longrightarrow> leb128s_decode_loop k acc (leb128_groups m v @ rest)
    = leb128s_decode_loop (k + m) (acc OR push_bit (7 * k) (take_bit (7 * m) v)) rest"
proof (induction m arbitrary: k acc v)
  case (Suc m)
  then show ?case
    using group_byte [of v] acc_group [of acc k v m]
    by (simp add: leb128s_decode_loop.simps(2) Let_def or.assoc del: mult_Suc_right)
qed simp

section \<open>What the encoders write\<close>

definition leb128u_bytes :: "u64 \<Rightarrow> u8 list" where
  "leb128u_bytes v = (let n = leb128u_u64_encoded_len v
     in leb128_groups (n - 1) v @ [ucast (drop_bit (7 * (n - 1)) v AND 0x7f)])"

definition leb128s_bytes :: "u64 \<Rightarrow> u8 list" where
  "leb128s_bytes v = (let n = leb128s_i64_encoded_len v
     in leb128_groups (n - 1) v
        @ [sign_extend (ucast (drop_bit (7 * (n - 1)) v AND 0x7f) OR 0x80)
             (significant_bits_s v - 7 * (n - 1) - 1) AND 0x7f])"

lemma leb128u_len:
  "leb128u_u64_encoded_len v = Suc ((significant_bits v - 1) div 7)"
  "7 * (leb128u_u64_encoded_len v - 1) < significant_bits v"
  "significant_bits v \<le> 7 * leb128u_u64_encoded_len v"
  "leb128u_u64_encoded_len v \<le> 10"
proof -
  have sb: "1 \<le> significant_bits v" "significant_bits v \<le> 64" using significant_bits_bounds(1,2) [of v] by simp_all
  show len: "leb128u_u64_encoded_len v = Suc ((significant_bits v - 1) div 7)"
    using sb(1) by (simp add: leb128u_u64_encoded_len_def div_ceil_7)
  have "7 * ((significant_bits v - 1) div 7) \<le> significant_bits v - 1"
    "significant_bits v - 1 < 7 * ((significant_bits v - 1) div 7) + 7" by simp_all
  with sb show "7 * (leb128u_u64_encoded_len v - 1) < significant_bits v"
    "significant_bits v \<le> 7 * leb128u_u64_encoded_len v" "leb128u_u64_encoded_len v \<le> 10"
    unfolding len by simp_all
qed

lemma leb128s_len:
  "leb128s_i64_encoded_len v = Suc ((significant_bits_s v - 1) div 7)"
  "7 * (leb128s_i64_encoded_len v - 1) < significant_bits_s v"
  "significant_bits_s v \<le> 7 * leb128s_i64_encoded_len v"
  "leb128s_i64_encoded_len v \<le> 10"
proof -
  have sb: "1 \<le> significant_bits_s v" "significant_bits_s v \<le> 64" using significant_bits_s_bounds(1,2) [of v] by simp_all
  show len: "leb128s_i64_encoded_len v = Suc ((significant_bits_s v - 1) div 7)"
    using sb(1) by (simp add: leb128s_i64_encoded_len_def div_ceil_7)
  have "7 * ((significant_bits_s v - 1) div 7) \<le> significant_bits_s v - 1"
    "significant_bits_s v - 1 < 7 * ((significant_bits_s v - 1) div 7) + 7" by simp_all
  with sb show "7 * (leb128s_i64_encoded_len v - 1) < significant_bits_s v"
    "significant_bits_s v \<le> 7 * leb128s_i64_encoded_len v" "leb128s_i64_encoded_len v \<le> 10"
    unfolding len by simp_all
qed

lemma length_leb128_bytes [simp]:
  "length (leb128u_bytes v) = leb128u_u64_encoded_len v"
  "length (leb128s_bytes v) = leb128s_i64_encoded_len v"
  using leb128u_len(1) [of v] leb128s_len(1) [of v] by (simp_all add: leb128u_bytes_def leb128s_bytes_def Let_def)

lemma group_flip: "((ucast (v AND 0x7f) OR 0x80 :: u8) XOR 0x80) = ucast (v AND 0x7f)" for v :: u64
  by (rule bit_word_eqI) (auto simp: mask_7f bit_simps bit_80)

lemma leb128u_u64_encode_eq:
  assumes "leb128u_u64_encoded_len v \<le> length dst"
  shows "leb128u_u64_encode dst v = Ok (leb128u_bytes v, drop (leb128u_u64_encoded_len v) dst)"
proof -
  obtain n where n: "leb128u_u64_encoded_len v = Suc n" using leb128u_len(1) [of v] by blast
  show ?thesis
    using assms n group_flip [of "drop_bit (7 * n) v"]
    by (simp add: leb128u_u64_encode_def Let_def leb128u_bytes_def leb128_groups_Suc nth_append list_update_append
        del: leb128_groups.simps)
qed

lemma leb128s_loop_eq:
  assumes "sb \<le> 7 * (k + m)" "0 < m \<Longrightarrow> 7 * (k + m - 1) < sb" "k + m \<le> length dst"
  shows "leb128s_loop sb dst v (7 * k) k
    = Ok (take k dst @ leb128_groups m v @ drop (k + m) dst, 7 * (k + m), k + m)"
  using assms
proof (induction m arbitrary: k dst v)
  case 0
  then show ?case by (simp add: leb128s_loop.simps)
next
  case (Suc m)
  let ?b = "ucast (v AND 0x7f) OR 0x80 :: u8"
  have k: "7 * k < sb" "k < length dst" using Suc.prems by auto
  have "leb128s_loop sb dst v (7 * k) k
      = leb128s_loop sb (dst[k := ?b]) (drop_bit 7 v) (7 * Suc k) (Suc k)"
    using k by (subst leb128s_loop.simps) (simp add: add.commute)
  also have "\<dots> = Ok (take (Suc k) (dst[k := ?b]) @ leb128_groups m (drop_bit 7 v)
      @ drop (Suc k + m) (dst[k := ?b]), 7 * (Suc k + m), Suc k + m)"
    using Suc.prems by (intro Suc.IH) auto
  finally show ?case using k(2) by (simp add: take_Suc_conv_app_nth)
qed

lemma leb128s_i64_encode_eq:
  assumes "leb128s_i64_encoded_len v \<le> length dst"
  shows "leb128s_i64_encode dst v = Ok (leb128s_bytes v, drop (leb128s_i64_encoded_len v) dst)"
proof -
  obtain n where n: "leb128s_i64_encoded_len v = Suc n" using leb128s_len(1) [of v] by blast
  note len = leb128s_len [of v, unfolded n]
  have loop: "leb128s_loop (significant_bits_s v) dst v 0 0
      = Ok (leb128_groups (Suc n) v @ drop (Suc n) dst, 7 * Suc n, Suc n)"
    using leb128s_loop_eq [of "significant_bits_s v" 0 "Suc n" dst v] len assms n by simp
  have s: "7 - (7 * Suc n - significant_bits_s v) - 1 = significant_bits_s v - 7 * n - 1"
    using len(2,3) by simp
  show ?thesis
    unfolding leb128s_i64_encode_def Let_def loop
    using assms n s
    by (simp add: leb128s_bytes_def Let_def leb128_groups_Suc nth_append list_update_append
        del: leb128_groups.simps)
qed

section \<open>Round trips\<close>

lemma leb128_overlong_last:
  "b AND 0x80 = 0 \<Longrightarrow> leb128_overlong m v b src = Inr (v, src)"
  by (simp add: leb128_overlong.simps)

lemma and_80_iff: "b AND 0x80 = 0 \<longleftrightarrow> \<not> bit b 7" for b :: u8
proof
  assume "b AND 0x80 = 0"
  then have "\<not> bit (b AND 0x80) 7" by simp
  then show "\<not> bit b 7" by (simp add: bit_simps bit_80)
next
  assume "\<not> bit b 7"
  then show "b AND 0x80 = 0" by (intro bit_word_eqI) (auto simp: bit_simps bit_80)
qed

lemma leb128u_last:
  fixes v :: u64
  assumes "significant_bits v \<le> 7 * Suc n"
  shows "take_bit (7 * n) v OR push_bit (7 * n) (ucast ((ucast (drop_bit (7 * n) v AND 0x7f) :: u8) AND 0x7f)) = v"
proof (rule bit_word_eqI)
  fix i assume "i < LENGTH(64)"
  moreover have "\<not> bit v i" if "7 * Suc n \<le> i"
    using assms that by (intro significant_bits_zero) simp
  ultimately show "bit (take_bit (7 * n) v OR push_bit (7 * n) (ucast ((ucast (drop_bit (7 * n) v AND 0x7f) :: u8) AND 0x7f))) i = bit v i"
    by (cases "7 * Suc n \<le> i") (auto simp: mask_7f bit_simps)
qed

lemma leb128u_decode_encode:
  "leb128u_u64_decode (leb128u_bytes v @ rest) = Inr (v, rest)"
proof -
  obtain n where n: "leb128u_u64_encoded_len v = Suc n" using leb128u_len(1) [of v] by blast
  note len = leb128u_len [of v, unfolded n]
  let ?b = "ucast (drop_bit (7 * n) v AND 0x7f) :: u8"
  have nb: "?b AND 0x80 = 0" by (auto simp: and_80_iff mask_7f bit_simps)
  have val: "take_bit (7 * n) v OR push_bit (7 * n) (ucast (?b AND 0x7f)) = v"
    using len(3) by (intro leb128u_last)
  have last: "drop_bit 1 (?b AND 0x7f) = 0" if "n = 9"
  proof (rule bit_word_eqI)
    fix i assume "i < LENGTH(8)"
    from that show "bit (drop_bit 1 (?b AND 0x7f)) i = bit 0 i"
      using bit_imp_le_length [of v "63 + (1 + i)"] by (auto simp: mask_7f bit_simps)
  qed
  have "leb128u_u64_decode (leb128u_bytes v @ rest) = leb128u_decode_loop n (take_bit (7 * n) v) (?b # rest)"
    using leb128u_decode_groups [of 0 n 0 v "?b # rest"] len(4)
    by (simp add: leb128u_u64_decode_def leb128u_bytes_def n Let_def)
  also have "\<dots> = Inr (v, rest)"
    using nb val last len(4)
    by (cases "n = 9") (simp_all add: leb128u_decode_loop.simps(2) leb128_overlong_last)
  finally show ?thesis .
qed

lemma leb128s_last:
  fixes v :: u64
  assumes s: "s = significant_bits_s v" and n: "7 * n < s" "s \<le> 7 * Suc n" and i: "i < 7"
  defines "b \<equiv> sign_extend (ucast (drop_bit (7 * n) v AND 0x7f) OR 0x80 :: u8) (s - 7 * n - 1) AND 0x7f"
  shows "bit b i = bit v (min (7 * n + i) 63)"
proof -
  have p: "s - 7 * n - 1 < LENGTH(8)" "s - 7 * n - 1 < 7" using n by auto
  note sb = significant_bits_s_bounds [of v, folded s]
  have "bit b i = bit v (7 * n + min i (s - 7 * n - 1))"
    using i p unfolding b_def by (auto simp: mask_7f bit_simps bit_80 bit_sign_extend)
  also have "\<dots> = bit v (min (7 * n + i) 63)"
  proof (cases "i \<le> s - 7 * n - 1")
    case True
    then have "7 * n + i \<le> 63" using sb(2) n by simp
    with True show ?thesis by simp
  next
    case False
    then have "7 * n + min i (s - 7 * n - 1) = s - 1" "s - 1 \<le> min (7 * n + i) 63" using n sb(2) by auto
    then show ?thesis using sb(3) [of "s - 1"] sb(3) [of "min (7 * n + i) 63"] sb(1,2) by simp
  qed
  finally show ?thesis .
qed

lemma leb128s_decode_encode:
  "leb128s_i64_decode (leb128s_bytes v @ rest) = Inr (v, rest)"
proof -
  obtain n where n: "leb128s_i64_encoded_len v = Suc n" using leb128s_len(1) [of v] by blast
  note len = leb128s_len [of v, unfolded n]
  note sb = significant_bits_s_bounds [of v]
  define b where "b = sign_extend (ucast (drop_bit (7 * n) v AND 0x7f) OR 0x80 :: u8)
      (significant_bits_s v - 7 * n - 1) AND 0x7f"
  have b: "i < 7 \<Longrightarrow> bit b i = bit v (min (7 * n + i) 63)" for i
    unfolding b_def using len(2,3) by (intro leb128s_last [OF refl]) simp_all
  have nb: "b AND 0x80 = 0" by (auto simp: and_80_iff b_def mask_7f bit_simps)
  let ?acc = "take_bit (7 * n) v OR push_bit (7 * n) (ucast (b AND 0x7f))"
  have acc: "bit ?acc j = bit v j" if "j < 64" "j < 7 * Suc n" for j
  proof (cases "j < 7 * n")
    case False
    with that b [of "j - 7 * n"] have "bit b (j - 7 * n) = bit v j" by simp
    moreover have "j - 7 * n < 7" using that by simp
    ultimately show ?thesis using False that(1) by (simp add: mask_7f bit_simps)
  qed (simp add: bit_simps)
  have short: "sign_extend ?acc (7 * Suc n - 1) = v" if "n \<noteq> 9"
  proof (rule bit_word_eqI)
    fix i assume i: "i < LENGTH(64)"
    have p: "7 * Suc n - 1 < 63" using that len(4) by simp
    then have "bit (sign_extend ?acc (7 * Suc n - 1)) i = bit v (min i (7 * Suc n - 1))"
      using i acc [of "min i (7 * Suc n - 1)"] by (simp add: bit_sign_extend)
    also have "\<dots> = bit v i"
    proof (cases "i \<le> 7 * Suc n - 1")
      case False
      then have "significant_bits_s v - 1 \<le> i" "significant_bits_s v - 1 \<le> 7 * Suc n - 1" using len(3) by simp_all
      with False show ?thesis using sb(3) [of i] sb(3) [of "7 * Suc n - 1"] i p by simp
    qed simp
    finally show "bit (sign_extend ?acc (7 * Suc n - 1)) i = bit v i" .
  qed
  have long: "?acc = v" "(b XOR sign_extend b ((64 - 1) mod 7)) AND 0x7f = 0" if "n = 9"
  proof -
    show "?acc = v" by (rule bit_word_eqI, rule acc) (use that in simp_all)
    have "bit b i = bit v 63" if "i < 7" for i using b [of i] that \<open>n = 9\<close> by simp
    then show "(b XOR sign_extend b ((64 - 1) mod 7)) AND 0x7f = 0"
      by (intro bit_word_eqI) (auto simp: mask_7f bit_simps bit_sign_extend)
  qed
  have "leb128s_i64_decode (leb128s_bytes v @ rest) = leb128s_decode_loop n (take_bit (7 * n) v) (b # rest)"
    using leb128s_decode_groups [of 0 n 0 v "b # rest"] len(4)
    by (simp add: leb128s_i64_decode_def leb128s_bytes_def n Let_def b_def)
  also have "\<dots> = Inr (v, rest)"
  proof (cases "n = 9")
    case True
    note l = long [OF True]
    have "n + 1 = div_ceil 64 7" using True by simp
    then show ?thesis
      by (simp only: leb128s_decode_loop.simps(2) Let_def l if_True simp_thms if_False leb128_overlong_last [OF nb])
  next
    case False
    then have "n + 1 \<noteq> div_ceil 64 7" by simp
    then show ?thesis
      using nb short [OF False] by (simp only: leb128s_decode_loop.simps(2) Let_def if_False if_True Suc_eq_plus1 simp_thms)
  qed
  finally show ?thesis .
qed

interpretation leb128u: byte_codec leb128u_bytes leb128u_u64_decode "\<lambda>_. True"
  by unfold_locales (rule leb128u_decode_encode)

interpretation leb128s: byte_codec leb128s_bytes leb128s_i64_decode "\<lambda>_. True"
  by unfold_locales (rule leb128s_decode_encode)

section \<open>What the unsigned decoder accepts\<close>

text \<open>The number that a sequence of seven bit groups stands for.\<close>

fun groups_value :: "u8 list \<Rightarrow> nat" where
  "groups_value [] = 0"
| "groups_value (b # bs) = unat (b AND 0x7f) + 128 * groups_value bs"

lemma unat_7f: "unat (b AND 0x7f) < 128" for b :: u8
  using unat_lt_iff_bits [of "b AND 0x7f" 7] by (simp add: mask_7f bit_simps)

lemma unat_or_push:
  fixes a x :: "'a::len word"
  assumes "unat a < 2 ^ m" "unat x * 2 ^ m < 2 ^ LENGTH('a)"
  shows "unat (a OR push_bit m x) = unat a + 2 ^ m * unat x"
proof -
  have "take_bit LENGTH('a) (push_bit m (unat x)) = push_bit m (unat x)"
    using assms(2) by (intro take_bit_nat_eq_self) (simp add: push_bit_eq_mult)
  then have "unat (a OR push_bit m x) = unat a OR push_bit m (unat x)"
    by (simp add: unsigned_or_eq unsigned_push_bit_eq)
  also have "\<dots> = unat a + push_bit m (unat x)"
    using assms(1) by (intro disjunctive_add_eq_or [symmetric] bit_eqI) (auto simp: bit_simps unat_lt_iff_bits)
  finally show ?thesis by (simp add: push_bit_eq_mult)
qed

lemma leb128_overlong_value:
  "leb128_overlong 0 v b src = Inr (v', rest) \<Longrightarrow> v' = v \<and> (\<exists>bs. src = bs @ rest \<and> groups_value bs = 0)"
proof (induction "0::u8" v b src rule: leb128_overlong.induct)
  case (1 v b src)
  show ?case
  proof (cases "b AND 0x80 = 0")
    case True
    then show ?thesis using "1.prems" by (auto simp: leb128_overlong.simps intro: exI [of _ "[]"])
  next
    case False
    with "1.prems" obtain b' src' where src: "src = b' # src'" and z: "b' AND 0x7f = 0"
      and rec: "leb128_overlong 0 v b' src' = Inr (v', rest)"
      by (subst (asm) leb128_overlong.simps) (auto split: list.splits if_splits)
    from "1.hyps" [OF False src] z rec obtain bs where "v' = v" "src' = bs @ rest" "groups_value bs = 0" by auto
    with src z show ?thesis by (auto intro: exI [of _ "b' # bs"])
  qed
qed

lemma pow_128: "(2::nat) ^ (7 * k) = 128 ^ k"
  by (simp add: power_mult)

lemma group_room:
  assumes "k < 9 \<or> k = 9 \<and> drop_bit 1 (b AND 0x7f) = (0 :: u8)"
  shows "unat (b AND 0x7f) * 2 ^ (7 * k) < 2 ^ 64"
proof -
  have "unat (b AND 0x7f) < 2 ^ (64 - 7 * k)"
  proof (cases "k < 9")
    case True
    then have "(2::nat) ^ 7 \<le> 2 ^ (64 - 7 * k)" by (intro power_increasing) auto
    with unat_7f [of b] show ?thesis by simp
  next
    case False
    with assms have k: "k = 9" and z: "drop_bit 1 (b AND 0x7f) = 0" by auto
    have "\<not> bit (b AND 0x7f) i" if "1 \<le> i" for i
    proof
      assume "bit (b AND 0x7f) i"
      then have "bit (drop_bit 1 (b AND 0x7f)) (i - 1)" unfolding bit_drop_bit_eq using that by simp
      then show False unfolding z by simp
    qed
    then have "unat (b AND 0x7f) < 2 ^ 1" unfolding unat_lt_iff_bits by blast
    then show ?thesis using k by simp
  qed
  then have "unat (b AND 0x7f) * 2 ^ (7 * k) < 2 ^ (64 - 7 * k) * 2 ^ (7 * k)" by simp
  also have "\<dots> = (2::nat) ^ 64" using assms by (auto simp flip: power_add)
  finally show ?thesis .
qed

lemma group_acc:
  assumes "unat acc < 2 ^ (7 * k)" "k < 9 \<or> k = 9 \<and> drop_bit 1 (b AND 0x7f) = (0 :: u8)"
  shows "unat (acc OR push_bit (7 * k) (ucast (b AND 0x7f)) :: u64) = unat acc + 128 ^ k * unat (b AND 0x7f)"
proof -
  have x: "unat (ucast (b AND 0x7f) :: u64) = unat (b AND 0x7f)"
    using unat_7f [of b] by (simp add: unsigned_ucast_eq take_bit_nat_eq_self)
  have room: "unat (ucast (b AND 0x7f) :: u64) * 2 ^ (7 * k) < 2 ^ LENGTH(64)"
    unfolding x using group_room [OF assms(2)] by simp
  show ?thesis using unat_or_push [OF assms(1) room] unfolding x pow_128 .
qed

lemma leb128u_decode_loop_value:
  assumes "leb128u_decode_loop k acc src = Inr (v, rest)" "unat acc < 2 ^ (7 * k)" "k < 10"
  shows "\<exists>bs. src = bs @ rest \<and> bs \<noteq> [] \<and> unat v = unat acc + 128 ^ k * groups_value bs"
  using assms
proof (induction src arbitrary: k acc)
  case (Cons b src)
  define acc' where "acc' = acc OR push_bit (7 * k) (ucast (b AND 0x7f))"
  note val = group_acc [OF Cons.prems(2), of b, folded acc'_def]
  have step: "leb128u_decode_loop k acc (b # src) =
      (if k = 9 then if drop_bit 1 (b AND 0x7f) \<noteq> 0 then Inl DecodeOverflow else leb128_overlong 0 acc' b src
       else if b AND 0x80 = 0 then Inr (acc', src) else leb128u_decode_loop (Suc k) acc' src)"
    by (simp add: leb128u_decode_loop.simps(2) Let_def acc'_def)
  consider (last) "k = 9" "drop_bit 1 (b AND 0x7f) = 0" "leb128_overlong 0 acc' b src = Inr (v, rest)"
    | (stop) "k < 9" "v = acc'" "src = rest"
    | (more) "k < 9" "leb128u_decode_loop (Suc k) acc' src = Inr (v, rest)"
    using Cons.prems(1,3) unfolding step by (auto split: if_splits)
  then show ?case
  proof cases
    case last
    from leb128_overlong_value [OF last(3)] obtain bs where "v = acc'" "src = bs @ rest" "groups_value bs = 0" by blast
    moreover have "unat acc' = unat acc + 128 ^ k * unat (b AND 0x7f)" using last by (intro val) blast
    ultimately show ?thesis by (intro exI [of _ "b # bs"]) simp
  next
    case stop
    moreover have "unat acc' = unat acc + 128 ^ k * unat (b AND 0x7f)" using stop by (intro val) blast
    ultimately show ?thesis by (intro exI [of _ "[b]"]) simp
  next
    case more
    have acc': "unat acc' = unat acc + 128 ^ k * unat (b AND 0x7f)" using more by (intro val) blast
    have "unat acc' < 128 ^ k + 128 ^ k * unat (b AND 0x7f)" using acc' Cons.prems(2) unfolding pow_128 by simp
    also have "\<dots> = 128 ^ k * Suc (unat (b AND 0x7f))" by simp
    also have "\<dots> \<le> 128 ^ k * 128" using unat_7f [of b] by (intro mult_left_mono) simp_all
    also have "\<dots> = 128 ^ Suc k" by simp
    finally have "unat acc' < 2 ^ (7 * Suc k)" unfolding pow_128 .
    from Cons.IH [OF more(2) this] more(1) obtain bs where
      "src = bs @ rest" "bs \<noteq> []" "unat v = unat acc' + 128 ^ Suc k * groups_value bs" by auto
    with acc' show ?thesis by (intro exI [of _ "b # bs"]) (simp add: algebra_simps)
  qed
qed simp

section \<open>Properties\<close>

text \<open>
  C19: Encoding an \<open>u64\<close> into a buffer that is long enough never panics, writes
  \<open>leb128u_u64_encoded_len\<close> bytes (ten at most), leaves the rest of the buffer, and the
  decoder reads the same value back from these bytes, whatever follows them.
\<close>

theorem leb128u_roundtrip:
  assumes "leb128u_u64_encoded_len v \<le> length dst"
  shows "\<exists>bs. leb128u_u64_encode dst v = Ok (bs, drop (leb128u_u64_encoded_len v) dst)
    \<and> length bs = leb128u_u64_encoded_len v \<and> length bs \<le> 10
    \<and> leb128u_u64_decode (bs @ rest) = Inr (v, rest)"
  using leb128u_u64_encode_eq [OF assms] leb128u.dec_enc [of v rest] leb128u_len(4) [of v] by auto

theorem leb128u_roundtrip_witness:
  "\<exists>bs. leb128u_u64_encode (replicate 10 0) 300 = Ok (bs, replicate 8 0) \<and> length bs = 2
    \<and> leb128u_u64_decode (bs @ [1, 2]) = Inr (300, [1, 2])"
proof -
  have "leb128u_u64_encoded_len 300 = 2" by code_simp
  with leb128u_roundtrip [of 300 "replicate 10 0" "[1, 2]"] show ?thesis by auto
qed

text \<open>
  Encoding an \<open>i64\<close> (as its two's complement) into a buffer that is long enough never
  panics, writes \<open>leb128s_i64_encoded_len\<close> bytes (ten at most), leaves the rest of the buffer,
  and the decoder reads the same value back, with its sign, whatever follows.
\<close>

theorem leb128s_roundtrip:
  assumes "leb128s_i64_encoded_len v \<le> length dst"
  shows "\<exists>bs. leb128s_i64_encode dst v = Ok (bs, drop (leb128s_i64_encoded_len v) dst)
    \<and> length bs = leb128s_i64_encoded_len v \<and> length bs \<le> 10
    \<and> leb128s_i64_decode (bs @ rest) = Inr (v, rest)"
  using leb128s_i64_encode_eq [OF assms] leb128s.dec_enc [of v rest] leb128s_len(4) [of v] by auto

theorem leb128s_roundtrip_witness:
  "\<exists>bs. leb128s_i64_encode (replicate 10 0) (- 300) = Ok (bs, replicate 8 0) \<and> length bs = 2
    \<and> leb128s_i64_decode (bs @ [1, 2]) = Inr (- 300, [1, 2])"
proof -
  have "leb128s_i64_encoded_len (- 300) = 2" by code_simp
  with leb128s_roundtrip [of "- 300" "replicate 10 0" "[1, 2]"] show ?thesis by auto
qed

text \<open>
  What the unsigned decoder accepts has the value of its seven bit groups as a natural number,
  overlong encodings included: nothing wraps around, and the bytes it does not consume are
  returned.
\<close>

theorem leb128u_decode_value:
  assumes "leb128u_u64_decode src = Inr (v, rest)"
  shows "\<exists>bs. src = bs @ rest \<and> bs \<noteq> [] \<and> unat v = groups_value bs"
  using leb128u_decode_loop_value [of 0 0 src v rest] assms by (simp add: leb128u_u64_decode_def)

theorem leb128u_decode_value_witness:
  "\<exists>bs. [0xac, 0x82, 0x80 XOR 0x80, 7] = bs @ [7] \<and> groups_value bs = 300"
proof -
  have "leb128u_u64_decode [0xac, 0x82, 0x80 XOR 0x80, 7] = Inr (300, [7])" by code_simp
  from leb128u_decode_value [OF this] show ?thesis by auto
qed

end
