(* ===== verification/Inode_Extents_List.thy ===== *)
theory Inode_Extents_List
  imports Extent_Ptr Leb128
begin

text \<open>
  The encoding of an inode's extents, \<open>src/storage/src/fs/cocoonfs/inode_extents_list.rs\<close>: a
  direct pointer for a single short extent, otherwise a list of pairs of a signed distance from the
  previous extent and a length, terminated by two zero bytes.

  The decoder reads from a sequence of buffers through a window of 20 bytes that it refills before
  each pair. Its source is the concatenation of the buffers; the window is the first 20 bytes of
  what has not been consumed.
\<close>

section \<open>Direct pointers\<close>

definition can_encode_direct :: "physical_extents \<Rightarrow> bool outcome" where
  "can_encode_direct inode_extents =
     (if inode_extents = [] then Ok True
      else if length inode_extents = 1 then
        and_then (get_extent_range inode_extents 0) (\<lambda>r.
        and_then (block_count r) (\<lambda>c. Ok (c \<le> MAX_EXTENT_ALLOCATION_BLOCKS)))
      else Ok False)"

definition extent_ptr_encode_direct :: "physical_extents \<Rightarrow> u8 list outcome" where
  "extent_ptr_encode_direct inode_extents =
     and_then (can_encode_direct inode_extents) (\<lambda>can.
     if \<not> can then nvfs_err_internal
     else case inode_extents of
         [] \<Rightarrow> Ok extent_ptr_encode_nil
       | e # _ \<Rightarrow> and_then (block_range_from (fst e) (snd e)) (\<lambda>inode_extent.
                 extent_ptr_encode (Some inode_extent) False))"

section \<open>Extents lists\<close>

definition extent_delta :: "nat \<Rightarrow> block_range \<Rightarrow> u64" where
  "extent_delta last_inode_extent_end inode_extent = of_nat (range_begin inode_extent) - of_nat last_inode_extent_end"

fun encoded_len_loop :: "nat \<Rightarrow> nat \<Rightarrow> block_range list \<Rightarrow> nat outcome" where
  "encoded_len_loop encoded_len last_inode_extent_end [] = Ok encoded_len"
| "encoded_len_loop encoded_len last_inode_extent_end (inode_extent # extents) =
     and_then (block_count inode_extent) (\<lambda>c.
     let delta = extent_delta last_inode_extent_end inode_extent;
         len = encoded_len + (leb128s_i64_encoded_len delta + leb128u_u64_encoded_len (of_nat c))
     in if len < u64_bound then encoded_len_loop len (range_end inode_extent) extents
        else Err DimensionsNotSupported)"

definition indirect_extents_list_encoded_len :: "block_range list \<Rightarrow> nat outcome" where
  "indirect_extents_list_encoded_len extents = encoded_len_loop 2 0 extents"

fun encode_into_loop :: "nat \<Rightarrow> block_range list \<Rightarrow> u8 list \<Rightarrow> (u8 list \<times> u8 list) outcome" where
  "encode_into_loop last_inode_extent_end [] dst =
     debug_assert (length dst \<ge> 2) (Ok ([0, 0], drop 2 dst))"
| "encode_into_loop last_inode_extent_end (inode_extent # extents) dst =
     and_then (leb128s_i64_encode dst (extent_delta last_inode_extent_end inode_extent)) (\<lambda>(w1, dst).
     and_then (block_count inode_extent) (\<lambda>c.
     and_then (leb128u_u64_encode dst (of_nat c)) (\<lambda>(w2, dst).
     and_then (encode_into_loop (range_end inode_extent) extents dst) (\<lambda>(w, rest).
     Ok (w1 @ w2 @ w, rest)))))"

definition indirect_extents_list_encode_into :: "u8 list \<Rightarrow> block_range list \<Rightarrow> (u8 list \<times> u8 list) outcome" where
  "indirect_extents_list_encode_into dst extents = encode_into_loop 0 extents dst"

definition indirect_extents_list_encode :: "bool \<Rightarrow> block_range list \<Rightarrow> nat option \<Rightarrow> u8 list outcome" where
  "indirect_extents_list_encode mem extents encoded_len =
     and_then (case encoded_len of Some n \<Rightarrow> Ok n | None \<Rightarrow> indirect_extents_list_encoded_len extents) (\<lambda>n.
     if \<not> mem then Err MemoryAllocationFailure
     else and_then (indirect_extents_list_encode_into (replicate n 0) extents) (\<lambda>(w, rest). Ok (w @ rest)))"

definition MAX_IMAGE_ALLOCATION_BLOCKS_LOG2 :: nat where
  "MAX_IMAGE_ALLOCATION_BLOCKS_LOG2 = 64 - 7"

text \<open>Both decoders consume at least one byte, so the loop over the source ends.\<close>

lemma leb128_overlong_rest: "leb128_overlong m v b src = Inr (v', rest) \<Longrightarrow> length rest \<le> length src"
proof (induction src arbitrary: b)
  case (Cons c src)
  then show ?case
    by (auto simp: leb128_overlong.simps [of m v b "c # src"] le_Suc_eq split: if_splits)
qed (auto simp: leb128_overlong.simps split: if_splits)

lemma leb128s_decode_loop_rest: "leb128s_decode_loop k v src = Inr (v', rest) \<Longrightarrow> length rest < length src"
proof (induction src arbitrary: k v)
  case (Cons b src)
  then show ?case
    by (auto simp: leb128s_decode_loop.simps(2) Let_def less_Suc_eq_le less_imp_le split: if_splits
        dest!: leb128_overlong_rest)
qed simp

lemma leb128u_decode_loop_rest: "leb128u_decode_loop k v src = Inr (v', rest) \<Longrightarrow> length rest < length src"
proof (induction src arbitrary: k v)
  case (Cons b src)
  then show ?case
    by (auto simp: leb128u_decode_loop.simps(2) Let_def less_Suc_eq_le less_imp_le split: if_splits
        dest!: leb128_overlong_rest)
qed simp

lemma leb128_decode_rest:
  "leb128s_i64_decode src = Inr (v, rest) \<Longrightarrow> length rest < length src"
  "leb128u_u64_decode src = Inr (w, rest) \<Longrightarrow> length rest < length src"
  by (auto simp: leb128s_i64_decode_def leb128u_u64_decode_def
      dest: leb128s_decode_loop_rest leb128u_decode_loop_rest)

function list_decode_loop ::
  "bool \<Rightarrow> u8 list \<Rightarrow> nat \<Rightarrow> nat \<Rightarrow> physical_extents \<Rightarrow> physical_extents outcome" where
  "list_decode_loop mem src total_blocks last_inode_extent_end inode_extents =
     (let decode_buf = take 20 src in
      if length decode_buf < 2 then Err (FsFormatError InvalidExtents)
      else if length decode_buf = 2 then
        if decode_buf ! 0 \<noteq> 0 \<or> decode_buf ! 1 \<noteq> 0 then Err (FsFormatError InvalidExtents)
        else Ok inode_extents
      else case leb128s_i64_decode decode_buf of
        Inl _ \<Rightarrow> Err (FsFormatError InvalidExtents)
      | Inr (delta, remaining) \<Rightarrow> (case leb128u_u64_decode remaining of
        Inl _ \<Rightarrow> Err (FsFormatError InvalidExtents)
      | Inr (inode_extent_allocation_blocks, remaining) \<Rightarrow>
        let consumed = length decode_buf - length remaining;
            inode_extent_begin = of_nat last_inode_extent_end + delta
        in if inode_extent_allocation_blocks = 0 then Err (FsFormatError InvalidExtents)
           else if drop_bit MAX_IMAGE_ALLOCATION_BLOCKS_LOG2 (inode_extent_begin OR inode_extent_allocation_blocks) \<noteq> 0
           then Err (FsFormatError InvalidExtents)
           else
             and_then (add_u64 (unat inode_extent_begin) (unat inode_extent_allocation_blocks)) (\<lambda>inode_extent_end.
             and_then (add_u64 total_blocks (unat inode_extent_allocation_blocks)) (\<lambda>total_blocks.
             if drop_bit MAX_IMAGE_ALLOCATION_BLOCKS_LOG2 (inode_extent_end OR total_blocks) \<noteq> 0
             then Err (FsFormatError InvalidExtents)
             else
               and_then (block_range_new (unat inode_extent_begin) inode_extent_end) (\<lambda>r.
               and_then (push_extent mem inode_extents r True) (\<lambda>inode_extents.
               list_decode_loop mem (drop consumed src) total_blocks inode_extent_end inode_extents))))))"
  by pat_completeness auto
termination
proof (relation "measure (\<lambda>(mem, src, t, l, es). length src)", goal_cases)
  case (2 mem src total_blocks last es buf d delta r1 u blocks r2)
  then have "length r1 < length (take 20 src)" "length r2 < length r1" by (auto dest: leb128_decode_rest)
  then have "length (take 20 src) - length r2 > 0" "src \<noteq> []" by auto
  with 2 show ?case by auto
qed simp

declare list_decode_loop.simps [simp del]

definition indirect_extents_list_decode :: "bool \<Rightarrow> u8 list \<Rightarrow> physical_extents outcome" where
  "indirect_extents_list_decode mem src = list_decode_loop mem src 0 0 []"

section \<open>The encoded list\<close>

definition extent_range :: "nat \<times> nat \<Rightarrow> block_range" where
  "extent_range e = mk_range (fst e) (fst e + snd e)"

lemma extent_range_simps [simp]:
  "range_begin (extent_range e) = fst e" "range_end (extent_range e) = fst e + snd e"
  "blocks (extent_range e) = set (extent_blocks e)"
  by (simp_all add: extent_range_def)

lemma physical_extents_iter_Ok: "extents_ok es \<Longrightarrow> physical_extents_iter es = Ok (map extent_range es)"
  by (induction es) (auto simp: extent_range_def)

definition pair_bytes :: "nat \<Rightarrow> block_range \<Rightarrow> u8 list" where
  "pair_bytes l r = leb128s_bytes (extent_delta l r) @ leb128u_bytes (of_nat (range_end r - range_begin r))"

fun list_bytes :: "nat \<Rightarrow> block_range list \<Rightarrow> u8 list" where
  "list_bytes l [] = [0, 0]"
| "list_bytes l (r # rs) = pair_bytes l r @ list_bytes (range_end r) rs"

lemma length_pair_bytes: "2 \<le> length (pair_bytes l r)" "length (pair_bytes l r) \<le> 20"
  using leb128s_len(1,4) [of "extent_delta l r"] leb128u_len(1,4) [of "of_nat (range_end r - range_begin r)"]
  by (simp_all add: pair_bytes_def)

lemma length_list_bytes: "2 \<le> length (list_bytes l rs)" "length (list_bytes l rs) \<le> 2 + 20 * length rs"
proof (induction rs arbitrary: l)
  case (Cons r rs)
  { case 1 show ?case using Cons(1) [of "range_end r"] by simp }
  { case 2 show ?case using Cons(2) [of "range_end r"] length_pair_bytes(2) [of l r] by simp }
qed simp_all

lemma encoded_len_loop_Ok:
  assumes "\<forall>r \<in> set rs. range_begin r \<le> range_end r" "n + length (list_bytes l rs) < u64_bound"
  shows "encoded_len_loop (n + 2) l rs = Ok (n + length (list_bytes l rs))"
  using assms
proof (induction rs arbitrary: n l)
  case (Cons r rs)
  have "encoded_len_loop (n + 2) l (r # rs) = encoded_len_loop (n + length (pair_bytes l r) + 2) (range_end r) rs"
    using Cons.prems length_list_bytes(1) [of "range_end r" rs] by (simp add: Let_def pair_bytes_def)
  also have "\<dots> = Ok (n + length (list_bytes l (r # rs)))"
    using Cons.IH [of "n + length (pair_bytes l r)" "range_end r"] Cons.prems by (simp add: add.assoc)
  finally show ?case .
qed simp

lemma encode_into_loop_Ok:
  assumes "\<forall>r \<in> set rs. range_begin r \<le> range_end r" "length (list_bytes l rs) \<le> length dst"
  shows "encode_into_loop l rs dst = Ok (list_bytes l rs, drop (length (list_bytes l rs)) dst)"
  using assms
proof (induction rs arbitrary: l dst)
  case (Cons r rs)
  let ?d = "extent_delta l r" and ?c = "of_nat (range_end r - range_begin r)"
  let ?n = "leb128s_i64_encoded_len ?d" and ?m = "leb128u_u64_encoded_len ?c"
  have len: "?n + ?m + length (list_bytes (range_end r) rs) \<le> length dst"
    using Cons.prems(2) by (simp add: pair_bytes_def)
  have "leb128s_i64_encode dst ?d = Ok (leb128s_bytes ?d, drop ?n dst)"
    using len by (intro leb128s_i64_encode_eq) simp
  moreover have "leb128u_u64_encode (drop ?n dst) ?c = Ok (leb128u_bytes ?c, drop (?m + ?n) dst)"
    using len leb128u_u64_encode_eq [of ?c "drop ?n dst"] by simp
  moreover have "encode_into_loop (range_end r) rs (drop (?m + ?n) dst)
      = Ok (list_bytes (range_end r) rs, drop (length (list_bytes (range_end r) rs)) (drop (?m + ?n) dst))"
    using len Cons.prems(1) by (intro Cons.IH) simp_all
  ultimately show ?case using Cons.prems(1) by (simp add: pair_bytes_def add_ac)
qed (simp add: numeral_2_eq_2)

lemma list_encode_Ok:
  assumes "\<forall>r \<in> set rs. range_begin r \<le> range_end r" "2 + 20 * length rs < u64_bound"
  shows "indirect_extents_list_encode True rs None = Ok (list_bytes 0 rs)"
proof -
  have "length (list_bytes 0 rs) < u64_bound"
    using length_list_bytes(2) [of 0 rs] assms(2) by linarith
  then have "indirect_extents_list_encoded_len rs = Ok (length (list_bytes 0 rs))"
    using encoded_len_loop_Ok [OF assms(1), of 0 0] by (simp add: indirect_extents_list_encoded_len_def numeral_2_eq_2)
  with assms(1) show ?thesis
    by (simp add: indirect_extents_list_encode_def indirect_extents_list_encode_into_def encode_into_loop_Ok)
qed

section \<open>Decoding an encoded list\<close>

lemma push_extent_no_merge:
  assumes "extents_ok (acc @ [e])" "set (pe_seq acc) \<inter> set (extent_blocks e) = {}"
  shows "push_extent True acc (extent_range e) True = Ok (acc @ [e])"
proof -
  have "range_wf (extent_range e)" using assms(1) by (simp add: range_wf_def)
  moreover from this have "any_overlap acc (extent_range e) = Ok False"
    using assms by (intro any_overlap_disjoint) simp_all
  ultimately show ?thesis
    using assms(1) by (simp add: push_extent_def insert_extent_def)
qed

lemma decode_pair:
  assumes "length (pair_bytes l r @ rest) \<ge> 4"
  shows "leb128s_i64_decode (take 20 (pair_bytes l r @ rest))
      = Inr (extent_delta l r, leb128u_bytes (of_nat (range_end r - range_begin r)) @ take (20 - length (pair_bytes l r)) rest)"
  using leb128s.dec_enc [of "extent_delta l r"] length_pair_bytes(2) [of l r]
  by (simp add: pair_bytes_def)

lemma delta_cancel: "(of_nat l :: u64) + extent_delta l r = of_nat (range_begin r)"
  by (simp add: extent_delta_def)

lemma drop_bit_or_57:
  "a < 2 ^ 57 \<Longrightarrow> b < 2 ^ 57 \<Longrightarrow> drop_bit 57 (of_nat a OR of_nat b :: u64) = 0"
  "a < 2 ^ 57 \<Longrightarrow> b < 2 ^ 57 \<Longrightarrow> drop_bit 57 (a OR b :: nat) = 0"
proof -
  assume ab: "a < 2 ^ 57" "b < 2 ^ 57"
  then have "drop_bit 57 a = 0" "drop_bit 57 b = 0" by (simp_all add: drop_bit_eq_div)
  then show n: "drop_bit 57 (a OR b :: nat) = 0" by (simp add: drop_bit_or)
  have "unat (drop_bit 57 (of_nat a OR of_nat b :: u64)) = drop_bit 57 (a OR b)"
    using ab by (simp add: unat_drop_bit_eq unsigned_or_eq unat_of_nat)
  with n show "drop_bit 57 (of_nat a OR of_nat b :: u64) = 0" by (simp add: unat_eq_0)
qed

lemma list_decode_step:
  assumes e: "0 < snd e" "fst e + snd e < 2 ^ 57" and t: "tot + snd e < 2 ^ 57" and rest: "2 \<le> length rest"
    and acc: "extents_ok (acc @ [e])" "set (pe_seq acc) \<inter> set (extent_blocks e) = {}"
  shows "list_decode_loop True (pair_bytes l (extent_range e) @ rest) tot l acc
    = list_decode_loop True rest (tot + snd e) (fst e + snd e) (acc @ [e])"
proof -
  let ?p = "pair_bytes l (extent_range e)" and ?c = "of_nat (snd e) :: u64" and ?b = "of_nat (fst e) :: u64"
  have u: "unat ?b = fst e" "unat ?c = snd e" using e by (simp_all add: unat_of_nat)
  have c0: "?c \<noteq> 0" using e(1) u(2) by auto
  have long: "\<not> length (take 20 (?p @ rest)) < 2" "length (take 20 (?p @ rest)) \<noteq> 2"
    using rest length_pair_bytes [of l "extent_range e"] by simp_all
  have s: "leb128s_i64_decode (take 20 (?p @ rest))
      = Inr (extent_delta l (extent_range e), leb128u_bytes ?c @ take (20 - length ?p) rest)"
    using decode_pair [of l "extent_range e" rest] rest length_pair_bytes(1) [of l "extent_range e"] by simp
  have d: "leb128u_u64_decode (leb128u_bytes ?c @ take (20 - length ?p) rest) = Inr (?c, take (20 - length ?p) rest)"
    by (rule leb128u.dec_enc) simp
  have cons: "length (take 20 (?p @ rest)) - length (take (20 - length ?p) rest) = length ?p"
    using length_pair_bytes(2) [of l "extent_range e"] by simp
  have b: "of_nat l + extent_delta l (extent_range e) = ?b" using delta_cancel [of l "extent_range e"] by simp
  have z1: "drop_bit 57 (?b OR ?c) = 0" using e by (intro drop_bit_or_57(1)) simp_all
  have z2: "drop_bit 57 ((fst e + snd e) OR (tot + snd e)) = 0" using e t by (intro drop_bit_or_57(2)) simp_all
  have a: "add_u64 (fst e) (snd e) = Ok (fst e + snd e)" "add_u64 tot (snd e) = Ok (tot + snd e)"
    "block_range_new (fst e) (fst e + snd e) = Ok (extent_range e)"
    using e t by (simp_all add: extent_range_def)
  have len57: "(64::nat) - 7 = 57" by simp
  show ?thesis
    apply (subst list_decode_loop.simps)
    apply (simp only: Let_def long if_False s d sum.case prod.case c0 b u MAX_IMAGE_ALLOCATION_BLOCKS_LOG2_def len57
        z1 z2 a and_then_simps push_extent_no_merge [OF acc] cons simp_thms)
    apply simp
    done
qed

lemma list_decode_loop_Ok:
  assumes "\<forall>e \<in> set es. fst e + snd e < 2 ^ 57" "tot + length (pe_seq es) < 2 ^ 57" "pe_wf (acc @ es)"
  shows "list_decode_loop True (list_bytes l (map extent_range es)) tot l acc = Ok (acc @ es)"
  using assms
proof (induction es arbitrary: tot l acc)
  case Nil
  show ?case by (subst list_decode_loop.simps) simp
next
  case (Cons e es)
  have "list_decode_loop True (list_bytes l (map extent_range (e # es))) tot l acc
      = list_decode_loop True (list_bytes (fst e + snd e) (map extent_range es)) (tot + snd e) (fst e + snd e) (acc @ [e])"
    using Cons.prems length_list_bytes(1) [of "fst e + snd e" "map extent_range es"]
    by (simp del: length_list_bytes) (intro list_decode_step, auto simp: pe_wf_def)
  also have "\<dots> = Ok ((acc @ [e]) @ es)"
    using Cons.prems by (intro Cons.IH) auto
  finally show ?case by simp
qed

section \<open>Properties\<close>

text \<open>
  C17: Every well formed sequence of extents below \<open>2 ^ 57\<close> blocks is encoded into a list without
  an error, and decoding the list (through the window of 20 bytes) gives back the same extents in
  the same order, not merged. The distances between extents are encoded modulo \<open>2 ^ 64\<close>, so
  extents in any order are covered.
\<close>

theorem extents_list_roundtrip:
  assumes "pe_wf es" "\<forall>e \<in> set es. fst e + snd e < 2 ^ 57" "length (pe_seq es) < 2 ^ 57"
    and "2 + 20 * length es < u64_bound"
  shows "\<exists>extents bytes. physical_extents_iter es = Ok extents
    \<and> indirect_extents_list_encode True extents None = Ok bytes
    \<and> indirect_extents_list_decode True bytes = Ok es"
proof -
  have "physical_extents_iter es = Ok (map extent_range es)"
    using assms(1) by (intro physical_extents_iter_Ok) (simp add: pe_wf_def)
  moreover have "indirect_extents_list_encode True (map extent_range es) None = Ok (list_bytes 0 (map extent_range es))"
    using assms(4) by (intro list_encode_Ok) auto
  moreover have "indirect_extents_list_decode True (list_bytes 0 (map extent_range es)) = Ok es"
    using list_decode_loop_Ok [of es 0 "[]" 0] assms by (simp add: indirect_extents_list_decode_def)
  ultimately show ?thesis by blast
qed

theorem extents_list_roundtrip_witness:
  "\<exists>extents bytes. physical_extents_iter [(70, 3), (5, 60)] = Ok extents
    \<and> indirect_extents_list_encode True extents None = Ok bytes
    \<and> indirect_extents_list_decode True bytes = Ok [(70, 3), (5, 60)]"
proof -
  have "pe_wf [(70, 3), (5, 60)]" by (simp add: pe_wf_def extent_blocks_def)
  then show ?thesis by (intro extents_list_roundtrip) simp_all
qed

text \<open>
  A sequence of extents qualifies for a direct pointer exactly if it is empty or has a single
  extent of 64 blocks at most. The pointer then decodes to NIL or to that extent without the
  indirect flag; any other sequence ends in
  \<open>nvfs_err_internal!()\<close>, a panic with debug assertions.
\<close>

theorem encode_direct_correct:
  assumes "pe_wf es" "\<forall>e \<in> set es. fst e + snd e < 2 ^ (57 - abl)" "abl \<le> 57"
  shows "case es of
      [] \<Rightarrow> extent_ptr_encode_direct es = Ok extent_ptr_encode_nil
    | [e] \<Rightarrow> if snd e \<le> 64
        then \<exists>bytes. extent_ptr_encode_direct es = Ok bytes
          \<and> extent_ptr_decode bytes abl = Ok (Some (mk_range (fst e) (fst e + snd e), False))
        else extent_ptr_encode_direct es = Panic
    | _ \<Rightarrow> extent_ptr_encode_direct es = Panic"
proof (cases es)
  case (Cons e fs)
  show ?thesis
  proof (cases fs)
    case Nil
    have ok: "0 < snd e" "fst e + snd e < u64_bound" using assms(1) Cons Nil by (simp_all add: pe_wf_def)
    then have can: "can_encode_direct es = Ok (snd e \<le> 64)"
      using Cons Nil by (simp add: can_encode_direct_def get_extent_range_def MAX_EXTENT_ALLOCATION_BLOCKS_def
          EXTENT_ALLOCATION_BLOCKS_ENCODING_BITS_def)
    have "snd e \<le> 64 \<Longrightarrow> \<exists>bytes. extent_ptr_encode (Some (mk_range (fst e) (fst e + snd e))) False = Ok bytes
        \<and> extent_ptr_decode bytes abl = Ok (Some (mk_range (fst e) (fst e + snd e), False))"
      using extent_ptr_roundtrip_aux [of "mk_range (fst e) (fst e + snd e)" abl False] ok(1) assms Cons by auto
    with can ok Cons Nil show ?thesis by (simp add: extent_ptr_encode_direct_def)
  qed (simp add: Cons extent_ptr_encode_direct_def can_encode_direct_def)
qed (simp add: extent_ptr_encode_direct_def can_encode_direct_def)

theorem encode_direct_correct_witness:
  "\<exists>bytes. extent_ptr_encode_direct [(9, 64)] = Ok bytes
     \<and> extent_ptr_decode bytes 2 = Ok (Some (mk_range 9 73, False))"
proof -
  have "pe_wf [(9, 64)]" by (simp add: pe_wf_def extent_blocks_def)
  from encode_direct_correct [OF this, of 2] show ?thesis by simp
qed

end
