(* ===== verification/Sparse_Bitmap_Iter.thy ===== *)
theory Sparse_Bitmap_Iter
  imports Alloc_Bitmap_Iter
begin

text \<open>
  The iterators over one sparse allocation bitmap (\<open>SparseAllocBitmapIterator\<close> and
  \<open>SparseAllocBitmapBlockIterator\<close> of \<open>sparse_bitmap.rs\<close>). The second one cuts every word into
  blocks of a power of two of allocation blocks and yields those which have some bit set. Both fulfil the
  contract \<open>list_iterator\<close>, also after a jump ahead.
\<close>

section \<open>Operations\<close>

record sb_iter =
  iter_entries :: "sparse_entry list"
  next_sparse_entry_index :: nat

definition sb_iter_new :: "sparse_alloc_bitmap \<Rightarrow> sb_iter" where
  "sb_iter_new sb = \<lparr>iter_entries = sb_entries sb, next_sparse_entry_index = 0\<rparr>"

definition sb_iter_skip_to :: "sb_iter \<Rightarrow> nat \<Rightarrow> sb_iter outcome" where
  "sb_iter_skip_to it physical_allocation_block_index =
     (let bitmap_word_index = drop_bit 6 physical_allocation_block_index;
          es = iter_entries it;
          i = next_sparse_entry_index it
      in and_then (if i = 0 then Ok True else and_then (vec_get es (i - 1)) (\<lambda>e. Ok (fst e < bitmap_word_index))) (\<lambda>behind.
         debug_assert behind (
         if i = length es then Ok it
         else
           and_then (vec_get es i) (\<lambda>e.
           if bitmap_word_index \<le> fst e then Ok it
           else
             let offset = (case find_entry_position (drop i es) bitmap_word_index of Inr p \<Rightarrow> p | Inl p \<Rightarrow> p)
             in Ok (it\<lparr>next_sparse_entry_index := i + offset\<rparr>)))))"

definition sb_iter_new_at :: "sparse_alloc_bitmap \<Rightarrow> nat \<Rightarrow> sb_iter outcome" where
  "sb_iter_new_at sb physical_allocation_block_index =
     sb_iter_skip_to \<lparr>iter_entries = sb_entries sb, next_sparse_entry_index = 0\<rparr> physical_allocation_block_index"

definition sb_iter_next :: "sb_iter \<Rightarrow> ((nat \<times> bitmap_word) option \<times> sb_iter) outcome" where
  "sb_iter_next it =
     (if next_sparse_entry_index it \<noteq> length (iter_entries it) then
        and_then (vec_get (iter_entries it) (next_sparse_entry_index it)) (\<lambda>e.
        Ok (Some (push_bit 6 (fst e), snd e), it\<lparr>next_sparse_entry_index := next_sparse_entry_index it + 1\<rparr>))
      else Ok (None, it))"

record sb_block_iter =
  sparse_bitmap_iter :: sb_iter
  cur_sparse_bitmap_word :: "(nat \<times> bitmap_word) option"
  next_pos_in_cur_sparse_bitmap_word :: nat
  block_allocation_blocks_log2 :: nat

definition same_word :: "nat \<Rightarrow> nat \<Rightarrow> bool" where
  "same_word a b \<longleftrightarrow> drop_bit 6 (a XOR b) = 0"

definition sb_block_iter_new :: "sparse_alloc_bitmap \<Rightarrow> nat \<Rightarrow> sb_block_iter outcome" where
  "sb_block_iter_new sb log2 =
     debug_assert (log2 \<le> 6) (
     and_then (sb_iter_next (sb_iter_new sb)) (\<lambda>(w, it).
     Ok \<lparr>sparse_bitmap_iter = it, cur_sparse_bitmap_word = w, next_pos_in_cur_sparse_bitmap_word = 0,
         block_allocation_blocks_log2 = log2\<rparr>))"

definition sb_block_iter_new_at :: "sparse_alloc_bitmap \<Rightarrow> nat \<Rightarrow> nat \<Rightarrow> sb_block_iter outcome" where
  "sb_block_iter_new_at sb block_allocation_blocks_begin log2 =
     debug_assert (log2 \<le> 6) (
     debug_assert (2 ^ log2 dvd block_allocation_blocks_begin) (
     and_then (sb_iter_new_at sb block_allocation_blocks_begin) (\<lambda>it.
     and_then (sb_iter_next it) (\<lambda>(w, it).
     let pos = (if case w of Some w \<Rightarrow> same_word (fst w) block_allocation_blocks_begin | None \<Rightarrow> False
                then block_allocation_blocks_begin AND 63 else 0)
     in Ok \<lparr>sparse_bitmap_iter = it, cur_sparse_bitmap_word = w, next_pos_in_cur_sparse_bitmap_word = pos,
            block_allocation_blocks_log2 = log2\<rparr>))))"

definition sb_block_iter_skip_to :: "sb_block_iter \<Rightarrow> nat \<Rightarrow> sb_block_iter outcome" where
  "sb_block_iter_skip_to bi block_allocation_blocks_begin =
     debug_assert (2 ^ block_allocation_blocks_log2 bi dvd block_allocation_blocks_begin) (
     case cur_sparse_bitmap_word bi of
       None \<Rightarrow> Ok bi
     | Some cur \<Rightarrow>
         debug_assert (fst cur \<le> block_allocation_blocks_begin) (
         if \<not> same_word block_allocation_blocks_begin (fst cur) then
           and_then (sb_iter_skip_to (sparse_bitmap_iter bi) block_allocation_blocks_begin) (\<lambda>it.
           and_then (sb_iter_next it) (\<lambda>(w, it).
           let bi = bi\<lparr>sparse_bitmap_iter := it, cur_sparse_bitmap_word := w\<rparr>
           in if case w of Some w \<Rightarrow> \<not> same_word (fst w) block_allocation_blocks_begin | None \<Rightarrow> True
              then Ok (bi\<lparr>next_pos_in_cur_sparse_bitmap_word := 0\<rparr>)
              else Ok (bi\<lparr>next_pos_in_cur_sparse_bitmap_word := block_allocation_blocks_begin AND 63\<rparr>)))
         else Ok (bi\<lparr>next_pos_in_cur_sparse_bitmap_word := block_allocation_blocks_begin AND 63\<rparr>)))"

lemma sb_iter_next_Some:
  assumes "sb_iter_next it = Ok (Some w, it')"
  shows "next_sparse_entry_index it < length (iter_entries it)" "iter_entries it' = iter_entries it"
    "next_sparse_entry_index it' = next_sparse_entry_index it + 1"
  using assms by (auto simp: sb_iter_next_def outcome_simps split: if_splits)

function sb_block_iter_next :: "sb_block_iter \<Rightarrow> ((nat \<times> bitmap_word) option \<times> sb_block_iter) outcome" where
  "sb_block_iter_next bi =
     (case cur_sparse_bitmap_word bi of
        None \<Rightarrow> Ok (None, bi)
      | Some cur \<Rightarrow>
          let block_allocation_blocks = 2 ^ block_allocation_blocks_log2 bi;
              pos = next_pos_in_cur_sparse_bitmap_word bi;
              cur_block_begin = fst cur + pos;
              cur_block_bitmap = drop_bit pos (snd cur) AND trailing_bits_mask block_allocation_blocks;
              pos = pos + block_allocation_blocks
          in and_then (if 64 \<le> pos then
                 debug_assert (pos = 64) (
                 and_then (sb_iter_next (sparse_bitmap_iter bi)) (\<lambda>(w, it).
                 Ok (bi\<lparr>sparse_bitmap_iter := it, cur_sparse_bitmap_word := w, next_pos_in_cur_sparse_bitmap_word := 0\<rparr>)))
               else Ok (bi\<lparr>next_pos_in_cur_sparse_bitmap_word := pos\<rparr>)) (\<lambda>bi.
             if cur_block_bitmap = 0 then sb_block_iter_next bi
             else Ok (Some (cur_block_begin, cur_block_bitmap), bi)))"
  by pat_completeness auto
termination
proof (relation "measure (\<lambda>bi. case cur_sparse_bitmap_word bi of None \<Rightarrow> 0 | Some _ \<Rightarrow>
    65 * (length (iter_entries (sparse_bitmap_iter bi)) - next_sparse_entry_index (sparse_bitmap_iter bi))
      + (65 - next_pos_in_cur_sparse_bitmap_word bi))", goal_cases)
  case (2 bi cur bs pos cb bm pos' bi')
  have bs: "0 < bs" unfolding 2(2) by simp
  show ?case
  proof (cases "64 \<le> pos'")
    case False
    then have "bi' = bi\<lparr>next_pos_in_cur_sparse_bitmap_word := pos'\<rparr>" "pos' = pos + bs" "pos = next_pos_in_cur_sparse_bitmap_word bi"
      using 2 by simp_all
    then show ?thesis using 2(1) bs False by simp
  next
    case True
    then have "pos' = 64" and "\<exists>w it. sb_iter_next (sparse_bitmap_iter bi) = Ok (w, it)
        \<and> bi' = bi\<lparr>sparse_bitmap_iter := it, cur_sparse_bitmap_word := w, next_pos_in_cur_sparse_bitmap_word := 0\<rparr>"
      using 2 by (auto simp: outcome_simps debug_assert_def split: if_splits)
    then obtain w it where w: "sb_iter_next (sparse_bitmap_iter bi) = Ok (w, it)"
      "bi' = bi\<lparr>sparse_bitmap_iter := it, cur_sparse_bitmap_word := w, next_pos_in_cur_sparse_bitmap_word := 0\<rparr>" by blast
    have "next_pos_in_cur_sparse_bitmap_word bi < 65" using \<open>pos' = 64\<close> bs 2 by simp
    then show ?thesis using 2(1) w sb_iter_next_Some [of "sparse_bitmap_iter bi" _ it] by (cases w) (auto simp: diff_less_mono2)
  qed
qed simp

declare sb_block_iter_next.simps [simp del]

section \<open>The iterator over the entries\<close>

definition entry_state :: "sb_iter \<Rightarrow> bool" where
  "entry_state it \<longleftrightarrow> next_sparse_entry_index it \<le> length (iter_entries it)"

definition entry_items :: "sb_iter \<Rightarrow> (nat \<times> bitmap_word) list" where
  "entry_items it = map (\<lambda>e. (64 * fst e, snd e)) (drop (next_sparse_entry_index it) (iter_entries it))"

lemma sb_iter_next_spec:
  assumes "entry_state it"
  shows "\<exists>it'. sb_iter_next it = Ok (case entry_items it of [] \<Rightarrow> None | a # _ \<Rightarrow> Some a, it') \<and> entry_state it'
    \<and> entry_items it' = tl (entry_items it) \<and> iter_entries it' = iter_entries it"
proof (cases "next_sparse_entry_index it < length (iter_entries it)")
  case True
  then show ?thesis
    by (simp add: sb_iter_next_def entry_state_def entry_items_def Cons_nth_drop_Suc [symmetric] push_bit_eq_mult)
next
  case False
  then show ?thesis using assms by (simp add: sb_iter_next_def entry_state_def entry_items_def)
qed

interpretation entry_it: list_iterator entry_state entry_items sb_iter_next
proof
  show "\<exists>it'. sb_iter_next it = Ok (None, it') \<and> entry_state it' \<and> entry_items it' = []"
    if "entry_state it" "entry_items it = []" for it using sb_iter_next_spec [OF that(1)] that(2) by auto
  show "\<exists>it'. sb_iter_next it = Ok (Some a, it') \<and> entry_state it' \<and> entry_items it' = as"
    if "entry_state it" "entry_items it = a # as" for it a as using sb_iter_next_spec [OF that(1)] that(2) by auto
qed

text \<open>Everything before the position of the iterator lies before word \<open>k\<close>.\<close>

definition behind :: "sb_iter \<Rightarrow> nat \<Rightarrow> bool" where
  "behind it k \<longleftrightarrow> (\<forall>e \<in> set (take (next_sparse_entry_index it) (iter_entries it)). fst e < k)"

lemma sb_iter_skip_to_spec:
  assumes "entry_state it" "sb_sorted (iter_entries it)" "behind it (b div 64)"
  shows "\<exists>it'. sb_iter_skip_to it b = Ok it' \<and> entry_state it' \<and> iter_entries it' = iter_entries it
    \<and> entry_items it' = map (\<lambda>e. (64 * fst e, snd e)) (filter (\<lambda>e. b div 64 \<le> fst e) (iter_entries it))"
proof -
  let ?i = "next_sparse_entry_index it" and ?k = "b div 64" and ?es = "iter_entries it"
  have i: "?i \<le> length ?es" using assms(1) by (simp add: entry_state_def)
  have es: "?es = take ?i ?es @ drop ?i ?es" by simp
  have srt: "sb_sorted (drop ?i ?es)" using assms(2) es sb_sorted_simps(3) by metis
  from split_atE [OF srt] obtain xs ys where sp: "split_at ?k (drop ?i ?es) xs ys" .
  then have d: "drop ?i ?es = xs @ ys" "\<forall>x \<in> set xs. fst x < ?k" "\<forall>y \<in> set ys. ?k \<le> fst y" by (simp_all add: split_at_def)
  have pos: "(case find_entry_position (drop ?i ?es) ?k of Inr p \<Rightarrow> p | Inl p \<Rightarrow> p) = length xs"
    unfolding split_at_find [OF sp] by (auto split: list.splits)
  let ?it = "it\<lparr>next_sparse_entry_index := ?i + length xs\<rparr>"
  have last: "?es ! (?i - 1) \<in> set (take ?i ?es)" if "?i \<noteq> 0"
    using that i by (metis One_nat_def diff_less in_set_conv_nth length_take min.absorb2 not_gr_zero nth_take zero_less_one)
  have get: "(if ?i = 0 then Ok True else and_then (vec_get ?es (?i - 1)) (\<lambda>e. Ok (fst e < ?k))) = Ok True"
    using assms(3) i last by (auto simp: behind_def vec_get_def)
  have run: "sb_iter_skip_to it b = Ok ?it"
  proof (cases "?i = length ?es")
    case True
    then have "xs = []" using d(1) by simp
    then show ?thesis unfolding sb_iter_skip_to_def drop_bit_6 Let_def get using True by simp
  next
    case False
    then have at: "vec_get ?es ?i = Ok ((xs @ ys) ! 0)" using i d(1) by (auto simp: vec_get_def d(1) [symmetric])
    show ?thesis
    proof (cases xs)
      case Nil
      then have "ys \<noteq> []" using False i d(1) by auto
      then show ?thesis unfolding sb_iter_skip_to_def drop_bit_6 Let_def get at using False Nil d(3) by (cases ys) auto
    next
      case (Cons x xs')
      then show ?thesis unfolding sb_iter_skip_to_def drop_bit_6 Let_def get at pos using False d(2) by auto
    qed
  qed
  have "drop (?i + length xs) ?es = ys" using d(1) by (metis add.commute append_eq_conv_conj drop_drop)
  moreover have "filter (\<lambda>e. ?k \<le> fst e) ?es = ys"
  proof -
    have "filter (\<lambda>e. ?k \<le> fst e) (take ?i ?es) = []" using assms(3) by (auto simp: behind_def filter_empty_conv)
    moreover have "filter (\<lambda>e. ?k \<le> fst e) (xs @ ys) = ys" using d(2,3) by (auto simp: filter_empty_conv)
    ultimately show ?thesis using es d(1) by (metis append_Nil filter_append)
  qed
  moreover have "?i + length xs \<le> length ?es" using d(1) i by (metis add_le_cancel_left le_add1 le_add_diff_inverse length_append length_drop)
  ultimately show ?thesis using run by (simp add: entry_state_def entry_items_def)
qed

section \<open>The iterator over the blocks\<close>

definition word_blocks :: "nat \<Rightarrow> nat \<Rightarrow> nat \<times> bitmap_word \<Rightarrow> (nat \<times> bitmap_word) list" where
  "word_blocks l j c = map (\<lambda>j. (fst c + 2 ^ l * j, drop_bit (2 ^ l * j) (snd c) AND mask (2 ^ l))) [j..<64 div 2 ^ l]"

definition block_seq :: "sb_block_iter \<Rightarrow> (nat \<times> bitmap_word) list" where
  "block_seq bi = (let l = block_allocation_blocks_log2 bi in
     case cur_sparse_bitmap_word bi of None \<Rightarrow> []
     | Some c \<Rightarrow> word_blocks l (next_pos_in_cur_sparse_bitmap_word bi div 2 ^ l) c
         @ concat (map (word_blocks l 0) (entry_items (sparse_bitmap_iter bi))))"

definition block_items :: "sb_block_iter \<Rightarrow> (nat \<times> bitmap_word) list" where
  "block_items bi = filter (\<lambda>c. snd c \<noteq> 0) (block_seq bi)"

definition current :: "sb_iter \<Rightarrow> (nat \<times> bitmap_word) option \<Rightarrow> bool" where
  "current it w \<longleftrightarrow> (case w of None \<Rightarrow> entry_items it = []
     | Some c \<Rightarrow> 0 < next_sparse_entry_index it
         \<and> c = (64 * fst (iter_entries it ! (next_sparse_entry_index it - 1)), snd (iter_entries it ! (next_sparse_entry_index it - 1))))"

lemma sb_iter_next_current:
  assumes "entry_state it" "sb_iter_next it = Ok (w, it')"
  shows "current it' w"
  using assms by (auto simp: sb_iter_next_def current_def entry_state_def entry_items_def outcome_simps vec_get_def push_bit_eq_mult split: if_splits)

definition block_state :: "sparse_entry list \<Rightarrow> sb_block_iter \<Rightarrow> bool" where
  "block_state es bi \<longleftrightarrow> entry_state (sparse_bitmap_iter bi) \<and> iter_entries (sparse_bitmap_iter bi) = es
     \<and> current (sparse_bitmap_iter bi) (cur_sparse_bitmap_word bi) \<and> block_allocation_blocks_log2 bi \<le> 6
     \<and> 2 ^ block_allocation_blocks_log2 bi dvd next_pos_in_cur_sparse_bitmap_word bi \<and> next_pos_in_cur_sparse_bitmap_word bi < 64"

text \<open>One turn of the loop takes the first block off the sequence.\<close>

lemma block_turn:
  assumes st: "block_state es bi" and cur: "cur_sparse_bitmap_word bi = Some cur"
  defines "l \<equiv> block_allocation_blocks_log2 bi" and "pos \<equiv> next_pos_in_cur_sparse_bitmap_word bi"
  shows "\<exists>bi'. (if 64 \<le> pos + 2 ^ l then
        debug_assert (pos + 2 ^ l = 64) (
        and_then (sb_iter_next (sparse_bitmap_iter bi)) (\<lambda>(w, it).
        Ok (bi\<lparr>sparse_bitmap_iter := it, cur_sparse_bitmap_word := w, next_pos_in_cur_sparse_bitmap_word := 0\<rparr>)))
      else Ok (bi\<lparr>next_pos_in_cur_sparse_bitmap_word := pos + 2 ^ l\<rparr>)) = Ok bi'
    \<and> block_state es bi' \<and> block_seq bi = (fst cur + pos, drop_bit pos (snd cur) AND mask (2 ^ l)) # block_seq bi'"
proof -
  have l: "l \<le> 6" and dvd: "2 ^ l dvd pos" and pos: "pos < 64" and it: "entry_state (sparse_bitmap_iter bi)"
    and es: "iter_entries (sparse_bitmap_iter bi) = es"
    using st by (simp_all add: block_state_def l_def pos_def)
  have six: "(64::nat) = 2 ^ l * 2 ^ (6 - l)" using l by (simp flip: power_add)
  obtain j where j: "pos = 2 ^ l * j" using dvd by blast
  have n: "64 div 2 ^ l = (2::nat) ^ (6 - l)" unfolding six by simp
  have jn: "j < 2 ^ (6 - l)" using pos unfolding j six by simp
  let ?b = "(fst cur + pos, drop_bit pos (snd cur) AND mask (2 ^ l))"
  have head: "word_blocks l (pos div 2 ^ l) cur = ?b # word_blocks l (j + 1) cur"
    unfolding word_blocks_def n using jn by (simp add: j upt_conv_Cons)
  let ?rest = "concat (map (word_blocks l 0) (entry_items (sparse_bitmap_iter bi)))"
  have seq: "block_seq bi = ?b # word_blocks l (j + 1) cur @ ?rest"
    using cur head unfolding block_seq_def Let_def l_def [symmetric] pos_def [symmetric] by simp
  have add: "pos + 2 ^ l = 2 ^ l * (j + 1)" unfolding j by simp
  show ?thesis
  proof (cases "64 \<le> pos + 2 ^ l")
    case True
    then have "2 ^ l * 2 ^ (6 - l) \<le> 2 ^ l * (j + 1)" unfolding add six .
    then have "2 ^ (6 - l) = j + 1" using jn by (simp only: mult_le_cancel1) simp
    then have full: "pos + 2 ^ l = 64" "word_blocks l (j + 1) cur = []" unfolding add word_blocks_def n by (simp_all add: six)
    from sb_iter_next_spec [OF it] obtain it' where it': "sb_iter_next (sparse_bitmap_iter bi)
        = Ok (case entry_items (sparse_bitmap_iter bi) of [] \<Rightarrow> None | a # _ \<Rightarrow> Some a, it')"
      "entry_state it'" "entry_items it' = tl (entry_items (sparse_bitmap_iter bi))"
      "iter_entries it' = es" unfolding es by blast
    note cur' = sb_iter_next_current [OF it it'(1)]
    show ?thesis unfolding seq full(2) using it' cur' full(1) l
      by (auto simp: block_state_def block_seq_def l_def [symmetric] split: list.splits)
  next
    case False
    then show ?thesis unfolding seq using l it dvd cur st
      by (simp add: block_state_def block_seq_def l_def [symmetric] add)
  qed
qed

lemma sb_block_iter_next_spec:
  assumes "block_state es bi"
  shows "\<exists>bi'. sb_block_iter_next bi = Ok (case block_items bi of [] \<Rightarrow> None | a # _ \<Rightarrow> Some a, bi') \<and> block_state es bi'
    \<and> block_items bi' = tl (block_items bi)"
  using assms
proof (induction bi rule: sb_block_iter_next.induct)
  case (1 bi)
  show ?case
  proof (cases "cur_sparse_bitmap_word bi")
    case None
    then show ?thesis using 1(2) by (simp add: sb_block_iter_next.simps [of bi] block_items_def block_seq_def)
  next
    case (Some cur)
    let ?l = "block_allocation_blocks_log2 bi" and ?pos = "next_pos_in_cur_sparse_bitmap_word bi"
    let ?b = "(fst cur + ?pos, drop_bit ?pos (snd cur) AND mask (2 ^ ?l))"
    note IH = 1(1) [OF Some refl refl refl refl refl]
    from block_turn [OF 1(2) Some] obtain bi' where turn: "(if 64 \<le> ?pos + 2 ^ ?l then
        debug_assert (?pos + 2 ^ ?l = 64) (
        and_then (sb_iter_next (sparse_bitmap_iter bi)) (\<lambda>(w, it).
        Ok (bi\<lparr>sparse_bitmap_iter := it, cur_sparse_bitmap_word := w, next_pos_in_cur_sparse_bitmap_word := 0\<rparr>)))
      else Ok (bi\<lparr>next_pos_in_cur_sparse_bitmap_word := ?pos + 2 ^ ?l\<rparr>)) = Ok bi'"
      and st: "block_state es bi'" and seq: "block_seq bi = ?b # block_seq bi'" by blast
    have l: "?l \<le> 6" using 1(2) by (simp add: block_state_def)
    have mask: "trailing_bits_mask (2 ^ ?l) = (mask (2 ^ ?l) :: bitmap_word)"
      using power_increasing [OF l, of "2::nat"] by (intro trailing_bits_mask_eq_mask) simp
    have step: "sb_block_iter_next bi = (if snd ?b = 0 then sb_block_iter_next bi' else Ok (Some ?b, bi'))"
      unfolding sb_block_iter_next.simps [of bi] Some option.case Let_def turn mask by simp
    show ?thesis
    proof (cases "snd ?b = 0")
      case True
      then have "block_items bi = block_items bi'" by (simp add: block_items_def seq)
      then show ?thesis using IH [OF turn _ st] True mask unfolding step by simp
    next
      case False
      then have "block_items bi = ?b # block_items bi'" by (simp add: block_items_def seq)
      then show ?thesis using False st unfolding step by simp
    qed
  qed
qed

interpretation block_it: list_iterator "block_state es" block_items sb_block_iter_next for es
proof
  show "\<exists>it'. sb_block_iter_next it = Ok (None, it') \<and> block_state es it' \<and> block_items it' = []"
    if "block_state es it" "block_items it = []" for it using sb_block_iter_next_spec [OF that(1)] that(2) by auto
  show "\<exists>it'. sb_block_iter_next it = Ok (Some a, it') \<and> block_state es it' \<and> block_items it' = as"
    if "block_state es it" "block_items it = a # as" for it a as using sb_block_iter_next_spec [OF that(1)] that(2) by auto
qed

section \<open>Where the iteration starts\<close>

definition all_blocks :: "nat \<Rightarrow> sparse_entry list \<Rightarrow> (nat \<times> bitmap_word) list" where
  "all_blocks l es = concat (map (\<lambda>e. word_blocks l 0 (64 * fst e, snd e)) es)"

lemma same_word_iff: "same_word a b \<longleftrightarrow> a div 64 = b div 64"
proof -
  have "drop_bit 6 (a XOR b) = drop_bit 6 a XOR drop_bit 6 b" by (simp add: bit_eq_iff bit_simps)
  moreover have "x XOR y = 0 \<longleftrightarrow> x = y" for x y :: nat by (auto simp: bit_eq_iff bit_simps)
  ultimately show ?thesis by (simp add: same_word_def drop_bit_6)
qed

lemma and_63: "b AND 63 = b mod 64" for b :: nat
  using take_bit_eq_mask [of 6 b] by (simp add: take_bit_eq_mod mask_eq_exp_minus_1)

lemma le_div_64_iff: "k \<le> b div 64 \<longleftrightarrow> 64 * k \<le> b" for b k :: nat
  by (simp add: less_eq_div_iff_mult_less_eq mult.commute)

lemma word_blocks_fst:
  assumes "l \<le> 6" "c \<in> set (word_blocks l 0 (64 * k, w))"
  shows "64 * k \<le> fst c" "fst c < 64 * (k + 1)"
proof -
  have six: "(64::nat) = 2 ^ l * 2 ^ (6 - l)" using assms(1) by (simp flip: power_add)
  from assms(2) obtain j where j: "fst c = 64 * k + 2 ^ l * j" "j < 64 div 2 ^ l" by (auto simp: word_blocks_def)
  then have "2 ^ l * j < 64" unfolding six by simp
  with j(1) show "64 * k \<le> fst c" "fst c < 64 * (k + 1)" by simp_all
qed

lemma filter_upt_from: "m \<le> n \<Longrightarrow> filter (\<lambda>j. m \<le> j) [0..<n] = [m..<n]"
  using upt_add_eq_append [of 0 m "n - m"] by (simp add: filter_empty_conv filter_id_conv)

lemma word_blocks_from:
  assumes "l \<le> 6" "2 ^ l dvd b"
  shows "filter (\<lambda>c. b \<le> fst c) (word_blocks l 0 (64 * (b div 64), w)) = word_blocks l (b mod 64 div 2 ^ l) (64 * (b div 64), w)"
proof -
  have six: "(64::nat) = 2 ^ l * 2 ^ (6 - l)" using assms(1) by (simp flip: power_add)
  have "2 ^ l dvd b mod 64" using assms(2) six by (metis dvd_mod dvd_triv_left)
  then obtain m where m: "b mod 64 = 2 ^ l * m" by blast
  have "m < 64 div 2 ^ l" using m mod_less_divisor [of 64 b] unfolding six by simp
  moreover have "b \<le> 64 * (b div 64) + 2 ^ l * j \<longleftrightarrow> m \<le> j" for j
  proof -
    have "b = 64 * (b div 64) + 2 ^ l * m" using m by (metis mult_div_mod_eq)
    then have "b \<le> 64 * (b div 64) + 2 ^ l * j \<longleftrightarrow> 2 ^ l * m \<le> 2 ^ l * j" by linarith
    then show ?thesis by simp
  qed
  ultimately show ?thesis by (simp add: word_blocks_def filter_map comp_def m filter_upt_from)
qed

lemma all_blocks_from:
  assumes "l \<le> 6" "sb_sorted es" "2 ^ l dvd b"
  shows "filter (\<lambda>c. b \<le> fst c) (all_blocks l es) = (case filter (\<lambda>e. b div 64 \<le> fst e) es of [] \<Rightarrow> []
    | e # es' \<Rightarrow> word_blocks l (if fst e = b div 64 then b mod 64 div 2 ^ l else 0) (64 * fst e, snd e) @ all_blocks l es')"
  using assms(2)
proof (induction es)
  case (Cons e es)
  let ?B = "word_blocks l 0 (64 * fst e, snd e)"
  have cons: "all_blocks l (e # es) = ?B @ all_blocks l es" by (simp add: all_blocks_def)
  note w = word_blocks_fst [OF assms(1), of _ "fst e" "snd e"]
  have later: "filter (\<lambda>c. b \<le> fst c) (all_blocks l es) = all_blocks l es" if "b div 64 \<le> fst e"
    unfolding filter_id_conv
  proof
    fix c assume "c \<in> set (all_blocks l es)"
    then obtain e' where e': "e' \<in> set es" "c \<in> set (word_blocks l 0 (64 * fst e', snd e'))" by (auto simp: all_blocks_def)
    have "b div 64 < fst e'" using e'(1) Cons.prems that by auto
    then have "b < 64 * fst e'" using le_div_64_iff [of "fst e'" b] by (simp add: not_less [symmetric])
    then show "b \<le> fst c" using word_blocks_fst(1) [OF assms(1) e'(2)] by simp
  qed
  have keep: "filter (\<lambda>e. b div 64 \<le> fst e) es = es" if "b div 64 \<le> fst e" using Cons.prems that by (auto simp: filter_id_conv)
  consider "fst e < b div 64" | "fst e = b div 64" | "b div 64 < fst e" by linarith
  then show ?case
  proof cases
    case 1
    then have "64 * (fst e + 1) \<le> b" using le_div_64_iff [of "fst e + 1" b] by simp
    then have "filter (\<lambda>c. b \<le> fst c) ?B = []" using w by (fastforce simp: filter_empty_conv)
    then show ?thesis using Cons 1 by (simp add: cons)
  next
    case 2
    have "filter (\<lambda>c. b \<le> fst c) ?B = word_blocks l (b mod 64 div 2 ^ l) (64 * fst e, snd e)"
      using word_blocks_from [OF assms(1,3)] 2 by simp
    then show ?thesis using later keep 2 by (simp add: cons)
  next
    case 3
    then have "b < 64 * fst e" using le_div_64_iff [of "fst e" b] by (simp add: not_less [symmetric])
    then have "filter (\<lambda>c. b \<le> fst c) ?B = ?B" using w by (fastforce simp: filter_id_conv)
    then show ?thesis using later keep 3 by (simp add: cons)
  qed
qed (simp add: all_blocks_def)

text \<open>Taking the next word and the position in it, as \<open>new_at\<close> and \<open>skip_to\<close> do.\<close>

lemma position_spec:
  assumes l: "l \<le> 6" "2 ^ l dvd b" and es: "sb_sorted es" "iter_entries it = es" and it: "entry_state it"
    and items: "entry_items it = map (\<lambda>e. (64 * fst e, snd e)) (filter (\<lambda>e. b div 64 \<le> fst e) es)"
  shows "\<exists>w it'. sb_iter_next it = Ok (w, it') \<and> (\<forall>pos. pos = (if case w of Some w \<Rightarrow> same_word (fst w) b | None \<Rightarrow> False then b AND 63 else 0)
    \<longrightarrow> (let bi = \<lparr>sparse_bitmap_iter = it', cur_sparse_bitmap_word = w, next_pos_in_cur_sparse_bitmap_word = pos, block_allocation_blocks_log2 = l\<rparr>
       in block_state es bi \<and> block_seq bi = filter (\<lambda>c. b \<le> fst c) (all_blocks l es)))"
proof -
  let ?f = "filter (\<lambda>e. b div 64 \<le> fst e) es"
  from sb_iter_next_spec [OF it] obtain it' where it': "sb_iter_next it = Ok (case entry_items it of [] \<Rightarrow> None | a # _ \<Rightarrow> Some a, it')"
    "entry_state it'" "entry_items it' = tl (entry_items it)" "iter_entries it' = es" unfolding es(2) by blast
  note cur = sb_iter_next_current [OF it it'(1)]
  have six: "(64::nat) = 2 ^ l * 2 ^ (6 - l)" using l(1) by (simp flip: power_add)
  have dvd: "2 ^ l dvd b mod 64" using l(2) six by (metis dvd_mod dvd_triv_left)
  show ?thesis
  proof (cases ?f)
    case Nil
    then show ?thesis using it' cur l unfolding all_blocks_from [OF l(1) es(1) l(2)]
      by (simp add: items block_state_def block_seq_def)
  next
    case (Cons e es')
    have "same_word (64 * fst e) b \<longleftrightarrow> fst e = b div 64" by (simp add: same_word_iff)
    then show ?thesis using it' cur l dvd unfolding all_blocks_from [OF l(1) es(1) l(2)]
      by (simp add: items Cons block_state_def block_seq_def and_63 all_blocks_def comp_def)
  qed
qed

lemma sb_block_iter_new_at_spec:
  assumes wf: "sb_wf sb" and l: "l \<le> 6" "2 ^ l dvd b"
  shows "\<exists>bi. sb_block_iter_new_at sb b l = Ok bi \<and> block_state (sb_entries sb) bi \<and> block_allocation_blocks_log2 bi = l
    \<and> block_seq bi = filter (\<lambda>c. b \<le> fst c) (all_blocks l (sb_entries sb))"
proof -
  let ?it = "\<lparr>iter_entries = sb_entries sb, next_sparse_entry_index = 0\<rparr>"
  have srt: "sb_sorted (sb_entries sb)" using wf by (simp add: sb_wf_def)
  from sb_iter_skip_to_spec [of ?it b] srt obtain it where it: "sb_iter_skip_to ?it b = Ok it" "entry_state it" "iter_entries it = sb_entries sb"
    "entry_items it = map (\<lambda>e. (64 * fst e, snd e)) (filter (\<lambda>e. b div 64 \<le> fst e) (sb_entries sb))"
    by (auto simp: entry_state_def behind_def)
  from position_spec [OF l srt it(3,2,4)] show ?thesis
    using it(1) l by (auto simp: sb_block_iter_new_at_def sb_iter_new_at_def Let_def)
qed

lemma filter_from_entry:
  assumes "\<forall>x \<in> set xs. fst x < fst e" "\<forall>y \<in> set ys. fst e < fst y"
  shows "filter (\<lambda>x. (fst e :: nat) \<le> fst x) (xs @ e # ys) = e # ys"
proof -
  have "filter (\<lambda>x. fst e \<le> fst x) xs = []" "filter (\<lambda>x. fst e \<le> fst x) ys = ys"
    using assms by (auto simp: filter_empty_conv filter_id_conv)
  then show ?thesis by simp
qed

lemma sb_block_iter_skip_to_spec:
  assumes wf: "sb_wf sb" and st: "block_state (sb_entries sb) bi" and b: "2 ^ block_allocation_blocks_log2 bi dvd b"
    and cur: "cur_sparse_bitmap_word bi = Some c" "fst c \<le> b"
  shows "\<exists>bi'. sb_block_iter_skip_to bi b = Ok bi' \<and> block_state (sb_entries sb) bi' \<and> block_allocation_blocks_log2 bi' = block_allocation_blocks_log2 bi
    \<and> block_seq bi' = filter (\<lambda>c. b \<le> fst c) (all_blocks (block_allocation_blocks_log2 bi) (sb_entries sb))"
proof -
  let ?it = "sparse_bitmap_iter bi" and ?es = "sb_entries sb" and ?l = "block_allocation_blocks_log2 bi"
  let ?i = "next_sparse_entry_index ?it"
  have srt: "sb_sorted ?es" using wf by (simp add: sb_wf_def)
  let ?e = "?es ! (?i - 1)"
  have s: "entry_state ?it" "iter_entries ?it = ?es" "?l \<le> 6" and i: "0 < ?i" "c = (64 * fst ?e, snd ?e)" "?i \<le> length ?es"
    using st cur(1) by (auto simp: block_state_def current_def entry_state_def)
  have es: "?es = take (?i - 1) ?es @ ?e # drop ?i ?es" using i(1,3) id_take_nth_drop [of "?i - 1" ?es] by simp
  have srt': "\<forall>x \<in> set (take (?i - 1) ?es). fst x < fst ?e" "\<forall>x \<in> set (drop ?i ?es). fst ?e < fst x"
    using srt unfolding arg_cong [OF es, of sb_sorted] by auto
  have le: "fst ?e \<le> b div 64" using cur(2) by (simp add: i(2) le_div_64_iff)
  have same: "same_word b (fst c) \<longleftrightarrow> fst ?e = b div 64" by (auto simp: same_word_iff i(2))
  show ?thesis
  proof (cases "same_word b (fst c)")
    case False
    then have lt: "fst ?e < b div 64" using le same by simp
    have "take ?i ?es = take (?i - 1) ?es @ [?e]" using i(1,3) take_Suc_conv_app_nth [of "?i - 1" ?es] by simp
    then have "behind ?it (b div 64)" using lt srt'(1) by (auto simp: behind_def s(2))
    from sb_iter_skip_to_spec [OF s(1) _ this] srt obtain it where it: "sb_iter_skip_to ?it b = Ok it" "entry_state it" "iter_entries it = ?es"
      "entry_items it = map (\<lambda>e. (64 * fst e, snd e)) (filter (\<lambda>e. b div 64 \<le> fst e) ?es)" by (auto simp: s(2))
    have rec: "bi\<lparr>sparse_bitmap_iter := it', cur_sparse_bitmap_word := w, next_pos_in_cur_sparse_bitmap_word := pos\<rparr>
      = \<lparr>sparse_bitmap_iter = it', cur_sparse_bitmap_word = w, next_pos_in_cur_sparse_bitmap_word = pos, block_allocation_blocks_log2 = ?l\<rparr>"
      for it' w pos by (cases bi) simp
    from position_spec [OF s(3) b srt it(3,2,4)] obtain w it' where w: "sb_iter_next it = Ok (w, it')" and
      pos: "\<And>pos. pos = (if case w of Some w \<Rightarrow> same_word (fst w) b | None \<Rightarrow> False then b AND 63 else 0)
        \<Longrightarrow> block_state ?es (bi\<lparr>sparse_bitmap_iter := it', cur_sparse_bitmap_word := w, next_pos_in_cur_sparse_bitmap_word := pos\<rparr>)
          \<and> block_seq (bi\<lparr>sparse_bitmap_iter := it', cur_sparse_bitmap_word := w, next_pos_in_cur_sparse_bitmap_word := pos\<rparr>)
            = filter (\<lambda>c. b \<le> fst c) (all_blocks ?l ?es)"
      unfolding Let_def rec by blast
    show ?thesis using pos [OF refl] b cur False it(1) w unfolding sb_block_iter_skip_to_def
      by (cases w) (simp_all add: Let_def split: if_splits)
  next
    case True
    let ?bi = "bi\<lparr>next_pos_in_cur_sparse_bitmap_word := b AND 63\<rparr>"
    have k: "fst ?e = b div 64" using True same by simp
    have six: "(64::nat) = 2 ^ ?l * 2 ^ (6 - ?l)" using s(3) by (simp flip: power_add)
    have dvd: "2 ^ ?l dvd b mod 64" using b six by (metis dvd_mod dvd_triv_left)
    have "filter (\<lambda>e. b div 64 \<le> fst e) (take (?i - 1) ?es @ ?e # drop ?i ?es) = ?e # drop ?i ?es"
      using srt' unfolding k [symmetric] by (rule filter_from_entry)
    then have "filter (\<lambda>e. b div 64 \<le> fst e) ?es = ?e # drop ?i ?es" unfolding es [symmetric] .
    then have "block_seq ?bi = filter (\<lambda>c. b \<le> fst c) (all_blocks ?l ?es)"
      unfolding all_blocks_from [OF s(3) srt b] using cur(1) k i(2) s(2)
      by (simp add: block_seq_def Let_def entry_items_def and_63 all_blocks_def comp_def)
    moreover have "block_state ?es ?bi" using st dvd by (simp add: block_state_def and_63)
    moreover have "sb_block_iter_skip_to bi b = Ok ?bi" using b cur True by (simp add: sb_block_iter_skip_to_def)
    ultimately show ?thesis by simp
  qed
qed

section \<open>The blocks of a bitmap\<close>

lemma word_blocks_in:
  assumes "l \<le> 6"
  shows "(c, v) \<in> set (word_blocks l 0 (64 * k, w)) \<longleftrightarrow> 2 ^ l dvd c \<and> c div 64 = k \<and> v = drop_bit (c mod 64) w AND mask (2 ^ l)"
proof -
  have six: "(64::nat) = 2 ^ l * 2 ^ (6 - l)" using assms by (simp flip: power_add)
  have "(c, v) \<in> set (word_blocks l 0 (64 * k, w)) \<longleftrightarrow> (\<exists>j < 2 ^ (6 - l). c = 64 * k + 2 ^ l * j \<and> v = drop_bit (2 ^ l * j) w AND mask (2 ^ l))"
    unfolding word_blocks_def by (subst six) auto
  also have "\<dots> \<longleftrightarrow> 2 ^ l dvd c \<and> c div 64 = k \<and> v = drop_bit (c mod 64) w AND mask (2 ^ l)"
  proof
    assume "\<exists>j < 2 ^ (6 - l). c = 64 * k + 2 ^ l * j \<and> v = drop_bit (2 ^ l * j) w AND mask (2 ^ l)"
    then obtain j where j: "j < 2 ^ (6 - l)" "c = 64 * k + 2 ^ l * j" "v = drop_bit (2 ^ l * j) w AND mask (2 ^ l)" by blast
    then have "2 ^ l * j < 64" unfolding six by simp
    moreover have "2 ^ l dvd c" unfolding j(2) six by simp
    ultimately show "2 ^ l dvd c \<and> c div 64 = k \<and> v = drop_bit (c mod 64) w AND mask (2 ^ l)" using j by simp
  next
    assume c: "2 ^ l dvd c \<and> c div 64 = k \<and> v = drop_bit (c mod 64) w AND mask (2 ^ l)"
    then have "2 ^ l dvd c mod 64" using six by (metis dvd_mod dvd_triv_left)
    then obtain j where j: "c mod 64 = 2 ^ l * j" by blast
    moreover have "j < 2 ^ (6 - l)" using j mod_less_divisor [of 64 c] unfolding six by simp
    moreover have "c = 64 * k + c mod 64" using c by auto
    ultimately show "\<exists>j < 2 ^ (6 - l). c = 64 * k + 2 ^ l * j \<and> v = drop_bit (2 ^ l * j) w AND mask (2 ^ l)" using c by metis
  qed
  finally show ?thesis .
qed

lemma block_within_word:
  fixes c :: nat
  assumes "l \<le> 6" "2 ^ l dvd c" "j < 2 ^ l"
  shows "(c + j) div 64 = c div 64" "(c + j) mod 64 = c mod 64 + j" "c mod 64 + j < 64"
proof -
  have six: "(64::nat) = 2 ^ l * 2 ^ (6 - l)" using assms(1) by (simp flip: power_add)
  have "2 ^ l dvd c mod 64" using assms(2) six by (metis dvd_mod dvd_triv_left)
  then obtain i where i: "c mod 64 = 2 ^ l * i" by blast
  have "i + 1 \<le> 2 ^ (6 - l)" using i mod_less_divisor [of 64 c] unfolding six by simp
  then have "2 ^ l * (i + 1) \<le> 2 ^ l * 2 ^ (6 - l)" by (rule mult_le_mono2)
  then show lt: "c mod 64 + j < 64" using i assms(3) unfolding six by simp
  have "c + j = 64 * (c div 64) + (c mod 64 + j)" by simp
  then show "(c + j) div 64 = c div 64" "(c + j) mod 64 = c mod 64 + j" using lt by (metis div_mult_self4 div_less add_0_right zero_neq_numeral, metis mod_mult_self4 mod_less)
qed

lemma all_blocks_bits:
  assumes "sb_sorted es" "l \<le> 6" "(c, v) \<in> set (all_blocks l es)"
  shows "bit v j \<longleftrightarrow> j < 2 ^ l \<and> c + j \<in> entry_bits es"
proof -
  from assms(3) obtain e where e: "e \<in> set es" "(c, v) \<in> set (word_blocks l 0 (64 * fst e, snd e))" by (auto simp: all_blocks_def)
  then have c: "2 ^ l dvd c" "c div 64 = fst e" "v = drop_bit (c mod 64) (snd e) AND mask (2 ^ l)" using word_blocks_in [OF assms(2)] by auto
  have uniq: "e' = e" if "e' \<in> set es" "fst e' = fst e" for e'
    using assms(1) e(1) that by (auto simp: sb_sorted_alt strict_sorted_iff distinct_map inj_on_def)
  have v: "bit v j \<longleftrightarrow> j < 2 ^ l \<and> bit (snd e) (c mod 64 + j)" unfolding c(3) using bit_imp_le_length [of "snd e" "c mod 64 + j"] by (auto simp: bit_simps)
  show ?thesis
  proof (cases "j < 2 ^ l")
    case True
    then show ?thesis using block_within_word [OF assms(2) c(1) True] v e(1) uniq by (auto simp: entry_bits_def c(2))
  qed (simp add: v)
qed

lemma all_blocks_ascending:
  assumes "l \<le> 6" "sb_sorted es"
  shows "sorted_wrt (<) (map fst (all_blocks l es))"
  using assms(2)
proof (induction es)
  case (Cons e es)
  have "sorted_wrt (<) (map fst (word_blocks l 0 (64 * fst e, snd e)))"
    by (auto simp: word_blocks_def sorted_wrt_map comp_def intro: sorted_wrt_mono_rel [OF _ sorted_wrt_upt])
  moreover have "fst x < fst y" if x: "x \<in> set (word_blocks l 0 (64 * fst e, snd e))" and y: "y \<in> set (all_blocks l es)" for x y
  proof -
    from y obtain e' where e': "e' \<in> set es" "y \<in> set (word_blocks l 0 (64 * fst e', snd e'))" by (auto simp: all_blocks_def)
    then have "fst e + 1 \<le> fst e'" using Cons.prems by auto
    then show ?thesis using word_blocks_fst(2) [OF assms(1) x] word_blocks_fst(1) [OF assms(1) e'(2)] by simp
  qed
  moreover have "all_blocks l (e # es) = word_blocks l 0 (64 * fst e, snd e) @ all_blocks l es" by (simp add: all_blocks_def)
  ultimately show ?case using Cons by (auto simp: sorted_wrt_append)
qed (simp add: all_blocks_def)

lemma all_blocks_set:
  assumes "sb_sorted es" "l \<le> 6"
  shows "fst ` set (filter (\<lambda>c. snd c \<noteq> 0) (all_blocks l es)) = {c. 2 ^ l dvd c \<and> {c..<c + 2 ^ l} \<inter> entry_bits es \<noteq> {}}"
proof (rule set_eqI)
  fix c
  show "c \<in> fst ` set (filter (\<lambda>c. snd c \<noteq> 0) (all_blocks l es)) \<longleftrightarrow> c \<in> {c. 2 ^ l dvd c \<and> {c..<c + 2 ^ l} \<inter> entry_bits es \<noteq> {}}"
  proof
    assume "c \<in> fst ` set (filter (\<lambda>c. snd c \<noteq> 0) (all_blocks l es))"
    then obtain v where v: "(c, v) \<in> set (all_blocks l es)" "v \<noteq> 0" by auto
    then have "2 ^ l dvd c" using word_blocks_in [OF assms(2)] by (auto simp: all_blocks_def)
    moreover from v(2) obtain j where "bit v j" by (auto simp: bit_eq_iff)
    then have "c + j \<in> {c..<c + 2 ^ l} \<inter> entry_bits es" using all_blocks_bits [OF assms v(1), of j] by simp
    ultimately show "c \<in> {c. 2 ^ l dvd c \<and> {c..<c + 2 ^ l} \<inter> entry_bits es \<noteq> {}}" by blast
  next
    assume "c \<in> {c. 2 ^ l dvd c \<and> {c..<c + 2 ^ l} \<inter> entry_bits es \<noteq> {}}"
    then obtain x where c: "2 ^ l dvd c" and x: "c \<le> x" "x < c + 2 ^ l" "x \<in> entry_bits es" by auto
    define j where "j = x - c"
    have j: "x = c + j" "j < 2 ^ l" using x by (simp_all add: j_def)
    from x(3) obtain e where e: "e \<in> set es" "fst e = x div 64" by (auto simp: entry_bits_def)
    let ?v = "drop_bit (c mod 64) (snd e) AND mask (2 ^ l)"
    have "(c, ?v) \<in> set (all_blocks l es)"
      using e block_within_word(1) [OF assms(2) c j(2)] c word_blocks_in [OF assms(2), of c ?v "fst e" "snd e"]
      by (auto simp: all_blocks_def j(1) intro!: bexI [of _ e])
    moreover from this have "bit ?v j" using all_blocks_bits [OF assms] j x(3) by blast
    then have "?v \<noteq> 0" by auto
    ultimately show "c \<in> fst ` set (filter (\<lambda>c. snd c \<noteq> 0) (all_blocks l es))" by force
  qed
qed

text \<open>
  the block iterator yields, from the start on and in ascending order, exactly the aligned blocks
  that the sparse bitmap has some bit of, each with the bits of its allocation blocks.
\<close>

theorem sb_block_iter_correct:
  assumes wf: "sb_wf sb" and l: "l \<le> 6" "2 ^ l dvd b"
  shows "\<exists>bi bs. sb_block_iter_new_at sb b l = Ok bi \<and> (\<forall>n. take_items sb_block_iter_next n bi = Ok (take n bs))
    \<and> sorted_wrt (<) (map fst bs) \<and> fst ` set bs = {c. b \<le> c \<and> 2 ^ l dvd c \<and> {c..<c + 2 ^ l} \<inter> sb_blocks sb \<noteq> {}}
    \<and> (\<forall>(c, v) \<in> set bs. \<forall>j. bit v j \<longleftrightarrow> j < 2 ^ l \<and> c + j \<in> sb_blocks sb)"
proof -
  let ?es = "sb_entries sb"
  let ?bs = "filter (\<lambda>c. b \<le> fst c) (filter (\<lambda>c. snd c \<noteq> 0) (all_blocks l ?es))"
  have srt: "sb_sorted ?es" using wf by (simp add: sb_wf_def)
  from sb_block_iter_new_at_spec [OF wf l] obtain bi where bi: "sb_block_iter_new_at sb b l = Ok bi" "block_state ?es bi"
    "block_seq bi = filter (\<lambda>c. b \<le> fst c) (all_blocks l ?es)" by blast
  have items: "block_items bi = ?bs" by (simp add: block_items_def bi(3) conj_commute)
  have "\<forall>n. take_items sb_block_iter_next n bi = Ok (take n ?bs)" using block_it.take_items_eq [OF bi(2)] items by simp
  moreover have "sorted_wrt (<) (map fst ?bs)"
    using all_blocks_ascending [OF l(1) srt] by (simp add: sorted_wrt_map sorted_wrt_filter)
  moreover have "fst ` set ?bs = {c. b \<le> c \<and> 2 ^ l dvd c \<and> {c..<c + 2 ^ l} \<inter> sb_blocks sb \<noteq> {}}"
    using all_blocks_set [OF srt l(1)] unfolding sb_blocks_def by (auto simp: image_iff set_eq_iff)
  moreover have "\<forall>(c, v) \<in> set ?bs. \<forall>j. bit v j \<longleftrightarrow> j < 2 ^ l \<and> c + j \<in> sb_blocks sb"
    using all_blocks_bits [OF srt l(1)] unfolding sb_blocks_def by auto
  ultimately show ?thesis using bi(1) by blast
qed

theorem sb_block_iter_correct_witness:
  "\<exists>bi bs. sb_block_iter_new_at \<lparr>sb_entries = [(5, 1)], remove_rollback_reserve_capacity = 0\<rparr> 8 3 = Ok bi
    \<and> (\<forall>n. take_items sb_block_iter_next n bi = Ok (take n bs)) \<and> fst ` set bs = {320}"
proof -
  have "{c. 8 \<le> c \<and> 2 ^ 3 dvd c \<and> {c..<c + 2 ^ 3} \<inter> {320} \<noteq> {}} = {320::nat}" by (auto elim: dvdE)
  then show ?thesis using sb_block_iter_correct [OF one_entry_wf, of 3 8] unfolding one_entry_blocks by auto
qed

end
