(* ===== verification/Sparse_Bitmap_Rollback.thy ===== *)
theory Sparse_Bitmap_Rollback
  imports Alloc_Bitmap_Iter
begin

text \<open>
  The rollback of removals from a sparse allocation bitmap (\<open>rollback_remove_block\<close>,
  \<open>rollback_remove_blocks\<close>, \<open>rollback_remove_extent\<close>, \<open>rollback_remove_extents\<close> and
  \<open>repopulate_set_range_for_rollback\<close> of \<open>sparse_bitmap.rs\<close>). It must not allocate memory: new
  entries are taken from the reserve, and an entry is inserted only where the base bitmap does not
  have the wanted value. The capacity of the vector of entries is a parameter. The test of the loop
  shifts a word index to a block number of 64 bits: behind the last word the shifted number wraps around
  to 0, so that the loop does not stop at a range that reaches into the last word. Ranges within an
  image, whose block numbers are below \<open>2 ^ 57\<close>, are far from it.
\<close>

section \<open>Operations\<close>

function repopulate_loop ::
  "block_range \<Rightarrow> bool \<Rightarrow> word_iter \<Rightarrow> sparse_entry list \<Rightarrow> nat \<Rightarrow> nat \<Rightarrow> nat \<Rightarrow> nat \<Rightarrow> nat
    \<Rightarrow> (sparse_entry list \<times> nat) outcome" where
  "repopulate_loop q alloc_bitmap_value it es reserve entry_index word_index offset_in_bitmap_word count =
     (if push_bit 6 word_index mod u64_bound < range_end q then
        let bits_in_word = min count (64 - offset_in_bitmap_word);
            count = count - bits_in_word;
            bits_in_word_mask = push_bit offset_in_bitmap_word (trailing_bits_mask bits_in_word)
        in if entry_index < length es \<and> fst (es ! entry_index) = word_index then
             let es = es[entry_index := (word_index, snd (es ! entry_index) OR bits_in_word_mask)]
             in and_then (add_u64 word_index 1) (\<lambda>word_index.
                and_then (word_iter_next it) (\<lambda>(_, it).
                repopulate_loop q alloc_bitmap_value it es reserve (entry_index + 1) word_index 0 count))
           else
             and_then (word_iter_next it) (\<lambda>(w, it).
             let alloc_bitmap_word = (case w of Some w \<Rightarrow> snd w | None \<Rightarrow> 0)
             in if alloc_bitmap_word AND bits_in_word_mask = (if alloc_bitmap_value then bits_in_word_mask else 0)
                then and_then (add_u64 word_index 1) (\<lambda>word_index.
                  repopulate_loop q alloc_bitmap_value it es reserve entry_index word_index 0 count)
                else if reserve = 0 then nvfs_err_internal
                else
                  and_then (vec_insert es entry_index (word_index, bits_in_word_mask)) (\<lambda>es.
                  and_then (add_u64 word_index 1) (\<lambda>word_index.
                  repopulate_loop q alloc_bitmap_value it es (reserve - 1) (entry_index + 1) word_index 0 count)))
      else Ok (es, reserve))"
  by pat_completeness auto
termination
  by (relation "measure (\<lambda>(q, v, it, es, r, i, w, off, c). u64_bound - w)") (auto simp: add_u64_eq_Ok)

declare repopulate_loop.simps [simp del]

definition repopulate_set_range_for_rollback ::
  "nat \<Rightarrow> sparse_alloc_bitmap \<Rightarrow> block_range \<Rightarrow> alloc_bitmap \<Rightarrow> bool \<Rightarrow> sparse_alloc_bitmap outcome" where
  "repopulate_set_range_for_rollback capacity sb q ab alloc_bitmap_value =
     and_then (sub_u64 capacity (length (sb_entries sb))) (\<lambda>free_capacity.
     if free_capacity < remove_rollback_reserve_capacity sb then nvfs_err_internal
     else
       and_then (block_count q) (\<lambda>count.
       let word_index = drop_bit 6 (range_begin q);
           offset_in_bitmap_word = range_begin q mod 64;
           entry_index = (case find_entry_position (sb_entries sb) word_index of Inr p \<Rightarrow> p | Inl p \<Rightarrow> p)
       in and_then (word_iter_new_at ab [] [] word_index) (\<lambda>it.
          and_then (repopulate_loop q alloc_bitmap_value it (sb_entries sb) (remove_rollback_reserve_capacity sb)
                      entry_index word_index offset_in_bitmap_word count) (\<lambda>(es, reserve).
          Ok \<lparr>sb_entries = es, remove_rollback_reserve_capacity = reserve\<rparr>))))"

definition sb_rollback_remove_extent ::
  "nat \<Rightarrow> sparse_alloc_bitmap \<Rightarrow> block_range \<Rightarrow> alloc_bitmap \<Rightarrow> bool \<Rightarrow> sparse_alloc_bitmap outcome" where
  "sb_rollback_remove_extent capacity sb extent ab alloc_bitmap_value =
     repopulate_set_range_for_rollback capacity sb extent ab alloc_bitmap_value"

definition sb_rollback_remove_block ::
  "nat \<Rightarrow> sparse_alloc_bitmap \<Rightarrow> nat \<Rightarrow> nat \<Rightarrow> alloc_bitmap \<Rightarrow> bool \<Rightarrow> sparse_alloc_bitmap outcome" where
  "sb_rollback_remove_block capacity sb block_begin block_log2 ab alloc_bitmap_value =
     and_then (block_range_of block_begin block_log2) (\<lambda>q.
     repopulate_set_range_for_rollback capacity sb q ab alloc_bitmap_value)"

fun sb_rollback_remove_extents ::
  "nat \<Rightarrow> sparse_alloc_bitmap \<Rightarrow> block_range list \<Rightarrow> alloc_bitmap \<Rightarrow> bool \<Rightarrow> sparse_alloc_bitmap outcome" where
  "sb_rollback_remove_extents capacity sb [] ab v = Ok sb"
| "sb_rollback_remove_extents capacity sb (q # qs) ab v =
     and_then (sb_rollback_remove_extent capacity sb q ab v) (\<lambda>sb. sb_rollback_remove_extents capacity sb qs ab v)"

fun sb_rollback_remove_blocks ::
  "nat \<Rightarrow> sparse_alloc_bitmap \<Rightarrow> nat list \<Rightarrow> nat \<Rightarrow> alloc_bitmap \<Rightarrow> bool \<Rightarrow> sparse_alloc_bitmap outcome" where
  "sb_rollback_remove_blocks capacity sb [] block_log2 ab v = Ok sb"
| "sb_rollback_remove_blocks capacity sb (b # bs) block_log2 ab v =
     and_then (sb_rollback_remove_block capacity sb b block_log2 ab v) (\<lambda>sb. sb_rollback_remove_blocks capacity sb bs block_log2 ab v)"

section \<open>The loop\<close>

definition base_state :: "alloc_bitmap \<Rightarrow> nat \<Rightarrow> word_iter \<Rightarrow> bool" where
  "base_state ab k it \<longleftrightarrow> word_state ab [] [] it \<and> word_items it = map (\<lambda>k. (k, virtual_word ab [] [] k)) [k..<length (bitmap ab)]"

definition base_word :: "alloc_bitmap \<Rightarrow> nat \<Rightarrow> bitmap_word" where
  "base_word ab k = (if k < length (bitmap ab) then bitmap ab ! k else 0)"

lemma virtual_word_Nil [simp]: "virtual_word ab [] [] k = bitmap ab ! k"
  by (simp add: virtual_word_def changed_word_def from_all_def merged_def word_at_def)

lemma base_next:
  assumes "base_state ab k it"
  shows "\<exists>w it'. word_iter_next it = Ok (w, it') \<and> base_state ab (k + 1) it' \<and> (case w of Some w \<Rightarrow> snd w | None \<Rightarrow> 0) = base_word ab k"
proof -
  have st: "word_state ab [] [] it" and items: "word_items it = map (\<lambda>k. (k, bitmap ab ! k)) [k..<length (bitmap ab)]"
    using assms by (simp_all add: base_state_def)
  from word_it.next_total [OF st] obtain it' where it': "word_iter_next it = Ok (case word_items it of [] \<Rightarrow> None | a # _ \<Rightarrow> Some a, it')"
    "word_state ab [] [] it'" "word_items it' = tl (word_items it)" by blast
  show ?thesis
  proof (cases "k < length (bitmap ab)")
    case True
    then show ?thesis using it' items by (auto simp: base_state_def base_word_def upt_conv_Cons)
  next
    case False
    then show ?thesis using it' items by (auto simp: base_state_def base_word_def)
  qed
qed

definition span_mask :: "nat \<Rightarrow> nat \<Rightarrow> bitmap_word" where
  "span_mask off count = push_bit off (trailing_bits_mask (min count (64 - off)))"

lemma span_mask_bit:
  assumes "off < 64" "j < 64"
  shows "bit (span_mask off count) j \<longleftrightarrow> off \<le> j \<and> j < off + count"
  using assms by (auto simp: span_mask_def trailing_bits_mask_eq_mask bit_simps)

lemma span_mask_bits:
  assumes "off < 64"
  shows "entry_bits [(k, span_mask off count)] = {b. 64 * k + off \<le> b \<and> b < 64 * k + off + count \<and> b div 64 = k}"
proof (rule set_eqI)
  fix b :: nat
  have b: "b = 64 * (b div 64) + b mod 64" "b mod 64 < 64" by simp_all
  show "b \<in> entry_bits [(k, span_mask off count)] \<longleftrightarrow> b \<in> {b. 64 * k + off \<le> b \<and> b < 64 * k + off + count \<and> b div 64 = k}"
  proof (cases "b div 64 = k")
    case True
    have "bit (span_mask off count) (b mod 64) \<longleftrightarrow> off \<le> b mod 64 \<and> b mod 64 < off + count" by (rule span_mask_bit [OF assms b(2)])
    moreover have "64 * k + off \<le> b \<longleftrightarrow> off \<le> b mod 64" "b < 64 * k + off + count \<longleftrightarrow> b mod 64 < off + count"
      using b(1) True by linarith+
    ultimately show ?thesis using True by (simp add: entry_bits_def)
  qed (simp add: entry_bits_def)
qed

text \<open>What the loop does to the entries \<open>ys\<close> from word \<open>k\<close> on.\<close>

definition missing :: "nat \<Rightarrow> nat \<Rightarrow> sparse_entry list \<Rightarrow> nat set" where
  "missing k e ys = {i. k \<le> i \<and> 64 * i < e \<and> i \<notin> fst ` set ys}"

definition repopulated ::
  "alloc_bitmap \<Rightarrow> bool \<Rightarrow> nat \<Rightarrow> nat \<Rightarrow> nat \<Rightarrow> sparse_entry list \<Rightarrow> nat \<Rightarrow> sparse_entry list \<Rightarrow> nat \<Rightarrow> bool" where
  "repopulated ab v e k off ys r zs r' \<longleftrightarrow> sb_sorted zs \<and> (\<forall>z \<in> set zs. k \<le> fst z)
     \<and> entry_bits ys \<subseteq> entry_bits zs \<and> entry_bits zs \<subseteq> entry_bits ys \<union> {64 * k + off..<e}
     \<and> ((\<forall>y \<in> set ys. snd y \<noteq> 0) \<longrightarrow> (\<forall>z \<in> set zs. snd z \<noteq> 0))
     \<and> (\<forall>b \<in> {64 * k + off..<e}. b \<in> entry_bits zs \<or> (b \<in> ab_blocks ab \<longleftrightarrow> v))
     \<and> r' + length zs = r + length ys"

lemma missing_finite [simp]: "finite (missing k e ys)"
  by (rule finite_subset [of _ "{..e}"]) (auto simp: missing_def)

lemma missing_Cons: "missing (k + 1) e ys \<subseteq> missing k e ((k, w) # ys)"
  by (auto simp: missing_def)

lemma missing_Suc:
  assumes "64 * k < e" "\<forall>y \<in> set ys. k + 1 \<le> fst y"
  shows "card (missing k e ys) = card (missing (k + 1) e ys) + 1"
proof -
  have "missing k e ys = insert k (missing (k + 1) e ys)" using assms by (auto simp: missing_def)
  moreover have "k \<notin> missing (k + 1) e ys" by (simp add: missing_def)
  ultimately show ?thesis by simp
qed

lemma base_word_bit: "b \<in> ab_blocks ab \<longleftrightarrow> bit (base_word ab (b div 64)) (b mod 64)"
  by (simp add: ab_blocks_def dense_bits_def base_word_def)

lemma div_64_eq_iff: "b div 64 = k \<longleftrightarrow> 64 * k \<le> b \<and> b < 64 * (k + 1)" for b k :: nat
  using div_nat_eqI [of k 64 b] by (auto simp: ac_simps div_less_iff_less_mult)

lemma span_split:
  assumes "off < 64" "64 * k < e"
  shows "{64 * k + off..<e} = entry_bits [(k, span_mask off (e - (64 * k + off)))] \<union> {64 * (k + 1)..<e}"
proof (rule set_eqI)
  fix b :: nat
  have "b div 64 = k \<longleftrightarrow> 64 * k \<le> b \<and> b < 64 * (k + 1)" by (rule div_64_eq_iff)
  then show "b \<in> {64 * k + off..<e} \<longleftrightarrow> b \<in> entry_bits [(k, span_mask off (e - (64 * k + off)))] \<union> {64 * (k + 1)..<e}"
    unfolding span_mask_bits [OF assms(1)] using assms by auto
qed

lemma entry_bits_or: "entry_bits ((k, w OR m) # es) = entry_bits ((k, w) # es) \<union> entry_bits [(k, m)]"
  by (auto simp: entry_bits_def bit_simps)

lemma repopulated_entry:
  assumes rep: "repopulated ab v e (k + 1) 0 ys r zs r'" and off: "off < 64" "64 * k < e" and k: "k < 2 ^ 58"
  shows "repopulated ab v e k off ((k, w) # ys) r ((k, w OR span_mask off (e - (64 * k + off))) # zs) r'"
proof -
  let ?m = "span_mask off (e - (64 * k + off))"
  note split = span_split [OF off]
  have zs: "\<forall>z \<in> set zs. k < fst z" "sb_sorted zs" using rep by (auto simp: repopulated_def Suc_le_eq)
  have sub: "entry_bits ys \<subseteq> entry_bits zs" "entry_bits zs \<subseteq> entry_bits ys \<union> {64 * (k + 1)..<e}"
    using rep by (simp_all add: repopulated_def)
  have b2: "entry_bits ((k, w) # ys) = entry_bits [(k, w)] \<union> entry_bits ys" "entry_bits ((k, w) # zs) = entry_bits [(k, w)] \<union> entry_bits zs" by (rule entry_bits_Cons_Un)+
  have "entry_bits ((k, w) # ys) \<subseteq> entry_bits ((k, w OR ?m) # zs)"
    unfolding entry_bits_or b2 using sub(1) by blast
  moreover have "entry_bits ((k, w OR ?m) # zs) \<subseteq> entry_bits ((k, w) # ys) \<union> {64 * k + off..<e}"
    unfolding entry_bits_or b2 split using sub(2) by blast
  moreover have "w \<noteq> 0 \<Longrightarrow> w OR ?m \<noteq> 0" by (auto simp: bit_eq_iff bit_simps)
  moreover have "b \<in> entry_bits ((k, w OR ?m) # zs) \<or> (b \<in> ab_blocks ab \<longleftrightarrow> v)" if "b \<in> {64 * k + off..<e}" for b
    using that rep unfolding entry_bits_or b2 split repopulated_def by auto
  ultimately show ?thesis using rep zs k unfolding repopulated_def by auto
qed

lemma repopulated_skip:
  assumes rep: "repopulated ab v e (k + 1) 0 ys r zs r'" and off: "off < 64" "64 * k < e"
    and ys: "\<forall>y \<in> set ys. k + 1 \<le> fst y"
    and base: "base_word ab k AND span_mask off (e - (64 * k + off)) = (if v then span_mask off (e - (64 * k + off)) else 0)"
  shows "repopulated ab v e k off ys r zs r'"
proof -
  let ?m = "span_mask off (e - (64 * k + off))"
  note split = span_split [OF off]
  have "b \<in> ab_blocks ab \<longleftrightarrow> v" if "b \<in> entry_bits [(k, ?m)]" for b
  proof -
    have b: "b div 64 = k" "bit ?m (b mod 64)" using that by (auto simp: entry_bits_def)
    have "bit (base_word ab k AND ?m) (b mod 64) = bit (if v then ?m else 0) (b mod 64)" using base by simp
    then show ?thesis using b by (auto simp: base_word_bit bit_simps split: if_splits)
  qed
  moreover have "\<forall>z \<in> set zs. k \<le> fst z" using rep by (auto simp: repopulated_def)
  ultimately show ?thesis using rep missing_Suc [OF off(2) ys] unfolding repopulated_def split by auto
qed

lemma repopulated_insert:
  assumes rep: "repopulated ab v e (k + 1) 0 ys (r - 1) zs r'" and off: "off < 64" "64 * k < e" and k: "k < 2 ^ 58"
    and ys: "\<forall>y \<in> set ys. k + 1 \<le> fst y" and r: "r \<noteq> 0"
    and base: "base_word ab k AND span_mask off (e - (64 * k + off)) \<noteq> (if v then span_mask off (e - (64 * k + off)) else 0)"
  shows "repopulated ab v e k off ys r ((k, span_mask off (e - (64 * k + off))) # zs) r'"
proof -
  let ?m = "span_mask off (e - (64 * k + off))"
  note split = span_split [OF off]
  have zs: "\<forall>z \<in> set zs. k < fst z" "sb_sorted zs" using rep by (auto simp: repopulated_def Suc_le_eq)
  have sub: "entry_bits ys \<subseteq> entry_bits zs" "entry_bits zs \<subseteq> entry_bits ys \<union> {64 * (k + 1)..<e}"
    using rep by (simp_all add: repopulated_def)
  have b1: "entry_bits ((k, ?m) # zs) = entry_bits [(k, ?m)] \<union> entry_bits zs" by (rule entry_bits_Cons_Un)
  have "?m \<noteq> 0" using base by (auto split: if_splits)
  moreover have "b \<in> entry_bits ((k, ?m) # zs) \<or> (b \<in> ab_blocks ab \<longleftrightarrow> v)" if "b \<in> {64 * k + off..<e}" for b
    using that rep unfolding b1 split repopulated_def by auto
  moreover have "entry_bits ys \<subseteq> entry_bits ((k, ?m) # zs)" "entry_bits ((k, ?m) # zs) \<subseteq> entry_bits ys \<union> {64 * k + off..<e}"
    unfolding b1 split using sub by blast+
  ultimately show ?thesis using rep zs k r missing_Suc [OF off(2) ys] unfolding repopulated_def by auto
qed

lemma repopulate_loop_spec:
  assumes "sb_sorted (xs @ ys)" "\<forall>x \<in> set xs. fst x < k" "\<forall>y \<in> set ys. k \<le> fst y" "base_state ab k it" "off < 64"
    "range_end q + 64 \<le> u64_bound" "card (missing k (range_end q) ys) \<le> r" "64 * k < range_end q + 64"
  shows "\<exists>zs r'. repopulate_loop q v it (xs @ ys) r (length xs) k off (range_end q - (64 * k + off)) = Ok (xs @ zs, r')
    \<and> repopulated ab v (range_end q) k off ys r zs r'"
  using assms
proof (induction "range_end q - 64 * k" arbitrary: xs ys k it off r rule: less_induct)
  case less
  let ?e = "range_end q" and ?c = "range_end q - (64 * k + off)"
  let ?m = "span_mask off ?c"
  show ?case
  proof (cases "64 * k < ?e")
    case False
    then have "\<not> push_bit 6 k mod u64_bound < ?e" using less.prems(6,8) by (simp add: push_bit_eq_mult)
    then have "repopulate_loop q v it (xs @ ys) r (length xs) k off ?c = Ok (xs @ ys, r)"
      unfolding repopulate_loop.simps [of q v it "xs @ ys" r "length xs" k off ?c] by simp
    moreover have "repopulated ab v ?e k off ys r ys r"
      using False less.prems(1,3) by (simp add: repopulated_def)
    ultimately show ?thesis by blast
  next
    case lt: True
    have k: "k < 2 ^ 58" and word: "push_bit 6 k mod u64_bound < ?e" and next_word: "add_u64 k 1 = Ok (k + 1)"
      using lt less.prems(6) by (simp_all add: push_bit_eq_mult)
    have c: "?c - min ?c (64 - off) = ?e - (64 * (k + 1) + 0)" using less.prems(5) by simp
    from base_next [OF less.prems(4)] obtain w it' where w: "word_iter_next it = Ok (w, it')" "base_state ab (k + 1) it'"
      "(case w of Some w \<Rightarrow> snd w | None \<Rightarrow> 0) = base_word ab k" by blast
    have smaller: "?e - 64 * (k + 1) < ?e - 64 * k" using lt by simp
    note IH = less.hyps [OF smaller _ _ _ w(2) _ less.prems(6), of _ _ 0]
    have le: "64 * (k + 1) < ?e + 64" using lt by simp
    note loop = repopulate_loop.simps [of q v it "xs @ ys" r "length xs" k off ?c, unfolded Let_def c span_mask_def [symmetric] w(1) next_word and_then_simps prod.case w(3)]
    show ?thesis
    proof (cases "\<exists>y ys'. ys = y # ys' \<and> fst y = k")
      case True
      then obtain u ys' where ys: "ys = (k, u) # ys'" by (metis prod.collapse)
      let ?y = "(k, u OR ?m)"
      have srt: "sb_sorted ((xs @ [?y]) @ ys')" "\<forall>x \<in> set (xs @ [?y]). fst x < k + 1" "\<forall>y \<in> set ys'. k + 1 \<le> fst y"
        using less.prems(1,2) unfolding ys by auto
      have "card (missing (k + 1) ?e ys') \<le> r"
        using less.prems(7) card_mono [OF missing_finite missing_Cons, of k ?e ys' u] unfolding ys by linarith
      from IH [OF srt _ this le] obtain zs r' where
        z: "repopulate_loop q v it' ((xs @ [?y]) @ ys') r (length (xs @ [?y])) (k + 1) 0 (?e - (64 * (k + 1) + 0)) = Ok ((xs @ [?y]) @ zs, r')"
        "repopulated ab v ?e (k + 1) 0 ys' r zs r'" by auto
      have "repopulate_loop q v it (xs @ ys) r (length xs) k off ?c = Ok (xs @ ?y # zs, r')"
        unfolding loop using z(1) word by (simp add: ys nth_append)
      then show ?thesis using repopulated_entry [OF z(2) less.prems(5) lt k] ys by blast
    next
      case False
      have gt: "\<forall>y \<in> set ys. k + 1 \<le> fst y" using less.prems(1,3) False by (cases ys) auto
      have no: "(length xs < length (xs @ ys) \<and> fst ((xs @ ys) ! length xs) = k) = False" using False by (cases ys) auto
      show ?thesis
      proof (cases "base_word ab k AND ?m = (if v then ?m else 0)")
        case True
        have "\<forall>x \<in> set xs. fst x < k + 1" using less.prems(2) by auto
        moreover have "card (missing (k + 1) ?e ys) \<le> r" using less.prems(7) missing_Suc [OF lt gt] by simp
        ultimately obtain zs r' where
          z: "repopulate_loop q v it' (xs @ ys) r (length xs) (k + 1) 0 (?e - (64 * (k + 1) + 0)) = Ok (xs @ zs, r')"
          "repopulated ab v ?e (k + 1) 0 ys r zs r'" using IH [OF less.prems(1) _ gt _ _ le, of r] by auto
        have "repopulate_loop q v it (xs @ ys) r (length xs) k off ?c = Ok (xs @ zs, r')"
          unfolding loop no using z(1) word True by simp
        then show ?thesis using repopulated_skip [OF z(2) less.prems(5) lt gt True] by blast
      next
        case base: False
        have r: "r \<noteq> 0" and reserve: "card (missing (k + 1) ?e ys) \<le> r - 1"
          using less.prems(7) missing_Suc [OF lt gt] by simp_all
        have srt: "sb_sorted ((xs @ [(k, ?m)]) @ ys)" "\<forall>x \<in> set (xs @ [(k, ?m)]). fst x < k + 1"
          using less.prems(1,2) gt k by (auto simp: Suc_le_eq)
        from IH [OF srt gt _ reserve le] obtain zs r' where
          z: "repopulate_loop q v it' ((xs @ [(k, ?m)]) @ ys) (r - 1) (length (xs @ [(k, ?m)])) (k + 1) 0 (?e - (64 * (k + 1) + 0))
              = Ok ((xs @ [(k, ?m)]) @ zs, r')"
          "repopulated ab v ?e (k + 1) 0 ys (r - 1) zs r'" by auto
        have "repopulate_loop q v it (xs @ ys) r (length xs) k off ?c = Ok (xs @ (k, ?m) # zs, r')"
          unfolding loop no using z(1) word base r by simp
        then show ?thesis using repopulated_insert [OF z(2) less.prems(5) lt k gt r base] by blast
      qed
    qed
  qed
qed

section \<open>Rolling a removal back\<close>

lemma repopulate_spec:
  assumes wf: "sb_wf sb" and q: "range_wf q" "range_end q + 64 \<le> u64_bound"
    and cap: "length (sb_entries sb) + remove_rollback_reserve_capacity sb \<le> capacity"
    and reserve: "card {i. in_words q i \<and> i \<notin> fst ` set (sb_entries sb)} \<le> remove_rollback_reserve_capacity sb"
  obtains sb' where "repopulate_set_range_for_rollback capacity sb q ab v = Ok sb'" "sb_wf sb'"
    "sb_blocks sb \<subseteq> sb_blocks sb'" "sb_blocks sb' \<subseteq> sb_blocks sb \<union> blocks q"
    "remove_rollback_reserve_capacity sb' + length (sb_entries sb') = remove_rollback_reserve_capacity sb + length (sb_entries sb)"
    "\<forall>b \<in> blocks q. b \<in> sb_blocks sb' \<or> (b \<in> ab_blocks ab \<longleftrightarrow> v)"
proof -
  let ?k = "range_begin q div 64" and ?off = "range_begin q mod 64" and ?r = "remove_rollback_reserve_capacity sb"
  have srt: "sb_sorted (sb_entries sb)" and nz: "\<forall>e \<in> set (sb_entries sb). snd e \<noteq> 0" using wf by (simp_all add: sb_wf_def)
  from split_atE [OF srt] obtain xs ys where sp: "split_at ?k (sb_entries sb) xs ys" .
  then have es: "sb_entries sb = xs @ ys" and xs: "\<forall>x \<in> set xs. fst x < ?k" and ys: "\<forall>y \<in> set ys. ?k \<le> fst y"
    by (simp_all add: split_at_def)
  have pos: "(case find_entry_position (sb_entries sb) ?k of Inr p \<Rightarrow> p | Inl p \<Rightarrow> p) = length xs"
    unfolding split_at_find [OF sp] by (auto split: list.splits)
  from word_iter_new_at_spec [of "[]" "[]" ab ?k] obtain it where it: "word_iter_new_at ab [] [] ?k = Ok it"
    "word_state ab [] [] it" "next_bitmap_word_index it = ?k" by auto
  have begin_eq: "64 * ?k + ?off = range_begin q" by simp
  have wfq: "range_begin q < range_end q" "range_end q < u64_bound" using q by (simp_all add: range_wf_def)
  have "base_state ab ?k it" using it by (simp add: base_state_def word_state_def)
  have missing: "missing ?k (range_end q) ys \<subseteq> {i. in_words q i \<and> i \<notin> fst ` set (sb_entries sb)}"
  proof
    fix i assume i: "i \<in> missing ?k (range_end q) ys"
    then have "range_begin q < 64 * (i + 1)" using div_64_eq_iff [of "range_begin q" ?k] by (auto simp: missing_def)
    moreover have "i \<notin> fst ` set xs" using i xs by (fastforce simp: missing_def)
    ultimately show "i \<in> {i. in_words q i \<and> i \<notin> fst ` set (sb_entries sb)}" using i by (auto simp: missing_def in_words_def es)
  qed
  have fin: "finite {i. in_words q i \<and> i \<notin> fst ` set (sb_entries sb)}"
    by (rule finite_subset [of _ "{..range_end q}"]) (auto simp: in_words_def)
  have few: "card (missing ?k (range_end q) ys) \<le> ?r" using card_mono [OF fin missing] reserve by linarith
  have "64 * ?k < range_end q + 64" using begin_eq wfq(1) by linarith
  from repopulate_loop_spec [OF _ xs ys \<open>base_state ab ?k it\<close> _ q(2) few this, of ?off v] srt
  obtain zs r' where loop: "repopulate_loop q v it (xs @ ys) ?r (length xs) ?k ?off (range_end q - range_begin q) = Ok (xs @ zs, r')"
    and rep: "repopulated ab v (range_end q) ?k ?off ys ?r zs r'"
    unfolding begin_eq es by auto
  let ?sb = "\<lparr>sb_entries = xs @ zs, remove_rollback_reserve_capacity = r'\<rparr>"
  have run: "repopulate_set_range_for_rollback capacity sb q ab v = Ok ?sb"
    using cap loop it(1) pos wfq by (auto simp: repopulate_set_range_for_rollback_def es drop_bit_6 Let_def)
  note r = rep [unfolded repopulated_def begin_eq]
  have "sb_wf ?sb" using srt nz xs r unfolding es sb_wf_def by (simp add: ball_Un) fastforce
  moreover have "sb_blocks sb \<subseteq> sb_blocks ?sb" "sb_blocks ?sb \<subseteq> sb_blocks sb \<union> blocks q"
    using r unfolding sb_blocks_def es by (auto simp: blocks_def)
  moreover have "r' + length (xs @ zs) = ?r + length (sb_entries sb)" using r by (simp add: es)
  moreover have "\<forall>b \<in> blocks q. b \<in> sb_blocks ?sb \<or> (b \<in> ab_blocks ab \<longleftrightarrow> v)"
    using r unfolding sb_blocks_def by (auto simp: blocks_def)
  ultimately show thesis by (intro that [OF run]) simp_all
qed

lemma in_words_has_block:
  assumes "in_words q i" "range_wf q"
  obtains b where "b \<in> blocks q" "i = b div 64"
proof (rule that)
  show "max (range_begin q) (64 * i) \<in> blocks q" using assms by (auto simp: in_words_def blocks_def range_wf_def)
  show "i = max (range_begin q) (64 * i) div 64" using assms(1) div_64_eq_iff [of "max (range_begin q) (64 * i)" i] by (auto simp: in_words_def)
qed

lemma wf_words:
  assumes "sb_wf sb"
  shows "fst ` set (sb_entries sb) = (\<lambda>b. b div 64) ` sb_blocks sb"
proof
  show "fst ` set (sb_entries sb) \<subseteq> (\<lambda>b. b div 64) ` sb_blocks sb"
  proof
    fix i assume "i \<in> fst ` set (sb_entries sb)"
    then obtain e where e: "e \<in> set (sb_entries sb)" "i = fst e" by blast
    with assms have "snd e \<noteq> 0" by (simp add: sb_wf_def)
    from entry_has_block [OF e(1) this] e(2) show "i \<in> (\<lambda>b. b div 64) ` sb_blocks sb" by (metis image_eqI sb_blocks_def)
  qed
qed (force simp: sb_blocks_def entry_bits_def)

lemma wf_card:
  assumes "sb_wf sb"
  shows "card (fst ` set (sb_entries sb)) = length (sb_entries sb)"
proof -
  have "distinct (map fst (sb_entries sb))" using assms by (simp add: sb_wf_def sb_sorted_alt strict_sorted_iff)
  then show ?thesis using distinct_card by fastforce
qed

text \<open>
  The rollback of extents of a bitmap \<open>sb\<close> from any state \<open>sb1\<close> that removals have led to: it never runs
  out of reserved entries.
\<close>

definition removed_from :: "sparse_alloc_bitmap \<Rightarrow> sparse_alloc_bitmap \<Rightarrow> bool" where
  "removed_from sb sb1 \<longleftrightarrow> sb_wf sb1 \<and> sb_blocks sb1 \<subseteq> sb_blocks sb
    \<and> remove_rollback_reserve_capacity sb1 + length (sb_entries sb1) = remove_rollback_reserve_capacity sb + length (sb_entries sb)"

lemma removed_from_reserve:
  assumes wf: "sb_wf sb" and q: "range_wf q" "blocks q \<subseteq> sb_blocks sb" and sb1: "removed_from sb sb1"
  shows "card {i. in_words q i \<and> i \<notin> fst ` set (sb_entries sb1)} \<le> remove_rollback_reserve_capacity sb1"
proof -
  let ?W = "\<lambda>sb. fst ` set (sb_entries sb)"
  have wf1: "sb_wf sb1" and sub: "sb_blocks sb1 \<subseteq> sb_blocks sb" using sb1 by (simp_all add: removed_from_def)
  have "{i. in_words q i \<and> i \<notin> ?W sb1} \<subseteq> ?W sb - ?W sb1"
  proof
    fix i assume i: "i \<in> {i. in_words q i \<and> i \<notin> ?W sb1}"
    then obtain b where "b \<in> blocks q" "i = b div 64" using in_words_has_block [of q i] q(1) by blast
    then have "i \<in> ?W sb" unfolding wf_words [OF wf] using q(2) by blast
    with i show "i \<in> ?W sb - ?W sb1" by blast
  qed
  then have "card {i. in_words q i \<and> i \<notin> ?W sb1} \<le> card (?W sb - ?W sb1)" by (intro card_mono) auto
  also have "\<dots> = length (sb_entries sb) - length (sb_entries sb1)"
  proof -
    have "?W sb1 \<subseteq> ?W sb" unfolding wf_words [OF wf] wf_words [OF wf1] using sub by blast
    then show ?thesis by (simp add: card_Diff_subset wf_card [OF wf] wf_card [OF wf1])
  qed
  finally show ?thesis using sb1 by (auto simp: removed_from_def)
qed

lemma rollback_remove_extents_spec:
  assumes "sb_wf sb" "removed_from sb sb1"
    "\<forall>q \<in> set qs. range_wf q \<and> range_end q + 64 \<le> u64_bound \<and> blocks q \<subseteq> sb_blocks sb"
    "length (sb_entries sb) + remove_rollback_reserve_capacity sb \<le> capacity"
  shows "\<exists>sb2. sb_rollback_remove_extents capacity sb1 qs ab v = Ok sb2 \<and> removed_from sb sb2 \<and> sb_blocks sb1 \<subseteq> sb_blocks sb2
    \<and> (\<forall>b \<in> \<Union> (blocks ` set qs). b \<in> sb_blocks sb2 \<or> (b \<in> ab_blocks ab \<longleftrightarrow> v))"
  using assms(2,3)
proof (induction qs arbitrary: sb1)
  case (Cons q qs)
  have q: "range_wf q" "blocks q \<subseteq> sb_blocks sb" "range_end q + 64 \<le> u64_bound"
    and qs: "\<forall>q \<in> set qs. range_wf q \<and> range_end q + 64 \<le> u64_bound \<and> blocks q \<subseteq> sb_blocks sb" using Cons.prems(2) by auto
  have "sb_wf sb1" "length (sb_entries sb1) + remove_rollback_reserve_capacity sb1 \<le> capacity"
    using Cons.prems(1) assms(4) by (simp_all add: removed_from_def)
  then obtain sb2 where
    rb: "repopulate_set_range_for_rollback capacity sb1 q ab v = Ok sb2" "sb_wf sb2"
      "sb_blocks sb1 \<subseteq> sb_blocks sb2" "sb_blocks sb2 \<subseteq> sb_blocks sb1 \<union> blocks q"
      "remove_rollback_reserve_capacity sb2 + length (sb_entries sb2) = remove_rollback_reserve_capacity sb1 + length (sb_entries sb1)"
    and ok: "\<forall>b \<in> blocks q. b \<in> sb_blocks sb2 \<or> (b \<in> ab_blocks ab \<longleftrightarrow> v)"
    by (rule repopulate_spec [OF _ q(1,3) _ removed_from_reserve [OF assms(1) q(1,2) Cons.prems(1)], of capacity ab v]) blast+
  have "removed_from sb sb2" using rb(2,4,5) q(2) Cons.prems(1) by (auto simp: removed_from_def)
  from Cons.IH [OF this qs] obtain sb3 where "sb_rollback_remove_extents capacity sb2 qs ab v = Ok sb3" "removed_from sb sb3"
    "sb_blocks sb2 \<subseteq> sb_blocks sb3" "\<forall>b \<in> \<Union> (blocks ` set qs). b \<in> sb_blocks sb3 \<or> (b \<in> ab_blocks ab \<longleftrightarrow> v)" by blast
  then show ?case using rb(1,3) ok by (auto simp: sb_rollback_remove_extent_def)
qed simp

lemma remove_extents_spec:
  assumes "sb_wf sb" "\<forall>q \<in> set qs. range_wf q"
  shows "\<exists>sb1. sb_remove_extents sb qs = Ok sb1 \<and> removed_from sb sb1 \<and> sb_blocks sb1 = sb_blocks sb - \<Union> (blocks ` set qs)"
  using assms
proof (induction qs arbitrary: sb)
  case (Cons q qs)
  have q: "range_wf q" using Cons.prems(2) by simp
  from Cons.prems(1) obtain sb1 where rm: "sb_remove_range sb q True = Ok sb1" "sb_wf sb1" "sb_blocks sb1 = sb_blocks sb - blocks q"
    "remove_rollback_reserve_capacity sb1 = remove_rollback_reserve_capacity sb + (length (sb_entries sb) - length (sb_entries sb1))"
    "length (sb_entries sb1) \<le> length (sb_entries sb)"
    by (rule sb_remove_range_spec [OF _ q, of sb True]) simp
  from Cons.IH [OF rm(2)] Cons.prems(2) obtain sb2 where "sb_remove_extents sb1 qs = Ok sb2" "removed_from sb1 sb2"
    "sb_blocks sb2 = sb_blocks sb1 - \<Union> (blocks ` set qs)" by auto
  then show ?case using rm by (auto simp: removed_from_def)
qed (simp add: removed_from_def)

text \<open>
  C24: the rollback of the removal of extents that were all in the bitmap and end before the
  last word of 64 blocks that an \<open>u64\<close> can number always succeeds without any memory allocation, given
  that the vector has the capacity for its entries and for the reserve, and it gives back the state in effect: the union with (or, for pending frees, the difference from) the base
  bitmap is the one from before the removal.
\<close>

theorem sb_rollback_remove_extents_correct:
  assumes wf: "sb_wf sb" and qs: "\<forall>q \<in> set qs. range_wf q \<and> range_end q + 64 \<le> u64_bound \<and> blocks q \<subseteq> sb_blocks sb"
    and cap: "length (sb_entries sb) + remove_rollback_reserve_capacity sb \<le> capacity"
  shows "\<exists>sb1 sb2. sb_remove_extents sb qs = Ok sb1 \<and> sb_blocks sb1 = sb_blocks sb - \<Union> (blocks ` set qs)
    \<and> sb_rollback_remove_extents capacity sb1 qs ab v = Ok sb2
    \<and> sb_wf sb2 \<and> sb_blocks sb2 \<subseteq> sb_blocks sb
    \<and> (if v then ab_blocks ab \<union> sb_blocks sb2 = ab_blocks ab \<union> sb_blocks sb
       else ab_blocks ab - sb_blocks sb2 = ab_blocks ab - sb_blocks sb)
    \<and> length (sb_entries sb2) + remove_rollback_reserve_capacity sb2 \<le> capacity"
proof -
  from remove_extents_spec [OF wf, of qs] qs obtain sb1 where rm: "sb_remove_extents sb qs = Ok sb1" "removed_from sb sb1"
    "sb_blocks sb1 = sb_blocks sb - \<Union> (blocks ` set qs)" by blast
  from rollback_remove_extents_spec [OF wf rm(2) qs cap, of ab v] obtain sb2 where
    rb: "sb_rollback_remove_extents capacity sb1 qs ab v = Ok sb2" "removed_from sb sb2" "sb_blocks sb1 \<subseteq> sb_blocks sb2"
      "\<forall>b \<in> \<Union> (blocks ` set qs). b \<in> sb_blocks sb2 \<or> (b \<in> ab_blocks ab \<longleftrightarrow> v)" by blast
  have sub: "sb_blocks sb2 \<subseteq> sb_blocks sb" "sb_wf sb2" using rb(2) by (simp_all add: removed_from_def)
  have "if v then ab_blocks ab \<union> sb_blocks sb2 = ab_blocks ab \<union> sb_blocks sb
       else ab_blocks ab - sb_blocks sb2 = ab_blocks ab - sb_blocks sb"
    using rb(3,4) rm(3) sub(1) by auto
  moreover have "length (sb_entries sb2) + remove_rollback_reserve_capacity sb2 \<le> capacity" using rb(2) cap by (simp add: removed_from_def)
  ultimately show ?thesis using rm(1,3) rb(1) sub by blast
qed

theorem sb_rollback_remove_extents_correct_witness:
  "\<exists>sb1 sb2. sb_remove_extents \<lparr>sb_entries = [(5, 1)], remove_rollback_reserve_capacity = 0\<rparr> [mk_range 320 321] = Ok sb1
    \<and> sb_blocks sb1 = {} \<and> sb_rollback_remove_extents 1 sb1 [mk_range 320 321] \<lparr>bitmap = []\<rparr> True = Ok sb2
    \<and> sb_wf sb2 \<and> sb_blocks sb2 = {320}"
proof -
  have "range_wf (mk_range 320 321)" "blocks (mk_range 320 321) = {320}" "ab_blocks \<lparr>bitmap = []\<rparr> = {}"
    by (auto simp: range_wf_def ab_blocks_def dense_bits_def)
  then show ?thesis
    using sb_rollback_remove_extents_correct [OF one_entry_wf, of "[mk_range 320 321]" 1 "\<lparr>bitmap = []\<rparr>" True] unfolding one_entry_blocks by auto
qed

end
