(* ===== verification/Async_Semaphore.thy ===== *)
theory Async_Semaphore
  imports Rust_Prelude "HOL-Library.Multiset"
begin

text \<open>
  The asynchronous semaphore of \<open>src/utils-async/src/asynchronous/semaphore.rs\<close>: the queue of
  waiters, the counters of leases, the state's operations under the queue lock, the lockless return of a
  trivial lease, the futures and the guards.

  An operation under the lock is one function on the state. A waker is a number; waking it appends it to
  the list \<open>woken\<close>. The counters are accessed with atomic operations, which wrap around. While
  \<open>enqueue_waiter\<close> reserves memory it may drop the lock: what other threads do to the state then is
  the parameter \<open>window\<close>, the identity when the queue has the capacity already.
\<close>

section \<open>State\<close>

datatype sem_error = RequestExceedsSemaphoreCapacity | StaleSemaphore | SemMemoryAllocationFailure | SemInternal

datatype lease_grant_count = TrivialLease | Leases nat | ExclusiveAll

definition lease_grant_count_from :: "nat \<Rightarrow> lease_grant_count" where
  "lease_grant_count_from value = (if value = 0 then TrivialLease else Leases value)"

record queue_entry =
  leases_requested :: lease_grant_count
  waker :: "nat option"
  waiter_id :: nat

record sem_queue =
  queue :: "queue_entry list"
  max_leases :: nat
  last_waiter_id :: nat
  enqueued_trivial_lease_waiters :: nat
  enqueued_exclusive_all_waiters :: nat

record sem_state = sem_queue +
  leases_granted :: nat
  trivial_leases_granted :: nat
  woken :: "nat list"

definition fetch_add_1 :: "nat \<Rightarrow> nat" where
  "fetch_add_1 n = (n + 1) mod u64_bound"

definition fetch_sub_1 :: "nat \<Rightarrow> nat" where
  "fetch_sub_1 n = (if n = 0 then u64_bound - 1 else n - 1)"

definition sem_new :: "nat \<Rightarrow> sem_state outcome" where
  "sem_new capacity =
     debug_assert (capacity < u64_bound - 1) (
     Ok \<lparr>queue = [], max_leases = capacity, last_waiter_id = 0, enqueued_trivial_lease_waiters = 0,
         enqueued_exclusive_all_waiters = 0, leases_granted = 0, trivial_leases_granted = 1, woken = []\<rparr>)"

section \<open>The queue\<close>

fun position_of :: "nat \<Rightarrow> queue_entry list \<Rightarrow> nat option" where
  "position_of wid [] = None"
| "position_of wid (e # es) = (if waiter_id e = wid then Some 0 else map_option Suc (position_of wid es))"

definition waiter_position :: "sem_state \<Rightarrow> nat \<Rightarrow> nat option" where
  "waiter_position s wid = position_of wid (queue s)"

definition poll_waiter :: "sem_state \<Rightarrow> nat \<Rightarrow> nat \<Rightarrow> sem_state \<times> bool" where
  "poll_waiter s wid w =
     (case waiter_position s wid of
        Some index \<Rightarrow> (s\<lparr>queue := (queue s)[index := (queue s ! index)\<lparr>waker := Some w\<rparr>]\<rparr>, False)
      | None \<Rightarrow> (s, True))"

definition remove_entry :: "sem_state \<Rightarrow> nat \<Rightarrow> sem_state outcome" where
  "remove_entry s index =
     and_then (vec_get (queue s) index) (\<lambda>e.
     and_then (case leases_requested e of
         TrivialLease \<Rightarrow> debug_assert (enqueued_trivial_lease_waiters s \<noteq> 0)
           (Ok (s\<lparr>enqueued_trivial_lease_waiters := enqueued_trivial_lease_waiters s - 1\<rparr>))
       | ExclusiveAll \<Rightarrow> debug_assert (enqueued_exclusive_all_waiters s \<noteq> 0)
           (Ok (s\<lparr>enqueued_exclusive_all_waiters := enqueued_exclusive_all_waiters s - 1\<rparr>))
       | Leases _ \<Rightarrow> Ok s) (\<lambda>s.
     and_then (vec_remove (queue s) index) (\<lambda>q. Ok (s\<lparr>queue := q\<rparr>))))"

definition remove_waiter :: "sem_state \<Rightarrow> nat \<Rightarrow> sem_state outcome" where
  "remove_waiter s wid = (case waiter_position s wid of Some index \<Rightarrow> remove_entry s index | None \<Rightarrow> Panic)"

definition enqueue_waiter ::
  "(sem_state \<Rightarrow> sem_state) \<Rightarrow> bool \<Rightarrow> sem_state \<Rightarrow> lease_grant_count \<Rightarrow> (sem_state \<times> (sem_error + nat)) outcome" where
  "enqueue_waiter window mem s req =
     (let s = window s
      in if \<not> mem then Ok (s, Inl SemMemoryAllocationFailure)
         else
           and_then (add_u64 (last_waiter_id s) 1) (\<lambda>wid.
           Ok (s\<lparr>last_waiter_id := wid, queue := queue s @ [\<lparr>leases_requested = req, waker = None, waiter_id = wid\<rparr>]\<rparr>, Inr wid)))"

definition failed_request :: "nat \<Rightarrow> lease_grant_count \<Rightarrow> bool" where
  "failed_request capacity req \<longleftrightarrow> (case req of Leases k \<Rightarrow> capacity < k | _ \<Rightarrow> False)"

definition has_uncancelled_waiters :: "sem_state \<Rightarrow> bool" where
  "has_uncancelled_waiters s \<longleftrightarrow> list_ex (\<lambda>e. case leases_requested e of
     TrivialLease \<Rightarrow> True | Leases k \<Rightarrow> k \<le> max_leases s | ExclusiveAll \<Rightarrow> True) (queue s)"

definition has_trivial_lease_waiters :: "sem_state \<Rightarrow> bool outcome" where
  "has_trivial_lease_waiters s =
     (let has = enqueued_trivial_lease_waiters s \<noteq> 0
      in debug_assert (has \<longleftrightarrow> list_ex (\<lambda>e. leases_requested e = TrivialLease) (queue s)) (Ok has))"

definition has_exclusive_all_waiters :: "sem_state \<Rightarrow> bool outcome" where
  "has_exclusive_all_waiters s =
     (let has = enqueued_exclusive_all_waiters s \<noteq> 0
      in debug_assert (has \<longleftrightarrow> list_ex (\<lambda>e. leases_requested e = ExclusiveAll) (queue s)) (Ok has))"

section \<open>Granting\<close>

definition is_exclusive_all_granted :: "sem_state \<Rightarrow> bool" where
  "is_exclusive_all_granted s \<longleftrightarrow> leases_granted s = max_leases s + 1"

definition try_grant_one :: "sem_state \<Rightarrow> lease_grant_count \<Rightarrow> (sem_state \<times> bool) outcome" where
  "try_grant_one s req =
     (case req of
        TrivialLease \<Rightarrow>
          if \<not> is_exclusive_all_granted s
          then Ok (s\<lparr>trivial_leases_granted := fetch_add_1 (trivial_leases_granted s)\<rparr>, True)
          else Ok (s, False)
      | Leases k \<Rightarrow>
          debug_assert (k \<le> max_leases s) (
          and_then (add_u64 (leases_granted s) k) (\<lambda>n.
          if n \<le> max_leases s then Ok (s\<lparr>leases_granted := n\<rparr>, True) else Ok (s, False)))
      | ExclusiveAll \<Rightarrow>
          if leases_granted s = 0 then
            if trivial_leases_granted s = 0 then Ok (s\<lparr>leases_granted := max_leases s + 1\<rparr>, True) else Ok (s, False)
          else Ok (s, False))"

definition acquire_exclusive_all_begin :: "sem_state \<Rightarrow> sem_state outcome" where
  "acquire_exclusive_all_begin s =
     and_then (has_exclusive_all_waiters s) (\<lambda>has.
     if \<not> has then
       debug_assert (trivial_leases_granted s \<noteq> 0) (
       Ok (s\<lparr>trivial_leases_granted := fetch_sub_1 (trivial_leases_granted s)\<rparr>))
     else Ok s)"

definition acquire_exclusive_all_end :: "sem_state \<Rightarrow> sem_state outcome" where
  "acquire_exclusive_all_end s =
     and_then (has_exclusive_all_waiters s) (\<lambda>has.
     if \<not> has then Ok (s\<lparr>trivial_leases_granted := fetch_add_1 (trivial_leases_granted s)\<rparr>) else Ok s)"

definition try_acquire_trivial_lease_locked :: "sem_state \<Rightarrow> (sem_state \<times> bool) outcome" where
  "try_acquire_trivial_lease_locked s =
     and_then (has_exclusive_all_waiters s) (\<lambda>has.
     if \<not> has then try_grant_one s TrivialLease else Ok (s, False))"

definition try_acquire_leases :: "sem_state \<Rightarrow> nat \<Rightarrow> (sem_state \<times> (sem_error + bool)) outcome" where
  "try_acquire_leases s n =
     (if n = 0 then and_then (try_acquire_trivial_lease_locked s) (\<lambda>(s, granted). Ok (s, Inr granted))
      else if max_leases s < n then Ok (s, Inl RequestExceedsSemaphoreCapacity)
      else if \<not> has_uncancelled_waiters s then
        and_then (try_grant_one s (lease_grant_count_from n)) (\<lambda>(s, granted). Ok (s, Inr granted))
      else Ok (s, Inr False))"

definition try_acquire_exclusive_all_locked :: "sem_state \<Rightarrow> (sem_state \<times> bool) outcome" where
  "try_acquire_exclusive_all_locked s =
     (if \<not> has_uncancelled_waiters s then try_grant_one s ExclusiveAll else Ok (s, False))"

definition try_acquire_exclusive_all :: "sem_state \<Rightarrow> (sem_state \<times> bool) outcome" where
  "try_acquire_exclusive_all s =
     and_then (acquire_exclusive_all_begin s) (\<lambda>s.
     and_then (try_acquire_exclusive_all_locked s) (\<lambda>(s, granted).
     and_then (acquire_exclusive_all_end s) (\<lambda>s. Ok (s, granted))))"

definition prepare_acquire_leases ::
  "(sem_state \<Rightarrow> sem_state) \<Rightarrow> bool \<Rightarrow> sem_state \<Rightarrow> nat \<Rightarrow> (sem_state \<times> (sem_error + nat option)) outcome" where
  "prepare_acquire_leases window mem s n =
     and_then (try_acquire_leases s n) (\<lambda>(s, r).
     case r of
       Inl e \<Rightarrow> Ok (s, Inl e)
     | Inr True \<Rightarrow> Ok (s, Inr None)
     | Inr False \<Rightarrow>
         and_then (enqueue_waiter window mem s (lease_grant_count_from n)) (\<lambda>(s, r).
         case r of
           Inl e \<Rightarrow> Ok (s, Inl e)
         | Inr wid \<Rightarrow>
             if n = 0 then
               Ok (s\<lparr>enqueued_trivial_lease_waiters := enqueued_trivial_lease_waiters s + 1\<rparr>, Inr (Some wid))
             else Ok (s, Inr (Some wid))))"

definition prepare_acquire_exclusive_all ::
  "(sem_state \<Rightarrow> sem_state) \<Rightarrow> bool \<Rightarrow> sem_state \<Rightarrow> (sem_state \<times> (sem_error + nat option)) outcome" where
  "prepare_acquire_exclusive_all window mem s =
     and_then (acquire_exclusive_all_begin s) (\<lambda>s.
     and_then (try_acquire_exclusive_all_locked s) (\<lambda>(s, granted).
     if granted then and_then (acquire_exclusive_all_end s) (\<lambda>s. Ok (s, Inr None))
     else
       let s = s\<lparr>enqueued_exclusive_all_waiters := enqueued_exclusive_all_waiters s + 1\<rparr>
       in and_then (enqueue_waiter window mem s ExclusiveAll) (\<lambda>(s, r).
          case r of
            Inr wid \<Rightarrow> Ok (s, Inr (Some wid))
          | Inl e \<Rightarrow>
              and_then (sub_u64 (enqueued_exclusive_all_waiters s) 1) (\<lambda>n.
              and_then (acquire_exclusive_all_end (s\<lparr>enqueued_exclusive_all_waiters := n\<rparr>)) (\<lambda>s. Ok (s, Inl e))))))"

section \<open>Waking\<close>

definition wake_entry :: "sem_state \<Rightarrow> nat \<Rightarrow> sem_state" where
  "wake_entry s i =
     (case waker (queue s ! i) of
        Some w \<Rightarrow> s\<lparr>queue := (queue s)[i := (queue s ! i)\<lparr>waker := None\<rparr>], woken := woken s @ [w]\<rparr>
      | None \<Rightarrow> s)"

lemma try_grant_one_queue: "try_grant_one s req = Ok (s', g) \<Longrightarrow> queue s' = queue s"
  by (auto simp: try_grant_one_def outcome_simps split: lease_grant_count.splits if_splits)

lemma acquire_exclusive_all_end_queue: "acquire_exclusive_all_end s = Ok s' \<Longrightarrow> queue s' = queue s"
  by (auto simp: acquire_exclusive_all_end_def outcome_simps split: if_splits)

lemma remove_entry_queue:
  "remove_entry s i = Ok s' \<Longrightarrow> i < length (queue s) \<and> queue s' = take i (queue s) @ drop (Suc i) (queue s)"
  by (auto simp: remove_entry_def outcome_simps split: lease_grant_count.splits)

lemma wake_entry_length [simp]: "length (queue (wake_entry s i)) = length (queue s)"
  by (simp add: wake_entry_def split: option.split)

function wake_loop :: "sem_state \<Rightarrow> nat \<Rightarrow> sem_state outcome" where
  "wake_loop s i =
     (if i < length (queue s) then
        let req = leases_requested (queue s ! i)
        in if failed_request (max_leases s) req then wake_loop s (i + 1)
           else
             let is_exclusive_all_waiter = (req = ExclusiveAll)
             in and_then (try_grant_one s req) (\<lambda>(s, granted).
                if granted then
                  and_then (remove_entry (wake_entry s i) i) (\<lambda>s.
                  and_then (if is_exclusive_all_waiter then acquire_exclusive_all_end s else Ok s) (\<lambda>s.
                  wake_loop s i))
                else
                  and_then (if \<not> is_exclusive_all_waiter \<and> \<not> is_exclusive_all_granted s
                            then has_trivial_lease_waiters s else Ok False) (\<lambda>skip.
                  if skip then wake_loop s (i + 1) else Ok s))
      else Ok s)"
  by pat_completeness auto
termination
proof (relation "measure (\<lambda>(s, i). length (queue s) - i)", goal_cases)
  case (3 s i req ex p s' granted s'' s3)
  from 3(5,6) have "queue s' = queue s" using try_grant_one_queue by blast
  moreover have "queue s3 = queue s''"
    using 3(9) acquire_exclusive_all_end_queue [of s'' s3] by (auto split: if_splits)
  ultimately show ?case using remove_entry_queue [OF 3(8)] by auto
next
  case (4 s i req ex p s' granted skip)
  from 4(5,6) have "queue s' = queue s" using try_grant_one_queue by blast
  then show ?case using 4(1) by simp
qed auto

declare wake_loop.simps [simp del]

definition wake_completed_waiters :: "sem_state \<Rightarrow> sem_state outcome" where
  "wake_completed_waiters s = wake_loop s 0"

fun fail_entries :: "nat \<Rightarrow> queue_entry list \<Rightarrow> queue_entry list \<times> nat list \<times> bool" where
  "fail_entries capacity [] = ([], [], False)"
| "fail_entries capacity (e # es) =
     (let (es, ws, failed_some) = fail_entries capacity es
      in if failed_request capacity (leases_requested e) then
           case waker e of
             Some w \<Rightarrow> (e\<lparr>waker := None\<rparr> # es, w # ws, True)
           | None \<Rightarrow> (e # es, ws, True)
         else (e # es, ws, failed_some))"

definition wake_failed_waiters :: "sem_state \<Rightarrow> sem_state outcome" where
  "wake_failed_waiters s =
     (let (es, ws, failed_some) = fail_entries (max_leases s) (queue s);
          s = s\<lparr>queue := es, woken := woken s @ ws\<rparr>
      in if failed_some then wake_completed_waiters s else Ok s)"

section \<open>Returning\<close>

definition return_trivial_lease_grant :: "sem_state \<Rightarrow> sem_state \<times> bool" where
  "return_trivial_lease_grant s =
     (let old = trivial_leases_granted s;
          s = s\<lparr>trivial_leases_granted := fetch_sub_1 old\<rparr>
      in (s, old = 1 \<and> leases_granted s = 0))"

definition return_grant :: "sem_state \<Rightarrow> lease_grant_count \<Rightarrow> sem_state outcome" where
  "return_grant s req =
     and_then (case req of
         TrivialLease \<Rightarrow> Ok (return_trivial_lease_grant s)
       | Leases k \<Rightarrow>
           debug_assert (k \<le> leases_granted s) (Ok (s\<lparr>leases_granted := leases_granted s - k\<rparr>, True))
       | ExclusiveAll \<Rightarrow>
           debug_assert (is_exclusive_all_granted s) (Ok (s\<lparr>leases_granted := 0\<rparr>, True))) (\<lambda>(s, wake).
     if wake then wake_completed_waiters s else Ok s)"

definition cancel_waiter :: "sem_state \<Rightarrow> nat \<Rightarrow> lease_grant_count \<Rightarrow> sem_state outcome" where
  "cancel_waiter s wid req =
     (case waiter_position s wid of
        Some index \<Rightarrow>
          and_then (remove_entry s index) (\<lambda>s.
          case req of
            TrivialLease \<Rightarrow>
              and_then (if is_exclusive_all_granted s then Ok True else has_exclusive_all_waiters s) (\<lambda>ok.
              debug_assert ok (Ok s))
          | Leases k \<Rightarrow> if 1 < k then wake_completed_waiters s else Ok s
          | ExclusiveAll \<Rightarrow> and_then (acquire_exclusive_all_end s) wake_completed_waiters)
      | None \<Rightarrow> return_grant s req)"

section \<open>Futures\<close>

text \<open>A future holds a weak pointer; \<open>alive\<close> says whether the semaphore still exists.\<close>

datatype 'a poll = Pending | Ready 'a

datatype leases_future = Enqueued nat nat | LeasesGranted nat | LeasesDone

datatype exclusive_all_future = ExclusiveEnqueued nat | ExclusiveGranted | ExclusiveDone

definition acquire_leases ::
  "(sem_state \<Rightarrow> sem_state) \<Rightarrow> bool \<Rightarrow> sem_state \<Rightarrow> nat \<Rightarrow> (sem_state \<times> (sem_error + leases_future)) outcome" where
  "acquire_leases window mem s n =
     and_then (prepare_acquire_leases window mem s n) (\<lambda>(s, r).
     case r of
       Inl e \<Rightarrow> Ok (s, Inl e)
     | Inr (Some wid) \<Rightarrow> Ok (s, Inr (Enqueued wid n))
     | Inr None \<Rightarrow> Ok (s, Inr (LeasesGranted n)))"

definition acquire_exclusive_all ::
  "(sem_state \<Rightarrow> sem_state) \<Rightarrow> bool \<Rightarrow> sem_state \<Rightarrow> (sem_state \<times> (sem_error + exclusive_all_future)) outcome" where
  "acquire_exclusive_all window mem s =
     and_then (prepare_acquire_exclusive_all window mem s) (\<lambda>(s, r).
     case r of
       Inl e \<Rightarrow> Ok (s, Inl e)
     | Inr (Some wid) \<Rightarrow> Ok (s, Inr (ExclusiveEnqueued wid))
     | Inr None \<Rightarrow> Ok (s, Inr ExclusiveGranted))"

definition poll_leases_future ::
  "bool \<Rightarrow> sem_state \<Rightarrow> leases_future \<Rightarrow> nat \<Rightarrow> (sem_state \<times> leases_future \<times> (sem_error + nat) poll) outcome" where
  "poll_leases_future alive s fut w =
     (case fut of
        Enqueued wid n \<Rightarrow>
          if \<not> alive then Ok (s, fut, Ready (Inl StaleSemaphore))
          else
            let (s, completed) = poll_waiter s wid w
            in if completed then Ok (s, LeasesDone, Ready (Inr n))
               else if max_leases s < n then
                 and_then (remove_waiter s wid) (\<lambda>s. Ok (s, LeasesDone, Ready (Inl RequestExceedsSemaphoreCapacity)))
               else Ok (s, fut, Pending)
      | LeasesGranted n \<Rightarrow>
          if \<not> alive then Ok (s, fut, Ready (Inl StaleSemaphore)) else Ok (s, LeasesDone, Ready (Inr n))
      | LeasesDone \<Rightarrow> Ok (s, fut, Ready (Inl SemInternal)))"

definition poll_exclusive_all_future ::
  "bool \<Rightarrow> sem_state \<Rightarrow> exclusive_all_future \<Rightarrow> nat \<Rightarrow> sem_state \<times> exclusive_all_future \<times> (sem_error + unit) poll" where
  "poll_exclusive_all_future alive s fut w =
     (case fut of
        ExclusiveEnqueued wid \<Rightarrow>
          if \<not> alive then (s, fut, Ready (Inl StaleSemaphore))
          else
            let (s, completed) = poll_waiter s wid w
            in if completed then (s, ExclusiveDone, Ready (Inr ())) else (s, fut, Pending)
      | ExclusiveGranted \<Rightarrow>
          if \<not> alive then (s, fut, Ready (Inl StaleSemaphore)) else (s, ExclusiveDone, Ready (Inr ()))
      | ExclusiveDone \<Rightarrow> (s, fut, Ready (Inl SemInternal)))"

definition drop_leases_future :: "bool \<Rightarrow> sem_state \<Rightarrow> leases_future \<Rightarrow> sem_state outcome" where
  "drop_leases_future alive s fut =
     (case fut of
        Enqueued wid n \<Rightarrow> if alive then cancel_waiter s wid (lease_grant_count_from n) else Ok s
      | LeasesGranted n \<Rightarrow> if alive then return_grant s (lease_grant_count_from n) else Ok s
      | LeasesDone \<Rightarrow> Ok s)"

definition drop_exclusive_all_future :: "bool \<Rightarrow> sem_state \<Rightarrow> exclusive_all_future \<Rightarrow> sem_state outcome" where
  "drop_exclusive_all_future alive s fut =
     (case fut of
        ExclusiveEnqueued wid \<Rightarrow> if alive then cancel_waiter s wid ExclusiveAll else Ok s
      | ExclusiveGranted \<Rightarrow> if alive then return_grant s ExclusiveAll else Ok s
      | ExclusiveDone \<Rightarrow> Ok s)"

section \<open>Guards\<close>

text \<open>A guard of regular leases is their number.\<close>

definition spawn_trivial_lease :: "sem_state \<Rightarrow> sem_state" where
  "spawn_trivial_lease s = s\<lparr>trivial_leases_granted := fetch_add_1 (trivial_leases_granted s)\<rparr>"

definition split_leases :: "sem_state \<Rightarrow> nat \<Rightarrow> nat \<Rightarrow> sem_state \<times> (sem_error + nat \<times> nat)" where
  "split_leases s n leases =
     (if n < leases then (s, Inl SemInternal)
      else
        let s = (if leases = 0 \<or> leases = n
                 then s\<lparr>trivial_leases_granted := fetch_add_1 (trivial_leases_granted s)\<rparr> else s)
        in (s, Inr (n - leases, leases)))"

definition drop_leases_guard :: "sem_state \<Rightarrow> nat \<Rightarrow> sem_state outcome" where
  "drop_leases_guard s n =
     (if n = 0 then
        let (s, wake) = return_trivial_lease_grant s
        in if wake then wake_completed_waiters s else Ok s
      else return_grant s (lease_grant_count_from n))"

definition leak :: "sem_state \<Rightarrow> nat \<Rightarrow> sem_state outcome" where
  "leak s n =
     (if n = 0 then drop_leases_guard s n
      else
        debug_assert (n \<le> max_leases s) (
        debug_assert (n \<le> leases_granted s) (
        and_then (wake_failed_waiters (s\<lparr>max_leases := max_leases s - n, leases_granted := leases_granted s - n\<rparr>)) (\<lambda>s.
        and_then (has_exclusive_all_waiters s) (\<lambda>has.
        if has then wake_completed_waiters s else Ok s)))))"

definition drop_exclusive_all_guard :: "sem_state \<Rightarrow> sem_state outcome" where
  "drop_exclusive_all_guard s = return_grant s ExclusiveAll"

definition resize_future :: "sem_state \<Rightarrow> nat \<Rightarrow> sem_state outcome" where
  "resize_future s capacity =
     debug_assert (capacity < u64_bound - 1) (
     let capacity_shrunken = capacity < max_leases s;
         s = s\<lparr>max_leases := capacity, leases_granted := capacity + 1\<rparr>
     in if capacity_shrunken then wake_failed_waiters s else Ok s)"

definition downgrade :: "sem_state \<Rightarrow> (sem_state \<times> nat) outcome" where
  "downgrade s =
     (let n = max_leases s;
          s = s\<lparr>leases_granted := n\<rparr>;
          s = (if n = 0 then s\<lparr>trivial_leases_granted := fetch_add_1 (trivial_leases_granted s)\<rparr> else s)
      in and_then (has_trivial_lease_waiters s) (\<lambda>has.
         and_then (if has then wake_completed_waiters s else Ok s) (\<lambda>s. Ok (s, n))))"

end
