(* ===== verification/Async_Semaphore_Inv.thy ===== *)
theory Async_Semaphore_Inv
  imports Async_Semaphore "HOL-Library.Sublist"
begin

text \<open>
  The invariant of the semaphore's state: how the counters relate to the grants handed out and to the
  queue, and what it means that nobody in the queue could be granted his request. The loop that wakes
  waiters and the return of a grant establish both.
\<close>

section \<open>Invariant\<close>

text \<open>
  \<open>G\<close> is the multiset of the grants handed out. While an exclusive waiter is enqueued (or one is being
  acquired) the counter of trivial leases is exact (\<open>armed\<close>), otherwise it is one too high.
\<close>

fun lease_size :: "lease_grant_count \<Rightarrow> nat" where
  "lease_size (Leases n) = n"
| "lease_size TrivialLease = 0"
| "lease_size ExclusiveAll = 0"

definition leases_of :: "lease_grant_count multiset \<Rightarrow> nat" where
  "leases_of G = sum_mset (image_mset lease_size G)"

definition requests :: "sem_state \<Rightarrow> lease_grant_count multiset" where
  "requests s = mset (map leases_requested (queue s))"

lemma requests_update [simp]:
  "requests (s\<lparr>trivial_leases_granted := t\<rparr>) = requests s" "requests (s\<lparr>leases_granted := n\<rparr>) = requests s"
  "requests (s\<lparr>max_leases := n\<rparr>) = requests s" "requests (s\<lparr>enqueued_trivial_lease_waiters := n\<rparr>) = requests s"
  "requests (s\<lparr>enqueued_exclusive_all_waiters := n\<rparr>) = requests s" "requests (s\<lparr>last_waiter_id := n\<rparr>) = requests s"
  by (simp_all add: requests_def)

definition queue_inv :: "sem_state \<Rightarrow> bool" where
  "queue_inv s \<longleftrightarrow> Leases 0 \<notin># requests s
     \<and> enqueued_trivial_lease_waiters s = count (requests s) TrivialLease
     \<and> enqueued_exclusive_all_waiters s = count (requests s) ExclusiveAll
     \<and> distinct (map waiter_id (queue s)) \<and> (\<forall>e \<in> set (queue s). waiter_id e \<le> last_waiter_id s)"

definition grants_inv :: "sem_state \<Rightarrow> lease_grant_count multiset \<Rightarrow> bool \<Rightarrow> bool" where
  "grants_inv s G armed \<longleftrightarrow> max_leases s < 2 ^ 63 \<and> Leases 0 \<notin># G
     \<and> (if ExclusiveAll \<in># G then G = {#ExclusiveAll#} \<and> leases_granted s = max_leases s + 1
        else leases_granted s = leases_of G \<and> leases_granted s \<le> max_leases s)
     \<and> trivial_leases_granted s = count G TrivialLease + (if armed then 0 else 1)"

definition room :: "sem_state \<Rightarrow> lease_grant_count multiset \<Rightarrow> bool" where
  "room s G \<longleftrightarrow> count (G + requests s) TrivialLease + 1 < u64_bound"

definition sem_inv :: "sem_state \<Rightarrow> lease_grant_count multiset \<Rightarrow> bool" where
  "sem_inv s G \<longleftrightarrow> queue_inv s \<and> grants_inv s G (ExclusiveAll \<in># requests s) \<and> room s G"

definition grantable :: "sem_state \<Rightarrow> lease_grant_count \<Rightarrow> bool" where
  "grantable s req \<longleftrightarrow> (case req of
     TrivialLease \<Rightarrow> \<not> is_exclusive_all_granted s
   | Leases n \<Rightarrow> leases_granted s + n \<le> max_leases s
   | ExclusiveAll \<Rightarrow> leases_granted s = 0 \<and> trivial_leases_granted s = 0)"

lemma leases_of_simps [simp]:
  "leases_of {#} = 0" "leases_of (add_mset r G) = lease_size r + leases_of G" "leases_of (G + H) = leases_of G + leases_of H"
  by (simp_all add: leases_of_def)

lemma leases_of_0: "Leases 0 \<notin># G \<Longrightarrow> leases_of G = 0 \<Longrightarrow> Leases n \<notin># G"
  by (induction G) (auto elim: lease_size.elims)

lemma is_exclusive_iff:
  assumes "grants_inv s G armed"
  shows "is_exclusive_all_granted s \<longleftrightarrow> ExclusiveAll \<in># G"
  using assms by (auto simp: grants_inv_def is_exclusive_all_granted_def split: if_splits)

lemma has_waiters_Ok:
  assumes "queue_inv s"
  shows "has_trivial_lease_waiters s = Ok (TrivialLease \<in># requests s)" "has_exclusive_all_waiters s = Ok (ExclusiveAll \<in># requests s)"
proof -
  have any: "list_ex (\<lambda>e. leases_requested e = r) (queue s) \<longleftrightarrow> r \<in># requests s" for r
    by (auto simp: requests_def list_ex_iff)
  show "has_trivial_lease_waiters s = Ok (TrivialLease \<in># requests s)" "has_exclusive_all_waiters s = Ok (ExclusiveAll \<in># requests s)"
    using assms unfolding has_trivial_lease_waiters_def has_exclusive_all_waiters_def any by (simp_all add: queue_inv_def Let_def)
qed

text \<open>No grants at all: the state in which an exclusive request is granted.\<close>

lemma no_grants:
  assumes "grants_inv s G armed" "leases_granted s = 0" "trivial_leases_granted s = 0"
  shows "G = {#}" "armed"
proof -
  have "ExclusiveAll \<notin># G" "leases_of G = 0" "count G TrivialLease = 0" "Leases 0 \<notin># G" "armed"
    using assms by (auto simp: grants_inv_def split: if_splits)
  then have "r \<notin># G" for r using leases_of_0 [of G] by (cases r) (auto simp: not_in_iff)
  then show "G = {#}" "armed" using \<open>armed\<close> by (auto simp: multiset_nonemptyE)
qed

lemma fetch_sub_1_Suc [simp]: "fetch_sub_1 (Suc n) = n" by (simp add: fetch_sub_1_def)
lemma fetch_add_1_small: "n + 1 < u64_bound \<Longrightarrow> fetch_add_1 n = n + 1" by (simp add: fetch_add_1_def)

text \<open>Granting a request that is not bound for failure.\<close>

lemma try_grant_one_spec:
  assumes inv: "grants_inv s G armed" and req: "\<not> failed_request (max_leases s) req" "req \<noteq> Leases 0"
    and bound: "req = TrivialLease \<Longrightarrow> trivial_leases_granted s + 1 < u64_bound"
  obtains s' where "try_grant_one s req = Ok (s', grantable s req)" "queue s' = queue s" "max_leases s' = max_leases s"
    "last_waiter_id s' = last_waiter_id s" "enqueued_trivial_lease_waiters s' = enqueued_trivial_lease_waiters s"
    "enqueued_exclusive_all_waiters s' = enqueued_exclusive_all_waiters s" "woken s' = woken s" "leases_granted s \<le> leases_granted s'"
    "grantable s req \<Longrightarrow> grants_inv s' (add_mset req G) armed" "\<not> grantable s req \<Longrightarrow> s' = s"
proof (cases req)
  case TrivialLease
  show thesis
  proof (cases "is_exclusive_all_granted s")
    case True
    then show thesis using TrivialLease by (intro that [of s]) (simp_all add: try_grant_one_def grantable_def)
  next
    case False
    then show thesis using TrivialLease bound [OF TrivialLease] inv is_exclusive_iff [OF inv]
      by (intro that [of "s\<lparr>trivial_leases_granted := fetch_add_1 (trivial_leases_granted s)\<rparr>"])
        (auto simp: try_grant_one_def grantable_def grants_inv_def fetch_add_1_small)
  qed
next
  case (Leases n)
  have n: "n \<le> max_leases s" "n \<noteq> 0" using req by (simp_all add: Leases failed_request_def)
  have lg: "leases_granted s \<le> max_leases s + 1" "max_leases s < 2 ^ 63" using inv by (auto simp: grants_inv_def split: if_splits)
  have add: "add_u64 (leases_granted s) n = Ok (leases_granted s + n)" using n lg by (simp add: add_u64_def)
  show thesis
  proof (cases "leases_granted s + n \<le> max_leases s")
    case True
    then have "ExclusiveAll \<notin># G" using inv by (auto simp: grants_inv_def)
    then show thesis using True n add inv
      by (intro that [of "s\<lparr>leases_granted := leases_granted s + n\<rparr>"]) (auto simp: Leases try_grant_one_def grantable_def grants_inv_def)
  next
    case False
    then show thesis using n add by (intro that [of s]) (auto simp: Leases try_grant_one_def grantable_def)
  qed
next
  case ExclusiveAll
  show thesis
  proof (cases "leases_granted s = 0 \<and> trivial_leases_granted s = 0")
    case True
    then show thesis using inv no_grants [OF inv]
      by (intro that [of "s\<lparr>leases_granted := max_leases s + 1\<rparr>"]) (auto simp: ExclusiveAll try_grant_one_def grantable_def grants_inv_def)
  next
    case False
    then show thesis by (intro that [of s]) (auto simp: ExclusiveAll try_grant_one_def grantable_def)
  qed
qed

text \<open>Taking the entry \<open>e\<close> out of the queue.\<close>

lemma remove_entry_spec:
  assumes inv: "queue_inv s" and i: "i < length (queue s)"
  defines "req \<equiv> leases_requested (queue s ! i)"
  obtains s' where "remove_entry s i = Ok s'" "queue s' = take i (queue s) @ drop (Suc i) (queue s)" "queue_inv s'"
    "requests s = add_mset req (requests s')" "max_leases s' = max_leases s" "last_waiter_id s' = last_waiter_id s"
    "leases_granted s' = leases_granted s" "trivial_leases_granted s' = trivial_leases_granted s" "woken s' = woken s"
proof -
  let ?q = "take i (queue s) @ drop (Suc i) (queue s)"
  have q: "queue s = take i (queue s) @ queue s ! i # drop (Suc i) (queue s)" using i by (rule id_take_nth_drop)
  define R where "R = mset (map leases_requested ?q)"
  have reqs: "requests s = add_mset req R"
    unfolding requests_def req_def R_def by (subst q) simp
  have ids: "distinct (map waiter_id ?q)" "\<forall>e \<in> set ?q. waiter_id e \<le> last_waiter_id s"
  proof -
    have "distinct (map waiter_id (take i (queue s) @ queue s ! i # drop (Suc i) (queue s)))" using inv q by (metis queue_inv_def)
    then show "distinct (map waiter_id ?q)" by auto
    show "\<forall>e \<in> set ?q. waiter_id e \<le> last_waiter_id s" using inv by (auto simp: queue_inv_def dest: in_set_takeD in_set_dropD)
  qed
  show thesis
  proof (rule that)
    let ?s = "s\<lparr>queue := ?q, enqueued_trivial_lease_waiters := enqueued_trivial_lease_waiters s - (if req = TrivialLease then 1 else 0),
      enqueued_exclusive_all_waiters := enqueued_exclusive_all_waiters s - (if req = ExclusiveAll then 1 else 0)\<rparr>"
    show "remove_entry s i = Ok ?s" using inv i reqs unfolding remove_entry_def req_def [symmetric]
      by (cases req) (auto simp: queue_inv_def req_def)
    have R: "requests ?s = R" by (simp add: requests_def R_def)
    show "queue_inv ?s" using inv ids unfolding queue_inv_def R reqs by auto
    show "requests s = add_mset req (requests ?s)" using reqs R by simp
  qed simp_all
qed

section \<open>Waking\<close>

definition live :: "sem_state \<Rightarrow> queue_entry list" where
  "live s = filter (\<lambda>e. \<not> failed_request (max_leases s) (leases_requested e)) (queue s)"

text \<open>Nothing can be granted next.\<close>

definition head_blocked :: "sem_state \<Rightarrow> bool" where
  "head_blocked s \<longleftrightarrow> (case live s of [] \<Rightarrow> True | e # _ \<Rightarrow> \<not> grantable s (leases_requested e))"

text \<open>Trivial leases wait only for exclusive grants that are handed out or ahead of them.\<close>

definition trivial_blocked :: "sem_state \<Rightarrow> bool" where
  "trivial_blocked s \<longleftrightarrow> is_exclusive_all_granted s \<or> (\<forall>j < length (queue s). leases_requested (queue s ! j) = TrivialLease
     \<longrightarrow> (\<exists>i<j. leases_requested (queue s ! i) = ExclusiveAll))"

definition woken_up :: "sem_state \<Rightarrow> sem_state \<Rightarrow> bool" where
  "woken_up s s' \<longleftrightarrow> max_leases s' = max_leases s \<and> last_waiter_id s' = last_waiter_id s \<and> subseq (queue s') (queue s)
     \<and> set (woken s) \<subseteq> set (woken s') \<and> (\<forall>e \<in> set (queue s) - set (queue s'). set_option (waker e) \<subseteq> set (woken s'))"

lemma woken_up_refl [simp]: "woken_up s s" by (simp add: woken_up_def)

lemma woken_up_trans:
  assumes "woken_up s t" "woken_up t u"
  shows "woken_up s u"
proof -
  have "set_option (waker e) \<subseteq> set (woken u)" if "e \<in> set (queue s) - set (queue u)" for e
    using assms that by (cases "e \<in> set (queue t)") (auto simp: woken_up_def)
  moreover have "subseq (queue u) (queue s)" using assms by (auto simp: woken_up_def intro: subseq_order.trans)
  ultimately show ?thesis using assms by (auto simp: woken_up_def)
qed

definition skipped :: "sem_state \<Rightarrow> nat \<Rightarrow> bool" where
  "skipped s i \<longleftrightarrow> (\<forall>j < i. \<exists>n. leases_requested (queue s ! j) = Leases n \<and> max_leases s < leases_granted s + n)"

text \<open>One grant in the loop.\<close>

lemma grants_inv_cong:
  "max_leases s = max_leases t \<Longrightarrow> leases_granted s = leases_granted t \<Longrightarrow> trivial_leases_granted s = trivial_leases_granted t
    \<Longrightarrow> grants_inv s G armed \<longleftrightarrow> grants_inv t G armed"
  by (simp add: grants_inv_def)

lemma queue_inv_cong:
  assumes "map leases_requested (queue s) = map leases_requested (queue t)" "map waiter_id (queue s) = map waiter_id (queue t)"
    "last_waiter_id s = last_waiter_id t" "enqueued_trivial_lease_waiters s = enqueued_trivial_lease_waiters t"
    "enqueued_exclusive_all_waiters s = enqueued_exclusive_all_waiters t"
  shows "queue_inv s \<longleftrightarrow> queue_inv t"
proof -
  have ball: "(\<forall>e \<in> set q. waiter_id e \<le> l) \<longleftrightarrow> (\<forall>x \<in> set (map waiter_id q). x \<le> l)" for q l by simp
  show ?thesis unfolding queue_inv_def requests_def ball assms ..
qed

lemma wake_entry_spec:
  assumes "i < length (queue s)"
  shows "map leases_requested (queue (wake_entry s i)) = map leases_requested (queue s)"
    "map waiter_id (queue (wake_entry s i)) = map waiter_id (queue s)"
    "take i (queue (wake_entry s i)) = take i (queue s)" "drop (Suc i) (queue (wake_entry s i)) = drop (Suc i) (queue s)"
    "woken (wake_entry s i) = woken s @ (case waker (queue s ! i) of None \<Rightarrow> [] | Some x \<Rightarrow> [x])"
    "max_leases (wake_entry s i) = max_leases s" "last_waiter_id (wake_entry s i) = last_waiter_id s"
    "leases_granted (wake_entry s i) = leases_granted s" "trivial_leases_granted (wake_entry s i) = trivial_leases_granted s"
    "enqueued_trivial_lease_waiters (wake_entry s i) = enqueued_trivial_lease_waiters s"
    "enqueued_exclusive_all_waiters (wake_entry s i) = enqueued_exclusive_all_waiters s"
    "leases_requested (queue (wake_entry s i) ! i) = leases_requested (queue s ! i)"
proof -
  have "map f ((queue s)[i := (queue s ! i)\<lparr>waker := None\<rparr>]) = map f (queue s)" if "\<And>e. f (e\<lparr>waker := None\<rparr>) = f e"
    for f :: "queue_entry \<Rightarrow> 'x" using that assms by (simp add: map_update list_update_same_conv)
  note this [of leases_requested] this [of waiter_id]
  then show "map leases_requested (queue (wake_entry s i)) = map leases_requested (queue s)"
    "map waiter_id (queue (wake_entry s i)) = map waiter_id (queue s)" by (simp_all add: wake_entry_def split: option.split)
qed (simp_all add: wake_entry_def assms split: option.split)

lemma grant_entry_spec:
  assumes inv: "sem_inv s G" and i: "i < length (queue s)" and req: "req = leases_requested (queue s ! i)"
    and ok: "\<not> failed_request (max_leases s) req" "grantable s req" and skip: "skipped s i"
  obtains s1 s2 s3 where "try_grant_one s req = Ok (s1, True)" "remove_entry (wake_entry s1 i) i = Ok s2"
    "(if req = ExclusiveAll then acquire_exclusive_all_end s2 else Ok s2) = Ok s3"
    "sem_inv s3 (add_mset req G)" "requests s = add_mset req (requests s3)" "woken_up s s3" "skipped s3 i" "i \<le> length (queue s3)"
proof -
  have q: "queue_inv s" and g: "grants_inv s G (ExclusiveAll \<in># requests s)" and r: "room s G" using inv by (simp_all add: sem_inv_def)
  have mem: "req \<in># requests s" using i by (auto simp: requests_def req)
  then have "req \<noteq> Leases 0" using q by (auto simp: queue_inv_def)
  moreover have "trivial_leases_granted s + 1 < u64_bound" if "req = TrivialLease"
  proof -
    have "1 \<le> count (requests s) TrivialLease" using mem that by (simp add: Suc_le_eq)
    moreover have "trivial_leases_granted s \<le> count G TrivialLease + 1" using g by (simp add: grants_inv_def)
    moreover have "count G TrivialLease + count (requests s) TrivialLease + 1 < u64_bound" using r by (simp add: room_def)
    ultimately show ?thesis by linarith
  qed
  ultimately obtain s1 where s1: "try_grant_one s req = Ok (s1, True)" "queue s1 = queue s" "max_leases s1 = max_leases s"
    "last_waiter_id s1 = last_waiter_id s" "enqueued_trivial_lease_waiters s1 = enqueued_trivial_lease_waiters s"
    "enqueued_exclusive_all_waiters s1 = enqueued_exclusive_all_waiters s" "woken s1 = woken s" "leases_granted s \<le> leases_granted s1"
    "grants_inv s1 (add_mset req G) (ExclusiveAll \<in># requests s)"
    using try_grant_one_spec [OF g ok(1)] ok(2) by metis
  let ?w = "wake_entry s1 i"
  have w: "requests ?w = requests s" "take i (queue ?w) = take i (queue s)" "drop (Suc i) (queue ?w) = drop (Suc i) (queue s)"
    "leases_requested (queue ?w ! i) = req" "woken ?w = woken s @ (case waker (queue s ! i) of None \<Rightarrow> [] | Some x \<Rightarrow> [x])"
    "max_leases ?w = max_leases s" "last_waiter_id ?w = last_waiter_id s" "leases_granted ?w = leases_granted s1"
    "trivial_leases_granted ?w = trivial_leases_granted s1" "queue_inv ?w"
    using wake_entry_spec [of i s1] i s1(2-7) q queue_inv_cong [of ?w s] by (simp_all add: req requests_def)
  have iw: "i < length (queue ?w)" using i s1(2) by simp
  obtain s2 where s2: "remove_entry ?w i = Ok s2" "queue s2 = take i (queue s) @ drop (Suc i) (queue s)" "queue_inv s2"
    "requests s = add_mset req (requests s2)" "max_leases s2 = max_leases s" "last_waiter_id s2 = last_waiter_id s"
    "leases_granted s2 = leases_granted s1" "trivial_leases_granted s2 = trivial_leases_granted s1" "woken s2 = woken ?w"
    using remove_entry_spec [OF w(10) iw] unfolding w by metis
  let ?last = "req = ExclusiveAll \<and> ExclusiveAll \<notin># requests s2"
  let ?s3 = "if ?last then s2\<lparr>trivial_leases_granted := fetch_add_1 (trivial_leases_granted s2)\<rparr> else s2"
  have run: "(if req = ExclusiveAll then acquire_exclusive_all_end s2 else Ok s2) = Ok ?s3"
    using has_waiters_Ok(2) [OF s2(3)] by (simp add: acquire_exclusive_all_end_def)
  show thesis
  proof (rule that [OF s1(1) s2(1) run])
    have r3: "requests ?s3 = requests s2" by (simp add: requests_def)
    show "requests s = add_mset req (requests ?s3)" using s2(4) r3 by simp
    have "queue_inv ?s3" using s2(3) queue_inv_cong [of ?s3 s2] by simp
    moreover have "room ?s3 (add_mset req G)" using r s2(4) by (simp add: room_def r3)
    moreover have "grants_inv ?s3 (add_mset req G) (ExclusiveAll \<in># requests ?s3)"
    proof (cases ?last)
      case True
      then have "ExclusiveAll \<in># requests s" using s2(4) by simp
      moreover have "grants_inv s2 (add_mset req G) (ExclusiveAll \<in># requests s)" using s1(9,3) s2(5,7,8) grants_inv_cong [of s2 s1] by simp
      moreover from this have "trivial_leases_granted s2 + 1 < u64_bound"
        using True r \<open>ExclusiveAll \<in># requests s\<close> by (simp add: grants_inv_def room_def)
      ultimately show ?thesis using True r3 by (auto simp: grants_inv_def fetch_add_1_small)
    next
      case False
      then have "(ExclusiveAll \<in># requests s2) = (ExclusiveAll \<in># requests s)" using s2(4) by auto
      then show ?thesis unfolding r3 using False s1(9,3) s2(5,7,8) grants_inv_cong [of s2 s1] by auto
    qed
    ultimately show "sem_inv ?s3 (add_mset req G)" by (simp add: sem_inv_def)
    have sub: "subseq (take i (queue s) @ drop (Suc i) (queue s)) (queue s)"
      using i by (subst (3) id_take_nth_drop [OF i]) (auto intro: list_emb_append_mono)
    have "e = queue s ! i" if "e \<in> set (queue s) - set (take i (queue s) @ drop (Suc i) (queue s))" for e
      using that by (subst (asm) (1) id_take_nth_drop [OF i]) auto
    then show "woken_up s ?s3" using sub s2(2,5,6,9) w(5) by (auto simp: woken_up_def split: option.splits)
    show "skipped ?s3 i" using skip s1(8) s2(2,5,7) i unfolding skipped_def by (fastforce simp: nth_append)
    show "i \<le> length (queue ?s3)" using i s2(2) by auto
  qed
qed

lemma skipped_head:
  assumes "skipped s i" "i \<le> length (queue s)"
    "i < length (queue s) \<Longrightarrow> \<not> failed_request (max_leases s) (leases_requested (queue s ! i)) \<and> \<not> grantable s (leases_requested (queue s ! i))"
  shows "head_blocked s"
proof -
  let ?P = "\<lambda>e. \<not> failed_request (max_leases s) (leases_requested e)"
  have live: "live s = filter ?P (take i (queue s)) @ filter ?P (drop i (queue s))"
    unfolding live_def by (metis append_take_drop_id filter_append)
  have before: "\<not> grantable s (leases_requested e)" if "e \<in> set (take i (queue s))" for e
    using that assms(1,2) by (fastforce simp: in_set_conv_nth skipped_def grantable_def)
  show ?thesis
  proof (cases "filter ?P (take i (queue s))")
    case (Cons e es)
    then have "e \<in> set (take i (queue s))" using filter_eq_ConsD [OF Cons] by auto
    then show ?thesis using before Cons by (simp add: head_blocked_def live)
  next
    case Nil
    show ?thesis
    proof (cases "i < length (queue s)")
      case True
      then have "live s = queue s ! i # filter ?P (drop (Suc i) (queue s))"
        using assms(3) unfolding live Nil by (simp add: Cons_nth_drop_Suc [symmetric])
      then show ?thesis using assms(3) [OF True] by (simp add: head_blocked_def)
    next
      case False
      then show ?thesis unfolding head_blocked_def live Nil by simp
    qed
  qed
qed

lemma skipped_trivial:
  assumes "skipped s i"
    "i < length (queue s) \<Longrightarrow> leases_requested (queue s ! i) = ExclusiveAll \<or> is_exclusive_all_granted s \<or> TrivialLease \<notin># requests s"
  shows "trivial_blocked s"
proof -
  have before: "i \<le> j" if "j < length (queue s)" "leases_requested (queue s ! j) = TrivialLease" for j
    using assms(1) that by (auto simp: skipped_def not_less [symmetric])
  moreover have "TrivialLease \<in># requests s" if "j < length (queue s)" "leases_requested (queue s ! j) = TrivialLease" for j
    using that by (force simp: requests_def in_set_conv_nth)
  moreover have "i \<noteq> j" if "leases_requested (queue s ! i) = ExclusiveAll" "leases_requested (queue s ! j) = TrivialLease" for j
    using that by auto
  ultimately show ?thesis using assms(2) unfolding trivial_blocked_def by (metis le_neq_implies_less order_le_less_trans)
qed

lemma wake_loop_spec:
  assumes "sem_inv s G" "i \<le> length (queue s)" "skipped s i"
  shows "\<exists>s' G'. wake_loop s i = Ok s' \<and> sem_inv s' G' \<and> G' + requests s' = G + requests s \<and> woken_up s s'
    \<and> head_blocked s' \<and> trivial_blocked s'"
  using assms
proof (induction "length (queue s) - i" arbitrary: s i G rule: less_induct)
  case less
  have q: "queue_inv s" and g: "grants_inv s G (ExclusiveAll \<in># requests s)" and r: "room s G" using less.prems(1) by (simp_all add: sem_inv_def)
  note loop = wake_loop.simps [of s i]
  have next_entry: ?case if "wake_loop s i = wake_loop s (i + 1)" "i < length (queue s)" "skipped s (i + 1)"
    using less.hyps [of s "i + 1" G] less.prems(1) that by simp
  show ?case
  proof (cases "i < length (queue s)")
    case False
    then show ?thesis using less.prems skipped_head [of s i] skipped_trivial [of s i] loop by auto
  next
    case i: True
    define req where "req = leases_requested (queue s ! i)"
    note loop = loop [folded req_def]
    have mem: "req \<in># requests s" using i by (auto simp: requests_def req_def)
    show ?thesis
    proof (cases "failed_request (max_leases s) req")
      case True
      then have "skipped s (i + 1)" using less.prems(3) by (auto simp: skipped_def failed_request_def req_def less_Suc_eq split: lease_grant_count.splits)
      then show ?thesis using next_entry i True loop by simp
    next
      case live: False
      show ?thesis
      proof (cases "grantable s req")
        case True
        from grant_entry_spec [OF less.prems(1) i req_def live True less.prems(3)] obtain s1 s2 s3 where
          s3: "try_grant_one s req = Ok (s1, True)" "remove_entry (wake_entry s1 i) i = Ok s2"
            "(if req = ExclusiveAll then acquire_exclusive_all_end s2 else Ok s2) = Ok s3" "sem_inv s3 (add_mset req G)"
            "requests s = add_mset req (requests s3)" "woken_up s s3" "skipped s3 i" "i \<le> length (queue s3)" .
        have "length (queue s) = Suc (length (queue s3))" using arg_cong [OF s3(5), of size] by (simp add: requests_def)
        then have "length (queue s3) - i < length (queue s) - i" using s3(8) by simp
        from less.hyps [OF this s3(4,8,7)] obtain s' G' where "wake_loop s3 i = Ok s'" "sem_inv s' G'"
          "G' + requests s' = add_mset req G + requests s3" "woken_up s3 s'" "head_blocked s'" "trivial_blocked s'" by blast
        then show ?thesis using loop i live s3(1,2,3,5) woken_up_trans [OF s3(6)] by (auto simp: Let_def)
      next
        case False
        then have grant: "try_grant_one s req = Ok (s, False)"
        proof (cases "req = TrivialLease")
          case True
          then show ?thesis using False by (simp add: try_grant_one_def grantable_def)
        next
          case other: False
          have "req \<noteq> Leases 0" using q mem by (auto simp: queue_inv_def)
          then show ?thesis using try_grant_one_spec [OF g live] other False by metis
        qed
        show ?thesis
        proof (cases "req \<noteq> ExclusiveAll \<and> \<not> is_exclusive_all_granted s \<and> TrivialLease \<in># requests s")
          case True
          then obtain n where "req = Leases n" using False by (cases req) (auto simp: grantable_def)
          then have "skipped s (i + 1)" using less.prems(3) False by (auto simp: skipped_def grantable_def req_def less_Suc_eq)
          then show ?thesis using next_entry i live loop grant True has_waiters_Ok(1) [OF q] by (simp add: Let_def)
        next
          case stop: False
          then have "wake_loop s i = Ok s" using i live loop grant has_waiters_Ok(1) [OF q] by (auto simp: Let_def)
          then show ?thesis using less.prems skipped_head [of s i] skipped_trivial [of s i] live False stop by (auto simp: req_def)
        qed
      qed
    qed
  qed
qed

section \<open>The operations\<close>

lemma live_update [simp]: "live (s\<lparr>trivial_leases_granted := t\<rparr>) = live s" "live (s\<lparr>leases_granted := n\<rparr>) = live s"
  by (simp_all add: live_def)

text \<open>Only an exclusive request can be at the head of the queue without being blocked, when the last trivial lease has just been returned.\<close>

definition head_ok :: "sem_state \<Rightarrow> bool" where
  "head_ok s \<longleftrightarrow> head_blocked s \<or> (\<exists>e es. live s = e # es \<and> leases_requested e = ExclusiveAll)"

definition settled :: "sem_state \<Rightarrow> bool" where
  "settled s \<longleftrightarrow> trivial_blocked s \<and> head_ok s"

lemma blocked_settled: "head_blocked s \<Longrightarrow> trivial_blocked s \<Longrightarrow> settled s"
  by (simp add: settled_def head_ok_def)

lemma exclusive_blocked:
  assumes "is_exclusive_all_granted s" "queue_inv s"
  shows "head_blocked s" "trivial_blocked s" "settled s"
proof -
  show "head_blocked s" using assms(1)
    by (auto simp: head_blocked_def grantable_def is_exclusive_all_granted_def split: list.split lease_grant_count.split)
  moreover show "trivial_blocked s" using assms(1) by (simp add: trivial_blocked_def)
  ultimately show "settled s" by (rule blocked_settled)
qed

lemma live_mem: "live s = e # es \<Longrightarrow> leases_requested e \<in># requests s \<and> \<not> failed_request (max_leases s) (leases_requested e)"
  unfolding live_def by (drule filter_eq_ConsD) (auto simp: requests_def)

lemma settled_grants:
  assumes "sem_inv s G" "settled s" "G \<noteq> {#}"
  shows "head_blocked s"
proof (rule ccontr)
  assume nb: "\<not> head_blocked s"
  then obtain e es where "live s = e # es" "leases_requested e = ExclusiveAll" using assms(2) by (auto simp: settled_def head_ok_def)
  then have "leases_granted s = 0" "trivial_leases_granted s = 0" using nb by (auto simp: head_blocked_def grantable_def)
  then show False using no_grants(1) assms(1,3) by (auto simp: sem_inv_def)
qed

lemma wake_completed_waiters_spec:
  assumes "sem_inv s G"
  obtains s' G' where "wake_completed_waiters s = Ok s'" "sem_inv s' G'" "G' + requests s' = G + requests s" "woken_up s s'"
    "head_blocked s'" "settled s'"
proof -
  have "skipped s 0" by (simp add: skipped_def)
  from wake_loop_spec [OF assms _ this] obtain s' G' where "wake_loop s 0 = Ok s'" "sem_inv s' G'" "G' + requests s' = G + requests s"
    "woken_up s s'" "head_blocked s'" "trivial_blocked s'" by auto
  then show thesis using that [of s' G'] blocked_settled by (simp add: wake_completed_waiters_def)
qed

text \<open>What is visible to the holders of the other grants and to the other waiters.\<close>

definition evolves :: "sem_state \<Rightarrow> sem_state \<Rightarrow> bool" where
  "evolves s s' \<longleftrightarrow> last_waiter_id s' = last_waiter_id s
     \<and> (\<forall>e' \<in> set (queue s'). \<exists>e \<in> set (queue s). waiter_id e = waiter_id e' \<and> leases_requested e = leases_requested e')"

lemma evolves_refl [simp]: "evolves s s" by (auto simp: evolves_def)

lemma woken_up_evolves: "woken_up s s' \<Longrightarrow> evolves s s'"
  by (auto simp: woken_up_def evolves_def elim: list_emb_set)

lemma evolves_trans: "evolves s t \<Longrightarrow> evolves t u \<Longrightarrow> evolves s u"
  unfolding evolves_def by metis

lemma evolves_queue: "queue s' = queue s \<Longrightarrow> last_waiter_id s' = last_waiter_id s \<Longrightarrow> evolves s s'"
  by (auto simp: evolves_def)

lemma return_trivial_spec:
  assumes inv: "sem_inv s G" and mem: "TrivialLease \<in># G"
  obtains s' wake where "return_trivial_lease_grant s = (s', wake)" "sem_inv s' (G - {#TrivialLease#})" "requests s' = requests s"
    "s' = s\<lparr>trivial_leases_granted := trivial_leases_granted s - 1\<rparr>"
    "wake \<longleftrightarrow> trivial_leases_granted s = 1 \<and> leases_granted s = 0"
proof -
  let ?s = "s\<lparr>trivial_leases_granted := trivial_leases_granted s - 1\<rparr>"
  have g: "grants_inv s G (ExclusiveAll \<in># requests s)" using inv by (simp add: sem_inv_def)
  from mem obtain G0 where G0: "G = add_mset TrivialLease G0" by (meson mset_add)
  have pos: "trivial_leases_granted s \<noteq> 0" using g by (simp add: grants_inv_def G0)
  have r: "requests ?s = requests s" by (simp add: requests_def)
  have "sem_inv ?s (G - {#TrivialLease#})"
    using inv queue_inv_cong [of ?s s] unfolding sem_inv_def r by (auto simp: grants_inv_def G0 room_def r split: if_splits)
  then show thesis using pos r by (intro that [of ?s]) (auto simp: return_trivial_lease_grant_def Let_def fetch_sub_1_def)
qed

text \<open>Changes of the counters alone.\<close>

lemma counters_live:
  assumes "queue s' = queue s" "max_leases s' = max_leases s"
  shows "live s' = live s" "requests s' = requests s"
  using assms by (simp_all add: live_def requests_def)

lemma trivial_blocked_cong:
  assumes "queue s' = queue s" "trivial_blocked s" "is_exclusive_all_granted s \<Longrightarrow> is_exclusive_all_granted s'"
  shows "trivial_blocked s'"
  using assms by (auto simp: trivial_blocked_def)

lemma return_grant_spec:
  assumes inv: "sem_inv s G" and mem: "r \<in># G" and st: "settled s"
  obtains s' G' where "return_grant s r = Ok s'" "sem_inv s' G'" "add_mset r (G' + requests s') = G + requests s" "evolves s s'"
    "head_blocked s'" "settled s'"
proof -
  note result = that
  from mem obtain G0 where G0: "G = add_mset r G0" by (meson mset_add)
  have g: "grants_inv s G (ExclusiveAll \<in># requests s)" and q: "queue_inv s" and room: "room s G" using inv by (simp_all add: sem_inv_def)
  have woken: thesis if sem: "sem_inv s0 G0" and run: "return_grant s r = wake_completed_waiters s0" and s0: "queue s0 = queue s" "last_waiter_id s0 = last_waiter_id s" for s0
  proof -
    from wake_completed_waiters_spec [OF sem] obtain s' G' where w: "wake_completed_waiters s0 = Ok s'" "sem_inv s' G'"
      "G' + requests s' = G0 + requests s0" "woken_up s0 s'" "head_blocked s'" "settled s'" .
    have "requests s0 = requests s" using s0(1) by (simp add: requests_def)
    then show thesis using result [of s' G'] w run G0 evolves_trans [OF evolves_queue [OF s0] woken_up_evolves [OF w(4)]] by simp
  qed
  show thesis
  proof (cases r)
    case TrivialLease
    then have "TrivialLease \<in># G" using mem by simp
    from return_trivial_spec [OF inv this] obtain s0 wake where s0: "return_trivial_lease_grant s = (s0, wake)"
      "sem_inv s0 (G - {#TrivialLease#})" "requests s0 = requests s" "s0 = s\<lparr>trivial_leases_granted := trivial_leases_granted s - 1\<rparr>"
      "wake \<longleftrightarrow> trivial_leases_granted s = 1 \<and> leases_granted s = 0" .
    have sem: "sem_inv s0 G0" using s0(2) by (simp add: G0 TrivialLease)
    show thesis
    proof (cases wake)
      case True
      then show thesis using woken [OF sem] s0(1,4) by (simp add: return_grant_def TrivialLease)
    next
      case False
      then have run: "return_grant s r = Ok s0" using s0(1) by (simp add: return_grant_def TrivialLease)
      have hb: "head_blocked s" using settled_grants [OF inv st] G0 by simp
      have live: "live s0 = live s" using counters_live [of s0 s] s0(4) by simp
      have "head_blocked s0"
      proof (cases "live s")
        case (Cons e es)
        have "trivial_leases_granted s \<noteq> 0" using g by (auto simp: grants_inv_def G0 TrivialLease)
        then show ?thesis using hb False s0(4,5) by (auto simp: head_blocked_def live Cons grantable_def is_exclusive_all_granted_def split: lease_grant_count.splits)
      qed (simp add: head_blocked_def live)
      moreover have "trivial_blocked s0" using st s0(4) by (intro trivial_blocked_cong [of s0 s]) (auto simp: settled_def is_exclusive_all_granted_def)
      moreover have "evolves s s0" using s0(4) by (intro evolves_queue) simp_all
      ultimately show thesis using result [of s0 G0] run sem G0 s0(3) blocked_settled by simp
    qed
  next
    case (Leases n)
    let ?s = "s\<lparr>leases_granted := leases_granted s - n\<rparr>"
    have no: "ExclusiveAll \<notin># G" using g by (auto simp: grants_inv_def G0 Leases split: if_splits)
    have r: "requests ?s = requests s" by (simp add: requests_def)
    have "sem_inv ?s G0" using q g room no queue_inv_cong [of ?s s] unfolding sem_inv_def r
      by (auto simp: grants_inv_def G0 Leases room_def r split: if_splits)
    moreover have "n \<le> leases_granted s" using g no by (auto simp: grants_inv_def G0 Leases)
    ultimately show thesis using woken [of ?s] by (simp add: return_grant_def Leases)
  next
    case ExclusiveAll
    let ?s = "s\<lparr>leases_granted := 0\<rparr>"
    have G: "G0 = {#}" "leases_granted s = max_leases s + 1" using g by (auto simp: grants_inv_def G0 ExclusiveAll)
    have r: "requests ?s = requests s" by (simp add: requests_def)
    have "sem_inv ?s G0" using q g room queue_inv_cong [of ?s s] unfolding sem_inv_def r
      by (auto simp: grants_inv_def G0 G(1) ExclusiveAll room_def r split: if_splits)
    moreover have "is_exclusive_all_granted s" using G(2) by (simp add: is_exclusive_all_granted_def)
    ultimately show thesis using woken [of ?s] by (simp add: return_grant_def ExclusiveAll)
  qed
qed

text \<open>A waiter at position \<open>i\<close> leaves the queue.\<close>

lemma live_remove:
  assumes "i < length (queue s)" "queue s' = take i (queue s) @ drop (Suc i) (queue s)" "max_leases s' = max_leases s"
  obtains xs ys where "live s = xs @ (if failed_request (max_leases s) (leases_requested (queue s ! i)) then [] else [queue s ! i]) @ ys"
    "live s' = xs @ ys"
proof -
  let ?P = "\<lambda>e. \<not> failed_request (max_leases s) (leases_requested e)"
  have "live s = filter ?P (take i (queue s)) @ filter ?P [queue s ! i] @ filter ?P (drop (Suc i) (queue s))"
    unfolding live_def by (subst id_take_nth_drop [OF assms(1)]) simp
  then show thesis using assms(2,3) by (intro that [of "filter ?P (take i (queue s))" "filter ?P (drop (Suc i) (queue s))"]) (auto simp: live_def)
qed

lemma position_of_Some: "position_of wid es = Some i \<Longrightarrow> i < length es \<and> waiter_id (es ! i) = wid"
  by (induction es arbitrary: i) (auto split: if_splits)

lemma position_of_None: "position_of wid es = None \<longleftrightarrow> wid \<notin> waiter_id ` set es"
  by (induction es) auto

lemma grantable_cong:
  "max_leases s' = max_leases s \<Longrightarrow> leases_granted s' = leases_granted s \<Longrightarrow> trivial_leases_granted s' = trivial_leases_granted s
    \<Longrightarrow> grantable s' r = grantable s r"
  by (simp add: grantable_def is_exclusive_all_granted_def split: lease_grant_count.split)

lemma remove_evolves:
  assumes "queue s' = take i (queue s) @ drop (Suc i) (queue s)" "last_waiter_id s' = last_waiter_id s"
  shows "evolves s s'"
  using assms by (auto simp: evolves_def dest: in_set_takeD in_set_dropD)

text \<open>Removing an entry that is no exclusive request, without waking anybody.\<close>

lemma remove_quiet:
  assumes st: "settled s" and i: "i < length (queue s)" and q: "queue s' = take i (queue s) @ drop (Suc i) (queue s)"
    and same: "max_leases s' = max_leases s" "leases_granted s' = leases_granted s" "trivial_leases_granted s' = trivial_leases_granted s"
    and req: "leases_requested (queue s ! i) \<noteq> ExclusiveAll"
    and next_blocked: "\<And>e es. live s = queue s ! i # e # es \<Longrightarrow> head_blocked s \<Longrightarrow> \<not> grantable s (leases_requested e)"
  shows "settled s'" "head_blocked s \<Longrightarrow> head_blocked s'"
proof -
  note grant = grantable_cong [of s' s, OF same]
  from live_remove [OF i q same(1)] obtain xs ys where l: "live s = xs @ (if failed_request (max_leases s) (leases_requested (queue s ! i)) then [] else [queue s ! i]) @ ys"
    "live s' = xs @ ys" .
  show hb: "head_blocked s'" if "head_blocked s"
    using that l next_blocked by (cases xs; cases ys) (auto simp: head_blocked_def grant split: if_splits)
  have "head_ok s'"
  proof (cases "head_blocked s")
    case False
    then obtain e es where "live s = e # es" "leases_requested e = ExclusiveAll" using st by (auto simp: settled_def head_ok_def)
    then show ?thesis using l req by (cases xs) (auto simp: head_ok_def split: if_splits)
  qed (simp add: head_ok_def hb)
  moreover have "trivial_blocked s'"
  proof (cases "is_exclusive_all_granted s")
    case True
    then show ?thesis using same by (simp add: trivial_blocked_def is_exclusive_all_granted_def)
  next
    case False
    have nth: "queue s' ! j = queue s ! (if j < i then j else Suc j)" if "j < length (queue s')" for j
      using that i by (auto simp: q nth_append min_def)
    show ?thesis unfolding trivial_blocked_def
    proof (intro disjI2 allI impI)
      fix j assume j: "j < length (queue s')" "leases_requested (queue s' ! j) = TrivialLease"
      let ?j = "if j < i then j else Suc j"
      have "?j < length (queue s)" "leases_requested (queue s ! ?j) = TrivialLease" using j i nth by (auto simp: q)
      then obtain k where k: "k < ?j" "leases_requested (queue s ! k) = ExclusiveAll"
        using st False by (auto simp: settled_def trivial_blocked_def)
      then have "k \<noteq> i" using req by auto
      then have "queue s' ! (if k < i then k else k - 1) = queue s ! k" "(if k < i then k else k - 1) < j"
        using k(1) j(1) by (auto simp: nth split: if_splits)
      then show "\<exists>k<j. leases_requested (queue s' ! k) = ExclusiveAll" using k(2) by metis
    qed
  qed
  ultimately show "settled s'" by (simp add: settled_def)
qed

end
