(* ===== verification/Async_Semaphore_Ops.thy ===== *)
theory Async_Semaphore_Ops
  imports Async_Semaphore_Inv
begin

text \<open>
  What every operation of the semaphore does to a state that fulfils the invariant: it does not panic, it
  keeps the invariant, and it leaves no waiter in the queue that could be granted his request.
\<close>

section \<open>Cancelling\<close>

lemma request_mem: "j < length (queue s) \<Longrightarrow> leases_requested (queue s ! j) = r \<Longrightarrow> r \<in># requests s"
  by (auto simp: requests_def)

lemma filter_split: "filter P q = xs @ ys \<Longrightarrow> \<exists>q1 q2. q = q1 @ q2 \<and> filter P q1 = xs \<and> filter P q2 = ys"
proof (induction q arbitrary: xs)
  case (Cons x q)
  show ?case
  proof (cases "xs = []")
    case True
    then show ?thesis using Cons.prems by (intro exI [of _ "[]"] exI [of _ "x # q"]) simp
  next
    case False
    define xs' where "xs' = (if P x then tl xs else xs)"
    have "filter P q = xs' @ ys" using Cons.prems False by (cases xs) (auto simp: xs'_def split: if_splits)
    from Cons.IH [OF this] obtain q1 q2 where "q = q1 @ q2" "filter P q1 = xs'" "filter P q2 = ys" by blast
    then show ?thesis using Cons.prems False by (intro exI [of _ "x # q1"] exI [of _ q2]) (cases xs, auto simp: xs'_def split: if_splits)
  qed
qed simp

lemma trivial_behind_exclusive:
  assumes "trivial_blocked s" "\<not> is_exclusive_all_granted s" "live s = xs @ e # ys" "leases_requested e = TrivialLease"
  shows "ExclusiveAll \<in> leases_requested ` set xs"
proof -
  let ?P = "\<lambda>e. \<not> failed_request (max_leases s) (leases_requested e)"
  have "filter ?P (queue s) = xs @ e # ys" using assms(3) by (simp add: live_def)
  then obtain q1 q2 where q: "queue s = q1 @ q2" "filter ?P q1 = xs" "filter ?P q2 = e # ys" using filter_split by metis
  from filter_eq_ConsD [OF q(3)] obtain us vs where u: "q2 = us @ e # vs" "\<forall>u \<in> set us. \<not> ?P u" by blast
  have "queue s = (q1 @ us) @ e # vs" using q(1) u(1) by simp
  then have j: "length (q1 @ us) < length (queue s)" "queue s ! length (q1 @ us) = e" by (simp_all add: nth_append)
  then obtain k where k: "k < length (q1 @ us)" "leases_requested (queue s ! k) = ExclusiveAll"
    using assms(1,2,4) unfolding trivial_blocked_def by metis
  have "queue s ! k = (q1 @ us) ! k" using k(1) \<open>queue s = (q1 @ us) @ e # vs\<close> by (simp add: nth_append)
  then have "queue s ! k \<in> set (q1 @ us)" using k(1) by (metis nth_mem)
  moreover have "?P (queue s ! k)" using k(2) by (simp add: failed_request_def)
  ultimately have "queue s ! k \<in> set xs" using u(2) q(2) by auto
  then show ?thesis using k(2) by force
qed

lemma inv_remove:
  assumes inv: "sem_inv s G" and i: "i < length (queue s)" and r: "leases_requested (queue s ! i) = r"
  obtains s' where "remove_entry s i = Ok s'" "queue s' = take i (queue s) @ drop (Suc i) (queue s)" "queue_inv s'"
    "requests s = add_mset r (requests s')" "max_leases s' = max_leases s" "last_waiter_id s' = last_waiter_id s"
    "leases_granted s' = leases_granted s" "trivial_leases_granted s' = trivial_leases_granted s"
    "room s' G" "grants_inv s' G (ExclusiveAll \<in># requests s)" "r \<noteq> ExclusiveAll \<Longrightarrow> sem_inv s' G"
proof -
  have q: "queue_inv s" using inv by (simp add: sem_inv_def)
  from remove_entry_spec [OF q i] obtain s' where s': "remove_entry s i = Ok s'" "queue s' = take i (queue s) @ drop (Suc i) (queue s)" "queue_inv s'"
    "requests s = add_mset r (requests s')" "max_leases s' = max_leases s" "last_waiter_id s' = last_waiter_id s"
    "leases_granted s' = leases_granted s" "trivial_leases_granted s' = trivial_leases_granted s" unfolding r by blast
  have room: "room s' G" using inv s'(4) by (auto simp: sem_inv_def room_def split: if_splits)
  have grants: "grants_inv s' G (ExclusiveAll \<in># requests s)" using inv grants_inv_cong [OF s'(5,7,8)] by (simp add: sem_inv_def)
  show thesis using s' room grants by (intro that [of s']) (auto simp: sem_inv_def)
qed

lemma cancel_waiter_spec:
  assumes inv: "sem_inv s G" and st: "settled s" and pos: "waiter_position s wid = Some i" and r: "leases_requested (queue s ! i) = r"
  obtains s' G' where "cancel_waiter s wid r = Ok s'" "sem_inv s' G'" "add_mset r (G' + requests s') = G + requests s" "evolves s s'"
    "wid \<notin> waiter_id ` set (queue s')" "head_blocked s \<Longrightarrow> head_blocked s'" "settled s'"
proof -
  note result = that
  have i: "i < length (queue s)" "waiter_id (queue s ! i) = wid" using position_of_Some pos by (simp_all add: waiter_position_def)
  have q: "queue_inv s" and g: "grants_inv s G (ExclusiveAll \<in># requests s)" using inv by (simp_all add: sem_inv_def)
  obtain s1 where s1: "remove_entry s i = Ok s1" "queue s1 = take i (queue s) @ drop (Suc i) (queue s)" "queue_inv s1"
    "requests s = add_mset r (requests s1)" "max_leases s1 = max_leases s" "last_waiter_id s1 = last_waiter_id s"
    "leases_granted s1 = leases_granted s" "trivial_leases_granted s1 = trivial_leases_granted s"
    and room: "room s1 G" and grants: "grants_inv s1 G (ExclusiveAll \<in># requests s)" and sem: "r \<noteq> ExclusiveAll \<Longrightarrow> sem_inv s1 G"
    by (rule inv_remove [OF inv i(1) r]) blast
  have ev: "evolves s s1" using remove_evolves [OF s1(2,6)] .
  have gone: "wid \<notin> waiter_id ` set (queue s1)"
  proof -
    have "distinct (map waiter_id (take i (queue s) @ queue s ! i # drop (Suc i) (queue s)))"
      using q id_take_nth_drop [OF i(1)] by (metis queue_inv_def)
    then show ?thesis using i(2) by (auto simp: s1(2))
  qed
  have gone_later: "wid \<notin> waiter_id ` set (queue s')" if "evolves s1 s'" for s'
    using gone that unfolding evolves_def image_iff by metis
  have quiet: thesis if run: "cancel_waiter s wid r = Ok s1" and ne: "r \<noteq> ExclusiveAll"
    and nb: "\<And>e es. live s = queue s ! i # e # es \<Longrightarrow> head_blocked s \<Longrightarrow> \<not> grantable s (leases_requested e)"
    using result [of s1 G] run sem [OF ne] s1(4) ev gone remove_quiet [OF st i(1) s1(2,5,7,8) _ nb] r ne by simp
  have woken: thesis if sem2: "sem_inv s2 G" and run: "cancel_waiter s wid r = wake_completed_waiters s2"
    and s2: "queue s2 = queue s1" "last_waiter_id s2 = last_waiter_id s1" for s2
  proof -
    from wake_completed_waiters_spec [OF sem2] obtain s' G' where w: "wake_completed_waiters s2 = Ok s'" "sem_inv s' G'"
      "G' + requests s' = G + requests s2" "woken_up s2 s'" "head_blocked s'" "settled s'" .
    have "requests s2 = requests s1" using s2(1) by (simp add: requests_def)
    moreover have ev': "evolves s1 s'" using evolves_trans [OF evolves_queue [OF s2] woken_up_evolves [OF w(4)]] .
    ultimately show thesis using result [of s' G'] w run s1(4) gone_later [OF ev'] evolves_trans [OF ev ev'] by simp
  qed
  show thesis
  proof (cases r)
    case TrivialLease
    have ex: "is_exclusive_all_granted s1 \<or> ExclusiveAll \<in># requests s1"
    proof (cases "is_exclusive_all_granted s")
      case False
      then obtain k where "k < i" "leases_requested (queue s ! k) = ExclusiveAll"
        using st i(1) r TrivialLease by (auto simp: settled_def trivial_blocked_def)
      then have "ExclusiveAll \<in># requests s" using i(1) request_mem [of k s] by simp
      then show ?thesis using s1(4) TrivialLease by simp
    qed (use s1(5,7) in \<open>simp add: is_exclusive_all_granted_def\<close>)
    have "cancel_waiter s wid r = Ok s1"
      using pos s1(1) ex has_waiters_Ok(2) [OF s1(3)] by (auto simp: cancel_waiter_def TrivialLease)
    then show thesis
    proof (rule quiet)
      fix e es assume l: "live s = queue s ! i # e # es" and hb: "head_blocked s"
      then have "is_exclusive_all_granted s" using r TrivialLease by (simp add: head_blocked_def grantable_def)
      then show "\<not> grantable s (leases_requested e)"
        by (auto simp: grantable_def is_exclusive_all_granted_def split: lease_grant_count.split)
    qed (simp add: TrivialLease)
  next
    case (Leases n)
    show thesis
    proof (cases "1 < n")
      case True
      then show thesis using woken [of s1] sem pos s1(1) by (simp add: cancel_waiter_def Leases)
    next
      case False
      have "n \<noteq> 0" using q s1(4) by (auto simp: queue_inv_def Leases)
      then have n: "n = 1" using False by simp
      have "cancel_waiter s wid r = Ok s1" using pos s1(1) by (simp add: cancel_waiter_def Leases n)
      then show thesis
      proof (rule quiet)
        fix e es assume l: "live s = queue s ! i # e # es" and hb: "head_blocked s"
        have lg: "max_leases s < leases_granted s + 1" using hb l r by (simp add: head_blocked_def grantable_def Leases n)
        have max: "1 \<le> max_leases s" using live_mem [OF l] r by (simp add: failed_request_def Leases n)
        have e: "leases_requested e \<in># requests s" using arg_cong [OF l, of set] by (auto simp: live_def requests_def)
        show "\<not> grantable s (leases_requested e)"
        proof (cases "leases_requested e")
          case TrivialLease
          have "ExclusiveAll \<notin> leases_requested ` set [queue s ! i]" using r Leases by simp
          then have "is_exclusive_all_granted s"
            using trivial_behind_exclusive [of s "[queue s ! i]" e es] st l TrivialLease by (auto simp: settled_def)
          then show ?thesis by (simp add: grantable_def TrivialLease)
        next
          case (Leases m)
          then have "m \<noteq> 0" using e q by (cases m) (auto simp: queue_inv_def)
          then show ?thesis using lg by (simp add: grantable_def Leases)
        next
          case ExclusiveAll
          then show ?thesis using lg max by (simp add: grantable_def)
        qed
      qed (simp add: Leases)
    qed
  next
    case ExclusiveAll
    let ?last = "ExclusiveAll \<notin># requests s1"
    let ?s2 = "if ?last then s1\<lparr>trivial_leases_granted := fetch_add_1 (trivial_leases_granted s1)\<rparr> else s1"
    have armed: "ExclusiveAll \<in># requests s" using s1(4) ExclusiveAll by simp
    have "sem_inv ?s2 G"
    proof (cases ?last)
      case True
      have "trivial_leases_granted s1 + 1 < u64_bound" using grants armed room by (auto simp: grants_inv_def room_def)
      then show ?thesis using True grants armed room s1(3) queue_inv_cong [of ?s2 s1]
        by (auto simp: sem_inv_def grants_inv_def room_def fetch_add_1_small)
    next
      case False
      then show ?thesis using grants armed room s1(3) by (simp add: sem_inv_def)
    qed
    moreover have "cancel_waiter s wid r = wake_completed_waiters ?s2"
      using pos s1(1) has_waiters_Ok(2) [OF s1(3)] by (simp add: cancel_waiter_def ExclusiveAll acquire_exclusive_all_end_def)
    ultimately show thesis using woken [of ?s2] by simp
  qed
qed

section \<open>Acquiring\<close>

lemma no_live: "\<not> has_uncancelled_waiters s \<longleftrightarrow> live s = []"
  by (auto simp: has_uncancelled_waiters_def live_def list_ex_iff failed_request_def filter_empty_conv split: lease_grant_count.splits)

lemma exclusive_live: "ExclusiveAll \<in># requests s \<Longrightarrow> live s \<noteq> []"
  by (auto simp: requests_def live_def filter_empty_conv failed_request_def intro!: bexI)

lemma request_from: "lease_grant_count_from n \<noteq> Leases 0" "lease_grant_count_from n = TrivialLease \<longleftrightarrow> n = 0" "lease_grant_count_from n \<noteq> ExclusiveAll"
  by (simp_all add: lease_grant_count_from_def)

lemma requests_enqueue [simp]: "requests (s\<lparr>queue := queue s @ [e]\<rparr>) = add_mset (leases_requested e) (requests s)"
  by (simp add: requests_def)

definition roomy :: "sem_state \<Rightarrow> lease_grant_count multiset \<Rightarrow> lease_grant_count \<Rightarrow> bool" where
  "roomy s G r \<longleftrightarrow> room s G \<and> (r = TrivialLease \<longrightarrow> count (G + requests s) TrivialLease + 2 < u64_bound)"

lemma roomy_add: "roomy s G r \<Longrightarrow> requests s' = requests s \<Longrightarrow> room s' (add_mset r G)"
  by (auto simp: roomy_def room_def)

text \<open>What acquiring a grant makes of it: it is handed out or waits at the end of the queue.\<close>

definition acquired :: "sem_state \<Rightarrow> lease_grant_count multiset \<Rightarrow> lease_grant_count \<Rightarrow> sem_state \<Rightarrow> nat option \<Rightarrow> bool" where
  "acquired s G r s' w \<longleftrightarrow> settled s' \<and> (head_blocked s \<longrightarrow> head_blocked s') \<and> max_leases s' = max_leases s
     \<and> (case w of
          None \<Rightarrow> sem_inv s' (add_mset r G) \<and> queue s' = queue s \<and> last_waiter_id s' = last_waiter_id s
        | Some wid \<Rightarrow> sem_inv s' G \<and> last_waiter_id s' = wid \<and> last_waiter_id s < wid
            \<and> queue s' = queue s @ [\<lparr>leases_requested = r, waker = None, waiter_id = wid\<rparr>])"

lemma head_blocked_if:
  assumes "head_blocked s" "live s' = live s" "\<And>e es. live s = e # es \<Longrightarrow> grantable s' (leases_requested e) \<Longrightarrow> grantable s (leases_requested e)"
  shows "head_blocked s'"
  using assms by (auto simp: head_blocked_def split: list.splits)

lemma try_acquire_leases_spec:
  assumes inv: "sem_inv s G" and st: "settled s" and room: "roomy s G (lease_grant_count_from n)" and n: "n \<le> max_leases s"
  obtains s' granted where "try_acquire_leases s n = Ok (s', Inr granted)" "granted \<Longrightarrow> acquired s G (lease_grant_count_from n) s' None"
    "\<not> granted \<Longrightarrow> s' = s" "\<not> granted \<Longrightarrow> n = 0 \<Longrightarrow> is_exclusive_all_granted s \<or> ExclusiveAll \<in># requests s"
    "\<not> granted \<Longrightarrow> n \<noteq> 0 \<Longrightarrow> live s \<noteq> [] \<or> \<not> grantable s (Leases n)"
proof -
  let ?r = "lease_grant_count_from n"
  have q: "queue_inv s" and g: "grants_inv s G (ExclusiveAll \<in># requests s)" using inv by (simp_all add: sem_inv_def)
  have live: "\<not> failed_request (max_leases s) ?r" using n by (simp add: failed_request_def lease_grant_count_from_def)
  have bound: "trivial_leases_granted s + 1 < u64_bound" if "?r = TrivialLease"
    using g room that by (auto simp: grants_inv_def roomy_def)
  obtain s1 where s1: "try_grant_one s ?r = Ok (s1, grantable s ?r)" "queue s1 = queue s" "max_leases s1 = max_leases s"
    "last_waiter_id s1 = last_waiter_id s" "enqueued_trivial_lease_waiters s1 = enqueued_trivial_lease_waiters s"
    "enqueued_exclusive_all_waiters s1 = enqueued_exclusive_all_waiters s"
    and ok: "grantable s ?r \<Longrightarrow> grants_inv s1 (add_mset ?r G) (ExclusiveAll \<in># requests s)" and no: "\<not> grantable s ?r \<Longrightarrow> s1 = s"
    by (rule try_grant_one_spec [OF g live request_from(1) bound]) blast+
  have rq: "requests s1 = requests s" using s1(2) by (simp add: requests_def)
  have inv1: "sem_inv s1 (add_mset ?r G)" if "grantable s ?r"
    using ok [OF that] q queue_inv_cong [of s1 s] s1(2-6) roomy_add [OF room rq] by (simp add: sem_inv_def rq)
  have lv: "live s1 = live s" using counters_live(1) [OF s1(2,3)] .
  show thesis
  proof (cases "n = 0")
    case True
    then have r: "?r = TrivialLease" by (simp add: lease_grant_count_from_def)
    show thesis
    proof (cases "ExclusiveAll \<in># requests s")
      case ex: True
      then show thesis using True has_waiters_Ok(2) [OF q]
        by (intro that [of s False]) (simp_all add: try_acquire_leases_def try_acquire_trivial_lease_locked_def)
    next
      case False
      have run: "try_acquire_leases s n = Ok (s1, Inr (grantable s TrivialLease))"
        using True False has_waiters_Ok(2) [OF q] s1(1) [unfolded r] by (simp add: try_acquire_leases_def try_acquire_trivial_lease_locked_def)
      have acq: "acquired s G TrivialLease s1 None" if gr: "grantable s TrivialLease"
      proof -
        have ne: "\<not> is_exclusive_all_granted s" using gr by (simp add: grantable_def)
        then have eq: "s1 = s\<lparr>trivial_leases_granted := fetch_add_1 (trivial_leases_granted s)\<rparr>"
          using s1(1) by (simp add: r try_grant_one_def)
        have noex: "leases_requested e \<noteq> ExclusiveAll" if "live s = e # es" for e es using live_mem [OF that] False by auto
        then have hb: "head_blocked s" using st by (auto simp: settled_def head_ok_def)
        then have "head_blocked s1" using lv
        proof (rule head_blocked_if)
          fix e es assume "live s = e # es" "grantable s1 (leases_requested e)"
          then show "grantable s (leases_requested e)" using noex by (cases "leases_requested e") (auto simp: eq grantable_def is_exclusive_all_granted_def)
        qed
        moreover have "trivial_blocked s1" using st ne by (intro trivial_blocked_cong [OF s1(2)]) (auto simp: settled_def)
        ultimately show ?thesis using inv1 gr s1(2-4) blocked_settled r by (simp add: acquired_def)
      qed
      show thesis using that [OF run] acq no r True by (auto simp: grantable_def)
    qed
  next
    case n0: False
    show thesis
    proof (cases "live s = []")
      case True
      have run: "try_acquire_leases s n = Ok (s1, Inr (grantable s ?r))"
        using n0 n True s1(1) by (simp add: try_acquire_leases_def no_live)
      have acq: "acquired s G ?r s1 None" if gr: "grantable s ?r"
      proof -
        have "\<not> is_exclusive_all_granted s" using gr n0 by (auto simp: grantable_def is_exclusive_all_granted_def lease_grant_count_from_def)
        then have "trivial_blocked s1" using st by (intro trivial_blocked_cong [OF s1(2)]) (auto simp: settled_def)
        moreover have "head_blocked s1" using True lv by (simp add: head_blocked_def)
        ultimately show ?thesis using inv1 gr s1(2-4) blocked_settled by (simp add: acquired_def)
      qed
      show thesis using that [OF run] acq no n0 by (auto simp: lease_grant_count_from_def)
    next
      case False
      then show thesis using n0 n by (intro that [of s False]) (simp_all add: try_acquire_leases_def no_live)
    qed
  qed
qed

text \<open>Appending a waiter that is blocked keeps the queue settled.\<close>

lemma enqueue_settled:
  assumes st: "settled s" and q: "queue s' = queue s @ [e]" and same: "max_leases s' = max_leases s"
    "leases_granted s' = leases_granted s" "trivial_leases_granted s' = trivial_leases_granted s"
    and head: "live s = [] \<Longrightarrow> \<not> failed_request (max_leases s) (leases_requested e) \<Longrightarrow> \<not> grantable s (leases_requested e)"
    and triv: "leases_requested e = TrivialLease \<Longrightarrow> is_exclusive_all_granted s \<or> ExclusiveAll \<in># requests s"
  shows "settled s'" "head_blocked s \<Longrightarrow> head_blocked s'"
proof -
  have lv: "live s' = live s @ (if failed_request (max_leases s) (leases_requested e) then [] else [e])" by (simp add: live_def q same(1))
  show hb: "head_blocked s'" if "head_blocked s"
    using that lv head by (cases "live s") (auto simp: head_blocked_def grantable_cong [OF same])
  have "head_ok s'"
  proof (cases "head_blocked s")
    case False
    then show ?thesis using st lv by (auto simp: settled_def head_ok_def)
  qed (simp add: head_ok_def hb)
  moreover have "trivial_blocked s'"
  proof (cases "is_exclusive_all_granted s")
    case True
    then show ?thesis by (simp add: trivial_blocked_def is_exclusive_all_granted_def same)
  next
    case False
    show ?thesis unfolding trivial_blocked_def
    proof (intro disjI2 allI impI)
      fix j assume j: "j < length (queue s')" "leases_requested (queue s' ! j) = TrivialLease"
      have ex: "\<exists>i<j. leases_requested (queue s ! i) = ExclusiveAll \<and> i < length (queue s)"
      proof (cases "j < length (queue s)")
        case True
        then show ?thesis using st False j(2) by (fastforce simp: settled_def trivial_blocked_def q nth_append)
      next
        case last: False
        then have "ExclusiveAll \<in># requests s" "j = length (queue s)" using triv False j by (auto simp: q nth_append not_less_less_Suc_eq)
        then obtain i where "i < length (queue s)" "leases_requested (queue s ! i) = ExclusiveAll"
          unfolding requests_def by (metis imageE in_set_conv_nth mset_map set_image_mset set_mset_mset)
        then show ?thesis using \<open>j = length (queue s)\<close> by blast
      qed
      then show "\<exists>i<j. leases_requested (queue s' ! i) = ExclusiveAll" by (auto simp: q nth_append)
    qed
  qed
  ultimately show "settled s'" by (simp add: settled_def)
qed

lemma queue_inv_enqueue:
  assumes "queue_inv s" "r \<noteq> Leases 0"
  shows "queue_inv (s\<lparr>last_waiter_id := last_waiter_id s + 1, queue := queue s @ [\<lparr>leases_requested = r, waker = None, waiter_id = last_waiter_id s + 1\<rparr>],
    enqueued_trivial_lease_waiters := enqueued_trivial_lease_waiters s + (if r = TrivialLease then 1 else 0),
    enqueued_exclusive_all_waiters := enqueued_exclusive_all_waiters s + (if r = ExclusiveAll then 1 else 0)\<rparr>)"
  using assms by (auto simp: queue_inv_def requests_def)

lemma prepare_acquire_leases_spec:
  assumes inv: "sem_inv s G" and st: "settled s" and room: "roomy s G (lease_grant_count_from n)" and n: "n \<le> max_leases s"
    and wid: "last_waiter_id s + 1 < u64_bound"
  shows "(\<exists>s' w. prepare_acquire_leases (\<lambda>s. s) True s n = Ok (s', Inr w) \<and> acquired s G (lease_grant_count_from n) s' w)"
proof -
  let ?r = "lease_grant_count_from n"
  have q: "queue_inv s" and g: "grants_inv s G (ExclusiveAll \<in># requests s)" using inv by (simp_all add: sem_inv_def)
  obtain s1 granted where attempt: "try_acquire_leases s n = Ok (s1, Inr granted)" and ok: "granted \<Longrightarrow> acquired s G ?r s1 None"
    and no: "\<not> granted \<Longrightarrow> s1 = s" and triv: "\<not> granted \<Longrightarrow> n = 0 \<Longrightarrow> is_exclusive_all_granted s \<or> ExclusiveAll \<in># requests s"
    and head: "\<not> granted \<Longrightarrow> n \<noteq> 0 \<Longrightarrow> live s \<noteq> [] \<or> \<not> grantable s (Leases n)"
    by (rule try_acquire_leases_spec [OF inv st room n]) blast
  show ?thesis
  proof (cases granted)
    case True
    then show ?thesis using attempt ok by (simp add: prepare_acquire_leases_def)
  next
    case False
    let ?e = "\<lparr>leases_requested = ?r, waker = None, waiter_id = last_waiter_id s + 1\<rparr>"
    let ?s = "s\<lparr>last_waiter_id := last_waiter_id s + 1, queue := queue s @ [?e],
      enqueued_trivial_lease_waiters := enqueued_trivial_lease_waiters s + (if ?r = TrivialLease then 1 else 0),
      enqueued_exclusive_all_waiters := enqueued_exclusive_all_waiters s + (if ?r = ExclusiveAll then 1 else 0)\<rparr>"
    have run: "prepare_acquire_leases (\<lambda>s. s) True s n = Ok (?s, Inr (Some (last_waiter_id s + 1)))"
      using attempt False no wid by (simp add: prepare_acquire_leases_def enqueue_waiter_def add_u64_def lease_grant_count_from_def)
    have rq: "requests ?s = add_mset ?r (requests s)" by (simp add: requests_def)
    have "sem_inv ?s G" unfolding sem_inv_def
    proof (intro conjI)
      show "queue_inv ?s" by (rule queue_inv_enqueue [OF q request_from(1)])
      have "(ExclusiveAll \<in># requests ?s) = (ExclusiveAll \<in># requests s)" using request_from(3) [of n] unfolding rq by auto
      then show "grants_inv ?s G (ExclusiveAll \<in># requests ?s)" using g grants_inv_cong [of ?s s] by simp
      show "room ?s G" using room unfolding room_def roomy_def rq by auto
    qed
    moreover have "settled ?s" "head_blocked s \<Longrightarrow> head_blocked ?s"
      using enqueue_settled [OF st, of ?s ?e] head triv False exclusive_live [of s]
      by (auto simp: request_from(2) grantable_def lease_grant_count_from_def)
    ultimately show ?thesis using run by (auto simp: acquired_def)
  qed
qed

text \<open>An exclusive request: the counter of trivial leases is armed first.\<close>

lemma begin_spec:
  assumes inv: "sem_inv s G" and st: "settled s"
  obtains s' where "acquire_exclusive_all_begin s = Ok s'" "grants_inv s' G True" "queue_inv s'" "room s' G" "queue s' = queue s"
    "max_leases s' = max_leases s" "leases_granted s' = leases_granted s" "last_waiter_id s' = last_waiter_id s"
    "enqueued_trivial_lease_waiters s' = enqueued_trivial_lease_waiters s" "enqueued_exclusive_all_waiters s' = enqueued_exclusive_all_waiters s"
    "settled s'" "head_blocked s \<Longrightarrow> head_blocked s'" "trivial_leases_granted s' = count G TrivialLease"
proof -
  have q: "queue_inv s" and g: "grants_inv s G (ExclusiveAll \<in># requests s)" and r: "room s G" using inv by (simp_all add: sem_inv_def)
  show thesis
  proof (cases "ExclusiveAll \<in># requests s")
    case True
    then have "trivial_leases_granted s = count G TrivialLease" "grants_inv s G True" using g by (auto simp: grants_inv_def)
    then show thesis using that [of s] q r st True has_waiters_Ok(2) [OF q] by (simp add: acquire_exclusive_all_begin_def)
  next
    case False
    let ?s = "s\<lparr>trivial_leases_granted := trivial_leases_granted s - 1\<rparr>"
    have t: "trivial_leases_granted s = count G TrivialLease + 1" using g False by (simp add: grants_inv_def)
    have noex: "leases_requested e \<noteq> ExclusiveAll" if "live s = e # es" for e es using live_mem [OF that] False by auto
    have hb: "head_blocked s" using st noex by (auto simp: settled_def head_ok_def)
    then have "head_blocked ?s"
    proof (rule head_blocked_if)
      fix e es assume "live s = e # es" "grantable ?s (leases_requested e)"
      then show "grantable s (leases_requested e)" using noex by (cases "leases_requested e") (auto simp: grantable_def is_exclusive_all_granted_def)
    qed simp
    moreover have "trivial_blocked ?s" using st by (intro trivial_blocked_cong [of ?s s]) (auto simp: settled_def is_exclusive_all_granted_def)
    moreover have "grants_inv ?s G True" using g False t by (auto simp: grants_inv_def)
    ultimately show thesis using that [of ?s] q r t has_waiters_Ok(2) [OF q] False queue_inv_cong [of ?s s] blocked_settled
      by (simp add: acquire_exclusive_all_begin_def room_def fetch_sub_1_def)
  qed
qed

text \<open>After the attempt the counter is disarmed unless an exclusive request waits.\<close>

lemma end_spec:
  assumes g: "grants_inv s G True" and q: "queue_inv s" and r: "room s G" and hb: "settled s"
  obtains s' where "acquire_exclusive_all_end s = Ok s'" "sem_inv s' G" "queue s' = queue s" "max_leases s' = max_leases s"
    "last_waiter_id s' = last_waiter_id s" "settled s'" "head_blocked s \<Longrightarrow> head_blocked s'"
    "is_exclusive_all_granted s' = is_exclusive_all_granted s"
proof (cases "ExclusiveAll \<in># requests s")
  case True
  then show thesis using that [of s] q g r hb has_waiters_Ok(2) [OF q] by (simp add: acquire_exclusive_all_end_def sem_inv_def)
next
  case False
  let ?s = "s\<lparr>trivial_leases_granted := trivial_leases_granted s + 1\<rparr>"
  have t: "fetch_add_1 (trivial_leases_granted s) = trivial_leases_granted s + 1"
    using g r by (intro fetch_add_1_small) (simp add: grants_inv_def room_def)
  have noex: "leases_requested e \<noteq> ExclusiveAll" if "live s = e # es" for e es using live_mem [OF that] False by auto
  have "head_blocked s" using hb noex by (auto simp: settled_def head_ok_def)
  then have "head_blocked ?s"
  proof (rule head_blocked_if)
    fix e es assume "live s = e # es" "grantable ?s (leases_requested e)"
    then show "grantable s (leases_requested e)" using noex by (cases "leases_requested e") (auto simp: grantable_def is_exclusive_all_granted_def)
  qed simp
  moreover have "trivial_blocked ?s" using hb by (intro trivial_blocked_cong [of ?s s]) (auto simp: settled_def is_exclusive_all_granted_def)
  moreover have "sem_inv ?s G" using g q r False queue_inv_cong [of ?s s] by (auto simp: sem_inv_def grants_inv_def room_def)
  ultimately show thesis using that [of ?s] t has_waiters_Ok(2) [OF q] False blocked_settled
    by (simp add: acquire_exclusive_all_end_def is_exclusive_all_granted_def)
qed

lemma exclusive_attempt:
  assumes inv: "sem_inv s G" and st: "settled s"
  obtains s1 s2 granted where "acquire_exclusive_all_begin s = Ok s1" "try_acquire_exclusive_all_locked s1 = Ok (s2, granted)"
    "queue s1 = queue s" "max_leases s1 = max_leases s" "last_waiter_id s1 = last_waiter_id s"
    "grants_inv s1 G True" "queue_inv s1" "room s1 G" "settled s1" "head_blocked s \<longrightarrow> head_blocked s1"
    "granted \<longrightarrow> (\<exists>s3. acquire_exclusive_all_end s2 = Ok s3 \<and> acquired s G ExclusiveAll s3 None)"
    "\<not> granted \<longrightarrow> s2 = s1" "\<not> granted \<longrightarrow> live s1 \<noteq> [] \<or> \<not> grantable s1 ExclusiveAll"
proof -
  note result = that
  obtain s1 where s1: "acquire_exclusive_all_begin s = Ok s1" "grants_inv s1 G True" "queue_inv s1" "room s1 G" "queue s1 = queue s"
    "max_leases s1 = max_leases s" "last_waiter_id s1 = last_waiter_id s" "settled s1"
    and hb: "head_blocked s \<Longrightarrow> head_blocked s1"
    by (rule begin_spec [OF assms]) blast
  have live: "\<not> failed_request (max_leases s1) ExclusiveAll" by (simp add: failed_request_def)
  obtain s2 where s2: "try_grant_one s1 ExclusiveAll = Ok (s2, grantable s1 ExclusiveAll)" "queue s2 = queue s1" "max_leases s2 = max_leases s1"
    "last_waiter_id s2 = last_waiter_id s1" "enqueued_trivial_lease_waiters s2 = enqueued_trivial_lease_waiters s1"
    "enqueued_exclusive_all_waiters s2 = enqueued_exclusive_all_waiters s1"
    and ok: "grantable s1 ExclusiveAll \<Longrightarrow> grants_inv s2 (add_mset ExclusiveAll G) True" and no: "\<not> grantable s1 ExclusiveAll \<Longrightarrow> s2 = s1"
    by (rule try_grant_one_spec [OF s1(2) live]) auto
  have hb': "head_blocked s \<longrightarrow> head_blocked s1" using hb by blast
  show thesis
  proof (cases "live s1 = [] \<and> grantable s1 ExclusiveAll")
    case True
    have run: "try_acquire_exclusive_all_locked s1 = Ok (s2, True)" using True s2(1) by (simp add: try_acquire_exclusive_all_locked_def no_live)
    have g2: "grants_inv s2 (add_mset ExclusiveAll G) True" using ok True by simp
    have q2: "queue_inv s2" using s1(3) queue_inv_cong [of s2 s1] s2(2-6) by simp
    have r2: "room s2 (add_mset ExclusiveAll G)" using s1(4) s2(2) by (simp add: room_def requests_def)
    have ex: "is_exclusive_all_granted s2" using is_exclusive_iff [OF g2] by simp
    obtain s3 where s3: "acquire_exclusive_all_end s2 = Ok s3" "sem_inv s3 (add_mset ExclusiveAll G)" "queue s3 = queue s2" "max_leases s3 = max_leases s2"
      "last_waiter_id s3 = last_waiter_id s2" "settled s3" "is_exclusive_all_granted s3 = is_exclusive_all_granted s2"
      by (rule end_spec [OF g2 q2 r2 exclusive_blocked(3) [OF ex q2]]) blast
    have "head_blocked s3" using exclusive_blocked(1) [of s3] s3(2,7) ex by (simp add: sem_inv_def)
    then have "acquired s G ExclusiveAll s3 None" using s3 s2(2-4) s1(5-7) by (simp add: acquired_def)
    then show thesis using result [OF s1(1) run s1(5-7,2-4,8) hb'] s3(1) by blast
  next
    case False
    then have "try_acquire_exclusive_all_locked s1 = Ok (s1, False)" using s2(1) no by (auto simp: try_acquire_exclusive_all_locked_def no_live)
    then show thesis using result [OF s1(1) _ s1(5-7,2-4,8) hb', of s1 False] False by blast
  qed
qed

lemma try_acquire_exclusive_all_spec:
  assumes inv: "sem_inv s G" and st: "settled s"
  shows "\<exists>s' granted. try_acquire_exclusive_all s = Ok (s', granted) \<and> (if granted then acquired s G ExclusiveAll s' None
    else sem_inv s' G \<and> settled s' \<and> (head_blocked s \<longrightarrow> head_blocked s') \<and> queue s' = queue s \<and> max_leases s' = max_leases s \<and> last_waiter_id s' = last_waiter_id s)"
proof -
  obtain s1 s2 granted where s: "acquire_exclusive_all_begin s = Ok s1" "try_acquire_exclusive_all_locked s1 = Ok (s2, granted)"
    "queue s1 = queue s" "max_leases s1 = max_leases s" "last_waiter_id s1 = last_waiter_id s"
    "grants_inv s1 G True" "queue_inv s1" "room s1 G" "settled s1" and hb: "head_blocked s \<longrightarrow> head_blocked s1"
    and ok: "granted \<longrightarrow> (\<exists>s3. acquire_exclusive_all_end s2 = Ok s3 \<and> acquired s G ExclusiveAll s3 None)" and no: "\<not> granted \<longrightarrow> s2 = s1"
    by (rule exclusive_attempt [OF assms]) blast
  show ?thesis
  proof (cases granted)
    case True
    then obtain s3 where "acquire_exclusive_all_end s2 = Ok s3" "acquired s G ExclusiveAll s3 None" using ok by blast
    then show ?thesis using s(1,2) True by (intro exI [of _ s3] exI [of _ True]) (simp add: try_acquire_exclusive_all_def)
  next
    case False
    obtain s3 where "acquire_exclusive_all_end s1 = Ok s3" "sem_inv s3 G" "queue s3 = queue s1" "max_leases s3 = max_leases s1"
      "last_waiter_id s3 = last_waiter_id s1" "settled s3" "head_blocked s1 \<Longrightarrow> head_blocked s3" by (rule end_spec [OF s(6-9)]) blast
    then show ?thesis using s(1-5) no False hb by (intro exI [of _ s3] exI [of _ False]) (simp add: try_acquire_exclusive_all_def)
  qed
qed

lemma prepare_acquire_exclusive_all_spec:
  assumes inv: "sem_inv s G" and st: "settled s" and wid: "last_waiter_id s + 1 < u64_bound"
  shows "\<exists>s' w. prepare_acquire_exclusive_all (\<lambda>s. s) True s = Ok (s', Inr w) \<and> acquired s G ExclusiveAll s' w"
proof -
  obtain s1 s2 granted where s: "acquire_exclusive_all_begin s = Ok s1" "try_acquire_exclusive_all_locked s1 = Ok (s2, granted)"
    "queue s1 = queue s" "max_leases s1 = max_leases s" "last_waiter_id s1 = last_waiter_id s"
    "grants_inv s1 G True" "queue_inv s1" "room s1 G" "settled s1" and hb: "head_blocked s \<longrightarrow> head_blocked s1"
    and ok: "granted \<longrightarrow> (\<exists>s3. acquire_exclusive_all_end s2 = Ok s3 \<and> acquired s G ExclusiveAll s3 None)" and no: "\<not> granted \<longrightarrow> s2 = s1"
    and head: "\<not> granted \<longrightarrow> live s1 \<noteq> [] \<or> \<not> grantable s1 ExclusiveAll"
    by (rule exclusive_attempt [OF inv st]) blast
  show ?thesis
  proof (cases granted)
    case True
    then obtain s3 where "acquire_exclusive_all_end s2 = Ok s3" "acquired s G ExclusiveAll s3 None" using ok by blast
    then show ?thesis using s(1,2) True by (intro exI [of _ s3] exI [of _ None]) (simp add: prepare_acquire_exclusive_all_def)
  next
    case False
    let ?e = "\<lparr>leases_requested = ExclusiveAll, waker = None, waiter_id = last_waiter_id s1 + 1\<rparr>"
    let ?s = "s1\<lparr>last_waiter_id := last_waiter_id s1 + 1, queue := queue s1 @ [?e],
      enqueued_trivial_lease_waiters := enqueued_trivial_lease_waiters s1 + (if ExclusiveAll = TrivialLease then 1 else 0),
      enqueued_exclusive_all_waiters := enqueued_exclusive_all_waiters s1 + (if ExclusiveAll = ExclusiveAll then 1 else 0)\<rparr>"
    have run: "prepare_acquire_exclusive_all (\<lambda>s. s) True s = Ok (?s, Inr (Some (last_waiter_id s1 + 1)))"
      using s(1,2,5) no False wid by (simp add: prepare_acquire_exclusive_all_def enqueue_waiter_def add_u64_def)
    have rq: "requests ?s = add_mset ExclusiveAll (requests s1)" by (simp add: requests_def)
    have "sem_inv ?s G" unfolding sem_inv_def
    proof (intro conjI)
      show "queue_inv ?s" by (rule queue_inv_enqueue [OF s(7)]) simp
      have "ExclusiveAll \<in># requests ?s" unfolding rq by simp
      then show "grants_inv ?s G (ExclusiveAll \<in># requests ?s)" using s(6) grants_inv_cong [of ?s s1] by simp
      show "room ?s G" using s(8) unfolding room_def rq by simp
    qed
    moreover have "settled ?s" "head_blocked s1 \<Longrightarrow> head_blocked ?s"
      using enqueue_settled [OF s(9), of ?s ?e] head False by auto
    ultimately show ?thesis using run hb s(3-5) by (auto simp: acquired_def)
  qed
qed

lemma prepare_acquire_exclusive_all_fails:
  assumes inv: "sem_inv s G" and st: "settled s" and r: "prepare_acquire_exclusive_all (\<lambda>s. s) False s = Ok (s', Inl e)"
  shows "sem_inv s' G" "settled s'" "head_blocked s \<Longrightarrow> head_blocked s'" "queue s' = queue s" "last_waiter_id s' = last_waiter_id s" "max_leases s' = max_leases s"
proof -
  obtain s1 s2 granted where s: "acquire_exclusive_all_begin s = Ok s1" "try_acquire_exclusive_all_locked s1 = Ok (s2, granted)"
    "queue s1 = queue s" "max_leases s1 = max_leases s" "last_waiter_id s1 = last_waiter_id s"
    "grants_inv s1 G True" "queue_inv s1" "room s1 G" "settled s1" and hb: "head_blocked s \<longrightarrow> head_blocked s1"
    and ok: "granted \<longrightarrow> (\<exists>s3. acquire_exclusive_all_end s2 = Ok s3 \<and> acquired s G ExclusiveAll s3 None)" and no: "\<not> granted \<longrightarrow> s2 = s1"
    by (rule exclusive_attempt [OF inv st]) blast
  have ng: "\<not> granted"
  proof
    assume granted
    then obtain s3 where "acquire_exclusive_all_end s2 = Ok s3" using ok by blast
    then show False using r s(1,2) \<open>granted\<close> by (simp add: prepare_acquire_exclusive_all_def)
  qed
  obtain s3 where s3: "acquire_exclusive_all_end s1 = Ok s3" "sem_inv s3 G" "queue s3 = queue s1" "max_leases s3 = max_leases s1"
    "last_waiter_id s3 = last_waiter_id s1" "settled s3" and hb3: "head_blocked s1 \<Longrightarrow> head_blocked s3" by (rule end_spec [OF s(6-9)]) blast
  have "s' = s3" using r s(1,2) no ng s3(1) by (simp add: prepare_acquire_exclusive_all_def enqueue_waiter_def)
  then show "sem_inv s' G" "settled s'" "head_blocked s \<Longrightarrow> head_blocked s'" "queue s' = queue s" "last_waiter_id s' = last_waiter_id s" "max_leases s' = max_leases s"
    using s3 hb hb3 s(3-5) by auto
qed

section \<open>Guards and futures\<close>

text \<open>What the predicates depend on.\<close>

lemma live_requests: "map leases_requested (live s) = filter (\<lambda>r. \<not> failed_request (max_leases s) r) (map leases_requested (queue s))"
  by (simp add: live_def filter_map comp_def)

lemma head_blocked_alt: "head_blocked s \<longleftrightarrow> (case map leases_requested (live s) of [] \<Rightarrow> True | r # _ \<Rightarrow> \<not> grantable s r)"
  by (cases "live s") (simp_all add: head_blocked_def)

lemma head_ok_alt: "head_ok s \<longleftrightarrow> head_blocked s \<or> (\<exists>rs. map leases_requested (live s) = ExclusiveAll # rs)"
  by (cases "live s") (auto simp: head_ok_def)

lemma settled_cong:
  assumes "map leases_requested (queue s') = map leases_requested (queue s)" "max_leases s' = max_leases s"
    "leases_granted s' = leases_granted s" "trivial_leases_granted s' = trivial_leases_granted s"
  shows "settled s' \<longleftrightarrow> settled s" "head_blocked s' \<longleftrightarrow> head_blocked s"
proof -
  have l: "map leases_requested (live s') = map leases_requested (live s)" unfolding live_requests assms ..
  show hb: "head_blocked s' \<longleftrightarrow> head_blocked s" unfolding head_blocked_alt l grantable_cong [OF assms(2-4)] ..
  have len: "length (queue s') = length (queue s)" using assms(1) by (metis length_map)
  have nth: "leases_requested (queue s' ! i) = leases_requested (queue s ! i)" if "i < length (queue s)" for i
    using assms(1) that len by (metis nth_map)
  have ex: "(\<exists>i<j. leases_requested (queue s' ! i) = ExclusiveAll) \<longleftrightarrow> (\<exists>i<j. leases_requested (queue s ! i) = ExclusiveAll)"
    if "j < length (queue s)" for j proof -
    have "(i < j \<and> leases_requested (queue s' ! i) = ExclusiveAll) \<longleftrightarrow> (i < j \<and> leases_requested (queue s ! i) = ExclusiveAll)" for i
      using nth [of i] that by auto
    then show ?thesis by simp
  qed
  have "trivial_blocked s' \<longleftrightarrow> trivial_blocked s" unfolding trivial_blocked_def len is_exclusive_all_granted_def assms
    using ex nth by auto
  then show "settled s' \<longleftrightarrow> settled s" unfolding settled_def head_ok_alt l hb by simp
qed

lemma fail_entries_spec:
  assumes "fail_entries c es = (es', ws, failed_some)"
  shows "map leases_requested es' = map leases_requested es" "map waiter_id es' = map waiter_id es"
    "failed_some \<longleftrightarrow> (\<exists>e \<in> set es. failed_request c (leases_requested e))" "\<not> failed_some \<Longrightarrow> es' = es \<and> ws = []"
  using assms by (induction es arbitrary: es' ws failed_some) (auto simp: Let_def split: prod.splits if_splits option.splits)

lemma map_evolves:
  assumes "map leases_requested (queue s') = map leases_requested (queue s)" "map waiter_id (queue s') = map waiter_id (queue s)"
    "last_waiter_id s' = last_waiter_id s"
  shows "evolves s s'"
proof -
  have len: "length (queue s') = length (queue s)" using assms(1) by (metis length_map)
  have "waiter_id (queue s ! i) = waiter_id (queue s' ! i) \<and> leases_requested (queue s ! i) = leases_requested (queue s' ! i)"
    if "i < length (queue s)" for i using assms(1,2) that len by (metis nth_map)
  then show ?thesis using len assms(3) by (fastforce simp: evolves_def in_set_conv_nth)
qed

lemma sem_inv_cong:
  assumes "map leases_requested (queue s') = map leases_requested (queue s)" "map waiter_id (queue s') = map waiter_id (queue s)"
    "last_waiter_id s' = last_waiter_id s" "enqueued_trivial_lease_waiters s' = enqueued_trivial_lease_waiters s"
    "enqueued_exclusive_all_waiters s' = enqueued_exclusive_all_waiters s" "max_leases s' = max_leases s"
    "leases_granted s' = leases_granted s" "trivial_leases_granted s' = trivial_leases_granted s"
  shows "sem_inv s' G \<longleftrightarrow> sem_inv s G"
proof -
  have "requests s' = requests s" unfolding requests_def assms(1) ..
  then show ?thesis unfolding sem_inv_def queue_inv_cong [OF assms(1-5)] grants_inv_cong [OF assms(6-8)] room_def by simp
qed

lemma wake_failed_waiters_spec:
  assumes "sem_inv s G"
  obtains s' G' where "wake_failed_waiters s = Ok s'" "sem_inv s' G'" "G' + requests s' = G + requests s" "evolves s s'" "max_leases s' = max_leases s"
    "(\<exists>e \<in> set (queue s). failed_request (max_leases s) (leases_requested e)) \<and> head_blocked s' \<and> settled s'
     \<or> (\<forall>e \<in> set (queue s). \<not> failed_request (max_leases s) (leases_requested e)) \<and> s' = s"
proof -
  obtain es ws failed_some where f: "fail_entries (max_leases s) (queue s) = (es, ws, failed_some)" by (metis prod_cases3)
  note sp = fail_entries_spec [OF f]
  let ?s = "s\<lparr>queue := es, woken := woken s @ ws\<rparr>"
  have inv: "sem_inv ?s G" using assms sem_inv_cong [of ?s s G] sp(1,2) by simp
  show thesis
  proof (cases failed_some)
    case False
    then show thesis using that [of s G] assms f sp by (simp add: wake_failed_waiters_def)
  next
    case True
    obtain s' G' where w: "wake_completed_waiters ?s = Ok s'" "sem_inv s' G'" "G' + requests s' = G + requests ?s" "woken_up ?s s'"
      "head_blocked s'" "settled s'" by (rule wake_completed_waiters_spec [OF inv])
    have "evolves s s'" using evolves_trans [OF map_evolves woken_up_evolves [OF w(4)]] sp(1,2) by simp
    moreover have "requests ?s = requests s" by (simp add: requests_def sp(1) flip: mset_map)
    moreover have "wake_failed_waiters s = Ok s'" using f True w(1) by (simp add: wake_failed_waiters_def)
    moreover have "max_leases s' = max_leases s" using w(4) by (simp add: woken_up_def)
    ultimately show thesis using that [of s' G'] w True sp(3) by simp
  qed
qed

lemma no_trivial_waiters:
  assumes "trivial_blocked s" "\<not> is_exclusive_all_granted s" "ExclusiveAll \<notin># requests s"
  shows "TrivialLease \<notin># requests s"
proof
  assume "TrivialLease \<in># requests s"
  then obtain j where j: "j < length (queue s)" "leases_requested (queue s ! j) = TrivialLease"
    unfolding requests_def by (metis imageE in_set_conv_nth mset_map set_image_mset set_mset_mset)
  then obtain i where "i < j" "leases_requested (queue s ! i) = ExclusiveAll" using assms(1,2) by (auto simp: trivial_blocked_def)
  then show False using request_mem [of i s] j(1) assms(3) by simp
qed

lemma no_trivial_blocked: "TrivialLease \<notin># requests s \<Longrightarrow> trivial_blocked s"
  using request_mem [of _ s TrivialLease] by (auto simp: trivial_blocked_def)

lemma leak_spec:
  assumes inv: "sem_inv s G" and st: "settled s" and mem: "Leases n \<in># G"
  obtains s' G' where "leak s n = Ok s'" "sem_inv s' G'" "add_mset (Leases n) (G' + requests s') = G + requests s" "evolves s s'"
    "head_blocked s'" "settled s'"
proof -
  note result = that
  from mem obtain G0 where G0: "G = add_mset (Leases n) G0" by (meson mset_add)
  have g: "grants_inv s G (ExclusiveAll \<in># requests s)" and q: "queue_inv s" and r: "room s G" using inv by (simp_all add: sem_inv_def)
  have no: "ExclusiveAll \<notin># G" and n0: "n \<noteq> 0" using g by (auto simp: grants_inv_def G0 split: if_splits)
  have lg: "n \<le> leases_granted s" "leases_granted s \<le> max_leases s" using g no by (auto simp: grants_inv_def G0)
  let ?s = "s\<lparr>max_leases := max_leases s - n, leases_granted := leases_granted s - n\<rparr>"
  have inv0: "sem_inv ?s G0" using q g r no queue_inv_cong [of ?s s] unfolding sem_inv_def by (auto simp: grants_inv_def G0 room_def)
  have hb: "head_blocked s" using settled_grants [OF inv st] G0 by simp
  obtain s1 G1 where f: "wake_failed_waiters ?s = Ok s1" "sem_inv s1 G1" "G1 + requests s1 = G0 + requests ?s" "evolves ?s s1"
    and fb: "(\<exists>e \<in> set (queue ?s). failed_request (max_leases ?s) (leases_requested e)) \<and> head_blocked s1 \<and> settled s1
     \<or> (\<forall>e \<in> set (queue ?s). \<not> failed_request (max_leases ?s) (leases_requested e)) \<and> s1 = ?s"
    by (rule wake_failed_waiters_spec [OF inv0])
  have ev: "evolves s s1" using evolves_trans [OF evolves_queue f(4), of s] by simp
  have q1: "queue_inv s1" using f(2) by (simp add: sem_inv_def)
  show thesis
  proof (cases "ExclusiveAll \<in># requests s1")
    case True
    obtain s2 G2 where w: "wake_completed_waiters s1 = Ok s2" "sem_inv s2 G2" "G2 + requests s2 = G1 + requests s1" "woken_up s1 s2"
      "head_blocked s2" "settled s2" by (rule wake_completed_waiters_spec [OF f(2)])
    have "leak s n = Ok s2" using n0 lg f(1) w(1) True has_waiters_Ok(2) [OF q1] by (simp add: leak_def)
    then show thesis using result [of s2 G2] w f(3) G0 evolves_trans [OF ev woken_up_evolves [OF w(4)]] by simp
  next
    case False
    have run: "leak s n = Ok s1" using n0 lg f(1) False has_waiters_Ok(2) [OF q1] by (simp add: leak_def)
    have "head_blocked s1 \<and> settled s1" using fb
    proof
      assume a: "(\<forall>e \<in> set (queue ?s). \<not> failed_request (max_leases ?s) (leases_requested e)) \<and> s1 = ?s"
      have live: "live ?s = queue s" "live (s\<lparr>max_leases := max_leases s - n\<rparr>) = queue s" "live s = queue s"
        using a by (auto simp: live_def filter_id_conv failed_request_def split: lease_grant_count.splits)
      have ne: "\<not> is_exclusive_all_granted s" using is_exclusive_iff [OF g] no by simp
      have "ExclusiveAll \<notin># requests s" using False a by simp
      then have nt: "TrivialLease \<notin># requests s" using no_trivial_waiters st ne by (simp add: settled_def)
      have "head_blocked ?s"
      proof (cases "queue s")
        case (Cons e es)
        then have e: "leases_requested e \<in># requests s" by (simp add: requests_def)
        then obtain m where "leases_requested e = Leases m" using nt \<open>ExclusiveAll \<notin># requests s\<close> by (cases "leases_requested e") auto
        then show ?thesis using hb lg live Cons by (auto simp: head_blocked_def grantable_def)
      qed (simp add: head_blocked_def live)
      moreover have "trivial_blocked ?s" using nt by (intro no_trivial_blocked) simp
      ultimately show ?thesis using a blocked_settled by simp
    qed simp
    then show thesis using result [of s1 G1] run f(2,3) ev G0 by simp
  qed
qed

lemma resize_future_spec:
  assumes inv: "sem_inv s G" and mem: "ExclusiveAll \<in># G" and c: "c < 2 ^ 63"
  obtains s' G' where "resize_future s c = Ok s'" "sem_inv s' G'" "G' + requests s' = G + requests s" "evolves s s'" "head_blocked s'" "settled s'"
proof -
  have g: "grants_inv s G (ExclusiveAll \<in># requests s)" and q: "queue_inv s" and r: "room s G" using inv by (simp_all add: sem_inv_def)
  let ?s = "s\<lparr>max_leases := c, leases_granted := c + 1\<rparr>"
  have inv0: "sem_inv ?s G" using q g r mem c queue_inv_cong [of ?s s] unfolding sem_inv_def by (auto simp: grants_inv_def room_def)
  then have hb: "head_blocked ?s" "settled ?s" using exclusive_blocked [of ?s] by (simp_all add: sem_inv_def is_exclusive_all_granted_def)
  have ev: "evolves s ?s" by (rule evolves_queue) simp_all
  have c': "c < u64_bound - 1" using c by simp
  show thesis
  proof (cases "c < max_leases s")
    case False
    then have "resize_future s c = Ok ?s" using c' by (simp add: resize_future_def Let_def)
    then show thesis using that [of ?s G] inv0 hb ev by simp
  next
    case True
    obtain s1 G1 where f: "wake_failed_waiters ?s = Ok s1" "sem_inv s1 G1" "G1 + requests s1 = G + requests ?s" "evolves ?s s1"
      and fb: "(\<exists>e \<in> set (queue ?s). failed_request (max_leases ?s) (leases_requested e)) \<and> head_blocked s1 \<and> settled s1
       \<or> (\<forall>e \<in> set (queue ?s). \<not> failed_request (max_leases ?s) (leases_requested e)) \<and> s1 = ?s"
      by (rule wake_failed_waiters_spec [OF inv0])
    have "resize_future s c = Ok s1" using c' True f(1) by (simp add: resize_future_def Let_def)
    then show thesis using that [of s1 G1] f hb fb evolves_trans [OF ev f(4)] by auto
  qed
qed

lemma subseq_mset: "subseq xs ys \<Longrightarrow> mset xs \<subseteq># mset ys"
  by (induction rule: list_emb.induct) (auto intro: subset_mset.order_trans)

lemma downgrade_spec:
  assumes inv: "sem_inv s G" and mem: "ExclusiveAll \<in># G" and room: "count (requests s) TrivialLease + 2 < u64_bound"
  obtains s' n G' where "downgrade s = Ok (s', n)" "n = max_leases s" "sem_inv s' G'"
    "add_mset ExclusiveAll (G' + requests s') = add_mset (lease_grant_count_from n) (G + requests s)" "lease_grant_count_from n \<in># G'"
    "evolves s s'" "head_blocked s'" "settled s'"
proof -
  note result = that
  have g: "grants_inv s G (ExclusiveAll \<in># requests s)" and q: "queue_inv s" using inv by (simp_all add: sem_inv_def)
  have G: "G = {#ExclusiveAll#}" using g mem by (simp add: grants_inv_def)
  let ?n = "max_leases s"
  let ?r = "lease_grant_count_from ?n"
  define s1 where "s1 = (if ?n = 0 then s\<lparr>leases_granted := ?n, trivial_leases_granted := fetch_add_1 (trivial_leases_granted s)\<rparr>
    else s\<lparr>leases_granted := ?n\<rparr>)"
  have rq: "requests s1 = requests s" by (simp add: s1_def)
  have t: "trivial_leases_granted s \<le> 1" using g by (simp add: grants_inv_def G)
  have q1: "queue_inv s1" using q queue_inv_cong [of s1 s] by (simp add: s1_def)
  have "grants_inv s1 {#?r#} (ExclusiveAll \<in># requests s)"
    using g t by (auto simp: grants_inv_def G s1_def lease_grant_count_from_def fetch_add_1_def)
  then have inv1: "sem_inv s1 {#?r#}" using q1 room by (auto simp: sem_inv_def room_def rq)
  have ev: "evolves s s1" by (rule evolves_queue) (simp_all add: s1_def)
  have run: "downgrade s = and_then (if TrivialLease \<in># requests s then wake_completed_waiters s1 else Ok s1) (\<lambda>s. Ok (s, ?n))"
  proof -
    have "downgrade s = and_then (has_trivial_lease_waiters s1) (\<lambda>has. and_then (if has then wake_completed_waiters s1 else Ok s1) (\<lambda>s. Ok (s, ?n)))"
      unfolding downgrade_def Let_def s1_def by (simp cong: if_cong)
    then show ?thesis unfolding has_waiters_Ok(1) [OF q1] rq by simp
  qed
  show thesis
  proof (cases "TrivialLease \<in># requests s")
    case True
    obtain s2 G2 where w: "wake_completed_waiters s1 = Ok s2" "sem_inv s2 G2" "G2 + requests s2 = {#?r#} + requests s1" "woken_up s1 s2"
      "head_blocked s2" "settled s2" by (rule wake_completed_waiters_spec [OF inv1])
    have run2: "downgrade s = Ok (s2, ?n)" using run True w(1) by simp
    have sub: "requests s2 \<subseteq># requests s1"
      unfolding requests_def mset_map using w(4) by (intro image_mset_subseteq_mono) (simp add: woken_up_def subseq_mset)
    have "?r \<in># G2"
    proof -
      have "G2 = {#?r#} + (requests s1 - requests s2)" using w(3) sub by (metis add_diff_cancel_right' subset_mset.add_diff_assoc2 add.commute)
      then show ?thesis by simp
    qed
    then show thesis using result [OF run2 refl w(2)] w(3,5,6) evolves_trans [OF ev woken_up_evolves [OF w(4)]] by (simp add: G rq)
  next
    case False
    then have run2: "downgrade s = Ok (s1, ?n)" using run by simp
    have "\<not> grantable s1 (leases_requested e)" if l: "live s1 = e # es" for e es
    proof (cases "leases_requested e")
      case TrivialLease
      then show ?thesis using live_mem [OF l] False rq by simp
    next
      case (Leases m)
      then have "m \<noteq> 0" using live_mem [OF l] q1 by (cases m) (auto simp: queue_inv_def)
      then show ?thesis by (simp add: grantable_def Leases s1_def)
    next
      case ExclusiveAll
      then show ?thesis using t by (simp add: grantable_def s1_def fetch_add_1_def)
    qed
    then have hb: "head_blocked s1" by (cases "live s1") (auto simp: head_blocked_def)
    moreover have "trivial_blocked s1" using False rq by (intro no_trivial_blocked) simp
    ultimately show thesis using result [OF run2 refl inv1] ev blocked_settled by (simp add: G rq)
  qed
qed

text \<open>One more trivial lease for somebody who holds a grant already.\<close>

lemma spawn_spec:
  assumes inv: "sem_inv s G" and st: "settled s" and mem: "r \<in># G" "r \<noteq> ExclusiveAll" and room: "roomy s G TrivialLease"
  shows "sem_inv (spawn_trivial_lease s) (add_mset TrivialLease G)" "settled (spawn_trivial_lease s)" "head_blocked (spawn_trivial_lease s)"
    "requests (spawn_trivial_lease s) = requests s" "evolves s (spawn_trivial_lease s)"
proof -
  have g: "grants_inv s G (ExclusiveAll \<in># requests s)" and q: "queue_inv s" using inv by (simp_all add: sem_inv_def)
  have no: "ExclusiveAll \<notin># G" using g mem by (auto simp: grants_inv_def split: if_splits)
  have small: "trivial_leases_granted s + 1 < u64_bound" using g room by (auto simp: grants_inv_def roomy_def)
  let ?s = "spawn_trivial_lease s"
  have eq: "?s = s\<lparr>trivial_leases_granted := trivial_leases_granted s + 1\<rparr>" using small by (simp add: spawn_trivial_lease_def fetch_add_1_small)
  show rq: "requests ?s = requests s" by (simp add: eq)
  show "sem_inv ?s (add_mset TrivialLease G)" using q g no room queue_inv_cong [of ?s s] rq unfolding eq
    by (auto simp: sem_inv_def grants_inv_def room_def roomy_def)
  have "G \<noteq> {#}" using mem(1) by auto
  then have "head_blocked s" using settled_grants [OF inv st] by simp
  then show hb: "head_blocked ?s"
  proof (rule head_blocked_if)
    fix e es assume "live s = e # es" "grantable ?s (leases_requested e)"
    then show "grantable s (leases_requested e)" by (auto simp: eq grantable_def is_exclusive_all_granted_def split: lease_grant_count.splits)
  qed (simp add: eq)
  have "trivial_blocked ?s" using st by (intro trivial_blocked_cong [of ?s s]) (auto simp: eq settled_def is_exclusive_all_granted_def)
  then show "settled ?s" using blocked_settled hb by simp
  show "evolves s ?s" by (rule evolves_queue) (simp_all add: eq)
qed

lemma split_leases_spec:
  assumes inv: "sem_inv s G" and st: "settled s" and mem: "lease_grant_count_from n \<in># G" and k: "k \<le> n"
    and room: "roomy s G TrivialLease"
  obtains s' G' where "split_leases s n k = (s', Inr (n - k, k))" "sem_inv s' G'"
    "add_mset (lease_grant_count_from n) G' = add_mset (lease_grant_count_from (n - k)) (add_mset (lease_grant_count_from k) G)"
    "requests s' = requests s" "evolves s s'" "head_blocked s'" "settled s'"
proof -
  note result = that
  note sp = spawn_spec [OF inv st mem request_from(3) room]
  consider "k = 0" | "k = n" | "0 < k" "k < n" using k by linarith
  then show thesis
  proof cases
    case 1
    then have "split_leases s n k = (spawn_trivial_lease s, Inr (n - k, k))" by (simp add: split_leases_def spawn_trivial_lease_def)
    then show thesis using result sp 1 by (simp add: lease_grant_count_from_def)
  next
    case 2
    then have "split_leases s n k = (spawn_trivial_lease s, Inr (n - k, k))" by (simp add: split_leases_def spawn_trivial_lease_def)
    then show thesis using result sp 2 by (simp add: lease_grant_count_from_def)
  next
    case 3
    have run: "split_leases s n k = (s, Inr (n - k, k))" using 3 by (simp add: split_leases_def)
    from mem obtain G0 where G0: "G = add_mset (Leases n) G0" using 3 by (auto simp: lease_grant_count_from_def dest: mset_add)
    have "sem_inv s (add_mset (Leases (n - k)) (add_mset (Leases k) G0))"
      using inv 3 by (auto simp: sem_inv_def grants_inv_def room_def G0 split: if_splits)
    moreover have "head_blocked s" using settled_grants [OF inv st] G0 by simp
    ultimately show thesis using result [OF run, of "add_mset (Leases (n - k)) (add_mset (Leases k) G0)"] 3 st
      by (simp add: lease_grant_count_from_def G0 add_mset_commute)
  qed
qed

text \<open>Polling.\<close>

lemma poll_waiter_spec:
  assumes "poll_waiter s wid w = (s', completed)"
  shows "completed \<longleftrightarrow> wid \<notin> waiter_id ` set (queue s)" "sem_inv s' G \<longleftrightarrow> sem_inv s G" "settled s' \<longleftrightarrow> settled s"
    "head_blocked s' \<longleftrightarrow> head_blocked s" "requests s' = requests s" "evolves s s'" "map waiter_id (queue s') = map waiter_id (queue s)"
    "map leases_requested (queue s') = map leases_requested (queue s)" "max_leases s' = max_leases s" "last_waiter_id s' = last_waiter_id s"
proof -
  show "completed \<longleftrightarrow> wid \<notin> waiter_id ` set (queue s)"
    using assms position_of_None [of wid "queue s"] by (auto simp: poll_waiter_def waiter_position_def split: option.splits)
  have maps: "map waiter_id (queue s') = map waiter_id (queue s)" "map leases_requested (queue s') = map leases_requested (queue s)"
    using assms by (auto simp: poll_waiter_def map_update list_update_same_conv waiter_position_def dest: position_of_Some split: option.splits)
  have same: "max_leases s' = max_leases s" "leases_granted s' = leases_granted s" "trivial_leases_granted s' = trivial_leases_granted s"
    "last_waiter_id s' = last_waiter_id s" "enqueued_trivial_lease_waiters s' = enqueued_trivial_lease_waiters s"
    "enqueued_exclusive_all_waiters s' = enqueued_exclusive_all_waiters s"
    using assms by (auto simp: poll_waiter_def split: option.splits)
  show "sem_inv s' G \<longleftrightarrow> sem_inv s G" by (rule sem_inv_cong [OF maps(2,1) same(4-6,1-3)])
  show "settled s' \<longleftrightarrow> settled s" "head_blocked s' \<longleftrightarrow> head_blocked s" by (rule settled_cong [OF maps(2) same(1-3)])+
  show "requests s' = requests s" unfolding requests_def maps ..
  show "evolves s s'" by (rule map_evolves [OF maps(2,1) same(4)])
  show "map waiter_id (queue s') = map waiter_id (queue s)" "map leases_requested (queue s') = map leases_requested (queue s)"
    "max_leases s' = max_leases s" "last_waiter_id s' = last_waiter_id s" by fact+
qed

lemma remove_failed_spec:
  assumes inv: "sem_inv s G" and st: "settled s" and pos: "position_of wid (queue s) = Some i"
    and failed: "failed_request (max_leases s) (leases_requested (queue s ! i))"
  obtains s' where "remove_waiter s wid = Ok s'" "sem_inv s' G" "requests s = add_mset (leases_requested (queue s ! i)) (requests s')" "evolves s s'"
    "wid \<notin> waiter_id ` set (queue s')" "head_blocked s \<Longrightarrow> head_blocked s'" "settled s'"
proof -
  have i: "i < length (queue s)" "waiter_id (queue s ! i) = wid" using position_of_Some [OF pos] by simp_all
  have ne: "leases_requested (queue s ! i) \<noteq> ExclusiveAll" using failed by (auto simp: failed_request_def)
  obtain s1 where s1: "remove_entry s i = Ok s1" "queue s1 = take i (queue s) @ drop (Suc i) (queue s)" "queue_inv s1"
    "requests s = add_mset (leases_requested (queue s ! i)) (requests s1)" "max_leases s1 = max_leases s" "last_waiter_id s1 = last_waiter_id s"
    "leases_granted s1 = leases_granted s" "trivial_leases_granted s1 = trivial_leases_granted s" "sem_inv s1 G"
    by (rule inv_remove [OF inv i(1) refl]) (use ne in blast)
  have nb: "\<not> grantable s (leases_requested e)" if "live s = queue s ! i # e # es" for e es
    using live_mem [OF that] failed by simp
  have "distinct (map waiter_id (take i (queue s) @ queue s ! i # drop (Suc i) (queue s)))"
    using inv id_take_nth_drop [OF i(1)] by (metis queue_inv_def sem_inv_def)
  then have gone: "wid \<notin> waiter_id ` set (queue s1)" using i(2) by (auto simp: s1(2))
  have "remove_waiter s wid = Ok s1" using pos s1(1) by (simp add: remove_waiter_def waiter_position_def)
  moreover have "settled s1" "head_blocked s \<Longrightarrow> head_blocked s1" using remove_quiet [OF st i(1) s1(2,5,7,8) ne] nb by blast+
  ultimately show thesis using that [of s1] s1(4,9) gone remove_evolves [OF s1(2,6)] by blast
qed

end
