(* ===== verification/Async_Semaphore_Sys.thy ===== *)
theory Async_Semaphore_Sys
  imports Async_Semaphore_Ops
begin

text \<open>
  The semaphore of \<open>src/utils-async/src/asynchronous/semaphore.rs\<close> under its users. A step of the system is one
  critical section of an operation, one poll or drop of a future, one operation of a guard or one of the atomic
  accesses of the lockless return of a trivial lease; the steps of the users interleave in any order, with one
  restriction: no other user acts while \<open>enqueue_waiter\<close> has dropped its lock to reserve memory for the queue
  (which \<open>SyncVec::try_reserve\<close> does when the capacity of the queue is short). The invariant of the system holds
  in every state that such runs reach: the grants respect the capacity and exclusiveness, no operation panics, and
  no waiter that could be granted next is forgotten. What happens when others do act in the meantime is shown at
  the end: a wakeup is lost, and a debug assertion fails.
\<close>

section \<open>Threads\<close>

text \<open>
  The semaphore with its users: the grants they hold, the futures that wait (with what they have asked
  for), and the threads in the middle of the lockless return of a trivial lease, which have decremented the
  counter to zero (\<open>deciding\<close>) or are about to take the lock in order to wake waiters (\<open>waking\<close>).
\<close>

record sem_sys =
  sem :: sem_state
  held :: "lease_grant_count multiset"
  waiting :: "(nat \<times> lease_grant_count) list"
  deciding :: nat
  waking :: nat

definition total :: "sem_sys \<Rightarrow> lease_grant_count multiset" where
  "total y = held y + mset (map snd (waiting y))"

text \<open>A future whose waiter is not in the queue any more has been granted its request.\<close>

definition grants :: "sem_sys \<Rightarrow> lease_grant_count multiset" where
  "grants y = held y + mset (map snd (filter (\<lambda>p. fst p \<notin> waiter_id ` set (queue (sem y))) (waiting y)))"

text \<open>The number of trivial leases stays below the range of the counter.\<close>

definition env_ok :: "sem_sys \<Rightarrow> bool" where
  "env_ok y \<longleftrightarrow> count (total y) TrivialLease + 2 < u64_bound"

definition sys_new :: "sem_state \<Rightarrow> sem_sys" where
  "sys_new s = \<lparr>sem = s, held = {#}, waiting = [], deciding = 0, waking = 0\<rparr>"

text \<open>
  The requests that may enqueue a waiter pass the identity as their window: nobody else acts between the decision
  to enqueue and the insertion into the queue.
\<close>

inductive sem_step :: "sem_sys \<Rightarrow> sem_sys \<Rightarrow> bool" where
  acquire_enqueued: "env_ok y \<Longrightarrow> acquire_leases (\<lambda>s. s) True (sem y) n = Ok (s', Inr (Enqueued wid m)) \<Longrightarrow>
    sem_step y (y\<lparr>sem := s', waiting := waiting y @ [(wid, lease_grant_count_from m)]\<rparr>)"
| acquire_granted: "env_ok y \<Longrightarrow> acquire_leases (\<lambda>s. s) mem (sem y) n = Ok (s', Inr (LeasesGranted m)) \<Longrightarrow>
    sem_step y (y\<lparr>sem := s', held := add_mset (lease_grant_count_from m) (held y)\<rparr>)"
| acquire_failed: "env_ok y \<Longrightarrow> acquire_leases (\<lambda>s. s) mem (sem y) n = Ok (s', Inl e) \<Longrightarrow> sem_step y (y\<lparr>sem := s'\<rparr>)"
| exclusive_enqueued: "acquire_exclusive_all (\<lambda>s. s) True (sem y) = Ok (s', Inr (ExclusiveEnqueued wid)) \<Longrightarrow>
    sem_step y (y\<lparr>sem := s', waiting := waiting y @ [(wid, ExclusiveAll)]\<rparr>)"
| exclusive_granted: "acquire_exclusive_all (\<lambda>s. s) mem (sem y) = Ok (s', Inr ExclusiveGranted) \<Longrightarrow>
    sem_step y (y\<lparr>sem := s', held := add_mset ExclusiveAll (held y)\<rparr>)"
| exclusive_failed: "acquire_exclusive_all (\<lambda>s. s) mem (sem y) = Ok (s', Inl e) \<Longrightarrow> sem_step y (y\<lparr>sem := s'\<rparr>)"
| try_acquire: "env_ok y \<Longrightarrow> try_acquire_leases (sem y) n = Ok (s', Inr granted) \<Longrightarrow>
    sem_step y (y\<lparr>sem := s', held := held y + (if granted then {#lease_grant_count_from n#} else {#})\<rparr>)"
| try_exclusive: "try_acquire_exclusive_all (sem y) = Ok (s', granted) \<Longrightarrow>
    sem_step y (y\<lparr>sem := s', held := held y + (if granted then {#ExclusiveAll#} else {#})\<rparr>)"
| poll_pending: "(wid, lease_grant_count_from n) \<in> set (waiting y) \<Longrightarrow>
    poll_leases_future True (sem y) (Enqueued wid n) w = Ok (s', fut, Pending) \<Longrightarrow> sem_step y (y\<lparr>sem := s'\<rparr>)"
| poll_ready: "(wid, lease_grant_count_from n) \<in> set (waiting y) \<Longrightarrow>
    poll_leases_future True (sem y) (Enqueued wid n) w = Ok (s', fut, Ready (Inr m)) \<Longrightarrow>
    sem_step y (y\<lparr>sem := s', waiting := remove1 (wid, lease_grant_count_from n) (waiting y), held := add_mset (lease_grant_count_from m) (held y)\<rparr>)"
| poll_failed: "(wid, lease_grant_count_from n) \<in> set (waiting y) \<Longrightarrow>
    poll_leases_future True (sem y) (Enqueued wid n) w = Ok (s', fut, Ready (Inl e)) \<Longrightarrow>
    sem_step y (y\<lparr>sem := s', waiting := remove1 (wid, lease_grant_count_from n) (waiting y)\<rparr>)"
| poll_exclusive_pending: "(wid, ExclusiveAll) \<in> set (waiting y) \<Longrightarrow>
    poll_exclusive_all_future True (sem y) (ExclusiveEnqueued wid) w = (s', fut, Pending) \<Longrightarrow> sem_step y (y\<lparr>sem := s'\<rparr>)"
| poll_exclusive_ready: "(wid, ExclusiveAll) \<in> set (waiting y) \<Longrightarrow>
    poll_exclusive_all_future True (sem y) (ExclusiveEnqueued wid) w = (s', fut, Ready r) \<Longrightarrow>
    sem_step y (y\<lparr>sem := s', waiting := remove1 (wid, ExclusiveAll) (waiting y), held := add_mset ExclusiveAll (held y)\<rparr>)"
| drop_waiting: "(wid, lease_grant_count_from n) \<in> set (waiting y) \<Longrightarrow> drop_leases_future True (sem y) (Enqueued wid n) = Ok s' \<Longrightarrow>
    sem_step y (y\<lparr>sem := s', waiting := remove1 (wid, lease_grant_count_from n) (waiting y)\<rparr>)"
| drop_waiting_exclusive: "(wid, ExclusiveAll) \<in> set (waiting y) \<Longrightarrow> drop_exclusive_all_future True (sem y) (ExclusiveEnqueued wid) = Ok s' \<Longrightarrow>
    sem_step y (y\<lparr>sem := s', waiting := remove1 (wid, ExclusiveAll) (waiting y)\<rparr>)"
| drop_granted: "lease_grant_count_from n \<in># held y \<Longrightarrow> drop_leases_future True (sem y) (LeasesGranted n) = Ok s' \<Longrightarrow>
    sem_step y (y\<lparr>sem := s', held := held y - {#lease_grant_count_from n#}\<rparr>)"
| drop_leases: "Leases n \<in># held y \<Longrightarrow> drop_leases_guard (sem y) n = Ok s' \<Longrightarrow>
    sem_step y (y\<lparr>sem := s', held := held y - {#Leases n#}\<rparr>)"
| drop_exclusive: "ExclusiveAll \<in># held y \<Longrightarrow> drop_exclusive_all_guard (sem y) = Ok s' \<Longrightarrow>
    sem_step y (y\<lparr>sem := s', held := held y - {#ExclusiveAll#}\<rparr>)"
| drop_trivial: "TrivialLease \<in># held y \<Longrightarrow>
    sem_step y (y\<lparr>sem := (sem y)\<lparr>trivial_leases_granted := fetch_sub_1 (trivial_leases_granted (sem y))\<rparr>,
      held := held y - {#TrivialLease#}, deciding := deciding y + (if trivial_leases_granted (sem y) = 1 then 1 else 0)\<rparr>)"
| drop_trivial_check: "0 < deciding y \<Longrightarrow>
    sem_step y (y\<lparr>deciding := deciding y - 1, waking := waking y + (if leases_granted (sem y) = 0 then 1 else 0)\<rparr>)"
| drop_trivial_wake: "0 < waking y \<Longrightarrow> wake_completed_waiters (sem y) = Ok s' \<Longrightarrow>
    sem_step y (y\<lparr>sem := s', waking := waking y - 1\<rparr>)"
| split: "lease_grant_count_from n \<in># held y \<Longrightarrow> env_ok y \<Longrightarrow> split_leases (sem y) n k = (s', Inr (a, b)) \<Longrightarrow>
    sem_step y (y\<lparr>sem := s', held := held y - {#lease_grant_count_from n#} + {#lease_grant_count_from a, lease_grant_count_from b#}\<rparr>)"
| spawn: "lease_grant_count_from n \<in># held y \<Longrightarrow> env_ok y \<Longrightarrow>
    sem_step y (y\<lparr>sem := spawn_trivial_lease (sem y), held := add_mset TrivialLease (held y)\<rparr>)"
| leak: "Leases n \<in># held y \<Longrightarrow> leak (sem y) n = Ok s' \<Longrightarrow> sem_step y (y\<lparr>sem := s', held := held y - {#Leases n#}\<rparr>)"
| resize: "ExclusiveAll \<in># held y \<Longrightarrow> c < 2 ^ 63 \<Longrightarrow> resize_future (sem y) c = Ok s' \<Longrightarrow> sem_step y (y\<lparr>sem := s'\<rparr>)"
| downgrade: "ExclusiveAll \<in># held y \<Longrightarrow> env_ok y \<Longrightarrow> downgrade (sem y) = Ok (s', n) \<Longrightarrow>
    sem_step y (y\<lparr>sem := s', held := add_mset (lease_grant_count_from n) (held y - {#ExclusiveAll#})\<rparr>)"

inductive sem_reachable :: "nat \<Rightarrow> sem_sys \<Rightarrow> bool" for c where
  start: "c < 2 ^ 63 \<Longrightarrow> sem_new c = Ok s \<Longrightarrow> sem_reachable c (sys_new s)"
| step: "sem_reachable c y \<Longrightarrow> sem_step y y' \<Longrightarrow> sem_reachable c y'"

section \<open>The invariant of the system\<close>

definition linked :: "sem_state \<Rightarrow> (nat \<times> lease_grant_count) list \<Rightarrow> bool" where
  "linked s W \<longleftrightarrow> distinct (map fst W) \<and> (\<forall>p \<in> set W. fst p \<le> last_waiter_id s)
     \<and> (\<forall>e \<in> set (queue s). (waiter_id e, leases_requested e) \<in> set W)"

definition sys_inv :: "sem_sys \<Rightarrow> bool" where
  "sys_inv y \<longleftrightarrow> sem_inv (sem y) (grants y) \<and> settled (sem y) \<and> linked (sem y) (waiting y)
     \<and> (head_blocked (sem y) \<or> 0 < deciding y + waking y)"

lemma linked_split:
  assumes "linked s W" "queue_inv s"
  shows "mset (map snd W) = requests s + mset (map snd (filter (\<lambda>p. fst p \<notin> waiter_id ` set (queue s)) W))"
proof -
  let ?Q = "map (\<lambda>e. (waiter_id e, leases_requested e)) (queue s)"
  let ?F = "filter (\<lambda>p. fst p \<in> waiter_id ` set (queue s)) W"
  have inj: "inj_on fst (set W)" using assms(1) by (simp add: linked_def distinct_map)
  have sets: "set ?F = set ?Q"
  proof (rule set_eqI)
    fix p show "p \<in> set ?F \<longleftrightarrow> p \<in> set ?Q"
    proof
      assume "p \<in> set ?F"
      then obtain e where e: "e \<in> set (queue s)" "fst p = waiter_id e" "p \<in> set W" by auto
      then have "(waiter_id e, leases_requested e) \<in> set W" using assms(1) by (simp add: linked_def)
      then have "p = (waiter_id e, leases_requested e)" using e inj_onD [OF inj, of p "(waiter_id e, leases_requested e)"] by simp
      then show "p \<in> set ?Q" using e(1) by auto
    qed (use assms(1) in \<open>auto simp: linked_def\<close>)
  qed
  have dF: "distinct ?F" using assms(1) by (auto simp: linked_def distinct_map)
  have "distinct (map fst ?Q)" using assms(2) by (simp add: queue_inv_def comp_def)
  then have dQ: "distinct ?Q" using distinct_map [of fst ?Q] by blast
  have "mset ?F = mset ?Q" using iffD1 [OF set_eq_iff_mset_eq_distinct [OF dF dQ] sets] .
  then have "mset (map snd ?F) = mset (map snd ?Q)" unfolding mset_map by (rule arg_cong)
  also have "mset (map snd ?Q) = requests s" by (simp add: requests_def comp_def)
  finally have F: "mset (map snd ?F) = requests s" .
  have "mset W = mset ?F + mset (filter (\<lambda>p. fst p \<notin> waiter_id ` set (queue s)) W)" by (simp add: multiset_partition)
  from arg_cong [OF this, of "image_mset snd"] show ?thesis using F unfolding image_mset_union mset_map by (simp only:)
qed

lemma total_eq: "sys_inv y \<Longrightarrow> total y = grants y + requests (sem y)"
  using linked_split [of "sem y" "waiting y"] by (simp add: sys_inv_def total_def grants_def sem_inv_def ac_simps)

lemma sys_invI:
  assumes "sem_inv (sem y) G" "G + requests (sem y) = total y" "settled (sem y)" "linked (sem y) (waiting y)"
    "head_blocked (sem y) \<or> 0 < deciding y + waking y"
  shows "sys_inv y"
proof -
  have "total y = grants y + requests (sem y)"
    using linked_split [OF assms(4)] assms(1) by (simp add: total_def grants_def sem_inv_def ac_simps)
  then have "grants y = G" using assms(2) by simp
  then show ?thesis using assms by (simp add: sys_inv_def)
qed

lemma linked_evolves: "linked s W \<Longrightarrow> evolves s s' \<Longrightarrow> linked s' W"
  by (auto simp: linked_def evolves_def) (metis)

lemma linked_remove:
  assumes "linked s W" "wid \<notin> waiter_id ` set (queue s)"
  shows "linked s (remove1 (wid, r) W)"
proof -
  have "(waiter_id e, leases_requested e) \<in> set (remove1 (wid, r) W)" if "e \<in> set (queue s)" for e
  proof -
    have "waiter_id e \<noteq> wid" using assms(2) that by auto
    then show ?thesis using assms(1) that by (simp add: linked_def)
  qed
  moreover have "distinct (map fst (remove1 (wid, r) W))" using assms(1)
    by (auto simp: linked_def distinct_map intro: inj_on_subset)
  ultimately show ?thesis using assms(1) notin_set_remove1 [of _ W] by (auto simp: linked_def)
qed

text \<open>
  The shapes of the steps: a grant is given back or changed, a future is dropped, a request is added.
\<close>

lemma sys_step_held:
  assumes "sys_inv y" "sem_inv s' G'" "G' + requests s' + held y = grants y + requests (sem y) + H'" "evolves (sem y) s'" "settled s'"
    "head_blocked s' \<or> 0 < d + w"
  shows "sys_inv \<lparr>sem = s', held = H', waiting = waiting y, deciding = d, waking = w\<rparr>"
proof -
  have lk: "linked s' (waiting y)" using assms(1,4) linked_evolves by (auto simp: sys_inv_def)
  have "total y + H' = G' + requests s' + held y" using assms(3) total_eq [OF assms(1)] by simp
  then have "G' + requests s' = H' + mset (map snd (waiting y))" by (simp add: total_def ac_simps)
  then show ?thesis using assms(2,5,6) lk by (intro sys_invI [of _ G']) (auto simp: total_def)
qed

lemma sys_step_leave:
  assumes "sys_inv y" "(wid, r) \<in> set (waiting y)" "sem_inv s' G'" "add_mset r (G' + requests s' + held y) = grants y + requests (sem y) + H'"
    "evolves (sem y) s'" "wid \<notin> waiter_id ` set (queue s')" "settled s'" "head_blocked s' \<or> 0 < d + w"
  shows "sys_inv \<lparr>sem = s', held = H', waiting = remove1 (wid, r) (waiting y), deciding = d, waking = w\<rparr>"
proof -
  have lk: "linked s' (remove1 (wid, r) (waiting y))"
    using assms(1,5,6) linked_evolves linked_remove by (metis sys_inv_def)
  have W: "mset (map snd (waiting y)) = add_mset r (mset (map snd (remove1 (wid, r) (waiting y))))"
  proof -
    have "mset (waiting y) = add_mset (wid, r) (mset (remove1 (wid, r) (waiting y)))" using assms(2) by simp
    then show ?thesis by (metis image_mset_add_mset mset_map snd_conv)
  qed
  have "total y + H' = add_mset r (G' + requests s' + held y)" using assms(4) total_eq [OF assms(1)] by simp
  then have "G' + requests s' = H' + mset (map snd (remove1 (wid, r) (waiting y)))" using W by (simp add: total_def ac_simps)
  then show ?thesis using assms(3,7,8) lk by (intro sys_invI [of _ G']) (auto simp: total_def)
qed

lemma sys_step_acquired:
  assumes inv: "sys_inv y" and acq: "acquired (sem y) (grants y) r s' w"
  shows "sys_inv (case w of None \<Rightarrow> y\<lparr>sem := s', held := add_mset r (held y)\<rparr> | Some wid \<Rightarrow> y\<lparr>sem := s', waiting := waiting y @ [(wid, r)]\<rparr>)"
proof (cases w)
  case None
  then have s': "sem_inv s' (add_mset r (grants y))" "queue s' = queue (sem y)" "last_waiter_id s' = last_waiter_id (sem y)" "settled s'"
    "head_blocked (sem y) \<longrightarrow> head_blocked s'" using acq by (simp_all add: acquired_def)
  have "requests s' = requests (sem y)" using s'(2) by (simp add: requests_def)
  then show ?thesis using sys_step_held [OF inv s'(1) _ evolves_queue [OF s'(2,3)] s'(4), of "add_mset r (held y)" "deciding y" "waking y"] s'(5) inv None
    by (cases y) (auto simp: sys_inv_def)
next
  case (Some wid)
  then have s': "sem_inv s' (grants y)" "last_waiter_id s' = wid" "last_waiter_id (sem y) < wid"
    "queue s' = queue (sem y) @ [\<lparr>leases_requested = r, waker = None, waiter_id = wid\<rparr>]" "settled s'"
    "head_blocked (sem y) \<longrightarrow> head_blocked s'" using acq by (simp_all add: acquired_def)
  let ?y = "y\<lparr>sem := s', waiting := waiting y @ [(wid, r)]\<rparr>"
  have "wid \<notin> fst ` set (waiting y)" using inv s'(3) by (fastforce simp: sys_inv_def linked_def)
  then have "linked s' (waiting y @ [(wid, r)])" using inv s'(2-4) by (auto simp: sys_inv_def linked_def)
  moreover have "grants y + requests s' = total ?y"
    using total_eq [OF inv] s'(4) by (simp add: total_def requests_def ac_simps)
  ultimately have "sys_inv ?y" using s'(1,5,6) inv by (intro sys_invI [of _ "grants y"]) (auto simp: sys_inv_def)
  then show ?thesis by (simp add: Some)
qed


lemma acquire_leases_cases:
  assumes inv: "sem_inv s G" and st: "settled s" and room: "roomy s G (lease_grant_count_from n)"
    and run: "acquire_leases (\<lambda>s. s) mem s n = Ok (s', r)"
  shows "case r of Inl e \<Rightarrow> s' = s | Inr (Enqueued wid m) \<Rightarrow> m = n \<and> acquired s G (lease_grant_count_from n) s' (Some wid)
    | Inr (LeasesGranted m) \<Rightarrow> m = n \<and> acquired s G (lease_grant_count_from n) s' None | Inr LeasesDone \<Rightarrow> False"
proof (cases "n \<le> max_leases s")
  case False
  then show ?thesis using run by (auto simp: acquire_leases_def prepare_acquire_leases_def try_acquire_leases_def)
next
  case n: True
  obtain s1 granted where attempt: "try_acquire_leases s n = Ok (s1, Inr granted)" and ok: "granted \<Longrightarrow> acquired s G (lease_grant_count_from n) s1 None"
    and no: "\<not> granted \<Longrightarrow> s1 = s" by (rule try_acquire_leases_spec [OF inv st room n]) blast
  consider granted | "\<not> granted" "\<not> mem" | "\<not> granted" mem by blast
  then show ?thesis
  proof cases
    case 1
    then have "s' = s1" "r = Inr (LeasesGranted n)" using run attempt by (simp_all add: acquire_leases_def prepare_acquire_leases_def)
    then show ?thesis using ok 1 by simp
  next
    case 2
    then have "s' = s" "\<exists>e. r = Inl e" using run attempt no by (auto simp: acquire_leases_def prepare_acquire_leases_def enqueue_waiter_def)
    then show ?thesis by auto
  next
    case 3
    then have "last_waiter_id s + 1 < u64_bound"
      using run attempt no by (auto simp: acquire_leases_def prepare_acquire_leases_def enqueue_waiter_def outcome_simps add_u64_def split: if_splits)
    from prepare_acquire_leases_spec [OF inv st room n this] obtain s2 w where
      p: "prepare_acquire_leases (\<lambda>s. s) True s n = Ok (s2, Inr w)" "acquired s G (lease_grant_count_from n) s2 w" by blast
    show ?thesis using run p 3 by (cases w) (auto simp: acquire_leases_def)
  qed
qed

lemma acquire_exclusive_all_cases:
  assumes inv: "sem_inv s G" and st: "settled s" and run: "acquire_exclusive_all (\<lambda>s. s) mem s = Ok (s', r)"
  shows "case r of Inl e \<Rightarrow> sem_inv s' G \<and> settled s' \<and> (head_blocked s \<longrightarrow> head_blocked s') \<and> queue s' = queue s \<and> last_waiter_id s' = last_waiter_id s
    | Inr (ExclusiveEnqueued wid) \<Rightarrow> acquired s G ExclusiveAll s' (Some wid)
    | Inr ExclusiveGranted \<Rightarrow> acquired s G ExclusiveAll s' None | Inr ExclusiveDone \<Rightarrow> False"
proof -
  obtain s1 s2 granted where s: "acquire_exclusive_all_begin s = Ok s1" "try_acquire_exclusive_all_locked s1 = Ok (s2, granted)"
    "last_waiter_id s1 = last_waiter_id s"
    and ok: "granted \<longrightarrow> (\<exists>s3. acquire_exclusive_all_end s2 = Ok s3 \<and> acquired s G ExclusiveAll s3 None)" and no: "\<not> granted \<longrightarrow> s2 = s1"
    by (rule exclusive_attempt [OF inv st]) blast
  consider granted | "\<not> granted" "\<not> mem" | "\<not> granted" mem by blast
  then show ?thesis
  proof cases
    case 1
    then obtain s3 where "acquire_exclusive_all_end s2 = Ok s3" "acquired s G ExclusiveAll s3 None" using ok by blast
    then show ?thesis using run s 1 by (auto simp: acquire_exclusive_all_def prepare_acquire_exclusive_all_def)
  next
    case 2
    let ?p = "prepare_acquire_exclusive_all (\<lambda>s. s) False s"
    have "\<forall>x. ?p \<noteq> Ok (s', Inr x)"
    proof -
      have "?p = and_then (acquire_exclusive_all_end s1) (\<lambda>s. Ok (s, Inl SemMemoryAllocationFailure))"
        using s(1,2) no 2 by (simp add: prepare_acquire_exclusive_all_def enqueue_waiter_def)
      then show ?thesis by (cases "acquire_exclusive_all_end s1") simp_all
    qed
    moreover have "and_then ?p (\<lambda>(s, r). case r of Inl e \<Rightarrow> Ok (s, Inl e) | Inr (Some wid) \<Rightarrow> Ok (s, Inr (ExclusiveEnqueued wid))
      | Inr None \<Rightarrow> Ok (s, Inr ExclusiveGranted)) = Ok (s', r)" using run 2 by (simp add: acquire_exclusive_all_def)
    ultimately obtain e where e: "?p = Ok (s', Inl e)" "r = Inl e"
      by (cases ?p) (auto split: sum.splits option.splits)
    show ?thesis unfolding e(2) using prepare_acquire_exclusive_all_fails [OF inv st e(1)] by simp
  next
    case 3
    have "last_waiter_id s + 1 < u64_bound"
    proof (rule ccontr)
      assume "\<not> last_waiter_id s + 1 < u64_bound"
      then have "prepare_acquire_exclusive_all (\<lambda>s. s) True s = Panic"
        using s no 3 by (simp add: prepare_acquire_exclusive_all_def enqueue_waiter_def add_u64_def Let_def)
      then show False using run 3 by (simp add: acquire_exclusive_all_def)
    qed
    from prepare_acquire_exclusive_all_spec [OF inv st this] obtain s2 w where
      p: "prepare_acquire_exclusive_all (\<lambda>s. s) True s = Ok (s2, Inr w)" "acquired s G ExclusiveAll s2 w" by blast
    show ?thesis using run p 3 by (cases w) (auto simp: acquire_exclusive_all_def)
  qed
qed

lemma env_roomy:
  assumes "sys_inv y" "env_ok y"
  shows "roomy (sem y) (grants y) r"
proof -
  have "count (grants y + requests (sem y)) TrivialLease + 2 < u64_bound" using assms(2) total_eq [OF assms(1)] by (simp add: env_ok_def)
  then show ?thesis by (simp add: roomy_def room_def)
qed

lemma held_grants: "r \<in># held y \<Longrightarrow> r \<in># grants y"
  by (simp add: grants_def)

lemma sys_inv_D:
  assumes "sys_inv y"
  shows "sem_inv (sem y) (grants y)" "settled (sem y)" "head_blocked (sem y) \<or> 0 < deciding y + waking y"
  using assms by (simp_all add: sys_inv_def)

lemma held_remove:
  assumes "r \<in># held y" "add_mset r (G' + R') = grants y + R"
  shows "G' + R' + held y = grants y + R + (held y - {#r#})"
proof -
  obtain H0 where "held y = add_mset r H0" using assms(1) by (meson mset_add)
  then show ?thesis using assms(2) by (simp add: ac_simps flip: add_mset_add_single)
qed

lemma return_step:
  assumes inv: "sys_inv y" and r: "r \<in># held y" and run: "return_grant (sem y) r = Ok s'"
  shows "sys_inv (y\<lparr>sem := s', held := held y - {#r#}\<rparr>)"
proof -
  note D = sys_inv_D [OF inv]
  obtain s1 G' where g: "return_grant (sem y) r = Ok s1" "sem_inv s1 G'" "add_mset r (G' + requests s1) = grants y + requests (sem y)" "evolves (sem y) s1"
    "head_blocked s1" "settled s1" by (rule return_grant_spec [OF D(1) held_grants [OF r] D(2)])
  have "s1 = s'" using g(1) run by simp
  then show ?thesis using sys_step_held [OF inv g(2) held_remove [OF r g(3)] g(4,6), of "deciding y" "waking y"] g(5) by (cases y) simp
qed

lemma cancel_step:
  assumes inv: "sys_inv y" and w: "(wid, r) \<in> set (waiting y)" and run: "cancel_waiter (sem y) wid r = Ok s'"
  shows "sys_inv (y\<lparr>sem := s', waiting := remove1 (wid, r) (waiting y)\<rparr>)"
proof -
  note D = sys_inv_D [OF inv]
  have lk: "linked (sem y) (waiting y)" using inv by (simp add: sys_inv_def)
  show ?thesis
  proof (cases "waiter_position (sem y) wid")
    case None
    then have gone: "wid \<notin> waiter_id ` set (queue (sem y))" using position_of_None by (simp add: waiter_position_def)
    then have "r \<in># grants y" using w by (force simp: grants_def)
    from return_grant_spec [OF D(1) this D(2)] obtain s1 G' where g: "return_grant (sem y) r = Ok s1" "sem_inv s1 G'"
      "add_mset r (G' + requests s1) = grants y + requests (sem y)" "evolves (sem y) s1" "head_blocked s1" "settled s1" .
    have "s1 = s'" using g(1) run None by (simp add: cancel_waiter_def)
    moreover have "wid \<notin> waiter_id ` set (queue s1)" using gone g(4) unfolding evolves_def image_iff by metis
    ultimately show ?thesis using sys_step_leave [OF inv w g(2) _ g(4) _ g(6), of "held y" "deciding y" "waking y"] g(3,5) by (cases y) simp
  next
    case (Some i)
    then have i: "i < length (queue (sem y))" "waiter_id (queue (sem y) ! i) = wid" using position_of_Some by (auto simp: waiter_position_def)
    have "(wid, leases_requested (queue (sem y) ! i)) \<in> set (waiting y)" using lk i by (auto simp: linked_def)
    then have r: "leases_requested (queue (sem y) ! i) = r" using w lk by (metis eq_key_imp_eq_value linked_def)
    obtain s1 G' where g: "cancel_waiter (sem y) wid r = Ok s1" "sem_inv s1 G'" "add_mset r (G' + requests s1) = grants y + requests (sem y)" "evolves (sem y) s1"
      "wid \<notin> waiter_id ` set (queue s1)" "settled s1" and hb: "head_blocked (sem y) \<Longrightarrow> head_blocked s1"
      by (rule cancel_waiter_spec [OF D(1,2) Some r]) blast
    have "s1 = s'" using g(1) run by simp
    then show ?thesis using sys_step_leave [OF inv w g(2) _ g(4,5,6), of "held y" "deciding y" "waking y"] g(3) hb D(3) by (cases y) auto
  qed
qed

lemma poll_step:
  assumes inv: "sys_inv y" and w: "(wid, r) \<in> set (waiting y)" and p: "poll_waiter (sem y) wid u = (s', completed)"
  shows "sys_inv (if completed then y\<lparr>sem := s', waiting := remove1 (wid, r) (waiting y), held := add_mset r (held y)\<rparr> else y\<lparr>sem := s'\<rparr>)"
proof -
  note D = sys_inv_D [OF inv] and sp = poll_waiter_spec [OF p]
  have s': "sem_inv s' (grants y)" "settled s'" "head_blocked s' \<or> 0 < deciding y + waking y" using D sp(2-4) by simp_all
  show ?thesis
  proof (cases completed)
    case True
    then have "wid \<notin> waiter_id ` set (queue s')" using sp(1,7) by (metis list.set_map)
    then show ?thesis using sys_step_leave [OF inv w s'(1) _ sp(6) _ s'(2,3), of "add_mset r (held y)"] sp(5) True by (cases y) simp
  next
    case False
    then show ?thesis using sys_step_held [OF inv s'(1) _ sp(6) s'(2,3), of "held y"] sp(5) by (cases y) simp
  qed
qed

lemma poll_fail_step:
  assumes inv: "sys_inv y" and w: "(wid, r) \<in> set (waiting y)" and p: "poll_waiter (sem y) wid u = (s1, False)"
    and failed: "failed_request (max_leases s1) r" and run: "remove_waiter s1 wid = Ok s'"
  shows "sys_inv (y\<lparr>sem := s', waiting := remove1 (wid, r) (waiting y)\<rparr>)"
proof -
  note sp = poll_waiter_spec [OF p]
  have inv1: "sys_inv (y\<lparr>sem := s1\<rparr>)" using poll_step [OF inv w p] by simp
  note D = sys_inv_D [OF inv1, simplified]
  have lk: "linked s1 (waiting y)" using inv1 by (simp add: sys_inv_def)
  obtain i where i: "position_of wid (queue s1) = Some i"
    using sp(1,7) position_of_None [of wid "queue s1"] by (metis list.set_map not_Some_eq)
  then have "i < length (queue s1)" "waiter_id (queue s1 ! i) = wid" using position_of_Some by blast+
  then have "(wid, leases_requested (queue s1 ! i)) \<in> set (waiting y)" using lk by (auto simp: linked_def)
  then have r: "leases_requested (queue s1 ! i) = r" using w lk by (metis eq_key_imp_eq_value linked_def)
  have failed': "failed_request (max_leases s1) (leases_requested (queue s1 ! i))" using failed r by simp
  obtain s2 where g: "remove_waiter s1 wid = Ok s2" "sem_inv s2 (grants (y\<lparr>sem := s1\<rparr>))" "requests s1 = add_mset (leases_requested (queue s1 ! i)) (requests s2)"
    "evolves s1 s2" "wid \<notin> waiter_id ` set (queue s2)" "settled s2" and hb: "head_blocked s1 \<Longrightarrow> head_blocked s2"
    by (rule remove_failed_spec [OF D(1,2) i failed']) blast
  have "s2 = s'" using g(1) run by simp
  then show ?thesis
    using sys_step_leave [OF inv1, of wid r s2 "grants (y\<lparr>sem := s1\<rparr>)" "held y" "deciding y" "waking y"] w g hb D(3) r by (cases y) auto
qed

lemma drop_trivial_step:
  assumes inv: "sys_inv y" and mem: "TrivialLease \<in># held y"
  shows "sys_inv (y\<lparr>sem := (sem y)\<lparr>trivial_leases_granted := fetch_sub_1 (trivial_leases_granted (sem y))\<rparr>,
      held := held y - {#TrivialLease#}, deciding := deciding y + (if trivial_leases_granted (sem y) = 1 then 1 else 0)\<rparr>)"
proof -
  let ?s = "sem y" and ?G = "grants y"
  note D = sys_inv_D [OF inv] and memG = held_grants [OF mem]
  obtain G0 where G0: "?G = add_mset TrivialLease G0" using memG by (meson mset_add)
  obtain s' wake where s': "sem_inv s' (?G - {#TrivialLease#})" "s' = ?s\<lparr>trivial_leases_granted := trivial_leases_granted ?s - 1\<rparr>"
    by (rule return_trivial_spec [OF D(1) memG]) blast
  have g: "grants_inv ?s ?G (ExclusiveAll \<in># requests ?s)" using D(1) by (simp add: sem_inv_def)
  have pos: "trivial_leases_granted ?s \<noteq> 0" using g by (simp add: grants_inv_def G0)
  have hb: "head_blocked ?s" using settled_grants [OF D(1,2)] G0 by simp
  have tb: "trivial_blocked s'" using D(2) by (intro trivial_blocked_cong [of s' ?s]) (auto simp: s'(2) settled_def is_exclusive_all_granted_def)
  have head: "head_blocked s'" if "\<And>e es. live ?s = e # es \<Longrightarrow> leases_requested e = ExclusiveAll \<Longrightarrow> trivial_leases_granted ?s \<noteq> 1"
    using hb
  proof (rule head_blocked_if)
    fix e es assume "live ?s = e # es" "grantable s' (leases_requested e)"
    then show "grantable ?s (leases_requested e)" using that pos
      by (auto simp: s'(2) grantable_def is_exclusive_all_granted_def split: lease_grant_count.splits)
  qed (simp add: s'(2))
  have "settled s' \<and> (head_blocked s' \<or> 0 < deciding y + (if trivial_leases_granted ?s = 1 then 1 else 0) + waking y)"
  proof (cases "trivial_leases_granted ?s = 1 \<and> (\<exists>e es. live ?s = e # es \<and> leases_requested e = ExclusiveAll)")
    case True
    then show ?thesis using tb by (auto simp: settled_def head_ok_def s'(2))
  next
    case False
    then show ?thesis using head tb blocked_settled by blast
  qed
  moreover have "fetch_sub_1 (trivial_leases_granted ?s) = trivial_leases_granted ?s - 1" using pos by (simp add: fetch_sub_1_def)
  moreover have "evolves ?s s'" by (rule evolves_queue) (simp_all add: s'(2))
  moreover have "?G - {#TrivialLease#} + requests s' + held y = ?G + requests ?s + (held y - {#TrivialLease#})"
    by (rule held_remove [OF mem]) (simp add: s'(2) G0)
  ultimately show ?thesis using sys_step_held [OF inv s'(1)] by (cases y) (simp add: s'(2))
qed


lemma drop_check_step:
  assumes inv: "sys_inv y" and c: "0 < deciding y"
  shows "sys_inv (y\<lparr>deciding := deciding y - 1, waking := waking y + (if leases_granted (sem y) = 0 then 1 else 0)\<rparr>)"
proof -
  note D = sys_inv_D [OF inv]
  have "head_blocked (sem y) \<or> leases_granted (sem y) = 0"
  proof (cases "head_blocked (sem y)")
    case False
    then obtain e es where "live (sem y) = e # es" "leases_requested e = ExclusiveAll" using D(2) by (auto simp: settled_def head_ok_def)
    then show ?thesis using False by (auto simp: head_blocked_def grantable_def)
  qed simp
  then show ?thesis using sys_step_held [OF inv D(1) _ evolves_refl D(2), of "held y"] by (cases y) auto
qed

lemma drop_wake_step:
  assumes inv: "sys_inv y" and run: "wake_completed_waiters (sem y) = Ok s'"
  shows "sys_inv (y\<lparr>sem := s', waking := waking y - 1\<rparr>)"
proof -
  note D = sys_inv_D [OF inv]
  obtain s1 G' where w: "wake_completed_waiters (sem y) = Ok s1" "sem_inv s1 G'" "G' + requests s1 = grants y + requests (sem y)" "woken_up (sem y) s1"
    "head_blocked s1" "settled s1" by (rule wake_completed_waiters_spec [OF D(1)])
  have "s1 = s'" using w(1) run by simp
  then show ?thesis using sys_step_held [OF inv w(2) _ woken_up_evolves [OF w(4)] w(6), of "held y" "deciding y" "waking y - 1"] w(3,5) by (cases y) simp
qed

lemma held_replace:
  assumes "r \<in># held y" "add_mset r (G' + R') = H + (grants y + R)"
  shows "G' + R' + held y = grants y + R + (held y - {#r#} + H)"
proof -
  obtain H0 where "held y = add_mset r H0" using assms(1) by (meson mset_add)
  then show ?thesis using assms(2) by (simp add: ac_simps flip: add_mset_add_single)
qed

lemma split_step:
  assumes inv: "sys_inv y" and r: "lease_grant_count_from n \<in># held y" and env: "env_ok y" and run: "split_leases (sem y) n k = (s', Inr (a, b))"
  shows "sys_inv (y\<lparr>sem := s', held := held y - {#lease_grant_count_from n#} + {#lease_grant_count_from a, lease_grant_count_from b#}\<rparr>)"
proof -
  note D = sys_inv_D [OF inv]
  have k: "k \<le> n" using run by (auto simp: split_leases_def split: if_splits)
  obtain s1 G' where g: "split_leases (sem y) n k = (s1, Inr (n - k, k))" "sem_inv s1 G'"
    "add_mset (lease_grant_count_from n) G' = add_mset (lease_grant_count_from (n - k)) (add_mset (lease_grant_count_from k) (grants y))"
    "requests s1 = requests (sem y)" "evolves (sem y) s1" "head_blocked s1" "settled s1"
    by (rule split_leases_spec [OF D(1,2) held_grants [OF r] k env_roomy [OF inv env]])
  have eq: "s1 = s'" "a = n - k" "b = k" using g(1) run by simp_all
  have "G' + requests s1 + held y = grants y + requests (sem y)
    + (held y - {#lease_grant_count_from n#} + {#lease_grant_count_from (n - k), lease_grant_count_from k#})"
    using g(3,4) by (intro held_replace [OF r]) simp
  from sys_step_held [OF inv g(2) this g(5,7), of "deciding y" "waking y"] g(6) eq show ?thesis by (cases y) simp
qed

lemma spawn_step:
  assumes inv: "sys_inv y" and r: "lease_grant_count_from n \<in># held y" and env: "env_ok y"
  shows "sys_inv (y\<lparr>sem := spawn_trivial_lease (sem y), held := add_mset TrivialLease (held y)\<rparr>)"
proof -
  note D = sys_inv_D [OF inv]
  note sp = spawn_spec [OF D(1,2) held_grants [OF r] request_from(3) env_roomy [OF inv env]]
  show ?thesis using sys_step_held [OF inv sp(1) _ sp(5,2), of "add_mset TrivialLease (held y)" "deciding y" "waking y"] sp(3,4) by (cases y) simp
qed

lemma leak_step:
  assumes inv: "sys_inv y" and r: "Leases n \<in># held y" and run: "leak (sem y) n = Ok s'"
  shows "sys_inv (y\<lparr>sem := s', held := held y - {#Leases n#}\<rparr>)"
proof -
  note D = sys_inv_D [OF inv]
  obtain s1 G' where g: "leak (sem y) n = Ok s1" "sem_inv s1 G'" "add_mset (Leases n) (G' + requests s1) = grants y + requests (sem y)" "evolves (sem y) s1"
    "head_blocked s1" "settled s1" by (rule leak_spec [OF D(1,2) held_grants [OF r]])
  have "s1 = s'" using g(1) run by simp
  then show ?thesis using sys_step_held [OF inv g(2) held_remove [OF r g(3)] g(4,6), of "deciding y" "waking y"] g(5) by (cases y) simp
qed

lemma resize_step:
  assumes inv: "sys_inv y" and r: "ExclusiveAll \<in># held y" and c: "c < 2 ^ 63" and run: "resize_future (sem y) c = Ok s'"
  shows "sys_inv (y\<lparr>sem := s'\<rparr>)"
proof -
  note D = sys_inv_D [OF inv]
  obtain s1 G' where g: "resize_future (sem y) c = Ok s1" "sem_inv s1 G'" "G' + requests s1 = grants y + requests (sem y)" "evolves (sem y) s1"
    "head_blocked s1" "settled s1" by (rule resize_future_spec [OF D(1) held_grants [OF r] c])
  have "s1 = s'" using g(1) run by simp
  then show ?thesis using sys_step_held [OF inv g(2) _ g(4,6), of "held y" "deciding y" "waking y"] g(3,5) by (cases y) simp
qed

lemma downgrade_step:
  assumes inv: "sys_inv y" and r: "ExclusiveAll \<in># held y" and env: "env_ok y" and run: "downgrade (sem y) = Ok (s', n)"
  shows "sys_inv (y\<lparr>sem := s', held := add_mset (lease_grant_count_from n) (held y - {#ExclusiveAll#})\<rparr>)"
proof -
  note D = sys_inv_D [OF inv]
  have room: "count (requests (sem y)) TrivialLease + 2 < u64_bound" using env total_eq [OF inv] by (simp add: env_ok_def)
  obtain s1 m G' where g: "downgrade (sem y) = Ok (s1, m)" "sem_inv s1 G'"
    "add_mset ExclusiveAll (G' + requests s1) = add_mset (lease_grant_count_from m) (grants y + requests (sem y))"
    "evolves (sem y) s1" "head_blocked s1" "settled s1" by (rule downgrade_spec [OF D(1) held_grants [OF r] room]) blast
  have eq: "s1 = s'" "m = n" using g(1) run by simp_all
  have "G' + requests s1 + held y = grants y + requests (sem y) + (held y - {#ExclusiveAll#} + {#lease_grant_count_from m#})"
    using g(3) by (intro held_replace [OF r]) simp
  from sys_step_held [OF inv g(2) this g(4,6), of "deciding y" "waking y"] g(5) eq show ?thesis by (cases y) simp
qed

lemma exclusive_failed_step:
  assumes inv: "sys_inv y"
    and a1: "acquire_exclusive_all (\<lambda>s. s) mem (sem y) = Ok (s', Inl e)"
  shows "sys_inv (y\<lparr>sem := s'\<rparr>)"
proof -
  note D = sys_inv_D [OF inv]
  have "sem_inv s' (grants y)" "settled s'" "head_blocked (sem y) \<longrightarrow> head_blocked s'" "queue s' = queue (sem y)" "last_waiter_id s' = last_waiter_id (sem y)"
    using acquire_exclusive_all_cases [OF D(1,2) a1] by simp_all
  then show ?thesis using sys_step_held [OF inv, of s' "grants y" "held y" "deciding y" "waking y"] D(3) evolves_queue [of s' "sem y"]
    by (cases y) (auto simp: requests_def)
qed

lemma try_acquire_step:
  assumes inv: "sys_inv y"
    and a1: "env_ok y"
    and a2: "try_acquire_leases (sem y) n = Ok (s', Inr granted)"
  shows "sys_inv (y\<lparr>sem := s', held := held y + (if granted then {#lease_grant_count_from n#} else {#})\<rparr>)"
proof -
  note D = sys_inv_D [OF inv]
  have n: "n \<le> max_leases (sem y)"
    using a2 by (auto simp: try_acquire_leases_def split: if_splits)
  obtain s1 g where "try_acquire_leases (sem y) n = Ok (s1, Inr g)" and ok: "g \<Longrightarrow> acquired (sem y) (grants y) (lease_grant_count_from n) s1 None" and no: "\<not> g \<Longrightarrow> s1 = sem y"
    by (rule try_acquire_leases_spec [OF D(1,2) env_roomy [OF inv a1] n]) blast
  then have "s1 = s'" "g = granted" using a2 by simp_all
  then show ?thesis using ok no sys_step_acquired [OF inv, of "lease_grant_count_from n" s' None] inv
    by (cases granted; cases y) simp_all
qed

lemma try_exclusive_step:
  assumes inv: "sys_inv y"
    and a1: "try_acquire_exclusive_all (sem y) = Ok (s', granted)"
  shows "sys_inv (y\<lparr>sem := s', held := held y + (if granted then {#ExclusiveAll#} else {#})\<rparr>)"
proof -
  note D = sys_inv_D [OF inv]
  from try_acquire_exclusive_all_spec [OF D(1,2)] a1
  have sp: "if granted then acquired (sem y) (grants y) ExclusiveAll s' None
    else sem_inv s' (grants y) \<and> settled s' \<and> (head_blocked (sem y) \<longrightarrow> head_blocked s') \<and> queue s' = queue (sem y) \<and> max_leases s' = max_leases (sem y)
      \<and> last_waiter_id s' = last_waiter_id (sem y)" by auto
  show ?thesis
  proof (cases granted)
    case True
    then show ?thesis using sp sys_step_acquired [OF inv, of ExclusiveAll s' None] by simp
  next
    case False
    then show ?thesis using sp sys_step_held [OF inv, of s' "grants y" "held y" "deciding y" "waking y"] D(3) evolves_queue [of s' "sem y"]
      by (cases y) (auto simp: requests_def)
  qed
qed

lemma step_inv:
  assumes "sem_step y y'" "sys_inv y"
  shows "sys_inv y'"
  using assms
proof (induction rule: sem_step.induct)
  case (acquire_enqueued y n s' wid m)
  note D = sys_inv_D [OF acquire_enqueued.prems]
  from acquire_leases_cases [OF D(1,2) env_roomy [OF acquire_enqueued.prems acquire_enqueued(1)] acquire_enqueued(2)]
  show ?case using sys_step_acquired [OF acquire_enqueued.prems, of "lease_grant_count_from n" s' "Some wid"] by simp
next
  case (acquire_granted y mem n s' m)
  note D = sys_inv_D [OF acquire_granted.prems]
  from acquire_leases_cases [OF D(1,2) env_roomy [OF acquire_granted.prems acquire_granted(1)] acquire_granted(2)]
  show ?case using sys_step_acquired [OF acquire_granted.prems, of "lease_grant_count_from n" s' None] by simp
next
  case (acquire_failed y mem n s' e)
  note D = sys_inv_D [OF acquire_failed.prems]
  from acquire_leases_cases [OF D(1,2) env_roomy [OF acquire_failed.prems acquire_failed(1)] acquire_failed(2)]
  show ?case using acquire_failed.prems by (cases y) simp
next
  case (exclusive_enqueued y s' wid)
  note D = sys_inv_D [OF exclusive_enqueued.prems]
  from acquire_exclusive_all_cases [OF D(1,2) exclusive_enqueued(1)]
  show ?case using sys_step_acquired [OF exclusive_enqueued.prems, of ExclusiveAll s' "Some wid"] by simp
next
  case (exclusive_granted mem y s')
  note D = sys_inv_D [OF exclusive_granted.prems]
  from acquire_exclusive_all_cases [OF D(1,2) exclusive_granted(1)]
  show ?case using sys_step_acquired [OF exclusive_granted.prems, of ExclusiveAll s' None] by simp
next
  case exclusive_failed
  then show ?case by (intro exclusive_failed_step)
next
  case try_acquire
  then show ?case by (intro try_acquire_step)
next
  case try_exclusive
  then show ?case by (intro try_exclusive_step)
next
  case (poll_pending wid n y w s' fut)
  obtain s1 c where p: "poll_waiter (sem y) wid w = (s1, c)" by (metis surj_pair)
  then have "\<not> c" "s1 = s'" using poll_pending(2) by (auto simp: poll_leases_future_def outcome_simps split: if_splits)
  then show ?case using poll_step [OF poll_pending.prems poll_pending(1) p] by simp
next
  case (poll_ready wid n y w s' fut m)
  obtain s1 c where p: "poll_waiter (sem y) wid w = (s1, c)" by (metis surj_pair)
  then have "c" "s1 = s'" "m = n" using poll_ready(2) by (auto simp: poll_leases_future_def outcome_simps split: if_splits)
  then show ?case using poll_step [OF poll_ready.prems poll_ready(1) p] by simp
next
  case (poll_failed wid n y w s' fut e)
  obtain s1 c where p: "poll_waiter (sem y) wid w = (s1, c)" by (metis surj_pair)
  then have c: "\<not> c" "max_leases s1 < n" "remove_waiter s1 wid = Ok s'" using poll_failed(2) by (auto simp: poll_leases_future_def outcome_simps split: if_splits)
  then have "failed_request (max_leases s1) (lease_grant_count_from n)" by (auto simp: failed_request_def lease_grant_count_from_def)
  then show ?case using poll_fail_step [OF poll_failed.prems poll_failed(1)] p c by simp
next
  case (poll_exclusive_pending wid y w s' fut)
  obtain s1 c where p: "poll_waiter (sem y) wid w = (s1, c)" by (metis surj_pair)
  then have "\<not> c" "s1 = s'" using poll_exclusive_pending(2) by (auto simp: poll_exclusive_all_future_def split: if_splits)
  then show ?case using poll_step [OF poll_exclusive_pending.prems poll_exclusive_pending(1) p] by simp
next
  case (poll_exclusive_ready wid y w s' fut r)
  obtain s1 c where p: "poll_waiter (sem y) wid w = (s1, c)" by (metis surj_pair)
  then have "c" "s1 = s'" using poll_exclusive_ready(2) by (auto simp: poll_exclusive_all_future_def split: if_splits)
  then show ?case using poll_step [OF poll_exclusive_ready.prems poll_exclusive_ready(1) p] by simp
next
  case (drop_waiting wid n y s')
  then show ?case using cancel_step [OF drop_waiting.prems drop_waiting(1)] by (simp add: drop_leases_future_def)
next
  case (drop_waiting_exclusive wid y s')
  then show ?case using cancel_step [OF drop_waiting_exclusive.prems drop_waiting_exclusive(1)] by (simp add: drop_exclusive_all_future_def)
next
  case (drop_granted n y s')
  then show ?case using return_step [OF drop_granted.prems drop_granted(1)] by (simp add: drop_leases_future_def)
next
  case (drop_leases n y s')
  have "Leases n \<noteq> Leases 0" using drop_leases.prems held_grants [OF drop_leases(1)]
    by (cases n) (auto simp: sys_inv_def sem_inv_def grants_inv_def)
  then show ?case using return_step [OF drop_leases.prems drop_leases(1)] drop_leases(2) by (simp add: drop_leases_guard_def lease_grant_count_from_def)
next
  case (drop_exclusive y s')
  then show ?case using return_step [OF drop_exclusive.prems drop_exclusive(1)] by (simp add: drop_exclusive_all_guard_def)
next
  case drop_trivial
  then show ?case by (intro drop_trivial_step)
next
  case drop_trivial_check
  then show ?case by (intro drop_check_step)
next
  case drop_trivial_wake
  then show ?case by (intro drop_wake_step)
next
  case split
  then show ?case by (intro split_step)
next
  case spawn
  then show ?case by (intro spawn_step)
next
  case leak
  then show ?case by (intro leak_step)
next
  case resize
  then show ?case by (intro resize_step)
next
  case downgrade
  then show ?case by (intro downgrade_step)
qed

lemma new_inv:
  assumes "c < 2 ^ 63" "sem_new c = Ok s"
  shows "sys_inv (sys_new s)"
proof -
  have s: "s = \<lparr>queue = [], max_leases = c, last_waiter_id = 0, enqueued_trivial_lease_waiters = 0,
      enqueued_exclusive_all_waiters = 0, leases_granted = 0, trivial_leases_granted = 1, woken = []\<rparr>"
    using assms(2) by (simp add: sem_new_def outcome_simps)
  have "requests s = {#}" "live s = []" by (simp_all add: s requests_def live_def)
  then show ?thesis using assms(1)
    by (auto simp: sys_inv_def sys_new_def grants_def sem_inv_def queue_inv_def grants_inv_def room_def settled_def head_ok_def head_blocked_def
        trivial_blocked_def linked_def s)
qed

lemma reachable_inv: "sem_reachable c y \<Longrightarrow> sys_inv y"
  by (induction rule: sem_reachable.induct) (auto intro: new_inv step_inv)

section \<open>Properties of the reachable states\<close>

lemma live_nil_if_free:
  assumes "sem_inv s {#}" "head_blocked s"
  shows "live s = []"
proof (rule ccontr)
  assume "live s \<noteq> []"
  then obtain e es where e: "live s = e # es" by (cases "live s") auto
  then have "e \<in> set (live s)" by simp
  then have mem: "e \<in> set (queue s)" "\<not> failed_request (max_leases s) (leases_requested e)" by (auto simp: live_def)
  then have "leases_requested e \<in># requests s" by (auto simp: requests_def)
  moreover have "leases_granted s = 0" "trivial_leases_granted s = (if ExclusiveAll \<in># requests s then 0 else 1)"
    using assms(1) by (auto simp: sem_inv_def grants_inv_def)
  ultimately have "grantable s (leases_requested e)" using mem(2)
    by (cases "leases_requested e") (auto simp: grantable_def failed_request_def is_exclusive_all_granted_def)
  then show False using assms(2) e by (simp add: head_blocked_def)
qed





text \<open>
  C1: in every state reached by runs in which no other user acts while \<open>enqueue_waiter\<close> has dropped its lock to
  reserve memory, an exclusive grant excludes all other grants, trivial ones included, and otherwise the
  leases handed out are the ones accounted for and stay within the capacity, whatever order the users
  acquire, poll, drop, split, spawn, leak, resize and downgrade in.
\<close>

theorem sem_exclusion:
  assumes "sem_reachable c y"
  shows "if ExclusiveAll \<in># grants y then grants y = {#ExclusiveAll#}
    else leases_of (grants y) = leases_granted (sem y) \<and> leases_granted (sem y) \<le> max_leases (sem y)"
  using reachable_inv [OF assms] by (auto simp: sys_inv_def sem_inv_def grants_inv_def)

text \<open>
  C10: no wakeup is lost in runs in which no other user acts while \<open>enqueue_waiter\<close> has dropped its lock to
  reserve memory for the queue. In every state they reach, once no thread is in the middle of returning a trivial
  lease, the first satisfiable request of the queue cannot be granted, and the trivial requests wait behind an
  exclusive one; in particular no satisfiable request waits when all grants have been returned. In other runs a
  wakeup can be lost, as the property on the reservation below shows.
\<close>

theorem sem_no_lost_wakeup:
  assumes "sem_reachable c y" "deciding y = 0" "waking y = 0"
  shows "head_blocked (sem y) \<and> trivial_blocked (sem y) \<and> (grants y = {#} \<longrightarrow> live (sem y) = [])"
  using reachable_inv [OF assms(1)] assms(2,3) live_nil_if_free [of "sem y"] by (auto simp: sys_inv_def settled_def)


text \<open>A system of capacity four with three leases handed out and an exclusive request waiting for them.\<close>

definition busy_sem :: sem_state where
  "busy_sem = \<lparr>queue = [\<lparr>leases_requested = ExclusiveAll, waker = None, waiter_id = 1\<rparr>], max_leases = 4, last_waiter_id = 1,
     enqueued_trivial_lease_waiters = 0, enqueued_exclusive_all_waiters = 1, leases_granted = 3, trivial_leases_granted = 0, woken = []\<rparr>"

definition busy_sys :: sem_sys where
  "busy_sys = \<lparr>sem = busy_sem, held = {#Leases 3#}, waiting = [(1, ExclusiveAll)], deciding = 0, waking = 0\<rparr>"

lemmas sem_eval = outcome_simps acquire_leases_def prepare_acquire_leases_def try_acquire_leases_def has_uncancelled_waiters_def try_grant_one_def
  lease_grant_count_from_def acquire_exclusive_all_def prepare_acquire_exclusive_all_def acquire_exclusive_all_begin_def has_exclusive_all_waiters_def
  try_acquire_exclusive_all_locked_def enqueue_waiter_def fetch_sub_1_def

lemma busy_reachable: "sem_reachable 4 busy_sys"
proof -
  obtain s0 where s0: "sem_new 4 = Ok s0" "s0 = \<lparr>queue = [], max_leases = 4, last_waiter_id = 0, enqueued_trivial_lease_waiters = 0,
    enqueued_exclusive_all_waiters = 0, leases_granted = 0, trivial_leases_granted = 1, woken = []\<rparr>" by (simp add: sem_new_def outcome_simps)
  have "sem_reachable 4 (sys_new s0)" by (rule sem_reachable.start [OF _ s0(1)]) simp
  moreover have "acquire_leases (\<lambda>s. s) True s0 3 = Ok (s0\<lparr>leases_granted := 3\<rparr>, Inr (LeasesGranted 3))" by (simp add: sem_eval s0(2))
  ultimately have "sem_reachable 4 \<lparr>sem = s0\<lparr>leases_granted := 3\<rparr>, held = {#Leases 3#}, waiting = [], deciding = 0, waking = 0\<rparr>"
    using sem_reachable.step [OF _ sem_step.acquire_granted [of "sys_new s0" True 3 _ 3]]
    by (simp add: sys_new_def env_ok_def total_def lease_grant_count_from_def)
  moreover have "acquire_exclusive_all (\<lambda>s. s) True (s0\<lparr>leases_granted := 3\<rparr>) = Ok (busy_sem, Inr (ExclusiveEnqueued 1))"
    by (simp add: sem_eval s0(2) busy_sem_def)
  ultimately show ?thesis using sem_reachable.step [OF _ sem_step.exclusive_enqueued [of _ busy_sem 1]] by (force simp: busy_sys_def)
qed

theorem sem_exclusion_witness: "sem_reachable 4 busy_sys \<and> leases_granted (sem busy_sys) = 3 \<and> leases_of (grants busy_sys) = leases_granted (sem busy_sys)"
  using sem_exclusion [OF busy_reachable] busy_reachable by (simp add: busy_sys_def busy_sem_def grants_def)

theorem sem_no_lost_wakeup_witness: "sem_reachable 4 busy_sys \<and> deciding busy_sys = 0 \<and> waking busy_sys = 0 \<and> head_blocked (sem busy_sys)"
  using sem_no_lost_wakeup [OF busy_reachable] busy_reachable by (simp add: busy_sys_def)


section \<open>When the lock is dropped\<close>

text \<open>One lease of one is handed out.\<close>

definition one_sem :: sem_state where
  "one_sem = \<lparr>queue = [], max_leases = 1, last_waiter_id = 0, enqueued_trivial_lease_waiters = 0, enqueued_exclusive_all_waiters = 0,
     leases_granted = 1, trivial_leases_granted = 1, woken = []\<rparr>"

text \<open>
  C26: a wakeup is lost when the reservation of memory for the queue drops the lock. If the only lease of
  a semaphore is returned in between, nobody is left to wake the waiter that is enqueued thereafter: all
  grants are free, yet the first request of the queue, which could be granted, waits.
\<close>

theorem enqueue_lost_wakeup:
  "\<exists>s1 s2 wid. return_grant one_sem (Leases 1) = Ok s1
     \<and> prepare_acquire_leases (\<lambda>_. s1) True one_sem 1 = Ok (s2, Inr (Some wid))
     \<and> sem_inv one_sem {#Leases 1#} \<and> sem_inv s2 {#} \<and> \<not> head_blocked s2"
proof -
  let ?s1 = "one_sem\<lparr>leases_granted := 0\<rparr>"
  let ?s2 = "?s1\<lparr>last_waiter_id := 1, queue := [\<lparr>leases_requested = Leases 1, waker = None, waiter_id = 1\<rparr>]\<rparr>"
  have "return_grant one_sem (Leases 1) = Ok ?s1"
    by (simp add: return_grant_def one_sem_def outcome_simps wake_completed_waiters_def wake_loop.simps)
  moreover have "prepare_acquire_leases (\<lambda>_. ?s1) True one_sem 1 = Ok (?s2, Inr (Some 1))"
    by (simp add: sem_eval one_sem_def)
  moreover have "sem_inv one_sem {#Leases 1#}" "sem_inv ?s2 {#}"
    by (simp_all add: sem_inv_def one_sem_def queue_inv_def grants_inv_def room_def requests_def)
  moreover have "\<not> head_blocked ?s2" by (simp add: head_blocked_def live_def one_sem_def failed_request_def grantable_def)
  ultimately show ?thesis by blast
qed

text \<open>
  while an exclusive request waits for memory its waiter is counted but not queued, so that any other
  operation that looks for exclusive requests then fails its debug assertion.
\<close>

theorem exclusive_window_panic:
  "acquire_exclusive_all_begin one_sem = Ok (one_sem\<lparr>trivial_leases_granted := 0\<rparr>)
   \<and> try_acquire_exclusive_all_locked (one_sem\<lparr>trivial_leases_granted := 0\<rparr>) = Ok (one_sem\<lparr>trivial_leases_granted := 0\<rparr>, False)
   \<and> try_acquire_exclusive_all (one_sem\<lparr>trivial_leases_granted := 0, enqueued_exclusive_all_waiters := 1\<rparr>) = Panic
   \<and> try_acquire_leases (one_sem\<lparr>trivial_leases_granted := 0, enqueued_exclusive_all_waiters := 1\<rparr>) 0 = Panic"
  by (simp add: sem_eval one_sem_def try_acquire_exclusive_all_def try_acquire_trivial_lease_locked_def)

section \<open>The order of grants\<close>

definition fifo_sem :: sem_state where
  "fifo_sem = \<lparr>queue = [\<lparr>leases_requested = Leases 3, waker = None, waiter_id = 1\<rparr>, \<lparr>leases_requested = Leases 3, waker = None, waiter_id = 2\<rparr>,
      \<lparr>leases_requested = Leases 1, waker = None, waiter_id = 3\<rparr>, \<lparr>leases_requested = TrivialLease, waker = None, waiter_id = 4\<rparr>],
     max_leases = 4, last_waiter_id = 4, enqueued_trivial_lease_waiters = 1, enqueued_exclusive_all_waiters = 0,
     leases_granted = 5, trivial_leases_granted = 1, woken = []\<rparr>"

text \<open>
  Regular leases are not granted in the order of the queue. While a trivial request waits at the end of the
  queue, the return of the exclusive grant hands out a small request that is behind a bigger one, which keeps waiting.
\<close>

theorem wake_out_of_order:
  "sem_inv fifo_sem {#ExclusiveAll#} \<and>
   (\<exists>s'. drop_exclusive_all_guard fifo_sem = Ok s' \<and> map waiter_id (queue s') = [2] \<and> leases_granted s' = 4)"
  by (simp add: fifo_sem_def sem_inv_def queue_inv_def grants_inv_def room_def requests_def drop_exclusive_all_guard_def return_grant_def
      is_exclusive_all_granted_def outcome_simps wake_completed_waiters_def wake_loop.simps failed_request_def try_grant_one_def remove_entry_def
      wake_entry_def has_trivial_lease_waiters_def fetch_add_1_def)

end
