(* ===== verification/Auth_Tree_Shape.thy ===== *)
theory Auth_Tree_Shape
  imports Bit_Manip
begin

text \<open>
  The arithmetic on the shape of the authentication tree in \<open>src/storage/src/fs/cocoonfs/auth_tree.rs\<close>. A node
  above the leaves has \<open>2 ^ c\<close> children (\<open>node_digests_per_node_log2\<close>), a leaf has \<open>2 ^ d\<close> digests of data blocks
  (\<open>data_digests_per_node_log2\<close>). The nodes are stored in the order of a depth first search; the functions below compute
  positions in that order, node counts and heights with the arithmetic of 64 bit integers, dividing by \<open>2 ^ c - 1\<close> through
  its inverse modulo \<open>2 ^ 64\<close>.

  A shift panics when the amount is not below 64 and drops the bits shifted out otherwise.
\<close>

section \<open>Checked operations\<close>

definition mul_u64 :: "nat \<Rightarrow> nat \<Rightarrow> nat outcome" where
  "mul_u64 a b = (if a * b < u64_bound then Ok (a * b) else Panic)"

definition div_u64 :: "nat \<Rightarrow> nat \<Rightarrow> nat outcome" where
  "div_u64 a b = (if b \<noteq> 0 then Ok (a div b) else Panic)"

definition shl_u64 :: "nat \<Rightarrow> nat \<Rightarrow> nat outcome" where
  "shl_u64 a k = (if k < 64 then Ok (a * 2 ^ k mod u64_bound) else Panic)"

definition shr_u64 :: "nat \<Rightarrow> nat \<Rightarrow> nat outcome" where
  "shr_u64 a k = (if k < 64 then Ok (a div 2 ^ k) else Panic)"

definition index_mask :: "nat \<Rightarrow> nat" where
  "index_mask count = unat (trailing_bits_mask count :: u64)"

lemma mul_u64_Ok [simp]: "a * b < u64_bound \<Longrightarrow> mul_u64 a b = Ok (a * b)" by (simp add: mul_u64_def)
lemma div_u64_Ok [simp]: "b \<noteq> 0 \<Longrightarrow> div_u64 a b = Ok (a div b)" by (simp add: div_u64_def)
lemma shl_u64_Ok [simp]: "k < 64 \<Longrightarrow> a * 2 ^ k < u64_bound \<Longrightarrow> shl_u64 a k = Ok (a * 2 ^ k)" by (simp add: shl_u64_def)
lemma shr_u64_Ok [simp]: "k < 64 \<Longrightarrow> shr_u64 a k = Ok (a div 2 ^ k)" by (simp add: shr_u64_def)

lemma shift_eq_Ok [outcome_simps]:
  "mul_u64 a b = Ok x \<longleftrightarrow> a * b < u64_bound \<and> x = a * b"
  "div_u64 a b = Ok x \<longleftrightarrow> b \<noteq> 0 \<and> x = a div b"
  "shl_u64 a k = Ok x \<longleftrightarrow> k < 64 \<and> x = a * 2 ^ k mod u64_bound"
  "shr_u64 a k = Ok x \<longleftrightarrow> k < 64 \<and> x = a div 2 ^ k"
  by (auto simp: mul_u64_def div_u64_def shl_u64_def shr_u64_def)

lemma index_mask_eq: "k \<le> 64 \<Longrightarrow> index_mask k = 2 ^ k - 1"
  by (simp add: index_mask_def trailing_bits_mask_eq_mask unat_mask)

lemma and_index_mask [simp]: "k \<le> 64 \<Longrightarrow> x AND index_mask k = x mod 2 ^ k"
  unfolding index_mask_eq mask_eq_exp_minus_1 [symmetric] take_bit_eq_mask [symmetric] take_bit_eq_mod [symmetric] ..

section \<open>Division by \<open>2 ^ c - 1\<close>\<close>

text \<open>The assertion before the loop excludes \<open>e = 0\<close>, for which the loop would not end.\<close>

function hensel_loop :: "u64 \<Rightarrow> nat \<Rightarrow> u64 \<Rightarrow> u64 outcome" where
  "hensel_loop m e inv_u64 =
     (if e < 64 then
        if e = 0 then Panic
        else hensel_loop m (e * 2) (push_bit 1 inv_u64 - m * inv_u64 * inv_u64)
      else Ok inv_u64)"
  by pat_completeness auto
termination
  by (relation "measure (\<lambda>(m, e, inv_u64). 64 - e)") auto

declare hensel_loop.simps [simp del]

definition digests_per_node_minus_one_inv_mod_u64 :: "nat \<Rightarrow> u64 outcome" where
  "digests_per_node_minus_one_inv_mod_u64 c =
     (let m = trailing_bits_mask c
      in debug_assert ((m * m) AND m = 1) (
         and_then (hensel_loop m c m) (\<lambda>inv_u64.
         debug_assert (inv_u64 * m = 1) (Ok inv_u64))))"

lemma hensel_loop_spec:
  assumes "0 < e" "2 ^ e dvd 1 - m * inv_u64"
  shows "\<exists>r. hensel_loop m e inv_u64 = Ok r \<and> r * m = 1"
  using assms
proof (induction m e inv_u64 rule: hensel_loop.induct)
  case (1 m e i)
  show ?case
  proof (cases "e < 64")
    case True
    have "1 - m * (push_bit 1 i - m * i * i) = (1 - m * i) * (1 - m * i)" by (simp add: push_bit_eq_mult algebra_simps)
    then have "2 ^ (e * 2) dvd 1 - m * (push_bit 1 i - m * i * i)"
      using mult_dvd_mono [OF 1(3) 1(3)] by (simp add: mult_2_right power_add)
    then show ?thesis using 1(1) [OF True] True 1(2) by (subst hensel_loop.simps) simp
  next
    case False
    then have "(2 :: u64) ^ e = 0" by (simp add: exp_eq_zero_iff)
    then have "m * i = 1" using 1(3) unfolding \<open>(2 :: u64) ^ e = 0\<close> by simp
    then show ?thesis using False by (subst hensel_loop.simps) (simp add: mult.commute)
  qed
qed

lemma digests_inverse:
  assumes "1 \<le> c" "c \<le> 64"
  shows "\<exists>r. digests_per_node_minus_one_inv_mod_u64 c = Ok r \<and> r * trailing_bits_mask c = 1"
proof -
  let ?m = "trailing_bits_mask c :: u64"
  have m: "?m = 2 ^ c - 1" using assms by (simp add: trailing_bits_mask_eq_mask mask_eq_exp_minus_1)
  have sq: "1 - ?m * ?m = 2 ^ c * (2 - 2 ^ c)" by (simp add: m algebra_simps)
  have "2 ^ c dvd 1 - ?m * ?m" unfolding sq by simp
  from hensel_loop_spec [OF _ this] assms obtain r where r: "hensel_loop ?m c ?m = Ok r" "r * ?m = 1" by auto
  have "?m * ?m = 1 + 2 ^ c * (2 ^ c - 2)" by (simp add: m algebra_simps)
  also have "\<dots> = 1 + push_bit c (2 ^ c - 2)" by (simp add: push_bit_eq_mult mult.commute)
  finally have "(?m * ?m) AND ?m = take_bit c (1 + push_bit c (2 ^ c - 2))"
    using assms(2) by (simp add: trailing_bits_mask_eq_mask take_bit_eq_mask)
  also have "1 + push_bit c (2 ^ c - 2) = (1 OR push_bit c (2 ^ c - 2) :: u64)"
    using assms(1) by (intro disjunctive_add) (auto simp: bit_1_iff bit_push_bit_iff)
  also have "take_bit c \<dots> = take_bit c 1" by (simp add: take_bit_push_bit)
  also have "\<dots> = 1" using assms(1) by simp
  finally show ?thesis using r by (simp add: digests_per_node_minus_one_inv_mod_u64_def Let_def)
qed

section \<open>Complete trees\<close>

text \<open>The number of nodes of a complete tree whose root is at a level.\<close>

fun nodes :: "nat \<Rightarrow> nat \<Rightarrow> nat" where
  "nodes c 0 = 1"
| "nodes c (Suc l) = 2 ^ c * nodes c l + 1"

lemma nodes_pos [simp]: "0 < nodes c l" by (cases l) auto

lemma nodes_eq: "(2 ^ c - 1) * nodes c l + 1 = 2 ^ (c * Suc l)"
proof (induction l)
  case (Suc l)
  obtain k where "(2 :: nat) ^ c = Suc k" by (metis not0_implies_Suc power_not_zero zero_neq_numeral)
  then have "(2 ^ c - 1) * nodes c (Suc l) + 1 = 2 ^ c * ((2 ^ c - 1) * nodes c l) + 2 ^ c" by (simp add: algebra_simps)
  also have "\<dots> = 2 ^ c * ((2 ^ c - 1) * nodes c l + 1)" by (simp add: algebra_simps)
  also have "\<dots> = 2 ^ c * 2 ^ (c * Suc l)" by (simp only: Suc)
  also have "\<dots> = 2 ^ (c * Suc (Suc l))" by (simp add: power_add)
  finally show ?case .
qed simp

function auth_subtree_node_count :: "nat \<Rightarrow> nat \<Rightarrow> nat \<Rightarrow> u64 \<Rightarrow> nat outcome" where
  "auth_subtree_node_count subtree_root_level levels c inv_u64 =
     debug_assert (1 \<le> levels) (
     debug_assert (subtree_root_level < levels) (
     debug_assert (trailing_bits_mask c * inv_u64 = 1) (
     if 2 \<le> levels \<and> subtree_root_level = levels - 1 then
       and_then (auth_subtree_node_count (levels - 2) levels c inv_u64) (\<lambda>n.
       and_then (shl_u64 1 c) (\<lambda>k.
       and_then (mul_u64 n k) (\<lambda>p. add_u64 p 1)))
     else
       debug_assert ((subtree_root_level + 1) * c \<le> 64) (
       Ok (unat (trailing_bits_mask ((subtree_root_level + 1) * c) * inv_u64))))))"
  by pat_completeness auto
termination
  by (relation "measure (\<lambda>(l, levels, c, inv_u64). l)") auto

declare auth_subtree_node_count.simps [simp del]

lemma nodes_bound:
  assumes "1 \<le> c" "c * Suc l \<le> 64"
  shows "nodes c l < u64_bound"
proof -
  have "1 * nodes c l \<le> (2 ^ c - 1) * nodes c l" using one_less_power [of "2 :: nat" c] assms(1) by (intro mult_right_mono) auto
  then have "nodes c l < 2 ^ (c * Suc l)" using nodes_eq [of c l] by linarith
  also have "\<dots> \<le> 2 ^ 64" using assms(2) by (intro power_increasing) auto
  finally show ?thesis .
qed

lemma nodes_direct:
  assumes "1 \<le> c" "c * Suc l \<le> 64" "trailing_bits_mask c * inv_u64 = (1 :: u64)"
  shows "unat (trailing_bits_mask (Suc l * c) * inv_u64) = nodes c l"
proof -
  have c: "c \<le> 64" using assms(2) by simp
  have "(trailing_bits_mask (Suc l * c) :: u64) = 2 ^ (c * Suc l) - 1" using assms(2)
    by (subst trailing_bits_mask_eq_mask) (simp_all add: mask_eq_exp_minus_1 mult.commute)
  also have "\<dots> = of_nat ((2 ^ c - 1) * nodes c l + 1) - 1" by (simp only: nodes_eq of_nat_power of_nat_numeral)
  also have "\<dots> = (2 ^ c - 1) * of_nat (nodes c l)" by simp
  also have "(2 ^ c - 1 :: u64) = trailing_bits_mask c" using c by (simp add: trailing_bits_mask_eq_mask mask_eq_exp_minus_1)
  finally have "trailing_bits_mask (Suc l * c) * inv_u64 = (trailing_bits_mask c * inv_u64) * of_nat (nodes c l)" by (simp add: ac_simps)
  then show ?thesis using assms(3) nodes_bound [OF assms(1,2)] by (simp add: unat_of_nat take_bit_nat_eq_self_iff)
qed

text \<open>The height of a tree is limited so that its proper subtrees have less than \<open>2 ^ 63\<close> nodes.\<close>

definition height_ok :: "nat \<Rightarrow> nat \<Rightarrow> bool" where
  "height_ok c levels \<longleftrightarrow> 1 \<le> c \<and> c < 64 \<and> 1 \<le> levels \<and> c * (levels - 1) < 64"

lemma nodes_root_bound:
  assumes "height_ok c levels"
  shows "nodes c (levels - 1) < u64_bound"
proof (cases "levels - 1")
  case (Suc l)
  have c: "1 \<le> c" "c * Suc l \<le> 63" using assms unfolding height_ok_def Suc by simp_all
  have "(2 :: nat) ^ (c * Suc l) \<le> 2 ^ 63" using c(2) by (intro power_increasing) auto
  then have "(2 ^ c - 1) * nodes c l < 2 ^ 63" using nodes_eq [of c l] by linarith
  moreover have "2 ^ c * nodes c l \<le> 2 * ((2 ^ c - 1) * nodes c l)"
  proof -
    have "(2 :: nat) ^ c \<le> 2 * (2 ^ c - 1)" using power_increasing [of 1 c "2 :: nat"] c(1) by simp
    then show ?thesis using mult_right_mono [of "2 ^ c" "2 * (2 ^ c - 1)" "nodes c l"] by (simp add: ac_simps)
  qed
  moreover have "x < 2 ^ 63 \<Longrightarrow> y \<le> 2 * x \<Longrightarrow> y + 1 < u64_bound" for x y :: nat by simp
  ultimately show ?thesis unfolding Suc nodes.simps by blast
qed simp

lemma auth_subtree_node_count_spec:
  assumes h: "height_ok c levels" and l: "l < levels" and inv_u64: "trailing_bits_mask c * inv_u64 = (1 :: u64)"
  shows "auth_subtree_node_count l levels c inv_u64 = Ok (nodes c l)"
proof -
  have c: "1 \<le> c" "c < 64" using h by (simp_all add: height_ok_def)
  have direct: "auth_subtree_node_count k levels c inv_u64 = Ok (nodes c k)" if "k < levels" "\<not> (2 \<le> levels \<and> k = levels - 1)" for k
  proof -
    have "c * Suc k \<le> 64"
    proof (cases "k = 0")
      case False
      then have "Suc k \<le> levels - 1" using that by auto
      then have "c * Suc k \<le> c * (levels - 1)" by (rule mult_le_mono2)
      then show ?thesis using h by (simp add: height_ok_def)
    qed (use c in simp)
    then show ?thesis using that inv_u64 nodes_direct [OF c(1) _ inv_u64, of k]
      by (subst auth_subtree_node_count.simps) (auto simp: mult.commute)
  qed
  show ?thesis
  proof (cases "2 \<le> levels \<and> l = levels - 1")
    case True
    define k where "k = levels - 2"
    then have k: "levels = Suc (Suc k)" "l = Suc k" using True by auto
    have root: "2 ^ c * nodes c k + 1 < u64_bound" using nodes_root_bound [OF h] by (simp add: k)
    then have "nodes c k * 2 ^ c < u64_bound" by (simp add: mult.commute)
    moreover have "(2 :: nat) ^ c < u64_bound" using c(2) by (intro power_strict_increasing) auto
    ultimately show ?thesis using direct [of k] root inv_u64 c(2) True
      by (subst auth_subtree_node_count.simps) (simp add: k mult.commute)
  qed (use direct l in blast)
qed

section \<open>The order of the nodes\<close>

text \<open>
  The nodes of a complete tree in the order of a depth first search: a node is its level and the first data block it covers.
\<close>

fun preorder :: "nat \<Rightarrow> nat \<Rightarrow> nat \<Rightarrow> nat \<Rightarrow> (nat \<times> nat) list" where
  "preorder c d 0 b = [(0, b)]"
| "preorder c d (Suc l) b = (Suc l, b) # concat (map (\<lambda>k. preorder c d l (b + k * 2 ^ (l * c + d))) [0..<2 ^ c])"

fun dfs_loop :: "nat \<Rightarrow> nat \<Rightarrow> nat \<Rightarrow> nat \<Rightarrow> nat \<Rightarrow> nat outcome" where
  "dfs_loop c 0 index pre count = Ok pre"
| "dfs_loop c (Suc n) index pre count =
     (let entry_in_parent_node = index AND index_mask c in
      and_then (shr_u64 index c) (\<lambda>index.
      and_then (mul_u64 count entry_in_parent_node) (\<lambda>p.
      and_then (add_u64 pre p) (\<lambda>pre.
      and_then (add_u64 pre 1) (\<lambda>pre.
      and_then (shl_u64 count c) (\<lambda>k.
      dfs_loop c n index pre ((k + 1) mod u64_bound)))))))"

definition auth_tree_node_dfs_pre_index :: "nat \<Rightarrow> nat \<Rightarrow> nat \<Rightarrow> nat \<Rightarrow> u64 \<Rightarrow> nat \<Rightarrow> (nat \<times> nat) outcome" where
  "auth_tree_node_dfs_pre_index x level levels c inv_u64 d =
     debug_assert (0 < levels) (
     debug_assert (level < levels) (
     and_then (if level \<noteq> 0 then
                 and_then (shr_u64 x ((level - 1) * c + d)) (\<lambda>index.
                 and_then (shr_u64 index c) (\<lambda>above. Ok (above, index AND index_mask c)))
               else and_then (shr_u64 x d) (\<lambda>index. Ok (index, x AND index_mask d))) (\<lambda>(index, entry_in_node).
     if level + 1 = levels then Ok (0, entry_in_node)
     else
       and_then (auth_subtree_node_count level levels c inv_u64) (\<lambda>count.
       and_then (dfs_loop c (levels - (level + 1)) index 0 count) (\<lambda>pre. Ok (pre, entry_in_node))))))"

definition child_index :: "nat \<Rightarrow> nat \<Rightarrow> nat \<Rightarrow> nat \<Rightarrow> nat" where
  "child_index c d l x = x div 2 ^ (l * c + d) mod 2 ^ c"

definition pre_pos :: "nat \<Rightarrow> nat \<Rightarrow> nat \<Rightarrow> nat \<Rightarrow> nat \<Rightarrow> nat" where
  "pre_pos c d level n x = (\<Sum>j<n. 1 + child_index c d (level + j) x * nodes c (level + j))"

lemma length_preorder [simp]: "length (preorder c d l b) = nodes c l"
  by (induction l arbitrary: b) (simp_all add: length_concat comp_def sum_list_triv)

lemma nth_concat_uniform:
  assumes "\<And>k. k < n \<Longrightarrow> length (f k) = m" "k < n" "j < m"
  shows "concat (map f [0..<n]) ! (k * m + j) = f k ! j"
  using assms
proof (induction n)
  case (Suc n)
  have "map (\<lambda>k. length (f k)) [0..<n] = map (\<lambda>k. m) [0..<n]" using Suc.prems(1) by (intro map_cong) auto
  then have len: "length (concat (map f [0..<n])) = n * m" unfolding length_concat map_map comp_def by (simp add: sum_list_triv del: map_eq_conv)
  show ?case
  proof (cases "k < n")
    case True
    then have "Suc k * m \<le> n * m" by (intro mult_le_mono1) simp
    then have "k * m + j < n * m" using Suc.prems(3) by simp
    then show ?thesis using Suc True len by (simp add: nth_append)
  next
    case False
    then have "k = n" using Suc.prems(2) by simp
    then show ?thesis using len Suc.prems(3) by (simp add: nth_append)
  qed
qed simp

lemma block_start:
  fixes x b w :: nat
  assumes "w dvd b" "b \<le> x" "x < b + w"
  shows "x - x mod w = b"
proof -
  have "x mod w = (x - b) mod w" using assms(1,2) by (metis dvd_imp_mod_0 le_add_diff_inverse mod_add_left_eq add_0)
  then show ?thesis using assms by simp
qed

lemma child_range:
  fixes q x w :: nat
  assumes "q * (2 ^ c * w) \<le> x" "x < q * (2 ^ c * w) + 2 ^ c * w"
  shows "q * (2 ^ c * w) + x div w mod 2 ^ c * w \<le> x" "x < q * (2 ^ c * w) + x div w mod 2 ^ c * w + w"
proof -
  have w: "0 < w" using assms by (cases w) auto
  have "x div (2 ^ c * w) = q" using assms by (intro div_nat_eqI) (simp_all add: algebra_simps)
  then have "x div w = q * 2 ^ c + x div w mod 2 ^ c" using div_mult_mod_eq [of "x div w" "2 ^ c"] by (simp add: div_mult2_eq [symmetric] mult.commute)
  then have "x div w * w = q * (2 ^ c * w) + x div w mod 2 ^ c * w" by (metis add_mult_distrib mult.assoc)
  then show "q * (2 ^ c * w) + x div w mod 2 ^ c * w \<le> x" "x < q * (2 ^ c * w) + x div w mod 2 ^ c * w + w"
    using div_mult_mod_eq [of x w] mod_less_divisor [OF w, of x] by linarith+
qed

lemma nodes_mono: "l \<le> k \<Longrightarrow> nodes c l \<le> nodes c k"
proof (induction k rule: dec_induct)
  case (step k)
  have "nodes c k \<le> 2 ^ c * nodes c k" by simp
  then show ?case using step(3) unfolding nodes.simps by linarith
qed simp

lemma preorder_position:
  assumes "level \<le> l" "2 ^ (l * c + d) dvd b" "b \<le> x" "x < b + 2 ^ (l * c + d)"
  shows "pre_pos c d level (l - level) x < nodes c l \<and> preorder c d l b ! pre_pos c d level (l - level) x = (level, x - x mod 2 ^ (level * c + d))"
  using assms
proof (induction l arbitrary: b)
  case 0
  then have "x - x mod 2 ^ d = b" using block_start [of "2 ^ d" b x] by simp
  then show ?case using 0 by (simp add: pre_pos_def)
next
  case (Suc l)
  show ?case
  proof (cases "level = Suc l")
    case True
    have "x - x mod 2 ^ (Suc l * c + d) = b" using Suc.prems(2-4) by (rule block_start)
    then show ?thesis using True by (simp add: pre_pos_def)
  next
    case False
    let ?k = "child_index c d l x" and ?w = "2 ^ (l * c + d) :: nat"
    have lvl: "level \<le> l" "Suc l - level = Suc (l - level)" "level + (l - level) = l" using False Suc.prems(1) by auto
    have w: "(2 :: nat) ^ (Suc l * c + d) = 2 ^ c * ?w" by (simp add: power_add)
    obtain q where q: "b = q * (2 ^ c * ?w)" using Suc.prems(2) unfolding w by (metis dvdE mult.commute)
    have k: "?k < 2 ^ c" by (simp add: child_index_def)
    have kx: "b + ?k * ?w \<le> x" "x < b + ?k * ?w + ?w" using child_range [of q c ?w x] Suc.prems(3,4) unfolding child_index_def q w by blast+
    have IH: "pre_pos c d level (l - level) x < nodes c l"
      "preorder c d l (b + ?k * ?w) ! pre_pos c d level (l - level) x = (level, x - x mod 2 ^ (level * c + d))"
      using Suc.IH [OF lvl(1) _ kx] by (simp_all add: q)
    have pos: "pre_pos c d level (Suc l - level) x = Suc (?k * nodes c l + pre_pos c d level (l - level) x)"
      unfolding lvl(2) pre_pos_def by (simp add: lvl(3))
    have "Suc ?k * nodes c l \<le> 2 ^ c * nodes c l" using k by (intro mult_le_mono1) simp
    then have "?k * nodes c l + pre_pos c d level (l - level) x < 2 ^ c * nodes c l" using IH(1) by simp
    moreover have "concat (map (\<lambda>k. preorder c d l (b + k * ?w)) [0..<2 ^ c]) ! (?k * nodes c l + pre_pos c d level (l - level) x)
        = preorder c d l (b + ?k * ?w) ! pre_pos c d level (l - level) x" using k IH(1) by (intro nth_concat_uniform) auto
    ultimately show ?thesis using pos IH(2) by simp
  qed
qed

lemma dfs_loop_spec:
  assumes "c < 64" "pre + pre_pos c d level n x < u64_bound" "nodes c (level + n) < u64_bound"
  shows "dfs_loop c n (x div 2 ^ (level * c + d)) pre (nodes c level) = Ok (pre + pre_pos c d level n x)"
  using assms(2,3)
proof (induction n arbitrary: pre level)
  case (Suc n)
  let ?e = "child_index c d level x"
  have split: "pre_pos c d level (Suc n) x = 1 + ?e * nodes c level + pre_pos c d (Suc level) n x"
    unfolding pre_pos_def by (subst sum.lessThan_Suc_shift) simp
  have "nodes c (Suc level) \<le> nodes c (level + Suc n)" by (rule nodes_mono) simp
  then have cnt: "2 ^ c * nodes c level + 1 < u64_bound" using Suc.prems(2) unfolding nodes.simps by linarith
  have shift: "x div 2 ^ (level * c + d) div 2 ^ c = x div 2 ^ (Suc level * c + d)" by (simp add: power_add ac_simps flip: div_mult2_eq)
  have "dfs_loop c (Suc n) (x div 2 ^ (level * c + d)) pre (nodes c level)
      = dfs_loop c n (x div 2 ^ (Suc level * c + d)) (pre + ?e * nodes c level + 1) (nodes c (Suc level))"
    using assms(1) Suc.prems(1) split cnt shift
    by (simp add: child_index_def Let_def mult.commute)
  then show ?case using Suc.IH [of "pre + ?e * nodes c level + 1" "Suc level"] Suc.prems split by (simp add: ac_simps)
qed (simp add: pre_pos_def)

text \<open>The proper subtrees of a tree cover less than \<open>2 ^ 64\<close> data blocks.\<close>

definition shape_ok :: "nat \<Rightarrow> nat \<Rightarrow> nat \<Rightarrow> bool" where
  "shape_ok c d levels \<longleftrightarrow> height_ok c levels \<and> 1 \<le> d \<and> d < 64 \<and> (levels - 2) * c + d < 64"

lemma dfs_pre_index_spec:
  assumes ok: "shape_ok c d levels" and l: "level < levels" and x: "x < 2 ^ ((levels - 1) * c + d)"
    and inv: "trailing_bits_mask c * inv_u64 = (1 :: u64)"
  shows "auth_tree_node_dfs_pre_index x level levels c inv_u64 d =
      Ok (pre_pos c d level (levels - 1 - level) x, if level = 0 then x mod 2 ^ d else child_index c d (level - 1) x)"
proof -
  have h: "height_ok c levels" and c: "1 \<le> c" "c < 64" and d: "1 \<le> d" "d < 64" "(levels - 2) * c + d < 64"
    using ok by (simp_all add: shape_ok_def height_ok_def)
  let ?entry = "if level = 0 then x mod 2 ^ d else child_index c d (level - 1) x"
  have start: "(if level \<noteq> 0 then
                 and_then (shr_u64 x ((level - 1) * c + d)) (\<lambda>index.
                 and_then (shr_u64 index c) (\<lambda>above. Ok (above, index AND index_mask c)))
               else and_then (shr_u64 x d) (\<lambda>index. Ok (index, x AND index_mask d))) = Ok (x div 2 ^ (level * c + d), ?entry)"
  proof (cases level)
    case (Suc k)
    have "k * c \<le> (levels - 2) * c" using l Suc by (intro mult_le_mono1) simp
    then have "k * c + d < 64" using d(3) by linarith
    then show ?thesis using Suc c(2) by (simp add: child_index_def power_add ac_simps flip: div_mult2_eq)
  qed (use d in simp)
  have "pre_pos c d level (levels - 1 - level) x < nodes c (levels - 1)"
    using preorder_position [of level "levels - 1" c d 0 x] l x by simp
  then have "pre_pos c d level (levels - 1 - level) x < u64_bound" using nodes_root_bound [OF h] by (rule less_trans)
  moreover have "level + (levels - 1 - level) = levels - 1" using l by simp
  ultimately have "dfs_loop c (levels - 1 - level) (x div 2 ^ (level * c + d)) 0 (nodes c level) = Ok (pre_pos c d level (levels - 1 - level) x)"
    using dfs_loop_spec [of c 0 d level "levels - 1 - level" x] c(2) nodes_root_bound [OF h] by simp
  then show ?thesis
    unfolding auth_tree_node_dfs_pre_index_def start using l auth_subtree_node_count_spec [OF h l inv]
    by (auto simp: pre_pos_def)
qed

section \<open>Heights\<close>

definition div_ceil_u32 :: "nat \<Rightarrow> nat \<Rightarrow> nat" where
  "div_ceil_u32 a b = (a + b - 1) div b"

definition max_auth_tree_levels :: "nat \<Rightarrow> nat \<Rightarrow> nat \<Rightarrow> nat outcome" where
  "max_auth_tree_levels c d a =
     and_then (sub_u64 64 d) (\<lambda>r.
     and_then (sub_u64 r a) (\<lambda>r. Ok (div_ceil_u32 (min 64 (r + c)) c)))"

definition auth_tree_node_count_to_auth_tree_levels :: "nat \<Rightarrow> nat \<Rightarrow> nat \<Rightarrow> nat \<Rightarrow> nat outcome" where
  "auth_tree_node_count_to_auth_tree_levels n c d a =
     (if n = 0 then Err (FsFormatError InvalidAuthTreeDimensions)
      else
        debug_assert (0 < c \<and> c \<le> 64) (
        and_then (max_auth_tree_levels c d a) (\<lambda>max_levels.
        and_then (if c \<noteq> 64 then and_then (shr_u64 (n - 1) c) (\<lambda>q. sub_u64 n q) else Ok n) (\<lambda>t.
        debug_assert (t \<noteq> 0) (
        case round_up_next_pow2 (of_nat t :: u64) of
          None \<Rightarrow> Ok max_levels
        | Some p \<Rightarrow> Ok (min (div_ceil_u32 (63 - leading_zeros p) c + 1) max_levels))))))"

text \<open>The number of leaves' worth of nodes: a tree has at least \<open>n\<close> nodes if it has at least \<open>leaf_bound c n\<close> leaves.\<close>

definition leaf_bound :: "nat \<Rightarrow> nat \<Rightarrow> nat" where
  "leaf_bound c n = n - (n - 1) div 2 ^ c"

lemma leaf_bound_Suc: "1 \<le> n \<Longrightarrow> leaf_bound c n \<le> leaf_bound c (Suc n)"
proof -
  assume "1 \<le> n"
  have "n \<le> n - 1 + 2 ^ c" using one_le_power [of "2 :: nat" c] by linarith
  then have "n div 2 ^ c \<le> (n - 1 + 2 ^ c) div 2 ^ c" by (rule div_le_mono)
  then have "n div 2 ^ c \<le> Suc ((n - 1) div 2 ^ c)" by (subst (asm) div_add_self2) simp_all
  then show ?thesis by (simp add: leaf_bound_def)
qed

lemma leaf_bound_mono:
  assumes "1 \<le> m" "m \<le> n"
  shows "leaf_bound c m \<le> leaf_bound c n"
  using assms(2)
proof (induction n rule: dec_induct)
  case (step n)
  then show ?case using leaf_bound_Suc [of n c] assms(1) by simp
qed simp

lemma leaf_bound_nodes: "leaf_bound c (nodes c l) = 2 ^ (c * l)"
proof (cases l)
  case (Suc k)
  have "leaf_bound c (nodes c l) = 2 ^ c * nodes c k + 1 - nodes c k" by (simp add: leaf_bound_def Suc)
  also have "\<dots> = (2 ^ c - 1) * nodes c k + 1" by (simp add: algebra_simps Suc_diff_le)
  also have "\<dots> = 2 ^ (c * l)" unfolding nodes_eq Suc ..
  finally show ?thesis .
qed (simp add: leaf_bound_def)

lemma nodes_le_iff:
  assumes "1 \<le> c" "1 \<le> n"
  shows "n \<le> nodes c l \<longleftrightarrow> leaf_bound c n \<le> 2 ^ (c * l)"
proof
  assume "n \<le> nodes c l"
  then show "leaf_bound c n \<le> 2 ^ (c * l)" using leaf_bound_mono [OF assms(2)] by (metis leaf_bound_nodes)
next
  assume le: "leaf_bound c n \<le> 2 ^ (c * l)"
  show "n \<le> nodes c l"
  proof (rule ccontr)
    assume "\<not> n \<le> nodes c l"
    then have "leaf_bound c (Suc (nodes c l)) \<le> leaf_bound c n" by (intro leaf_bound_mono) auto
    moreover have "nodes c l div 2 ^ c = (nodes c l - 1) div 2 ^ c"
    proof (cases l)
      case (Suc k)
      have "(1 :: nat) < 2 ^ c" using assms(1) by (intro one_less_power) auto
      then have "Suc (2 ^ c * nodes c k) div 2 ^ c = nodes c k" by (intro div_nat_eqI) (simp_all add: algebra_simps)
      then show ?thesis by (simp add: Suc)
    qed (use assms(1) one_less_power [of "2 :: nat" c] in simp)
    then have "leaf_bound c (Suc (nodes c l)) = Suc (leaf_bound c (nodes c l))"
      using div_le_dividend [of "nodes c l - 1" "2 ^ c"] unfolding leaf_bound_def diff_Suc_1 by linarith
    ultimately show False using le by (simp add: leaf_bound_nodes)
  qed
qed

lemma div_ceil_le_iff: "0 < c \<Longrightarrow> div_ceil_u32 k c \<le> l \<longleftrightarrow> k \<le> c * l"
proof -
  assume c: "0 < c"
  have "div_ceil_u32 k c \<le> l \<longleftrightarrow> k + c - 1 < Suc l * c" using c by (simp add: div_ceil_u32_def div_less_iff_less_mult flip: less_Suc_eq_le)
  also have "\<dots> \<longleftrightarrow> k \<le> c * l" using c by (auto simp: mult.commute)
  finally show ?thesis .
qed

lemma nodes_ge: "1 \<le> c \<Longrightarrow> l < nodes c l"
proof (induction l)
  case (Suc l)
  have "1 * nodes c l \<le> 2 ^ c * nodes c l" by (intro mult_right_mono) auto
  then show ?case using Suc unfolding nodes.simps by linarith
qed simp

lemma auth_tree_levels_spec:
  assumes n: "1 \<le> n" "n < u64_bound" and c: "1 \<le> c" "c < 64" and da: "d + a \<le> 64"
  shows "auth_tree_node_count_to_auth_tree_levels n c d a
    = Ok (min (Suc (LEAST l. n \<le> nodes c l)) (div_ceil_u32 (min 64 (64 - d - a + c)) c))"
proof -
  have max: "64 - d - a + c = 64 + c - (d + a)" using da by simp
  let ?t = "leaf_bound c n" and ?max = "div_ceil_u32 (min 64 (64 - d - a + c)) c"
  have q: "(n - 1) div 2 ^ c < n" using n(1) div_le_dividend [of "n - 1" "2 ^ c"] by linarith
  then have t: "1 \<le> ?t" "?t \<le> n" by (simp_all add: leaf_bound_def)
  have run: "auth_tree_node_count_to_auth_tree_levels n c d a = (case round_up_next_pow2 (of_nat ?t :: u64) of
      None \<Rightarrow> Ok ?max | Some p \<Rightarrow> Ok (min (div_ceil_u32 (63 - leading_zeros p) c + 1) ?max))"
    unfolding max using n c da q t(1) by (simp add: auth_tree_node_count_to_auth_tree_levels_def max_auth_tree_levels_def leaf_bound_def)
  have ut: "unat (of_nat ?t :: u64) = ?t" using t n(2) by (simp add: unat_of_nat take_bit_nat_eq_self_iff)
  then have nz: "of_nat ?t \<noteq> (0 :: u64)" using t(1) by (metis not_one_le_zero unat_0)
  have fits: "\<exists>l. n \<le> nodes c l" using nodes_ge [OF c(1), of n] less_imp_le by blast
  show ?thesis
  proof (cases "round_up_next_pow2 (of_nat ?t :: u64)")
    case None
    then have big: "2 ^ 63 < ?t" using round_up_next_pow2_correct [OF nz] ut by simp
    have "?max \<le> (LEAST l. n \<le> nodes c l)"
    proof (rule LeastI2_ex [OF fits])
      fix l assume "n \<le> nodes c l"
      then have "?t \<le> 2 ^ (c * l)" using nodes_le_iff [OF c(1) n(1)] by blast
      with big have "(2 :: nat) ^ 63 < 2 ^ (c * l)" by (rule less_le_trans)
      then have "63 < c * l" by (simp only: power_strict_increasing_iff rel_simps)
      then show "?max \<le> l" using c(1) by (simp add: div_ceil_le_iff)
    qed
    then show ?thesis using run None by simp
  next
    case (Some p)
    then obtain k where k: "k < 64" "unat p = 2 ^ k" "?t \<le> 2 ^ k" "\<And>j. ?t \<le> 2 ^ j \<Longrightarrow> k \<le> j"
      using round_up_next_pow2_correct [OF nz] ut by auto
    have "leading_zeros p = 64 - Suc k" using leading_zeros_unique [of k p] k(2) by simp
    then have "63 - leading_zeros p = k" using k(1) by simp
    moreover have "(LEAST l. n \<le> nodes c l) = div_ceil_u32 k c"
    proof (rule Least_equality)
      have "k \<le> c * div_ceil_u32 k c" using div_ceil_le_iff [of c k "div_ceil_u32 k c"] c(1) by simp
      then have "?t \<le> 2 ^ (c * div_ceil_u32 k c)" using k(3) power_increasing [of k _ "2 :: nat"] order_trans by (metis one_le_numeral)
      then show "n \<le> nodes c (div_ceil_u32 k c)" using nodes_le_iff [OF c(1) n(1)] by blast
    next
      fix l assume "n \<le> nodes c l"
      then have "k \<le> c * l" using k(4) nodes_le_iff [OF c(1) n(1)] by blast
      then show "div_ceil_u32 k c \<le> l" using div_ceil_le_iff c(1) by simp
    qed
    ultimately show ?thesis using run Some by simp
  qed
qed
end
