(* ===== verification/Auth_Tree_Cover.thy ===== *)
theory Auth_Tree_Cover
  imports Auth_Tree_Shape
begin

text \<open>
  How much data a number of nodes of the authentication tree covers, \<open>auth_tree_node_count_to_max_covered_data_block_count\<close> in
  \<open>src/storage/src/fs/cocoonfs/auth_tree.rs\<close>, and the properties of the functions on the shape of the tree: positions in
  depth first order, heights, and that the nodes on the way to a covered data block are among the nodes the tree has.
\<close>

section \<open>The data covered by a number of nodes\<close>

function covered_loop :: "nat \<Rightarrow> nat \<Rightarrow> nat \<Rightarrow> nat \<Rightarrow> nat \<Rightarrow> nat \<Rightarrow> nat \<Rightarrow> nat outcome" where
  "covered_loop c d levels level n count covered =
     (if 1 < level \<and> n \<noteq> 0 then
        if n < level then Ok covered
        else
          let level = level - 1; n = n - 1 in
          and_then (sub_u64 count 1) (\<lambda>k.
          and_then (shr_u64 k c) (\<lambda>count.
          and_then (div_u64 n count) (\<lambda>full_entries_in_node.
          and_then (shl_u64 1 c) (\<lambda>entries.
          debug_assert (full_entries_in_node \<le> entries) (
          and_then (mul_u64 full_entries_in_node count) (\<lambda>full.
          and_then (sub_u64 n full) (\<lambda>n.
          debug_assert ((level - 1) * c + d < 64) (
          and_then (if level = levels - 1
                    then and_then (shl_u64 1 (64 - ((level - 1) * c + d))) (\<lambda>limit. Ok (limit \<le> full_entries_in_node))
                    else debug_assert (full_entries_in_node < entries) (Ok False)) (\<lambda>overflow.
          if overflow then Ok (u64_bound - 1)
          else
            and_then (shl_u64 full_entries_in_node ((level - 1) * c + d)) (\<lambda>full_covered.
            if covered + full_covered < u64_bound
            then covered_loop c d levels level n count (covered + full_covered)
            else nvfs_err_internal))))))))))
      else debug_assert (n = 0) (Ok covered))"
  by pat_completeness auto
termination
  by (relation "measure (\<lambda>(c, d, levels, level, n, count, covered). level)") auto

declare covered_loop.simps [simp del]

definition auth_tree_node_count_to_max_covered_data_block_count ::
  "nat \<Rightarrow> nat \<Rightarrow> nat \<Rightarrow> u64 \<Rightarrow> nat \<Rightarrow> nat \<Rightarrow> nat outcome" where
  "auth_tree_node_count_to_max_covered_data_block_count n levels c inv_u64 d a =
     (if n = 0 then Err (FsFormatError InvalidAuthTreeDimensions)
      else
        debug_assert (0 < c \<and> c < 64) (
        debug_assert (0 < d \<and> d < 64) (
        debug_assert (auth_tree_node_count_to_auth_tree_levels n c d a = Ok levels) (
        if levels = 1 then debug_assert (n = 1) (shl_u64 1 d)
        else
          and_then (auth_subtree_node_count (levels - 1) levels c inv_u64) (\<lambda>count.
          covered_loop c d levels levels n count 0)))))"

text \<open>The leaves among the first nodes in the order of the nodes.\<close>

definition is_leaf :: "nat \<times> nat \<Rightarrow> bool" where
  "is_leaf node \<longleftrightarrow> fst node = 0"

fun leaf_count :: "nat \<Rightarrow> nat \<Rightarrow> nat \<Rightarrow> nat" where
  "leaf_count c 0 n = min n 1"
| "leaf_count c (Suc l) n = (if n = 0 then 0 else (n - 1) div nodes c l * 2 ^ (c * l) + leaf_count c l ((n - 1) mod nodes c l))"

lemma leaf_count_0 [simp]: "leaf_count c l 0 = 0" by (cases l) auto

lemma all_leaves: "length (filter is_leaf (preorder c d l b)) = 2 ^ (c * l)"
proof (induction l arbitrary: b)
  case (Suc l)
  have "length (filter is_leaf (preorder c d (Suc l) b)) = sum_list (map (\<lambda>k. length (filter is_leaf (preorder c d l (b + k * 2 ^ (l * c + d))))) [0..<2 ^ c])"
    by (simp add: is_leaf_def filter_concat length_concat comp_def)
  also have "\<dots> = 2 ^ (c * Suc l)" by (simp add: Suc sum_list_triv power_add)
  finally show ?case .
qed (simp add: is_leaf_def)

lemma take_concat_uniform:
  assumes "\<And>k. k < n \<Longrightarrow> length (f k) = m" "q < n" "r \<le> m"
  shows "take (q * m + r) (concat (map f [0..<n])) = concat (map f [0..<q]) @ take r (f q)"
proof -
  have "[0..<n] = [0..<q] @ [q..<n]" using upt_add_eq_append [of 0 q "n - q"] assms(2) by simp
  then have upt: "[0..<n] = [0..<q] @ q # [Suc q..<n]" using assms(2) by (simp only: upt_conv_Cons)
  have "map (\<lambda>k. length (f k)) [0..<q] = map (\<lambda>k. m) [0..<q]" using assms(1,2) by (intro map_cong) auto
  then have "length (concat (map f [0..<q])) = q * m" unfolding length_concat map_map comp_def by (simp add: sum_list_triv del: map_eq_conv)
  then show ?thesis using assms by (simp add: upt)
qed

lemma leaf_count_preorder:
  assumes "n \<le> nodes c l"
  shows "length (filter is_leaf (take n (preorder c d l b))) = leaf_count c l n"
  using assms
proof (induction l arbitrary: n b)
  case 0
  then show ?case by (cases n) (auto simp: is_leaf_def)
next
  case (Suc l)
  show ?case
  proof (cases n)
    case (Suc k)
    let ?f = "\<lambda>k. preorder c d l (b + k * 2 ^ (l * c + d))" and ?q = "k div nodes c l" and ?r = "k mod nodes c l"
    have k: "k = ?q * nodes c l + ?r" by (simp only: div_mult_mod_eq)
    have full: "length (filter is_leaf (concat (map ?f [0..<j]))) = j * 2 ^ (c * l)" for j
      by (simp add: filter_concat length_concat comp_def all_leaves sum_list_triv)
    have r: "?r \<le> nodes c l" by (simp add: less_imp_le)
    have "length (filter is_leaf (take k (concat (map ?f [0..<2 ^ c])))) = ?q * 2 ^ (c * l) + leaf_count c l ?r"
    proof (cases "?q < 2 ^ c")
      case True
      have "take (?q * nodes c l + ?r) (concat (map ?f [0..<2 ^ c])) = concat (map ?f [0..<?q]) @ take ?r (?f ?q)"
        using True r by (intro take_concat_uniform) simp_all
      then show ?thesis using full [of ?q] Suc.IH [OF r] by (simp flip: k)
    next
      case False
      have "2 ^ c * nodes c l \<le> ?q * nodes c l" using False by (intro mult_le_mono1) simp
      moreover have "?q * nodes c l \<le> k" by (rule div_times_less_eq_dividend)
      ultimately have eq: "k = 2 ^ c * nodes c l" using Suc.prems Suc unfolding nodes.simps by linarith
      have "length (concat (map ?f [0..<2 ^ c])) = k" by (simp add: length_concat comp_def sum_list_triv eq)
      then show ?thesis using full [of "2 ^ c"] leaf_count_0 by (simp add: eq)
    qed
    moreover have "\<not> is_leaf (Suc l, b)" by (simp add: is_leaf_def)
    ultimately show ?thesis using Suc by simp
  qed simp
qed

lemma leaf_count_small: "1 \<le> c \<Longrightarrow> n \<le> l \<Longrightarrow> leaf_count c l n = 0"
proof (induction l arbitrary: n)
  case (Suc l)
  have "l < nodes c l" using nodes_ge Suc.prems(1) by blast
  then show ?case using Suc.prems Suc.IH [of "n - 1"] by auto
qed simp

lemma leaf_count_less: "n < nodes c l \<Longrightarrow> leaf_count c l n < 2 ^ (c * l)"
proof (induction l arbitrary: n)
  case (Suc l)
  show ?case
  proof (cases n)
    case (Suc k)
    have q: "k div nodes c l < 2 ^ c" using Suc.prems Suc by (simp add: less_mult_imp_div_less)
    have "leaf_count c l (k mod nodes c l) < 2 ^ (c * l)" by (rule Suc.IH) simp
    then have "leaf_count c (Suc l) n < Suc (k div nodes c l) * 2 ^ (c * l)" by (simp add: Suc)
    also have "\<dots> \<le> 2 ^ c * 2 ^ (c * l)" using q by (intro mult_le_mono1) simp
    finally show ?thesis by (simp add: power_add)
  qed simp
qed simp

lemma split_entries:
  assumes "n < u64_bound"
  shows "mul_u64 ((n - Suc 0) div m) m = Ok ((n - Suc 0) div m * m)" "(n - Suc 0) div m * m \<le> n - Suc 0"
    "n - Suc ((n - Suc 0) div m * m) = (n - Suc 0) mod m"
proof -
  show le: "(n - Suc 0) div m * m \<le> n - Suc 0" by (rule div_times_less_eq_dividend)
  then have "(n - Suc 0) div m * m < u64_bound" using assms by linarith
  then show "mul_u64 ((n - Suc 0) div m) m = Ok ((n - Suc 0) div m * m)" by simp
  show "n - Suc ((n - Suc 0) div m * m) = (n - Suc 0) mod m" using minus_div_mult_eq_mod [of "n - Suc 0" m] by simp
qed

lemma covered_loop_spec:
  assumes "1 \<le> c" "c < 64" "level \<le> levels - 1" "(levels - 2) * c + d < 64" "n < nodes c (level - 1)" "1 \<le> level" "nodes c (level - 1) < u64_bound"
    "covered + 2 ^ d * 2 ^ (c * (level - 1)) \<le> u64_bound"
  shows "covered_loop c d levels level n (nodes c (level - 1)) covered = Ok (covered + 2 ^ d * leaf_count c (level - 1) n)"
  using assms
proof (induction level arbitrary: n covered)
  case (Suc l)
  show ?case
  proof (cases "0 < l \<and> n \<noteq> 0")
    case False
    have "l = 0 \<Longrightarrow> n = 0" using Suc.prems(5) by simp
    then show ?thesis using False by (subst covered_loop.simps) auto
  next
    case True
    then obtain k where k: "l = Suc k" "n \<noteq> 0" by (cases l) auto
    show ?thesis
    proof (cases "n < Suc l")
      case small: True
      then show ?thesis using k leaf_count_small [OF Suc.prems(1), of n l] by (subst covered_loop.simps) simp
    next
      case False
      let ?q = "(n - 1) div nodes c k" and ?r = "(n - 1) mod nodes c k" and ?X = "k * c + d"
      have n1: "n - 1 < 2 ^ c * nodes c k" using Suc.prems(5) k by auto
      then have q: "?q < 2 ^ c" by (simp add: less_mult_imp_div_less)
      have "k * c \<le> (levels - 2) * c" using Suc.prems(3) k(1) by (intro mult_le_mono1) simp
      then have X: "?X < 64" using Suc.prems(4) by linarith
      have pc: "(2 :: nat) ^ c < u64_bound" using Suc.prems(2) by (intro power_strict_increasing) auto
      have nb: "n < u64_bound" using Suc.prems(5,7) by simp
      have room: "covered + ?q * 2 ^ ?X + 2 ^ d * 2 ^ (c * k) \<le> u64_bound"
      proof -
        have "Suc ?q * 2 ^ ?X \<le> 2 ^ c * 2 ^ ?X" using q by (intro mult_le_mono1) simp
        also have "\<dots> = 2 ^ d * 2 ^ (c * l)" by (simp add: k(1) power_add ac_simps)
        finally have "Suc ?q * 2 ^ ?X \<le> 2 ^ d * 2 ^ (c * l)" .
        moreover have "Suc ?q * 2 ^ ?X = ?q * 2 ^ ?X + 2 ^ d * 2 ^ (c * k)" by (simp add: power_add algebra_simps)
        ultimately show ?thesis using Suc.prems(8) [unfolded diff_Suc_1] by linarith
      qed
      have "0 < (2 :: nat) ^ d * 2 ^ (c * k)" by simp
      then have fits: "covered + ?q * 2 ^ ?X < u64_bound" using room by linarith
      have "covered_loop c d levels (Suc l) n (nodes c l) covered = covered_loop c d levels l ?r (nodes c k) (covered + ?q * 2 ^ ?X)"
        using k False q X pc nb fits Suc.prems(2,3)
        by (subst covered_loop.simps) (simp add: split_entries Let_def)
      also have "\<dots> = Ok (covered + ?q * 2 ^ ?X + 2 ^ d * leaf_count c k ?r)"
        using Suc.IH [of ?r "covered + ?q * 2 ^ ?X"] Suc.prems k room nodes_mono [of k l c] by simp
      finally have run: "covered_loop c d levels (Suc l) n (nodes c l) covered = Ok (covered + (?q * 2 ^ ?X + 2 ^ d * leaf_count c k ?r))"
        by (simp only: add.assoc)
      have "?q * 2 ^ ?X + 2 ^ d * leaf_count c k ?r = 2 ^ d * leaf_count c l n" using k by (simp add: power_add algebra_simps)
      then show ?thesis using run by (simp only: diff_Suc_1)
    qed
  qed
qed simp

lemma max_covered_spec:
  assumes ok: "shape_ok c d levels" and inv: "trailing_bits_mask c * inv_u64 = (1 :: u64)"
    and levels: "auth_tree_node_count_to_auth_tree_levels n c d a = Ok levels" and n: "1 \<le> n" "n \<le> nodes c (levels - 1)"
  shows "auth_tree_node_count_to_max_covered_data_block_count n levels c inv_u64 d a = Ok (min (u64_bound - 1) (2 ^ d * leaf_count c (levels - 1) n))"
proof -
  have h: "height_ok c levels" and c: "1 \<le> c" "c < 64" and lv: "1 \<le> levels" and d: "1 \<le> d" "d < 64" "(levels - 2) * c + d < 64"
    using ok by (simp_all add: shape_ok_def height_ok_def)
  show ?thesis
  proof (cases "levels = 1")
    case True
    have "(2 :: nat) ^ d \<le> 2 ^ 63" using d(2) by (intro power_increasing) auto
    then show ?thesis using True n levels c d by (simp add: auth_tree_node_count_to_max_covered_data_block_count_def)
  next
    case False
    define k where "k = levels - 2"
    have lk: "levels = Suc (Suc k)" using False lv by (simp add: k_def)
    let ?q = "(n - 1) div nodes c k" and ?r = "(n - 1) mod nodes c k" and ?X = "k * c + d"
    have X: "?X < 64" using d(3) by (simp add: lk)
    have root: "nodes c (Suc k) < u64_bound" using nodes_root_bound [OF h] by (simp add: lk)
    have pc: "(2 :: nat) ^ c < u64_bound" using c(2) by (intro power_strict_increasing) auto
    have nb: "n < u64_bound" using n(2) root by (simp add: lk)
    have n1: "n - 1 \<le> 2 ^ c * nodes c k" using n(2) by (simp add: lk)
    then have "?q \<le> 2 ^ c * nodes c k div nodes c k" by (rule div_le_mono)
    then have q: "?q \<le> 2 ^ c" by simp
    have kb: "nodes c k < u64_bound" using nodes_mono [of k "Suc k" c] root by (meson le_less_trans le_SucI order_refl)
    have pX: "(2 :: nat) ^ (64 - ?X) * 2 ^ ?X = u64_bound" using X by (simp flip: power_add)
    have "(2 :: nat) ^ (64 - ?X) < u64_bound" using d(1) X by (intro power_strict_increasing) auto
    then have lim: "shl_u64 (Suc 0) (64 - ?X) = Ok (2 ^ (64 - ?X))" using d(1) by simp
    have total: "2 ^ d * leaf_count c (Suc k) n = ?q * 2 ^ ?X + 2 ^ d * leaf_count c k ?r" using n(1) by (simp add: power_add algebra_simps)
    have start: "auth_tree_node_count_to_max_covered_data_block_count n levels c inv_u64 d a = covered_loop c d levels levels n (nodes c (Suc k)) 0"
      using levels n(1) c d auth_subtree_node_count_spec [OF h _ inv, of "levels - 1"]
      by (simp add: auth_tree_node_count_to_max_covered_data_block_count_def lk)
    show ?thesis
    proof (cases "n < levels")
      case True
      then have "leaf_count c (Suc k) n = 0" by (intro leaf_count_small [OF c(1)]) (simp add: lk)
      moreover have "covered_loop c d levels levels n (nodes c (Suc k)) 0 = Ok 0" using True n(1) lk by (subst covered_loop.simps) simp
      ultimately show ?thesis unfolding start by (simp add: lk)
    next
      case False
      have step: "covered_loop c d levels levels n (nodes c (Suc k)) 0
        = (if 2 ^ (64 - ?X) \<le> ?q then Ok (u64_bound - 1) else covered_loop c d levels (Suc k) ?r (nodes c k) (?q * 2 ^ ?X))"
      proof (cases "2 ^ (64 - ?X) \<le> ?q")
        case True
        then show ?thesis using False n(1) lk q X pc nb lim c(2)
          by (subst covered_loop.simps) (simp add: split_entries Let_def)
      next
        case small: False
        have "?q * 2 ^ ?X < 2 ^ (64 - ?X) * 2 ^ ?X" using small by simp
        also have "\<dots> = u64_bound" by (rule pX)
        finally have "?q * 2 ^ ?X < u64_bound" .
        then show ?thesis using small False n(1) lk q X pc nb lim c(2)
          by (subst covered_loop.simps) (simp add: split_entries Let_def)
      qed
      show ?thesis
      proof (cases "2 ^ (64 - ?X) \<le> ?q")
        case True
        then have "2 ^ (64 - ?X) * 2 ^ ?X \<le> ?q * 2 ^ ?X" by (rule mult_le_mono1)
        then have "u64_bound \<le> 2 ^ d * leaf_count c (Suc k) n" unfolding pX total by linarith
        then show ?thesis unfolding start step using True by (simp add: lk min_def)
      next
        case small: False
        have "Suc ?q * 2 ^ ?X \<le> 2 ^ (64 - ?X) * 2 ^ ?X" using small by (intro mult_le_mono1) simp
        moreover have "Suc ?q * 2 ^ ?X = ?q * 2 ^ ?X + 2 ^ d * 2 ^ (c * k)" by (simp add: power_add algebra_simps)
        ultimately have room: "?q * 2 ^ ?X + 2 ^ d * 2 ^ (c * k) \<le> u64_bound" unfolding pX by linarith
        have r: "?r < nodes c k" by simp
        have "2 ^ d * leaf_count c k ?r < 2 ^ d * 2 ^ (c * k)" using leaf_count_less [OF r] by simp
        then have "2 ^ d * leaf_count c (Suc k) n < u64_bound" using total room by linarith
        moreover have "covered_loop c d levels (Suc k) ?r (nodes c k) (?q * 2 ^ ?X) = Ok (?q * 2 ^ ?X + 2 ^ d * leaf_count c k ?r)"
          using covered_loop_spec [of c "Suc k" levels d ?r "?q * 2 ^ ?X"] c d(3) r kb room by (simp add: lk)
        ultimately show ?thesis unfolding start step using small total by (simp add: lk)
      qed
    qed
  qed
qed

section \<open>The nodes of the covered data are stored\<close>

lemma child_index_digit: "child_index c d l x = x div 2 ^ d div 2 ^ (c * l) mod 2 ^ c"
  by (simp add: child_index_def power_add ac_simps flip: div_mult2_eq)

lemma covered_position:
  assumes "x div 2 ^ d mod 2 ^ (c * l) < leaf_count c l n" "n \<le> nodes c l"
  shows "pre_pos c d 0 l x < n"
  using assms
proof (induction l arbitrary: n)
  case 0
  then show ?case by (simp add: pre_pos_def)
next
  case (Suc l)
  let ?y = "x div 2 ^ d" and ?k = "child_index c d l x" and ?q = "(n - 1) div nodes c l" and ?r = "(n - 1) mod nodes c l"
  have n: "n \<noteq> 0" using Suc.prems(1) by (auto split: if_splits)
  have pos: "pre_pos c d 0 (Suc l) x = 1 + ?k * nodes c l + pre_pos c d 0 l x" by (simp add: pre_pos_def)
  have split: "?y mod 2 ^ (c * Suc l) = ?k * 2 ^ (c * l) + ?y mod 2 ^ (c * l)"
    using mod_mult2_eq [of ?y "2 ^ (c * l)" "2 ^ c"] by (simp add: child_index_digit power_add ac_simps)
  have less: "?k * 2 ^ (c * l) + ?y mod 2 ^ (c * l) < ?q * 2 ^ (c * l) + leaf_count c l ?r"
    using Suc.prems(1) n split by simp
  have inside: "pre_pos c d 0 l x < nodes c l"
  proof -
    let ?w = "2 ^ (l * c + d) :: nat"
    have "x mod ?w < ?w" "x mod ?w \<le> x" by simp_all
    then have "x < x - x mod ?w + ?w" by linarith
    then show ?thesis using preorder_position [of 0 l c d "x - x mod ?w" x] by (simp add: dvd_minus_mod)
  qed
  have n1: "n = 1 + ?q * nodes c l + ?r" using n div_mult_mod_eq [of "n - 1" "nodes c l"] by linarith
  have r: "?r < nodes c l" by simp
  consider "?k < ?q" | "?k = ?q" "?y mod 2 ^ (c * l) < leaf_count c l ?r"
  proof (cases "?k < ?q")
    case False
    have "?k \<le> ?q"
    proof (rule ccontr)
      assume "\<not> ?k \<le> ?q"
      then have "Suc ?q * 2 ^ (c * l) \<le> ?k * 2 ^ (c * l)" by (intro mult_le_mono1) simp
      then show False using less leaf_count_less [OF r] by simp
    qed
    then have "?k = ?q" using False by simp
    moreover have "?y mod 2 ^ (c * l) < leaf_count c l ?r" using less unfolding \<open>?k = ?q\<close> by simp
    ultimately show ?thesis using that(2) by blast
  qed (use that(1) in blast)
  then show ?case
  proof cases
    case 1
    then have "Suc ?k * nodes c l \<le> ?q * nodes c l" by (intro mult_le_mono1) simp
    then show ?thesis using inside n1 unfolding pos by simp
  next
    case 2
    have "pre_pos c d 0 l x < ?r" by (rule Suc.IH [OF 2(2)]) (use r in simp)
    then show ?thesis using n1 unfolding pos 2(1) by linarith
  qed
qed

lemma pre_pos_ancestor:
  assumes "level \<le> l"
  shows "pre_pos c d level (l - level) x \<le> pre_pos c d 0 l x"
proof -
  have "pre_pos c d 0 l x = (\<Sum>j<level. 1 + child_index c d j x * nodes c j) + (\<Sum>j\<in>{level..<l}. 1 + child_index c d j x * nodes c j)"
    using assms sum.atLeastLessThan_concat [of 0 level l "\<lambda>j. 1 + child_index c d j x * nodes c j"]
    unfolding pre_pos_def lessThan_atLeast0 add_0 by simp
  moreover have "pre_pos c d level (l - level) x = (\<Sum>j\<in>{level..<l}. 1 + child_index c d j x * nodes c j)"
    using sum.shift_bounds_nat_ivl [of "\<lambda>j. 1 + child_index c d j x * nodes c j" 0 level "l - level"] assms
    unfolding pre_pos_def lessThan_atLeast0 by (simp add: add.commute)
  ultimately show ?thesis by simp
qed

lemma length_filter_take: "length (filter P (take n xs)) \<le> length (filter P xs)"
  by (metis append_take_drop_id filter_append le_add1 length_append)

lemma covered_pre_pos:
  assumes ok: "shape_ok c d levels" and n: "n \<le> nodes c (levels - 1)" and x: "x < 2 ^ d * leaf_count c (levels - 1) n" and l: "level < levels"
  shows "x < 2 ^ ((levels - 1) * c + d) \<and> pre_pos c d level (levels - 1 - level) x < n"
proof -
  let ?l = "levels - 1"
  have y: "x div 2 ^ d < leaf_count c ?l n" using x by (simp add: less_mult_imp_div_less mult.commute)
  have lc: "leaf_count c ?l n \<le> 2 ^ (c * ?l)"
    using leaf_count_preorder [OF n, of d 0] all_leaves [of c d ?l 0] length_filter_take [of is_leaf n "preorder c d ?l 0"] by simp
  have "2 ^ d * leaf_count c ?l n \<le> 2 ^ d * 2 ^ (c * ?l)" using lc by simp
  with x have "x < 2 ^ d * 2 ^ (c * ?l)" by (rule less_le_trans)
  then have "x < 2 ^ (?l * c + d)" by (simp add: power_add mult.commute)
  moreover have "x div 2 ^ d mod 2 ^ (c * ?l) < leaf_count c ?l n" using y lc by simp
  then have "pre_pos c d 0 ?l x < n" using n by (rule covered_position)
  moreover have "pre_pos c d level (?l - level) x \<le> pre_pos c d 0 ?l x" using l by (intro pre_pos_ancestor) simp
  ultimately show ?thesis by linarith
qed

section \<open>Properties\<close>

text \<open>
  C30: the function that computes the inverse of \<open>2 ^ c - 1\<close> modulo \<open>2 ^ 64\<close> by Hensel lifting terminates with it for every \<open>c\<close> from 1 to 64.
\<close>

theorem inverse_correct:
  assumes "1 \<le> c" "c \<le> 64"
  shows "\<exists>r. digests_per_node_minus_one_inv_mod_u64 c = Ok r \<and> r * (2 ^ c - 1) = 1"
  using digests_inverse [OF assms] assms(2) by (simp add: trailing_bits_mask_eq_mask mask_eq_exp_minus_1)

theorem inverse_correct_witness: "\<exists>r. digests_per_node_minus_one_inv_mod_u64 7 = Ok r \<and> r * 127 = 1"
  using inverse_correct [of 7] by simp

lemma inverse_mask:
  assumes "shape_ok c d levels" "digests_per_node_minus_one_inv_mod_u64 c = Ok r"
  shows "trailing_bits_mask c * r = (1 :: u64)"
  using digests_inverse [of c] assms by (auto simp: shape_ok_def height_ok_def mult.commute)

text \<open>
  C13: the position computed for the node at a level on the path to a data block is the position of that node in the
  depth first order of the complete tree, and the entry is the one of the child or the data block within the node. No arithmetic
  overflows, for every height that keeps the proper subtrees within 64 bits.
\<close>

theorem dfs_pre_index_correct:
  assumes "shape_ok c d levels" "digests_per_node_minus_one_inv_mod_u64 c = Ok r" "level < levels" "x < 2 ^ ((levels - 1) * c + d)"
  shows "\<exists>i entry. auth_tree_node_dfs_pre_index x level levels c r d = Ok (i, entry)
    \<and> i < length (preorder c d (levels - 1) 0) \<and> preorder c d (levels - 1) 0 ! i = (level, x - x mod 2 ^ (level * c + d))
    \<and> entry = (if level = 0 then x mod 2 ^ d else x div 2 ^ ((level - 1) * c + d) mod 2 ^ c)"
  using dfs_pre_index_spec [OF assms(1,3,4) inverse_mask [OF assms(1,2)]] preorder_position [of level "levels - 1" c d 0 x] assms(3,4)
  by (simp add: child_index_def)

theorem dfs_pre_index_correct_witness:
  "\<exists>r i entry. digests_per_node_minus_one_inv_mod_u64 2 = Ok r \<and> auth_tree_node_dfs_pre_index 11 1 3 2 r 1 = Ok (i, entry)
    \<and> preorder 2 1 2 0 ! i = (1, 8)"
proof -
  have ok: "shape_ok 2 1 3" by (simp add: shape_ok_def height_ok_def)
  obtain r where r: "digests_per_node_minus_one_inv_mod_u64 2 = Ok r" using digests_inverse [of 2] by auto
  from dfs_pre_index_correct [OF ok r, of 1 11] show ?thesis using r by auto
qed

text \<open>
  The height deduced from a number of nodes is the least height of a complete tree with that many nodes, or the
  limit on heights if that is less.
\<close>

theorem auth_tree_levels_correct:
  assumes "1 \<le> n" "n < u64_bound" "1 \<le> c" "c < 64" "d + a \<le> 64"
  shows "\<exists>l limit. max_auth_tree_levels c d a = Ok limit \<and> auth_tree_node_count_to_auth_tree_levels n c d a = Ok (min (l + 1) limit)
    \<and> n \<le> length (preorder c d l 0) \<and> (\<forall>k<l. length (preorder c d k 0) < n)"
proof -
  let ?l = "LEAST l. n \<le> nodes c l"
  have "n \<le> nodes c n" using nodes_ge [OF assms(3), of n] by simp
  then have "n \<le> nodes c ?l" by (rule LeastI)
  moreover have "\<forall>k < ?l. nodes c k < n" using not_less_Least by (metis linorder_not_le)
  moreover have "max_auth_tree_levels c d a = Ok (div_ceil_u32 (min 64 (64 - d - a + c)) c)"
    using assms(5) unfolding max_auth_tree_levels_def by simp
  ultimately show ?thesis using auth_tree_levels_spec [OF assms] by auto
qed

theorem auth_tree_levels_correct_witness:
  "\<exists>l limit. max_auth_tree_levels 7 7 0 = Ok limit \<and> auth_tree_node_count_to_auth_tree_levels 130 7 7 0 = Ok (min (l + 1) limit)
    \<and> 130 \<le> length (preorder 7 7 l 0) \<and> (\<forall>k<l. length (preorder 7 7 k 0) < 130)"
  using auth_tree_levels_correct [of 130 7 7 0] by simp

text \<open>
  The number of data blocks deduced from a number of nodes is the number of digests in the leaves among that many nodes
  in depth first order, capped at the largest 64 bit number.
\<close>

theorem max_covered_correct:
  assumes "shape_ok c d levels" "digests_per_node_minus_one_inv_mod_u64 c = Ok r"
    "auth_tree_node_count_to_auth_tree_levels n c d a = Ok levels" "1 \<le> n" "n \<le> length (preorder c d (levels - 1) 0)"
  shows "auth_tree_node_count_to_max_covered_data_block_count n levels c r d a
    = Ok (min (u64_bound - 1) (2 ^ d * length (filter is_leaf (take n (preorder c d (levels - 1) 0)))))"
  using max_covered_spec [OF assms(1) inverse_mask [OF assms(1,2)] assms(3,4)] assms(5) leaf_count_preorder by simp

theorem max_covered_correct_witness:
  "\<exists>r. digests_per_node_minus_one_inv_mod_u64 1 = Ok r
    \<and> auth_tree_node_count_to_max_covered_data_block_count 5 3 1 r 2 0 = Ok (2 ^ 2 * length (filter is_leaf (take 5 (preorder 1 2 2 0))))"
proof -
  have ok: "shape_ok 1 2 3" by (simp add: shape_ok_def height_ok_def)
  obtain r where r: "digests_per_node_minus_one_inv_mod_u64 1 = Ok r" using digests_inverse [of 1] by auto
  have "(LEAST l. 5 \<le> nodes 1 l) = 2"
  proof (rule Least_equality)
    show "5 \<le> nodes 1 2" by (simp add: numeral_2_eq_2)
  next
    fix l assume "5 \<le> nodes 1 l"
    then show "2 \<le> l" by (cases l; cases "l - 1") (auto simp: numeral_2_eq_2)
  qed
  then have levels: "auth_tree_node_count_to_auth_tree_levels 5 1 2 0 = Ok 3"
    using auth_tree_levels_spec [of 5 1 2 0] by (simp add: div_ceil_u32_def)
  have len: "length (preorder 1 2 2 0) = 7" by (simp add: numeral_2_eq_2)
  have "length (filter is_leaf (take 5 (preorder 1 2 2 0))) \<le> 5" using length_filter_le [of is_leaf "take 5 (preorder 1 2 2 0)"] by simp
  then show ?thesis using max_covered_correct [OF ok r levels] r len by (auto simp: min_def)
qed

text \<open>
  C8: every node on the path from the root to a covered data block is among the nodes the tree has storage for.
\<close>

theorem covered_nodes_stored:
  assumes "shape_ok c d levels" "digests_per_node_minus_one_inv_mod_u64 c = Ok r"
    "auth_tree_node_count_to_auth_tree_levels n c d a = Ok levels" "1 \<le> n" "n \<le> nodes c (levels - 1)"
    "auth_tree_node_count_to_max_covered_data_block_count n levels c r d a = Ok covered" "x < covered" "level < levels"
  shows "\<exists>i entry. auth_tree_node_dfs_pre_index x level levels c r d = Ok (i, entry) \<and> i < n"
proof -
  have "x < 2 ^ d * leaf_count c (levels - 1) n"
    using max_covered_spec [OF assms(1) inverse_mask [OF assms(1,2)] assms(3,4,5)] assms(6,7) by simp
  from covered_pre_pos [OF assms(1,5) this assms(8)] show ?thesis
    using dfs_pre_index_spec [OF assms(1,8) _ inverse_mask [OF assms(1,2)]] by auto
qed

theorem covered_nodes_stored_witness:
  "\<exists>r i entry. digests_per_node_minus_one_inv_mod_u64 1 = Ok r \<and> auth_tree_node_dfs_pre_index 1 0 1 1 r 2 = Ok (i, entry) \<and> i < 1"
proof -
  have ok: "shape_ok 1 2 1" by (simp add: shape_ok_def height_ok_def)
  obtain r where r: "digests_per_node_minus_one_inv_mod_u64 1 = Ok r" using digests_inverse [of 1] by auto
  have "(LEAST l. 1 \<le> nodes 1 l) = 0" by (rule Least_equality) auto
  then have levels: "auth_tree_node_count_to_auth_tree_levels 1 1 2 0 = Ok 1"
    using auth_tree_levels_spec [of 1 1 2 0] by (simp add: div_ceil_u32_def)
  have "auth_tree_node_count_to_max_covered_data_block_count 1 1 1 r 2 0 = Ok 4"
    using levels by (simp add: auth_tree_node_count_to_max_covered_data_block_count_def)
  from covered_nodes_stored [OF ok r levels _ _ this, of 1 0] show ?thesis using r by auto
qed

end
