(* ===== verification/Auth_Tree_Node_Id.thy ===== *)
theory Auth_Tree_Node_Id
  imports Auth_Tree_Cover
begin

text \<open>
  The identifiers of nodes of the authentication tree, \<open>AuthTreeNodeId\<close> in \<open>src/storage/src/fs/cocoonfs/auth_tree.rs\<close>. A node is identified
  by its level and the first data block it covers. Their order is the depth first order of the tree, and the number that the
  code authenticates in their place identifies them.
\<close>

section \<open>Node identifiers\<close>

record auth_tree_node_id =
  covered_data_blocks_begin :: u64
  node_level :: nat
  id_node_digests_per_node_log2 :: nat
  id_data_digests_per_node_log2 :: nat

definition level_covered_data_block_index_bits :: "nat \<Rightarrow> nat \<Rightarrow> nat \<Rightarrow> nat" where
  "level_covered_data_block_index_bits level c d = level * c + d"

definition node_id_new :: "u64 \<Rightarrow> nat \<Rightarrow> nat \<Rightarrow> nat \<Rightarrow> auth_tree_node_id" where
  "node_id_new covered_data_block_index level c d =
     (let bits = level_covered_data_block_index_bits level c d in
      \<lparr>covered_data_blocks_begin = (if bits < 64 then covered_data_block_index AND NOT (trailing_bits_mask bits) else 0),
       node_level = level, id_node_digests_per_node_log2 = c, id_data_digests_per_node_log2 = d\<rparr>)"

definition id_bits :: "auth_tree_node_id \<Rightarrow> nat" where
  "id_bits n = level_covered_data_block_index_bits (node_level n) (id_node_digests_per_node_log2 n) (id_data_digests_per_node_log2 n)"

definition index_in_parent :: "auth_tree_node_id \<Rightarrow> u64 outcome" where
  "index_in_parent n =
     debug_assert (id_bits n < 64)
       (Ok (drop_bit (id_bits n) (covered_data_blocks_begin n) AND trailing_bits_mask (id_node_digests_per_node_log2 n)))"

definition first_covered_data_block :: "auth_tree_node_id \<Rightarrow> u64" where
  "first_covered_data_block n = covered_data_blocks_begin n"

definition last_covered_data_block :: "auth_tree_node_id \<Rightarrow> u64 outcome" where
  "last_covered_data_block n =
     (if id_bits n < 64 then
        debug_assert (covered_data_blocks_begin n AND trailing_bits_mask (id_bits n) = 0)
          (Ok (covered_data_blocks_begin n OR trailing_bits_mask (id_bits n)))
      else Ok (- 1))"

definition last_entry_covered_data_blocks_begin :: "auth_tree_node_id \<Rightarrow> u64 outcome" where
  "last_entry_covered_data_blocks_begin n =
     (let c = id_node_digests_per_node_log2 n in
      if node_level n \<noteq> 0 then
        and_then (sub_u64 (id_bits n) c) (\<lambda>shift.
        debug_assert (shift < 64)
          (Ok (covered_data_blocks_begin n OR push_bit shift (trailing_bits_mask c))))
      else
        debug_assert (covered_data_blocks_begin n AND trailing_bits_mask (id_data_digests_per_node_log2 n) = 0)
          (Ok (covered_data_blocks_begin n OR trailing_bits_mask (id_data_digests_per_node_log2 n))))"

datatype ordering = OrdLess | OrdEqual | OrdGreater

definition ord_of :: "'a::linorder \<Rightarrow> 'a \<Rightarrow> ordering" where
  "ord_of x y = (if x < y then OrdLess else if x = y then OrdEqual else OrdGreater)"

definition node_id_cmp :: "auth_tree_node_id \<Rightarrow> auth_tree_node_id \<Rightarrow> ordering outcome" where
  "node_id_cmp n m =
     (let shift = max (node_level n) (node_level m) * id_node_digests_per_node_log2 n + id_data_digests_per_node_log2 n in
      if 64 \<le> shift then Panic
      else if drop_bit shift (covered_data_blocks_begin n XOR covered_data_blocks_begin m) = 0 then
        (case ord_of (node_level n) (node_level m) of
           OrdLess \<Rightarrow> Ok OrdGreater
         | OrdEqual \<Rightarrow> debug_assert (covered_data_blocks_begin n = covered_data_blocks_begin m) (Ok OrdEqual)
         | OrdGreater \<Rightarrow> Ok OrdLess)
      else
        debug_assert (covered_data_blocks_begin n \<noteq> covered_data_blocks_begin m)
          (Ok (ord_of (covered_data_blocks_begin n) (covered_data_blocks_begin m))))"

section \<open>The blocks a node covers\<close>

lemma unat_clear_low: "k < 64 \<Longrightarrow> unat (x AND NOT (trailing_bits_mask k) :: u64) = unat x - unat x mod 2 ^ k"
  by (simp add: trailing_bits_mask_eq_mask and_not_mask_eq unat_round_down_pow2 minus_mod_eq_div_mult)

lemma block_fits:
  fixes x :: nat
  assumes "x < 2 ^ n" "k \<le> n"
  shows "x div 2 ^ k * 2 ^ k + (2 ^ k - 1) < 2 ^ n"
proof -
  have "x < 2 ^ (n - k) * 2 ^ k" using assms by (simp flip: power_add)
  then have "x div 2 ^ k < 2 ^ (n - k)" by (rule less_mult_imp_div_less)
  then have "Suc (x div 2 ^ k) * 2 ^ k \<le> 2 ^ (n - k) * 2 ^ k" by (intro mult_le_mono1) simp
  also have "\<dots> = (2 :: nat) ^ n" using assms(2) by (simp flip: power_add)
  finally show ?thesis using zero_less_power [of "2 :: nat" k] unfolding mult_Suc by linarith
qed

lemma block_range_iff:
  fixes x y w :: nat
  assumes "0 < w"
  shows "x div w * w \<le> y \<and> y \<le> x div w * w + (w - 1) \<longleftrightarrow> y div w = x div w"
proof
  assume "x div w * w \<le> y \<and> y \<le> x div w * w + (w - 1)"
  then have "w * (x div w) \<le> y" "y < w * Suc (x div w)" using assms unfolding mult.commute [of w] mult_Suc by linarith+
  then show "y div w = x div w" by (rule div_nat_eqI)
next
  assume "y div w = x div w"
  then have "x div w * w + y mod w = y" using div_mult_mod_eq [of y w] by simp
  then show "x div w * w \<le> y \<and> y \<le> x div w * w + (w - 1)" using mod_less_divisor [OF assms, of y] by linarith
qed

text \<open>A node of a tree whose proper subtrees have a size within 64 bits.\<close>

definition node_id_ok :: "auth_tree_node_id \<Rightarrow> bool" where
  "node_id_ok n \<longleftrightarrow> 1 \<le> id_node_digests_per_node_log2 n \<and> id_node_digests_per_node_log2 n \<le> 64
     \<and> 1 \<le> id_data_digests_per_node_log2 n \<and> id_data_digests_per_node_log2 n < 64
     \<and> (node_level n - 1) * id_node_digests_per_node_log2 n + id_data_digests_per_node_log2 n < 64
     \<and> (\<forall>i < id_bits n. \<not> bit (covered_data_blocks_begin n) i)"

lemma node_id_new_ok:
  assumes "1 \<le> c" "c \<le> 64" "1 \<le> d" "d < 64" "(level - 1) * c + d < 64"
  shows "node_id_ok (node_id_new x level c d)"
  using assms
  by (auto simp: node_id_ok_def node_id_new_def id_bits_def level_covered_data_block_index_bits_def Let_def
      trailing_bits_mask_eq_mask bit_simps)

definition last_entry :: "auth_tree_node_id \<Rightarrow> u64" where
  "last_entry n = covered_data_blocks_begin n OR
     (if node_level n \<noteq> 0
      then push_bit ((node_level n - 1) * id_node_digests_per_node_log2 n + id_data_digests_per_node_log2 n)
             (trailing_bits_mask (id_node_digests_per_node_log2 n))
      else trailing_bits_mask (id_data_digests_per_node_log2 n))"

lemma last_entry_eq:
  assumes "node_id_ok n"
  shows "last_entry_covered_data_blocks_begin n = Ok (last_entry n)"
proof (cases "node_level n")
  case 0
  have "covered_data_blocks_begin n AND trailing_bits_mask (id_data_digests_per_node_log2 n) = 0"
    using assms 0 by (auto simp: node_id_ok_def id_bits_def level_covered_data_block_index_bits_def trailing_bits_mask_eq_mask bit_eq_iff bit_simps)
  then show ?thesis using 0 by (simp add: last_entry_covered_data_blocks_begin_def last_entry_def)
next
  case (Suc l)
  then show ?thesis using assms
    by (simp add: last_entry_covered_data_blocks_begin_def last_entry_def node_id_ok_def id_bits_def level_covered_data_block_index_bits_def Let_def)
qed

definition lowest_bit :: "auth_tree_node_id \<Rightarrow> nat" where
  "lowest_bit n = (if node_level n = 0 then 0 else (node_level n - 1) * id_node_digests_per_node_log2 n + id_data_digests_per_node_log2 n)"

lemma last_entry_bits:
  assumes "node_id_ok n"
  shows "bit (last_entry n) (lowest_bit n)" "i < lowest_bit n \<Longrightarrow> \<not> bit (last_entry n) i"
    "id_bits n \<le> i \<Longrightarrow> bit (last_entry n) i \<longleftrightarrow> bit (covered_data_blocks_begin n) i"
proof -
  let ?c = "id_node_digests_per_node_log2 n" and ?d = "id_data_digests_per_node_log2 n"
  have ok: "1 \<le> ?c" "?c \<le> 64" "1 \<le> ?d" "?d < 64" "lowest_bit n < 64" and clear: "\<And>i. i < id_bits n \<Longrightarrow> \<not> bit (covered_data_blocks_begin n) i"
    using assms by (auto simp: node_id_ok_def lowest_bit_def)
  have bits: "lowest_bit n + ?c \<le> id_bits n" if "node_level n \<noteq> 0"
    using that by (cases "node_level n") (simp_all add: lowest_bit_def id_bits_def level_covered_data_block_index_bits_def)
  have bits0: "id_bits n = ?d" if "node_level n = 0" using that by (simp add: id_bits_def level_covered_data_block_index_bits_def)
  have le: "bit (last_entry n) i \<longleftrightarrow> bit (covered_data_blocks_begin n) i \<or> (i < 64 \<and>
     (if node_level n \<noteq> 0 then lowest_bit n \<le> i \<and> i - lowest_bit n < ?c else i < ?d))" for i
    using ok by (auto simp: last_entry_def lowest_bit_def trailing_bits_mask_eq_mask bit_simps)
  show "bit (last_entry n) (lowest_bit n)" using ok unfolding le by (auto simp: lowest_bit_def)
  show "\<not> bit (last_entry n) i" if "i < lowest_bit n"
  proof -
    have "node_level n \<noteq> 0" using that by (auto simp: lowest_bit_def split: if_splits)
    then show ?thesis using that bits clear [of i] unfolding le by auto
  qed
  show "bit (last_entry n) i \<longleftrightarrow> bit (covered_data_blocks_begin n) i" if "id_bits n \<le> i"
    using that bits bits0 unfolding le by auto
qed

lemma last_entry_inj:
  assumes "node_id_ok n" "node_id_ok m" "id_node_digests_per_node_log2 n = id_node_digests_per_node_log2 m"
    "id_data_digests_per_node_log2 n = id_data_digests_per_node_log2 m" "last_entry n = last_entry m"
  shows "n = m"
proof -
  have low: "lowest_bit n = lowest_bit m"
    using last_entry_bits(1,2) [OF assms(1)] last_entry_bits(1,2) [OF assms(2)] assms(5) by (metis linorder_neqE_nat)
  have lev: "node_level n = node_level m"
  proof -
    have "1 \<le> id_node_digests_per_node_log2 m" "1 \<le> id_data_digests_per_node_log2 m" using assms(2) by (auto simp: node_id_ok_def)
    then show ?thesis using low unfolding lowest_bit_def assms(3,4) by (cases "node_level n"; cases "node_level m") auto
  qed
  then have bits: "id_bits n = id_bits m" using assms(3,4) by (simp add: id_bits_def)
  have "bit (covered_data_blocks_begin n) i \<longleftrightarrow> bit (covered_data_blocks_begin m) i" for i
  proof (cases "i < id_bits n")
    case True
    then show ?thesis using assms(1,2) bits by (auto simp: node_id_ok_def)
  next
    case False
    then show ?thesis using last_entry_bits(3) [OF assms(1), of i] last_entry_bits(3) [OF assms(2), of i] assms(5) bits by simp
  qed
  then have "covered_data_blocks_begin n = covered_data_blocks_begin m" by (simp add: bit_eq_iff)
  then show ?thesis using lev assms(3,4) by simp
qed

section \<open>The order of the nodes\<close>

definition pre_before :: "nat \<Rightarrow> nat \<Rightarrow> nat \<times> nat \<Rightarrow> nat \<times> nat \<Rightarrow> bool" where
  "pre_before c d n m \<longleftrightarrow>
     (let w = 2 ^ (max (fst n) (fst m) * c + d) in if snd n div w = snd m div w then fst m < fst n else snd n < snd m)"

lemma preorder_elem:
  assumes "2 ^ (l * c + d) dvd b" "n \<in> set (preorder c d l b)"
  shows "fst n \<le> l \<and> b \<le> snd n \<and> snd n + 2 ^ (fst n * c + d) \<le> b + 2 ^ (l * c + d) \<and> 2 ^ (fst n * c + d) dvd snd n"
  using assms
proof (induction l arbitrary: b)
  case (Suc l)
  let ?w = "2 ^ (l * c + d) :: nat"
  have w: "(2 :: nat) ^ (Suc l * c + d) = 2 ^ c * ?w" by (simp add: power_add)
  show ?case
  proof (cases "n = (Suc l, b)")
    case True
    then show ?thesis using Suc.prems(1) by simp
  next
    case False
    then obtain k where k: "k < 2 ^ c" "n \<in> set (preorder c d l (b + k * ?w))" using Suc.prems(2) by auto
    have "?w dvd b" using Suc.prems(1) unfolding w by (rule dvd_mult_right)
    then have IH: "fst n \<le> l \<and> b + k * ?w \<le> snd n \<and> snd n + 2 ^ (fst n * c + d) \<le> b + k * ?w + ?w \<and> 2 ^ (fst n * c + d) dvd snd n"
      using Suc.IH [OF _ k(2)] by simp
    have "Suc k * ?w \<le> 2 ^ c * ?w" using k(1) by (intro mult_le_mono1) simp
    then show ?thesis using IH unfolding w by auto
  qed
qed auto

lemma sorted_wrt_concat_map:
  assumes "\<And>k. k < n \<Longrightarrow> sorted_wrt P (f k)" "\<And>j k x y. j < k \<Longrightarrow> k < n \<Longrightarrow> x \<in> set (f j) \<Longrightarrow> y \<in> set (f k) \<Longrightarrow> P x y"
  shows "sorted_wrt P (concat (map f [0..<n]))"
  using assms by (induction n) (auto simp: sorted_wrt_append)

lemma div_separates:
  fixes v t x y :: nat
  assumes "v dvd t" "x < t" "t \<le> y"
  shows "x div v < y div v"
proof -
  obtain q where q: "t = q * v" using assms(1) by (metis dvdE mult.commute)
  then have "x div v < q" using assms(2) by (simp add: less_mult_imp_div_less)
  also have "q \<le> y div v" using div_le_mono [OF assms(3), of v] q assms(2) by (cases "v = 0") auto
  finally show ?thesis .
qed

lemma preorder_sorted:
  assumes "2 ^ (l * c + d) dvd b"
  shows "sorted_wrt (pre_before c d) (preorder c d l b)"
  using assms
proof (induction l arbitrary: b)
  case (Suc l)
  let ?w = "2 ^ (l * c + d) :: nat" and ?f = "\<lambda>k. preorder c d l (b + k * 2 ^ (l * c + d))"
  have w: "(2 :: nat) ^ (Suc l * c + d) = 2 ^ c * ?w" by (simp add: power_add)
  have wb: "?w dvd b" using Suc.prems unfolding w by (rule dvd_mult_right)
  then have dv: "?w dvd b + k * ?w" for k by simp
  have "sorted_wrt (pre_before c d) (concat (map ?f [0..<2 ^ c]))"
  proof (rule sorted_wrt_concat_map)
    show "sorted_wrt (pre_before c d) (?f k)" for k by (rule Suc.IH [OF dv])
  next
    fix j k x y assume jk: "j < k" "k < 2 ^ c" "x \<in> set (?f j)" "y \<in> set (?f k)"
    note e = preorder_elem [OF dv jk(3)] preorder_elem [OF dv jk(4)]
    have "Suc j * ?w \<le> k * ?w" using jk(1) by (intro mult_le_mono1) simp
    then have sep: "snd x < b + k * ?w" "b + k * ?w \<le> snd y" using e(1) e(2) zero_less_power [of "2 :: nat" "fst x * c + d"] unfolding mult_Suc by linarith+
    let ?v = "2 ^ (max (fst x) (fst y) * c + d) :: nat"
    have "max (fst x) (fst y) * c \<le> l * c" using e by (intro mult_le_mono1) simp
    then have "?v dvd ?w" by (intro le_imp_power_dvd) simp
    then have "?v dvd b + k * ?w" using dv by (rule dvd_trans)
    from div_separates [OF this sep] sep show "pre_before c d x y" unfolding pre_before_def by simp
  qed
  moreover have "pre_before c d (Suc l, b) x" if mem: "x \<in> set (concat (map ?f [0..<2 ^ c]))" for x
  proof -
    obtain k where k: "k < 2 ^ c" "x \<in> set (?f k)" using mem by auto
    have "x \<in> set (preorder c d (Suc l) b)" using mem by simp
    from preorder_elem [OF Suc.prems this] preorder_elem [OF dv k(2)]
    have x: "fst x \<le> l" "b \<le> snd x" "snd x < b + 2 ^ (Suc l * c + d)" using zero_less_power [of "2 :: nat" "fst x * c + d"] by linarith+
    obtain q where q: "b = 2 ^ (Suc l * c + d) * q" using Suc.prems by blast
    then have "snd x div 2 ^ (Suc l * c + d) = q" using x by (intro div_nat_eqI) (simp_all add: algebra_simps)
    moreover have "max (Suc l) (fst x) = Suc l" using x(1) by simp
    ultimately show ?thesis using x(1) q unfolding pre_before_def by simp
  qed
  ultimately show ?case by simp
qed simp

definition node_id_of :: "nat \<Rightarrow> nat \<Rightarrow> nat \<times> nat \<Rightarrow> auth_tree_node_id" where
  "node_id_of c d n = node_id_new (of_nat (snd n)) (fst n) c d"

lemma drop_bit_xor_0_iff: "drop_bit k (x XOR y) = 0 \<longleftrightarrow> unat x div 2 ^ k = unat y div 2 ^ k" for x y :: u64
proof -
  have "drop_bit k (x XOR y) = 0 \<longleftrightarrow> drop_bit k x = drop_bit k y" by (auto simp: bit_eq_iff bit_simps)
  also have "\<dots> \<longleftrightarrow> unat (drop_bit k x) = unat (drop_bit k y)" by (simp only: word_unat_eq_iff)
  also have "\<dots> \<longleftrightarrow> unat x div 2 ^ k = unat y div 2 ^ k" unfolding unat_drop_bit_eq by (simp add: drop_bit_eq_div)
  finally show ?thesis .
qed

lemma node_id_of_begin:
  assumes "l * c + d < 64" "n \<in> set (preorder c d l 0)"
  shows "unat (covered_data_blocks_begin (node_id_of c d n)) = snd n" "node_level (node_id_of c d n) = fst n"
proof -
  note e = preorder_elem [OF dvd_0_right assms(2)]
  have "snd n < 2 ^ (l * c + d)" using e zero_less_power [of "2 :: nat" "fst n * c + d"] by linarith
  also have "(2 :: nat) ^ (l * c + d) < u64_bound" using assms(1) by (intro power_strict_increasing) auto
  finally have u: "unat (of_nat (snd n) :: u64) = snd n" by (simp add: unat_of_nat take_bit_nat_eq_self_iff)
  have "fst n * c \<le> l * c" using e by (intro mult_le_mono1) simp
  then have k: "fst n * c + d < 64" using assms(1) by linarith
  show "unat (covered_data_blocks_begin (node_id_of c d n)) = snd n"
    using unat_clear_low [OF k, of "of_nat (snd n)"] k e u by (simp add: node_id_of_def node_id_new_def level_covered_data_block_index_bits_def dvd_imp_mod_0)
  show "node_level (node_id_of c d n) = fst n" by (simp add: node_id_of_def node_id_new_def Let_def)
qed

lemma node_id_cmp_before:
  assumes l: "l * c + d < 64" and n: "n \<in> set (preorder c d l 0)" "m \<in> set (preorder c d l 0)" and b: "pre_before c d n m"
  shows "node_id_cmp (node_id_of c d n) (node_id_of c d m) = Ok OrdLess \<and> node_id_cmp (node_id_of c d m) (node_id_of c d n) = Ok OrdGreater"
proof -
  note e = node_id_of_begin [OF l n(1)] node_id_of_begin [OF l n(2)]
  have le: "fst n \<le> l" "fst m \<le> l" using preorder_elem [OF dvd_0_right n(1)] preorder_elem [OF dvd_0_right n(2)] by simp_all
  have "max (fst n) (fst m) * c \<le> l * c" using le by (intro mult_le_mono1) simp
  then have k: "max (fst n) (fst m) * c + d < 64" using l by linarith
  have cd: "id_node_digests_per_node_log2 (node_id_of c d x) = c" "id_data_digests_per_node_log2 (node_id_of c d x) = d" for x
    by (simp_all add: node_id_of_def node_id_new_def Let_def)
  have w: "covered_data_blocks_begin (node_id_of c d n) < covered_data_blocks_begin (node_id_of c d m)" if "snd n < snd m"
    using that unfolding word_less_nat_alt e .
  show ?thesis
  proof (cases "snd n div 2 ^ (max (fst n) (fst m) * c + d) = snd m div 2 ^ (max (fst n) (fst m) * c + d)")
    case True
    then have "fst m < fst n" using b by (simp add: pre_before_def)
    then show ?thesis using True k unfolding node_id_cmp_def cd e Let_def drop_bit_xor_0_iff by (simp add: ord_of_def max.commute)
  next
    case False
    then have "snd n < snd m" using b by (simp add: pre_before_def)
    note lt = w [OF this]
    show ?thesis using False k lt less_imp_neq [OF lt] unfolding node_id_cmp_def cd e Let_def drop_bit_xor_0_iff
      by (simp add: ord_of_def max.commute less_not_sym)
  qed
qed

section \<open>Properties\<close>

text \<open>
  node identifiers are ordered as the nodes are in a depth first search of the tree, parents before their children, which is the
  order of their storage.
\<close>

theorem node_id_cmp_correct:
  assumes "l * c + d < 64" "i < length (preorder c d l 0)" "j < length (preorder c d l 0)"
  shows "node_id_cmp (node_id_of c d (preorder c d l 0 ! i)) (node_id_of c d (preorder c d l 0 ! j)) = Ok (ord_of i j)"
proof -
  let ?p = "preorder c d l 0"
  have mem: "?p ! i \<in> set ?p" "?p ! j \<in> set ?p" using assms(2,3) by simp_all
  have before: "pre_before c d (?p ! a) (?p ! b)" if "a < b" "b < length ?p" for a b
    using sorted_wrt_nth_less [OF preorder_sorted [OF dvd_0_right] that] .
  consider "i < j" | "i = j" | "j < i" by (rule linorder_cases)
  then show ?thesis
  proof cases
    case 2
    have "fst (?p ! j) * c \<le> l * c" using preorder_elem [OF dvd_0_right mem(2)] by (intro mult_le_mono1) simp
    then have "fst (?p ! j) * c + d < 64" using assms(1) by linarith
    then show ?thesis using 2 by (simp add: node_id_cmp_def ord_of_def node_id_of_def node_id_new_def Let_def)
  qed (use before node_id_cmp_before [OF assms(1) mem] node_id_cmp_before [OF assms(1) mem(2) mem(1)] assms(2,3) in \<open>simp_all add: ord_of_def\<close>)
qed

theorem node_id_cmp_correct_witness:
  "node_id_cmp (node_id_of 1 1 (preorder 1 1 1 0 ! 0)) (node_id_of 1 1 (preorder 1 1 1 0 ! 2)) = Ok OrdLess"
  using node_id_cmp_correct [of 1 1 1 0 2] by (simp add: ord_of_def)

text \<open>
  C11: the number that stands for a node in the data that is authenticated along with it, the first block covered by its last
  entry, is different for different nodes, even where the root covers more than 64 bits can count.
\<close>

theorem node_id_unique:
  assumes "1 \<le> c" "c \<le> 64" "1 \<le> d" "d < 64" "(l - 1) * c + d < 64" "(k - 1) * c + d < 64"
  shows "\<exists>v w. last_entry_covered_data_blocks_begin (node_id_new x l c d) = Ok v \<and> last_entry_covered_data_blocks_begin (node_id_new y k c d) = Ok w
    \<and> (v = w \<longleftrightarrow> node_id_new x l c d = node_id_new y k c d)"
proof -
  have ok: "node_id_ok (node_id_new x l c d)" "node_id_ok (node_id_new y k c d)" using assms by (intro node_id_new_ok; simp)+
  have cd: "id_node_digests_per_node_log2 (node_id_new z h c d) = c" "id_data_digests_per_node_log2 (node_id_new z h c d) = d" for z h
    by (simp_all add: node_id_new_def Let_def)
  have "last_entry (node_id_new x l c d) = last_entry (node_id_new y k c d) \<longleftrightarrow> node_id_new x l c d = node_id_new y k c d"
    using last_entry_inj [OF ok] unfolding cd by auto
  then show ?thesis using last_entry_eq [OF ok(1)] last_entry_eq [OF ok(2)] by simp
qed

theorem node_id_unique_witness:
  "\<exists>v w. last_entry_covered_data_blocks_begin (node_id_new 5 9 7 6) = Ok v \<and> last_entry_covered_data_blocks_begin (node_id_new 5 8 7 6) = Ok w \<and> v \<noteq> w"
  using node_id_unique [of 7 6 9 8 5 5] by (auto simp: node_id_new_def Let_def)

text \<open>
  The data blocks from the first to the last one that a node covers are the blocks for which the node at that level on the path from
  the root is the node itself.
\<close>

theorem node_id_covers:
  "\<exists>e. last_covered_data_block (node_id_new x level c d) = Ok e
    \<and> (first_covered_data_block (node_id_new x level c d) \<le> y \<and> y \<le> e \<longleftrightarrow> node_id_new y level c d = node_id_new x level c d)"
proof (cases "level * c + d < 64")
  case True
  define k where "k = level * c + d"
  let ?b = "x AND NOT (trailing_bits_mask k)"
  have k: "k < 64" using True by (simp add: k_def)
  have n: "id_bits (node_id_new z level c d) = k" "covered_data_blocks_begin (node_id_new z level c d) = z AND NOT (trailing_bits_mask k)" for z
    using k by (simp_all add: id_bits_def node_id_new_def level_covered_data_block_index_bits_def k_def Let_def)
  have "?b AND trailing_bits_mask k = 0" by (simp add: bit_eq_iff bit_simps)
  then have e: "last_covered_data_block (node_id_new x level c d) = Ok (?b OR trailing_bits_mask k)" using k by (simp add: last_covered_data_block_def n)
  have "?b OR trailing_bits_mask k = ?b + trailing_bits_mask k" by (rule disjunctive_add [symmetric]) (auto simp: bit_simps)
  moreover have m: "unat (trailing_bits_mask k :: u64) = 2 ^ k - 1" using k by (simp add: trailing_bits_mask_eq_mask unat_mask)
  ultimately have "unat (?b OR trailing_bits_mask k) = unat x div 2 ^ k * 2 ^ k + (2 ^ k - 1)"
    using block_fits [of "unat x" 64 k] k unsigned_less [of x, where 'a = nat] by (simp add: unat_word_ariths unat_clear_low minus_mod_eq_div_mult)
  moreover have "unat x div 2 ^ k * 2 ^ k \<le> unat y \<and> unat y \<le> unat x div 2 ^ k * 2 ^ k + (2 ^ k - 1) \<longleftrightarrow> unat y div 2 ^ k = unat x div 2 ^ k"
    by (rule block_range_iff) simp
  moreover have "node_id_new y level c d = node_id_new x level c d \<longleftrightarrow> unat y div 2 ^ k = unat x div 2 ^ k"
  proof -
    have "node_id_new y level c d = node_id_new x level c d \<longleftrightarrow> y AND NOT (trailing_bits_mask k) = x AND NOT (trailing_bits_mask k)"
      using k by (simp add: node_id_new_def level_covered_data_block_index_bits_def k_def Let_def)
    also have "\<dots> \<longleftrightarrow> unat y div 2 ^ k * 2 ^ k = unat x div 2 ^ k * 2 ^ k"
      unfolding word_unat_eq_iff unat_clear_low [OF k] minus_mod_eq_div_mult ..
    finally show ?thesis by simp
  qed
  ultimately show ?thesis using e by (simp add: first_covered_data_block_def n word_le_nat_alt unat_clear_low [OF k] minus_mod_eq_div_mult)
next
  case False
  then show ?thesis by (simp add: last_covered_data_block_def first_covered_data_block_def id_bits_def node_id_new_def level_covered_data_block_index_bits_def)
qed
end
