(* ===== verification/Auth_Tree_Levels.thy ===== *)
theory Auth_Tree_Levels
  imports Auth_Tree_Cover
begin

text \<open>
  The height of the authentication tree for a new image, \<open>image_allocation_blocks_to_auth_tree_levels\<close> in
  \<open>src/storage/src/fs/cocoonfs/auth_tree.rs\<close>. The number of leaves that the tree needs is the least \<open>q\<close> with
  \<open>(2 ^ c - 1) * image_blocks + 2 ^ b \<le> q * v\<close>, a division whose dividend may not fit 64 bits. The code divides digit by digit, in
  \<open>muldiv_loop\<close>, and \<open>required_leaves_spec\<close> shows that this is exact and that no step overflows.
\<close>

section \<open>The height for an image\<close>

definition ilog2_u64 :: "nat \<Rightarrow> nat" where
  "ilog2_u64 n = 63 - leading_zeros (of_nat n :: u64)"

text \<open>The loop that divides \<open>u * r\<close> by \<open>v\<close> without computing the product, where \<open>u\<close> is \<open>2 ^ c - 1\<close>.\<close>

fun muldiv_loop :: "nat \<Rightarrow> nat \<Rightarrow> nat \<Rightarrow> nat \<Rightarrow> nat \<Rightarrow> (nat \<times> nat) outcome" where
  "muldiv_loop v r 0 q_ur r_ur = Ok (q_ur, r_ur)"
| "muldiv_loop v r (Suc n) q_ur r_ur =
     and_then (shl_u64 q_ur 1) (\<lambda>q_ur.
     and_then (sub_u64 v r_ur) (\<lambda>gap.
     and_then (if gap \<le> r_ur then and_then (add_u64 q_ur 1) (\<lambda>q_ur. Ok (q_ur, r_ur - gap))
               else and_then (shl_u64 r_ur 1) (\<lambda>r_ur. Ok (q_ur, r_ur))) (\<lambda>(q_ur, r_ur).
     and_then (sub_u64 v r_ur) (\<lambda>gap.
     and_then (if gap \<le> r then and_then (add_u64 q_ur 1) (\<lambda>q_ur. Ok (q_ur, r - gap))
               else and_then (add_u64 r_ur r) (\<lambda>r_ur. Ok (q_ur, r_ur))) (\<lambda>(q_ur, r_ur).
     muldiv_loop v r n q_ur r_ur)))))"

definition add_rounded_up :: "nat \<Rightarrow> nat \<Rightarrow> nat \<Rightarrow> nat \<Rightarrow> nat outcome" where
  "add_rounded_up v q r_ur node_allocation_blocks =
     and_then (sub_u64 v r_ur) (\<lambda>gap.
     and_then (if gap \<le> node_allocation_blocks
               then and_then (add_u64 q 1) (\<lambda>q. Ok (q, node_allocation_blocks - gap))
               else and_then (add_u64 r_ur node_allocation_blocks) (\<lambda>r. Ok (q, r))) (\<lambda>(q, r).
     if r \<noteq> 0 then add_u64 q 1 else Ok q))"

definition required_leaves :: "nat \<Rightarrow> nat \<Rightarrow> nat \<Rightarrow> nat \<Rightarrow> nat \<Rightarrow> nat outcome" where
  "required_leaves image_blocks c d b a =
     and_then (shl_u64 1 c) (\<lambda>digests.
     and_then (sub_u64 digests 1) (\<lambda>u.
     and_then (shl_u64 1 (c + b)) (\<lambda>v1.
     and_then (shl_u64 u (d + a)) (\<lambda>v2.
     and_then (add_u64 v1 v2) (\<lambda>v.
     debug_assert (u < v) (
     and_then (div_u64 image_blocks v) (\<lambda>q.
     debug_assert (q \<noteq> 0) (
     and_then (mul_u64 v q) (\<lambda>vq.
     and_then (sub_u64 image_blocks vq) (\<lambda>r.
     and_then (mul_u64 q u) (\<lambda>q.
     debug_assert (r \<le> (u64_bound - 1) div 2) (
     and_then (muldiv_loop v r (c - 1) 0 r) (\<lambda>(q_ur, r_ur).
     and_then (add_u64 q q_ur) (\<lambda>q.
     and_then (shl_u64 1 b) (\<lambda>node_allocation_blocks.
     add_rounded_up v q r_ur node_allocation_blocks)))))))))))))))"

definition settle_levels :: "nat \<Rightarrow> nat \<Rightarrow> u64 \<Rightarrow> nat \<Rightarrow> nat \<Rightarrow> nat \<Rightarrow> nat \<Rightarrow> nat outcome" where
  "settle_levels image_blocks c inv_u64 d b a q =
     (let q_log2 = (if q \<noteq> 1 then ilog2_u64 (q - 1) + 1 else 0);
          levels = div_ceil_u32 q_log2 c + 1
      in if 1 < levels then
           and_then (auth_subtree_node_count (levels - 2) (levels - 1) c inv_u64) (\<lambda>count.
           and_then (shl_u64 1 ((levels - 2) * c + d + a)) (\<lambda>subtree_data.
           and_then (shl_u64 count b) (\<lambda>subtree_nodes.
           and_then (add_u64 subtree_nodes subtree_data) (\<lambda>total.
           debug_assert (total < image_blocks) (
           and_then (shl_u64 levels b) (\<lambda>path.
           Ok (if image_blocks - total < path then levels - 1 else levels)))))))
         else Ok levels)"

definition image_allocation_blocks_to_auth_tree_levels :: "nat \<Rightarrow> nat \<Rightarrow> u64 \<Rightarrow> nat \<Rightarrow> nat \<Rightarrow> nat \<Rightarrow> nat outcome" where
  "image_allocation_blocks_to_auth_tree_levels image_blocks c inv_u64 d b a =
     and_then (shl_u64 1 c) (\<lambda>digests.
     and_then (shl_u64 1 b) (\<lambda>node_allocation_blocks.
     if image_blocks < node_allocation_blocks then Err (FsFormatError InvalidAuthTreeDimensions)
     else if image_blocks div 2 < node_allocation_blocks then Ok 1
     else if 64 \<le> d + a then Ok 1
     else
       and_then (shl_u64 1 (d + a)) (\<lambda>covered1.
       if image_blocks - node_allocation_blocks \<le> covered1 then Ok 1
       else
         and_then (shr_u64 image_blocks b) (\<lambda>image_nodes.
         if image_nodes \<le> digests then Ok 2
         else if 64 \<le> c + d + a then Ok 2
         else
           and_then (shl_u64 1 (c + b)) (\<lambda>nodes2.
           and_then (sub_u64 image_blocks nodes2) (\<lambda>rest.
           and_then (shl_u64 1 (c + d + a)) (\<lambda>covered2.
           if rest \<le> covered2 then Ok 2
           else
             and_then (required_leaves image_blocks c d b a) (\<lambda>q.
             settle_levels image_blocks c inv_u64 d b a q))))))))"

text \<open>The blocks a complete tree with a root at a level and the data it covers take up.\<close>

definition tree_capacity :: "nat \<Rightarrow> nat \<Rightarrow> nat \<Rightarrow> nat \<Rightarrow> nat \<Rightarrow> nat" where
  "tree_capacity c d b a l = nodes c l * 2 ^ b + 2 ^ (l * c + d + a)"

lemma muldiv_step:
  assumes "r < v" "v < u64_bound" "s < v" "2 * (q * v + s) + r < u64_bound * v"
  obtains q' s' where "\<And>n. muldiv_loop v r (Suc n) q s = muldiv_loop v r n q' s'" "q' * v + s' = 2 * (q * v + s) + r" "s' < v"
proof -
  have lim: "x < u64_bound" if "x * v \<le> 2 * (q * v + s) + r" for x
  proof -
    have "x * v < u64_bound * v" using that assms(4) by linarith
    then show ?thesis by (metis mult_less_cancel2)
  qed
  define q1 s1 where "q1 = (if v - s \<le> s then 2 * q + 1 else 2 * q)" and "s1 = (if v - s \<le> s then s - (v - s) else 2 * s)"
  have e1: "q1 * v + s1 = 2 * (q * v + s)" "s1 < v" using assms(3) by (auto simp: q1_def s1_def algebra_simps)
  define q2 s2 where "q2 = (if v - s1 \<le> r then q1 + 1 else q1)" and "s2 = (if v - s1 \<le> r then r - (v - s1) else s1 + r)"
  have e2: "q2 * v + s2 = 2 * (q * v + s) + r" "s2 < v" using e1 assms(1) by (auto simp: q2_def s2_def algebra_simps)
  have b1: "2 * q < u64_bound" by (rule lim) simp
  have b2: "q1 < u64_bound" by (rule lim) (use e1(1) in linarith)
  have b3: "q2 < u64_bound" by (rule lim) (use e2(1) in linarith)
  have "muldiv_loop v r (Suc n) q s = muldiv_loop v r n q2 s2" for n
    using assms(2,3) b1 b2 b3 e1(2) e2(2) by (auto simp: q1_def s1_def q2_def s2_def mult.commute)
  then show thesis using that e2 by blast
qed

lemma muldiv_loop_spec:
  assumes "r < v" "v < u64_bound" "2 ^ n * (q * v + s) + (2 ^ n - 1) * r < u64_bound * v" "s < v"
  shows "\<exists>q' s'. muldiv_loop v r n q s = Ok (q', s') \<and> q' * v + s' = 2 ^ n * (q * v + s) + (2 ^ n - 1) * r \<and> s' < v"
  using assms(3,4)
proof (induction n arbitrary: q s)
  case (Suc n)
  let ?x = "2 * (q * v + s) + r"
  have w: "2 ^ Suc n * (q * v + s) + (2 ^ Suc n - 1) * r = 2 ^ n * ?x + (2 ^ n - 1) * r"
  proof -
    obtain k where k: "(2 :: nat) ^ n = Suc k" by (metis not0_implies_Suc power_not_zero zero_neq_numeral)
    show ?thesis unfolding power_Suc k by (simp add: algebra_simps)
  qed
  have "?x \<le> 2 ^ n * ?x" by simp
  then have "?x < u64_bound * v" using Suc.prems(1) unfolding w by linarith
  then obtain q1 s1 where st: "\<And>n. muldiv_loop v r (Suc n) q s = muldiv_loop v r n q1 s1" "q1 * v + s1 = ?x" "s1 < v"
    using muldiv_step [OF assms(1,2) Suc.prems(2)] by blast
  then show ?case using Suc.IH [OF _ st(3)] Suc.prems(1) unfolding w st(2) [symmetric] by simp
qed simp

text \<open>The number of leaf nodes that a tree for an image needs, as the code derives it.\<close>

lemma required_leaves_spec:
  fixes c d b a I :: nat
  defines "u \<equiv> 2 ^ c - 1" and "v \<equiv> 2 ^ (c + b) + (2 ^ c - 1) * 2 ^ (d + a)"
  assumes c: "1 \<le> c" "c < 64" and s: "c + b < 64" "c + d + a < 64" and I: "v \<le> I" "I < u64_bound"
  shows "\<exists>q. required_leaves I c d b a = Ok q \<and> 0 < q \<and> q < u64_bound \<and> (\<forall>k. q \<le> k \<longleftrightarrow> u * I + 2 ^ b \<le> k * v)"
proof -
  let ?B = "2 ^ b :: nat"
  have u: "1 \<le> u" using one_less_power [of "2 :: nat" c] c(1) by (simp add: u_def)
  have pows: "(2 :: nat) ^ c < u64_bound" "(2 :: nat) ^ (c + b) < u64_bound" "?B < u64_bound"
    using c s by (intro power_strict_increasing; simp)+
  have "u * 2 ^ (d + a) \<le> 2 ^ c * 2 ^ (d + a)" by (simp add: u_def)
  also have "\<dots> = 2 ^ (c + d + a)" by (simp add: power_add)
  also have "\<dots> < u64_bound" using s(2) by (intro power_strict_increasing) auto
  finally have uda: "u * 2 ^ (d + a) < u64_bound" .
  have vb: "v < u64_bound" using I by simp
  have Bv: "?B < v"
  proof -
    have "?B < 2 ^ (c + b)" using c(1) by (intro power_strict_increasing) auto
    then show ?thesis unfolding v_def by linarith
  qed
  have uv: "u < v"
  proof -
    have "u < 2 ^ c" by (simp add: u_def)
    also have "(2 :: nat) ^ c \<le> 2 ^ (c + b)" by (intro power_increasing) auto
    finally show ?thesis by (simp add: v_def)
  qed
  have v0: "0 < v" using uv by simp
  define q0 r0 where "q0 = I div v" and "r0 = I mod v"
  have I0: "I = v * q0 + r0" "r0 < v" using v0 by (simp_all add: q0_def r0_def)
  have q0: "1 \<le> q0" using div_le_mono [OF I(1), of v] v0 by (simp add: q0_def)
  have "v \<le> v * q0" using q0 by simp
  then have "2 * r0 < I" using I0 by linarith
  then have r0h: "r0 \<le> (u64_bound - 1) div 2" using I(2) by simp
  have uI: "u * I + ?B \<le> (u64_bound - 1) * v"
  proof -
    obtain w where w: "v = Suc w" using v0 by (cases v) auto
    have "u * I \<le> w * (u64_bound - 1)" using uv I(2) w by (intro mult_le_mono) auto
    moreover have "?B \<le> u64_bound - 1" using pows(3) by simp
    ultimately show ?thesis by (simp add: w algebra_simps)
  qed
  then have uI': "u * I + ?B < u64_bound * v" using v0 by simp
  have cc: "2 ^ (c - 1) * r0 + (2 ^ (c - 1) - 1) * r0 = u * r0"
  proof -
    obtain k where k: "(2 :: nat) ^ (c - 1) = Suc k" by (metis not0_implies_Suc power_not_zero zero_neq_numeral)
    have "(2 :: nat) ^ c = 2 * 2 ^ (c - 1)" using c(1) by (cases c) auto
    then show ?thesis by (simp add: u_def k algebra_simps)
  qed
  have "u * r0 \<le> u * I" using I0 by simp
  then have "u * r0 < u64_bound * v" using uI' by linarith
  then obtain q1 s1 where m: "muldiv_loop v r0 (c - 1) 0 r0 = Ok (q1, s1)" "q1 * v + s1 = u * r0" "s1 < v"
    using muldiv_loop_spec [OF I0(2) vb, of "c - 1" 0 r0] I0(2) cc by auto
  define q2 s2 where "q2 = (if v - s1 \<le> ?B then q0 * u + q1 + 1 else q0 * u + q1)" and "s2 = (if v - s1 \<le> ?B then ?B - (v - s1) else s1 + ?B)"
  have e2: "q2 * v + s2 = u * I + ?B" "s2 < v" using m(2,3) Bv by (auto simp: q2_def s2_def I0(1) algebra_simps)
  define q3 where "q3 = (if s2 \<noteq> 0 then q2 + 1 else q2)"
  have lim: "x < u64_bound" if "x * v \<le> u * I + ?B" for x
  proof -
    have "x * v < u64_bound * v" using that uI' by linarith
    then show ?thesis by (metis mult_less_cancel2)
  qed
  have least: "q3 \<le> k \<longleftrightarrow> u * I + ?B \<le> k * v" for k
  proof
    assume "q3 \<le> k"
    then have "q3 * v \<le> k * v" by (rule mult_le_mono1)
    moreover have "u * I + ?B \<le> q3 * v" using e2 by (auto simp: q3_def)
    ultimately show "u * I + ?B \<le> k * v" by (rule order_trans [rotated])
  next
    assume le: "u * I + ?B \<le> k * v"
    show "q3 \<le> k"
    proof (rule ccontr)
      assume "\<not> q3 \<le> k"
      then have "k < q2 \<or> k = q2 \<and> s2 \<noteq> 0" by (auto simp: q3_def split: if_splits)
      moreover have "k * v < q2 * v + s2" if "k < q2" using mult_strict_right_mono [OF that v0] by linarith
      ultimately show False using le e2(1) by auto
    qed
  qed
  have q3: "q3 < u64_bound" using least [of "u64_bound - 1"] uI by simp
  have sums: "q0 * u < u64_bound" "q0 * u + q1 < u64_bound" "q2 < u64_bound" "v * q0 < u64_bound"
  proof -
    have "q0 * u * v + q1 * v \<le> u * I" using m(2) by (simp add: I0(1) algebra_simps)
    then show "q0 * u < u64_bound" "q0 * u + q1 < u64_bound" by (intro lim; simp add: algebra_simps)+
    show "q2 < u64_bound" by (rule lim) (use e2(1) in linarith)
    show "v * q0 < u64_bound" using I0(1) I(2) by linarith
  qed
  have sB: "s1 + ?B < u64_bound" if "\<not> v - s1 \<le> ?B" using that vb by linarith
  have r0: "I - v * q0 = r0" "v * q0 \<le> I" using I0(1) by simp_all
  have fin: "add_rounded_up v (q0 * u + q1) s1 ?B = Ok q3"
  proof (cases "v - s1 \<le> ?B")
    case True
    then have "q2 = q0 * u + q1 + 1" "s2 = ?B - (v - s1)" by (simp_all add: q2_def s2_def)
    then show ?thesis using True m(3) sums(3) q3 by (simp add: add_rounded_up_def q3_def split: if_splits)
  next
    case False
    then have "q2 = q0 * u + q1" "s2 = s1 + ?B" by (simp_all add: q2_def s2_def)
    then show ?thesis using False m(3) sB sums(3) q3 by (simp add: add_rounded_up_def q3_def)
  qed
  have u': "2 ^ c - Suc 0 = u" by (simp add: u_def)
  have add: "add_u64 (2 ^ (c + b)) (u * 2 ^ (d + a)) = Ok v" using vb by (simp add: u_def v_def)
  have div: "div_u64 I v = Ok q0" using v0 by (simp add: q0_def)
  have "required_leaves I c d b a = Ok q3"
    unfolding required_leaves_def using c s pows uda u uv vb q0 r0 r0h m sums(1,2,4) fin by (simp add: u' add div)
  moreover have "0 < q3" using least [of 0] by (cases q3) auto
  ultimately show ?thesis using least q3 by (intro exI [of _ q3]) simp
qed

lemma ilog2_bound:
  assumes "1 \<le> n" "n < u64_bound"
  shows "n < 2 ^ k \<longleftrightarrow> ilog2_u64 n < k"
proof -
  let ?w = "of_nat n :: u64"
  have w: "unat ?w = n" using assms(2) by (simp add: unat_of_nat take_bit_nat_eq_self_iff)
  have "?w \<noteq> 0" using w assms(1) by (metis not_one_le_zero unat_0)
  from leading_zeros_bounds [OF this] w have b: "2 ^ ilog2_u64 n \<le> n" "n < 2 ^ Suc (ilog2_u64 n)" "leading_zeros ?w < 64"
    by (simp_all add: ilog2_u64_def Suc_diff_Suc flip: Suc_diff_le)
  show ?thesis
  proof
    assume "n < 2 ^ k"
    with b(1) have "(2 :: nat) ^ ilog2_u64 n < 2 ^ k" by (rule le_less_trans)
    then show "ilog2_u64 n < k" by simp
  next
    assume "ilog2_u64 n < k"
    then have "(2 :: nat) ^ Suc (ilog2_u64 n) \<le> 2 ^ k" by (intro power_increasing) auto
    with b(2) show "n < 2 ^ k" by (rule less_le_trans)
  qed
qed

lemma capacity_iff:
  assumes "1 \<le> c"
  shows "(2 ^ c - 1) * I + 2 ^ b \<le> 2 ^ (c * l) * (2 ^ (c + b) + (2 ^ c - 1) * 2 ^ (d + a)) \<longleftrightarrow> I \<le> tree_capacity c d b a l"
proof -
  let ?u = "2 ^ c - 1 :: nat"
  have u: "0 < ?u" using one_less_power [of "2 :: nat" c] assms by simp
  have "?u * tree_capacity c d b a l + 2 ^ b = (?u * nodes c l + 1) * 2 ^ b + ?u * 2 ^ (l * c + d + a)"
    unfolding tree_capacity_def distrib_left distrib_right mult.assoc by simp
  also have "\<dots> = 2 ^ (c * l) * (2 ^ (c + b) + ?u * 2 ^ (d + a))" unfolding nodes_eq by (simp add: power_add algebra_simps)
  finally have eq: "2 ^ (c * l) * (2 ^ (c + b) + ?u * 2 ^ (d + a)) = ?u * tree_capacity c d b a l + 2 ^ b" ..
  show ?thesis unfolding eq using u by simp
qed

lemma nodes_path:
  assumes c: "1 \<le> c" and "1 \<le> l"
  shows "l + 2 \<le> nodes c l"
  using assms(2)
proof (induction l rule: dec_induct)
  case base
  have "(2 :: nat) ^ 1 \<le> 2 ^ c" using c by (intro power_increasing) auto
  then show ?case by simp
next
  case (step l)
  have "(2 :: nat) ^ 1 \<le> 2 ^ c" using c by (intro power_increasing) auto
  then have "2 * nodes c l \<le> 2 ^ c * nodes c l" by (intro mult_right_mono) auto
  then show ?case using step(3) unfolding nodes.simps by linarith
qed

lemma height_of_leaves:
  assumes c: "1 \<le> c" and q: "0 < q" "q < u64_bound" "\<And>l. q \<le> 2 ^ (c * l) \<longleftrightarrow> I \<le> T l"
  defines "l0 \<equiv> div_ceil_u32 (if q \<noteq> 1 then ilog2_u64 (q - 1) + 1 else 0) c"
  shows "l0 \<le> l \<longleftrightarrow> I \<le> T l"
proof -
  have "(if q \<noteq> 1 then ilog2_u64 (q - 1) + 1 else 0) \<le> k \<longleftrightarrow> q \<le> 2 ^ k" for k
  proof (cases "q = 1")
    case False
    then have "1 \<le> q - 1" "q - 1 < u64_bound" "q \<le> 2 ^ k \<longleftrightarrow> q - 1 < 2 ^ k" using q(1,2) by linarith+
    then show ?thesis using ilog2_bound [of "q - 1" k] False by (simp add: Suc_le_eq)
  qed simp
  then show ?thesis using div_ceil_le_iff [of c _ l] c q(3) unfolding l0_def by simp
qed

text \<open>The height the code settles on, given the least level at which a complete tree has the capacity for the image.\<close>

lemma final_levels:
  assumes c: "1 \<le> c" "c < 64" and inv: "trailing_bits_mask c * inv_u64 = (1 :: u64)" and I: "I < u64_bound" "2 ^ (c + b) < I"
    and l0: "\<And>l. l0 \<le> l \<longleftrightarrow> I \<le> tree_capacity c d b a l" and pos: "1 \<le> l0"
    and q: "div_ceil_u32 (if q \<noteq> 1 then ilog2_u64 (q - 1) + 1 else 0) c = l0"
  shows "settle_levels I c inv_u64 d b a q = Ok (if I - tree_capacity c d b a (l0 - 1) < (l0 + 1) * 2 ^ b then l0 else l0 + 1)"
proof -
  obtain k where k: "l0 = Suc k" using pos by (cases l0) auto
  let ?T = "tree_capacity c d b a k"
  have T: "?T < I" using l0 [of k] by (simp add: k)
  have Tb: "nodes c k * 2 ^ b + 2 ^ (k * c + d + a) < u64_bound" using T I by (simp add: tree_capacity_def)
  have "(2 :: nat) ^ (k * c + d + a) < 2 ^ 64" using Tb by linarith
  then have X: "k * c + d + a < 64" by (simp only: power_strict_increasing_iff rel_simps)
  have "(2 :: nat) ^ (c + b) < 2 ^ 64" using I by (rule less_trans [rotated])
  then have cb: "c + b < 64" by (simp only: power_strict_increasing_iff rel_simps)
  have h: "height_ok c (Suc k)" using c X by (simp add: height_ok_def mult.commute)
  have nb: "nodes c k * 2 ^ b < u64_bound" "2 ^ (k * c + d + a) < u64_bound" using Tb by linarith+
  have path: "(Suc k + 1) * 2 ^ b < u64_bound"
  proof (cases k)
    case 0
    have "(2 :: nat) * 2 ^ b \<le> 2 ^ (c + b)" using power_increasing [of 1 c "2 :: nat"] c(1) by (simp add: power_add)
    then show ?thesis using I by (simp add: 0)
  next
    case (Suc j)
    then have "(Suc k + 1) * 2 ^ b \<le> nodes c k * 2 ^ b" using nodes_path [OF c(1), of k] by (intro mult_le_mono1) simp
    then show ?thesis using nb(1) by (rule le_less_trans)
  qed
  show ?thesis
    using auth_subtree_node_count_spec [OF h _ inv, of k] X cb nb Tb T path
    unfolding settle_levels_def q Let_def by (simp add: k tree_capacity_def)
qed

lemma big_image:
  assumes "\<not> I div 2 ^ b \<le> 2 ^ c" "I < u64_bound"
  shows "2 ^ (c + b) < I" "c + b < 64"
proof -
  have "Suc (2 ^ c) * 2 ^ b \<le> I div 2 ^ b * 2 ^ b" using assms(1) by (intro mult_le_mono1) simp
  also have "\<dots> \<le> I" by (rule div_times_less_eq_dividend)
  finally have "2 ^ c * 2 ^ b + 2 ^ b \<le> I" by simp
  moreover have "(0 :: nat) < 2 ^ b" by simp
  ultimately show I: "2 ^ (c + b) < I" unfolding power_add by linarith
  then have "(2 :: nat) ^ (c + b) < 2 ^ 64" using assms(2) by (rule less_trans)
  then show "c + b < 64" by (simp only: power_strict_increasing_iff rel_simps)
qed

text \<open>What the height of the tree for an image has to satisfy.\<close>

definition height_fits :: "nat \<Rightarrow> nat \<Rightarrow> nat \<Rightarrow> nat \<Rightarrow> nat \<Rightarrow> nat \<Rightarrow> bool" where
  "height_fits c d b a I h \<longleftrightarrow> 1 \<le> h \<and> (h = 1 \<or> tree_capacity c d b a (h - 2) < I)
     \<and> (I \<le> tree_capacity c d b a (h - 1) \<or> I - tree_capacity c d b a (h - 1) < (h + 1) * 2 ^ b)"

lemma image_levels_one:
  assumes c: "c < 64" and b: "b < 64" and I: "2 ^ b \<le> I" "I < u64_bound"
    and one: "I div 2 < 2 ^ b \<or> 64 \<le> d + a \<or> I - 2 ^ b \<le> 2 ^ (d + a)"
  shows "image_allocation_blocks_to_auth_tree_levels I c inv_u64 d b a = Ok 1 \<and> height_fits c d b a I 1"
proof -
  have pows: "(2 :: nat) ^ c < u64_bound" "(2 :: nat) ^ b < u64_bound" using c b by (intro power_strict_increasing; simp)+
  have da: "(2 :: nat) ^ (d + a) < u64_bound" if "d + a < 64" using that by (intro power_strict_increasing) auto
  have "(2 :: nat) ^ 64 \<le> 2 ^ (d + a)" if "64 \<le> d + a" using that by (intro power_increasing) auto
  then have "height_fits c d b a I 1" using one I by (auto simp: height_fits_def tree_capacity_def)
  then show ?thesis using one I pows c b da by (auto simp: image_allocation_blocks_to_auth_tree_levels_def)
qed

lemma image_levels_two:
  assumes c: "c < 64" and b: "b < 64" and I: "2 ^ b \<le> I div 2" "I < u64_bound" "d + a < 64" "\<not> I - 2 ^ b \<le> 2 ^ (d + a)"
    and two: "I div 2 ^ b \<le> 2 ^ c \<or> 64 \<le> c + d + a \<or> I - 2 ^ (c + b) \<le> 2 ^ (c + d + a)"
  shows "image_allocation_blocks_to_auth_tree_levels I c inv_u64 d b a = Ok 2 \<and> height_fits c d b a I 2"
proof -
  have pows: "(2 :: nat) ^ c < u64_bound" "(2 :: nat) ^ b < u64_bound" "(2 :: nat) ^ (d + a) < u64_bound"
    using c b I(3) by (intro power_strict_increasing; simp)+
  have cda: "(2 :: nat) ^ (c + d + a) < u64_bound" if "c + d + a < 64" using that by (intro power_strict_increasing) auto
  have run: "image_allocation_blocks_to_auth_tree_levels I c inv_u64 d b a = Ok 2"
    using two I pows cda big_image [OF _ I(2), of b c] c b by (auto simp: image_allocation_blocks_to_auth_tree_levels_def)
  have T: "tree_capacity c d b a 0 = 2 ^ b + 2 ^ (d + a)" "tree_capacity c d b a 1 = 2 ^ (c + b) + 2 ^ b + 2 ^ (c + d + a)"
    by (simp_all add: tree_capacity_def power_add algebra_simps)
  have "I \<le> tree_capacity c d b a 1"
  proof (cases "I div 2 ^ b \<le> 2 ^ c")
    case True
    then have "I div 2 ^ b * 2 ^ b \<le> 2 ^ c * 2 ^ b" by (rule mult_le_mono1)
    moreover have "I mod 2 ^ b < 2 ^ b" by simp
    ultimately show ?thesis using div_mult_mod_eq [of I "2 ^ b"] T(2) unfolding power_add by linarith
  next
    case False
    have "(2 :: nat) ^ 64 \<le> 2 ^ (c + d + a)" if "64 \<le> c + d + a" using that by (intro power_increasing) auto
    then show ?thesis using False two I(2) T(2) by linarith
  qed
  moreover have "tree_capacity c d b a 0 < I" using I(4) T(1) by simp
  ultimately show ?thesis using run by (simp add: height_fits_def)
qed

lemma image_levels_main:
  assumes c: "1 \<le> c" "c < 64" and b: "b < 64" and inv: "trailing_bits_mask c * inv_u64 = (1 :: u64)"
    and I: "2 ^ b \<le> I div 2" "I < u64_bound" "d + a < 64" "\<not> I - 2 ^ b \<le> 2 ^ (d + a)"
    and main: "\<not> I div 2 ^ b \<le> 2 ^ c" "c + d + a < 64" "\<not> I - 2 ^ (c + b) \<le> 2 ^ (c + d + a)"
  shows "\<exists>h. image_allocation_blocks_to_auth_tree_levels I c inv_u64 d b a = Ok h \<and> height_fits c d b a I h"
proof -
  note cb = big_image [OF main(1) I(2)]
  let ?T = "tree_capacity c d b a"
  have pows: "(2 :: nat) ^ c < u64_bound" "(2 :: nat) ^ b < u64_bound" "(2 :: nat) ^ (d + a) < u64_bound" "(2 :: nat) ^ (c + b) < u64_bound" "(2 :: nat) ^ (c + d + a) < u64_bound"
    using c b I(3) cb(2) main(2) by (intro power_strict_increasing; simp)+
  have "(2 ^ c - 1) * 2 ^ (d + a) \<le> (2 :: nat) ^ (c + d + a)" by (simp add: power_add)
  then have v: "2 ^ (c + b) + (2 ^ c - 1) * 2 ^ (d + a) \<le> I" using main(3) cb(1) by linarith
  obtain q where q: "required_leaves I c d b a = Ok q" "0 < q" "q < u64_bound" "\<And>k. q \<le> k \<longleftrightarrow> (2 ^ c - 1) * I + 2 ^ b \<le> k * (2 ^ (c + b) + (2 ^ c - 1) * 2 ^ (d + a))"
    using required_leaves_spec [OF c cb(2) main(2) v I(2)] by blast
  have ql: "q \<le> 2 ^ (c * l) \<longleftrightarrow> I \<le> ?T l" for l using q(4) capacity_iff [OF c(1)] by simp
  define l0 where "l0 = div_ceil_u32 (if q \<noteq> 1 then ilog2_u64 (q - 1) + 1 else 0) c"
  have l0: "l0 \<le> l \<longleftrightarrow> I \<le> ?T l" for l using height_of_leaves [OF c(1) q(2,3) ql] by (simp only: l0_def)
  have T0: "?T 0 < I" using I(4) by (simp add: tree_capacity_def)
  then have pos: "1 \<le> l0" using l0 [of 0] by (cases l0) auto
  let ?h = "if I - ?T (l0 - 1) < (l0 + 1) * 2 ^ b then l0 else l0 + 1"
  have "image_allocation_blocks_to_auth_tree_levels I c inv_u64 d b a = Ok ?h"
    using final_levels [OF c inv I(2) cb(1) l0 pos l0_def [symmetric]] q(1) I main pows cb c b
    by (simp add: image_allocation_blocks_to_auth_tree_levels_def)
  moreover have "height_fits c d b a I ?h"
    using l0 [of l0] l0 [of "l0 - 1"] l0 [of "l0 - 2"] pos by (auto simp: height_fits_def)
  ultimately show ?thesis by blast
qed

lemma image_levels_spec:
  assumes c: "1 \<le> c" "c < 64" and b: "b < 64" and inv: "trailing_bits_mask c * inv_u64 = (1 :: u64)" and I: "2 ^ b \<le> I" "I < u64_bound"
  shows "\<exists>h. image_allocation_blocks_to_auth_tree_levels I c inv_u64 d b a = Ok h \<and> height_fits c d b a I h"
  using image_levels_one [OF c(2) b I, of d a inv_u64] image_levels_two [OF c(2) b _ I(2), of d a inv_u64] image_levels_main [OF c b inv _ I(2), of d a]
  by (meson not_less)
end
