(* ===== verification/Auth_Tree_Dimensions.thy ===== *)
theory Auth_Tree_Dimensions
  imports Auth_Tree_Levels
begin

text \<open>
  The number of nodes of the authentication tree for a new image, \<open>image_allocation_blocks_to_auth_tree_node_count\<close> in
  \<open>src/storage/src/fs/cocoonfs/auth_tree.rs\<close>, and the properties of the height and the number of nodes. At each
  level from the root on, the code accounts for the complete subtrees and descends into the partial one.
\<close>

section \<open>The number of nodes for an image\<close>

fun tree_count_loop :: "nat \<Rightarrow> nat \<Rightarrow> nat \<Rightarrow> nat \<Rightarrow> nat \<Rightarrow> nat \<Rightarrow> nat \<Rightarrow> (nat \<times> nat \<times> nat) outcome" where
  "tree_count_loop c b 0 n count data image_blocks = Ok (0, n, image_blocks)"
| "tree_count_loop c b (Suc level) n count data image_blocks =
     and_then (shl_u64 count b) (\<lambda>count_blocks.
     and_then (add_u64 count_blocks data) (\<lambda>total.
     and_then (shl_u64 1 b) (\<lambda>node_allocation_blocks.
     and_then (sub_u64 image_blocks node_allocation_blocks) (\<lambda>image_blocks.
     and_then (add_u64 n 1) (\<lambda>n.
     and_then (div_u64 image_blocks total) (\<lambda>full_subtree_count.
     and_then (mul_u64 full_subtree_count total) (\<lambda>full_blocks.
     and_then (sub_u64 image_blocks full_blocks) (\<lambda>image_blocks.
     and_then (mul_u64 full_subtree_count count) (\<lambda>full_nodes.
     and_then (add_u64 n full_nodes) (\<lambda>n.
     and_then (shl_u64 level b) (\<lambda>path.
     if image_blocks < path then Ok (level, n, image_blocks)
     else if level \<noteq> 0 then
       and_then (sub_u64 count 1) (\<lambda>k.
       and_then (shr_u64 k c) (\<lambda>count.
       and_then (shr_u64 data c) (\<lambda>data.
       tree_count_loop c b level n count data image_blocks)))
     else tree_count_loop c b level n count data image_blocks)))))))))))"

definition image_allocation_blocks_to_auth_tree_node_count ::
  "nat \<Rightarrow> nat \<Rightarrow> nat \<Rightarrow> u64 \<Rightarrow> nat \<Rightarrow> nat \<Rightarrow> nat \<Rightarrow> (nat \<times> nat) outcome" where
  "image_allocation_blocks_to_auth_tree_node_count image_blocks levels c inv_u64 d b a =
     and_then (shl_u64 1 b) (\<lambda>node_allocation_blocks.
     if image_blocks < node_allocation_blocks then Ok (0, image_blocks)
     else
       and_then (if 2 \<le> levels then
                   and_then (auth_subtree_node_count (levels - 2) (levels - 1) c inv_u64) (\<lambda>count.
                   and_then (shl_u64 1 ((levels - 2) * c + d + a)) (\<lambda>data. Ok (count, data)))
                 else and_then (shl_u64 1 (d + a)) (\<lambda>data. Ok (0, data))) (\<lambda>(count, data).
       and_then (tree_count_loop c b levels 0 count data image_blocks) (\<lambda>(level, n, rest).
       and_then (shl_u64 1 a) (\<lambda>data_block.
       debug_assert (level \<noteq> 0 \<or> rest < data_block) (Ok (n, rest))))))"

definition entry_nodes :: "nat \<Rightarrow> nat \<Rightarrow> nat" where
  "entry_nodes c l = (case l of 0 \<Rightarrow> 0 | Suc k \<Rightarrow> nodes c k)"

definition entry_data :: "nat \<Rightarrow> nat \<Rightarrow> nat \<Rightarrow> nat" where
  "entry_data c a l = 2 ^ (l * c + a)"

lemma leaf_count_all: "leaf_count c l (nodes c l) = 2 ^ (c * l)"
  using leaf_count_preorder [of "nodes c l" c l 0 0] all_leaves [of c 0 l 0] by simp

lemma leaf_count_append:
  assumes "r \<le> nodes c l"
  shows "leaf_count c (Suc l) (1 + q * nodes c l + r) = q * 2 ^ (c * l) + leaf_count c l r"
proof (cases "r = nodes c l")
  case True
  then have "(q * nodes c l + r) div nodes c l = Suc q" "(q * nodes c l + r) mod nodes c l = 0" by simp_all
  then show ?thesis using True by (simp add: leaf_count_all)
next
  case False
  then have "r < nodes c l" using assms by simp
  then show ?thesis by simp
qed

lemma capacity_Suc: "tree_capacity c d b a (Suc l) = 2 ^ b + 2 ^ c * tree_capacity c d b a l"
  by (simp add: tree_capacity_def power_add algebra_simps)

text \<open>What the loop makes of the blocks that are left: nodes, data blocks they cover, and a rest.\<close>

definition split_blocks :: "nat \<Rightarrow> nat \<Rightarrow> nat \<Rightarrow> nat \<Rightarrow> nat \<Rightarrow> nat \<Rightarrow> nat \<Rightarrow> bool" where
  "split_blocks c b a l I n rest \<longleftrightarrow> 1 \<le> n \<and> n \<le> nodes c l
     \<and> (\<exists>data_blocks. I = n * 2 ^ b + data_blocks * 2 ^ a + rest \<and> data_blocks \<le> 2 ^ c * leaf_count c l n)"

lemma tree_count_step:
  assumes c: "c < 64" and b: "b < 64" and T: "T = count * 2 ^ b + data" "0 < T" "T < u64_bound" and lev: "level * 2 ^ b < u64_bound" "level \<noteq> 0 \<longrightarrow> 1 \<le> count"
    and I: "2 ^ b \<le> I" "I < u64_bound" "n + I < u64_bound"
  defines "q \<equiv> (I - 2 ^ b) div T" and "r \<equiv> (I - 2 ^ b) mod T"
  shows "tree_count_loop c b (Suc level) n count data I =
    (if r < level * 2 ^ b then Ok (level, n + 1 + q * count, r)
     else if level \<noteq> 0 then tree_count_loop c b level (n + 1 + q * count) ((count - 1) div 2 ^ c) (data div 2 ^ c) r
     else Ok (0, n + 1 + q * count, r))"
proof -
  have pb: "(2 :: nat) ^ b < u64_bound" using b by (intro power_strict_increasing) auto
  have qr: "q * T + r = I - 2 ^ b" unfolding q_def r_def by (rule div_mult_mod_eq)
  have "count * 1 \<le> count * 2 ^ b" by (intro mult_le_mono2) simp
  then have "q * count \<le> q * T" unfolding T(1) by (intro mult_le_mono2) linarith
  moreover have "(1 :: nat) \<le> 2 ^ b" by simp
  ultimately have lim: "q * T < u64_bound" "q * count < u64_bound" "n + 1 < u64_bound" "n + 1 + q * count < u64_bound"
    using qr I by linarith+
  have cb: "count * 2 ^ b < u64_bound" using T by linarith
  have r: "I - 2 ^ b - q * T = r" "q * T \<le> I - 2 ^ b" using qr by linarith+
  show ?thesis
    using pb b c T(2,3) lev I lim cb r by (simp add: q_def [symmetric] T(1) [symmetric] del: One_nat_def)
qed

lemma entry_le: "entry_nodes c l * 2 ^ b + entry_data c a l \<le> tree_capacity c c b a l"
proof -
  have "entry_nodes c l \<le> nodes c l" using nodes_mono [of "l - 1" l c] by (cases l) (auto simp: entry_nodes_def)
  then have "entry_nodes c l * 2 ^ b \<le> nodes c l * 2 ^ b" by (rule mult_le_mono1)
  moreover have "(2 :: nat) ^ (l * c + a) \<le> 2 ^ (l * c + c + a)" by (intro power_increasing) auto
  ultimately show ?thesis unfolding entry_data_def tree_capacity_def by (rule add_mono)
qed

lemma tree_count_spec:
  assumes c: "1 \<le> c" "c < 64" and b: "b < 64"
    and "2 ^ b \<le> I" "I \<le> tree_capacity c c b a l" "I < u64_bound" "n + I < u64_bound" "entry_nodes c l * 2 ^ b + entry_data c a l < u64_bound" "l * 2 ^ b < u64_bound"
  shows "\<exists>level k rest. tree_count_loop c b (Suc l) n (entry_nodes c l) (entry_data c a l) I = Ok (level, n + k, rest)
    \<and> split_blocks c b a l I k rest \<and> (if level = 0 then rest < 2 ^ a else rest < level * 2 ^ b) \<and> level \<le> l
    \<and> (\<forall>j. l = Suc j \<longrightarrow> 1 + (I - 2 ^ b) div tree_capacity c c b a j * nodes c j \<le> k)"
  using assms(4-)
proof (induction l arbitrary: I n)
  case 0
  let ?q = "(I - 2 ^ b) div 2 ^ a" and ?r = "(I - 2 ^ b) mod 2 ^ a"
  have "(I - 2 ^ b) div 2 ^ a \<le> 2 ^ (c + a) div 2 ^ a" using 0(2) by (intro div_le_mono) (simp add: tree_capacity_def)
  then have q: "?q \<le> 2 ^ c" by (simp add: power_add)
  have qr: "?q * 2 ^ a + ?r = I - 2 ^ b" by (rule div_mult_mod_eq)
  have "tree_count_loop c b (Suc 0) n (entry_nodes c 0) (entry_data c a 0) I = Ok (0, n + 1, ?r)"
    using tree_count_step [OF c(2) b, of "2 ^ a" "entry_nodes c 0" "entry_data c a 0" 0 I n] 0 by (simp add: entry_nodes_def entry_data_def)
  moreover have "split_blocks c b a 0 I 1 ?r" using q qr 0(1) unfolding split_blocks_def by (intro conjI exI [of _ ?q]) auto
  ultimately show ?case by (intro exI [of _ 0] exI [of _ 1] exI [of _ ?r]) simp
next
  case (Suc l)
  let ?T = "tree_capacity c c b a l"
  define q r m where "q = (I - 2 ^ b) div ?T" and "r = (I - 2 ^ b) mod ?T" and "m = 1 + q * nodes c l"
  have en: "entry_nodes c (Suc l) = nodes c l" "?T = nodes c l * 2 ^ b + entry_data c a (Suc l)"
    by (simp_all add: entry_nodes_def entry_data_def tree_capacity_def add_ac)
  have next_entry: "(nodes c l - 1) div 2 ^ c = entry_nodes c l" "entry_data c a (Suc l) div 2 ^ c = entry_data c a l"
    by (cases l; simp add: entry_nodes_def entry_data_def power_add)+
  have T: "0 < ?T" "?T < u64_bound" using Suc.prems(5) unfolding en by (simp_all add: entry_data_def)
  have qr: "q * ?T + r = I - 2 ^ b" "r < ?T" using T(1) by (simp_all add: q_def r_def)
  have lim: "I - 2 ^ b \<le> 2 ^ c * ?T" using Suc.prems(2) capacity_Suc [of c c b a l] by linarith
  then have "q \<le> 2 ^ c * ?T div ?T" unfolding q_def by (rule div_le_mono)
  then have q: "q \<le> 2 ^ c" using T by simp
  have m: "n + m + r < u64_bound"
  proof -
    have "nodes c l * 1 \<le> nodes c l * 2 ^ b" by (intro mult_le_mono2) simp
    then have "q * nodes c l \<le> q * ?T" unfolding en(2) by (intro mult_le_mono2) linarith
    moreover have "(1 :: nat) \<le> 2 ^ b" by simp
    ultimately show ?thesis unfolding m_def using qr(1) Suc.prems(1,4) by linarith
  qed
  have run: "tree_count_loop c b (Suc (Suc l)) n (entry_nodes c (Suc l)) (entry_data c a (Suc l)) I =
    (if r < Suc l * 2 ^ b then Ok (Suc l, n + m, r)
     else tree_count_loop c b (Suc l) (n + m) (entry_nodes c l) (entry_data c a l) r)"
    using tree_count_step [OF c(2) b en(2) T Suc.prems(6) _ Suc.prems(1,3,4)] unfolding en(1) q_def [symmetric] r_def [symmetric] next_entry
    by (simp add: m_def add.assoc Suc_le_eq)
  have split: "split_blocks c b a (Suc l) I (m + k) rest" if "k \<le> nodes c l" "r = k * 2 ^ b + D * 2 ^ a + rest" "D \<le> 2 ^ c * leaf_count c l k" for k D rest
  proof -
    have "q * nodes c l + k \<le> 2 ^ c * nodes c l"
    proof (cases "q = 2 ^ c")
      case True
      have "r = 0" using qr(1) lim unfolding True by linarith
      then show ?thesis using that(2) True by auto
    next
      case False
      then have "Suc q * nodes c l \<le> 2 ^ c * nodes c l" using q by (intro mult_le_mono1) simp
      then show ?thesis using that(1) by simp
    qed
    then have "m + k \<le> nodes c (Suc l)" by (simp add: m_def)
    moreover have "I = (m + k) * 2 ^ b + (q * 2 ^ (l * c + c) + D) * 2 ^ a + rest"
    proof -
      have "q * ?T = q * nodes c l * 2 ^ b + q * 2 ^ (l * c + c) * 2 ^ a" by (simp add: tree_capacity_def power_add algebra_simps)
      then show ?thesis using qr(1) Suc.prems(1) that(2) unfolding m_def distrib_right by linarith
    qed
    moreover have "q * 2 ^ (l * c + c) + D \<le> 2 ^ c * leaf_count c (Suc l) (m + k)"
      using that(3) leaf_count_append [OF that(1), of q] by (simp add: m_def power_add algebra_simps del: leaf_count.simps)
    ultimately show ?thesis unfolding split_blocks_def by (intro conjI exI) (auto simp: m_def)
  qed
  show ?case
  proof (cases "r < Suc l * 2 ^ b")
    case True
    then show ?thesis using run split [of 0 0 r] by (intro exI [of _ "Suc l"] exI [of _ m] exI [of _ r]) (simp add: m_def q_def)
  next
    case False
    have "2 ^ b \<le> r" using False by simp
    moreover have "r \<le> ?T" "r < u64_bound" "n + m + r < u64_bound" using qr(2) T(2) m by linarith+
    moreover have "entry_nodes c l * 2 ^ b + entry_data c a l < u64_bound" "l * 2 ^ b < u64_bound"
      using entry_le [of c l b a] T(2) Suc.prems(6) by (simp_all add: le_less_trans)
    ultimately obtain level k rest where *: "tree_count_loop c b (Suc l) (n + m) (entry_nodes c l) (entry_data c a l) r = Ok (level, n + m + k, rest)"
      "split_blocks c b a l r k rest" "if level = 0 then rest < 2 ^ a else rest < level * 2 ^ b" "level \<le> l" using Suc.IH by blast
    then obtain D where "k \<le> nodes c l" "r = k * 2 ^ b + D * 2 ^ a + rest" "D \<le> 2 ^ c * leaf_count c l k" unfolding split_blocks_def by blast
    then have "split_blocks c b a (Suc l) I (m + k) rest" by (rule split)
    then show ?thesis using run False *(1,3,4) by (intro exI [of _ level] exI [of _ "m + k"] exI [of _ rest]) (simp add: add.assoc m_def q_def)
  qed
qed

lemma path_bound:
  assumes c: "1 \<le> c" and T: "tree_capacity c d b a l + 2 ^ b < u64_bound"
  shows "Suc l * 2 ^ b < u64_bound"
proof -
  have "Suc l \<le> nodes c l" using nodes_ge [OF c, of l] by simp
  then have "Suc l * 2 ^ b \<le> nodes c l * 2 ^ b" by (rule mult_le_mono1)
  then show ?thesis using T unfolding tree_capacity_def by linarith
qed

text \<open>The whole function on a tree of at least two levels, where a digest of a data block takes up no less space than a digest of a node.\<close>

lemma node_count_spec:
  assumes c: "1 \<le> c" "c < 64" and b: "b < 64" and inv: "trailing_bits_mask c * inv_u64 = (1 :: u64)" and g: "c + g = d + a" "g \<le> a"
    and I: "tree_capacity c d b a l + 2 ^ b \<le> I" "I \<le> tree_capacity c d b a (Suc l)" "I < u64_bound"
  shows "\<exists>n rest. image_allocation_blocks_to_auth_tree_node_count I (Suc (Suc l)) c inv_u64 d b a = Ok (n, rest)
    \<and> nodes c l < n \<and> split_blocks c b g (Suc l) I n rest \<and> (rest < 2 ^ g \<or> rest < Suc l * 2 ^ b)"
proof -
  have cap: "tree_capacity c d b a k = tree_capacity c c b g k" for k using g(1) by (simp add: tree_capacity_def add.assoc)
  have pb: "(2 :: nat) ^ b < u64_bound" using b by (intro power_strict_increasing) auto
  have Tb: "nodes c l * 2 ^ b + 2 ^ (l * c + d + a) < u64_bound" using I unfolding tree_capacity_def by linarith
  have "(2 :: nat) ^ (l * c + d + a) < 2 ^ 64" using Tb by linarith
  then have X: "l * c + d + a < 64" by (simp only: power_strict_increasing_iff rel_simps)
  have h: "height_ok c (Suc l)" using c X by (simp add: height_ok_def mult.commute)
  have ea: "entry_nodes c (Suc l) = nodes c l" "entry_data c g (Suc l) = 2 ^ (l * c + d + a)"
    using g(1) by (simp_all add: entry_nodes_def entry_data_def add_ac)
  have Ib: "2 ^ b \<le> I" using I(1) by linarith
  obtain level n rest where loop: "tree_count_loop c b (Suc (Suc l)) 0 (entry_nodes c (Suc l)) (entry_data c g (Suc l)) I = Ok (level, n, rest)"
    and sp: "split_blocks c b g (Suc l) I n rest" and r: "if level = 0 then rest < 2 ^ g else rest < level * 2 ^ b" "level \<le> Suc l"
    and low: "1 + (I - 2 ^ b) div tree_capacity c c b g l * nodes c l \<le> n"
    using tree_count_spec [OF c b Ib, of g "Suc l" 0] I(2,3) path_bound [OF c(1) le_less_trans [OF I(1,3)]] Tb
    unfolding cap ea by (metis add_0)
  have T: "0 < tree_capacity c c b g l" by (simp add: tree_capacity_def)
  have "tree_capacity c c b g l div tree_capacity c c b g l \<le> (I - 2 ^ b) div tree_capacity c c b g l"
    using I(1) unfolding cap by (intro div_le_mono) linarith
  then have "1 * nodes c l \<le> (I - 2 ^ b) div tree_capacity c c b g l * nodes c l" using T by (intro mult_le_mono1) simp
  then have n: "nodes c l < n" using low by linarith
  have "(2 :: nat) ^ g \<le> 2 ^ a" using g(2) by (intro power_increasing) auto
  then have "level \<noteq> 0 \<or> rest < 2 ^ a" using r(1) by (metis less_le_trans)
  moreover have "(2 :: nat) ^ a < u64_bound" using X by (intro power_strict_increasing) auto
  ultimately have "image_allocation_blocks_to_auth_tree_node_count I (Suc (Suc l)) c inv_u64 d b a = Ok (n, rest)"
    using auth_subtree_node_count_spec [OF h _ inv, of l] X pb b Ib loop Tb unfolding ea
    by (simp add: image_allocation_blocks_to_auth_tree_node_count_def del: tree_count_loop.simps)
  moreover have "level * 2 ^ b \<le> Suc l * 2 ^ b" using r(2) by (rule mult_le_mono1)
  ultimately show ?thesis using n sp r(1) by (metis less_le_trans)
qed

lemma digest_inverse_mask:
  assumes "1 \<le> c" "c < 64" "digests_per_node_minus_one_inv_mod_u64 c = Ok r"
  shows "trailing_bits_mask c * r = (1 :: u64)"
  using digests_inverse [of c] assms by (auto simp: mult.commute)

section \<open>Properties\<close>

text \<open>
  the height chosen for an image is found without any overflow, and it is the least one of a complete tree that spans the image together with the data
  the tree covers, up to the extra level for which the image has no room: an image that exceeds the capacity of the chosen height
  exceeds it by less than a path from the root to a leaf at the next height. An image smaller than one node is refused.
\<close>

theorem image_levels_correct:
  assumes "1 \<le> c" "c < 64" "b < 64" "digests_per_node_minus_one_inv_mod_u64 c = Ok r" "I < u64_bound"
  shows "if I < 2 ^ b then image_allocation_blocks_to_auth_tree_levels I c r d b a = Err (FsFormatError InvalidAuthTreeDimensions)
    else \<exists>h. image_allocation_blocks_to_auth_tree_levels I c r d b a = Ok h
      \<and> 1 \<le> h \<and> (h = 1 \<or> nodes c (h - 2) * 2 ^ b + 2 ^ ((h - 2) * c + d + a) < I)
      \<and> (I \<le> nodes c (h - 1) * 2 ^ b + 2 ^ ((h - 1) * c + d + a)
         \<or> I - (nodes c (h - 1) * 2 ^ b + 2 ^ ((h - 1) * c + d + a)) < (h + 1) * 2 ^ b)"
proof (cases "I < 2 ^ b")
  case True
  have "(2 :: nat) ^ c < u64_bound" "(2 :: nat) ^ b < u64_bound" using assms(2,3) by (intro power_strict_increasing; simp)+
  then show ?thesis using True assms(2,3) by (simp add: image_allocation_blocks_to_auth_tree_levels_def)
next
  case False
  then have "2 ^ b \<le> I" by simp
  from image_levels_spec [OF assms(1-3) digest_inverse_mask [OF assms(1,2,4)] this assms(5), of d a] False
  show ?thesis unfolding height_fits_def tree_capacity_def by simp
qed

theorem image_levels_correct_witness:
  "\<exists>r h. digests_per_node_minus_one_inv_mod_u64 2 = Ok r \<and> image_allocation_blocks_to_auth_tree_levels 100 2 r 2 1 0 = Ok h \<and> 1 \<le> h"
proof -
  obtain r where r: "digests_per_node_minus_one_inv_mod_u64 2 = Ok r" using digests_inverse [of 2] by auto
  from image_levels_correct [OF _ _ _ r, of 1 100 2 0] show ?thesis using r by auto
qed

text \<open>
  The node count for an image and a tree of two or more levels splits the image into the nodes, the data covered by the
  leaves among them and a remainder that is less than a data block or that has no room for another path to a leaf. The node count
  is one of a tree of that height: more than the nodes of a complete tree that is one level lower, and at most the nodes of
  a complete tree. This holds where a leaf has at most as many entries as an inner node, and a leaf covers at least as many blocks
  as an inner node has entries.
\<close>

theorem image_node_count_correct:
  assumes "1 \<le> c" "c < 64" "b < 64" "digests_per_node_minus_one_inv_mod_u64 c = Ok r" "2 \<le> h" "d \<le> c" "c \<le> d + a"
    and "nodes c (h - 2) * 2 ^ b + 2 ^ ((h - 2) * c + d + a) + 2 ^ b \<le> I" "I \<le> nodes c (h - 1) * 2 ^ b + 2 ^ ((h - 1) * c + d + a)" "I < u64_bound"
  shows "\<exists>n covered rest. image_allocation_blocks_to_auth_tree_node_count I h c r d b a = Ok (n, rest)
    \<and> nodes c (h - 2) < n \<and> n \<le> nodes c (h - 1) \<and> I = n * 2 ^ b + covered + rest
    \<and> covered \<le> length (filter is_leaf (take n (preorder c d (h - 1) 0))) * 2 ^ d * 2 ^ a
    \<and> (rest < 2 ^ a \<or> rest < (h - 1) * 2 ^ b)"
proof -
  obtain l where l: "h = Suc (Suc l)" using assms(5) by (cases h; cases "h - 1") auto
  define g where "g = d + a - c"
  have g: "c + g = d + a" "g \<le> a" using assms(6,7) by (simp_all add: g_def)
  have I: "tree_capacity c d b a l + 2 ^ b \<le> I" "I \<le> tree_capacity c d b a (Suc l)" using assms(8,9) by (simp_all add: l tree_capacity_def)
  obtain n rest where n: "image_allocation_blocks_to_auth_tree_node_count I (Suc (Suc l)) c r d b a = Ok (n, rest)"
    "nodes c l < n" "split_blocks c b g (Suc l) I n rest" "rest < 2 ^ g \<or> rest < Suc l * 2 ^ b"
    using node_count_spec [OF assms(1-3) digest_inverse_mask [OF assms(1,2,4)] g I assms(10)] by blast
  then obtain D where D: "n \<le> nodes c (Suc l)" "I = n * 2 ^ b + D * 2 ^ g + rest" "D \<le> 2 ^ c * leaf_count c (Suc l) n"
    unfolding split_blocks_def by blast
  have "D * 2 ^ g \<le> 2 ^ c * leaf_count c (Suc l) n * 2 ^ g" using D(3) by (rule mult_le_mono1)
  also have "\<dots> = leaf_count c (Suc l) n * 2 ^ (c + g)" by (simp add: power_add)
  finally have cov: "D * 2 ^ g \<le> leaf_count c (Suc l) n * 2 ^ d * 2 ^ a" unfolding g(1) by (simp add: power_add)
  have "(2 :: nat) ^ g \<le> 2 ^ a" using g(2) by (intro power_increasing) auto
  then have "rest < 2 ^ a \<or> rest < Suc l * 2 ^ b" using n(4) by (metis less_le_trans)
  then show ?thesis using n D(1,2) cov leaf_count_preorder [OF D(1), of d 0] unfolding l by (intro exI [of _ n] exI [of _ "D * 2 ^ g"] exI [of _ rest]) simp
qed

theorem image_node_count_correct_witness:
  "\<exists>r n covered rest. digests_per_node_minus_one_inv_mod_u64 2 = Ok r
    \<and> image_allocation_blocks_to_auth_tree_node_count 15 2 2 r 2 0 0 = Ok (n, rest) \<and> 15 = n + covered + rest \<and> rest < 1"
proof -
  obtain r where r: "digests_per_node_minus_one_inv_mod_u64 2 = Ok r" using digests_inverse [of 2] by auto
  from image_node_count_correct [OF _ _ _ r, of 0 2 2 0 15] show ?thesis using r by auto
qed

text \<open>
  C33: for an image that a single leaf node covers, the height is one, but the node count fails as soon as the image has room for a data block:
  the whole rest of the image is taken for a remainder, and the assertion on it is violated.
\<close>

theorem single_node_image_panics:
  assumes "c < 64" "b < 64" "d + a < 64" "2 ^ b + 2 ^ a \<le> I" "I < 2 ^ b + 2 ^ (d + a)" "I < u64_bound"
  shows "image_allocation_blocks_to_auth_tree_levels I c r d b a = Ok 1 \<and> image_allocation_blocks_to_auth_tree_node_count I 1 c r d b a = Panic"
proof -
  have rest: "\<not> I - 2 ^ b < 2 ^ a" using assms(4) by linarith
  have "(2 :: nat) ^ b < u64_bound" "(2 :: nat) ^ a < u64_bound" "(2 :: nat) ^ (d + a) < u64_bound" using assms(2,3) by (intro power_strict_increasing; simp)+
  moreover have "tree_count_loop c b (Suc 0) 0 0 (2 ^ (d + a)) I = Ok (0, 1, I - 2 ^ b)"
    using tree_count_step [OF assms(1,2), of "2 ^ (d + a)" 0 "2 ^ (d + a)" 0 I 0] assms calculation by simp
  ultimately have "image_allocation_blocks_to_auth_tree_node_count I 1 c r d b a = Panic"
    using assms rest unfolding image_allocation_blocks_to_auth_tree_node_count_def One_nat_def by (simp del: tree_count_loop.simps)
  moreover have "2 ^ b \<le> I" "I - 2 ^ b \<le> 2 ^ (d + a)" using assms(4,5) by linarith+
  ultimately show ?thesis using image_levels_one [OF assms(1,2) _ assms(6), of d a r] by blast
qed

theorem single_node_image_panics_witness:
  "image_allocation_blocks_to_auth_tree_levels 3 2 1 2 0 0 = Ok 1 \<and> image_allocation_blocks_to_auth_tree_node_count 3 1 2 1 2 0 0 = Panic"
  using single_node_image_panics [of 2 0 2 0 3 1] by simp


text \<open>
  Where a leaf covers fewer blocks than an inner node has entries, the node count for a tree of two levels divides by zero for
  every image that leaves room for a leaf after the complete ones.
\<close>

theorem image_node_count_division_by_zero:
  assumes "1 \<le> c" "c < 64" "b < 63" "digests_per_node_minus_one_inv_mod_u64 c = Ok r" "d + a < c" "2 ^ b \<le> I" "I < u64_bound"
    and "2 ^ b \<le> (I - 2 ^ b) mod (2 ^ b + 2 ^ (d + a))"
  shows "image_allocation_blocks_to_auth_tree_node_count I 2 c r d b a = Panic"
proof -
  have b: "b < 64" "(2 :: nat) ^ b < u64_bound" using assms(3) by (simp, intro power_strict_increasing) auto
  have z: "(2 :: nat) ^ (d + a) div 2 ^ c = 0" using assms(5) by (intro div_less power_strict_increasing) auto
  have "(2 :: nat) ^ b \<le> 2 ^ 62" "(2 :: nat) ^ (d + a) \<le> 2 ^ 62" using assms(2,3,5) by (intro power_increasing; simp)+
  then have T: "(2 :: nat) ^ b + 2 ^ (d + a) < u64_bound" "(2 :: nat) ^ (d + a) < u64_bound" by simp_all
  have h: "height_ok c (Suc 0)" using assms(1,2) by (simp add: height_ok_def)
  have two: "Suc (Suc 0) = 2" by simp
  define q where "q = (I - 2 ^ b) div (2 ^ b + 2 ^ (d + a))"
  have "tree_count_loop c b (Suc (Suc 0)) 0 1 (2 ^ (d + a)) I =
      tree_count_loop c b (Suc 0) (1 + q) 0 (2 ^ (d + a) div 2 ^ c) ((I - 2 ^ b) mod (2 ^ b + 2 ^ (d + a)))"
    using tree_count_step [OF assms(2) b(1), of "2 ^ b + 2 ^ (d + a)" 1 "2 ^ (d + a)" 1 I 0] T b assms(6-)
    by (simp add: q_def del: tree_count_loop.simps)
  also have "\<dots> = Panic"
    using b assms(8) unfolding z by (cases "add_u64 (1 + q) 1") (auto simp: div_u64_def)
  finally have "tree_count_loop c b 2 0 1 (2 ^ (d + a)) I = Panic" unfolding two .
  then show ?thesis
    using auth_subtree_node_count_spec [OF h _ digest_inverse_mask [OF assms(1,2,4)], of 0] b T assms(1,2,5,6) 
    unfolding image_allocation_blocks_to_auth_tree_node_count_def by (simp del: tree_count_loop.simps)
qed

theorem image_node_count_division_by_zero_witness:
  "\<exists>r. digests_per_node_minus_one_inv_mod_u64 2 = Ok r \<and> image_allocation_blocks_to_auth_tree_node_count 6 2 2 r 1 0 0 = Panic"
proof -
  obtain r where r: "digests_per_node_minus_one_inv_mod_u64 2 = Ok r" using digests_inverse [of 2] by auto
  from image_node_count_division_by_zero [OF _ _ _ r, of 0 1 0 6] show ?thesis using r by simp
qed

end
