(* ===== verification/Auth_Tree_Map.thy ===== *)
theory Auth_Tree_Map
  imports Logical_Extents Iterator_Spec "HOL-Library.Infinite_Set"
begin

text \<open>
  The map between physical blocks and blocks in the domain of the authentication tree,
  \<open>AuthTreeDataAllocationBlocksMap\<close> in \<open>src/storage/src/fs/cocoonfs/auth_tree.rs\<close>.

  The tree does not authenticate its own storage, so that the data blocks are the physical blocks
  outside of the storage of the tree, numbered in order: block number \<open>d\<close> of the data domain is element
  \<open>d\<close> in the enumeration of the complement of the storage. The map is a vector of pairs of the end of an extent
  of the storage and the number of blocks of the storage up to there. The differences of these pairs cannot
  underflow in a map that \<open>auth_tree_map_new\<close> has built. \<open>sort_unstable_by_key\<close> sorts by
  the ends, which differ for disjoint extents.
\<close>

section \<open>Construction\<close>

type_synonym auth_tree_map = "(nat \<times> nat) list"

fun push_extents :: "logical_extent list \<Rightarrow> auth_tree_map outcome" where
  "push_extents [] = Ok []"
| "push_extents (x # xs) =
     and_then (physical_range x) (\<lambda>r.
     and_then (block_count r) (\<lambda>c.
     and_then (push_extents xs) (\<lambda>m. Ok ((range_end r, c) # m))))"

function accumulate_loop :: "auth_tree_map \<Rightarrow> nat \<Rightarrow> nat \<Rightarrow> nat \<Rightarrow> auth_tree_map outcome" where
  "accumulate_loop m i last_end accumulated =
     (if i < length m then
        and_then (add_u64 accumulated (snd (m ! i))) (\<lambda>accumulated.
        let cur_end = fst (m ! i) in
        and_then (sub_u64 cur_end (snd (m ! i))) (\<lambda>cur_begin.
        let m = m[i := (cur_end, accumulated)] in
        if cur_begin \<noteq> last_end then accumulate_loop m (i + 1) cur_end accumulated
        else and_then (vec_remove m (i - 1)) (\<lambda>m. accumulate_loop m i cur_end accumulated)))
      else Ok m)"
  by pat_completeness auto
termination
  by (relation "measure (\<lambda>(m, i, e, a). length m - i)") (auto simp: outcome_simps)

declare accumulate_loop.simps [simp del]

definition auth_tree_map_new :: "bool \<Rightarrow> logical_extents \<Rightarrow> auth_tree_map outcome" where
  "auth_tree_map_new mem es =
     (if \<not> mem then Err MemoryAllocationFailure
      else
        and_then (and_then (iter es) range_iterator_collect) (\<lambda>xs.
        and_then (push_extents xs) (\<lambda>m.
        let m = sort_key fst m in
        if m = [] then Ok m else accumulate_loop m 1 (fst (m ! 0)) (snd (m ! 0)))))"

section \<open>Mapping\<close>

definition map_physical_to_data_allocation_blocks :: "auth_tree_map \<Rightarrow> block_range \<Rightarrow> block_range outcome" where
  "map_physical_to_data_allocation_blocks m r =
     (let i = partition_point (\<lambda>e. fst e \<le> range_begin r) m in
      and_then (if i \<noteq> 0 then and_then (vec_get m (i - 1)) (\<lambda>e. Ok (snd e)) else Ok 0) (\<lambda>accumulated.
      and_then (if i < length m then
                  and_then (vec_get m i) (\<lambda>nxt.
                  and_then (sub_u64 (snd nxt) accumulated) (\<lambda>c.
                  and_then (sub_u64 (fst nxt) c) (\<lambda>nxt_begin.
                  debug_assert (range_end r \<le> nxt_begin) (Ok ()))))
                else Ok ()) (\<lambda>_.
      and_then (sub_u64 (range_begin r) accumulated) (\<lambda>b.
      and_then (block_count r) (\<lambda>c. block_range_from b c)))))"

definition map_data_to_physical_allocation_block :: "auth_tree_map \<Rightarrow> nat \<Rightarrow> nat outcome" where
  "map_data_to_physical_allocation_block m d =
     (let map_index = partition_point (\<lambda>e. fst e - snd e \<le> d) m in
      if map_index \<noteq> 0 then and_then (vec_get m map_index) (\<lambda>e. add_u64 d (snd e)) else Ok d)"

definition total_auth_tree_extents_allocation_blocks :: "auth_tree_map \<Rightarrow> nat" where
  "total_auth_tree_extents_allocation_blocks m = (if m = [] then 0 else snd (last m))"

record map_iterator =
  mi_map :: auth_tree_map
  mi_index :: nat
  mi_next :: nat
  mi_end :: nat

definition iter_data_range_mapping :: "auth_tree_map \<Rightarrow> block_range \<Rightarrow> map_iterator outcome" where
  "iter_data_range_mapping m r =
     and_then (sub_u64 (u64_bound - 1) (total_auth_tree_extents_allocation_blocks m)) (\<lambda>max_end.
     let b = min (range_begin r) max_end;
         e = min (range_end r) max_end
     in Ok \<lparr>mi_map = m, mi_index = partition_point (\<lambda>e. fst e - snd e \<le> b) m, mi_next = b, mi_end = e\<rparr>)"

definition map_iterator_next :: "map_iterator \<Rightarrow> ((block_range \<times> nat) option \<times> map_iterator) outcome" where
  "map_iterator_next it =
     (if mi_next it = mi_end it then Ok (None, it)
      else
        let b = mi_next it in
        and_then (if 0 < mi_index it then
                    and_then (vec_get (mi_map it) (mi_index it - 1)) (\<lambda>e.
                    and_then (sub_u64 (fst e) (snd e)) (\<lambda>key.
                    debug_assert (key \<le> b) (Ok (snd e))))
                  else Ok 0) (\<lambda>accumulated.
        and_then (if mi_index it < length (mi_map it) then
                    and_then (sub_u64 (fst (mi_map it ! mi_index it)) (snd (mi_map it ! mi_index it))) (\<lambda>key.
                    Ok (if key < mi_end it then (mi_index it + 1, key) else (mi_index it, mi_end it)))
                  else Ok (mi_index it, mi_end it)) (\<lambda>(index, e).
        and_then (add_u64 b accumulated) (\<lambda>p.
        and_then (block_range_new b e) (\<lambda>r.
        Ok (Some (r, p), it\<lparr>mi_index := index, mi_next := e\<rparr>))))))"

section \<open>The storage and the data blocks\<close>

text \<open>The position of an extent of the storage in the data domain.\<close>

definition key_of :: "nat \<times> nat \<Rightarrow> nat" where
  "key_of e = fst e - snd e"

fun map_wf_from :: "nat \<Rightarrow> nat \<Rightarrow> auth_tree_map \<Rightarrow> bool" where
  "map_wf_from k a [] \<longleftrightarrow> True"
| "map_wf_from k a (e # m) \<longleftrightarrow> a < snd e \<and> snd e \<le> fst e \<and> fst e < u64_bound \<and> k \<le> key_of e \<and> map_wf_from (Suc (key_of e)) (snd e) m"

fun storage_from :: "nat \<Rightarrow> auth_tree_map \<Rightarrow> nat set" where
  "storage_from a [] = {}"
| "storage_from a (e # m) = {key_of e + a..<fst e} \<union> storage_from (snd e) m"

fun phys_from :: "nat \<Rightarrow> auth_tree_map \<Rightarrow> nat \<Rightarrow> nat" where
  "phys_from a [] d = d + a"
| "phys_from a (e # m) d = (if d < key_of e then d + a else phys_from (snd e) m d)"

definition map_wf :: "auth_tree_map \<Rightarrow> bool" where
  "map_wf m \<longleftrightarrow> map_wf_from 0 0 m"

definition tree_storage :: "auth_tree_map \<Rightarrow> nat set" where
  "tree_storage m = storage_from 0 m"

text \<open>The physical block of a data block: the data blocks are the blocks outside of the storage.\<close>

definition data_block_at :: "auth_tree_map \<Rightarrow> nat \<Rightarrow> nat" where
  "data_block_at m d = enumerate (- tree_storage m) d"

lemma enumerate_eq:
  fixes f :: "nat \<Rightarrow> nat"
  assumes "strict_mono f"
  shows "enumerate (range f) d = f d"
proof (induction d)
  case 0
  have "(LEAST n. n \<in> range f) = f 0"
    using strict_mono_less_eq [OF assms] by (intro Least_equality) auto
  then show ?case by (simp add: enumerate_0)
next
  case (Suc d)
  have "infinite (range f)" using strict_mono_imp_inj_on [OF assms] range_inj_infinite by blast
  then have "enumerate (range f) (Suc d) = (LEAST s. s \<in> range f \<and> enumerate (range f) d < s)" by (rule enumerate_Suc'')
  also have "\<dots> = f (Suc d)"
    using strict_mono_less_eq [OF assms] strict_mono_less [OF assms] by (intro Least_equality) (auto simp: Suc)
  finally show ?case .
qed

lemma phys_from_ge: "map_wf_from k a m \<Longrightarrow> d + a \<le> phys_from a m d"
proof (induction a m d arbitrary: k rule: phys_from.induct)
  case (2 a e m d)
  then show ?case using 2(1) [of "Suc (key_of e)"] by fastforce
qed simp

lemma phys_from_mono: "map_wf_from k a m \<Longrightarrow> d < d' \<Longrightarrow> phys_from a m d < phys_from a m d'"
proof (induction a m d arbitrary: k rule: phys_from.induct)
  case (2 a e m d)
  then have IH: "\<not> d < key_of e \<Longrightarrow> phys_from (snd e) m d < phys_from (snd e) m d'" by auto
  have "d' + snd e \<le> phys_from (snd e) m d'" using phys_from_ge 2(2) by auto
  then show ?case using IH 2(2,3) by auto
qed simp

lemma storage_from_ge: "map_wf_from k a m \<Longrightarrow> storage_from a m \<subseteq> {k + a..}"
proof (induction a m arbitrary: k rule: storage_from.induct)
  case (2 a e m)
  then show ?case using 2(1) [of "Suc (key_of e)"] by fastforce
qed simp

lemma phys_from_first: "map_wf_from (Suc k) a m \<Longrightarrow> phys_from a m k = k + a"
  by (cases m) auto

lemma phys_image: "map_wf_from k a m \<Longrightarrow> phys_from a m ` {k..} = {k + a..} - storage_from a m"
proof (induction a m arbitrary: k rule: storage_from.induct)
  case (1 a)
  have "p \<in> (\<lambda>d. d + a) ` {k..}" if "k + a \<le> p" for p using that by (intro image_eqI [of _ _ "p - a"]) auto
  then show ?case by auto
next
  case (2 a e m)
  let ?K = "key_of e"
  have wf: "a < snd e" "snd e \<le> fst e" "k \<le> ?K" "map_wf_from (Suc ?K) (snd e) m" using 2(2) by auto
  have fe: "fst e = ?K + snd e" using wf by (simp add: key_of_def)
  have ge: "storage_from (snd e) m \<subseteq> {Suc ?K + snd e..}" using storage_from_ge [OF wf(4)] by simp
  have "{k..} = {k..<?K} \<union> {?K..}" using wf(3) by auto
  then have "phys_from a (e # m) ` {k..} = phys_from a (e # m) ` {k..<?K} \<union> phys_from a (e # m) ` {?K..}" by (metis image_Un)
  also have "phys_from a (e # m) ` {k..<?K} = {k + a..<?K + a}" by (simp add: image_add_atLeastLessThan' cong: image_cong_simp)
  also have "phys_from a (e # m) ` {?K..} = phys_from (snd e) m ` {?K..}" by (intro image_cong) auto
  also have "{?K..} = insert ?K {Suc ?K..}" by auto
  also have "phys_from (snd e) m ` insert ?K {Suc ?K..} = insert (?K + snd e) ({Suc ?K + snd e..} - storage_from (snd e) m)"
    using 2(1) [OF wf(4)] phys_from_first [OF wf(4)] by simp
  finally show ?case using ge wf fe by auto
qed

lemma data_block_at_eq:
  assumes "map_wf m"
  shows "data_block_at m d = phys_from 0 m d"
proof -
  have "strict_mono (phys_from 0 m)" using phys_from_mono assms by (auto simp: strict_mono_def map_wf_def)
  moreover have "range (phys_from 0 m) = - tree_storage m"
    using phys_image [of 0 0 m] assms by (simp add: map_wf_def tree_storage_def Compl_eq_Diff_UNIV atLeast_0)
  ultimately show ?thesis using enumerate_eq [of "phys_from 0 m" d] by (simp add: data_block_at_def)
qed

lemma partition_point_simps:
  "partition_point P [] = 0" "partition_point P (x # xs) = (if P x then Suc (partition_point P xs) else 0)"
  by (simp_all add: partition_point_def)

text \<open>The number of blocks of the storage before a position of the vector.\<close>

definition accumulated_at :: "nat \<Rightarrow> auth_tree_map \<Rightarrow> nat \<Rightarrow> nat" where
  "accumulated_at a m i = (if i = 0 then a else snd (m ! (i - 1)))"

lemma accumulated_at_simps [simp]:
  "accumulated_at a m 0 = a" "accumulated_at a (e # m) (Suc i) = accumulated_at (snd e) m i"
  by (auto simp: accumulated_at_def nth_Cons')

lemma phys_from_partition: "phys_from a m d = d + accumulated_at a m (partition_point (\<lambda>e. key_of e \<le> d) m)"
  by (induction a m d rule: phys_from.induct) (simp_all add: partition_point_simps)

lemma physical_position:
  assumes "map_wf_from k a m" "k + a \<le> p" "p < q" "{p..<q} \<inter> storage_from a m = {}"
  defines "i \<equiv> partition_point (\<lambda>e. fst e \<le> p) m"
  shows "k + accumulated_at a m i \<le> p \<and> (\<forall>x < q - p. phys_from a m (p - accumulated_at a m i + x) = p + x)
    \<and> (i < length m \<longrightarrow> accumulated_at a m i \<le> snd (m ! i) \<and> snd (m ! i) \<le> fst (m ! i)
        \<and> q \<le> fst (m ! i) - (snd (m ! i) - accumulated_at a m i))"
  using assms(1-4) unfolding i_def
proof (induction a m arbitrary: k rule: storage_from.induct)
  case (2 a e m)
  have wf: "a < snd e" "snd e \<le> fst e" "map_wf_from (Suc (key_of e)) (snd e) m" using 2(2) by auto
  show ?case
  proof (cases "fst e \<le> p")
    case True
    show ?thesis
    proof (cases "p = fst e")
      case pe: True
      have none: "partition_point (\<lambda>e. fst e \<le> p) m = 0 \<and> key_of e + snd e = p"
        using wf pe by (cases m) (auto simp: partition_point_simps key_of_def)
      have later: "q \<le> key_of (hd m) + snd e" if "m \<noteq> []"
      proof (rule ccontr)
        assume "\<not> ?thesis"
        moreover have "p < key_of (hd m) + snd e" "key_of (hd m) + snd e < fst (hd m)" using wf that none by (cases m; auto simp: key_of_def)+
        ultimately show False using 2(5) that by (cases m) (auto simp: disjoint_iff)
      qed
      have "phys_from (snd e) m (key_of e + x) = p + x" if "x < q - p" for x
        using that later none wf(3) by (cases m) auto
      then show ?thesis using wf(1,2) 2(2) pe none later wf(3) by (cases m) (auto simp: partition_point_simps key_of_def)
    next
      case False
      have at: "Suc (key_of e) + snd e \<le> p" using False True wf by (simp add: key_of_def)
      have free: "{p..<q} \<inter> storage_from (snd e) m = {}" using 2(5) by auto
      show ?thesis using 2(1) [OF wf(3) at 2(4) free] True 2(2) by (auto simp: partition_point_simps)
    qed
  next
    case False
    have fe: "fst e = key_of e + snd e" using wf by (simp add: key_of_def)
    have "q \<le> key_of e + a"
    proof (rule ccontr)
      assume "\<not> ?thesis"
      then have "max p (key_of e + a) \<in> {p..<q} \<inter> storage_from a (e # m)" using False 2(4) wf fe by auto
      then show False using 2(5) by blast
    qed
    then show ?thesis using False wf fe 2(3) by (auto simp: partition_point_simps)
  qed
qed (auto simp: partition_point_simps)

lemma map_physical_spec:
  assumes wf: "map_wf m" and r: "range_wf r" "blocks r \<inter> tree_storage m = {}"
  shows "\<exists>b. map_physical_to_data_allocation_blocks m r = Ok (mk_range b (b + (range_end r - range_begin r)))
    \<and> (\<forall>x < range_end r - range_begin r. data_block_at m (b + x) = range_begin r + x)"
proof -
  let ?p = "range_begin r" and ?q = "range_end r"
  let ?i = "partition_point (\<lambda>e. fst e \<le> ?p) m"
  have pq: "?p < ?q" "?q < u64_bound" using r(1) by (simp_all add: range_wf_def)
  note pos = physical_position [of 0 0 m ?p ?q]
  have i: "accumulated_at 0 m ?i \<le> ?p" "\<forall>x < ?q - ?p. phys_from 0 m (?p - accumulated_at 0 m ?i + x) = ?p + x"
    "?i < length m \<longrightarrow> accumulated_at 0 m ?i \<le> snd (m ! ?i) \<and> snd (m ! ?i) \<le> fst (m ! ?i) \<and> ?q \<le> fst (m ! ?i) - (snd (m ! ?i) - accumulated_at 0 m ?i)"
    using pos wf r pq by (auto simp: map_wf_def tree_storage_def blocks_def)
  have acc: "(if ?i \<noteq> 0 then and_then (vec_get m (?i - 1)) (\<lambda>e. Ok (snd e)) else Ok 0) = Ok (accumulated_at 0 m ?i)"
    using partition_point_le [of "\<lambda>e. fst e \<le> ?p" m] by (auto simp: accumulated_at_def simp del: partition_point_le)
  have "map_physical_to_data_allocation_blocks m r = Ok (mk_range (?p - accumulated_at 0 m ?i) (?p - accumulated_at 0 m ?i + (?q - ?p)))"
    unfolding map_physical_to_data_allocation_blocks_def Let_def acc using i(1,3) pq
    by (auto simp: block_count_def)
  then show ?thesis using i(2) data_block_at_eq [OF wf] by auto
qed

section \<open>The iterator\<close>

fun pieces :: "nat \<Rightarrow> auth_tree_map \<Rightarrow> nat \<Rightarrow> nat \<Rightarrow> (block_range \<times> nat) list" where
  "pieces a [] b e = (if b = e then [] else [(mk_range b e, b + a)])"
| "pieces a (x # m) b e =
     (if b = e then []
      else if key_of x < e then (mk_range b (key_of x), b + a) # pieces (snd x) m (key_of x) e
      else [(mk_range b e, b + a)])"

text \<open>The data blocks and the physical blocks of the pieces.\<close>

definition piece_data :: "(block_range \<times> nat) list \<Rightarrow> nat list" where
  "piece_data ps = concat (map (\<lambda>(r, p). [range_begin r..<range_end r]) ps)"

definition piece_blocks :: "(block_range \<times> nat) list \<Rightarrow> nat list" where
  "piece_blocks ps = concat (map (\<lambda>(r, p). [p..<p + (range_end r - range_begin r)]) ps)"

lemma pieces_spec:
  assumes "map_wf_from (Suc b) a m" "b \<le> e"
  shows "piece_data (pieces a m b e) = [b..<e] \<and> piece_blocks (pieces a m b e) = map (phys_from a m) [b..<e]"
  using assms
proof (induction a m b e rule: pieces.induct)
  case (1 a b e)
  then show ?case using map_add_upt [of "b + a" "e - b"] map_add_upt [of b "e - b"]
    by (auto simp: piece_data_def piece_blocks_def intro: nth_equalityI)
next
  case (2 a x m b e)
  have wf: "Suc b \<le> key_of x" "map_wf_from (Suc (key_of x)) (snd x) m" using 2(2) by auto
  show ?case
  proof (cases "b \<noteq> e \<and> key_of x < e")
    case True
    have "[b..<e] = [b..<key_of x] @ [key_of x..<e]" using True wf(1) upt_add_eq_append [of b "key_of x" "e - key_of x"] by simp
    moreover have "map (phys_from a (x # m)) [b..<key_of x] = [b + a..<key_of x + a]" using wf(1) by (intro nth_equalityI) auto
    moreover have "map (phys_from a (x # m)) [key_of x..<e] = map (phys_from (snd x) m) [key_of x..<e]" by simp
    ultimately show ?thesis using 2(1) [OF _ _ wf(2)] True wf(1)
      by (auto simp: piece_data_def piece_blocks_def add.commute simp del: phys_from.simps)
  next
    case False
    then show ?thesis using 2(3) wf(1) by (auto simp: piece_data_def piece_blocks_def intro!: nth_equalityI)
  qed
qed

lemma length_pieces: "length (pieces a m b e) \<le> Suc (length m)"
  by (induction a m b e rule: pieces.induct) auto

definition mi_invar :: "map_iterator \<Rightarrow> bool" where
  "mi_invar it \<longleftrightarrow> map_wf (mi_map it) \<and> mi_next it \<le> mi_end it
     \<and> mi_end it + total_auth_tree_extents_allocation_blocks (mi_map it) < u64_bound
     \<and> (mi_next it < mi_end it \<longrightarrow> mi_index it = partition_point (\<lambda>e. key_of e \<le> mi_next it) (mi_map it))"

definition mi_items :: "map_iterator \<Rightarrow> (block_range \<times> nat) list" where
  "mi_items it = pieces (accumulated_at 0 (mi_map it) (mi_index it)) (drop (mi_index it) (mi_map it)) (mi_next it) (mi_end it)"

lemma map_wf_from_nth:
  assumes "map_wf_from k a m" "i < length m"
  shows "k \<le> key_of (m ! i)" "accumulated_at a m i < snd (m ! i)" "snd (m ! i) \<le> fst (m ! i)" "fst (m ! i) < u64_bound"
    "map_wf_from (Suc (key_of (m ! i))) (snd (m ! i)) (drop (Suc i) m)"
  using assms
proof (induction m arbitrary: k a i)
  case (Cons e m)
  { case 1 then show ?case using Cons(1) [of "Suc (key_of e)" "snd e" "i - 1"] by (cases i) auto }
  { case 2 then show ?case using Cons(2) [of "Suc (key_of e)" "snd e" "i - 1"] by (cases i) auto }
  { case 3 then show ?case using Cons(3) [of "Suc (key_of e)" "snd e" "i - 1"] by (cases i) auto }
  { case 4 then show ?case using Cons(4) [of "Suc (key_of e)" "snd e" "i - 1"] by (cases i) auto }
  { case 5 then show ?case using Cons(5) [of "Suc (key_of e)" "snd e" "i - 1"] by (cases i) auto }
qed auto

lemma map_wf_snd:
  assumes "map_wf_from k a m" "i \<le> length m"
  shows "a \<le> accumulated_at a m i"
  using assms
proof (induction m arbitrary: k a i)
  case (Cons e m)
  then show ?case using Cons.IH [of "Suc (key_of e)" "snd e" "i - 1"] by (cases i) auto
qed (simp add: accumulated_at_def)

lemma map_wf_from_increasing:
  assumes "map_wf_from k a m" "i < j" "j < length m"
  shows "key_of (m ! i) < key_of (m ! j) \<and> snd (m ! i) < snd (m ! j)"
proof -
  note wf = map_wf_from_nth(5) [OF assms(1) less_trans [OF assms(2,3)]]
  have "snd (m ! i) \<le> accumulated_at (snd (m ! i)) (drop (Suc i) m) (j - Suc i)"
    using map_wf_snd [OF wf] assms(2,3) by simp
  moreover have "j - Suc i < length (drop (Suc i) m)" using assms(2,3) by simp
  ultimately show ?thesis using map_wf_from_nth(1,2) [OF wf, of "j - Suc i"] assms(2,3) by simp
qed

lemma total_accumulated:
  assumes "map_wf m" "i \<le> length m"
  shows "accumulated_at 0 m i \<le> total_auth_tree_extents_allocation_blocks m"
proof -
  consider "i = 0" | "i = length m" "m \<noteq> []" | "0 < i" "i - 1 < length m - 1" "length m - 1 < length m"
    using assms(2) by (cases "i = 0"; cases "i = length m"; linarith | force)
  then show ?thesis
    using map_wf_from_increasing [of 0 0 m "i - 1" "length m - 1"] assms(1)
    by cases (auto simp: accumulated_at_def total_auth_tree_extents_allocation_blocks_def last_conv_nth map_wf_def)
qed

lemma map_wf_drop:
  assumes "map_wf_from k a m"
  shows "map_wf_from (Suc b) (accumulated_at a m (partition_point (\<lambda>e. key_of e \<le> b) m)) (drop (partition_point (\<lambda>e. key_of e \<le> b) m) m)"
  using assms by (induction m arbitrary: k a) (auto simp: partition_point_simps)

lemma phys_from_drop:
  assumes "b \<le> d"
  shows "phys_from (accumulated_at a m (partition_point (\<lambda>e. key_of e \<le> b) m)) (drop (partition_point (\<lambda>e. key_of e \<le> b) m) m) d = phys_from a m d"
  using assms by (induction m arbitrary: a) (auto simp: partition_point_simps)

lemma map_iterator_next_spec:
  assumes inv: "mi_invar it" and lt: "mi_next it < mi_end it"
  defines "m \<equiv> mi_map it" and "i \<equiv> mi_index it"
  shows "map_iterator_next it = (if i < length m \<and> key_of (m ! i) < mi_end it
    then Ok (Some (mk_range (mi_next it) (key_of (m ! i)), mi_next it + accumulated_at 0 m i), it\<lparr>mi_index := Suc i, mi_next := key_of (m ! i)\<rparr>)
    else Ok (Some (mk_range (mi_next it) (mi_end it), mi_next it + accumulated_at 0 m i), it\<lparr>mi_next := mi_end it\<rparr>))"
    "i < length m \<Longrightarrow> mi_next it < key_of (m ! i)" "i \<le> length m"
proof -
  have wf: "map_wf_from 0 0 m" using inv by (simp add: mi_invar_def map_wf_def m_def)
  have i: "i = partition_point (\<lambda>e. key_of e \<le> mi_next it) m" using inv lt by (simp add: mi_invar_def m_def i_def)
  show le: "i \<le> length m" by (simp add: i)
  show nxt: "i < length m \<Longrightarrow> mi_next it < key_of (m ! i)" using partition_point_at [of "\<lambda>e. key_of e \<le> mi_next it" m] by (simp add: i)
  have prev: "snd (m ! (i - 1)) \<le> fst (m ! (i - 1)) \<and> fst (m ! (i - 1)) - snd (m ! (i - 1)) \<le> mi_next it" if "0 < i"
  proof -
    have "i - 1 < length m" "i - 1 < partition_point (\<lambda>e. key_of e \<le> mi_next it) m" using that le unfolding i [symmetric] by linarith+
    then show ?thesis using map_wf_from_nth(3) [OF wf] partition_point_before [of "i - 1" "\<lambda>e. key_of e \<le> mi_next it" m] by (simp add: key_of_def)
  qed
  have acc: "(if 0 < i then and_then (vec_get m (i - 1)) (\<lambda>e. and_then (sub_u64 (fst e) (snd e)) (\<lambda>key. debug_assert (key \<le> mi_next it) (Ok (snd e)))) else Ok 0)
      = Ok (accumulated_at 0 m i)" using prev le by (auto simp: accumulated_at_def)
  have wf': "map_wf m" using wf by (simp add: map_wf_def)
  have "mi_next it + accumulated_at 0 m i < u64_bound" using inv lt total_accumulated [OF wf' le] by (simp add: mi_invar_def m_def)
  moreover have "i < length m \<Longrightarrow> snd (m ! i) \<le> fst (m ! i)" using map_wf_from_nth(3) [OF wf] by simp
  ultimately show "map_iterator_next it = (if i < length m \<and> key_of (m ! i) < mi_end it
    then Ok (Some (mk_range (mi_next it) (key_of (m ! i)), mi_next it + accumulated_at 0 m i), it\<lparr>mi_index := Suc i, mi_next := key_of (m ! i)\<rparr>)
    else Ok (Some (mk_range (mi_next it) (mi_end it), mi_next it + accumulated_at 0 m i), it\<lparr>mi_next := mi_end it\<rparr>))"
    using lt nxt acc [unfolded m_def i_def] unfolding map_iterator_next_def m_def i_def
    by (cases it) (auto simp: Let_def key_of_def)
qed

lemma mi_items_nil_iff: "mi_items it = [] \<longleftrightarrow> mi_next it = mi_end it"
  by (cases "drop (mi_index it) (mi_map it)") (auto simp: mi_items_def)

lemma mi_step:
  assumes inv: "mi_invar it" and lt: "mi_next it < mi_end it"
  shows "\<exists>it'. map_iterator_next it = Ok (Some (hd (mi_items it)), it') \<and> mi_invar it' \<and> mi_items it' = tl (mi_items it)"
proof -
  let ?m = "mi_map it" and ?i = "mi_index it"
  note sp = map_iterator_next_spec [OF inv lt]
  have wf: "map_wf_from 0 0 ?m" using inv by (simp add: mi_invar_def map_wf_def)
  show ?thesis
  proof (cases "?i < length ?m \<and> key_of (?m ! ?i) < mi_end it")
    case True
    have "drop ?i ?m = ?m ! ?i # drop (Suc ?i) ?m" using True by (simp add: Cons_nth_drop_Suc)
    moreover have "partition_point (\<lambda>e. key_of e \<le> key_of (?m ! ?i)) ?m = Suc ?i"
    proof (rule partition_pointI)
      fix k assume "k < Suc ?i"
      then show "key_of (?m ! k) \<le> key_of (?m ! ?i)" using True map_wf_from_increasing [OF wf, of k ?i] by (cases "k = ?i") auto
    qed (use True map_wf_from_increasing [OF wf, of ?i "Suc ?i"] in auto)
    moreover have "accumulated_at 0 ?m (Suc ?i) = snd (?m ! ?i)" by (simp add: accumulated_at_def)
    ultimately show ?thesis using sp True lt inv by (auto simp: mi_items_def mi_invar_def)
  next
    case False
    then show ?thesis using sp lt inv by (cases "drop ?i ?m") (auto simp: mi_items_def mi_invar_def nth_via_drop drop_eq_Nil2)
  qed
qed

interpretation map_iter: list_iterator mi_invar mi_items map_iterator_next
proof
  fix it :: map_iterator
  assume "mi_invar it" "mi_items it = []"
  then show "\<exists>s'. map_iterator_next it = Ok (None, s') \<and> mi_invar s' \<and> mi_items s' = []"
    by (simp add: mi_items_nil_iff map_iterator_next_def)
next
  fix it :: map_iterator and a as
  assume inv: "mi_invar it" and items: "mi_items it = a # as"
  then have "mi_next it < mi_end it" using mi_items_nil_iff [of it] by (auto simp: mi_invar_def)
  from mi_step [OF inv this] items show "\<exists>s'. map_iterator_next it = Ok (Some a, s') \<and> mi_invar s' \<and> mi_items s' = as" by simp
qed

lemma iter_data_range_mapping_spec:
  assumes wf: "map_wf m" and r: "range_begin r \<le> range_end r"
  defines "cap \<equiv> u64_bound - 1 - total_auth_tree_extents_allocation_blocks m"
  obtains it where "iter_data_range_mapping m r = Ok it" "mi_invar it" "length (mi_items it) \<le> Suc (length m)"
    "piece_data (mi_items it) = [min (range_begin r) cap..<min (range_end r) cap]"
    "piece_blocks (mi_items it) = map (data_block_at m) [min (range_begin r) cap..<min (range_end r) cap]"
proof -
  let ?b = "min (range_begin r) cap" and ?e = "min (range_end r) cap"
  let ?i = "partition_point (\<lambda>e. key_of e \<le> ?b) m"
  let ?it = "\<lparr>mi_map = m, mi_index = ?i, mi_next = ?b, mi_end = ?e\<rparr>"
  have wf': "map_wf_from 0 0 m" using wf by (simp add: map_wf_def)
  have tot: "total_auth_tree_extents_allocation_blocks m < u64_bound"
    using map_wf_from_nth(3,4) [OF wf', of "length m - 1"]
    by (cases "m = []") (auto simp: total_auth_tree_extents_allocation_blocks_def last_conv_nth intro: le_less_trans)
  have run: "iter_data_range_mapping m r = Ok ?it" using tot by (simp add: iter_data_range_mapping_def key_of_def cap_def Let_def)
  have inv: "mi_invar ?it" using wf r tot by (auto simp: mi_invar_def cap_def)
  have below: "map_wf_from (Suc ?b) (accumulated_at 0 m ?i) (drop ?i m)" by (rule map_wf_drop [OF wf'])
  have "map (phys_from (accumulated_at 0 m ?i) (drop ?i m)) [?b..<?e] = map (data_block_at m) [?b..<?e]"
    using data_block_at_eq [OF wf] by (intro map_cong) (simp_all add: phys_from_drop del: min.bounded_iff)
  then show thesis using that [OF run inv] pieces_spec [OF below, of ?e] r length_pieces [of "accumulated_at 0 m ?i" "drop ?i m" ?b ?e]
    by (auto simp: mi_items_def)
qed

section \<open>The constructed map\<close>

definition extent_at :: "logical_extents \<Rightarrow> nat \<Rightarrow> logical_extent" where
  "extent_at es i = \<lparr>extent_logical_begin = entry_begin es i, extent_physical_begin = fst (es ! i), extent_block_count = snd (es ! i) - entry_begin es i\<rparr>"

definition span_of :: "nat \<times> nat \<Rightarrow> nat list" where
  "span_of p = [fst p - snd p..<fst p]"

lemma collect_all:
  assumes wf: "le_wf es" and i: "i \<le> length es"
    and r: "r = \<lparr>range_index_first = 0, range_index_last = length es - 1, range_offset_in_first = 0, range_end_in_last = c\<rparr>"
    and c: "c = snd (es ! (length es - 1)) - entry_begin es (length es - 1)" and ne: "es \<noteq> []"
  shows "range_iterator_collect \<lparr>it_extents = es, it_range = Some r, it_index = i\<rparr> = Ok (map (extent_at es) [i..<length es])"
  using i
proof (induction "length es - i" arbitrary: i)
  case 0
  then have "i = Suc (length es - 1)" using ne by (cases es) auto
  then show ?case using ne by (subst range_iterator_collect.simps) (simp add: range_iterator_next_def r Let_def)
next
  case (Suc n)
  then have i: "i < length es" by simp
  note at = le_at [OF wf i]
  have bnd: "fst (es ! i) < u64_bound" using at(1,3) by linarith
  have "range_iterator_next \<lparr>it_extents = es, it_range = Some r, it_index = i\<rparr>
      = Ok (Some (extent_at es i), \<lparr>it_extents = es, it_range = Some r, it_index = Suc i\<rparr>)"
    using i at(1-3) bnd wf ne by (cases i) (auto simp: range_iterator_next_def r extent_at_def c)
  moreover have "range_iterator_collect \<lparr>it_extents = es, it_range = Some r, it_index = Suc i\<rparr> = Ok (map (extent_at es) [Suc i..<length es])"
    using Suc(1) [of "Suc i"] Suc(2) i by simp
  ultimately show ?case using i by (subst range_iterator_collect.simps) (simp add: upt_conv_Cons)
qed

lemma iter_all:
  assumes wf: "le_wf es"
  shows "and_then (iter es) range_iterator_collect = Ok (map (extent_at es) [0..<length es])"
proof (cases "es = []")
  case True
  then show ?thesis
    by (simp add: iter_def range_iterator_collect.simps [of "\<lparr>it_extents = [], it_range = None, it_index = 0\<rparr>"] range_iterator_next_def)
next
  case False
  then have "length es - 1 < length es" by simp
  note at = le_at(1) [OF wf this]
  have "iter es = Ok \<lparr>it_extents = es, it_range = Some \<lparr>range_index_first = 0, range_index_last = length es - 1,
      range_offset_in_first = 0, range_end_in_last = snd (es ! (length es - 1)) - entry_begin es (length es - 1)\<rparr>, it_index = 0\<rparr>"
    using False wf at by (simp add: iter_def Let_def less_imp_le block_count_def)
  then show ?thesis using collect_all [OF wf _ refl refl False, of 0] by simp
qed

lemma push_extents_all:
  assumes wf: "le_wf es" and "j \<le> length es"
  shows "\<exists>ps. push_extents (map (extent_at es) [j..<length es]) = Ok ps \<and> (\<forall>p \<in> set ps. 0 < snd p \<and> snd p \<le> fst p \<and> fst p < u64_bound)
    \<and> concat (map span_of ps) = drop (entry_begin es j) (le_seq es) \<and> sum_list (map snd ps) = length (le_seq es) - entry_begin es j"
  using assms(2)
proof (induction "length es - j" arbitrary: j)
  case 0
  then show ?case using length_le_seq [OF wf] by (simp add: entry_begin_def end_after_def allocation_block_count_def)
next
  case (Suc n)
  then have j: "j < length es" by simp
  note at = le_at [OF wf j]
  let ?c = "snd (es ! j) - entry_begin es j"
  have step: "n = length es - Suc j" "Suc j \<le> length es" using Suc(2) j by simp_all
  from Suc(1) [OF step] obtain ps where ps: "push_extents (map (extent_at es) [Suc j..<length es]) = Ok ps" "\<forall>p \<in> set ps. 0 < snd p \<and> snd p \<le> fst p \<and> fst p < u64_bound"
    "concat (map span_of ps) = drop (entry_begin es (Suc j)) (le_seq es)" "sum_list (map snd ps) = length (le_seq es) - entry_begin es (Suc j)"
    by blast
  have "push_extents (map (extent_at es) [j..<length es]) = Ok ((fst (es ! j) + ?c, ?c) # ps)"
    using j at(1,3) ps(1) by (simp add: upt_conv_Cons extent_at_def physical_range_def block_count_def)
  moreover have "drop (entry_begin es j) (le_seq es) = span_of (fst (es ! j) + ?c, ?c) @ drop (entry_begin es (Suc j)) (le_seq es)"
    using at(1,4,5) by (simp add: span_of_def entry_begin_Suc [OF j])
  moreover have "entry_begin es (Suc j) \<le> length (le_seq es)" using snd_le_count [OF wf j] length_le_seq [OF wf] by (simp add: entry_begin_Suc [OF j])
  ultimately show ?case using ps(2-4) at(1,3) entry_begin_Suc [OF j] by auto
qed

fun accumulated :: "nat \<Rightarrow> nat \<Rightarrow> auth_tree_map \<Rightarrow> auth_tree_map" where
  "accumulated E A [] = [(E, A)]"
| "accumulated E A (p # ps) = (if fst p - snd p = E then accumulated (fst p) (A + snd p) ps else (E, A) # accumulated (fst p) (A + snd p) ps)"

lemma accumulate_loop_eq:
  assumes "\<forall>p \<in> set ps. snd p \<le> fst p" "A + sum_list (map snd ps) < u64_bound"
  shows "accumulate_loop (pre @ (E, A) # ps) (Suc (length pre)) E A = Ok (pre @ accumulated E A ps)"
  using assms
proof (induction ps arbitrary: pre E A)
  case Nil
  then show ?case by (simp add: accumulate_loop.simps)
next
  case (Cons p ps)
  have sums: "A + snd p < u64_bound" "A + snd p + sum_list (map snd ps) < u64_bound" using Cons.prems(2) by simp_all
  have upd: "(pre @ (E, A) # p # ps)[Suc (length pre) := (fst p, A + snd p)] = pre @ (E, A) # (fst p, A + snd p) # ps" by (simp add: list_update_append)
  show ?case
  proof (cases "fst p - snd p = E")
    case True
    have "accumulate_loop (pre @ (E, A) # p # ps) (Suc (length pre)) E A = accumulate_loop (pre @ (fst p, A + snd p) # ps) (Suc (length pre)) (fst p) (A + snd p)"
      using True Cons.prems(1) sums by (subst accumulate_loop.simps) (simp add: nth_append upd Let_def)
    then show ?thesis using Cons.IH [of "A + snd p" pre "fst p"] Cons.prems(1) sums True by simp
  next
    case False
    have "accumulate_loop (pre @ (E, A) # p # ps) (Suc (length pre)) E A
        = accumulate_loop ((pre @ [(E, A)]) @ (fst p, A + snd p) # ps) (Suc (length (pre @ [(E, A)]))) (fst p) (A + snd p)"
      using False Cons.prems(1) sums by (subst accumulate_loop.simps) (simp add: nth_append upd Let_def)
    then show ?thesis using Cons.IH [of "A + snd p" "pre @ [(E, A)]" "fst p"] Cons.prems(1) sums False by simp
  qed
qed

lemma accumulated_wf:
  assumes "a < A" "k + A \<le> E" "E < u64_bound" "sorted_wrt (\<lambda>p q. fst p \<le> fst q - snd q) ((E, c) # ps)" "\<forall>p \<in> set ps. 0 < snd p \<and> snd p \<le> fst p \<and> fst p < u64_bound"
  shows "map_wf_from k a (accumulated E A ps) \<and> storage_from a (accumulated E A ps) = {E - A + a..<E} \<union> set (concat (map span_of ps))"
  using assms
proof (induction ps arbitrary: a A k E c)
  case Nil
  then show ?case by (auto simp: key_of_def)
next
  case (Cons p ps)
  have p: "0 < snd p" "snd p \<le> fst p" "fst p < u64_bound" "E \<le> fst p - snd p" and srt: "sorted_wrt (\<lambda>p q. fst p \<le> fst q - snd q) ((fst p, snd p) # ps)"
    and ps: "\<forall>p \<in> set ps. 0 < snd p \<and> snd p \<le> fst p \<and> fst p < u64_bound" using Cons.prems(4,5) by auto
  show ?case
  proof (cases "fst p - snd p = E")
    case True
    have "map_wf_from k a (accumulated (fst p) (A + snd p) ps) \<and> storage_from a (accumulated (fst p) (A + snd p) ps)
        = {fst p - (A + snd p) + a..<fst p} \<union> set (concat (map span_of ps))"
      by (rule Cons.IH [OF _ _ p(3) srt ps]) (use Cons.prems(1,2) True p in auto)
    moreover have "{E - A + a..<E} \<union> set (span_of p) = {fst p - (A + snd p) + a..<fst p}"
      using True p Cons.prems(1,2) by (auto simp: span_of_def)
    ultimately show ?thesis using True by auto
  next
    case False
    then have "E < fst p - snd p" using p(4) by simp
    then have "map_wf_from (Suc (E - A)) A (accumulated (fst p) (A + snd p) ps) \<and> storage_from A (accumulated (fst p) (A + snd p) ps)
        = {fst p - (A + snd p) + A..<fst p} \<union> set (concat (map span_of ps))"
      by (intro Cons.IH [OF _ _ p(3) srt ps]) (use Cons.prems(1,2) p in auto)
    moreover have "{fst p - (A + snd p) + A..<fst p} = set (span_of p)" using p \<open>E < fst p - snd p\<close> Cons.prems(2) by (auto simp: span_of_def)
    ultimately show ?thesis using False Cons.prems(1-3) by (auto simp: key_of_def)
  qed
qed

lemma runs_ordered:
  assumes "distinct (concat (map span_of ps))" "sorted (map fst ps)" "\<forall>p \<in> set ps. 0 < snd p \<and> snd p \<le> fst p"
  shows "sorted_wrt (\<lambda>p q. fst p \<le> fst q - snd q) ps"
  using assms
proof (induction ps)
  case (Cons p ps)
  have "fst p \<le> fst q - snd q" if "q \<in> set ps" for q
  proof -
    have "set (span_of p) \<inter> set (span_of q) = {}" using Cons.prems(1) that by auto
    moreover have "fst p - 1 \<in> set (span_of p)" using Cons.prems(3) by (auto simp: span_of_def)
    ultimately have "fst p - 1 \<notin> set (span_of q)" by blast
    then show ?thesis using Cons.prems(2,3) that by (fastforce simp: span_of_def)
  qed
  then show ?case using Cons by auto
qed simp

lemma total_bound: "le_wf es \<Longrightarrow> length (le_seq es) < u64_bound"
  using length_le_seq [of es] le_at(2) [of es "length es - 1"] by (cases "es = []") (simp_all add: allocation_block_count_def last_conv_nth)

lemma auth_tree_map_new_spec:
  assumes wf: "le_wf es" and d: "distinct (le_seq es)"
  shows "\<exists>m. auth_tree_map_new True es = Ok m \<and> map_wf m \<and> tree_storage m = set (le_seq es)"
proof -
  obtain ps where ps: "push_extents (map (extent_at es) [0..<length es]) = Ok ps" "\<forall>p \<in> set ps. 0 < snd p \<and> snd p \<le> fst p \<and> fst p < u64_bound"
    "concat (map span_of ps) = le_seq es" "sum_list (map snd ps) = length (le_seq es)" using push_extents_all [OF wf, of 0] by auto
  let ?qs = "sort_key fst ps"
  have m: "mset ?qs = mset ps" by simp
  have blocks: "mset (concat (map span_of ?qs)) = mset (le_seq es)"
    using m unfolding ps(3) [symmetric] mset_concat by (metis mset_map sum_mset_sum_list)
  have qs: "\<forall>p \<in> set ?qs. 0 < snd p \<and> snd p \<le> fst p \<and> fst p < u64_bound" using ps(2) by simp
  have ord: "sorted_wrt (\<lambda>p q. fst p \<le> fst q - snd q) ?qs"
    using runs_ordered [of ?qs] mset_eq_imp_distinct_iff [OF blocks] d qs by simp
  have sum: "sum_list (map snd ?qs) < u64_bound"
    using ps(4) length_le_seq [OF wf] m snd_le_count [OF wf] le_at(2) [OF wf] by (metis mset_map sum_mset_sum_list total_bound [OF wf])
  show ?thesis
  proof (cases ?qs)
    case Nil
    then show ?thesis using ps blocks by (auto simp: auth_tree_map_new_def iter_all [OF wf] map_wf_def tree_storage_def)
  next
    case (Cons q qs)
    have "accumulate_loop ?qs 1 (fst q) (snd q) = Ok (accumulated (fst q) (snd q) qs)"
      using accumulate_loop_eq [of qs "snd q" "[]" "fst q"] qs sum by (simp add: Cons)
    moreover have "map_wf_from 0 0 (accumulated (fst q) (snd q) qs) \<and> storage_from 0 (accumulated (fst q) (snd q) qs)
        = {fst q - snd q + 0..<fst q} \<union> set (concat (map span_of qs))"
      by (rule accumulated_wf) (use qs ord in \<open>auto simp: Cons\<close>)
    moreover have "set (le_seq es) = set (span_of q) \<union> set (concat (map span_of qs))"
      using mset_eq_setD [OF blocks] by (simp add: Cons)
    ultimately show ?thesis using ps(1) by (auto simp: auth_tree_map_new_def iter_all [OF wf] map_wf_def tree_storage_def Cons span_of_def Let_def)
  qed
qed

section \<open>Properties\<close>

lemma storage_entry:
  assumes "map_wf_from k a m" "i < length m"
  shows "{key_of (m ! i) + accumulated_at a m i..<fst (m ! i)} \<subseteq> storage_from a m"
  using assms
proof (induction m arbitrary: k a i)
  case (Cons e m)
  then show ?case using Cons.IH [of "Suc (key_of e)" "snd e" "i - 1"] by (cases i) auto
qed simp

lemma storage_card: "map_wf_from k a m \<Longrightarrow> finite (storage_from a m) \<and> card (storage_from a m) + a = accumulated_at a m (length m)"
proof (induction m arbitrary: k a)
  case (Cons e m)
  then have wf: "a < snd e" "snd e \<le> fst e" "map_wf_from (Suc (key_of e)) (snd e) m" by auto
  then have "storage_from (snd e) m \<subseteq> {Suc (key_of e) + snd e..}" using storage_from_ge by blast
  then have disj: "{key_of e + a..<fst e} \<inter> storage_from (snd e) m = {}" using wf(2) by (force simp: key_of_def)
  have IH: "finite (storage_from (snd e) m)" "card (storage_from (snd e) m) + snd e = accumulated_at (snd e) m (length m)"
    using Cons.IH [OF wf(3)] by simp_all
  have "card (storage_from a (e # m)) = (fst e - (key_of e + a)) + card (storage_from (snd e) m)"
    using card_Un_disjoint [OF _ IH(1) disj] by simp
  also have "fst e - (key_of e + a) = snd e - a" using wf(1,2) by (simp add: key_of_def)
  finally show ?case using IH wf(1) by simp
qed simp

lemma total_storage: "map_wf m \<Longrightarrow> total_auth_tree_extents_allocation_blocks m = card (tree_storage m)"
  using storage_card [of 0 0 m]
  by (cases "m = []") (simp_all add: map_wf_def tree_storage_def total_auth_tree_extents_allocation_blocks_def accumulated_at_def last_conv_nth)

text \<open>
  C28: for disjoint extents of the authentication tree's storage the map is built without panics, and a range of
  physical blocks outside of the storage is mapped to the contiguous range of data blocks whose numbers are
  the positions of these blocks in the enumeration of all blocks outside of the storage.
\<close>

theorem map_physical_correct:
  assumes "le_wf es" "distinct (le_seq es)" "range_wf r" "blocks r \<inter> set (le_seq es) = {}"
  shows "\<exists>m b. auth_tree_map_new True es = Ok m
    \<and> map_physical_to_data_allocation_blocks m r = Ok (mk_range b (b + (range_end r - range_begin r)))
    \<and> (\<forall>x < range_end r - range_begin r. enumerate (- set (le_seq es)) (b + x) = range_begin r + x)"
proof -
  obtain m where m: "auth_tree_map_new True es = Ok m" "map_wf m" "tree_storage m = set (le_seq es)"
    using auth_tree_map_new_spec [OF assms(1,2)] by blast
  show ?thesis using map_physical_spec [OF m(2) assms(3)] assms(4) m(1,3) by (auto simp: data_block_at_def)
qed

theorem map_physical_correct_witness:
  "\<exists>m b. auth_tree_map_new True [(6, 2), (2, 4)] = Ok m
    \<and> map_physical_to_data_allocation_blocks m (mk_range 4 6) = Ok (mk_range b (b + 2))
    \<and> (\<forall>x < 2. enumerate (- {2, 3, 6, 7}) (b + x) = 4 + x)"
proof -
  have s: "le_seq [(6, 2), (2, 4)] = [6, 7, 2, 3]" by (simp add: le_seq_def upt_conv_Cons)
  have c: "- set [6, 7, 2, 3] = - {2, 3, 6, 7 :: nat}" by auto
  show ?thesis using map_physical_correct [of "[(6, 2), (2, 4)]" "mk_range 4 6", unfolded s c] by (auto simp: le_wf_def range_wf_def)
qed

text \<open>
  C29: the iterator over a range of data blocks returns, after at most one item per extent of the storage and one more, pieces
  whose data ranges are the range cut into consecutive parts, and whose physical ranges together are the blocks outside of the storage with
  these numbers in order; the range is capped so that no physical block number overflows an \<open>u64\<close>. The documentation of
  \<open>iter_data_range_mapping\<close> and of \<open>translate_data_block_range_to_physical\<close> announces a lower cap, \<open>u64::MAX\<close> bytes
  converted to allocation blocks; the code caps at \<open>u64::MAX\<close> allocation blocks.
\<close>

theorem map_iterator_correct:
  assumes "le_wf es" "distinct (le_seq es)" "range_begin r \<le> range_end r"
  defines "cap \<equiv> u64_bound - 1 - length (le_seq es)"
  shows "\<exists>m it ps. auth_tree_map_new True es = Ok m \<and> iter_data_range_mapping m r = Ok it
    \<and> take_items map_iterator_next (length m + 2) it = Ok ps \<and> length ps \<le> length m + 1
    \<and> piece_data ps = [min (range_begin r) cap..<min (range_end r) cap]
    \<and> piece_blocks ps = map (enumerate (- set (le_seq es))) [min (range_begin r) cap..<min (range_end r) cap]"
proof -
  obtain m where m: "auth_tree_map_new True es = Ok m" "map_wf m" "tree_storage m = set (le_seq es)"
    using auth_tree_map_new_spec [OF assms(1,2)] by blast
  have "total_auth_tree_extents_allocation_blocks m = length (le_seq es)"
    using total_storage [OF m(2)] m(3) distinct_card [OF assms(2)] by simp
  then show ?thesis
    using iter_data_range_mapping_spec [OF m(2) assms(3)] map_iter.take_items_all [of _ "length m + 2"] m(1,3)
    unfolding cap_def data_block_at_def by (metis (no_types, lifting) Suc_eq_plus1 add_2_eq_Suc' le_SucI)
qed

theorem map_iterator_correct_witness:
  "\<exists>m it ps. auth_tree_map_new True [(6, 2), (2, 4)] = Ok m \<and> iter_data_range_mapping m (mk_range 1 6) = Ok it
    \<and> take_items map_iterator_next (length m + 2) it = Ok ps \<and> piece_data ps = [1..<6]
    \<and> piece_blocks ps = map (enumerate (- {2, 3, 6, 7})) [1..<6]"
proof -
  have s: "le_seq [(6, 2), (2, 4)] = [6, 7, 2, 3]" by (simp add: le_seq_def upt_conv_Cons)
  have c: "- set [6, 7, 2, 3] = - {2, 3, 6, 7 :: nat}" by auto
  show ?thesis using map_iterator_correct [of "[(6, 2), (2, 4)]" "mk_range 1 6", unfolded s c] by (auto simp: le_wf_def)
qed

text \<open>
  C31: the lookup of a single data block takes the entry after the last extent of the storage before the block instead of that
  extent. The result is right only for the blocks before all of the storage; it is a different block or, for blocks behind all of the
  storage, an index out of bounds.
\<close>

theorem map_data_to_physical_wrong:
  assumes wf: "map_wf m"
  shows "(data_block_at m d = d \<longrightarrow> map_data_to_physical_allocation_block m d = Ok d)
    \<and> (data_block_at m d \<noteq> d \<longrightarrow> map_data_to_physical_allocation_block m d \<noteq> Ok (data_block_at m d))
    \<and> (data_block_at m d \<noteq> d \<and> (\<forall>t \<in> tree_storage m. t < data_block_at m d) \<longrightarrow> map_data_to_physical_allocation_block m d = Panic)"
proof -
  let ?i = "partition_point (\<lambda>e. key_of e \<le> d) m"
  have wf': "map_wf_from 0 0 m" using wf by (simp add: map_wf_def)
  have at: "data_block_at m d = d + accumulated_at 0 m ?i" using data_block_at_eq [OF wf] phys_from_partition by simp
  have run: "map_data_to_physical_allocation_block m d = (if ?i \<noteq> 0 then and_then (vec_get m ?i) (\<lambda>e. add_u64 d (snd e)) else Ok d)"
    by (simp add: map_data_to_physical_allocation_block_def key_of_def)
  have nz: "?i \<noteq> 0 \<longleftrightarrow> accumulated_at 0 m ?i \<noteq> 0"
  proof (cases "?i = 0")
    case False
    then have "?i - 1 < length m" using partition_point_le [of "\<lambda>e. key_of e \<le> d" m] by linarith
    then show ?thesis using False map_wf_from_nth(2) [OF wf', of "?i - 1"] by (simp add: accumulated_at_def)
  qed simp
  have behind: "?i = length m" if "\<forall>t \<in> tree_storage m. t < data_block_at m d"
  proof (rule ccontr)
    assume "?i \<noteq> length m"
    then have i: "?i < length m" using partition_point_le [of "\<lambda>e. key_of e \<le> d" m] by linarith
    have "d < key_of (m ! ?i)" using partition_point_at [OF i] by simp
    moreover have "key_of (m ! ?i) + accumulated_at 0 m ?i < fst (m ! ?i)"
      using map_wf_from_nth(2,3) [OF wf' i] by (simp add: key_of_def)
    then have "fst (m ! ?i) - 1 \<in> {key_of (m ! ?i) + accumulated_at 0 m ?i..<fst (m ! ?i)}" by simp
    then have "fst (m ! ?i) - 1 \<in> tree_storage m" using storage_entry [OF wf' i] unfolding tree_storage_def by blast
    ultimately show False using that at \<open>key_of (m ! ?i) + accumulated_at 0 m ?i < fst (m ! ?i)\<close> by fastforce
  qed
  have later: "accumulated_at 0 m ?i < snd (m ! ?i)" if "?i < length m" using map_wf_from_nth(2) [OF wf' that] .
  then show ?thesis unfolding run using at nz behind
    by (cases "?i < length m") (auto simp: vec_get_def add_u64_def)
qed

theorem map_data_to_physical_wrong_witness:
  "data_block_at [(4, 2), (8, 4)] 3 = 5 \<and> map_data_to_physical_allocation_block [(4, 2), (8, 4)] 3 \<noteq> Ok 5"
  using map_data_to_physical_wrong [of "[(4, 2), (8, 4)]" 3]
  by (auto simp: map_wf_def key_of_def data_block_at_eq)
end
