(* ===== verification/Auth_Tree_Config.thy ===== *)
theory Auth_Tree_Config
  imports Auth_Tree_Node_Id Auth_Tree_Dimensions Auth_Tree_Map Image_Layout
begin

text \<open>
  The configuration of the authentication tree, \<open>AuthTreeConfig\<close> in \<open>src/storage/src/fs/cocoonfs/auth_tree.rs\<close>: its construction
  from the layout of the image and the extents of the tree, the dimensions for a new image, the translations between physical blocks
  and data blocks, and the location of a node.

  The derivation of keys and the digest over the context of the image are arguments of the constructor, as are the results of the two
  allocations. \<open>usize\<close> has 64 bits. Exponents, which the code keeps in bytes, are numbers: they are checked to be less than 64 before use.
\<close>

section \<open>Digests per node\<close>

fun hash_alg_digest_len :: "tpmi_alg_hash \<Rightarrow> u8" where
  "hash_alg_digest_len Sha1 = 20"
| "hash_alg_digest_len Sha256 = 32"
| "hash_alg_digest_len Sha384 = 48"
| "hash_alg_digest_len Sha512 = 64"
| "hash_alg_digest_len Sha3_256 = 32"
| "hash_alg_digest_len Sha3_384 = 48"
| "hash_alg_digest_len Sha3_512 = 64"
| "hash_alg_digest_len Sm3_256 = 32"

definition digest_len_log2 :: "tpmi_alg_hash \<Rightarrow> nat outcome" where
  "digest_len_log2 alg =
     (case round_up_next_pow2 (ucast (hash_alg_digest_len alg) :: 32 word) of
        None \<Rightarrow> Panic
      | Some p \<Rightarrow> if p = 0 then Panic else Ok (31 - leading_zeros p))"

definition digests_per_node_log2 :: "nat \<Rightarrow> tpmi_alg_hash \<Rightarrow> nat outcome" where
  "digests_per_node_log2 node_size_log2 alg =
     and_then (digest_len_log2 alg) (\<lambda>len_log2.
     if node_size_log2 \<le> len_log2 then Err (FsFormatError InvalidAuthTreeConfig) else Ok (node_size_log2 - len_log2))"

definition check_node_size :: "nat \<Rightarrow> unit outcome" where
  "check_node_size node_size_log2 =
     (if 64 \<le> node_size_log2 then Err (FsFormatError InvalidAuthTreeConfig)
      else if 64 \<le> node_size_log2 then Err (FsFormatError UnsupportedAuthTreeConfig)
      else Ok ())"

definition check_data_block_size :: "nat \<Rightarrow> unit outcome" where
  "check_data_block_size a = (if 32 \<le> a \<or> 64 < (2 ^ a :: nat) then Err (FsFormatError InvalidAuthTreeConfig) else Ok ())"

definition config_image_node_count :: "image_layout \<Rightarrow> nat \<Rightarrow> (nat \<times> nat) outcome" where
  "config_image_node_count layout image_blocks =
     (let b = unat (auth_tree_node_io_blocks_log2 layout) + unat (io_block_allocation_blocks_log2 layout);
          node_size_log2 = b + unat (allocation_block_size_128b_log2 layout) + 7;
          a = unat (auth_tree_data_block_allocation_blocks_log2 layout)
      in and_then (check_node_size node_size_log2) (\<lambda>_.
         and_then (check_data_block_size a) (\<lambda>_.
         and_then (digests_per_node_log2 node_size_log2 (auth_tree_node_hash_alg layout)) (\<lambda>c.
         and_then (digests_per_node_minus_one_inv_mod_u64 c) (\<lambda>inv_u64.
         and_then (digests_per_node_log2 node_size_log2 (auth_tree_data_hmac_hash_alg layout)) (\<lambda>d.
         and_then (image_allocation_blocks_to_auth_tree_levels image_blocks c inv_u64 d b a) (\<lambda>levels.
         image_allocation_blocks_to_auth_tree_node_count image_blocks levels c inv_u64 d b a)))))))"

section \<open>The configuration\<close>

datatype key_purpose = Derivation | AuthenticationRoot | AuthenticationData | PreAuthCcaProtectionAuthentication | Encryption

record auth_tree_config =
  cfg_auth_tree_extents :: logical_extents
  cfg_data_allocation_blocks_map :: auth_tree_map
  cfg_node_digests_per_node_log2 :: nat
  cfg_node_digests_per_node_minus_one_inv_mod_u64 :: u64
  cfg_data_digests_per_node_log2 :: nat
  cfg_auth_tree_levels :: nat
  cfg_max_covered_data_block_count :: nat
  cfg_node_hash_alg :: tpmi_alg_hash
  cfg_node_digest_len :: u8
  cfg_data_hmac_hash_alg :: tpmi_alg_hash
  cfg_data_hmac_key :: "u8 list"
  cfg_data_digest_len :: u8
  cfg_root_hmac_hash_alg :: tpmi_alg_hash
  cfg_root_hmac_key :: "u8 list"
  cfg_allocation_block_size_128b_log2 :: nat
  cfg_node_allocation_blocks_log2 :: nat
  cfg_data_block_allocation_blocks_log2 :: nat
  cfg_image_context_digest :: "u8 list"

fun check_auth_tree_extents :: "nat \<Rightarrow> nat \<Rightarrow> logical_extent list \<Rightarrow> unit outcome" where
  "check_auth_tree_extents io align [] = Ok ()"
| "check_auth_tree_extents io align (x # xs) =
     and_then (physical_range x) (\<lambda>r.
     if \<not> is_aligned_pow2 (of_nat (range_begin r) OR of_nat (range_end r) :: u64) align
     then Err (FsFormatError UnalignedAuthTreeExtents)
     else
       and_then (block_count r) (\<lambda>n.
       if \<not> is_aligned_pow2 (of_nat n :: u64) io then Err (FsFormatError UnalignedAuthTreeExtents)
       else check_auth_tree_extents io align xs))"

definition check_image_covered :: "nat \<Rightarrow> nat \<Rightarrow> nat \<Rightarrow> nat \<Rightarrow> unit outcome" where
  "check_image_covered image_size tree_blocks a max_covered =
     and_then (sub_u64 image_size tree_blocks) (\<lambda>data.
     and_then (shr_u64 data a) (\<lambda>data_blocks.
     and_then (shl_u64 data_blocks a) (\<lambda>whole.
     and_then (if whole \<noteq> data then add_u64 data_blocks 1 else Ok data_blocks) (\<lambda>data_blocks.
     if max_covered < data_blocks then Err (FsFormatError InvalidAuthTreeDimensions) else Ok ()))))"

text \<open>The dimensions of the tree in storage of a number of blocks: its height and the number of data blocks it covers.\<close>

definition config_dimensions :: "nat \<Rightarrow> nat \<Rightarrow> nat \<Rightarrow> nat \<Rightarrow> nat \<Rightarrow> (nat \<times> u64 \<times> nat) outcome" where
  "config_dimensions tree_blocks c d b a =
     and_then (shr_u64 tree_blocks b) (\<lambda>node_count.
     and_then (auth_tree_node_count_to_auth_tree_levels node_count c d a) (\<lambda>levels.
     and_then (digests_per_node_minus_one_inv_mod_u64 c) (\<lambda>inv_u64.
     and_then (auth_tree_node_count_to_max_covered_data_block_count node_count levels c inv_u64 d a) (\<lambda>covered.
     and_then (shr_u64 (u64_bound - 1) a) (\<lambda>limit.
     Ok (levels, inv_u64, min covered limit))))))"

definition auth_tree_config_new ::
  "bool \<Rightarrow> bool \<Rightarrow> (u64 \<Rightarrow> nat \<Rightarrow> key_purpose \<Rightarrow> u8 list outcome)
    \<Rightarrow> (nat \<Rightarrow> tpmi_alg_hash \<Rightarrow> u8 list \<Rightarrow> image_layout \<Rightarrow> nat \<Rightarrow> logical_extents \<Rightarrow> u8 list outcome)
    \<Rightarrow> image_layout \<Rightarrow> nat \<Rightarrow> logical_extents \<Rightarrow> auth_tree_config outcome" where
  "auth_tree_config_new mem_map mem_digest derive_key digest_image_context layout image_size es =
     (let io = unat (io_block_allocation_blocks_log2 layout);
          b = unat (auth_tree_node_io_blocks_log2 layout) + io;
          node_size_log2 = b + unat (allocation_block_size_128b_log2 layout) + 7;
          a = unat (auth_tree_data_block_allocation_blocks_log2 layout);
          tree_blocks = allocation_block_count es;
          root_alg = auth_tree_root_hmac_hash_alg layout
      in if 256 \<le> b then Err (FsFormatError InvalidAuthTreeConfig)
         else
           and_then (check_node_size node_size_log2) (\<lambda>_.
           and_then (check_data_block_size a) (\<lambda>_.
           and_then (digests_per_node_log2 node_size_log2 (auth_tree_node_hash_alg layout)) (\<lambda>c.
           and_then (digests_per_node_log2 node_size_log2 (auth_tree_data_hmac_hash_alg layout)) (\<lambda>d.
           and_then (derive_key 1 0 AuthenticationData) (\<lambda>data_hmac_key.
           and_then (and_then (iter es) range_iterator_collect) (\<lambda>xs.
           and_then (check_auth_tree_extents io (max io a) xs) (\<lambda>_.
           if tree_blocks = 0 then Err (FsFormatError InvalidAuthTreeDimensions)
           else if image_size < tree_blocks then Err (FsFormatError InvalidAuthTreeDimensions)
           else
             and_then (auth_tree_map_new mem_map es) (\<lambda>blocks_map.
             and_then (config_dimensions tree_blocks c d b a) (\<lambda>(levels, inv_u64, max_covered).
             and_then (check_image_covered image_size tree_blocks a max_covered) (\<lambda>_.
             and_then (derive_key 1 0 AuthenticationRoot) (\<lambda>root_hmac_key.
             if \<not> mem_digest then Err MemoryAllocationFailure
             else
               and_then (digest_image_context (unat (hash_alg_digest_len root_alg)) root_alg root_hmac_key layout image_size es) (\<lambda>digest.
               Ok \<lparr>cfg_auth_tree_extents = es,
                   cfg_data_allocation_blocks_map = blocks_map,
                   cfg_node_digests_per_node_log2 = c,
                   cfg_node_digests_per_node_minus_one_inv_mod_u64 = inv_u64,
                   cfg_data_digests_per_node_log2 = d,
                   cfg_auth_tree_levels = levels,
                   cfg_max_covered_data_block_count = max_covered,
                   cfg_node_hash_alg = auth_tree_node_hash_alg layout,
                   cfg_node_digest_len = hash_alg_digest_len (auth_tree_node_hash_alg layout),
                   cfg_data_hmac_hash_alg = auth_tree_data_hmac_hash_alg layout,
                   cfg_data_hmac_key = data_hmac_key,
                   cfg_data_digest_len = hash_alg_digest_len (auth_tree_data_hmac_hash_alg layout),
                   cfg_root_hmac_hash_alg = root_alg,
                   cfg_root_hmac_key = root_hmac_key,
                   cfg_allocation_block_size_128b_log2 = unat (allocation_block_size_128b_log2 layout),
                   cfg_node_allocation_blocks_log2 = b,
                   cfg_data_block_allocation_blocks_log2 = a,
                   cfg_image_context_digest = digest\<rparr>)))))))))))))"

section \<open>Translations and locations\<close>

definition translate_physical_to_data_block_index :: "auth_tree_config \<Rightarrow> nat \<Rightarrow> nat outcome" where
  "translate_physical_to_data_block_index cfg p =
     (let a = cfg_data_block_allocation_blocks_log2 cfg in
      and_then (shl_u64 1 a) (\<lambda>n.
      and_then (block_range_from (index_align_down p a) n) (\<lambda>r.
      and_then (map_physical_to_data_allocation_blocks (cfg_data_allocation_blocks_map cfg) r) (\<lambda>r.
      shr_u64 (range_begin r) a))))"

definition translate_data_block_index_to_physical :: "auth_tree_config \<Rightarrow> nat \<Rightarrow> nat outcome" where
  "translate_data_block_index_to_physical cfg x =
     and_then (shl_u64 x (cfg_data_block_allocation_blocks_log2 cfg))
       (map_data_to_physical_allocation_block (cfg_data_allocation_blocks_map cfg))"

definition translate_data_block_range_to_physical :: "auth_tree_config \<Rightarrow> block_range \<Rightarrow> map_iterator outcome" where
  "translate_data_block_range_to_physical cfg r =
     (let a = cfg_data_block_allocation_blocks_log2 cfg in
      and_then (shl_u64 (range_begin r) a) (\<lambda>b.
      and_then (shl_u64 (range_end r) a) (\<lambda>e.
      and_then (block_range_new b e) (iter_data_range_mapping (cfg_data_allocation_blocks_map cfg)))))"

definition covering_leaf_node_id :: "auth_tree_config \<Rightarrow> u64 \<Rightarrow> auth_tree_node_id" where
  "covering_leaf_node_id cfg x = node_id_new x 0 (cfg_node_digests_per_node_log2 cfg) (cfg_data_digests_per_node_log2 cfg)"

definition single_extent_of :: "logical_extents_range_iterator option \<Rightarrow> block_range outcome" where
  "single_extent_of it_opt =
     (case it_opt of None \<Rightarrow> nvfs_err_internal
      | Some it \<Rightarrow>
        and_then (range_iterator_next it) (\<lambda>(extent, it).
        case extent of None \<Rightarrow> nvfs_err_internal
        | Some extent \<Rightarrow>
          and_then (range_iterator_next it) (\<lambda>(more, it).
          case more of None \<Rightarrow> physical_range extent | Some _ \<Rightarrow> nvfs_err_internal)))"

definition node_physical_location :: "auth_tree_config \<Rightarrow> auth_tree_node_id \<Rightarrow> block_range outcome" where
  "node_physical_location cfg n =
     debug_assert (node_level n < cfg_auth_tree_levels cfg) (
     if cfg_max_covered_data_block_count cfg \<le> unat (covered_data_blocks_begin n)
     then Err (FsFormatError BlockOutOfRange)
     else
       and_then (auth_tree_node_dfs_pre_index (unat (covered_data_blocks_begin n)) (node_level n) (cfg_auth_tree_levels cfg)
           (cfg_node_digests_per_node_log2 cfg) (cfg_node_digests_per_node_minus_one_inv_mod_u64 cfg)
           (cfg_data_digests_per_node_log2 cfg)) (\<lambda>(dfs_pre_node_index, _).
       and_then (shl_u64 dfs_pre_node_index (cfg_node_allocation_blocks_log2 cfg)) (\<lambda>logical_begin.
       and_then (shl_u64 1 (cfg_node_allocation_blocks_log2 cfg)) (\<lambda>node_blocks.
       and_then (add_u64 logical_begin node_blocks) (\<lambda>logical_end.
       and_then (block_range_new logical_begin logical_end) (\<lambda>r.
       and_then (iter_range (cfg_auth_tree_extents cfg) r) single_extent_of))))))"

section \<open>The invariant of a configuration\<close>

lemma digest_len_log2_cases: "digest_len_log2 alg = Ok 5 \<or> digest_len_log2 alg = Ok 6"
  by (cases alg; simp only:; code_simp)

lemma digests_per_node_bounds:
  assumes "digests_per_node_log2 s alg = Ok c" "s < 64"
  shows "1 \<le> c" "c \<le> 58"
  using assms digest_len_log2_cases [of alg] by (auto simp: digests_per_node_log2_def split: if_splits)

lemma check_data_block_size_bound:
  assumes "check_data_block_size a = Ok u"
  shows "a \<le> 6"
proof -
  have "\<not> 64 < (2 ^ a :: nat)" using assms by (metis check_data_block_size_def outcome.distinct(1))
  then show ?thesis by simp
qed

lemma levels_bounds:
  assumes n: "1 \<le> n" "n < u64_bound" and c: "1 \<le> c" "c < 64" and d: "1 \<le> d" "d < 64" "d + a \<le> 64"
    and L: "auth_tree_node_count_to_auth_tree_levels n c d a = Ok levels"
  shows "shape_ok c d levels"
proof -
  let ?M = "min 64 (64 - d - a + c)"
  have eq: "levels = min (Suc (LEAST l. n \<le> nodes c l)) (div_ceil_u32 ?M c)"
    using auth_tree_levels_spec [OF n c d(3)] L by simp
  have "\<not> div_ceil_u32 ?M c \<le> 0" using div_ceil_le_iff [of c ?M 0] c by simp
  then have L1: "1 \<le> levels" using eq by simp
  then have "levels - 1 < div_ceil_u32 ?M c" using eq by linarith
  then have lim: "c * (levels - 1) < ?M" using div_ceil_le_iff [of c ?M "levels - 1"] c by linarith
  have "(levels - 2) * c + d < 64"
  proof (cases "levels \<le> 1")
    case False
    then have "c * (levels - 1) = c * (levels - 2) + c" by (cases levels; cases "levels - 1") auto
    moreover have "(levels - 2) * c = c * (levels - 2)" by simp
    ultimately show ?thesis using lim d by linarith
  qed (use d in simp)
  then show ?thesis using L1 lim c d by (simp add: shape_ok_def height_ok_def)
qed

definition tree_node_count :: "auth_tree_config \<Rightarrow> nat" where
  "tree_node_count cfg = allocation_block_count (cfg_auth_tree_extents cfg) div 2 ^ cfg_node_allocation_blocks_log2 cfg"

text \<open>What the other operations rely on in a configuration.\<close>

definition config_wf :: "auth_tree_config \<Rightarrow> bool" where
  "config_wf cfg \<longleftrightarrow>
     (let c = cfg_node_digests_per_node_log2 cfg; d = cfg_data_digests_per_node_log2 cfg; a = cfg_data_block_allocation_blocks_log2 cfg;
          levels = cfg_auth_tree_levels cfg; inv_u64 = cfg_node_digests_per_node_minus_one_inv_mod_u64 cfg
      in shape_ok c d levels \<and> digests_per_node_minus_one_inv_mod_u64 c = Ok inv_u64 \<and> a \<le> 6 \<and> cfg_node_allocation_blocks_log2 cfg < 57
         \<and> 1 \<le> tree_node_count cfg \<and> auth_tree_node_count_to_auth_tree_levels (tree_node_count cfg) c d a = Ok levels
         \<and> (\<exists>covered. auth_tree_node_count_to_max_covered_data_block_count (tree_node_count cfg) levels c inv_u64 d a = Ok covered
              \<and> cfg_max_covered_data_block_count cfg = min covered ((u64_bound - 1) div 2 ^ a)))"

lemma config_dimensions_spec:
  assumes dim: "config_dimensions t c d b a = Ok (levels, inv_u64, m)" and c: "1 \<le> c" "c \<le> 58" and d: "1 \<le> d" "d \<le> 58" and a: "a \<le> 6" and t: "t < u64_bound"
  shows "shape_ok c d levels \<and> digests_per_node_minus_one_inv_mod_u64 c = Ok inv_u64 \<and> 1 \<le> t div 2 ^ b
    \<and> auth_tree_node_count_to_auth_tree_levels (t div 2 ^ b) c d a = Ok levels
    \<and> (\<exists>covered. auth_tree_node_count_to_max_covered_data_block_count (t div 2 ^ b) levels c inv_u64 d a = Ok covered \<and> m = min covered ((u64_bound - 1) div 2 ^ a))"
proof -
  from dim obtain covered where L: "auth_tree_node_count_to_auth_tree_levels (t div 2 ^ b) c d a = Ok levels"
    and rest: "digests_per_node_minus_one_inv_mod_u64 c = Ok inv_u64" "m = min covered ((u64_bound - 1) div 2 ^ a)"
      "auth_tree_node_count_to_max_covered_data_block_count (t div 2 ^ b) levels c inv_u64 d a = Ok covered"
    by (auto simp: config_dimensions_def outcome_simps)
  have n: "1 \<le> t div 2 ^ b" using L by (cases "t div 2 ^ b") (auto simp: auth_tree_node_count_to_auth_tree_levels_def)
  have "t div 2 ^ b < u64_bound" using t by (meson div_le_dividend le_less_trans)
  with n have "shape_ok c d levels" using c d a by (intro levels_bounds [OF n _ _ _ _ _ _ L]) auto
  then show ?thesis using n L rest by blast
qed

lemma config_new_parts:
  assumes "auth_tree_config_new mm md derive_key ctx layout image_size es = Ok cfg"
  shows "\<exists>s u. s < 64 \<and> cfg_node_allocation_blocks_log2 cfg + 7 \<le> s \<and> check_data_block_size (cfg_data_block_allocation_blocks_log2 cfg) = Ok u
    \<and> digests_per_node_log2 s (auth_tree_node_hash_alg layout) = Ok (cfg_node_digests_per_node_log2 cfg)
    \<and> digests_per_node_log2 s (auth_tree_data_hmac_hash_alg layout) = Ok (cfg_data_digests_per_node_log2 cfg)
    \<and> cfg_auth_tree_extents cfg = es \<and> auth_tree_map_new mm es = Ok (cfg_data_allocation_blocks_map cfg)
    \<and> config_dimensions (allocation_block_count es) (cfg_node_digests_per_node_log2 cfg) (cfg_data_digests_per_node_log2 cfg)
        (cfg_node_allocation_blocks_log2 cfg) (cfg_data_block_allocation_blocks_log2 cfg)
      = Ok (cfg_auth_tree_levels cfg, cfg_node_digests_per_node_minus_one_inv_mod_u64 cfg, cfg_max_covered_data_block_count cfg)"
  using assms unfolding auth_tree_config_new_def Let_def
  by (intro exI [of _ "unat (auth_tree_node_io_blocks_log2 layout) + unat (io_block_allocation_blocks_log2 layout)
      + unat (allocation_block_size_128b_log2 layout) + 7"] exI)
    (auto simp: outcome_simps check_node_size_def split: if_splits)

lemma count_bound: "le_wf es \<Longrightarrow> allocation_block_count es < u64_bound"
  by (cases es rule: rev_cases) (auto simp: allocation_block_count_def le_wf_def)

lemma config_new_wf_spec:
  assumes "auth_tree_config_new mm md derive_key ctx layout image_size es = Ok cfg" "le_wf es"
  shows "config_wf cfg"
proof -
  obtain s u where s: "s < 64" "cfg_node_allocation_blocks_log2 cfg + 7 \<le> s" "check_data_block_size (cfg_data_block_allocation_blocks_log2 cfg) = Ok u"
    "digests_per_node_log2 s (auth_tree_node_hash_alg layout) = Ok (cfg_node_digests_per_node_log2 cfg)"
    "digests_per_node_log2 s (auth_tree_data_hmac_hash_alg layout) = Ok (cfg_data_digests_per_node_log2 cfg)" "cfg_auth_tree_extents cfg = es"
    and dim: "config_dimensions (allocation_block_count es) (cfg_node_digests_per_node_log2 cfg) (cfg_data_digests_per_node_log2 cfg)
        (cfg_node_allocation_blocks_log2 cfg) (cfg_data_block_allocation_blocks_log2 cfg)
      = Ok (cfg_auth_tree_levels cfg, cfg_node_digests_per_node_minus_one_inv_mod_u64 cfg, cfg_max_covered_data_block_count cfg)"
    using config_new_parts [OF assms(1)] by (elim exE conjE)
  note a = check_data_block_size_bound [OF s(3)]
  from config_dimensions_spec [OF dim digests_per_node_bounds [OF s(4,1)] digests_per_node_bounds [OF s(5,1)] a count_bound [OF assms(2)]]
  show ?thesis using a s(1,2) unfolding config_wf_def Let_def tree_node_count_def s(6) by simp
qed

section \<open>The storage of a node\<close>

lemma single_extent_location:
  assumes wf: "le_wf [(p, N)]" and q: "b < e" "e \<le> N"
  shows "and_then (iter_range [(p, N)] (mk_range b e)) single_extent_of = Ok (mk_range (p + b) (p + e))"
proof -
  obtain f t where "lookup_range [(p, N)] (mk_range b e) = Ok (Some \<lparr>range_index_first = f, range_index_last = t,
      range_offset_in_first = b - entry_begin [(p, N)] f, range_end_in_last = e - entry_begin [(p, N)] t\<rparr>)" "f = 0" "t = 0"
    using lookup_range_spec [OF wf, of "mk_range b e"] q by (auto simp: allocation_block_count_def)
  then have it: "iter_range [(p, N)] (mk_range b e) = Ok (Some \<lparr>it_extents = [(p, N)], it_range = Some \<lparr>range_index_first = 0, range_index_last = 0,
      range_offset_in_first = b, range_end_in_last = e\<rparr>, it_index = 0\<rparr>)"
    by (simp add: iter_range_def range_iterator_new_def)
  have lim: "p + N < u64_bound" "N < u64_bound" using wf by (simp_all add: le_wf_def)
  show ?thesis
    unfolding it using q lim by (simp add: single_extent_of_def range_iterator_next_def Let_def entry_logical_range_def physical_range_def block_range_new_def mk_range_def)
qed

lemma node_location_spec:
  fixes x :: u64
  assumes wf: "config_wf cfg" and es: "cfg_auth_tree_extents cfg = es" "le_wf es"
    and n: "tree_node_count cfg \<le> nodes (cfg_node_digests_per_node_log2 cfg) (cfg_auth_tree_levels cfg - 1)"
    and l: "level < cfg_auth_tree_levels cfg" and x: "unat x < cfg_max_covered_data_block_count cfg"
  defines "c \<equiv> cfg_node_digests_per_node_log2 cfg" and "d \<equiv> cfg_data_digests_per_node_log2 cfg" and "b \<equiv> cfg_node_allocation_blocks_log2 cfg"
    and "levels \<equiv> cfg_auth_tree_levels cfg"
  shows "\<exists>i < tree_node_count cfg. preorder c d (levels - 1) 0 ! i = (level, unat x - unat x mod 2 ^ (level * c + d)) \<and> (i + 1) * 2 ^ b \<le> allocation_block_count es
    \<and> node_physical_location cfg (node_id_new x level c d) = and_then (iter_range es (mk_range (i * 2 ^ b) ((i + 1) * 2 ^ b))) single_extent_of"
proof -
  let ?n = "tree_node_count cfg" and ?y = "unat (covered_data_blocks_begin (node_id_new x level c d))"
  have sh: "shape_ok c d levels" and inv: "digests_per_node_minus_one_inv_mod_u64 c = Ok (cfg_node_digests_per_node_minus_one_inv_mod_u64 cfg)"
    and b: "b < 57" and n1: "1 \<le> ?n" and L: "auth_tree_node_count_to_auth_tree_levels ?n c d (cfg_data_block_allocation_blocks_log2 cfg) = Ok levels"
    and cov: "\<exists>covered. auth_tree_node_count_to_max_covered_data_block_count ?n levels c (cfg_node_digests_per_node_minus_one_inv_mod_u64 cfg) d
        (cfg_data_block_allocation_blocks_log2 cfg) = Ok covered \<and> cfg_max_covered_data_block_count cfg \<le> covered"
    using wf unfolding config_wf_def Let_def c_def d_def b_def levels_def by auto
  note inv_u64 = inverse_mask [OF sh inv]
  have y: "?y = unat x - unat x mod 2 ^ (level * c + d)"
  proof (cases "level * c + d < 64")
    case True
    then show ?thesis using unat_clear_low [OF True, of x] by (simp add: node_id_new_def level_covered_data_block_index_bits_def)
  next
    case False
    then have "unat x < 2 ^ (level * c + d)" using unsigned_less [of x, where 'a = nat] power_increasing [of 64 "level * c + d" "2 :: nat"] by simp
    then show ?thesis using False by (simp add: node_id_new_def level_covered_data_block_index_bits_def)
  qed
  then have yx: "?y < cfg_max_covered_data_block_count cfg" using x by linarith
  have "?y < 2 ^ d * leaf_count c (levels - 1) ?n"
    using cov yx max_covered_spec [OF sh inv_u64 L n1 n [folded c_def levels_def]] by auto
  from covered_pre_pos [OF sh n [folded c_def levels_def] this l [folded levels_def]]
  have yb: "?y < 2 ^ ((levels - 1) * c + d)" and pos: "pre_pos c d level (levels - 1 - level) ?y < ?n" by simp_all
  let ?i = "pre_pos c d level (levels - 1 - level) ?y"
  have "Suc ?i * 2 ^ b \<le> ?n * 2 ^ b" using pos by (intro mult_le_mono1) simp
  also have "\<dots> \<le> allocation_block_count es" by (simp add: tree_node_count_def es(1) b_def)
  finally have top: "(?i + 1) * 2 ^ b \<le> allocation_block_count es" by simp
  note N = count_bound [OF es(2)]
  have "preorder c d (levels - 1) 0 ! ?i = (level, ?y - ?y mod 2 ^ (level * c + d))"
    using preorder_position [of level "levels - 1" c d 0 ?y] yb l by (simp add: levels_def)
  moreover have "?y mod 2 ^ (level * c + d) = 0" unfolding y minus_mod_eq_div_mult by simp
  moreover have "node_physical_location cfg (node_id_new x level c d) = and_then (iter_range es (mk_range (?i * 2 ^ b) ((?i + 1) * 2 ^ b))) single_extent_of"
  proof -
    have lv: "node_level (node_id_new x level c d) = level" by (simp add: node_id_new_def Let_def)
    have lims: "?i * 2 ^ b < u64_bound" "(2 :: nat) ^ b < u64_bound" "?i * 2 ^ b + 2 ^ b < u64_bound" "?i * 2 ^ b < ?i * 2 ^ b + 2 ^ b"
      using top N zero_less_power [of "2 :: nat" b] unfolding distrib_right by simp_all
    have "block_range_new (?i * 2 ^ b) (?i * 2 ^ b + 2 ^ b) = Ok (mk_range (?i * 2 ^ b) (?i * 2 ^ b + 2 ^ b))"
      by (simp add: block_range_new_def mk_range_def)
    then show ?thesis
      using dfs_pre_index_spec [OF sh l [folded levels_def] yb inv_u64] yx l b lims
      unfolding node_physical_location_def lv es(1) c_def [symmetric] d_def [symmetric] b_def [symmetric] levels_def [symmetric]
      by (simp add: add.assoc add.commute [of "2 ^ b"])
  qed
  ultimately show ?thesis using pos top y by (intro exI [of _ ?i]) simp
qed

lemma second_extent_location:
  assumes wf: "le_wf es" and q: "snd (es ! 0) \<le> b" "b < e" "e \<le> allocation_block_count es"
  shows "and_then (iter_range es (mk_range b e)) single_extent_of = Panic"
proof -
  have "range_begin (mk_range b e) < range_end (mk_range b e)" "range_end (mk_range b e) \<le> allocation_block_count es" using q by simp_all
  from lookup_range_spec [OF wf this] obtain f t where
    r: "lookup_range es (mk_range b e) = Ok (Some \<lparr>range_index_first = f, range_index_last = t,
      range_offset_in_first = b - entry_begin es f, range_end_in_last = e - entry_begin es t\<rparr>)"
    and ft: "f \<le> t" "t < length es" and bf: "entry_begin es f \<le> b" "b < snd (es ! f)" and et: "entry_begin es t < e" "e \<le> snd (es ! t)"
    by auto
  have f: "f \<noteq> 0" using q(1) bf by (metis linorder_not_le)
  let ?r = "\<lparr>range_index_first = f, range_index_last = t, range_offset_in_first = b - entry_begin es f, range_end_in_last = e - entry_begin es t\<rparr>"
  have step: "\<exists>x. range_iterator_next \<lparr>it_extents = es, it_range = Some ?r, it_index = i\<rparr> = Ok (Some x, \<lparr>it_extents = es, it_range = Some ?r, it_index = Suc i\<rparr>)"
    if "i \<le> t" for i using range_iterator_next_entry [OF wf ft(2) bf q(2) et that refl] by blast
  have "0 \<le> t" "Suc 0 \<le> t" using f ft(1) by simp_all
  from step [OF this(1)] step [OF this(2)] show ?thesis by (auto simp: iter_range_def r range_iterator_new_def single_extent_of_def)
qed

section \<open>Dimensions of a new image\<close>

lemma levels_of_node_count:
  assumes c: "1 \<le> c" "c < 64" and n: "nodes c l < n" "n \<le> nodes c (Suc l)" "n < u64_bound" and s: "c \<le> d + a" "l * c + d + a < 64"
  shows "auth_tree_node_count_to_auth_tree_levels n c d a = Ok (Suc (Suc l))"
proof -
  let ?M = "min 64 (64 - d - a + c)"
  have least: "(LEAST l. n \<le> nodes c l) = Suc l"
  proof (rule Least_equality)
    show "n \<le> nodes c (Suc l)" by (rule n(2))
  next
    fix k assume k: "n \<le> nodes c k"
    show "Suc l \<le> k"
    proof (rule ccontr)
      assume "\<not> Suc l \<le> k"
      then have "nodes c k \<le> nodes c l" by (intro nodes_mono) simp
      then show False using k n(1) by simp
    qed
  qed
  have "c * Suc l < ?M" using s by (simp add: mult.commute)
  then have "Suc (Suc l) \<le> div_ceil_u32 ?M c" using div_ceil_le_iff [of c ?M "Suc l"] c by linarith
  then show ?thesis using auth_tree_levels_spec [OF _ n(3) c, of d a] n(1) s(2) least by simp
qed

lemma image_covered:
  assumes a: "a < 64" and data: "D \<le> k * 2 ^ a" "t + D < u64_bound" and m: "k \<le> m \<or> D \<le> m"
  shows "check_image_covered (t + D) t a m = Ok ()"
proof -
  let ?q = "D div 2 ^ a"
  have q: "?q * 2 ^ a + D mod 2 ^ a = D" by (rule div_mult_mod_eq)
  have "?q * 1 \<le> ?q * 2 ^ a" by (intro mult_le_mono2) simp
  then have qD: "?q \<le> D" "?q * 2 ^ a \<noteq> D \<Longrightarrow> ?q + 1 \<le> D" "?q * 2 ^ a \<le> D" using q by linarith+
  have "?q \<le> k" using div_le_mono [OF data(1), of "2 ^ a"] by simp
  moreover have "?q + 1 \<le> k" if "?q * 2 ^ a \<noteq> D" 
  proof (rule ccontr)
    assume "\<not> ?q + 1 \<le> k"
    then have "k * 2 ^ a \<le> ?q * 2 ^ a" by (intro mult_le_mono1) simp
    then show False using data(1) that q by linarith
  qed
  ultimately have "(if ?q * 2 ^ a \<noteq> D then ?q + 1 else ?q) \<le> k" by simp
  moreover have "(if ?q * 2 ^ a \<noteq> D then ?q + 1 else ?q) \<le> D" using qD by simp
  ultimately have "(if ?q * 2 ^ a \<noteq> D then ?q + 1 else ?q) \<le> m" using m by (meson order_trans)
  moreover have "?q * 2 ^ a < u64_bound" "?q * 2 ^ a \<noteq> D \<Longrightarrow> ?q + 1 < u64_bound" using qD data(2) by linarith+
  ultimately show ?thesis using a data by (auto simp: check_image_covered_def split: if_splits)
qed

lemma new_image_accepted:
  assumes c: "1 \<le> c" "c < 64" and b: "b < 64" and d: "1 \<le> d" "d < 64" and inv: "digests_per_node_minus_one_inv_mod_u64 c = Ok r" and g: "d \<le> c" "c \<le> d + a" "a \<le> 6"
    and I: "tree_capacity c d b a l + 2 ^ b \<le> I" "I \<le> tree_capacity c d b a (Suc l)" "I < 2 ^ 57"
  shows "\<exists>n rest m. image_allocation_blocks_to_auth_tree_node_count I (Suc (Suc l)) c r d b a = Ok (n, rest) \<and> rest < I
    \<and> config_dimensions (n * 2 ^ b) c d b a = Ok (Suc (Suc l), r, m) \<and> check_image_covered (I - rest) (n * 2 ^ b) a m = Ok ()"
proof -
  define e where "e = d + a - c"
  have e: "c + e = d + a" "e \<le> a" using g by (simp_all add: e_def)
  have Ib: "I < u64_bound" using I(3) by simp
  note inv_u64 = digest_inverse_mask [OF c inv]
  obtain n rest where n: "image_allocation_blocks_to_auth_tree_node_count I (Suc (Suc l)) c r d b a = Ok (n, rest)"
    "nodes c l < n" "split_blocks c b e (Suc l) I n rest"
    using node_count_spec [OF c b inv_u64 e I(1,2) Ib] by blast
  then obtain D where D: "n \<le> nodes c (Suc l)" "I = n * 2 ^ b + D * 2 ^ e + rest" "D \<le> 2 ^ c * leaf_count c (Suc l) n"
    unfolding split_blocks_def by blast
  have "(2 :: nat) ^ (l * c + d + a) < 2 ^ 64" using I(1) Ib unfolding tree_capacity_def by linarith
  then have X: "l * c + d + a < 64" by (simp only: power_strict_increasing_iff rel_simps)
  have nb: "1 \<le> n" "n < u64_bound" "n * 2 ^ b < u64_bound"
  proof -
    have "n * 1 \<le> n * 2 ^ b" by (intro mult_le_mono2) simp
    then show "1 \<le> n" "n < u64_bound" "n * 2 ^ b < u64_bound" using n(2) D(2) Ib by linarith+
  qed
  note L = levels_of_node_count [OF c n(2) D(1) nb(2) g(2) X]
  have sh: "shape_ok c d (Suc (Suc l))" using X d by (intro levels_bounds [OF nb(1,2) c _ _ _ L]) simp_all
  let ?k = "2 ^ d * leaf_count c (Suc l) n"
  have cov: "auth_tree_node_count_to_max_covered_data_block_count n (Suc (Suc l)) c r d a = Ok (min (u64_bound - 1) ?k)"
    using max_covered_spec [OF sh inv_u64 L nb(1)] D(1) by simp
  let ?m = "min (min (u64_bound - 1) ?k) ((u64_bound - 1) div 2 ^ a)"
  have dim: "config_dimensions (n * 2 ^ b) c d b a = Ok (Suc (Suc l), r, ?m)"
    using b g(3) L cov inv by (simp add: config_dimensions_def)
  have "D * 2 ^ e \<le> 2 ^ c * leaf_count c (Suc l) n * 2 ^ e" using D(3) by (rule mult_le_mono1)
  also have "\<dots> = leaf_count c (Suc l) n * 2 ^ (c + e)" by (simp add: power_add)
  finally have De: "D * 2 ^ e \<le> ?k * 2 ^ a" unfolding e(1) by (simp add: power_add mult.commute mult.left_commute)
  have "(u64_bound - 1) div 2 ^ 6 \<le> (u64_bound - 1) div 2 ^ a" using g(3) by (intro div_le_mono2 power_increasing) auto
  then have lim: "D * 2 ^ e \<le> (u64_bound - 1) div 2 ^ a" "D * 2 ^ e \<le> u64_bound - 1" using D(2) I(3) by simp_all
  have m: "?k \<le> ?m \<or> D * 2 ^ e \<le> ?m" using lim by linarith
  have "check_image_covered (n * 2 ^ b + D * 2 ^ e) (n * 2 ^ b) a ?m = Ok ()"
    using De m D(2) Ib g(3) by (intro image_covered) auto
  moreover have "I - rest = n * 2 ^ b + D * 2 ^ e" "rest < I" using D(2) nb(1) by simp_all
  ultimately show ?thesis using n(1) dim by (metis)
qed

definition small_layout :: "tpmi_alg_hash \<Rightarrow> tpmi_alg_hash \<Rightarrow> image_layout" where
  "small_layout node_alg data_alg =
     \<lparr>allocation_block_size_128b_log2 = 0, io_block_allocation_blocks_log2 = 0, auth_tree_node_io_blocks_log2 = 0,
      auth_tree_data_block_allocation_blocks_log2 = 0, allocation_bitmap_file_block_allocation_blocks_log2 = 0,
      index_tree_leaf_node_allocation_blocks_log2 = 0, index_tree_internal_node_allocation_blocks_log2 = 0,
      auth_tree_node_hash_alg = node_alg, auth_tree_data_hmac_hash_alg = data_alg, auth_tree_root_hmac_hash_alg = Sha256,
      preauth_cca_protection_hmac_hash_alg = Sha256, kdf_hash_alg = Sha256, block_cipher_alg = AesCipher Aes256\<rparr>"

definition sample_new :: "image_layout \<Rightarrow> nat \<Rightarrow> logical_extents \<Rightarrow> auth_tree_config outcome" where
  "sample_new = auth_tree_config_new True True (\<lambda>_ _ _. Ok []) (\<lambda>_ _ _ _ _ _. Ok [])"

lemma small_digests: "digests_per_node_log2 7 Sha256 = Ok 2" "digests_per_node_log2 7 Sha512 = Ok 1"
  by code_simp+

lemma extents_aligned_0:
  assumes "\<And>x. x \<in> set xs \<Longrightarrow> \<exists>r. physical_range x = Ok r"
  shows "check_auth_tree_extents 0 0 xs = Ok ()"
  using assms
proof (induction xs)
  case (Cons x xs)
  obtain r where r: "physical_range x = Ok r" using Cons.prems [of x] by auto
  then have "range_begin r \<le> range_end r" by (auto simp: physical_range_def outcome_simps block_range_new_def split: if_splits)
  then show ?case using Cons r by (simp add: is_aligned_pow2_def block_count_def trailing_bits_mask_eq_mask)
qed simp

lemma small_config:
  assumes es: "le_wf es" "distinct (le_seq es)" "0 < allocation_block_count es" "allocation_block_count es \<le> image_size"
    and dim: "config_dimensions (allocation_block_count es) 2 2 0 0 = Ok (levels, r, m)"
  shows "\<exists>bm. auth_tree_map_new True es = Ok bm \<and> sample_new (small_layout Sha256 Sha256) image_size es =
    and_then (check_image_covered image_size (allocation_block_count es) 0 m) (\<lambda>_.
      Ok \<lparr>cfg_auth_tree_extents = es, cfg_data_allocation_blocks_map = bm, cfg_node_digests_per_node_log2 = 2,
          cfg_node_digests_per_node_minus_one_inv_mod_u64 = r, cfg_data_digests_per_node_log2 = 2, cfg_auth_tree_levels = levels,
          cfg_max_covered_data_block_count = m, cfg_node_hash_alg = Sha256, cfg_node_digest_len = 32, cfg_data_hmac_hash_alg = Sha256,
          cfg_data_hmac_key = [], cfg_data_digest_len = 32, cfg_root_hmac_hash_alg = Sha256, cfg_root_hmac_key = [],
          cfg_allocation_block_size_128b_log2 = 0, cfg_node_allocation_blocks_log2 = 0, cfg_data_block_allocation_blocks_log2 = 0,
          cfg_image_context_digest = []\<rparr>)"
proof -
  obtain bm where bm: "auth_tree_map_new True es = Ok bm" using auth_tree_map_new_spec [OF es(1,2)] by blast
  have "check_auth_tree_extents 0 0 (map (extent_at es) [0..<length es]) = Ok ()"
    using le_at [OF es(1)] by (intro extents_aligned_0) (fastforce simp: physical_range_def extent_at_def)
  then show ?thesis
    using bm dim es(3,4) by (simp add: sample_new_def auth_tree_config_new_def small_layout_def Let_def check_node_size_def check_data_block_size_def small_digests iter_all [OF es(1)])
qed

lemma levels_23: 
  assumes "trailing_bits_mask 2 * r = (1 :: u64)"
  shows "image_allocation_blocks_to_auth_tree_levels 23 2 r 2 0 0 = Ok 2"
proof -
  have q: "required_leaves 23 2 2 0 0 = Ok 5" by (simp add: required_leaves_def add_rounded_up_def shl_u64_def sub_u64_def add_u64_def mul_u64_def div_u64_def)
  have "height_ok 2 (Suc (Suc 0))" by (simp add: height_ok_def)
  from auth_subtree_node_count_spec [OF this _ assms, of 1] have s: "auth_subtree_node_count (Suc 0) 2 2 r = Ok 5" by (simp add: eval_nat_numeral)
  have l: "div_ceil_u32 (ilog2_u64 4 + 1) 2 = 2" by code_simp
  show ?thesis using s by (simp add: image_allocation_blocks_to_auth_tree_levels_def q settle_levels_def l [simplified])
qed

lemma count_23: 
  assumes "trailing_bits_mask 2 * r = (1 :: u64)"
  shows "image_allocation_blocks_to_auth_tree_node_count 23 2 2 r 2 0 0 = Ok (6, 0)"
proof -
  have "height_ok 2 (Suc 0)" by (simp add: height_ok_def)
  from auth_subtree_node_count_spec [OF this _ assms, of 0] have s: "auth_subtree_node_count 0 (Suc 0) 2 r = Ok 1" by (simp add: eval_nat_numeral)
  have "tree_count_loop 2 0 (Suc (Suc 0)) 0 1 4 23 = Ok (0, 6, 0)"
    by (simp add: shl_u64_def shr_u64_def add_u64_def sub_u64_def mul_u64_def div_u64_def)
  then have "tree_count_loop 2 0 2 0 1 4 23 = Ok (0, 6, 0)" by (simp only: Suc_1 One_nat_def [symmetric])
  then show ?thesis by (simp add: image_allocation_blocks_to_auth_tree_node_count_def s)
qed

lemma small_dimensions:
  assumes r: "digests_per_node_minus_one_inv_mod_u64 2 = Ok r"
  shows "config_dimensions 5 2 2 0 0 = Ok (2, r, 16)" "config_dimensions 6 2 2 0 0 = Ok (3, r, 16)"
proof -
  have two: "2 - 1 = Suc 0" "3 - 1 = Suc (Suc 0)" by simp_all
  have n: "nodes 2 (2 - 1) = 5" "nodes 2 (3 - 1) = 21" unfolding two by simp_all
  have inv: "trailing_bits_mask 2 * r = (1 :: u64)" using digest_inverse_mask [OF _ _ r] by simp
  have l: "auth_tree_node_count_to_auth_tree_levels 5 2 2 0 = Ok 2" "auth_tree_node_count_to_auth_tree_levels 6 2 2 0 = Ok 3"
    using levels_of_node_count [of 2 0 5 2 0] levels_of_node_count [of 2 1 6 2 0] by (simp_all add: numeral_3_eq_3)
  have sh: "shape_ok 2 2 2" "shape_ok 2 2 3" by (simp_all add: shape_ok_def height_ok_def)
  have lc: "leaf_count 2 (2 - 1) 5 = 4" "leaf_count 2 (3 - 1) 6 = 4" unfolding two
    using leaf_count_append [of 0 2 0 4] leaf_count_append [of 0 2 "Suc 0" 1] by (simp_all del: leaf_count.simps)
  have cov: "auth_tree_node_count_to_max_covered_data_block_count 5 2 2 r 2 0 = Ok 16" "auth_tree_node_count_to_max_covered_data_block_count 6 3 2 r 2 0 = Ok 16"
    using max_covered_spec [OF sh(1) inv l(1)] max_covered_spec [OF sh(2) inv l(2)] unfolding n lc by simp_all
  show "config_dimensions 5 2 2 0 0 = Ok (2, r, 16)" "config_dimensions 6 2 2 0 0 = Ok (3, r, 16)"
    using l r cov by (simp_all add: config_dimensions_def)
qed

lemma sample_config:
  assumes "le_wf es" "distinct (le_seq es)" "allocation_block_count es = 5"
  obtains cfg where "sample_new (small_layout Sha256 Sha256) 21 es = Ok cfg" "cfg_node_digests_per_node_log2 cfg = 2" "cfg_data_digests_per_node_log2 cfg = 2"
    "cfg_auth_tree_levels cfg = 2" "cfg_max_covered_data_block_count cfg = 16" "cfg_node_allocation_blocks_log2 cfg = 0" "cfg_auth_tree_extents cfg = es"
proof -
  obtain r where r: "digests_per_node_minus_one_inv_mod_u64 2 = Ok r" using digests_inverse [of 2] by auto
  show thesis using small_config [OF assms(1,2), of 21 2 r 16] assms(3) small_dimensions [OF r] that by (auto simp: check_image_covered_def)
qed

lemma levels_21:
  assumes "trailing_bits_mask 2 * r = (1 :: u64)"
  shows "image_allocation_blocks_to_auth_tree_levels 21 2 r 2 0 0 = Ok 2"
proof -
  have q: "required_leaves 21 2 2 0 0 = Ok 4" by (simp add: required_leaves_def add_rounded_up_def shl_u64_def sub_u64_def add_u64_def mul_u64_def div_u64_def)
  have "height_ok 2 (Suc 0)" by (simp add: height_ok_def)
  from auth_subtree_node_count_spec [OF this _ assms, of 0] have s: "auth_subtree_node_count 0 (Suc 0) 2 r = Ok 1" by (simp add: eval_nat_numeral)
  have l: "div_ceil_u32 (ilog2_u64 3 + 1) 2 = 1" by code_simp
  show ?thesis using s by (simp add: image_allocation_blocks_to_auth_tree_levels_def q settle_levels_def l [simplified])
qed

lemma count_21:
  assumes "trailing_bits_mask 2 * r = (1 :: u64)"
  shows "image_allocation_blocks_to_auth_tree_node_count 21 2 2 r 2 0 0 = Ok (5, 0)"
proof -
  have "height_ok 2 (Suc 0)" by (simp add: height_ok_def)
  from auth_subtree_node_count_spec [OF this _ assms, of 0] have s: "auth_subtree_node_count 0 (Suc 0) 2 r = Ok 1" by (simp add: eval_nat_numeral)
  have "tree_count_loop 2 0 (Suc (Suc 0)) 0 1 4 21 = Ok (1, 5, 0)"
    by (simp add: shl_u64_def shr_u64_def add_u64_def sub_u64_def mul_u64_def div_u64_def)
  then have "tree_count_loop 2 0 2 0 1 4 21 = Ok (1, 5, 0)" by (simp only: Suc_1 One_nat_def [symmetric])
  then show ?thesis by (simp add: image_allocation_blocks_to_auth_tree_node_count_def s)
qed

lemma image_node_count_parts:
  assumes count: "config_image_node_count layout I = Ok (n, rest)"
  defines "io \<equiv> unat (io_block_allocation_blocks_log2 layout)" and "a \<equiv> unat (auth_tree_data_block_allocation_blocks_log2 layout)"
  defines "b \<equiv> unat (auth_tree_node_io_blocks_log2 layout) + io"
  defines "s \<equiv> b + unat (allocation_block_size_128b_log2 layout) + 7"
  assumes c: "digests_per_node_log2 s (auth_tree_node_hash_alg layout) = Ok c"
    and d: "digests_per_node_log2 s (auth_tree_data_hmac_hash_alg layout) = Ok d"
    and r: "digests_per_node_minus_one_inv_mod_u64 c = Ok r"
    and h: "image_allocation_blocks_to_auth_tree_levels I c r d b a = Ok h"
  shows "check_node_size s = Ok ()" "check_data_block_size a = Ok ()" "s < 64" "image_allocation_blocks_to_auth_tree_node_count I h c r d b a = Ok (n, rest)"
proof -
  have "check_node_size s = Ok () \<and> check_data_block_size a = Ok () \<and> image_allocation_blocks_to_auth_tree_node_count I h c r d b a = Ok (n, rest)"
    using count r h unfolding config_image_node_count_def Let_def io_def [symmetric] a_def [symmetric] b_def [symmetric] s_def [symmetric] c d
    by (auto simp: outcome_simps)
  then show "check_node_size s = Ok ()" "check_data_block_size a = Ok ()" "s < 64" "image_allocation_blocks_to_auth_tree_node_count I h c r d b a = Ok (n, rest)"
    by (auto simp: check_node_size_def split: if_splits)
qed

lemma config_new_accepts:
  fixes layout :: image_layout
  defines "io \<equiv> unat (io_block_allocation_blocks_log2 layout)" and "a \<equiv> unat (auth_tree_data_block_allocation_blocks_log2 layout)"
  defines "b \<equiv> unat (auth_tree_node_io_blocks_log2 layout) + io"
  defines "s \<equiv> b + unat (allocation_block_size_128b_log2 layout) + 7"
  assumes sizes: "check_node_size s = Ok ()" "check_data_block_size a = Ok ()" "b < 256"
    and c: "digests_per_node_log2 s (auth_tree_node_hash_alg layout) = Ok c"
    and d: "digests_per_node_log2 s (auth_tree_data_hmac_hash_alg layout) = Ok d"
    and es: "le_wf es" "distinct (le_seq es)" "0 < allocation_block_count es" "allocation_block_count es \<le> image_size"
    and aligned: "and_then (and_then (iter es) range_iterator_collect) (check_auth_tree_extents io (max io a)) = Ok ()"
    and keys: "derive_key 1 0 AuthenticationData = Ok data_key" "derive_key 1 0 AuthenticationRoot = Ok root_key"
      "digest_image_context (unat (hash_alg_digest_len (auth_tree_root_hmac_hash_alg layout))) (auth_tree_root_hmac_hash_alg layout) root_key layout image_size es = Ok digest"
    and dim: "config_dimensions (allocation_block_count es) c d b a = Ok (h, r, m)" "check_image_covered image_size (allocation_block_count es) a m = Ok ()"
  shows "\<exists>cfg. auth_tree_config_new True True derive_key digest_image_context layout image_size es = Ok cfg
    \<and> cfg_auth_tree_levels cfg = h \<and> cfg_max_covered_data_block_count cfg = m \<and> cfg_auth_tree_extents cfg = es"
proof -
  obtain bm where bm: "auth_tree_map_new True es = Ok bm" using auth_tree_map_new_spec [OF es(1,2)] by blast
  from aligned obtain xs where xs: "and_then (iter es) range_iterator_collect = Ok xs" "check_auth_tree_extents io (max io a) xs = Ok ()"
    by (auto simp: outcome_simps)
  have sb: "\<not> 256 \<le> b" using sizes(3) by simp
  show ?thesis
    unfolding auth_tree_config_new_def Let_def io_def [symmetric] a_def [symmetric] b_def [symmetric] s_def [symmetric] c d sizes(1,2) xs keys(1,2) bm dim and_then_simps prod.case
    using sb es(3,4) by (simp add: keys(3) bm dim xs keys(1,2))
qed

lemma image_covered_blocks:
  assumes "check_image_covered image_size t a m = Ok ()" "image_size < u64_bound"
  shows "image_size - t \<le> m * 2 ^ a"
proof -
  let ?D = "image_size - t"
  have q: "?D div 2 ^ a * 2 ^ a + ?D mod 2 ^ a = ?D" "?D mod 2 ^ a < 2 ^ a" by (rule div_mult_mod_eq) simp
  have "?D div 2 ^ a * 2 ^ a < u64_bound" using q(1) assms(2) by linarith
  then have "(if ?D div 2 ^ a * 2 ^ a \<noteq> ?D then ?D div 2 ^ a + 1 else ?D div 2 ^ a) \<le> m"
    using assms(1) by (auto simp: check_image_covered_def outcome_simps split: if_splits)
  then have "(if ?D div 2 ^ a * 2 ^ a \<noteq> ?D then ?D div 2 ^ a + 1 else ?D div 2 ^ a) * 2 ^ a \<le> m * 2 ^ a" by (rule mult_le_mono1)
  moreover have "?D \<le> (if ?D div 2 ^ a * 2 ^ a \<noteq> ?D then ?D div 2 ^ a + 1 else ?D div 2 ^ a) * 2 ^ a"
    using q unfolding if_distrib [of "\<lambda>k. k * 2 ^ a"] distrib_right by (simp only: split: if_split) linarith
  ultimately show ?thesis by (rule order_trans [rotated])
qed

section \<open>Properties\<close>

text \<open>
  C4: a configuration that the constructor returns is well formed: the height and the digests per node are within the limits for which the
  positions of nodes are computed without overflow, the inverse is the right one, and the height and the number of covered data
  blocks are those that belong to the number of nodes in the storage of the tree.
\<close>

theorem config_new_wf:
  assumes "auth_tree_config_new mem_map mem_digest derive_key digest_image_context layout image_size es = Ok cfg" "le_wf es"
  shows "config_wf cfg"
  using assms by (rule config_new_wf_spec)

theorem config_new_wf_witness: "\<exists>cfg. sample_new (small_layout Sha256 Sha256) 21 [(3, 5)] = Ok cfg \<and> config_wf cfg"
proof -
  have es: "le_wf [(3, 5)]" "distinct (le_seq [(3, 5)])" "allocation_block_count [(3, 5)] = 5" by (simp_all add: le_wf_def le_seq_def allocation_block_count_def)
  obtain cfg where "sample_new (small_layout Sha256 Sha256) 21 [(3, 5)] = Ok cfg" by (rule sample_config [OF es])
  then show ?thesis using config_new_wf [OF _ es(1)] unfolding sample_new_def by blast
qed

text \<open>
  C5: with the storage of the tree in one extent, the location of the node on the path to a covered data block is found, and it is the place
  in the extent that the node has in the depth first order: different nodes have disjoint locations.
\<close>

theorem node_location_correct:
  fixes x :: u64
  assumes "auth_tree_config_new mem_map mem_digest derive_key digest_image_context layout image_size [(p, N)] = Ok cfg" "le_wf [(p, N)]"
    "tree_node_count cfg \<le> nodes (cfg_node_digests_per_node_log2 cfg) (cfg_auth_tree_levels cfg - 1)"
    "level < cfg_auth_tree_levels cfg" "unat x < cfg_max_covered_data_block_count cfg"
  shows "\<exists>i < tree_node_count cfg. preorder (cfg_node_digests_per_node_log2 cfg) (cfg_data_digests_per_node_log2 cfg) (cfg_auth_tree_levels cfg - 1) 0 ! i
      = (level, unat x - unat x mod 2 ^ (level * cfg_node_digests_per_node_log2 cfg + cfg_data_digests_per_node_log2 cfg))
    \<and> node_physical_location cfg (node_id_new x level (cfg_node_digests_per_node_log2 cfg) (cfg_data_digests_per_node_log2 cfg))
      = Ok (mk_range (p + i * 2 ^ cfg_node_allocation_blocks_log2 cfg) (p + (i + 1) * 2 ^ cfg_node_allocation_blocks_log2 cfg))
    \<and> (i + 1) * 2 ^ cfg_node_allocation_blocks_log2 cfg \<le> N"
proof -
  have es: "cfg_auth_tree_extents cfg = [(p, N)]" using config_new_parts [OF assms(1)] by blast
  from node_location_spec [OF config_new_wf_spec [OF assms(1,2)] es assms(2-5)] obtain i where
    i: "i < tree_node_count cfg" "preorder (cfg_node_digests_per_node_log2 cfg) (cfg_data_digests_per_node_log2 cfg) (cfg_auth_tree_levels cfg - 1) 0 ! i
      = (level, unat x - unat x mod 2 ^ (level * cfg_node_digests_per_node_log2 cfg + cfg_data_digests_per_node_log2 cfg))"
    "(i + 1) * 2 ^ cfg_node_allocation_blocks_log2 cfg \<le> allocation_block_count [(p, N)]"
    "node_physical_location cfg (node_id_new x level (cfg_node_digests_per_node_log2 cfg) (cfg_data_digests_per_node_log2 cfg))
      = and_then (iter_range [(p, N)] (mk_range (i * 2 ^ cfg_node_allocation_blocks_log2 cfg) ((i + 1) * 2 ^ cfg_node_allocation_blocks_log2 cfg))) single_extent_of"
    by blast
  have N: "(i + 1) * 2 ^ cfg_node_allocation_blocks_log2 cfg \<le> N" using i(3) by (simp add: allocation_block_count_def)
  have "i * 2 ^ cfg_node_allocation_blocks_log2 cfg < (i + 1) * 2 ^ cfg_node_allocation_blocks_log2 cfg" by simp
  from single_extent_location [OF assms(2) this N] i(1,2,4) N show ?thesis by (intro exI [of _ i]) simp
qed

theorem node_location_correct_witness:
  "\<exists>cfg i. sample_new (small_layout Sha256 Sha256) 21 [(3, 5)] = Ok cfg \<and> i < 5
    \<and> node_physical_location cfg (node_id_new 0 0 2 2) = Ok (mk_range (3 + i) (3 + (i + 1)))"
proof -
  have es: "le_wf [(3, 5)]" "distinct (le_seq [(3, 5)])" "allocation_block_count [(3, 5)] = 5" by (simp_all add: le_wf_def le_seq_def allocation_block_count_def)
  obtain cfg where cfg: "sample_new (small_layout Sha256 Sha256) 21 [(3, 5)] = Ok cfg" "cfg_node_digests_per_node_log2 cfg = 2" "cfg_data_digests_per_node_log2 cfg = 2"
    "cfg_auth_tree_levels cfg = 2" "cfg_max_covered_data_block_count cfg = 16" "cfg_node_allocation_blocks_log2 cfg = 0" "cfg_auth_tree_extents cfg = [(3, 5)]"
    by (rule sample_config [OF es])
  have n: "tree_node_count cfg = 5" "5 \<le> nodes 2 (2 - 1)" by (simp_all add: tree_node_count_def cfg(6,7) allocation_block_count_def)
  from node_location_correct [OF cfg(1) [unfolded sample_new_def] es(1), of 0 0] show ?thesis using cfg(1) unfolding cfg(2-6) n(1) using n(2) by auto
qed

text \<open>
  C32: a node that is stored behind the first extent of the storage is not found: the lookup of its location ends in
  \<open>nvfs_err_internal!()\<close>, a panic with debug assertions and the error \<open>Internal\<close> in a release build.
\<close>

theorem node_location_second_extent:
  fixes x :: u64
  assumes "auth_tree_config_new mem_map mem_digest derive_key digest_image_context layout image_size es = Ok cfg" "le_wf es"
    "tree_node_count cfg \<le> nodes (cfg_node_digests_per_node_log2 cfg) (cfg_auth_tree_levels cfg - 1)"
    "level < cfg_auth_tree_levels cfg" "unat x < cfg_max_covered_data_block_count cfg"
  shows "\<exists>i < tree_node_count cfg. preorder (cfg_node_digests_per_node_log2 cfg) (cfg_data_digests_per_node_log2 cfg) (cfg_auth_tree_levels cfg - 1) 0 ! i
      = (level, unat x - unat x mod 2 ^ (level * cfg_node_digests_per_node_log2 cfg + cfg_data_digests_per_node_log2 cfg))
    \<and> (snd (es ! 0) \<le> i * 2 ^ cfg_node_allocation_blocks_log2 cfg \<longrightarrow>
       node_physical_location cfg (node_id_new x level (cfg_node_digests_per_node_log2 cfg) (cfg_data_digests_per_node_log2 cfg)) = Panic)"
proof -
  have es: "cfg_auth_tree_extents cfg = es" using config_new_parts [OF assms(1)] by blast
  from node_location_spec [OF config_new_wf_spec [OF assms(1,2)] es assms(2-5)] obtain i where
    i: "i < tree_node_count cfg" "preorder (cfg_node_digests_per_node_log2 cfg) (cfg_data_digests_per_node_log2 cfg) (cfg_auth_tree_levels cfg - 1) 0 ! i
      = (level, unat x - unat x mod 2 ^ (level * cfg_node_digests_per_node_log2 cfg + cfg_data_digests_per_node_log2 cfg))"
    "(i + 1) * 2 ^ cfg_node_allocation_blocks_log2 cfg \<le> allocation_block_count es"
    "node_physical_location cfg (node_id_new x level (cfg_node_digests_per_node_log2 cfg) (cfg_data_digests_per_node_log2 cfg))
      = and_then (iter_range es (mk_range (i * 2 ^ cfg_node_allocation_blocks_log2 cfg) ((i + 1) * 2 ^ cfg_node_allocation_blocks_log2 cfg))) single_extent_of"
    by blast
  have "i * 2 ^ cfg_node_allocation_blocks_log2 cfg < (i + 1) * 2 ^ cfg_node_allocation_blocks_log2 cfg" by simp
  from second_extent_location [OF assms(2) _ this i(3)] i(1,2,4) show ?thesis by (intro exI [of _ i]) simp
qed

theorem node_location_second_extent_witness:
  "\<exists>cfg. sample_new (small_layout Sha256 Sha256) 21 [(3, 1), (8, 5)] = Ok cfg \<and> node_physical_location cfg (node_id_new 0 0 2 2) = Panic"
proof -
  have es: "le_wf [(3, 1), (8, 5)]" "distinct (le_seq [(3, 1), (8, 5)])" "allocation_block_count [(3, 1), (8, 5)] = 5"
    by (simp_all add: le_wf_def le_seq_def allocation_block_count_def)
  obtain cfg where cfg: "sample_new (small_layout Sha256 Sha256) 21 [(3, 1), (8, 5)] = Ok cfg" "cfg_node_digests_per_node_log2 cfg = 2" "cfg_data_digests_per_node_log2 cfg = 2"
    "cfg_auth_tree_levels cfg = 2" "cfg_max_covered_data_block_count cfg = 16" "cfg_node_allocation_blocks_log2 cfg = 0" "cfg_auth_tree_extents cfg = [(3, 1), (8, 5)]"
    by (rule sample_config [OF es])
  have n: "tree_node_count cfg = 5" "5 \<le> nodes 2 (2 - 1)" by (simp_all add: tree_node_count_def cfg(6,7) allocation_block_count_def)
  have "preorder 2 2 (2 - 1) 0 ! 0 = (1, 0)" by simp
  moreover have "i \<noteq> 0" if "preorder 2 2 (2 - 1) 0 ! i = (0, 0)" for i using that calculation by (metis prod.inject zero_neq_one)
  ultimately show ?thesis using node_location_second_extent [OF cfg(1) [unfolded sample_new_def] es(1), of 0 0] cfg(1) unfolding cfg(2-6) n(1) using n(2) by (auto simp: Suc_le_eq)
qed

text \<open>
  C27: an image made with the dimensions that the code chooses for it is accepted when it is opened, under conditions on its size. Let the
  code choose a tree of height \<open>h\<close>, of two levels or more, with \<open>n\<close> nodes and a remainder for an image of \<open>I\<close> blocks, where \<open>I\<close> is below
  \<open>2 ^ 57\<close>, has room for a node beyond a full tree of height \<open>h - 1\<close> with its data, and is at most the size of a full tree of height
  \<open>h\<close> with its data; let a node have at least as many digests of nodes as of data blocks, and the entries of a leaf stand for at least
  as many blocks as a node has digests. Then the constructor, called for the image less the remainder with any disjoint and aligned extents for
  the \<open>n\<close> nodes, returns a configuration of the height \<open>h\<close> that covers all data, given that the derivation of the keys and the digest
  of the context succeed. Images outside of these conditions can be refused, as the next property and the one on trees of a single node show.
\<close>

theorem new_image_dimensions_accepted:
  fixes layout :: image_layout
  defines "io \<equiv> unat (io_block_allocation_blocks_log2 layout)" and "a \<equiv> unat (auth_tree_data_block_allocation_blocks_log2 layout)"
  defines "b \<equiv> unat (auth_tree_node_io_blocks_log2 layout) + io"
  defines "s \<equiv> b + unat (allocation_block_size_128b_log2 layout) + 7"
  assumes count: "config_image_node_count layout I = Ok (n, rest)"
    and c: "digests_per_node_log2 s (auth_tree_node_hash_alg layout) = Ok c" and d: "digests_per_node_log2 s (auth_tree_data_hmac_hash_alg layout) = Ok d"
    and r: "digests_per_node_minus_one_inv_mod_u64 c = Ok r" and h: "image_allocation_blocks_to_auth_tree_levels I c r d b a = Ok h" "2 \<le> h"
    and digests: "d \<le> c" "c \<le> d + a"
    and I: "nodes c (h - 2) * 2 ^ b + 2 ^ ((h - 2) * c + d + a) + 2 ^ b \<le> I" "I \<le> nodes c (h - 1) * 2 ^ b + 2 ^ ((h - 1) * c + d + a)" "I < 2 ^ 57"
    and es: "le_wf es" "distinct (le_seq es)" "allocation_block_count es = n * 2 ^ b"
    and aligned: "and_then (and_then (iter es) range_iterator_collect) (check_auth_tree_extents io (max io a)) = Ok ()"
    and keys: "derive_key 1 0 AuthenticationData = Ok data_key" "derive_key 1 0 AuthenticationRoot = Ok root_key"
      "digest_image_context (unat (hash_alg_digest_len (auth_tree_root_hmac_hash_alg layout))) (auth_tree_root_hmac_hash_alg layout) root_key layout (I - rest) es = Ok digest"
  shows "\<exists>cfg. auth_tree_config_new True True derive_key digest_image_context layout (I - rest) es = Ok cfg
    \<and> cfg_auth_tree_levels cfg = h \<and> I - rest - n * 2 ^ b \<le> cfg_max_covered_data_block_count cfg * 2 ^ a"
proof -
  note parts = image_node_count_parts [OF count c [unfolded s_def b_def io_def] d [unfolded s_def b_def io_def] r h(1) [unfolded b_def io_def a_def],
      folded io_def a_def, folded b_def, folded s_def]
  note cb = digests_per_node_bounds [OF c parts(3)] and db = digests_per_node_bounds [OF d parts(3)]
  have b: "b < 64" "b < 256" using parts(3) by (simp_all add: s_def)
  note a = check_data_block_size_bound [OF parts(2)]
  obtain l where l: "h = Suc (Suc l)" using h(2) by (cases h; cases "h - 1") auto
  have cd: "c < 64" "d < 64" using cb db by simp_all
  from new_image_accepted [OF cb(1) cd(1) b(1) db(1) cd(2) r digests a, of l I] I parts(4) obtain m where
    dim: "config_dimensions (n * 2 ^ b) c d b a = Ok (h, r, m)" "check_image_covered (I - rest) (n * 2 ^ b) a m = Ok ()"
    unfolding l tree_capacity_def by auto
  have "n * 2 ^ b \<le> I - rest" using dim(2) by (auto simp: check_image_covered_def outcome_simps)
  moreover have "0 < n * 2 ^ b"
    using config_dimensions_spec [OF dim(1) cb db a] count_bound [OF es(1)] unfolding es(3) by (cases "n * 2 ^ b") auto
  moreover have "I - rest - n * 2 ^ b \<le> m * 2 ^ a" using I(3) by (intro image_covered_blocks [OF dim(2)]) simp
  ultimately have "0 < allocation_block_count es" "allocation_block_count es \<le> I - rest" and cov: "I - rest - n * 2 ^ b \<le> m * 2 ^ a"
    unfolding es(3) by simp_all
  from config_new_accepts [where derive_key = derive_key and digest_image_context = digest_image_context and layout = layout,
      folded io_def a_def, folded b_def, folded s_def, OF parts(1,2) b(2) c d es(1,2) this(1,2) aligned keys dim [folded es(3)]]
  obtain cfg where "auth_tree_config_new True True derive_key digest_image_context layout (I - rest) es = Ok cfg"
    "cfg_auth_tree_levels cfg = h" "cfg_max_covered_data_block_count cfg = m" by blast
  then show ?thesis using cov by blast
qed

theorem new_image_dimensions_accepted_witness:
  "\<exists>n rest cfg. config_image_node_count (small_layout Sha256 Sha256) 21 = Ok (n, rest) \<and> sample_new (small_layout Sha256 Sha256) (21 - rest) [(3, n)] = Ok cfg
    \<and> cfg_auth_tree_levels cfg = 2 \<and> 21 - rest - n \<le> cfg_max_covered_data_block_count cfg"
proof -
  let ?l = "small_layout Sha256 Sha256"
  obtain r where r: "digests_per_node_minus_one_inv_mod_u64 2 = Ok r" using digests_inverse [of 2] by auto
  have inv: "trailing_bits_mask 2 * r = (1 :: u64)" using digest_inverse_mask [OF _ _ r] by simp
  note h = levels_21 [OF inv]
  have count: "config_image_node_count ?l 21 = Ok (5, 0)"
    using r h count_21 [OF inv] by (simp add: config_image_node_count_def small_layout_def Let_def check_node_size_def check_data_block_size_def small_digests)
  have es: "le_wf [(3, 5)]" "distinct (le_seq [(3, 5)])" "allocation_block_count [(3, 5)] = 5" by (simp_all add: le_wf_def le_seq_def allocation_block_count_def)
  have "and_then (and_then (iter [(3, 5)]) range_iterator_collect) (check_auth_tree_extents 0 (max 0 0)) = Ok ()"
    unfolding iter_all [OF es(1)] and_then_simps max.idem
    using le_at [OF es(1)] by (intro extents_aligned_0) (fastforce simp: physical_range_def extent_at_def)
  then show ?thesis
    using new_image_dimensions_accepted [of ?l 21 5 0 2 2 r 2 "[(3, 5)]" "\<lambda>_ _ _. Ok []" "[]" "[]" "\<lambda>_ _ _ _ _ _. Ok []" "[]"] count r h es
    by (auto simp: small_layout_def small_digests sample_new_def)
qed

text \<open>
  C34: for an image of 23 blocks with four digests per node, the code chooses a tree of two levels with six nodes, one more than such a tree can have. A tree
  of six nodes has three levels and covers 16 blocks, so that the configuration for the image is refused.
\<close>

theorem new_image_dimensions_refused:
  "config_image_node_count (small_layout Sha256 Sha256) 23 = Ok (6, 0)
    \<and> sample_new (small_layout Sha256 Sha256) 23 [(3, 6)] = Err (FsFormatError InvalidAuthTreeDimensions)"
proof -
  obtain r where r: "digests_per_node_minus_one_inv_mod_u64 2 = Ok r" using digests_inverse [of 2] by auto
  have inv: "trailing_bits_mask 2 * r = (1 :: u64)" using digest_inverse_mask [OF _ _ r] by simp
  have "config_image_node_count (small_layout Sha256 Sha256) 23 = Ok (6, 0)"
    using r levels_23 [OF inv] count_23 [OF inv]
    by (simp add: config_image_node_count_def small_layout_def Let_def check_node_size_def check_data_block_size_def small_digests)
  moreover have es: "le_wf [(3, 6)]" "distinct (le_seq [(3, 6)])" "allocation_block_count [(3, 6)] = 6" by (simp_all add: le_wf_def le_seq_def allocation_block_count_def)
  ultimately show ?thesis using small_config [OF es(1,2), of 23 3 r 16] small_dimensions [OF r] by (auto simp: check_image_covered_def)
qed

end
