(* ===== verification/Crc32.thy ===== *)
theory Crc32
  imports Rust_Prelude
begin

text \<open>
  The checksums of \<open>src/storage/src/fs/cocoonfs/crc32.rs\<close> and \<open>checksum.rs\<close>: a pair of CRC-32 values, one over the data
  and one over the data with neighbouring bits swapped. The table driven updates by bytes and by words of 32 bits are shown to be the division
  of polynomials bit by bit, so that a checksum depends neither on how the data is cut into portions nor on how a portion lies in memory;
  since a step of the division can be undone, every change within four consecutive bytes is noticed.
\<close>

section \<open>Lookup tables\<close>

definition crc32_le_lut_ln :: "u32 list" where
  "crc32_le_lut_ln =
     [0x00000000, 0x77073096, 0xee0e612c, 0x990951ba, 0x076dc419, 0x706af48f, 0xe963a535, 0x9e6495a3, 0x0edb8832,
      0x79dcb8a4, 0xe0d5e91e, 0x97d2d988, 0x09b64c2b, 0x7eb17cbd, 0xe7b82d07, 0x90bf1d91]"

definition crc32_le_lut_hn :: "u32 list" where
  "crc32_le_lut_hn =
     [0x00000000, 0x1db71064, 0x3b6e20c8, 0x26d930ac, 0x76dc4190, 0x6b6b51f4, 0x4db26158, 0x5005713c, 0xedb88320,
      0xf00f9344, 0xd6d6a3e8, 0xcb61b38c, 0x9b64c2b0, 0x86d3d2d4, 0xa00ae278, 0xbdbdf21c]"

section \<open>Updating the register\<close>

definition snb_u8 :: "u8 \<Rightarrow> u8" where
  "snb_u8 data = (let t0 = (data XOR drop_bit 1 data) AND 0x55; t1 = push_bit 1 t0 in data XOR t0 XOR t1)"

definition snb_u32 :: "u32 \<Rightarrow> u32" where
  "snb_u32 data = (let t0 = (data XOR drop_bit 1 data) AND 0x55555555; t1 = push_bit 1 t0 in data XOR t0 XOR t1)"

definition crc32le_init :: u32 where
  "crc32le_init = NOT 0"

definition crc32le_finish_send :: "u32 \<Rightarrow> u32" where
  "crc32le_finish_send crc = NOT crc"

definition crc32le_finish_receive :: "u32 \<Rightarrow> u32 \<Rightarrow> bool" where
  "crc32le_finish_receive computed_crc received_crc \<longleftrightarrow> crc32le_finish_send computed_crc = received_crc"

definition crc32le_lookup :: "u32 \<Rightarrow> u32" where
  "crc32le_lookup crc =
     drop_bit 8 crc XOR crc32_le_lut_ln ! unat (crc AND 0xf) XOR crc32_le_lut_hn ! unat (drop_bit 4 crc AND 0xf)"

definition crc32le_update_u8 :: "u32 \<Rightarrow> u8 \<Rightarrow> u32" where
  "crc32le_update_u8 crc data = crc32le_lookup (crc XOR ucast data)"

definition crc32le_update_u8_snb :: "u32 \<Rightarrow> u8 \<Rightarrow> u32" where
  "crc32le_update_u8_snb crc data = crc32le_update_u8 crc (snb_u8 data)"

definition crc32le_update_u32le :: "u32 \<Rightarrow> u32 \<Rightarrow> u32" where
  "crc32le_update_u32le crc data_from_le = (crc32le_lookup ^^ 4) (crc XOR data_from_le)"

definition crc32le_update_u32le_snb :: "u32 \<Rightarrow> u32 \<Rightarrow> u32" where
  "crc32le_update_u32le_snb crc data_from_le = crc32le_update_u32le crc (snb_u32 data_from_le)"

definition crc32le_update_u64le :: "u32 \<Rightarrow> u64 \<Rightarrow> u32" where
  "crc32le_update_u64le crc data_from_le =
     (let crc = crc32le_update_u32le crc (ucast data_from_le) in crc32le_update_u32le crc (ucast (drop_bit 32 data_from_le)))"

definition crc32le_update_u64le_snb :: "u32 \<Rightarrow> u64 \<Rightarrow> u32" where
  "crc32le_update_u64le_snb crc data_from_le =
     (let crc = crc32le_update_u32le_snb crc (ucast data_from_le) in crc32le_update_u32le_snb crc (ucast (drop_bit 32 data_from_le)))"

fun u32_from_le_bytes :: "u8 list \<Rightarrow> u32" where
  "u32_from_le_bytes [] = 0"
| "u32_from_le_bytes (b # bs) = ucast b OR push_bit 8 (u32_from_le_bytes bs)"

definition u32_to_le_bytes :: "u32 \<Rightarrow> u8 list" where
  "u32_to_le_bytes w = map (\<lambda>i. ucast (drop_bit (8 * i) w)) [0..<4]"

text \<open>
  The slice is split into bytes, words and bytes by \<open>slice::align_to()\<close>; where depends on its
  address. The length of the first part and the number of words are arguments.
\<close>

fun le_words :: "nat \<Rightarrow> u8 list \<Rightarrow> u32 list" where
  "le_words 0 data = []"
| "le_words (Suc n) data = u32_from_le_bytes (take 4 data) # le_words n (drop 4 data)"

definition align_to_u32 :: "nat \<Rightarrow> nat \<Rightarrow> u8 list \<Rightarrow> u8 list \<times> u32 list \<times> u8 list" where
  "align_to_u32 head_len words data = (take head_len data, le_words words (drop head_len data), drop (head_len + 4 * words) data)"

definition crc32le_update_data :: "nat \<Rightarrow> nat \<Rightarrow> u32 \<Rightarrow> u8 list \<Rightarrow> u32" where
  "crc32le_update_data head_len words crc data =
     (let (head, middle, tail) = align_to_u32 head_len words data;
          crc = foldl crc32le_update_u8 crc head;
          crc = foldl crc32le_update_u32le crc middle
      in foldl crc32le_update_u8 crc tail)"

definition crc32le_update_data_snb :: "nat \<Rightarrow> nat \<Rightarrow> u32 \<Rightarrow> u8 list \<Rightarrow> u32" where
  "crc32le_update_data_snb head_len words crc data =
     (let (head, middle, tail) = align_to_u32 head_len words data;
          crc = foldl crc32le_update_u8_snb crc head;
          crc = foldl crc32le_update_u32le_snb crc middle
      in foldl crc32le_update_u8_snb crc tail)"

section \<open>Checksums\<close>

definition CHECKSUM_LEN :: nat where
  "CHECKSUM_LEN = 2 * 4"

record checksum_instance =
  cs_crc :: u32
  cs_crc_snb :: u32

definition checksum_new :: checksum_instance where
  "checksum_new = \<lparr>cs_crc = crc32le_init, cs_crc_snb = crc32le_init\<rparr>"

definition checksum_update :: "nat \<Rightarrow> nat \<Rightarrow> checksum_instance \<Rightarrow> u8 list \<Rightarrow> checksum_instance" where
  "checksum_update head_len words c data =
     c\<lparr>cs_crc := crc32le_update_data head_len words (cs_crc c) data,
       cs_crc_snb := crc32le_update_data_snb head_len words (cs_crc_snb c) data\<rparr>"

definition checksum_finish_send :: "checksum_instance \<Rightarrow> u8 list" where
  "checksum_finish_send c = u32_to_le_bytes (crc32le_finish_send (cs_crc c)) @ u32_to_le_bytes (crc32le_finish_send (cs_crc_snb c))"

definition checksum_finish_receive :: "checksum_instance \<Rightarrow> u8 list \<Rightarrow> bool outcome" where
  "checksum_finish_receive c expected_checksum =
     debug_assert (length expected_checksum = CHECKSUM_LEN)
     (Ok (crc32le_finish_receive (cs_crc c) (u32_from_le_bytes (take 4 expected_checksum))
        \<and> crc32le_finish_receive (cs_crc_snb c) (u32_from_le_bytes (drop 4 expected_checksum))))"

section \<open>Division of polynomials bit by bit\<close>

definition crc_shift :: "u32 \<Rightarrow> u32" where
  "crc_shift c = drop_bit 1 c XOR (if bit c 0 then 0xedb88320 else 0)"

lemma crc_shift_xor: "crc_shift (a XOR b) = crc_shift a XOR crc_shift b"
  by (auto simp: crc_shift_def bit_simps intro!: bit_word_eqI)

lemma crc_shifts_xor: "(crc_shift ^^ n) (a XOR b) = (crc_shift ^^ n) a XOR (crc_shift ^^ n) b"
  by (induction n arbitrary: a b) (simp_all add: crc_shift_xor)

lemma crc_shifts_zero: "\<forall>i<n. \<not> bit c i \<Longrightarrow> (crc_shift ^^ n) c = drop_bit n c"
proof (induction n arbitrary: c)
  case (Suc n)
  have "crc_shift c = drop_bit 1 c" using Suc.prems by (simp add: crc_shift_def)
  moreover have "\<forall>i<n. \<not> bit (drop_bit 1 c) i" using Suc.prems by (simp add: bit_simps)
  ultimately show ?case using Suc.IH [of "drop_bit 1 c"] by (simp only: funpow_Suc_right o_apply) (simp add: drop_bit_drop_bit)
qed simp

lemma lut_ln_table: "map (\<lambda>n. (crc_shift ^^ 8) (of_nat n)) [0..<16] = crc32_le_lut_ln"
  by code_simp

lemma lut_hn_table: "map (\<lambda>n. (crc_shift ^^ 8) (push_bit 4 (of_nat n))) [0..<16] = crc32_le_lut_hn"
  by code_simp

lemma nth_table: "map f [0..<n] = xs \<Longrightarrow> i < n \<Longrightarrow> xs ! i = f i"
  by auto

lemma and_0xf: "w AND 0xf = take_bit 4 w" for w :: u32
  by (simp add: take_bit_eq_mask mask_eq_exp_minus_1)

lemma unat_take_bit_4: "unat (take_bit 4 w) < 16" for w :: u32
  using take_bit_nat_less_exp [of 4 "unat w"] by (simp only: unsigned_take_bit_eq) simp

lemma crc32le_lookup_eq: "crc32le_lookup c = (crc_shift ^^ 8) c"
proof -
  let ?l = "take_bit 4 c" and ?m = "take_bit 4 (drop_bit 4 c)"
  define h where "h = push_bit 8 (drop_bit 8 c)"
  have "c = h XOR ?l XOR push_bit 4 ?m"
    by (rule bit_word_eqI) (auto simp: h_def bit_simps)
  moreover have "(crc_shift ^^ 8) ?l = crc32_le_lut_ln ! unat ?l" using nth_table [OF lut_ln_table, of "unat ?l"] unat_take_bit_4 [of c] by simp
  moreover have "(crc_shift ^^ 8) (push_bit 4 ?m) = crc32_le_lut_hn ! unat ?m"
    using nth_table [OF lut_hn_table, of "unat ?m"] unat_take_bit_4 [of "drop_bit 4 c"] by simp
  moreover have "(crc_shift ^^ 8) h = drop_bit 8 c"
  proof -
    have "\<forall>i<8. \<not> bit h i" by (simp add: h_def bit_simps)
    moreover have "drop_bit 8 h = drop_bit 8 c" by (rule bit_word_eqI) (auto simp: h_def bit_simps dest: bit_imp_le_length)
    ultimately show ?thesis using crc_shifts_zero [of 8 h] by simp
  qed
  ultimately show ?thesis unfolding crc32le_lookup_def and_0xf by (metis crc_shifts_xor)
qed

lemma update_u8_eq: "crc32le_update_u8 crc b = (crc_shift ^^ 8) (crc XOR ucast b)"
  by (simp add: crc32le_update_u8_def crc32le_lookup_eq)

lemma update_u32le_eq: "crc32le_update_u32le crc w = (crc_shift ^^ 32) (crc XOR w)"
proof -
  have "crc32le_lookup = crc_shift ^^ 8" by (rule ext) (rule crc32le_lookup_eq)
  then have "crc32le_lookup ^^ 4 = crc_shift ^^ (8 * 4)" using funpow_mult [of 4 8 crc_shift] by (simp only: mult.commute)
  then show ?thesis by (simp add: crc32le_update_u32le_def del: funpow.simps)
qed

lemma bit_u32_from_le_bytes:
  "bit (u32_from_le_bytes bs) i \<longleftrightarrow> i < 32 \<and> i div 8 < length bs \<and> bit (bs ! (i div 8)) (i mod 8)"
proof (induction bs arbitrary: i)
  case (Cons b bs)
  show ?case
  proof (cases "i < 8")
    case True
    then show ?thesis by (auto simp: bit_simps)
  next
    case False
    then have "i div 8 = Suc ((i - 8) div 8)" "(i - 8) mod 8 = i mod 8" by (simp_all add: div_if mod_if)
    then show ?thesis using False Cons.IH [of "i - 8"] by (auto simp: bit_simps bit_imp_le_length dest: bit_imp_le_length)
  qed
qed simp

lemma update_bytes_eq:
  "length bs \<le> 4 \<Longrightarrow> foldl crc32le_update_u8 crc bs = (crc_shift ^^ (8 * length bs)) (crc XOR u32_from_le_bytes bs)"
proof (induction bs arbitrary: crc)
  case (Cons b bs)
  let ?w = "u32_from_le_bytes bs"
  have or_xor: "u32_from_le_bytes (b # bs) = ucast b XOR push_bit 8 ?w"
    by (rule bit_word_eqI) (auto simp: bit_simps dest: bit_imp_le_length)
  have drop: "drop_bit 8 (push_bit 8 ?w) = ?w"
  proof (rule bit_word_eqI)
    fix i assume "i < LENGTH(32)"
    have "i < 24" if "bit ?w i" using that Cons.prems by (auto simp: bit_u32_from_le_bytes)
    then show "bit (drop_bit 8 (push_bit 8 ?w)) i \<longleftrightarrow> bit ?w i" by (auto simp: bit_simps)
  qed
  have "\<forall>i<8. \<not> bit (push_bit 8 ?w) i" by (simp add: bit_simps)
  from crc_shifts_zero [OF this] drop have w: "(crc_shift ^^ 8) (push_bit 8 ?w) = ?w" by simp
  have "(crc_shift ^^ 8) (crc XOR ucast b) XOR ?w = (crc_shift ^^ 8) (crc XOR u32_from_le_bytes (b # bs))"
    unfolding or_xor xor.assoc [symmetric] crc_shifts_xor [of 8 _ "push_bit 8 ?w"] w ..
  moreover have "8 * length (b # bs) = 8 * length bs + 8" by simp
  ultimately show ?case using Cons by (simp only: foldl.simps update_u8_eq funpow_add o_apply)
qed simp

section \<open>Slices\<close>

lemma update_words_eq:
  "4 * n \<le> length data \<Longrightarrow> foldl crc32le_update_u32le crc (le_words n data) = foldl crc32le_update_u8 crc (take (4 * n) data)"
proof (induction n arbitrary: crc data)
  case (Suc n)
  have "take (4 * Suc n) data = take 4 data @ take (4 * n) (drop 4 data)" by (simp add: take_add)
  then show ?case using Suc update_bytes_eq [of "take 4 data" crc] by (simp add: update_u32le_eq)
qed simp

lemma update_data_eq:
  assumes "head_len + 4 * words \<le> length data"
  shows "crc32le_update_data head_len words crc data = foldl crc32le_update_u8 crc data"
proof -
  have "data = take head_len data @ take (4 * words) (drop head_len data) @ drop (head_len + 4 * words) data"
    by (metis append_assoc append_take_drop_id take_add)
  then have "foldl crc32le_update_u8 crc data = foldl crc32le_update_u8 crc (take head_len data @ take (4 * words) (drop head_len data) @ drop (head_len + 4 * words) data)"
    by simp
  then show ?thesis using update_words_eq [of words "drop head_len data"] assms by (simp add: crc32le_update_data_def align_to_u32_def)
qed

section \<open>Swapping neighbouring bits\<close>

definition neighbour :: "nat \<Rightarrow> nat" where
  "neighbour i = (if even i then i + 1 else i - 1)"

lemma swap_neighbours:
  fixes d m :: "'a :: len word"
  assumes m: "\<And>i. i < LENGTH('a) \<Longrightarrow> bit m i \<longleftrightarrow> even i" and i: "i < LENGTH('a)"
  defines "t \<equiv> (d XOR drop_bit 1 d) AND m"
  shows "bit (d XOR t XOR push_bit 1 t) i \<longleftrightarrow> bit d (neighbour i)"
proof -
  have t: "bit t j \<longleftrightarrow> even j \<and> bit d j \<noteq> bit d (Suc j)" if "j < LENGTH('a)" for j
    using that m [OF that] by (auto simp: t_def bit_and_iff bit_xor_iff bit_drop_bit_eq)
  have p: "bit (push_bit 1 t) i \<longleftrightarrow> 1 \<le> i \<and> bit t (i - 1)" using i by (simp only: bit_push_bit_iff possible_bit_word) auto
  show ?thesis unfolding bit_xor_iff p t [OF i] using t [of "i - 1"] i by (cases "even i"; cases i) (auto simp: neighbour_def)
qed

lemma masks_0x55: "map (bit (0x55 :: u8)) [0..<8] = map even [0..<8]" "map (bit (0x55555555 :: u32)) [0..<32] = map even [0..<32]"
  by code_simp+

lemma bit_snb_u8: "i < 8 \<Longrightarrow> bit (snb_u8 d) i \<longleftrightarrow> bit d (neighbour i)"
  unfolding snb_u8_def Let_def by (rule swap_neighbours) (use nth_table [OF masks_0x55(1) [symmetric]] in \<open>simp_all\<close>)

lemma bit_snb_u32: "i < 32 \<Longrightarrow> bit (snb_u32 d) i \<longleftrightarrow> bit d (neighbour i)"
  unfolding snb_u32_def Let_def by (rule swap_neighbours) (use nth_table [OF masks_0x55(2) [symmetric]] in \<open>simp_all\<close>)

lemma neighbour_table: "list_all (\<lambda>i. neighbour i div 8 = i div 8 \<and> neighbour i mod 8 = neighbour (i mod 8) \<and> neighbour i < 32) [0..<32]"
  by code_simp

lemma snb_u32_bytes:
  assumes "length bs = 4"
  shows "snb_u32 (u32_from_le_bytes bs) = u32_from_le_bytes (map snb_u8 bs)"
proof (rule bit_word_eqI)
  fix i assume "i < LENGTH(32)"
  then have i: "i < 32" by simp
  have n: "neighbour i div 8 = i div 8" "neighbour i mod 8 = neighbour (i mod 8)" "neighbour i < 32"
    using neighbour_table i by (simp_all add: list_all_iff del: upt_rec_numeral)
  show "bit (snb_u32 (u32_from_le_bytes bs)) i \<longleftrightarrow> bit (u32_from_le_bytes (map snb_u8 bs)) i"
    unfolding bit_snb_u32 [OF i] bit_u32_from_le_bytes n using i n(3) assms by (simp add: bit_snb_u8)
qed

lemma update_words_snb_eq:
  "4 * n \<le> length data \<Longrightarrow> foldl crc32le_update_u32le_snb crc (le_words n data) = foldl crc32le_update_u32le crc (le_words n (map snb_u8 data))"
proof (induction n arbitrary: crc data)
  case (Suc n)
  then show ?case using snb_u32_bytes [of "take 4 data"] by (simp add: crc32le_update_u32le_snb_def take_map drop_map)
qed simp

lemma foldl_snb: "foldl crc32le_update_u8_snb crc bs = foldl crc32le_update_u8 crc (map snb_u8 bs)"
  by (induction bs arbitrary: crc) (simp_all add: crc32le_update_u8_snb_def)

lemma update_data_snb_eq:
  assumes "head_len + 4 * words \<le> length data"
  shows "crc32le_update_data_snb head_len words crc data = foldl crc32le_update_u8 crc (map snb_u8 data)"
proof -
  have "4 * words \<le> length (drop head_len data)" using assms by simp
  from update_words_snb_eq [OF this]
  have "crc32le_update_data_snb head_len words crc data = crc32le_update_data head_len words crc (map snb_u8 data)"
    by (simp add: crc32le_update_data_snb_def crc32le_update_data_def align_to_u32_def foldl_snb take_map drop_map)
  also have "\<dots> = foldl crc32le_update_u8 crc (map snb_u8 data)" by (rule update_data_eq) (use assms in simp)
  finally show ?thesis .
qed

section \<open>Detection of changes\<close>

lemma bit_31_poly: "bit (0xedb88320 :: u32) 31"
  by simp

lemma xor_cancel: "a XOR c = b XOR c \<Longrightarrow> a = b" for a b c :: u32
proof -
  assume "a XOR c = b XOR c"
  then have "(a XOR c) XOR c = (b XOR c) XOR c" by simp
  then show ?thesis by (simp add: xor.assoc)
qed

lemma inj_crc_shift: "inj crc_shift"
proof (rule injI)
  fix a b assume eq: "crc_shift a = crc_shift b"
  have top: "bit (crc_shift c) 31 \<longleftrightarrow> bit c 0" for c by (auto simp: crc_shift_def bit_xor_iff bit_drop_bit_eq bit_31_poly dest: bit_imp_le_length)
  then have z: "bit a 0 \<longleftrightarrow> bit b 0" using eq by metis
  have d: "drop_bit 1 a = drop_bit 1 b" using xor_cancel [OF eq [unfolded crc_shift_def z]] .
  show "a = b"
  proof (rule bit_word_eqI)
    fix i show "bit a i \<longleftrightarrow> bit b i"
    proof (cases i)
      case 0
      then show ?thesis using z by simp
    next
      case (Suc j)
      then show ?thesis using d by (metis bit_drop_bit_eq comp_apply plus_1_eq_Suc)
    qed
  qed
qed

lemma inj_crc_shifts: "inj (crc_shift ^^ n)"
proof (induction n)
  case (Suc n)
  show ?case unfolding funpow.simps by (rule inj_compose [OF inj_crc_shift Suc])
qed simp

lemma u32_from_le_bytes_inj:
  assumes "u32_from_le_bytes xs = u32_from_le_bytes ys" "length xs = length ys" "length ys \<le> 4"
  shows "xs = ys"
proof (rule nth_equalityI)
  fix i assume i: "i < length xs"
  show "xs ! i = ys ! i"
  proof (rule bit_word_eqI)
    fix j assume "j < LENGTH(8)"
    then have "(8 * i + j) div 8 = i" "(8 * i + j) mod 8 = j" "8 * i + j < 32" using i assms(2,3) by auto
    then show "bit (xs ! i) j \<longleftrightarrow> bit (ys ! i) j"
      using bit_u32_from_le_bytes [of xs "8 * i + j"] bit_u32_from_le_bytes [of ys "8 * i + j"] assms(1,2) i by simp
  qed
qed (use assms in simp)

lemma update_bytes_inj:
  assumes "foldl crc32le_update_u8 crc xs = foldl crc32le_update_u8 crc ys" "length xs = length ys" "length ys \<le> 4"
  shows "xs = ys"
proof -
  have "(crc_shift ^^ (8 * length ys)) (crc XOR u32_from_le_bytes xs) = (crc_shift ^^ (8 * length ys)) (crc XOR u32_from_le_bytes ys)"
    using assms update_bytes_eq [of xs crc] update_bytes_eq [of ys crc] by simp
  then have "crc XOR u32_from_le_bytes xs = crc XOR u32_from_le_bytes ys" by (rule injD [OF inj_crc_shifts])
  then have "u32_from_le_bytes xs = u32_from_le_bytes ys" unfolding xor.commute [of crc] by (rule xor_cancel)
  then show ?thesis using assms(2,3) by (rule u32_from_le_bytes_inj)
qed

lemma update_register_inj: "foldl crc32le_update_u8 crc bs = foldl crc32le_update_u8 crc' bs \<Longrightarrow> crc = crc'"
proof (induction bs arbitrary: crc crc')
  case (Cons b bs)
  from Cons.IH [of "crc32le_update_u8 crc b" "crc32le_update_u8 crc' b"] Cons.prems
  have "(crc_shift ^^ 8) (crc XOR ucast b) = (crc_shift ^^ 8) (crc' XOR ucast b)" by (simp add: update_u8_eq)
  then have "crc XOR ucast b = crc' XOR ucast b" by (rule injD [OF inj_crc_shifts])
  then show ?case by (rule xor_cancel)
qed simp

lemma burst_detected:
  assumes "length xs = length ys" "length ys \<le> 4" "xs \<noteq> ys"
  shows "foldl crc32le_update_u8 crc (pre @ xs @ post) \<noteq> foldl crc32le_update_u8 crc (pre @ ys @ post)"
  using update_register_inj [of _ post] update_bytes_inj [OF _ assms(1,2)] assms(3) by auto

section \<open>Checksums\<close>

lemma length_u32_to_le_bytes [simp]: "length (u32_to_le_bytes w) = 4"
  by (simp add: u32_to_le_bytes_def)

lemma u32_from_to_le_bytes [simp]: "u32_from_le_bytes (u32_to_le_bytes w) = w"
proof (rule bit_word_eqI)
  fix i assume "i < LENGTH(32)"
  then have i: "i < 32" by simp
  then have byte: "i div 8 < 4" by (simp add: div_less_iff_less_mult)
  have "8 * (i div 8) + i mod 8 = i" by simp
  then have "bit (u32_to_le_bytes w ! (i div 8)) (i mod 8) \<longleftrightarrow> bit w i" using byte by (simp add: u32_to_le_bytes_def bit_simps del: div_less_iff_less_mult)
  then show "bit (u32_from_le_bytes (u32_to_le_bytes w)) i \<longleftrightarrow> bit w i"
    unfolding bit_u32_from_le_bytes length_u32_to_le_bytes using i byte by blast
qed

lemma u32_from_le_bytes_iff: "length xs = 4 \<Longrightarrow> u32_from_le_bytes xs = w \<longleftrightarrow> xs = u32_to_le_bytes w"
  using u32_from_le_bytes_inj [of xs "u32_to_le_bytes w"] by auto

lemma finish_receive_iff:
  assumes "length bs = CHECKSUM_LEN"
  shows "checksum_finish_receive c bs = Ok (bs = checksum_finish_send c)"
proof -
  obtain xs ys where bs: "bs = xs @ ys" "length xs = 4" "length ys = 4"
    using assms append_take_drop_id [of 4 bs] by (metis CHECKSUM_LEN_def add_diff_cancel_left' length_append length_drop length_take min.absorb2 le_add1 mult_2)
  have "checksum_finish_receive c bs = Ok (xs = u32_to_le_bytes (crc32le_finish_send (cs_crc c)) \<and> ys = u32_to_le_bytes (crc32le_finish_send (cs_crc_snb c)))"
    using bs by (auto simp: checksum_finish_receive_def CHECKSUM_LEN_def crc32le_finish_receive_def
        u32_from_le_bytes_iff [OF bs(2), symmetric] u32_from_le_bytes_iff [OF bs(3), symmetric])
  then show ?thesis using bs by (simp add: checksum_finish_send_def)
qed

text \<open>
  The data comes in portions, each of them with its place in memory: how many bytes lie before the first aligned word and how many
  words follow.
\<close>

type_synonym portion = "nat \<times> nat \<times> u8 list"

definition portion_ok :: "portion \<Rightarrow> bool" where
  "portion_ok = (\<lambda>(head_len, words, data). head_len + 4 * words \<le> length data)"

definition checksum_updates :: "checksum_instance \<Rightarrow> portion list \<Rightarrow> checksum_instance" where
  "checksum_updates = foldl (\<lambda>c (head_len, words, data). checksum_update head_len words c data)"

definition portion_data :: "portion list \<Rightarrow> u8 list" where
  "portion_data ps = concat (map (\<lambda>(_, _, data). data) ps)"

lemma checksum_updates_eq:
  assumes "\<forall>p \<in> set ps. portion_ok p"
  shows "checksum_updates c ps = \<lparr>cs_crc = foldl crc32le_update_u8 (cs_crc c) (portion_data ps),
    cs_crc_snb = foldl crc32le_update_u8 (cs_crc_snb c) (map snb_u8 (portion_data ps))\<rparr>"
  using assms
proof (induction ps arbitrary: c)
  case (Cons p ps)
  obtain head_len words data where p: "p = (head_len, words, data)" by (cases p)
  with Cons.prems have ok: "head_len + 4 * words \<le> length data" by (simp add: portion_ok_def)
  have "checksum_updates c (p # ps) = checksum_updates (checksum_update head_len words c data) ps" by (simp add: checksum_updates_def p)
  then show ?case using Cons by (simp add: p checksum_update_def update_data_eq [OF ok] update_data_snb_eq [OF ok] portion_data_def)
qed (simp add: checksum_updates_def portion_data_def)

section \<open>Properties\<close>

text \<open>
  Both updates of the register, by a byte and by a word of 32 bits, divide by the polynomial bit by bit; the update by the bytes of
  a slice does not depend on where its aligned words begin and how many of them there are.
\<close>

theorem crc32_update_correct:
  assumes "head_len + 4 * words \<le> length data"
  shows "crc32le_update_u8 crc b = (crc_shift ^^ 8) (crc XOR ucast b)"
    and "crc32le_update_u32le crc w = (crc_shift ^^ 32) (crc XOR w)"
    and "crc32le_update_data head_len words crc data = foldl (\<lambda>crc b. (crc_shift ^^ 8) (crc XOR ucast b)) crc data"
  using update_data_eq [OF assms] by (simp_all only: update_u8_eq [abs_def] update_u32le_eq)

text \<open>
  C40: the verification of a checksum accepts the data it was computed from, and rejects all data that differs from it within up to four
  consecutive bytes. In both runs the data may come in any portions, and each portion may lie anywhere in memory.
\<close>

theorem checksum_verification_correct:
  assumes "\<forall>p \<in> set ps \<union> set qs. portion_ok p" "portion_data ps = pre @ xs @ post" "portion_data qs = pre @ ys @ post"
    "length xs = length ys" "length ys \<le> 4"
  shows "checksum_finish_receive (checksum_updates checksum_new qs) (checksum_finish_send (checksum_updates checksum_new ps)) = Ok (xs = ys)"
proof -
  let ?c = "checksum_updates checksum_new qs" and ?e = "checksum_updates checksum_new ps"
  have send: "length (checksum_finish_send c) = CHECKSUM_LEN" for c by (simp add: checksum_finish_send_def CHECKSUM_LEN_def)
  have ok: "\<forall>p \<in> set ps. portion_ok p" "\<forall>p \<in> set qs. portion_ok p" using assms(1) by auto
  have crc: "cs_crc ?e = foldl crc32le_update_u8 crc32le_init (pre @ xs @ post)" "cs_crc ?c = foldl crc32le_update_u8 crc32le_init (pre @ ys @ post)"
    unfolding checksum_updates_eq [OF ok(1)] checksum_updates_eq [OF ok(2)] assms(2,3) by (simp_all add: checksum_new_def)
  have "checksum_finish_send ?e \<noteq> checksum_finish_send ?c" if "xs \<noteq> ys"
  proof
    assume "checksum_finish_send ?e = checksum_finish_send ?c"
    then have "u32_to_le_bytes (NOT (cs_crc ?e)) = u32_to_le_bytes (NOT (cs_crc ?c))" by (simp add: checksum_finish_send_def crc32le_finish_send_def)
    then have "NOT (cs_crc ?e) = NOT (cs_crc ?c)" by (metis u32_from_to_le_bytes)
    then have "cs_crc ?e = cs_crc ?c" by simp
    then show False using burst_detected [OF assms(4,5) that, of crc32le_init pre post] unfolding crc by simp
  qed
  moreover have "?e = ?c" if "xs = ys" using that assms(2,3) unfolding checksum_updates_eq [OF ok(1)] checksum_updates_eq [OF ok(2)] by simp
  ultimately show ?thesis using finish_receive_iff [OF send, of ?c ?e] by auto
qed

theorem checksum_verification_correct_witness:
  "checksum_finish_receive (checksum_updates checksum_new [(1, 1, [1, 2, 3, 4, 5, 6])])
     (checksum_finish_send (checksum_updates checksum_new [(0, 0, [1, 2, 3]), (0, 0, [4, 5, 7])])) = Ok False"
  using checksum_verification_correct [of "[(0, 0, [1, 2, 3]), (0, 0, [4, 5, 7])]" "[(1, 1, [1, 2, 3, 4, 5, 6])]" "[1, 2, 3, 4, 5]" "[7]" "[]" "[6]"]
  by (simp add: portion_ok_def portion_data_def)

end
