(* ===== verification/Spec2Isabelle.thy ===== *)
theory Spec2Isabelle
  imports Pending_Transactions Logical_Extents Inode_Extents_List Image_Layout Sparse_Bitmap_Iter Sparse_Bitmap_Rollback
    Async_Semaphore_Sys Auth_Tree_Config Crc32
begin

text \<open>
  CocoonFS: the data structures of an encrypted and authenticated filesystem for trusted execution
  environments (\<open>src/storage\<close>), with the helpers of \<open>src/utils-common\<close> they use.

  \<^bold>\<open>The program.\<close> A CocoonFS image is a sequence of allocation blocks on a block device. An image
  layout (\<open>layout.rs\<close>) fixes all block sizes. The blocks of an inode are described by extents,
  which are ranges of blocks (\<open>extents.rs\<close>), stored on disk as extent pointers
  (\<open>extent_ptr.rs\<close>) or as extents lists in a variable length integer encoding
  (\<open>inode_extents_list.rs\<close>, \<open>leb128.rs\<close>). Which blocks are in use is kept in an allocation
  bitmap (\<open>alloc_bitmap/bitmap.rs\<close>); the changes a transaction has pending are kept in sparse
  bitmaps (\<open>alloc_bitmap/sparse_bitmap.rs\<close>), which are applied to it on commit, are dropped or
  rolled back otherwise, and are applied virtually by the iterators the allocator searches with.
  Transactions that are pending at the same time get their blocks through a state they share
  (\<open>fs.rs\<close>, \<open>transaction/mod.rs\<close>), so that what they write before their commits does not collide.
  All data but the tree itself is authenticated by a tree of digests, whose nodes are stored in depth
  first order and whose shape follows from the layout and the size of its storage
  (\<open>auth_tree.rs\<close>). Data that cannot be authenticated yet carries a checksum (\<open>checksum.rs\<close>, \<open>crc32.rs\<close>). Concurrent operations are kept apart by an asynchronous semaphore with leases and exclusive grants
  (\<open>src/utils-async/src/asynchronous/semaphore.rs\<close>).

  \<^bold>\<open>Conventions.\<close> Block numbers and counts are natural numbers with the checks of 64 bit
  arithmetic written out (\<open>add_u64\<close>, \<open>sub_u64\<close>); values whose bits matter are machine words. An
  operation returns an \<open>outcome\<close>: a value, an error of the type \<open>nvfs_error\<close>, or \<open>Panic\<close>,
  which stands for a failed assertion, an overflow, an index out of bounds or \<open>nvfs_err_internal!()\<close>, as in
  a build with debug assertions and overflow checks; a release build returns the error
  \<open>Internal\<close> from the latter. The assertions of the primitives in \<open>bitmanip.rs\<close> on their shift counts are
  the one exception: they are hypotheses of the lemmas of \<open>Bit_Manip\<close>. A reservation of memory that the program makes is a
  parameter, so that every operation is verified for both answers. Conversions to \<open>usize\<close> behave
  as on a 64 bit platform. Loops are recursive functions with termination proofs, over the remaining
  elements or over indices; no fuel is used in the model. Where an operation changes its receiver
  before it fails, the model returns the changed state with the error.

  \<^bold>\<open>Theories.\<close>

  \<^item> \<open>Rust_Prelude\<close>: machine integers, errors, outcomes, checked arithmetic, vectors and binary
    searches, with the simplification rules \<open>outcome_simps\<close> and \<open>bits_simps\<close>.
  \<^item> \<open>Bit_Manip\<close>: the bit manipulation traits of \<open>bitmanip.rs\<close>, on words of any width.
  \<^item> \<open>Block_Range\<close>: block indices and ranges of \<open>layout.rs\<close>, with alignment.
  \<^item> \<open>Block_Set_Spec\<close>, \<open>Change_Tracker_Spec\<close>, \<open>Byte_Codec\<close>, \<open>Iterator_Spec\<close>: the contracts,
    as locales, of a set of blocks, of a tracker of pending changes with rollback, of an encoding,
    and of an iterator; each has its clients' loops verified once and is interpreted on the model.
  \<^item> \<open>Extents_Set\<close>: sorted sets of extents, where insertion and removal are union and difference
    of blocks, and the two binary searches behind the overlap iterator agree with a linear scan.
  \<^item> \<open>Physical_Extents\<close>, \<open>Logical_Extents\<close>: sequences of extents and the map of logical to
    physical blocks; every operation is described by its effect on the sequence of blocks.
  \<^item> \<open>Leb128\<close>, \<open>Extent_Ptr\<close>, \<open>Inode_Extents_List\<close>, \<open>Image_Layout\<close>: the on-disk encodings, with
    round trips in both directions, rejection of malformed input and absence of panics on it.
  \<^item> \<open>Sparse_Bitmap\<close>, \<open>Sparse_Bitmap_Seq\<close>, \<open>Sparse_Bitmap_Diff\<close>: the sparse bitmap; single
    extents, sequences of blocks and extents with the rollback on a failure, differences.
  \<^item> \<open>Alloc_Bitmap\<close>: the dense bitmap.
  \<^item> \<open>Sparse_Bitmap_Union\<close>, \<open>Alloc_Bitmap_Iter\<close>: the iterators over unions of sparse bitmaps and
    over the dense bitmap with pending changes.
  \<^item> \<open>Sparse_Bitmap_Iter\<close>, \<open>Sparse_Bitmap_Rollback\<close>: the iterators over the words and the aligned
    blocks of one sparse bitmap, and the rollback of removals, which never needs memory, for extents
    that end before the last word of the range of block numbers.
  \<^item> \<open>Bitmap_Word\<close>: the operations on all blocks of a bitmap word in parallel, each related to the
    blocks, fields or strings of ones it is about.
  \<^item> \<open>Find_Free_Block\<close>, \<open>Find_Free_Block_Spec\<close>: the search for a free block, from any start and with
    the placement optimization; it finds a free aligned block whenever there is one.
  \<^item> \<open>Transaction_Allocs\<close>, \<open>Transaction_Allocs_Spec\<close>: the allocations of a transaction, the shared
    state with the registration of blocks and extents, and the handlers that allocate blocks, with
    their results on every branch.
  \<^item> \<open>Pending_Transactions\<close>: any interleaving of allocations, frees and releases of blocks by several
    transactions, as a step relation; the blocks they may write to before their commits stay disjoint.
    One failure for lack of memory is no step of it, that of a transaction which holds freed blocks it may
    allocate again: it breaks the invariant, which is shown as well. The allocation of extents and commits are
    no steps either.
  \<^item> \<open>Async_Semaphore\<close>, \<open>Async_Semaphore_Inv\<close>, \<open>Async_Semaphore_Ops\<close>, \<open>Async_Semaphore_Sys\<close>: the
    semaphore, its invariant, the operations that keep it, and the system of a semaphore and its users as a step
    relation in which nobody else acts while the lock is dropped for a reservation of memory for the queue,
    with mutual exclusion, absence of lost wakeups and of panics in all states it reaches; and the two
    interleavings in which others act in the meantime and the latter two fail.
  \<^item> \<open>Auth_Tree_Map\<close>: the map between physical blocks and the blocks the tree authenticates, which
    are the blocks outside of the storage of the tree, numbered in order.
  \<^item> \<open>Auth_Tree_Shape\<close>, \<open>Auth_Tree_Cover\<close>: subtree sizes, positions in depth first order, heights and
    covered data, related to the list of nodes of a complete tree in depth first order.
  \<^item> \<open>Auth_Tree_Levels\<close>, \<open>Auth_Tree_Dimensions\<close>: the height and the number of nodes for a new image.
  \<^item> \<open>Auth_Tree_Node_Id\<close>, \<open>Auth_Tree_Config\<close>: node identifiers, and the configuration of a tree with its
    invariant, the location of nodes, and the images whose dimensions are accepted later on.
  \<^item> \<open>Crc32\<close>: the checksums, whose table driven computation is the division of polynomials bit by bit, and
    which notice every change within four consecutive bytes.

  \<^bold>\<open>Not modelled.\<close> The futures that read, write, authenticate and encrypt data on the block
  device (inode index, journal, transactions, mkfs, the filesystem instance) are sequences of
  asynchronous I/O around the structures above. Cryptographic primitives are mostly third-party code
  behind the front ends of \<open>src/crypto\<close>. The search for free extents in \<open>bitmap.rs\<close> is not
  modelled, nor are the caches and the asynchronous read-write lock. The digests in the nodes of the
  authentication tree and the key derivation are not modelled; the constructor of its configuration takes them as arguments.
\<close>

end
